(* ===== verification/Prelude.thy ===== *)
theory Prelude
  imports Complex_Main "HOL-Library.AList"
begin

text \<open>
  What every component of the development shares: the collection of one-step
  invariant facts, the arithmetic of the JavaScript number type as far as the
  code uses it, stable sorting with a comparator, and the generic contract of
  a component that handles one event after another.

  A JavaScript number that the code treats as a whole number of milliseconds,
  bytes or items is an \<open>int\<close> or a \<open>nat\<close>; a fractional one (seconds,
  pixels) is a \<open>rat\<close>, so the rounding of the 64-bit format is not modelled.
\<close>

named_theorems keeps "one operation of a component keeps its invariant"

section \<open>Numbers\<close>

text \<open>\<open>Math.round\<close>: halves go up, also for negative numbers.\<close>

definition js_round :: "rat \<Rightarrow> int" where
  "js_round x = \<lfloor>x + 1 / 2\<rfloor>"

lemma js_round_of_int [simp]: "js_round (of_int n) = n"
proof -
  have "\<lfloor>(of_int n :: rat) + 1 / 2\<rfloor> = n"
    by (rule floor_unique) simp_all
  then show ?thesis by (simp add: js_round_def)
qed

lemma js_round_numeral [simp]: "js_round (numeral n) = numeral n" "js_round 0 = 0" "js_round 1 = 1"
  using js_round_of_int [of "numeral n"] js_round_of_int [of 0] js_round_of_int [of 1] by simp_all

lemma js_round_mono: "x \<le> y \<Longrightarrow> js_round x \<le> js_round y"
  unfolding js_round_def by (rule floor_mono) simp

lemma js_round_nonneg: "0 \<le> x \<Longrightarrow> 0 \<le> js_round x"
  using js_round_mono [of 0 x] js_round_of_int [of 0] by simp

section \<open>Optional values\<close>

text \<open>\<open>value || null\<close> on an optional string: the empty string counts as absent.\<close>

definition or_null :: "string option \<Rightarrow> string option" where
  "or_null v = (case v of None \<Rightarrow> None | Some s \<Rightarrow> if s = [] then None else Some s)"

lemma or_null_Some_iff [simp]: "or_null v = Some s \<longleftrightarrow> v = Some s \<and> s \<noteq> []"
  by (auto simp: or_null_def split: option.splits)

text \<open>\<open>value ?? fallback\<close>.\<close>

definition orElse :: "'a option \<Rightarrow> 'a \<Rightarrow> 'a" where
  "orElse v d = (case v of None \<Rightarrow> d | Some x \<Rightarrow> x)"

lemma orElse_simps [simp]: "orElse None d = d" "orElse (Some x) d = x"
  by (simp_all add: orElse_def)

section \<open>Stable sorting with a comparator\<close>

text \<open>
  \<open>Array.prototype.sort\<close> is stable, so a comparator that is a total preorder
  has one result: the one insertion from the right computes. \<open>le a b\<close> stands
  for a comparator result that is not positive.
\<close>

fun insert_by :: "('a \<Rightarrow> 'a \<Rightarrow> bool) \<Rightarrow> 'a \<Rightarrow> 'a list \<Rightarrow> 'a list" where
  "insert_by le x [] = [x]"
| "insert_by le x (y # ys) = (if le x y then x # y # ys else y # insert_by le x ys)"

definition sort_by :: "('a \<Rightarrow> 'a \<Rightarrow> bool) \<Rightarrow> 'a list \<Rightarrow> 'a list" where
  "sort_by le xs = foldr (insert_by le) xs []"

lemma sort_by_simps [simp]:
  "sort_by le [] = []"
  "sort_by le (x # xs) = insert_by le x (sort_by le xs)"
  by (simp_all add: sort_by_def)

lemma set_insert_by [simp]: "set (insert_by le x ys) = insert x (set ys)"
  by (induction ys) auto

lemma set_sort_by [simp]: "set (sort_by le xs) = set xs"
  by (induction xs) auto

lemma length_insert_by [simp]: "length (insert_by le x ys) = Suc (length ys)"
  by (induction ys) auto

lemma length_sort_by [simp]: "length (sort_by le xs) = length xs"
  by (induction xs) auto

lemma distinct_map_insert_by:
  "distinct (map f (insert_by le x ys)) \<longleftrightarrow> f x \<notin> f ` set ys \<and> distinct (map f ys)"
  by (induction ys) auto

lemma distinct_map_sort_by [simp]: "distinct (map f (sort_by le xs)) \<longleftrightarrow> distinct (map f xs)"
  by (induction xs) (auto simp: distinct_map_insert_by)

lemma sorted_wrt_insert_by:
  assumes total: "\<And>a b. le a b \<or> le b a"
    and trans: "\<And>a b c. le a b \<Longrightarrow> le b c \<Longrightarrow> le a c"
  shows "sorted_wrt le ys \<Longrightarrow> sorted_wrt le (insert_by le x ys)"
proof (induction ys)
  case Nil
  then show ?case by simp
next
  case (Cons y ys)
  then show ?case using total trans by (auto; blast)
qed

lemma sorted_wrt_sort_by:
  assumes "\<And>a b. le a b \<or> le b a" and "\<And>a b c. le a b \<Longrightarrow> le b c \<Longrightarrow> le a c"
  shows "sorted_wrt le (sort_by le xs)"
  by (induction xs) (use sorted_wrt_insert_by [OF assms] in auto)

section \<open>Lists\<close>

text \<open>\<open>slice(-n)\<close> for a positive \<open>n\<close>: the last \<open>n\<close> elements.\<close>

definition take_last :: "nat \<Rightarrow> 'a list \<Rightarrow> 'a list" where
  "take_last n xs = drop (length xs - n) xs"

lemma length_take_last [simp]: "length (take_last n xs) = min n (length xs)"
  by (simp add: take_last_def)

lemma set_take_last: "set (take_last n xs) \<subseteq> set xs"
  by (simp add: take_last_def set_drop_subset)

lemma take_last_all [simp]: "length xs \<le> n \<Longrightarrow> take_last n xs = xs"
  by (simp add: take_last_def)

lemma distinct_map_remove1: "distinct (map f xs) \<Longrightarrow> distinct (map f (remove1 x xs))"
proof (induction xs)
  case (Cons y xs)
  then show ?case using set_remove1_subset [of x xs] by auto
qed simp

lemma distinct_map_remove1_notin:
  assumes "distinct (map f xs)" and "x \<in> set xs"
  shows "f x \<notin> f ` set (remove1 x xs)"
proof -
  have "distinct xs" "inj_on f (set xs)" using assms(1) by (simp_all add: distinct_map)
  then show ?thesis using assms(2) by (auto simp: inj_on_def)
qed

section \<open>Maps and sets in insertion order\<close>

text \<open>
  A JavaScript \<open>Map\<close> iterates its keys in the order they were first set, and a
  \<open>Set\<close> its members in the order they were added: an association list updated
  in place (\<open>AList.update\<close> keeps an old key's position and appends a new one)
  and a list without repetitions.
\<close>

type_synonym ('k, 'v) jsmap = "('k \<times> 'v) list"

abbreviation mapGet :: "('k, 'v) jsmap \<Rightarrow> 'k \<Rightarrow> 'v option" where
  "mapGet \<equiv> map_of"

abbreviation mapSet :: "'k \<Rightarrow> 'v \<Rightarrow> ('k, 'v) jsmap \<Rightarrow> ('k, 'v) jsmap" where
  "mapSet \<equiv> AList.update"

abbreviation mapDelete :: "'k \<Rightarrow> ('k, 'v) jsmap \<Rightarrow> ('k, 'v) jsmap" where
  "mapDelete \<equiv> AList.delete"

abbreviation mapKeys :: "('k, 'v) jsmap \<Rightarrow> 'k list" where
  "mapKeys m \<equiv> map fst m"

definition addTo :: "'a list \<Rightarrow> 'a \<Rightarrow> 'a list" where
  "addTo xs x = (if x \<in> set xs then xs else xs @ [x])"

lemma mapGet_set [simp]: "mapGet (mapSet k v m) = (mapGet m)(k \<mapsto> v)"
  by (rule update_conv')

lemma mapGet_delete [simp]: "mapGet (mapDelete k m) = (mapGet m)(k := None)"
  by (rule delete_conv')

lemma mapKeys_set [simp]: "fst ` set (mapSet k v m) = insert k (fst ` set m)"
  by (induction m) auto

lemma set_mapSet_subset: "set (mapSet k v m) \<subseteq> insert (k, v) (set m)"
  by (induction m) auto

lemma mapGet_None: "mapGet m k = None \<longleftrightarrow> k \<notin> set (mapKeys m)"
  by (simp add: map_of_eq_None_iff)

lemma set_addTo [simp]: "set (addTo xs x) = insert x (set xs)"
  by (auto simp: addTo_def)

lemma distinct_addTo [simp]: "distinct (addTo xs x) \<longleftrightarrow> distinct xs"
  by (auto simp: addTo_def)

section \<open>Components that handle one event after another\<close>

text \<open>
  The contract a stateful component offers: a step function and an invariant
  every step keeps, whatever the event. Its client's lemma is that the
  invariant holds after any sequence of events, at every moment of it.
\<close>

locale component =
  fixes step :: "'s \<Rightarrow> 'e \<Rightarrow> 's"
    and inv :: "'s \<Rightarrow> bool"
  assumes step_keeps: "inv s \<Longrightarrow> inv (step s e)"
begin

lemma run_keeps: "inv s \<Longrightarrow> inv (foldl step s es)"
  by (induction es arbitrary: s) (simp_all add: step_keeps)

end

text \<open>
  A component one of whose observations only moves up (a counter, a cursor):
  what was reached is never lost.
\<close>

locale monotone_component = component step inv
  for step :: "'s \<Rightarrow> 'e \<Rightarrow> 's" and inv :: "'s \<Rightarrow> bool" +
  fixes level :: "'s \<Rightarrow> 'l :: preorder"
  assumes step_mono: "inv s \<Longrightarrow> level s \<le> level (step s e)"
begin

lemma run_mono: "inv s \<Longrightarrow> level s \<le> level (foldl step s es)"
proof (induction es arbitrary: s)
  case Nil
  then show ?case by simp
next
  case (Cons e es)
  have "level s \<le> level (step s e)" using Cons.prems by (rule step_mono)
  also have "\<dots> \<le> level (foldl step (step s e) es)"
    using Cons.prems by (intro Cons.IH step_keeps)
  finally show ?case by simp
qed

end

text \<open>
  A component whose environment keeps a promise: \<open>ok s e\<close> is what an event
  that comes in state \<open>s\<close> must satisfy, and \<open>along\<close> says that every event of
  a run does.
\<close>

fun along :: "('s \<Rightarrow> 'e \<Rightarrow> 's) \<Rightarrow> ('s \<Rightarrow> 'e \<Rightarrow> bool) \<Rightarrow> 's \<Rightarrow> 'e list \<Rightarrow> bool" where
  "along step ok s [] = True"
| "along step ok s (e # es) = (ok s e \<and> along step ok (step s e) es)"

lemma along_append: "along step ok s (es @ fs) \<longleftrightarrow> along step ok s es \<and> along step ok (foldl step s es) fs"
  by (induction es arbitrary: s) auto

locale guarded_component =
  fixes step :: "'s \<Rightarrow> 'e \<Rightarrow> 's"
    and ok :: "'s \<Rightarrow> 'e \<Rightarrow> bool"
    and inv :: "'s \<Rightarrow> bool"
  assumes step_keeps: "inv s \<Longrightarrow> ok s e \<Longrightarrow> inv (step s e)"
begin

lemma run_keeps: "inv s \<Longrightarrow> along step ok s es \<Longrightarrow> inv (foldl step s es)"
  by (induction es arbitrary: s) (simp_all add: step_keeps)

end

end
