(* ===== verification/JsText.thy ===== *)
theory JsText
  imports Prelude "HOL-Library.Monad_Syntax" "HOL-Library.Sublist"
begin

text \<open>
  The part of the JavaScript string library the program uses, on \<open>string\<close>.
  A \<open>char\<close> stands for one UTF-16 code unit below 256; every test the modelled
  code makes on a character is about ASCII or Latin-1, so a code unit above
  that range behaves like any other ordinary one.

  Each function is the standard one: \<open>trim\<close>, \<open>split\<close>, \<open>join\<close>, \<open>indexOf\<close>,
  \<open>slice\<close>, \<open>padStart\<close>, \<open>String(n)\<close>, \<open>Number(digits)\<close> and \<open>parseInt\<close>,
  with the round trips between them.
\<close>

section \<open>Characters\<close>

definition codeOf :: "char \<Rightarrow> nat" where
  "codeOf c = of_char c"

definition chr :: "nat \<Rightarrow> char" where
  "chr n = char_of n"

text \<open>What \<open>\s\<close> and \<open>trim\<close> call white space, among the code units below 256.\<close>

definition isSpace :: "char \<Rightarrow> bool" where
  "isSpace c \<longleftrightarrow> (9 \<le> codeOf c \<and> codeOf c \<le> 13) \<or> codeOf c = 32 \<or> codeOf c = 160"

definition isDigit :: "char \<Rightarrow> bool" where
  "isDigit c \<longleftrightarrow> 48 \<le> codeOf c \<and> codeOf c \<le> 57"

definition isAlpha :: "char \<Rightarrow> bool" where
  "isAlpha c \<longleftrightarrow> (65 \<le> codeOf c \<and> codeOf c \<le> 90) \<or> (97 \<le> codeOf c \<and> codeOf c \<le> 122)"

text \<open>\<open>toLowerCase\<close>, Latin-1 capitals included.\<close>

definition lowerChar :: "char \<Rightarrow> char" where
  "lowerChar c =
     (if (65 \<le> codeOf c \<and> codeOf c \<le> 90) \<or> (192 \<le> codeOf c \<and> codeOf c \<le> 222 \<and> codeOf c \<noteq> 215)
      then chr (codeOf c + 32) else c)"

definition lower :: "string \<Rightarrow> string" where
  "lower s = map lowerChar s"

definition NL :: char where "NL = CHR 0x0A"

definition CR :: char where "CR = CHR 0x0D"

lemma codeOf_chr [simp]: "n < 256 \<Longrightarrow> codeOf (chr n) = n"
  by (simp add: codeOf_def chr_def)

lemma codeOf_less [simp]: "codeOf c < 256"
  using nat_of_char_less_256 [of c] by (simp add: codeOf_def)

lemma chr_codeOf [simp]: "chr (codeOf c) = c"
  by (simp add: codeOf_def chr_def)

lemma codeOf_inject: "codeOf a = codeOf b \<longleftrightarrow> a = b"
  by (metis chr_codeOf)

lemma lowerChar_idem [simp]: "lowerChar (lowerChar c) = lowerChar c"
  by (simp add: lowerChar_def)

lemma lower_idem [simp]: "lower (lower s) = lower s"
  by (simp add: lower_def)

lemma length_lower [simp]: "length (lower s) = length s"
  by (simp add: lower_def)

section \<open>Trimming\<close>

definition trimEnd :: "string \<Rightarrow> string" where
  "trimEnd s = rev (dropWhile isSpace (rev s))"

definition trim :: "string \<Rightarrow> string" where
  "trim s = trimEnd (dropWhile isSpace s)"

lemma trimEnd_append_nonspace: "\<not> isSpace c \<Longrightarrow> trimEnd (s @ [c]) = s @ [c]"
  by (simp add: trimEnd_def)

lemma trimEnd_Cons:
  "trimEnd (c # s) = (if isSpace c \<and> trimEnd s = [] then [] else c # trimEnd s)"
  by (auto simp: trimEnd_def dropWhile_append dropWhile_eq_Nil_conv)

lemma trimEnd_Nil [simp]: "trimEnd [] = []"
  by (simp add: trimEnd_def)

lemma trim_Nil [simp]: "trim [] = []"
  by (simp add: trim_def)

lemma set_trimEnd: "set (trimEnd s) \<subseteq> set s"
  using set_dropWhileD [of _ isSpace "rev s"] by (auto simp: trimEnd_def)

lemma set_trim: "set (trim s) \<subseteq> set s"
  using set_trimEnd set_dropWhileD unfolding trim_def by fastforce

lemma length_trim_le: "length (trim s) \<le> length s"
  unfolding trim_def trimEnd_def
  by (metis length_dropWhile_le length_rev le_trans)

lemma trimEnd_id: "s = [] \<or> \<not> isSpace (last s) \<Longrightarrow> trimEnd s = s"
  by (cases s rule: rev_cases) (auto simp: trimEnd_append_nonspace)

lemma trim_id: "s = [] \<or> (\<not> isSpace (hd s) \<and> \<not> isSpace (last s)) \<Longrightarrow> trim s = s"
  by (cases s) (auto simp: trim_def trimEnd_id)

lemma hd_trim: "trim s \<noteq> [] \<Longrightarrow> \<not> isSpace (hd (trim s))"
proof -
  assume ne: "trim s \<noteq> []"
  obtain c r where cr: "dropWhile isSpace s = c # r"
    using ne by (cases "dropWhile isSpace s") (auto simp: trim_def)
  then have "\<not> isSpace c" by (metis dropWhile_eq_Cons_conv)
  with cr show ?thesis by (simp add: trim_def trimEnd_Cons)
qed

lemma last_trimEnd: "trimEnd s \<noteq> [] \<Longrightarrow> \<not> isSpace (last (trimEnd s))"
  unfolding trimEnd_def using hd_dropWhile [of isSpace "rev s"]
  by (simp add: last_rev del: dropWhile_eq_Nil_conv)

lemma last_trim: "trim s \<noteq> [] \<Longrightarrow> \<not> isSpace (last (trim s))"
  unfolding trim_def by (rule last_trimEnd)

lemma trim_idem [simp]: "trim (trim s) = trim s"
  by (rule trim_id) (use hd_trim last_trim in auto)

section \<open>Prefixes and searching\<close>

definition startsWith :: "string \<Rightarrow> string \<Rightarrow> bool" where
  "startsWith s p \<longleftrightarrow> take (length p) s = p"

definition endsWith :: "string \<Rightarrow> string \<Rightarrow> bool" where
  "endsWith s p \<longleftrightarrow> length p \<le> length s \<and> drop (length s - length p) s = p"

fun stripPrefix :: "string \<Rightarrow> string \<Rightarrow> string option" where
  "stripPrefix [] s = Some s"
| "stripPrefix (p # ps) [] = None"
| "stripPrefix (p # ps) (c # s) = (if p = c then stripPrefix ps s else None)"

lemma stripPrefix_append [simp]: "stripPrefix p (p @ s) = Some s"
  by (induction p) auto

lemma stripPrefix_Some: "stripPrefix p s = Some r \<longleftrightarrow> s = p @ r"
  by (induction p s rule: stripPrefix.induct) auto

text \<open>\<open>s.indexOf(p)\<close>, \<open>None\<close> for -1.\<close>

fun indexOf :: "string \<Rightarrow> string \<Rightarrow> nat option" where
  "indexOf p [] = (if p = [] then Some 0 else None)"
| "indexOf p (c # s) =
     (if startsWith (c # s) p then Some 0 else map_option Suc (indexOf p s))"

definition hasSub :: "string \<Rightarrow> string \<Rightarrow> bool" where
  "hasSub s p \<longleftrightarrow> indexOf p s \<noteq> None"

lemma indexOf_bound: "indexOf p s = Some i \<Longrightarrow> i + length p \<le> length s"
proof (induction p s arbitrary: i rule: indexOf.induct)
  case (1 p)
  then show ?case by (auto split: if_splits)
next
  case (2 p c s)
  show ?case
  proof (cases "startsWith (c # s) p")
    case True
    then have "length p \<le> length (c # s)"
      unfolding startsWith_def by (metis length_take min.cobounded1)
    with True 2(2) show ?thesis by simp
  next
    case False
    with 2(2) obtain j where "indexOf p s = Some j" "i = Suc j" by auto
    with 2(1) [OF False] show ?thesis by auto
  qed
qed

lemma indexOf_at: "indexOf p s = Some i \<Longrightarrow> startsWith (drop i s) p"
  by (induction p s arbitrary: i rule: indexOf.induct) (auto simp: startsWith_def split: if_splits)

lemma indexOf_append: "indexOf p s = Some i \<Longrightarrow> indexOf p (s @ t) = Some i"
proof (induction p s arbitrary: i rule: indexOf.induct)
  case (1 p)
  then show ?case by (cases t) (auto simp: startsWith_def split: if_splits)
next
  case (2 p c s)
  show ?case
  proof (cases "startsWith (c # s) p")
    case True
    then have "length p \<le> length (c # s)"
      unfolding startsWith_def by (metis length_take min.cobounded1)
    with True have "startsWith (c # (s @ t)) p" by (simp add: startsWith_def flip: append_Cons)
    with True 2(2) show ?thesis by simp
  next
    case False
    with 2(2) obtain j where j: "indexOf p s = Some j" "i = Suc j" by auto
    then have "length p \<le> length (c # s)" using indexOf_bound by fastforce
    with False have "\<not> startsWith (c # (s @ t)) p" by (simp add: startsWith_def flip: append_Cons)
    with j 2(1) [OF False] show ?thesis by simp
  qed
qed

section \<open>Splitting and joining\<close>

text \<open>\<open>s.split(c)\<close> for a one-character separator.\<close>

fun splitOn :: "char \<Rightarrow> string \<Rightarrow> string list" where
  "splitOn c [] = [[]]"
| "splitOn c (x # s) =
     (if x = c then [] # splitOn c s
      else (case splitOn c s of [] \<Rightarrow> [[x]] | w # ws \<Rightarrow> (x # w) # ws))"

text \<open>\<open>ws.join(sep)\<close>.\<close>

fun joinWith :: "string \<Rightarrow> string list \<Rightarrow> string" where
  "joinWith sep [] = []"
| "joinWith sep [w] = w"
| "joinWith sep (w # v # ws) = w @ sep @ joinWith sep (v # ws)"

lemma splitOn_nonempty [simp]: "splitOn c s \<noteq> []"
  by (induction s) (auto split: list.splits)

lemma joinWith_Cons: "joinWith sep (w # ws) = (if ws = [] then w else w @ sep @ joinWith sep ws)"
  by (cases ws) auto

lemma join_split [simp]: "joinWith [c] (splitOn c s) = s"
  by (induction s) (auto simp: joinWith_Cons split: list.splits)

lemma splitOn_no_sep: "w \<in> set (splitOn c s) \<Longrightarrow> c \<notin> set w"
  by (induction s arbitrary: w) (auto split: list.splits if_splits)

lemma splitOn_single: "c \<notin> set s \<Longrightarrow> splitOn c s = [s]"
  by (induction s) auto

lemma splitOn_append: "c \<notin> set w \<Longrightarrow> splitOn c (w @ c # s) = w # splitOn c s"
  by (induction w) auto

lemma split_join:
  "ws \<noteq> [] \<Longrightarrow> \<forall>w \<in> set ws. c \<notin> set w \<Longrightarrow> splitOn c (joinWith [c] ws) = ws"
proof (induction ws)
  case Nil
  then show ?case by simp
next
  case (Cons w ws)
  then show ?case by (cases ws) (auto simp: splitOn_single splitOn_append)
qed

abbreviation splitLines :: "string \<Rightarrow> string list" where
  "splitLines \<equiv> splitOn NL"

abbreviation joinLines :: "string list \<Rightarrow> string" where
  "joinLines \<equiv> joinWith [NL]"

text \<open>\<open>replace(/\r\n?/g, '\n')\<close>.\<close>

fun normalizeNewlines :: "string \<Rightarrow> string" where
  "normalizeNewlines [] = []"
| "normalizeNewlines [c] = (if c = CR then [NL] else [c])"
| "normalizeNewlines (c # d # s) =
     (if c = CR then NL # normalizeNewlines (if d = NL then s else d # s)
      else c # normalizeNewlines (d # s))"

text \<open>\<open>replaceAll(c, r)\<close> for one character.\<close>

definition replaceChar :: "char \<Rightarrow> string \<Rightarrow> string \<Rightarrow> string" where
  "replaceChar c r s = concat (map (\<lambda>x. if x = c then r else [x]) s)"

lemma replaceChar_simps [simp]:
  "replaceChar c r [] = []"
  "replaceChar c r (x # s) = (if x = c then r else [x]) @ replaceChar c r s"
  by (simp_all add: replaceChar_def)

lemma replaceChar_append [simp]: "replaceChar c r (s @ t) = replaceChar c r s @ replaceChar c r t"
  by (simp add: replaceChar_def)

section \<open>Padding and numbers\<close>

definition padStart :: "nat \<Rightarrow> char \<Rightarrow> string \<Rightarrow> string" where
  "padStart n c s = replicate (n - length s) c @ s"

definition padEnd :: "nat \<Rightarrow> char \<Rightarrow> string \<Rightarrow> string" where
  "padEnd n c s = s @ replicate (n - length s) c"

definition digitChar :: "nat \<Rightarrow> char" where
  "digitChar d = chr (48 + d)"

definition digitVal :: "char \<Rightarrow> nat" where
  "digitVal c = codeOf c - 48"

text \<open>\<open>String(n)\<close> of a whole number.\<close>

fun dec :: "nat \<Rightarrow> string" where
  "dec n = (if n < 10 then [digitChar n] else dec (n div 10) @ [digitChar (n mod 10)])"

declare dec.simps [simp del]

text \<open>\<open>Number(s)\<close> of a string of digits.\<close>

definition num :: "string \<Rightarrow> nat" where
  "num s = foldl (\<lambda>a c. 10 * a + digitVal c) 0 s"

definition allDigits :: "string \<Rightarrow> bool" where
  "allDigits s \<longleftrightarrow> s \<noteq> [] \<and> list_all isDigit s"

text \<open>\<open>(\d+)\<close> at the front: the digits and what follows them.\<close>

definition takeDigits :: "string \<Rightarrow> (string \<times> string) option" where
  "takeDigits s = (if takeWhile isDigit s = [] then None
     else Some (takeWhile isDigit s, dropWhile isDigit s))"

lemma digitVal_digitChar [simp]: "d < 10 \<Longrightarrow> digitVal (digitChar d) = d"
  by (simp add: digitVal_def digitChar_def)

lemma isDigit_digitChar [simp]: "d < 10 \<Longrightarrow> isDigit (digitChar d)"
  by (simp add: isDigit_def digitChar_def)

lemma num_append [simp]: "num (s @ [c]) = 10 * num s + digitVal c"
  by (simp add: num_def)

lemma num_dec [simp]: "num (dec n) = n"
proof (induction n rule: dec.induct)
  case (1 n)
  show ?case
  proof (cases "n < 10")
    case True
    then show ?thesis by (subst dec.simps) (simp add: num_def)
  next
    case False
    with 1 show ?thesis by (subst dec.simps) simp
  qed
qed

lemma dec_digits [simp]: "list_all isDigit (dec n)"
proof (induction n rule: dec.induct)
  case (1 n)
  then show ?case by (subst dec.simps) (cases "n < 10"; simp)
qed

lemma dec_nonempty [simp]: "dec n \<noteq> []"
  by (subst dec.simps) simp

lemma allDigits_dec [simp]: "allDigits (dec n)"
  by (simp add: allDigits_def)

lemma dec_inject [simp]: "dec m = dec n \<longleftrightarrow> m = n"
  by (metis num_dec)

lemma takeDigits_dec:
  assumes "r = [] \<or> \<not> isDigit (hd r)"
  shows "takeDigits (dec n @ r) = Some (dec n, r)"
proof -
  have all: "\<forall>c \<in> set (dec n). isDigit c" using dec_digits [of n] by (simp add: list_all_iff)
  have none: "takeWhile isDigit r = []" "dropWhile isDigit r = r"
    using assms by (cases r; auto)+
  show ?thesis
    using all none by (simp add: takeDigits_def takeWhile_append2 dropWhile_append2)
qed

lemma num_replicate_zero [simp]: "num (replicate k (digitChar 0) @ s) = num s"
proof -
  have "foldl (\<lambda>a c. 10 * a + digitVal c) 0 (replicate k (digitChar 0)) = 0"
    by (induction k) simp_all
  then show ?thesis by (simp add: num_def)
qed

lemma num_padStart [simp]: "num (padStart n (digitChar 0) s) = num s"
  by (simp add: padStart_def)

lemma length_padStart [simp]: "length (padStart n c s) = max n (length s)"
  by (simp add: padStart_def)

lemma num_bound: "list_all isDigit s \<Longrightarrow> num s < 10 ^ length s"
proof (induction s rule: rev_induct)
  case Nil
  then show ?case by (simp add: num_def)
next
  case (snoc c s)
  then have "digitVal c < 10" "num s < 10 ^ length s"
    by (auto simp: isDigit_def digitVal_def)
  then show ?case by simp
qed

lemma length_dec_le: "n < 10 ^ k \<Longrightarrow> 0 < k \<Longrightarrow> length (dec n) \<le> k"
proof (induction n arbitrary: k rule: dec.induct)
  case (1 n)
  show ?case
  proof (cases "n < 10")
    case True
    with 1 show ?thesis by (subst dec.simps) simp
  next
    case False
    obtain j where j: "k = Suc j" using 1(3) by (cases k) auto
    with 1(2) False have k: "k = Suc j" "0 < j" by (cases j; simp)+
    with 1(2) have "n div 10 < 10 ^ j" by (simp add: less_mult_imp_div_less mult.commute)
    with 1(1) [OF False] k False show ?thesis by (subst dec.simps) simp
  qed
qed

section \<open>Integers and runs\<close>

text \<open>\<open>String(n)\<close> of an integer.\<close>

definition decInt :: "int \<Rightarrow> string" where
  "decInt n = (if n < 0 then CHR ''-'' # dec (nat (- n)) else dec (nat n))"

text \<open>\<open>Number.parseInt(s, 10)\<close>, \<open>None\<close> for \<open>NaN\<close>.\<close>

definition parseInt :: "string \<Rightarrow> int option" where
  "parseInt s =
     (let s = dropWhile isSpace s;
          (sign, s) = (case s of [] \<Rightarrow> (1, s)
             | c # r \<Rightarrow> if c = CHR ''-'' then (- 1, r) else if c = CHR ''+'' then (1, r) else (1, s))
      in (case takeDigits s of None \<Rightarrow> None | Some (d, r) \<Rightarrow> Some (sign * int (num d))))"

text \<open>The words of a string between white space: \<open>split(/\s+/)\<close> of a trimmed string that is not empty.\<close>

fun spaceRuns :: "string \<Rightarrow> string list" where
  "spaceRuns [] = []"
| "spaceRuns (c # s) =
     (if isSpace c then spaceRuns s
      else if s = [] \<or> isSpace (hd s) then [c] # spaceRuns s
      else (case spaceRuns s of [] \<Rightarrow> [[c]] | w # ws \<Rightarrow> (c # w) # ws))"

lemma spaceRuns_append_space:
  "isSpace b \<Longrightarrow> spaceRuns (s @ b # t) = spaceRuns s @ spaceRuns t"
proof (induction s)
  case (Cons c s)
  then show ?case
    by (cases s) (auto split: list.splits if_splits)
qed simp

lemma spaceRuns_nonempty: "\<exists>c \<in> set s. \<not> isSpace c \<Longrightarrow> spaceRuns s \<noteq> []"
  by (induction s) (auto split: list.splits)

text \<open>\<open>replace(/ab/g, r)\<close> for two characters.\<close>

fun replacePair :: "char \<Rightarrow> char \<Rightarrow> string \<Rightarrow> string \<Rightarrow> string" where
  "replacePair a b r (x # y # s) =
     (if x = a \<and> y = b then r @ replacePair a b r s else x # replacePair a b r (y # s))"
| "replacePair a b r s = s"

text \<open>\<open>s.slice(i)\<close> and \<open>s.slice(0, i)\<close> are \<open>drop\<close> and \<open>take\<close>; \<open>s.indexOf(c)\<close> of one character.\<close>

definition indexOfChar :: "char \<Rightarrow> string \<Rightarrow> nat option" where
  "indexOfChar c s = (if c \<in> set s then Some (length (takeWhile (\<lambda>x. x \<noteq> c) s)) else None)"

end
