(* ===== verification/Stages.thy ===== *)
theory Stages
  imports Prelude
begin

text \<open>
  The stages of a room (\<open>web/src/room/stages.ts\<close>): what is up in the room
  read off the room's record, who may drive, close and open a stage, and the
  reducer that keeps the questions guests ask the host and the answers.

  \<open>localeCompare\<close> of two strings depends on the browser's collation and is the
  parameter \<open>cmp\<close>: \<open>cmp a b\<close> stands for a result that is not positive.
  Times are epoch milliseconds.
\<close>

section \<open>Data\<close>

datatype stage_kind = Media | Live | Screen

datatype spot_kind = SpotStage stage_kind | SpotMember

record spotlight =
  spot_kind :: spot_kind
  spot_member :: "string option"

record screen_share =
  scr_member :: string
  scr_nickname :: string
  scr_since :: string

record live_info =
  live_title :: string
  live_broadcast :: string
  live_member :: "string option"
  live_status :: "string option"
  live_error :: "string option"

text \<open>The fields of \<open>RoomInfo\<close> the stages are read off.\<close>

record room_info =
  room_fileName :: string
  room_status :: string
  room_spotlight :: "spotlight option"
  room_sourceMember :: "string option"
  room_sourceYielded :: bool
  room_errorMessage :: "string option"
  room_controller :: string
  room_screens :: "screen_share list option"
  room_live :: "live_info option"

record stage =
  stage_id :: string
  stage_kind :: stage_kind
  stage_owner :: "string option"
  stage_title :: string
  stage_status :: string
  stage_error :: "string option"
  stage_broadcast :: "string option"
  stage_since :: "string option"

definition GRANT_TTL_MS :: int where
  "GRANT_TTL_MS = 10 * 60 * 1000"

section \<open>The stages that are up\<close>

definition hasMedia :: "room_info \<Rightarrow> bool" where
  "hasMedia room \<longleftrightarrow> room_status room \<noteq> '''' \<and> room_status room \<noteq> ''empty''"

definition mediaStage :: "room_info \<Rightarrow> stage" where
  "mediaStage room =
     \<lparr>stage_id = ''media'', stage_kind = Media, stage_owner = or_null (room_sourceMember room),
      stage_title = room_fileName room, stage_status = room_status room,
      stage_error = or_null (room_errorMessage room), stage_broadcast = None, stage_since = None\<rparr>"

definition liveStage :: "live_info \<Rightarrow> stage" where
  "liveStage live =
     \<lparr>stage_id = ''live'', stage_kind = Live, stage_owner = or_null (live_member live),
      stage_title = live_title live, stage_status = orElse (live_status live) '''',
      stage_error = or_null (live_error live), stage_broadcast = Some (live_broadcast live),
      stage_since = None\<rparr>"

definition screenId :: "string \<Rightarrow> string" where
  "screenId member = ''screen:'' @ member"

definition screenStage :: "screen_share \<Rightarrow> stage" where
  "screenStage screen =
     \<lparr>stage_id = screenId (scr_member screen), stage_kind = Screen,
      stage_owner = Some (scr_member screen), stage_title = scr_nickname screen,
      stage_status = '''', stage_error = None, stage_broadcast = None,
      stage_since = Some (scr_since screen)\<rparr>"

text \<open>Screens go by when they went up, and by member for two of the same moment.\<close>

definition screenBefore :: "(string \<Rightarrow> string \<Rightarrow> bool) \<Rightarrow> screen_share \<Rightarrow> screen_share \<Rightarrow> bool" where
  "screenBefore cmp left right =
     (if scr_since left = scr_since right then cmp (scr_member left) (scr_member right)
      else cmp (scr_since left) (scr_since right))"

definition stagesOf :: "(string \<Rightarrow> string \<Rightarrow> bool) \<Rightarrow> room_info \<Rightarrow> stage list" where
  "stagesOf cmp room =
     (if hasMedia room then [mediaStage room] else [])
     @ (case room_live room of None \<Rightarrow> [] | Some live \<Rightarrow> [liveStage live])
     @ map screenStage (sort_by (screenBefore cmp) (orElse (room_screens room) []))"

section \<open>Who may do what\<close>

definition canDriveMedia :: "room_info \<Rightarrow> string \<Rightarrow> bool" where
  "canDriveMedia room memberId =
     (if memberId = '''' then False
      else memberId = room_controller room
        \<or> (hasMedia room \<and> room_sourceMember room = Some memberId \<and> \<not> room_sourceYielded room))"

definition canCloseStage :: "room_info \<Rightarrow> stage \<Rightarrow> string \<Rightarrow> bool" where
  "canCloseStage room st memberId \<longleftrightarrow>
     memberId \<noteq> '''' \<and> (memberId = room_controller room \<or> stage_owner st = Some memberId)"

record stage_request =
  req_id :: string
  req_member :: string
  req_nickname :: string
  req_kind :: stage_kind

record stages_state =
  st_requests :: "stage_request list"
  st_asked :: "stage_kind list"
  st_granted :: "stage_kind \<rightharpoonup> int"
  st_answer :: "(stage_kind \<times> bool \<times> nat) option"
  st_closed :: "(stage_kind \<times> nat) option"
  st_spotlight :: "spotlight option option"

definition canOpenStage ::
  "(string \<Rightarrow> string \<Rightarrow> bool) \<Rightarrow> room_info \<Rightarrow> stages_state \<Rightarrow> string \<Rightarrow> stage_kind \<Rightarrow> int \<Rightarrow> bool" where
  "canOpenStage cmp room state memberId kind now =
     (if memberId = '''' then False
      else if memberId = room_controller room then True
      else if list_ex (\<lambda>st. stage_kind st = kind \<and> stage_owner st = Some memberId) (stagesOf cmp room)
        then True
      else (case st_granted state kind of None \<Rightarrow> False | Some t \<Rightarrow> now - t < GRANT_TTL_MS))"

section \<open>The reducer\<close>

definition initialStages :: stages_state where
  "initialStages =
     \<lparr>st_requests = [], st_asked = [], st_granted = Map.empty, st_answer = None,
      st_closed = None, st_spotlight = None\<rparr>"

datatype stage_event =
    StageRequest stage_request
  | Answered string
  | Asked stage_kind
  | StageGrant stage_kind bool int
  | Used stage_kind
  | StageClosed stage_kind
  | SpotlightSet "spotlight option"
  | MembersAre "string list"

fun stagesReducer :: "stages_state \<Rightarrow> stage_event \<Rightarrow> stages_state" where
  "stagesReducer state (StageRequest request) =
     (if list_ex (\<lambda>r. req_id r = req_id request) (st_requests state) then state
      else state\<lparr>st_requests := st_requests state @ [request]\<rparr>)"
| "stagesReducer state (Answered requestId) =
     state\<lparr>st_requests := filter (\<lambda>r. req_id r \<noteq> requestId) (st_requests state)\<rparr>"
| "stagesReducer state (Asked kind) =
     (if kind \<in> set (st_asked state) then state
      else state\<lparr>st_asked := st_asked state @ [kind]\<rparr>)"
| "stagesReducer state (StageGrant kind allow t) =
     state\<lparr>st_asked := filter (\<lambda>k. k \<noteq> kind) (st_asked state),
           st_granted := (st_granted state)(kind := (if allow then Some t else None)),
           st_answer := Some (kind, allow,
             (case st_answer state of None \<Rightarrow> 0 | Some (_, _, seq) \<Rightarrow> seq) + 1)\<rparr>"
| "stagesReducer state (Used kind) =
     state\<lparr>st_granted := (st_granted state)(kind := None)\<rparr>"
| "stagesReducer state (StageClosed kind) =
     state\<lparr>st_granted := (st_granted state)(kind := None),
           st_closed := Some (kind, (case st_closed state of None \<Rightarrow> 0 | Some (_, seq) \<Rightarrow> seq) + 1)\<rparr>"
| "stagesReducer state (SpotlightSet spot) = state\<lparr>st_spotlight := Some spot\<rparr>"
| "stagesReducer state (MembersAre ids) =
     (let requests = filter (\<lambda>r. req_member r \<in> set ids) (st_requests state)
      in if length requests = length (st_requests state) then state
         else state\<lparr>st_requests := requests\<rparr>)"

definition runStages :: "stages_state \<Rightarrow> stage_event list \<Rightarrow> stages_state" where
  "runStages = foldl stagesReducer"

section \<open>The spotlight\<close>

definition currentSpotlight :: "room_info \<Rightarrow> stages_state \<Rightarrow> spotlight option" where
  "currentSpotlight room state = orElse (st_spotlight state) (room_spotlight room)"

fun kindName :: "stage_kind \<Rightarrow> string" where
  "kindName Media = ''media''"
| "kindName Live = ''live''"
| "kindName Screen = ''screen''"

definition spotlightStage ::
  "(string \<Rightarrow> string \<Rightarrow> bool) \<Rightarrow> room_info \<Rightarrow> stages_state \<Rightarrow> stage option" where
  "spotlightStage cmp room state =
     (case currentSpotlight room state of
        None \<Rightarrow> None
      | Some s \<Rightarrow>
          (case spot_kind s of
             SpotMember \<Rightarrow> None
           | SpotStage k \<Rightarrow>
               (let wanted = (if k = Screen then screenId (orElse (spot_member s) '''') else kindName k)
                in find (\<lambda>st. stage_id st = wanted) (stagesOf cmp room))))"

section \<open>Lemmas\<close>

lemma runStages_simps [simp]:
  "runStages s [] = s"
  "runStages s (e # es) = runStages (stagesReducer s e) es"
  "runStages s (es @ [e]) = stagesReducer (runStages s es) e"
  by (simp_all add: runStages_def)

text \<open>
  What the reducer keeps true: no question is in the host's inbox twice and
  nothing is asked twice at once.
\<close>

definition stagesOk :: "stages_state \<Rightarrow> bool" where
  "stagesOk s \<longleftrightarrow> distinct (map req_id (st_requests s)) \<and> distinct (st_asked s)"

lemma distinct_map_filter: "distinct (map f xs) \<Longrightarrow> distinct (map f (filter P xs))"
  by (induction xs) auto

lemma stagesReducer_keeps [keeps]: "stagesOk s \<Longrightarrow> stagesOk (stagesReducer s e)"
  by (cases e)
     (auto simp: stagesOk_def distinct_map_filter list_ex_iff Let_def)

interpretation stages: component stagesReducer stagesOk
  by unfold_locales (rule stagesReducer_keeps)

lemma stagesOk_initial [simp]: "stagesOk initialStages"
  by (simp add: stagesOk_def initialStages_def)

text \<open>A roll of who is in the room leaves no question of anyone who is not.\<close>

lemma members_present: "r \<in> set (st_requests (stagesReducer s (MembersAre ids))) \<Longrightarrow> req_member r \<in> set ids"
  by (auto simp: Let_def filter_id_conv split: if_splits)
     (metis (no_types, lifting) filter_True filter_cong length_filter_less linorder_not_less order_refl)

text \<open>
  The abstract view of a guest's permission: the last thing said about a kind
  decides. \<open>verdict\<close> is what one event says about it, if anything.
\<close>

fun verdict :: "stage_kind \<Rightarrow> stage_event \<Rightarrow> int option option" where
  "verdict k (StageGrant kind allow t) = (if kind = k then Some (if allow then Some t else None) else None)"
| "verdict k (Used kind) = (if kind = k then Some None else None)"
| "verdict k (StageClosed kind) = (if kind = k then Some None else None)"
| "verdict k _ = None"

definition lastVerdict :: "stage_kind \<Rightarrow> stage_event list \<Rightarrow> int option option" where
  "lastVerdict k es = foldl (\<lambda>v e. case verdict k e of None \<Rightarrow> v | Some w \<Rightarrow> Some w) None es"

lemma granted_step:
  "st_granted (stagesReducer s e) k = orElse (verdict k e) (st_granted s k)"
  by (cases e) (auto simp: Let_def)

lemma granted_run: "st_granted (runStages s es) k = orElse (lastVerdict k es) (st_granted s k)"
proof (induction es rule: rev_induct)
  case Nil
  then show ?case by (simp add: lastVerdict_def)
next
  case (snoc e es)
  then show ?case
    by (simp add: lastVerdict_def granted_step split: option.splits)
qed

lemma stage_ids:
  "stage_id (mediaStage room) = ''media''" "stage_id (liveStage live) = ''live''"
  "stage_id (screenStage scr) = screenId (scr_member scr)"
  by (simp_all add: mediaStage_def liveStage_def screenStage_def)

lemma screenId_inject [simp]: "screenId a = screenId b \<longleftrightarrow> a = b"
  by (simp add: screenId_def)

lemma screenId_other [simp]: "screenId a \<noteq> ''media''" "screenId a \<noteq> ''live''"
  "''media'' \<noteq> screenId a" "''live'' \<noteq> screenId a"
  by (simp_all add: screenId_def)

lemma stagesOf_ids:
  "map stage_id (stagesOf cmp room) =
     (if hasMedia room then [''media''] else [])
     @ (if room_live room = None then [] else [''live''])
     @ map (screenId \<circ> scr_member) (sort_by (screenBefore cmp) (orElse (room_screens room) []))"
  by (simp add: stagesOf_def stage_ids comp_def split: option.splits)

lemma distinct_screenIds:
  "distinct (map (screenId \<circ> scr_member) xs) \<longleftrightarrow> distinct (map scr_member xs)"
  by (induction xs) auto

text \<open>
  The abstract view of the host's inbox: the questions that wait, by their id.
  Asking fills a free id, an answer empties it, a roll of members drops those
  of whoever is gone; nothing else touches it.
\<close>

definition inboxOf :: "stages_state \<Rightarrow> string \<rightharpoonup> stage_request" where
  "inboxOf s = (\<lambda>i. find (\<lambda>r. req_id r = i) (st_requests s))"

fun inboxSpec :: "(string \<rightharpoonup> stage_request) \<Rightarrow> stage_event \<Rightarrow> (string \<rightharpoonup> stage_request)" where
  "inboxSpec m (StageRequest r) = (if m (req_id r) = None then m(req_id r \<mapsto> r) else m)"
| "inboxSpec m (Answered i) = m(i := None)"
| "inboxSpec m (MembersAre ids) =
     (\<lambda>i. case m i of None \<Rightarrow> None | Some r \<Rightarrow> if req_member r \<in> set ids then Some r else None)"
| "inboxSpec m _ = m"

lemma find_append: "find P (xs @ ys) = (case find P xs of None \<Rightarrow> find P ys | Some x \<Rightarrow> Some x)"
  by (induction xs) auto

lemma find_filter_id:
  "find (\<lambda>r. req_id r = i) (filter (\<lambda>r. req_id r \<noteq> j) xs) =
     (if i = j then None else find (\<lambda>r. req_id r = i) xs)"
  by (induction xs) auto

lemma find_filter_member:
  assumes "distinct (map req_id xs)"
  shows "find (\<lambda>r. req_id r = i) (filter P xs) =
     (case find (\<lambda>r. req_id r = i) xs of None \<Rightarrow> None | Some r \<Rightarrow> if P r then Some r else None)"
  using assms
proof (induction xs)
  case Nil
  then show ?case by simp
next
  case (Cons x xs)
  have "find (\<lambda>r. req_id r = i) (filter P xs) = None" if "req_id x = i"
    using Cons.prems that by (auto simp: find_None_iff image_iff)
  with Cons show ?case by auto
qed

lemma list_ex_id: "list_ex (\<lambda>r. req_id r = i) xs \<longleftrightarrow> find (\<lambda>r. req_id r = i) xs \<noteq> None"
  by (auto simp: list_ex_iff find_None_iff)

lemma same_length_filter: "length (filter P xs) = length xs \<Longrightarrow> filter P xs = xs"
  by (metis filter_True length_filter_less less_irrefl)

lemma members_requests:
  "st_requests (stagesReducer s (MembersAre ids)) = filter (\<lambda>r. req_member r \<in> set ids) (st_requests s)"
  by (simp add: Let_def same_length_filter)

lemma inbox_refines:
  assumes "stagesOk s"
  shows "inboxOf (stagesReducer s e) = inboxSpec (inboxOf s) e"
proof (cases e)
  case (StageRequest r)
  then show ?thesis
    by (auto simp: inboxOf_def list_ex_id find_append fun_eq_iff split: option.splits)
next
  case (Answered i)
  then show ?thesis by (auto simp: inboxOf_def find_filter_id fun_eq_iff)
next
  case (MembersAre ids)
  then show ?thesis using assms
    by (simp add: inboxOf_def members_requests find_filter_member stagesOk_def fun_eq_iff
             del: stagesReducer.simps)
qed (auto simp: inboxOf_def)

section \<open>Properties\<close>

text \<open>
  C32: from the initial state, any sequence of events leaves the host's inbox
  holding what the abstract inbox holds after the same events (a question
  fills its id once, an answer or the asker leaving empties it), with no id
  in it twice and nothing asked twice at once.
\<close>

theorem stages_inbox_refines:
  "inboxOf (runStages initialStages es) = foldl inboxSpec Map.empty es
   \<and> distinct (map req_id (st_requests (runStages initialStages es)))
   \<and> distinct (st_asked (runStages initialStages es))"
proof -
  have ok: "stagesOk (runStages initialStages es)" for es
    unfolding runStages_def by (rule stages.run_keeps) simp
  have "inboxOf (runStages initialStages es) = foldl inboxSpec Map.empty es"
  proof (induction es rule: rev_induct)
    case Nil
    show ?case by (simp add: inboxOf_def initialStages_def fun_eq_iff)
  next
    case (snoc e es)
    then show ?case using inbox_refines [OF ok] by simp
  qed
  with ok show ?thesis by (simp add: stagesOk_def)
qed

text \<open>
  a guest who is not the host and owns no stage may open a stage of a kind
  exactly while the last thing said about that kind (a grant, a refusal, the
  grant being used, the stage being closed) was a yes less than ten minutes
  old.
\<close>

theorem stages_open_by_last_verdict:
  assumes "memberId \<noteq> ''''" and "memberId \<noteq> room_controller room"
    and "\<forall>st \<in> set (stagesOf cmp room). stage_owner st \<noteq> Some memberId"
  shows "canOpenStage cmp room (runStages initialStages es) memberId kind now \<longleftrightarrow>
    (\<exists>t. lastVerdict kind es = Some (Some t) \<and> now - t < GRANT_TTL_MS)"
  using assms
  by (auto simp: canOpenStage_def granted_run list_ex_iff initialStages_def orElse_def
           split: option.splits)

definition sampleRoom :: room_info where
  "sampleRoom =
     \<lparr>room_fileName = ''film.mkv'', room_status = ''ready'', room_spotlight = None,
      room_sourceMember = Some ''ana'', room_sourceYielded = False, room_errorMessage = None,
      room_controller = ''ana'',
      room_screens = Some [\<lparr>scr_member = ''bia'', scr_nickname = ''Bia'', scr_since = ''2026-01-01''\<rparr>],
      room_live = None\<rparr>"

lemma sampleRoom_stages:
  "stagesOf (\<lambda>a b. True) sampleRoom =
     [mediaStage sampleRoom,
      screenStage \<lparr>scr_member = ''bia'', scr_nickname = ''Bia'', scr_since = ''2026-01-01''\<rparr>]"
  by (simp add: stagesOf_def sampleRoom_def hasMedia_def)

theorem stages_open_by_last_verdict_witness:
  "canOpenStage (\<lambda>a b. True) sampleRoom
     (runStages initialStages [StageClosed Screen, StageGrant Screen True 5]) ''caio'' Screen 600004
   \<and> \<not> canOpenStage (\<lambda>a b. True) sampleRoom
     (runStages initialStages [StageGrant Screen True 5]) ''caio'' Screen 600005"
proof -
  have owners: "\<forall>st \<in> set (stagesOf (\<lambda>a b. True) sampleRoom). stage_owner st \<noteq> Some ''caio''"
    unfolding sampleRoom_stages by (simp add: mediaStage_def screenStage_def sampleRoom_def or_null_def)
  have host: "''caio'' \<noteq> room_controller sampleRoom" by (simp add: sampleRoom_def)
  have named: "''caio'' \<noteq> ([] :: string)" by simp
  show ?thesis
    unfolding stages_open_by_last_verdict [OF named host owners]
    by (simp add: lastVerdict_def GRANT_TTL_MS_def)
qed

text \<open>
  with every screen shared by a different member, no two stages of a room
  have the same id, and a screen put in the spotlight is shown exactly while
  its member's screen is up (and is that member's screen).
\<close>

theorem stages_spotlight_screen:
  assumes "distinct (map scr_member (orElse (room_screens room) []))"
    and "currentSpotlight room state = Some spot"
    and "spot_kind spot = SpotStage Screen" and "spot_member spot = Some m"
  shows "distinct (map stage_id (stagesOf cmp room))
    \<and> (spotlightStage cmp room state = Some st \<longleftrightarrow>
       (\<exists>scr \<in> set (orElse (room_screens room) []). scr_member scr = m \<and> st = screenStage scr))"
proof
  let ?sorted = "sort_by (screenBefore cmp) (orElse (room_screens room) [])"
  show ids: "distinct (map stage_id (stagesOf cmp room))"
    unfolding stagesOf_ids using assms(1) by (auto simp: distinct_screenIds)
  have spot: "spotlightStage cmp room state = find (\<lambda>st. stage_id st = screenId m) (stagesOf cmp room)"
    using assms(2-4) by (simp add: spotlightStage_def)
  have mem: "x \<in> set (stagesOf cmp room) \<and> stage_id x = screenId m \<longleftrightarrow>
      (\<exists>scr \<in> set (orElse (room_screens room) []). scr_member scr = m \<and> x = screenStage scr)" for x
    by (auto simp: stagesOf_def stage_ids split: option.splits if_splits)
  have uniq: "x = y" if "x \<in> set (stagesOf cmp room)" "y \<in> set (stagesOf cmp room)"
      "stage_id x = stage_id y" for x y
    using ids that by (auto simp: distinct_map inj_on_def)
  show "spotlightStage cmp room state = Some st \<longleftrightarrow>
       (\<exists>scr \<in> set (orElse (room_screens room) []). scr_member scr = m \<and> st = screenStage scr)"
  proof
    assume "spotlightStage cmp room state = Some st"
    then have "st \<in> set (stagesOf cmp room) \<and> stage_id st = screenId m"
      unfolding spot by (auto simp: find_Some_iff)
    then show "\<exists>scr \<in> set (orElse (room_screens room) []). scr_member scr = m \<and> st = screenStage scr"
      using mem by blast
  next
    assume "\<exists>scr \<in> set (orElse (room_screens room) []). scr_member scr = m \<and> st = screenStage scr"
    then have st: "st \<in> set (stagesOf cmp room)" "stage_id st = screenId m" using mem by blast+
    then obtain y where y: "find (\<lambda>st. stage_id st = screenId m) (stagesOf cmp room) = Some y"
      by (metis (mono_tags, lifting) find_None_iff not_None_eq)
    then have "y \<in> set (stagesOf cmp room)" "stage_id y = screenId m"
      by (auto simp: find_Some_iff)
    with st uniq [of y st] y show "spotlightStage cmp room state = Some st" by (simp add: spot)
  qed
qed

theorem stages_spotlight_screen_witness:
  "spotlightStage (\<lambda>a b. True) sampleRoom
     (runStages initialStages
        [SpotlightSet (Some \<lparr>spot_kind = SpotStage Screen, spot_member = Some ''bia''\<rparr>)])
   = Some (screenStage \<lparr>scr_member = ''bia'', scr_nickname = ''Bia'', scr_since = ''2026-01-01''\<rparr>)"
proof -
  let ?spot = "\<lparr>spot_kind = SpotStage Screen, spot_member = Some ''bia''\<rparr>"
  let ?state = "runStages initialStages [SpotlightSet (Some ?spot)]"
  have one: "distinct (map scr_member (orElse (room_screens sampleRoom) []))"
    by (simp add: sampleRoom_def)
  have cur: "currentSpotlight sampleRoom ?state = Some ?spot"
    by (simp add: currentSpotlight_def)
  show ?thesis
    using stages_spotlight_screen [OF one cur, of "''bia''" "\<lambda>a b. True"]
    by (simp add: sampleRoom_def)
qed

end
