(* ===== verification/SegmentLedger.thy ===== *)
theory SegmentLedger
  imports JsText
begin

text \<open>
  The ledger of segments (\<open>web/src/pipeline/segmentLedger.ts\<close>): which segments
  the muxer emitted, which of them the server confirmed in the bucket, and
  from the two how much of a region a viewer can play.

  A region's tables are keyed by playlist number. \<open>landed\<close> holds the segment
  numbers in the bucket. Durations are in seconds.
\<close>

section \<open>Segment names\<close>

text \<open>\<open>SEGMENT_NAME\<close>: \<open>/^(?:r(\d+)_)?cs_(\d+)_(\d+)\.m4s$/\<close>.\<close>

definition regionPrefix :: "string \<Rightarrow> (nat \<times> string) option" where
  "regionPrefix name = do {
     rest \<leftarrow> stripPrefix ''r'' name;
     (ds, rest) \<leftarrow> takeDigits rest;
     rest \<leftarrow> stripPrefix ''_'' rest;
     Some (num ds, rest) }"

definition parseSegment :: "string \<Rightarrow> (nat \<times> nat \<times> nat) option" where
  "parseSegment name = do {
     let (region, body) = (case regionPrefix name of Some rb \<Rightarrow> rb | None \<Rightarrow> (0, name));
     rest \<leftarrow> stripPrefix ''cs_'' body;
     (ps, rest) \<leftarrow> takeDigits rest;
     rest \<leftarrow> stripPrefix ''_'' rest;
     (ns, rest) \<leftarrow> takeDigits rest;
     if rest = ''.m4s'' then Some (region, num ps, num ns) else None }"

text \<open>The names the muxer is told to give (\<open>getSegmentPath\<close> of \<open>clientMedia.ts\<close>).\<close>

definition namePrefix :: "nat \<Rightarrow> string" where
  "namePrefix region = (if region = 0 then '''' else ''r'' @ dec region @ ''_'')"

definition segmentPath :: "nat \<Rightarrow> nat \<Rightarrow> nat \<Rightarrow> string" where
  "segmentPath region playlist n =
     namePrefix region @ ''cs_'' @ dec playlist @ ''_'' @ dec n @ ''.m4s''"

section \<open>The ledger\<close>

record region_tables =
  reg_emitted :: "(nat, nat) jsmap"
  reg_confirmed :: "(nat, nat) jsmap"
  reg_landed :: "(nat, nat list) jsmap"
  reg_durations :: "(nat, rat list) jsmap"

record ledger =
  led_regions :: "(nat, region_tables) jsmap"
  led_counted :: "string list"

definition emptyRegion :: region_tables where
  "emptyRegion = \<lparr>reg_emitted = [], reg_confirmed = [], reg_landed = [], reg_durations = []\<rparr>"

definition createSegmentLedger :: ledger where
  "createSegmentLedger = \<lparr>led_regions = [], led_counted = []\<rparr>"

definition regionAt :: "ledger \<Rightarrow> nat \<Rightarrow> region_tables" where
  "regionAt l region = orElse (mapGet (led_regions l) region) emptyRegion"

definition putRegion :: "nat \<Rightarrow> region_tables \<Rightarrow> ledger \<Rightarrow> ledger" where
  "putRegion region g l = l\<lparr>led_regions := mapSet region g (led_regions l)\<rparr>"

definition countOf :: "(nat, nat) jsmap \<Rightarrow> nat \<Rightarrow> nat" where
  "countOf counts playlist = orElse (mapGet counts playlist) 0"

definition bump :: "(nat, nat) jsmap \<Rightarrow> nat \<Rightarrow> (nat, nat) jsmap" where
  "bump counts playlist = mapSet playlist (countOf counts playlist + 1) counts"

definition landedIn :: "region_tables \<Rightarrow> nat \<Rightarrow> nat list" where
  "landedIn g playlist = orElse (mapGet (reg_landed g) playlist) []"

text \<open>\<open>while (landed.has(run + 1)) run += 1\<close>.\<close>

function runFrom :: "nat list \<Rightarrow> nat \<Rightarrow> nat" where
  "runFrom landed r = (if Suc r \<in> set landed then runFrom landed (Suc r) else r)"
  by pat_completeness auto
termination
proof (relation "measure (\<lambda>(landed, r). length (filter (\<lambda>n. r < n) landed))")
  fix landed r
  assume "Suc r \<in> set landed"
  then have "length (filter (\<lambda>n. Suc r < n) landed) < length (filter (\<lambda>n. r < n) landed)"
  proof (induction landed)
    case Nil
    then show ?case by simp
  next
    case (Cons n landed)
    have "length (filter (\<lambda>n. Suc r < n) landed) \<le> length (filter (\<lambda>n. r < n) landed)"
      by (induction landed) auto
    with Cons show ?case by auto
  qed
  then show "((landed, Suc r), landed, r) \<in> measure (\<lambda>(landed, r). length (filter (\<lambda>n. r < n) landed))"
    by simp
qed simp

declare runFrom.simps [simp del]

definition contiguousIn :: "ledger \<Rightarrow> nat \<Rightarrow> nat \<Rightarrow> nat" where
  "contiguousIn l region playlist = runFrom (landedIn (regionAt l region) playlist) 0"

definition noteEmitted :: "ledger \<Rightarrow> string \<Rightarrow> ledger" where
  "noteEmitted l name =
     (case parseSegment name of
        None \<Rightarrow> l
      | Some (region, playlist, n) \<Rightarrow>
          let g = regionAt l region
          in putRegion region (g\<lparr>reg_emitted := bump (reg_emitted g) playlist\<rparr>) l)"

definition noteConfirmedOne :: "ledger \<Rightarrow> string \<Rightarrow> ledger" where
  "noteConfirmedOne l name =
     (if name \<in> set (led_counted l) then l
      else (case parseSegment name of
        None \<Rightarrow> l
      | Some (region, playlist, n) \<Rightarrow>
          let g = regionAt l region;
              g = g\<lparr>reg_confirmed := bump (reg_confirmed g) playlist,
                    reg_landed := mapSet playlist (addTo (landedIn g playlist) n) (reg_landed g)\<rparr>
          in putRegion region g (l\<lparr>led_counted := led_counted l @ [name]\<rparr>)))"

definition noteConfirmed :: "ledger \<Rightarrow> string list \<Rightarrow> ledger" where
  "noteConfirmed l names = foldl noteConfirmedOne l names"

definition noteDurations :: "ledger \<Rightarrow> nat \<Rightarrow> nat \<Rightarrow> rat list \<Rightarrow> ledger" where
  "noteDurations l region playlist durationsSec =
     (let g = regionAt l region
      in putRegion region (g\<lparr>reg_durations := mapSet playlist durationsSec (reg_durations g)\<rparr>) l)"

text \<open>\<open>Math.min\<close> over a list, with 0 for the empty one (the code's \<open>Infinity\<close> case).\<close>

fun shortest :: "'a :: {linorder, zero} list \<Rightarrow> 'a" where
  "shortest [] = 0"
| "shortest [x] = x"
| "shortest (x # y # ys) = min x (shortest (y # ys))"

definition covered :: "ledger \<Rightarrow> nat \<Rightarrow> nat" where
  "covered l region =
     (let g = regionAt l region
      in shortest (map (countOf (reg_confirmed g)) (mapKeys (reg_emitted g))))"

definition segmentMs :: "rat list \<Rightarrow> int \<Rightarrow> nat \<Rightarrow> int" where
  "segmentMs known fallback i =
     (if i < length known then js_round (known ! i * 1000) else fallback)"

definition runMs :: "ledger \<Rightarrow> nat \<Rightarrow> int \<Rightarrow> nat \<Rightarrow> int" where
  "runMs l region fallback playlist =
     (let known = orElse (mapGet (reg_durations (regionAt l region)) playlist) []
      in sum_list (map (segmentMs known fallback) [0..<contiguousIn l region playlist]))"

definition coveredMs :: "ledger \<Rightarrow> nat \<Rightarrow> int \<Rightarrow> int" where
  "coveredMs l region fallback =
     shortest (map (runMs l region fallback) (mapKeys (reg_emitted (regionAt l region))))"

text \<open>Count, mean and maximum; all zero without a segment.\<close>

definition segmentStats :: "ledger \<Rightarrow> nat \<Rightarrow> nat \<times> rat \<times> rat" where
  "segmentStats l region =
     (let every = concat (map snd (reg_durations (regionAt l region)))
      in if every = [] then (0, 0, 0)
         else (length every, sum_list every / of_nat (length every), Max (set every)))"

definition settled :: "ledger \<Rightarrow> nat \<Rightarrow> bool" where
  "settled l region =
     (let g = regionAt l region
      in if reg_emitted g = [] then False
         else list_all (\<lambda>(playlist, count). count \<le> countOf (reg_confirmed g) playlist) (reg_emitted g))"

datatype ledger_op = Emitted string | Confirmed "string list" | Durations nat nat "rat list"

fun ledgerStep :: "ledger \<Rightarrow> ledger_op \<Rightarrow> ledger" where
  "ledgerStep l (Emitted name) = noteEmitted l name"
| "ledgerStep l (Confirmed names) = noteConfirmed l names"
| "ledgerStep l (Durations region playlist ds) = noteDurations l region playlist ds"

section \<open>Lemmas: names\<close>

lemma takeDigits_dec_Cons: "\<not> isDigit c \<Longrightarrow> takeDigits (dec n @ c # r) = Some (dec n, c # r)"
  by (rule takeDigits_dec) simp

lemma not_digit [simp]: "\<not> isDigit CHR ''_''" "\<not> isDigit CHR ''.''"
  by (simp_all add: isDigit_def codeOf_def)

lemma regionPrefix_cs: "regionPrefix (''cs_'' @ s) = None"
  by (simp add: regionPrefix_def)

lemma regionPrefix_r: "regionPrefix (''r'' @ dec region @ ''_'' @ s) = Some (region, s)"
  by (simp add: regionPrefix_def takeDigits_dec_Cons)

lemma parseSegment_path [simp]: "parseSegment (segmentPath region playlist n) = Some (region, playlist, n)"
proof -
  have "regionPrefix (segmentPath region playlist n) =
      (if region = 0 then None else Some (region, ''cs_'' @ dec playlist @ ''_'' @ dec n @ ''.m4s''))"
    using regionPrefix_cs [of "dec playlist @ ''_'' @ dec n @ ''.m4s''"]
      regionPrefix_r [of region "''cs_'' @ dec playlist @ ''_'' @ dec n @ ''.m4s''"]
    by (simp add: segmentPath_def namePrefix_def)
  then show ?thesis
    by (simp add: parseSegment_def takeDigits_dec_Cons)
       (simp add: segmentPath_def namePrefix_def takeDigits_dec_Cons)
qed

lemma segmentPath_inject [simp]:
  "segmentPath r p n = segmentPath r' p' n' \<longleftrightarrow> r = r' \<and> p = p' \<and> n = n'"
  by (metis parseSegment_path option.inject prod.inject)

section \<open>Lemmas: the unbroken run\<close>

lemma runFrom_ge: "r \<le> runFrom landed r"
  by (induction landed r rule: runFrom.induct) (subst runFrom.simps, auto)

lemma runFrom_all: "{Suc r..runFrom landed r} \<subseteq> set landed"
proof (induction landed r rule: runFrom.induct)
  case (1 landed r)
  show ?case
  proof (cases "Suc r \<in> set landed")
    case True
    then have "{Suc r..runFrom landed r} = {Suc r..runFrom landed (Suc r)}"
      by (subst runFrom.simps) simp
    also have "\<dots> \<subseteq> insert (Suc r) {Suc (Suc r)..runFrom landed (Suc r)}" by auto
    also have "\<dots> \<subseteq> set landed" using 1 [OF True] True by simp
    finally show ?thesis .
  next
    case False
    then show ?thesis by (subst runFrom.simps) simp
  qed
qed

lemma runFrom_stops: "Suc (runFrom landed r) \<notin> set landed"
  by (induction landed r rule: runFrom.induct) (subst runFrom.simps, auto)

lemma runFrom_eq:
  assumes "{1..k} \<subseteq> set landed" and "Suc k \<notin> set landed"
  shows "runFrom landed 0 = k"
proof (rule antisym)
  show "runFrom landed 0 \<le> k"
  proof (rule ccontr)
    assume "\<not> runFrom landed 0 \<le> k"
    then have "Suc k \<in> {Suc 0..runFrom landed 0}" by simp
    with runFrom_all [of 0 landed] assms(2) show False by blast
  qed
  show "k \<le> runFrom landed 0"
  proof (rule ccontr)
    assume "\<not> k \<le> runFrom landed 0"
    then have "Suc (runFrom landed 0) \<in> {1..k}" by simp
    with assms(1) runFrom_stops [of landed 0] show False by blast
  qed
qed

lemma runFrom_mono: "set a \<subseteq> set b \<Longrightarrow> runFrom a 0 \<le> runFrom b 0"
proof (rule ccontr)
  assume sub: "set a \<subseteq> set b" and "\<not> runFrom a 0 \<le> runFrom b 0"
  then have "Suc (runFrom b 0) \<in> {Suc 0..runFrom a 0}" by simp
  with runFrom_all [of 0 a] sub have "Suc (runFrom b 0) \<in> set b" by blast
  with runFrom_stops [of b 0] show False by blast
qed

section \<open>Lemmas: what each operation writes\<close>

lemma regionAt_put [simp]: "regionAt (putRegion region g l) r = (if r = region then g else regionAt l r)"
  by (simp add: regionAt_def putRegion_def)

lemma counted_put [simp]: "led_counted (putRegion region g l) = led_counted l"
  by (simp add: putRegion_def)

lemma regionAt_counted [simp]: "regionAt (l\<lparr>led_counted := c\<rparr>) r = regionAt l r"
  by (simp add: regionAt_def)

lemma countOf_bump [simp]: "countOf (bump counts p) q = (if q = p then Suc (countOf counts p) else countOf counts q)"
  by (simp add: bump_def countOf_def)

lemma countOf_empty [simp]: "countOf [] p = 0"
  by (simp add: countOf_def)

definition inPlaylist :: "nat \<Rightarrow> nat \<Rightarrow> string \<Rightarrow> bool" where
  "inPlaylist r p name \<longleftrightarrow> (case parseSegment name of None \<Rightarrow> False | Some (r', p', n) \<Rightarrow> r' = r \<and> p' = p)"

definition segmentNo :: "string \<Rightarrow> nat" where
  "segmentNo name = (case parseSegment name of None \<Rightarrow> 0 | Some (r, p, n) \<Rightarrow> n)"

lemma inPlaylist_path [simp]: "inPlaylist r p (segmentPath r' p' n) \<longleftrightarrow> r' = r \<and> p' = p"
  by (simp add: inPlaylist_def)

lemma segmentNo_path [simp]: "segmentNo (segmentPath r p n) = n"
  by (simp add: segmentNo_def)

text \<open>
  The ledger against its history: \<open>es\<close> is every name emitted, \<open>cs\<close> the set of
  every name confirmed. The counts are counts of names, the landed numbers
  are the numbers of the confirmed names, and a name counts once however
  often the server repeats it.
\<close>

definition tracks :: "ledger \<Rightarrow> string list \<Rightarrow> string set \<Rightarrow> bool" where
  "tracks l es cs \<longleftrightarrow>
     distinct (led_counted l)
     \<and> set (led_counted l) = {n \<in> cs. parseSegment n \<noteq> None}
     \<and> (\<forall>r. distinct (mapKeys (reg_emitted (regionAt l r))))
     \<and> (\<forall>r p. countOf (reg_emitted (regionAt l r)) p = length (filter (inPlaylist r p) es))
     \<and> (\<forall>r p. p \<in> set (mapKeys (reg_emitted (regionAt l r))) \<longleftrightarrow> (\<exists>n \<in> set es. inPlaylist r p n))
     \<and> (\<forall>r p. countOf (reg_confirmed (regionAt l r)) p = length (filter (inPlaylist r p) (led_counted l)))
     \<and> (\<forall>r p. set (landedIn (regionAt l r) p) = segmentNo ` {n \<in> cs. inPlaylist r p n})"

lemma create_simps [simp]:
  "regionAt createSegmentLedger r = emptyRegion" "led_counted createSegmentLedger = []"
  by (simp_all add: createSegmentLedger_def regionAt_def)

lemma tracks_create: "tracks createSegmentLedger [] {}"
  by (simp add: tracks_def createSegmentLedger_def regionAt_def emptyRegion_def landedIn_def)

lemma mapKeys_bump [simp]: "fst ` set (bump counts p) = insert p (fst ` set counts)"
  unfolding bump_def by (rule mapKeys_set)

lemma distinct_bump [simp]: "distinct (mapKeys counts) \<Longrightarrow> distinct (mapKeys (bump counts p))"
  unfolding bump_def by (rule distinct_update)

lemma tracks_emitted: "tracks l es cs \<Longrightarrow> tracks (noteEmitted l name) (es @ [name]) cs"
proof (cases "parseSegment name")
  case None
  then have "\<not> inPlaylist r p name" for r p by (simp add: inPlaylist_def)
  moreover assume "tracks l es cs"
  ultimately show ?thesis using None by (simp add: tracks_def noteEmitted_def)
next
  case (Some rpn)
  obtain r p n where rpn: "rpn = (r, p, n)" by (cases rpn)
  have mine: "inPlaylist r' p' name \<longleftrightarrow> r' = r \<and> p' = p" for r' p'
    using Some rpn by (auto simp: inPlaylist_def)
  assume t: "tracks l es cs"
  show ?thesis
    using t Some rpn unfolding tracks_def noteEmitted_def
    by (simp add: Let_def mine landedIn_def)
qed

lemma landedIn_update:
  "landedIn (g\<lparr>reg_confirmed := c, reg_landed := mapSet p xs (reg_landed g)\<rparr>) q =
     (if q = p then xs else landedIn g q)"
  by (simp add: landedIn_def)

lemma tracks_confirmedOne: "tracks l es cs \<Longrightarrow> tracks (noteConfirmedOne l name) es (insert name cs)"
proof -
  assume t: "tracks l es cs"
  show ?thesis
  proof (cases "parseSegment name")
    case None
    then have out: "\<not> inPlaylist r p name" for r p by (simp add: inPlaylist_def)
    have same: "{n. (n = name \<or> n \<in> cs) \<and> inPlaylist r p n} = {n \<in> cs. inPlaylist r p n}" for r p
      using out by auto
    have same': "{n. (n = name \<or> n \<in> cs) \<and> parseSegment n \<noteq> None} = {n \<in> cs. parseSegment n \<noteq> None}"
      using None by auto
    have "noteConfirmedOne l name = l" using None by (simp add: noteConfirmedOne_def)
    with t same same' show ?thesis unfolding tracks_def by simp
  next
    case (Some rpn)
    obtain r p k where rpn: "rpn = (r, p, k)" by (cases rpn)
    have mine: "inPlaylist r' p' name \<longleftrightarrow> r' = r \<and> p' = p" for r' p'
      using Some rpn by (auto simp: inPlaylist_def)
    have no: "segmentNo name = k" using Some rpn by (simp add: segmentNo_def)
    have grow: "{n. (n = name \<or> n \<in> cs) \<and> inPlaylist r' p' n} =
        (if r' = r \<and> p' = p then insert name {n \<in> cs. inPlaylist r' p' n} else {n \<in> cs. inPlaylist r' p' n})"
      for r' p' using mine by auto
    show ?thesis
    proof (cases "name \<in> set (led_counted l)")
      case True
      then have "name \<in> cs" using t by (simp add: tracks_def)
      then have "insert name cs = cs" by auto
      with t True show ?thesis by (simp add: noteConfirmedOne_def)
    next
      case False
      have "set (led_counted l @ [name]) = {n \<in> insert name cs. parseSegment n \<noteq> None}"
        using t Some rpn by (auto simp: tracks_def)
      with t Some rpn False show ?thesis
        unfolding tracks_def noteConfirmedOne_def
        by (simp add: Let_def mine landedIn_update grow no)
    qed
  qed
qed

lemma tracks_confirmed: "tracks l es cs \<Longrightarrow> tracks (noteConfirmed l names) es (cs \<union> set names)"
proof (induction names arbitrary: l cs)
  case Nil
  then show ?case by (simp add: noteConfirmed_def)
next
  case (Cons name names)
  have "tracks (noteConfirmedOne l name) es (insert name cs)"
    by (rule tracks_confirmedOne) (rule Cons.prems)
  then have "tracks (noteConfirmed (noteConfirmedOne l name) names) es (insert name cs \<union> set names)"
    by (rule Cons.IH)
  then show ?case by (simp add: noteConfirmed_def)
qed

lemma tracks_durations: "tracks l es cs \<Longrightarrow> tracks (noteDurations l r p ds) es cs"
  unfolding tracks_def noteDurations_def by (simp add: Let_def landedIn_def)

section \<open>The ledger over a whole history\<close>

definition runLedger :: "ledger_op list \<Rightarrow> ledger" where
  "runLedger ops = foldl ledgerStep createSegmentLedger ops"

fun emittedBy :: "ledger_op list \<Rightarrow> string list" where
  "emittedBy [] = []"
| "emittedBy (Emitted name # ops) = name # emittedBy ops"
| "emittedBy (_ # ops) = emittedBy ops"

fun confirmedBy :: "ledger_op list \<Rightarrow> string set" where
  "confirmedBy [] = {}"
| "confirmedBy (Confirmed names # ops) = set names \<union> confirmedBy ops"
| "confirmedBy (_ # ops) = confirmedBy ops"

lemma tracks_fold: "tracks l es cs \<Longrightarrow> tracks (foldl ledgerStep l ops) (es @ emittedBy ops) (cs \<union> confirmedBy ops)"
proof (induction ops arbitrary: l es cs)
  case Nil
  then show ?case by simp
next
  case (Cons op ops)
  show ?case
  proof (cases op)
    case (Emitted name)
    with Cons.IH [OF tracks_emitted [OF Cons.prems, of name]] show ?thesis by simp
  next
    case (Confirmed names)
    with Cons.IH [OF tracks_confirmed [OF Cons.prems, of names]] show ?thesis by (simp add: Un_assoc)
  next
    case (Durations r p ds)
    with Cons.IH [OF tracks_durations [OF Cons.prems, of r p ds]] show ?thesis by simp
  qed
qed

lemma tracks_run: "tracks (runLedger ops) (emittedBy ops) (confirmedBy ops)"
  using tracks_fold [OF tracks_create, of ops] by (simp add: runLedger_def)

lemma finite_confirmedBy [simp]: "finite (confirmedBy ops)"
  by (induction ops rule: confirmedBy.induct) auto

lemma tracks_count:
  assumes "tracks l es cs"
  shows "countOf (reg_confirmed (regionAt l r)) p = card {n \<in> cs. inPlaylist r p n}"
proof -
  have "length (filter (inPlaylist r p) (led_counted l)) = card (set (filter (inPlaylist r p) (led_counted l)))"
    using assms by (metis tracks_def distinct_filter distinct_card)
  moreover have "set (filter (inPlaylist r p) (led_counted l)) = {n \<in> cs. inPlaylist r p n}"
    using assms by (auto simp: tracks_def inPlaylist_def split: option.splits)
  ultimately show ?thesis using assms by (simp add: tracks_def)
qed

lemma tracks_landed:
  "tracks l es cs \<Longrightarrow> set (landedIn (regionAt l r) p) = segmentNo ` {n \<in> cs. inPlaylist r p n}"
  by (simp add: tracks_def)

lemma shortest_Min: "xs \<noteq> [] \<Longrightarrow> shortest xs = Min (set xs)"
  by (induction xs rule: shortest.induct) auto

lemma shortest_mono: "list_all2 (\<le>) xs ys \<Longrightarrow> shortest xs \<le> (shortest ys :: 'a :: {linorder, zero})"
proof (induction xs arbitrary: ys rule: shortest.induct)
  case 1
  then show ?case by simp
next
  case (2 x)
  then show ?case by (auto simp: list_all2_Cons1)
next
  case (3 x y xs)
  from "3.prems" obtain u v us where ys: "ys = u # v # us" "x \<le> u" "list_all2 (\<le>) (y # xs) (v # us)"
    by (auto simp: list_all2_Cons1)
  with "3.IH" have "shortest (y # xs) \<le> shortest (v # us)" by blast
  with ys show ?case by (simp add: min.coboundedI1 min.coboundedI2)
qed

section \<open>Confirmations only add\<close>

lemma landedIn_confirmedOne:
  "set (landedIn (regionAt l r) p) \<subseteq> set (landedIn (regionAt (noteConfirmedOne l name) r) p)"
  by (auto simp: noteConfirmedOne_def Let_def landedIn_update split: option.splits)

lemma contiguousIn_confirmedOne: "contiguousIn l r p \<le> contiguousIn (noteConfirmedOne l name) r p"
  unfolding contiguousIn_def by (rule runFrom_mono) (rule landedIn_confirmedOne)

interpretation confirmations: monotone_component noteConfirmedOne "\<lambda>_. True" "\<lambda>l. contiguousIn l r p" for r p
  by unfold_locales (simp_all add: contiguousIn_confirmedOne)

lemma tables_confirmedOne:
  "reg_emitted (regionAt (noteConfirmedOne l name) r) = reg_emitted (regionAt l r)"
  "reg_durations (regionAt (noteConfirmedOne l name) r) = reg_durations (regionAt l r)"
  by (auto simp: noteConfirmedOne_def Let_def split: option.splits)

lemma tables_confirmed:
  "reg_emitted (regionAt (noteConfirmed l names) r) = reg_emitted (regionAt l r)"
  "reg_durations (regionAt (noteConfirmed l names) r) = reg_durations (regionAt l r)"
  unfolding noteConfirmed_def
  by (induction names arbitrary: l) (simp_all add: tables_confirmedOne)

text \<open>The durations last given for a playlist.\<close>

fun durationsBy :: "nat \<Rightarrow> nat \<Rightarrow> ledger_op list \<Rightarrow> rat list option" where
  "durationsBy r p [] = None"
| "durationsBy r p (Durations r' p' ds # ops) =
     (case durationsBy r p ops of Some later \<Rightarrow> Some later
      | None \<Rightarrow> if r' = r \<and> p' = p then Some ds else None)"
| "durationsBy r p (_ # ops) = durationsBy r p ops"

lemma tables_emitted: "reg_durations (regionAt (noteEmitted l name) r) = reg_durations (regionAt l r)"
  by (auto simp: noteEmitted_def Let_def split: option.splits)

lemma durations_fold:
  "mapGet (reg_durations (regionAt (foldl ledgerStep l ops) r)) p =
     (case durationsBy r p ops of Some ds \<Rightarrow> Some ds | None \<Rightarrow> mapGet (reg_durations (regionAt l r)) p)"
proof (induction ops arbitrary: l)
  case (Cons op ops)
  show ?case
    by (cases op) (auto simp: Cons.IH tables_emitted tables_confirmed noteDurations_def Let_def split: option.splits)
qed simp

lemma durations_run: "mapGet (reg_durations (regionAt (runLedger ops) r)) p = durationsBy r p ops"
  by (simp add: runLedger_def durations_fold emptyRegion_def split: option.splits)

lemma segmentMs_nonneg:
  assumes "\<forall>d \<in> set known. 0 \<le> d" and "0 \<le> fallback"
  shows "0 \<le> segmentMs known fallback i"
  using assms by (auto simp: segmentMs_def intro!: js_round_nonneg)

lemma sum_list_upt_mono:
  fixes f :: "nat \<Rightarrow> int"
  assumes "a \<le> b" and "\<And>i. 0 \<le> f i"
  shows "sum_list (map f [0..<a]) \<le> sum_list (map f [0..<b])"
proof -
  have "[0..<b] = [0..<a] @ [a..<b]" using assms(1) by (metis le0 le_add_diff_inverse upt_add_eq_append)
  moreover have "0 \<le> sum_list (map f [a..<b])" using assms(2) by (intro sum_list_nonneg) auto
  ultimately show ?thesis by simp
qed

section \<open>Properties\<close>

text \<open>
  the names the muxer gives its segments read back as the region, the
  playlist and the number they were made from, so no two segments share a
  name.
\<close>

theorem segment_name_roundtrip:
  "parseSegment (segmentPath region playlist n) = Some (region, playlist, n)
   \<and> (segmentPath region playlist n = segmentPath region' playlist' n'
      \<longleftrightarrow> (region, playlist, n) = (region', playlist', n'))"
  by simp

text \<open>
  C29: after any sequence of operations the ledger says what its history says,
  for every region and playlist: how many of its segments were emitted, how
  many distinct ones were confirmed however often the server repeats them, and
  the durations the last parsed playlist gave. Its unbroken run is the largest
  \<open>k\<close> such that every number up to \<open>k\<close> was confirmed. A region is covered as
  far as the least confirmed of the playlists that emitted anything, and in
  time as far as the shortest of their unbroken runs, each segment of a run
  lasting what its playlist last said, or the fallback where it said nothing.
\<close>

theorem ledger_tracks_history:
  fixes ops :: "ledger_op list"
  defines "l \<equiv> runLedger ops"
    and "numbers \<equiv> \<lambda>r p. segmentNo ` {n \<in> confirmedBy ops. inPlaylist r p n}"
    and "playlists \<equiv> \<lambda>r. {p. list_ex (inPlaylist r p) (emittedBy ops)}"
  shows "countOf (reg_emitted (regionAt l r)) p = length (filter (inPlaylist r p) (emittedBy ops))
    \<and> countOf (reg_confirmed (regionAt l r)) p = card {n \<in> confirmedBy ops. inPlaylist r p n}
    \<and> mapGet (reg_durations (regionAt l r)) p = durationsBy r p ops
    \<and> {1..contiguousIn l r p} \<subseteq> numbers r p \<and> Suc (contiguousIn l r p) \<notin> numbers r p
    \<and> covered l r =
        (if playlists r = {} then 0
         else Min ((\<lambda>p. card {n \<in> confirmedBy ops. inPlaylist r p n}) ` playlists r))
    \<and> coveredMs l r fallback =
        (if playlists r = {} then 0
         else Min ((\<lambda>p. \<Sum>i \<leftarrow> [0..<contiguousIn l r p].
                      segmentMs (orElse (durationsBy r p ops) []) fallback i) ` playlists r))"
proof (intro conjI)
  note t = tracks_run [of ops]
  have landed: "set (landedIn (regionAt l r) p) = numbers r p" for r p
    unfolding numbers_def l_def by (rule tracks_landed [OF t])
  have keys: "set (mapKeys (reg_emitted (regionAt l r))) = playlists r"
  proof -
    have "p \<in> set (mapKeys (reg_emitted (regionAt l r))) \<longleftrightarrow> (\<exists>n \<in> set (emittedBy ops). inPlaylist r p n)" for p
      using t by (simp only: tracks_def l_def)
    then show ?thesis by (simp add: playlists_def list_ex_iff set_eq_iff del: mapKeys_bump)
  qed
  have shortest: "shortest (map f (mapKeys (reg_emitted (regionAt l r)))) = (if playlists r = {} then 0 else Min (f ` playlists r))"
    for f :: "nat \<Rightarrow> 'a :: {linorder, zero}"
  proof (cases "playlists r = {}")
    case True
    then have "mapKeys (reg_emitted (regionAt l r)) = []" using keys by (metis set_empty)
    with True show ?thesis by simp
  next
    case False
    then have "map f (mapKeys (reg_emitted (regionAt l r))) \<noteq> []" using keys by auto
    from shortest_Min [OF this] False keys show ?thesis by (simp only: set_map if_False)
  qed
  show "countOf (reg_emitted (regionAt l r)) p = length (filter (inPlaylist r p) (emittedBy ops))"
    using t by (simp add: tracks_def l_def)
  show "countOf (reg_confirmed (regionAt l r)) p = card {n \<in> confirmedBy ops. inPlaylist r p n}"
    unfolding l_def by (rule tracks_count [OF t])
  show durations: "mapGet (reg_durations (regionAt l r)) p = durationsBy r p ops" for p
    unfolding l_def by (rule durations_run)
  show "{1..contiguousIn l r p} \<subseteq> numbers r p"
    using runFrom_all [of 0] by (simp add: contiguousIn_def flip: landed)
  show "Suc (contiguousIn l r p) \<notin> numbers r p"
    using runFrom_stops by (simp add: contiguousIn_def flip: landed)
  show "covered l r = (if playlists r = {} then 0
         else Min ((\<lambda>p. card {n \<in> confirmedBy ops. inPlaylist r p n}) ` playlists r))"
  proof -
    have "countOf (reg_confirmed (regionAt l r)) = (\<lambda>p. card {n \<in> confirmedBy ops. inPlaylist r p n})"
      unfolding l_def using tracks_count [OF t] by blast
    then show ?thesis unfolding covered_def Let_def shortest by simp
  qed
  show "coveredMs l r fallback = (if playlists r = {} then 0
         else Min ((\<lambda>p. \<Sum>i \<leftarrow> [0..<contiguousIn l r p].
                      segmentMs (orElse (durationsBy r p ops) []) fallback i) ` playlists r))"
  proof -
    have "runMs l r fallback = (\<lambda>p. \<Sum>i \<leftarrow> [0..<contiguousIn l r p].
                      segmentMs (orElse (durationsBy r p ops) []) fallback i)"
      by (rule ext) (simp only: runMs_def Let_def durations)
    then show ?thesis unfolding coveredMs_def shortest by simp
  qed
qed

text \<open>
  when the ledger calls a region settled, and the muxer emitted a playlist
  of it as the segments 1 to \<open>N\<close> and nothing but emitted segments was ever
  confirmed, every one of those segments is in the bucket: the playlist's
  unbroken run is all \<open>N\<close>.
\<close>

theorem settled_region_is_whole:
  assumes settled: "settled (runLedger ops) r"
    and emitted: "filter (inPlaylist r p) (emittedBy ops) = map (segmentPath r p) [1..<Suc N]"
    and real: "\<forall>n \<in> confirmedBy ops. n \<in> set (emittedBy ops)"
    and some: "0 < N"
  shows "contiguousIn (runLedger ops) r p = N"
proof -
  let ?l = "runLedger ops"
  let ?mine = "{n \<in> confirmedBy ops. inPlaylist r p n}"
  let ?names = "segmentPath r p ` {1..<Suc N}"
  note t = tracks_run [of ops]
  have key: "p \<in> set (mapKeys (reg_emitted (regionAt ?l r)))"
  proof -
    have "segmentPath r p 1 \<in> set (filter (inPlaylist r p) (emittedBy ops))"
      unfolding emitted using some by (auto simp del: upt_Suc)
    then have "\<exists>n \<in> set (emittedBy ops). inPlaylist r p n"
      by (intro bexI [of _ "segmentPath r p 1"]) simp_all
    then show ?thesis using t by (simp add: tracks_def)
  qed
  then obtain c where c: "(p, c) \<in> set (reg_emitted (regionAt ?l r))" by auto
  have "distinct (mapKeys (reg_emitted (regionAt ?l r)))" using t by (simp add: tracks_def)
  with c have "countOf (reg_emitted (regionAt ?l r)) p = c" by (simp add: countOf_def)
  moreover have "countOf (reg_emitted (regionAt ?l r)) p = N"
    using t emitted by (simp add: tracks_def del: upt_Suc)
  moreover have "c \<le> countOf (reg_confirmed (regionAt ?l r)) p"
    using settled c by (auto simp: settled_def Let_def list_all_iff split: if_splits)
  ultimately have enough: "N \<le> card ?mine" using tracks_count [OF t] by simp
  have "?mine \<subseteq> set (filter (inPlaylist r p) (emittedBy ops))" using real by auto
  then have sub: "?mine \<subseteq> ?names" unfolding emitted by (auto simp del: upt_Suc)
  have "card ?names = N"
    by (subst card_image) (simp_all add: inj_on_def del: upt_Suc)
  with sub enough have "?mine = ?names"
    by (intro card_seteq) auto
  then have "set (landedIn (regionAt ?l r) p) = {1..N}"
    unfolding tracks_landed [OF t] by (auto simp: image_image)
  then show ?thesis unfolding contiguousIn_def by (intro runFrom_eq) auto
qed

theorem settled_region_is_whole_witness:
  "contiguousIn (runLedger
     [Emitted (segmentPath 1 1 1), Emitted (segmentPath 1 1 2),
      Confirmed [segmentPath 1 1 2], Confirmed [segmentPath 1 1 2, segmentPath 1 1 1]]) 1 1 = 2"
proof (rule settled_region_is_whole)
  show "settled (runLedger
     [Emitted (segmentPath 1 1 1), Emitted (segmentPath 1 1 2),
      Confirmed [segmentPath 1 1 2], Confirmed [segmentPath 1 1 2, segmentPath 1 1 1]]) 1"
    by (simp add: runLedger_def noteEmitted_def noteConfirmed_def noteConfirmedOne_def settled_def
        bump_def countOf_def emptyRegion_def Let_def landedIn_def)
qed (simp_all add: upt_conv_Cons)

text \<open>
  C30: what a viewer can play of a region never shrinks when the server
  confirms more segments, in whatever order the confirmations arrive.
\<close>

theorem confirmations_never_shrink:
  assumes "0 \<le> fallback"
    and "\<forall>p ds. mapGet (reg_durations (regionAt l r)) p = Some ds \<longrightarrow> (\<forall>d \<in> set ds. 0 \<le> d)"
  shows "coveredMs l r fallback \<le> coveredMs (noteConfirmed l names) r fallback"
proof -
  have "runMs l r fallback p \<le> runMs (noteConfirmed l names) r fallback p" for p
  proof -
    have "contiguousIn l r p \<le> contiguousIn (noteConfirmed l names) r p"
      unfolding noteConfirmed_def by (rule confirmations.run_mono) simp
    moreover have "0 \<le> segmentMs (orElse (mapGet (reg_durations (regionAt l r)) p) []) fallback i" for i
      using assms
      by (cases "mapGet (reg_durations (regionAt l r)) p") (auto intro!: segmentMs_nonneg)
    ultimately show ?thesis
      by (simp add: runMs_def tables_confirmed Let_def sum_list_upt_mono)
  qed
  then show ?thesis
    unfolding coveredMs_def tables_confirmed
    by (intro shortest_mono) (simp add: list_all2_conv_all_nth)
qed

theorem confirmations_never_shrink_witness:
  "coveredMs (runLedger [Emitted (segmentPath 0 1 1), Durations 0 1 [4]]) 0 4000
   \<le> coveredMs (noteConfirmed (runLedger [Emitted (segmentPath 0 1 1), Durations 0 1 [4]])
        [segmentPath 0 1 1]) 0 4000"
  by (rule confirmations_never_shrink)
     (simp_all add: runLedger_def noteEmitted_def noteDurations_def Let_def createSegmentLedger_def
        regionAt_def putRegion_def emptyRegion_def)

end
