(* ===== verification/Playlist.thy ===== *)
theory Playlist
  imports SegmentLedger
begin

text \<open>
  The playlist texts of \<open>web/src/pipeline/clientMedia.ts\<close>: which rendition a
  playlist file is, the durations its \<open>#EXTINF\<close> tags declare, and ending a
  live playlist after the segments that made it to the bucket.
\<close>

section \<open>Definitions\<close>

text \<open>\<open>/^(?:r\d+_)?client_stream_(\d+)\.m3u8$/\<close>.\<close>

definition renditionOf :: "string \<Rightarrow> nat option" where
  "renditionOf name = do {
     let body = (case regionPrefix name of Some (region, body) \<Rightarrow> body | None \<Rightarrow> name);
     rest \<leftarrow> stripPrefix ''client_stream_'' body;
     (ds, rest) \<leftarrow> takeDigits rest;
     if rest = ''.m3u8'' then Some (num ds) else None }"

text \<open>
  \<open>Number(s)\<close> of a string of digits and dots, \<open>None\<close> for NaN: digits, one dot
  at most, and a digit somewhere.
\<close>

definition decimal :: "string \<Rightarrow> rat option" where
  "decimal s =
     (let whole = takeWhile isDigit s; rest = dropWhile isDigit s
      in if rest = [] then (if whole = [] then None else Some (of_nat (num whole)))
         else let frac = tl rest
           in if hd rest = CHR ''.'' \<and> list_all isDigit frac \<and> (whole \<noteq> [] \<or> frac \<noteq> [])
              then Some (of_nat (num whole) + of_nat (num frac) / 10 ^ length frac)
              else None)"

text \<open>\<open>/^#EXTINF:([\d.]+)/\<close>.\<close>

definition extinf :: "string \<Rightarrow> string option" where
  "extinf line = do {
     rest \<leftarrow> stripPrefix ''#EXTINF:'' line;
     let figure = takeWhile (\<lambda>c. isDigit c \<or> c = CHR ''.'') rest;
     if figure = [] then None else Some figure }"

definition segmentDurations :: "string \<Rightarrow> rat option list" where
  "segmentDurations body = map decimal (List.map_filter (\<lambda>line. extinf (trim line)) (splitLines body))"

definition isTag :: "string \<Rightarrow> bool" where
  "isTag line \<longleftrightarrow> trim line = '''' \<or> startsWith (trim line) ''#''"

fun endLoop :: "nat \<Rightarrow> string list \<Rightarrow> string list \<Rightarrow> nat \<Rightarrow> string list \<Rightarrow> string list \<times> nat" where
  "endLoop keep out pending segments [] = (out, segments)"
| "endLoop keep out pending segments (line # lines) =
     (if isTag line then endLoop keep out (pending @ [line]) segments lines
      else if segments = keep then (out, segments)
      else endLoop keep (out @ pending @ [line]) [] (segments + 1) lines)"

definition endPlaylist :: "string \<Rightarrow> nat \<Rightarrow> string option" where
  "endPlaylist body keep =
     (if keep = 0 then None
      else let (out, segments) = endLoop keep [] [] 0 (splitLines body)
        in if segments = 0 then None else Some (joinLines out @ [NL] @ ''#EXT-X-ENDLIST'' @ [NL]))"

section \<open>Lemmas\<close>

abbreviation segmentLines :: "string list \<Rightarrow> nat" where
  "segmentLines lines \<equiv> length (filter (\<lambda>l. \<not> isTag l) lines)"

text \<open>
  The loop in one step: it keeps the lines up to the \<open>keep\<close>-th segment, that
  one included, counted from what was already kept.
\<close>

lemma endLoop_spec:
  assumes "segments \<le> keep" and "\<forall>l \<in> set pending. isTag l"
  shows "\<exists>k. endLoop keep out pending segments lines =
      (if k = 0 then out else out @ pending @ take k lines, segments + segmentLines (take k lines))
    \<and> (k = 0 \<or> (k \<le> length lines \<and> \<not> isTag (lines ! (k - 1))))
    \<and> segments + segmentLines (take k lines) = min keep (segments + segmentLines lines)"
  using assms
proof (induction keep out pending segments lines rule: endLoop.induct)
  case (1 keep out pending segments)
  then show ?case by (intro exI [of _ 0]) simp
next
  case (2 keep out pending segments line lines)
  consider (tag) "isTag line" | (full) "\<not> isTag line" "segments = keep" | (seg) "\<not> isTag line" "segments < keep"
    using 2(3) by linarith
  then show ?case
  proof cases
    case tag
    have "\<forall>l \<in> set (pending @ [line]). isTag l" using 2(4) tag by simp
    from 2(1) [OF tag 2(3) this] obtain k where
      "endLoop keep out (pending @ [line]) segments lines =
        (if k = 0 then out else out @ (pending @ [line]) @ take k lines, segments + segmentLines (take k lines))"
      "k = 0 \<or> (k \<le> length lines \<and> \<not> isTag (lines ! (k - 1)))"
      "segments + segmentLines (take k lines) = min keep (segments + segmentLines lines)"
      by blast
    with tag show ?thesis
      by (intro exI [of _ "if k = 0 then 0 else Suc k"]) (auto simp: nth_Cons')
  next
    case full
    then show ?thesis by (intro exI [of _ 0]) simp
  next
    case seg
    have "segments \<noteq> keep" "segments + 1 \<le> keep" "\<forall>l \<in> set []. isTag l" using seg(2) by simp_all
    from 2(2) [OF seg(1) this] obtain k where k:
      "endLoop keep (out @ pending @ [line]) [] (segments + 1) lines =
        (if k = 0 then out @ pending @ [line] else (out @ pending @ [line]) @ [] @ take k lines,
         segments + 1 + segmentLines (take k lines))"
      "k = 0 \<or> (k \<le> length lines \<and> \<not> isTag (lines ! (k - 1)))"
      "segments + 1 + segmentLines (take k lines) = min keep (segments + 1 + segmentLines lines)"
      by blast
    show ?thesis
    proof (intro exI [of _ "Suc k"] conjI)
      show "endLoop keep out pending segments (line # lines) =
        (if Suc k = 0 then out else out @ pending @ take (Suc k) (line # lines),
         segments + segmentLines (take (Suc k) (line # lines)))"
        using seg k(1) by simp
      show "Suc k = 0 \<or> (Suc k \<le> length (line # lines) \<and> \<not> isTag ((line # lines) ! (Suc k - 1)))"
        using seg k(2) by (auto simp: nth_Cons')
      show "segments + segmentLines (take (Suc k) (line # lines)) =
          min keep (segments + segmentLines (line # lines))"
        using seg k(3) by simp
    qed
  qed
qed

lemma endLoop_start:
  obtains k where "k \<le> length lines"
    "endLoop keep [] [] 0 lines = (take k lines, segmentLines (take k lines))"
    "k = 0 \<or> \<not> isTag (lines ! (k - 1))"
    "segmentLines (take k lines) = min keep (segmentLines lines)"
proof -
  obtain k where k: "endLoop keep [] [] 0 lines =
      (if k = 0 then [] else [] @ [] @ take k lines, 0 + segmentLines (take k lines))"
    "k = 0 \<or> (k \<le> length lines \<and> \<not> isTag (lines ! (k - 1)))"
    "0 + segmentLines (take k lines) = min keep (0 + segmentLines lines)"
  proof -
    have "\<exists>k. endLoop keep [] [] 0 lines =
        (if k = 0 then [] else [] @ [] @ take k lines, 0 + segmentLines (take k lines))
      \<and> (k = 0 \<or> (k \<le> length lines \<and> \<not> isTag (lines ! (k - 1))))
      \<and> 0 + segmentLines (take k lines) = min keep (0 + segmentLines lines)"
      by (rule endLoop_spec) simp_all
    then show thesis using that by blast
  qed
  have "(if k = 0 then [] else [] @ [] @ take k lines) = take k lines" by simp
  with k that [of k] show thesis by auto
qed

lemma endPlaylist_Some:
  assumes "endPlaylist body keep = Some ended"
  obtains k where "0 < k" "k \<le> length (splitLines body)"
    "ended = joinLines (take k (splitLines body)) @ [NL] @ ''#EXT-X-ENDLIST'' @ [NL]"
    "\<not> isTag (splitLines body ! (k - 1))"
    "segmentLines (take k (splitLines body)) = min keep (segmentLines (splitLines body))"
proof -
  obtain k where k: "k \<le> length (splitLines body)"
    "endLoop keep [] [] 0 (splitLines body) = (take k (splitLines body), segmentLines (take k (splitLines body)))"
    "k = 0 \<or> \<not> isTag (splitLines body ! (k - 1))"
    "segmentLines (take k (splitLines body)) = min keep (segmentLines (splitLines body))"
    by (rule endLoop_start [of "splitLines body" keep])
  have "k \<noteq> 0" using assms k(2) by (cases "k = 0") (auto simp: endPlaylist_def split: if_splits)
  moreover have "ended = joinLines (take k (splitLines body)) @ [NL] @ ''#EXT-X-ENDLIST'' @ [NL]"
    using assms k(2) by (auto simp: endPlaylist_def split: if_splits)
  ultimately show thesis using that k by blast
qed

lemma endPlaylist_None: "endPlaylist body keep = None \<longleftrightarrow> keep = 0 \<or> segmentLines (splitLines body) = 0"
proof -
  obtain k where k: "k \<le> length (splitLines body)"
    "endLoop keep [] [] 0 (splitLines body) = (take k (splitLines body), segmentLines (take k (splitLines body)))"
    "segmentLines (take k (splitLines body)) = min keep (segmentLines (splitLines body))"
    by (rule endLoop_start [of "splitLines body" keep])
  then show ?thesis by (auto simp: endPlaylist_def min_def split: if_splits)
qed

lemma NL_not_in: "NL \<notin> set ''#EXT-X-ENDLIST''"
  by (simp add: NL_def)

lemma isTag_end [simp]: "isTag ''#EXT-X-ENDLIST''" "isTag ''''"
  by (simp_all add: isTag_def startsWith_def trim_def trimEnd_def isSpace_def codeOf_def)

lemma splitLines_ended:
  assumes "ws \<noteq> []" and "\<forall>w \<in> set ws. NL \<notin> set w"
  shows "splitLines (joinLines ws @ [NL] @ ''#EXT-X-ENDLIST'' @ [NL]) = ws @ [''#EXT-X-ENDLIST'', '''']"
proof -
  have "joinLines ws @ [NL] @ ''#EXT-X-ENDLIST'' @ [NL] = joinLines (ws @ [''#EXT-X-ENDLIST'', ''''])"
    using assms(1)
  proof (induction ws)
    case Nil
    then show ?case by simp
  next
    case (Cons w ws)
    then show ?case by (cases ws) (simp_all add: joinWith_Cons)
  qed
  then show ?thesis using assms NL_not_in by (simp add: split_join)
qed

lemma segmentLines_ended: "segmentLines (ws @ [''#EXT-X-ENDLIST'', '''']) = segmentLines ws"
  by simp

section \<open>Properties\<close>

text \<open>
  ending a playlist keeps an exact prefix of it, up to and including a
  segment line, with as many segments as were asked for (or all there are),
  and closes it with the end tag; there is no ended playlist exactly when no
  segment would be left in it.
\<close>

theorem endPlaylist_keeps_prefix:
  "(endPlaylist body keep = None \<longleftrightarrow> keep = 0 \<or> segmentLines (splitLines body) = 0)
   \<and> (\<forall>ended. endPlaylist body keep = Some ended \<longrightarrow>
       (\<exists>k. 0 < k \<and> k \<le> length (splitLines body)
          \<and> splitLines ended = take k (splitLines body) @ [''#EXT-X-ENDLIST'', '''']
          \<and> \<not> isTag (splitLines body ! (k - 1))
          \<and> segmentLines (splitLines ended) = min keep (segmentLines (splitLines body))))"
proof (intro conjI allI impI)
  fix ended assume "endPlaylist body keep = Some ended"
  then obtain k where k: "0 < k" "k \<le> length (splitLines body)"
    "ended = joinLines (take k (splitLines body)) @ [NL] @ ''#EXT-X-ENDLIST'' @ [NL]"
    "\<not> isTag (splitLines body ! (k - 1))"
    "segmentLines (take k (splitLines body)) = min keep (segmentLines (splitLines body))"
    by (rule endPlaylist_Some)
  have "splitLines ended = take k (splitLines body) @ [''#EXT-X-ENDLIST'', '''']"
    unfolding k(3)
  proof (rule splitLines_ended)
    show "take k (splitLines body) \<noteq> []" using k(1) by simp
    show "\<forall>w \<in> set (take k (splitLines body)). NL \<notin> set w"
      using splitOn_no_sep in_set_takeD by metis
  qed
  with k show "\<exists>k. 0 < k \<and> k \<le> length (splitLines body)
      \<and> splitLines ended = take k (splitLines body) @ [''#EXT-X-ENDLIST'', '''']
      \<and> \<not> isTag (splitLines body ! (k - 1))
      \<and> segmentLines (splitLines ended) = min keep (segmentLines (splitLines body))"
    by (intro exI [of _ k]) simp
qed (rule endPlaylist_None)

theorem endPlaylist_keeps_prefix_witness:
  "endPlaylist (joinLines [''#EXTM3U'', ''a.m4s'', ''#EXTINF:4'', ''b.m4s'', ''c.m4s'']) 2 \<noteq> None"
proof -
  have tags: "isTag ''#EXTM3U''" "isTag ''#EXTINF:4''" "\<not> isTag ''a.m4s''" "\<not> isTag ''b.m4s''" "\<not> isTag ''c.m4s''"
    by (simp_all add: isTag_def startsWith_def trim_def trimEnd_def isSpace_def codeOf_def)
  have "splitLines (joinLines [''#EXTM3U'', ''a.m4s'', ''#EXTINF:4'', ''b.m4s'', ''c.m4s''])
      = [''#EXTM3U'', ''a.m4s'', ''#EXTINF:4'', ''b.m4s'', ''c.m4s'']"
    by (rule split_join) (simp_all add: NL_def)
  then show ?thesis
    using endPlaylist_keeps_prefix [of "joinLines [''#EXTM3U'', ''a.m4s'', ''#EXTINF:4'', ''b.m4s'', ''c.m4s'']" 2]
    by (simp add: tags)
qed

end
