(* ===== verification/Playback.thy ===== *)
theory Playback
  imports Prelude "HOL-Library.Multiset"
begin

text \<open>
  The pure decisions of the player (\<open>web/src/player\<close>): where the room is
  (\<open>position.ts\<close>), which region holds a position (\<open>regions.ts\<close>), how much
  buffer a start waits for (\<open>gate.ts\<close>, \<open>bufferAhead.ts\<close>) and how fast the
  viewer's downloads were (\<open>playbackHealth.ts\<close>).

  Seconds and the browser's clock are \<open>rat\<close>; positions the server sends are
  whole milliseconds.
\<close>

section \<open>Where the room is (position.ts)\<close>

record play_state =
  playing :: bool
  positionMs :: rat
  play_rate :: rat
  serverTimeMs :: rat

definition DRIFT_THRESHOLD_MS :: rat where
  "DRIFT_THRESHOLD_MS = 450"

definition expectedPositionMs :: "play_state \<Rightarrow> rat \<Rightarrow> rat" where
  "expectedPositionMs state nowServerMs =
     (let elapsed = (if playing state then (nowServerMs - serverTimeMs state) * play_rate state else 0)
      in max 0 (positionMs state + elapsed))"

definition needsResync :: "rat \<Rightarrow> rat \<Rightarrow> bool" where
  "needsResync localMs expectedMs \<longleftrightarrow> DRIFT_THRESHOLD_MS < \<bar>localMs - expectedMs\<bar>"

section \<open>Regions of the media (regions.ts)\<close>

record media_region =
  mr_n :: nat
  mr_startMs :: int
  mr_producedMs :: int
  mr_growing :: bool

definition REGION_AHEAD_MS :: int where
  "REGION_AHEAD_MS = 30000"

definition REGION_BEHIND_MS :: int where
  "REGION_BEHIND_MS = 1000"

definition regionHolds :: "media_region \<Rightarrow> int \<Rightarrow> bool" where
  "regionHolds region ms =
     (let end = mr_startMs region + mr_producedMs region
            + (if mr_growing region then REGION_AHEAD_MS else 0)
      in mr_startMs region - REGION_BEHIND_MS \<le> ms \<and> ms \<le> end)"

definition regionHas :: "media_region \<Rightarrow> int \<Rightarrow> int \<Rightarrow> bool" where
  "regionHas region ms aheadMs =
     (if ms < mr_startMs region - REGION_BEHIND_MS then False
      else let written = mr_startMs region + mr_producedMs region
        in if mr_growing region then ms + aheadMs \<le> written else ms \<le> written)"

section \<open>The gate (gate.ts)\<close>

definition GATE_READY_BUFFER_MS :: int where "GATE_READY_BUFFER_MS = 3000"

definition GATE_FLOOR_SEC :: rat where "GATE_FLOOR_SEC = of_int GATE_READY_BUFFER_MS / 1000"

definition GATE_OPEN_SEC :: rat where "GATE_OPEN_SEC = 30"

definition GATE_BASE_SEC :: rat where "GATE_BASE_SEC = 10"

record gate_input =
  gate_producedEdgeSec :: "rat option"
  gate_currentTime :: rat
  gate_sealed :: bool
  gate_gatedStart :: bool
  gate_opening :: bool

definition gateSecondsFor :: "gate_input \<Rightarrow> rat" where
  "gateSecondsFor input =
     (if gate_sealed input \<or> gate_gatedStart input then GATE_FLOOR_SEC
      else if gate_opening input then GATE_OPEN_SEC
      else (case gate_producedEdgeSec input of
        None \<Rightarrow> GATE_BASE_SEC
      | Some edge \<Rightarrow>
          let available = edge - gate_currentTime input - 1 / 2
          in min GATE_BASE_SEC (max GATE_FLOOR_SEC available)))"

section \<open>The buffer ahead (bufferAhead.ts)\<close>

text \<open>A buffered range is its start and end, in seconds.\<close>

fun reachFrom :: "rat \<Rightarrow> (rat \<times> rat) list \<Rightarrow> rat" where
  "reachFrom reach [] = reach"
| "reachFrom reach ((start, end) # ranges) =
     (if end \<le> reach then reachFrom reach ranges
      else if reach + 1 / 2 < start then reach
      else reachFrom end ranges)"

definition bufferAhead :: "(rat \<times> rat) list \<Rightarrow> rat \<Rightarrow> rat" where
  "bufferAhead ranges currentTime = max (reachFrom currentTime ranges - currentTime) 0"

record hold_input =
  hold_aheadSec :: rat
  hold_gateSec :: rat
  hold_currentTime :: rat
  hold_timelineEnd :: rat
  hold_playing :: bool
  hold_ready :: bool

definition holdsForBuffer :: "hold_input \<Rightarrow> bool" where
  "holdsForBuffer input =
     (if hold_playing input \<or> \<not> hold_ready input then False
      else if 0 < hold_timelineEnd input
          \<and> hold_timelineEnd input - 1 / 2 \<le> hold_currentTime input + hold_gateSec input then False
      else hold_aheadSec input < hold_gateSec input)"

section \<open>Throughput (playbackHealth.ts)\<close>

record transfer =
  tr_start :: rat
  tr_end :: rat
  tr_bytes :: rat

definition WINDOW_MS :: rat where "WINDOW_MS = 20000"

definition MIN_BUSY_MS :: rat where "MIN_BUSY_MS = 250"

definition spansIn :: "transfer list \<Rightarrow> rat \<Rightarrow> rat \<Rightarrow> transfer list" where
  "spansIn transfers from now =
     sort_key tr_start
       (map (\<lambda>t. t\<lparr>tr_start := max (tr_start t) from\<rparr>)
         (filter (\<lambda>t. from < tr_end t \<and> tr_end t \<le> now) transfers))"

text \<open>The loop over the spans; no span seen yet is \<open>reach = -Infinity\<close>, \<open>None\<close> here.\<close>

fun busyLoop :: "rat option \<Rightarrow> rat \<Rightarrow> rat \<Rightarrow> transfer list \<Rightarrow> rat \<times> rat" where
  "busyLoop reach busy bytes [] = (busy, bytes)"
| "busyLoop reach busy bytes (sp # spans) =
     (let bytes = bytes + tr_bytes sp
      in case reach of
           None \<Rightarrow> busyLoop (Some (tr_end sp)) (busy + (tr_end sp - tr_start sp)) bytes spans
         | Some r \<Rightarrow>
             if tr_end sp \<le> r then busyLoop reach busy bytes spans
             else busyLoop (Some (tr_end sp)) (busy + (tr_end sp - max (tr_start sp) r)) bytes spans)"

definition throughputKbps :: "transfer list \<Rightarrow> rat \<Rightarrow> rat \<Rightarrow> int" where
  "throughputKbps transfers now windowMs =
     (let (busy, bytes) = busyLoop None 0 0 (spansIn transfers (now - windowMs) now)
      in if busy < MIN_BUSY_MS then 0 else js_round (bytes * 8 / busy))"

definition recordTransfer :: "transfer list \<Rightarrow> rat \<Rightarrow> rat \<Rightarrow> rat \<Rightarrow> transfer list" where
  "recordTransfer transfers start end bytes =
     (if \<not> start < end \<or> \<not> 0 < bytes then transfers
      else dropWhile (\<lambda>t. tr_end t \<le> end - WINDOW_MS)
             (transfers @ [\<lparr>tr_start = start, tr_end = end, tr_bytes = bytes\<rparr>]))"

text \<open>\<open>Number.isFinite\<close> failing is \<open>None\<close>.\<close>

definition recordMediaBitrate :: "int \<Rightarrow> rat option \<Rightarrow> int" where
  "recordMediaBitrate mediaKbps bitsPerSecond =
     (case bitsPerSecond of
        Some b \<Rightarrow> if 0 < b then js_round (b / 1000) else mediaKbps
      | None \<Rightarrow> mediaKbps)"

definition playbackHealth :: "transfer list \<Rightarrow> int \<Rightarrow> rat \<Rightarrow> int \<times> int" where
  "playbackHealth transfers mediaKbps now = (throughputKbps transfers now WINDOW_MS, mediaKbps)"

section \<open>Lemmas\<close>

lemma gate_values: "GATE_FLOOR_SEC = 3" "GATE_OPEN_SEC = 30" "GATE_BASE_SEC = 10"
  by (simp_all add: GATE_FLOOR_SEC_def GATE_OPEN_SEC_def GATE_BASE_SEC_def GATE_READY_BUFFER_MS_def)

lemma reachFrom_ge: "reach \<le> reachFrom reach ranges"
  by (induction reach ranges rule: reachFrom.induct) auto

text \<open>Every moment up to the reach is in a buffered range or in a hole of half a second before one.\<close>

lemma reachFrom_filled:
  assumes "reach \<le> t" and "t < reachFrom reach ranges"
  shows "\<exists>(start, end) \<in> set ranges. start - 1 / 2 \<le> t \<and> t < end"
  using assms
proof (induction reach ranges rule: reachFrom.induct)
  case (1 reach)
  then show ?case by simp
next
  case (2 reach start "end" ranges)
  show ?case
  proof (cases "end \<le> reach")
    case True
    with 2 show ?thesis by auto
  next
    case False
    with 2(4) have near: "start \<le> reach + 1 / 2"
      using 2(3) by (auto split: if_splits)
    show ?thesis
    proof (cases "t < end")
      case True
      with near 2(3) show ?thesis by auto
    next
      case late: False
      then have "\<exists>(start, end) \<in> set ranges. start - 1 / 2 \<le> t \<and> t < end"
        using 2(2) [OF False] near 2(4) False by auto
      then show ?thesis by auto
    qed
  qed
qed

lemma regionHas_holds:
  assumes "regionHas region ms aheadMs" and "0 \<le> aheadMs"
  shows "regionHolds region ms"
  using assms by (auto simp: regionHas_def regionHolds_def Let_def REGION_AHEAD_MS_def split: if_splits)

text \<open>On whole times the busy time is the number of units of time in which some download ran.\<close>

definition wholeSpan :: "transfer \<Rightarrow> bool" where
  "wholeSpan t \<longleftrightarrow> tr_start t \<in> \<int> \<and> tr_end t \<in> \<int> \<and> tr_start t \<le> tr_end t"

definition msOf :: "transfer \<Rightarrow> int set" where
  "msOf t = {\<lfloor>tr_start t\<rfloor>..<\<lfloor>tr_end t\<rfloor>}"

lemma busyLoop_bytes: "snd (busyLoop reach busy bytes spans) = bytes + sum_list (map tr_bytes spans)"
  by (induction spans arbitrary: reach busy bytes) (auto simp: Let_def split: option.splits)

lemma busyLoop_union:
  assumes "\<forall>s \<in> set spans. wholeSpan s" and "sorted (map tr_start spans)" and "r \<in> \<int>"
    and "\<forall>s \<in> set spans. lo \<le> tr_start s"
  shows "fst (busyLoop (Some r) busy bytes spans) =
    busy + of_int (int (card ((\<Union>s \<in> set spans. msOf s) - {..<\<lfloor>r\<rfloor>})))"
  using assms
proof (induction spans arbitrary: r busy bytes)
  case Nil
  then show ?case by simp
next
  case (Cons s spans)
  let ?rest = "\<Union>x \<in> set spans. msOf x"
  obtain a b k where abk: "tr_start s = of_int a" "tr_end s = of_int b" "r = of_int k" and ab: "a \<le> b"
    using Cons.prems(1,3) by (auto simp: wholeSpan_def elim!: Ints_cases)
  have later: "a \<le> \<lfloor>tr_start x\<rfloor>" if "x \<in> set spans" for x
    using Cons.prems(2) that abk(1) by (metis floor_mono floor_of_int image_eqI list.set_map list.simps(9) sorted_simps(2))
  have start: "a \<le> m" if "m \<in> ?rest" for m
    using that later by (fastforce simp: msOf_def)
  have fin: "finite ?rest" by (simp add: msOf_def)
  have IH: "fst (busyLoop (Some r') busy' bytes' spans) =
      busy' + of_int (int (card (?rest - {..<\<lfloor>r'\<rfloor>})))" if "r' \<in> \<int>" for r' busy' bytes'
    using Cons.IH [of r' busy' bytes'] Cons.prems that by simp
  show ?case
  proof (cases "b \<le> k")
    case True
    then have "(\<Union>x \<in> set (s # spans). msOf x) - {..<k} = ?rest - {..<k}"
      by (auto simp: msOf_def abk)
    with True IH [of r] Cons.prems(3) abk show ?thesis by (simp add: Let_def)
  next
    case False
    let ?new = "{max a k..<b}"
    have split: "(\<Union>x \<in> set (s # spans). msOf x) - {..<k} = ?new \<union> (?rest - {..<b})"
    proof
      show "?new \<union> (?rest - {..<b}) \<subseteq> (\<Union>x \<in> set (s # spans). msOf x) - {..<k}"
        using False by (auto simp: msOf_def abk)
      show "(\<Union>x \<in> set (s # spans). msOf x) - {..<k} \<subseteq> ?new \<union> (?rest - {..<b})"
        using start by (auto simp: msOf_def abk; fastforce)
    qed
    have "card (?new \<union> (?rest - {..<b})) = card ?new + card (?rest - {..<b})"
      using fin by (intro card_Un_disjoint) auto
    moreover have "int (card ?new) = b - max a k" using False ab by simp
    ultimately have total: "int (card (?new \<union> (?rest - {..<b}))) = (b - max a k) + int (card (?rest - {..<b}))"
      by simp
    have "fst (busyLoop (Some r) busy bytes (s # spans)) =
        busy + (of_int b - max (of_int a) (of_int k)) + of_int (int (card (?rest - {..<b})))"
      using False IH [of "tr_end s"] abk by (simp add: Let_def)
    moreover have "max (of_int a) (of_int k) = (of_int (max a k) :: rat)" by (simp add: max_def)
    ultimately have loop: "fst (busyLoop (Some r) busy bytes (s # spans)) =
        busy + of_int ((b - max a k) + int (card (?rest - {..<b})))"
      by simp
    have "\<lfloor>r\<rfloor> = k" by (simp add: abk(3))
    then show ?thesis unfolding loop by (simp only: split total)
  qed
qed

lemma gate_floor: "3 \<le> gateSecondsFor input"
  by (auto simp: gateSecondsFor_def gate_values Let_def split: option.splits)

lemma spansIn_props:
  "set (spansIn transfers from now) =
     (\<lambda>t. t\<lparr>tr_start := max (tr_start t) from\<rparr>) ` {t \<in> set transfers. from < tr_end t \<and> tr_end t \<le> now}"
  "sorted (map tr_start (spansIn transfers from now))"
  by (auto simp: spansIn_def)

lemma spansIn_bytes:
  "sum_list (map tr_bytes (spansIn transfers from now)) =
     sum_list (map tr_bytes (filter (\<lambda>t. from < tr_end t \<and> tr_end t \<le> now) transfers))"
proof -
  have "sum_list (map tr_bytes (spansIn transfers from now)) =
      sum_mset (image_mset tr_bytes (mset (spansIn transfers from now)))"
    by (metis mset_map sum_mset_sum_list)
  also have "\<dots> = sum_mset (image_mset tr_bytes (mset
      (map (\<lambda>t. t\<lparr>tr_start := max (tr_start t) from\<rparr>) (filter (\<lambda>t. from < tr_end t \<and> tr_end t \<le> now) transfers))))"
    by (simp add: spansIn_def)
  also have "\<dots> = sum_list (map tr_bytes (filter (\<lambda>t. from < tr_end t \<and> tr_end t \<le> now) transfers))"
    by (simp add: sum_mset_sum_list[symmetric] image_mset.compositionality comp_def del: sum_mset_sum_list)
  finally show ?thesis .
qed

text \<open>The units of the window in which a finished download was running, on whole times.\<close>

definition busyMs :: "transfer list \<Rightarrow> int \<Rightarrow> int \<Rightarrow> int set" where
  "busyMs transfers from now =
     {m. from \<le> m \<and> (\<exists>t \<in> set transfers. m \<in> msOf t \<and> of_int from < tr_end t \<and> tr_end t \<le> of_int now)}"

lemma clipped_msOf:
  assumes "wholeSpan t" and "of_int from < tr_end t"
  shows "wholeSpan (t\<lparr>tr_start := max (tr_start t) (of_int from)\<rparr>)"
    and "msOf (t\<lparr>tr_start := max (tr_start t) (of_int from)\<rparr>) = {m \<in> msOf t. from \<le> m}"
proof -
  obtain a b where ab: "tr_start t = of_int a" "tr_end t = of_int b" "a \<le> b"
    using assms(1) by (auto simp: wholeSpan_def elim!: Ints_cases)
  have m: "max (of_int a) (of_int from) = (of_int (max a from) :: rat)" by (simp add: max_def)
  show "wholeSpan (t\<lparr>tr_start := max (tr_start t) (of_int from)\<rparr>)"
    using assms ab by (simp add: wholeSpan_def m)
  show "msOf (t\<lparr>tr_start := max (tr_start t) (of_int from)\<rparr>) = {m \<in> msOf t. from \<le> m}"
    by (auto simp: msOf_def ab m)
qed

lemma spansIn_msOf:
  assumes "\<forall>t \<in> set transfers. wholeSpan t"
  shows "\<forall>s \<in> set (spansIn transfers (of_int from) (of_int now)). wholeSpan s"
    and "(\<Union>s \<in> set (spansIn transfers (of_int from) (of_int now)). msOf s) = busyMs transfers from now"
  using assms clipped_msOf by (auto simp: spansIn_props busyMs_def)

lemma busyLoop_None:
  assumes "\<forall>s \<in> set spans. wholeSpan s" and "sorted (map tr_start spans)"
  shows "fst (busyLoop None 0 bytes spans) = of_int (int (card (\<Union>s \<in> set spans. msOf s)))"
proof (cases spans)
  case Nil
  then show ?thesis by simp
next
  case (Cons s rest)
  obtain a b where ab: "tr_start s = of_int a" "tr_end s = of_int b" "a \<le> b"
    using assms(1) by (auto simp: Cons wholeSpan_def elim!: Ints_cases)
  have low: "a \<le> m" if "m \<in> (\<Union>x \<in> set spans. msOf x)" for m
  proof -
    from that obtain x where x: "x \<in> set spans" "\<lfloor>tr_start x\<rfloor> \<le> m" by (auto simp: msOf_def)
    have "tr_start s \<le> tr_start x" using assms(2) x(1) by (auto simp: Cons)
    then have "a \<le> \<lfloor>tr_start x\<rfloor>" by (simp add: ab le_floor_iff)
    with x show ?thesis by simp
  qed
  have ints: "of_int a \<in> (\<int> :: rat set)" by simp
  have "fst (busyLoop (Some (of_int a)) 0 bytes spans) =
      0 + of_int (int (card ((\<Union>x \<in> set spans. msOf x) - {..<\<lfloor>of_int a :: rat\<rfloor>})))"
    using assms by (intro busyLoop_union [where lo = "of_int a"] ints) (auto simp: Cons ab)
  moreover have "(\<Union>x \<in> set spans. msOf x) - {..<a} = (\<Union>x \<in> set spans. msOf x)"
    using low by fastforce
  moreover have "fst (busyLoop None 0 bytes spans) = fst (busyLoop (Some (of_int a)) 0 bytes spans)"
  proof (cases "a = b")
    case True
    have skip: "busyLoop None 0 bytes (s # rest) = busyLoop (Some (of_int a)) 0 (bytes + tr_bytes s) rest"
      using True ab by (simp add: Let_def)
    show ?thesis using True ab by (simp add: Cons skip Let_def)
  next
    case False
    with ab show ?thesis by (simp add: Cons Let_def)
  qed
  ultimately show ?thesis by simp
qed

text \<open>
  Fractions of a millisecond: times with a common denominator \<open>n\<close> are whole
  in units of an \<open>n\<close>-th of a millisecond.
\<close>

definition inUnits :: "nat \<Rightarrow> transfer \<Rightarrow> transfer" where
  "inUnits n t = t\<lparr>tr_start := of_nat n * tr_start t, tr_end := of_nat n * tr_end t\<rparr>"

definition onGrid :: "nat \<Rightarrow> rat list \<Rightarrow> bool" where
  "onGrid n ts \<longleftrightarrow> 0 < n \<and> (\<forall>x \<in> set ts. of_nat n * x \<in> \<int>)"

definition timesOf :: "transfer list \<Rightarrow> rat \<Rightarrow> rat \<Rightarrow> rat list" where
  "timesOf transfers now windowMs = now # windowMs # map tr_start transfers @ map tr_end transfers"

definition busyUnits :: "nat \<Rightarrow> transfer list \<Rightarrow> rat \<Rightarrow> rat \<Rightarrow> int set" where
  "busyUnits n transfers from now =
     {k. from \<le> of_int k / of_nat n
        \<and> (\<exists>t \<in> set transfers. tr_start t \<le> of_int k / of_nat n \<and> (of_int k + 1) / of_nat n \<le> tr_end t
              \<and> from < tr_end t \<and> tr_end t \<le> now)}"

lemma onGrid_exists: "\<exists>n. onGrid n ts"
proof (induction ts)
  case Nil
  then show ?case by (auto simp: onGrid_def)
next
  case (Cons x ts)
  then obtain n where n: "onGrid n ts" by blast
  obtain a b where ab: "quotient_of x = (a, b)" by (cases "quotient_of x")
  then have b: "0 < b" and x: "x = of_int a / of_int b"
    by (simp_all add: quotient_of_denom_pos quotient_of_div)
  have "of_nat (nat b * n) * x = of_int (int n * a)" using b by (simp add: x field_simps)
  then have "of_nat (nat b * n) * x \<in> \<int>" by (simp only: Ints_of_int)
  moreover have "of_nat (nat b * n) * y \<in> \<int>" if "y \<in> set ts" for y
  proof -
    have "of_nat (nat b * n) * y = of_int b * (of_nat n * y)" using b by (simp add: ac_simps)
    also have "\<dots> \<in> \<int>" using n that by (auto simp: onGrid_def)
    finally show ?thesis .
  qed
  moreover have "0 < nat b * n" using b n by (simp add: onGrid_def)
  ultimately have "onGrid (nat b * n) (x # ts)" unfolding onGrid_def by auto
  then show ?case ..
qed

lemma inUnits_simps [simp]:
  "tr_start (inUnits n t) = of_nat n * tr_start t" "tr_end (inUnits n t) = of_nat n * tr_end t"
  "tr_bytes (inUnits n t) = tr_bytes t"
  by (simp_all add: inUnits_def)

lemma insort_inUnits:
  "0 < n \<Longrightarrow> insort_key tr_start (inUnits n t) (map (inUnits n) ts) = map (inUnits n) (insort_key tr_start t ts)"
  by (induction ts) simp_all

lemma sort_inUnits: "0 < n \<Longrightarrow> sort_key tr_start (map (inUnits n) ts) = map (inUnits n) (sort_key tr_start ts)"
  by (induction ts) (simp_all add: insort_inUnits)

lemma clip_inUnits:
  "0 < n \<Longrightarrow> (inUnits n t)\<lparr>tr_start := max (of_nat n * tr_start t) (of_nat n * from)\<rparr>
     = inUnits n (t\<lparr>tr_start := max (tr_start t) from\<rparr>)"
  by (simp add: inUnits_def max_def)

lemma spansIn_inUnits:
  assumes "0 < n"
  shows "spansIn (map (inUnits n) transfers) (of_nat n * from) (of_nat n * now) = map (inUnits n) (spansIn transfers from now)"
  using assms by (simp add: spansIn_def filter_map comp_def clip_inUnits sort_inUnits [symmetric])

lemma busyLoop_inUnits:
  assumes "0 < n"
  shows "busyLoop (map_option (\<lambda>r. of_nat n * r) reach) (of_nat n * busy) bytes (map (inUnits n) spans)
    = (of_nat n * fst (busyLoop reach busy bytes spans), snd (busyLoop reach busy bytes spans))"
proof (induction spans arbitrary: reach busy bytes)
  case (Cons s spans)
  have reach: "Some (of_nat n * tr_end s) = map_option (\<lambda>r. of_nat n * r) (Some (tr_end s))" by simp
  have larger: "max (of_nat n * a) (of_nat n * b) = of_nat n * max a b" for a b :: rat
    using assms by (simp add: max_def)
  show ?case
  proof (cases reach)
    case None
    have "of_nat n * busy + (of_nat n * tr_end s - of_nat n * tr_start s) = of_nat n * (busy + (tr_end s - tr_start s))"
      by (simp add: algebra_simps)
    then show ?thesis
      using Cons.IH [of "Some (tr_end s)" "busy + (tr_end s - tr_start s)" "bytes + tr_bytes s"]
      by (simp add: None Let_def)
  next
    case (Some r)
    have "of_nat n * busy + (of_nat n * tr_end s - of_nat n * max (tr_start s) r)
        = of_nat n * (busy + (tr_end s - max (tr_start s) r))"
      by (simp add: algebra_simps)
    then show ?thesis
      using assms Cons.IH [of "Some (tr_end s)" "busy + (tr_end s - max (tr_start s) r)" "bytes + tr_bytes s"]
        Cons.IH [of "Some r" busy "bytes + tr_bytes s"]
      by (simp add: Some Let_def larger)
  qed
qed simp

lemma busyMs_inUnits:
  assumes "0 < n" and "\<forall>t \<in> set transfers. of_nat n * tr_start t \<in> \<int> \<and> of_nat n * tr_end t \<in> \<int>"
    and "of_nat n * from = of_int a" and "of_nat n * now = of_int b"
  shows "busyMs (map (inUnits n) transfers) a b = busyUnits n transfers from now"
proof -
  have pos: "(0 :: rat) < of_nat n" using assms(1) by simp
  have divided: "x = of_int i / of_nat n" if "of_nat n * x = of_int i" for x :: rat and i
  proof -
    have "x = of_nat n * x / of_nat n" using pos by simp
    then show ?thesis by (simp only: that)
  qed
  note ends = divided [OF assms(3)] divided [OF assms(4)]
  have "(k \<in> msOf (inUnits n t) \<and> of_int a < tr_end (inUnits n t) \<and> tr_end (inUnits n t) \<le> of_int b)
      \<longleftrightarrow> (tr_start t \<le> of_int k / of_nat n \<and> (of_int k + 1) / of_nat n \<le> tr_end t
              \<and> from < tr_end t \<and> tr_end t \<le> now)" if "t \<in> set transfers" for t k
  proof -
    have ints: "of_nat n * tr_start t \<in> \<int>" "of_nat n * tr_end t \<in> \<int>" using assms(2) that by blast+
    obtain x where x: "of_nat n * tr_start t = of_int x" using ints(1) by (rule Ints_cases)
    obtain y where y: "of_nat n * tr_end t = of_int y" using ints(2) by (rule Ints_cases)
    note t = divided [OF x] divided [OF y]
    have "(tr_start t \<le> of_int k / of_nat n) = (x \<le> k)"
      unfolding t divide_le_cancel using pos by simp
    moreover have "((of_int k + 1) / of_nat n \<le> tr_end t) = (k + 1 \<le> y)"
    proof -
      have "((of_int k + 1) / of_nat n \<le> tr_end t) = (of_int (k + 1) \<le> (of_int y :: rat))"
        unfolding t divide_le_cancel using pos by simp
      then show ?thesis by (simp only: of_int_le_iff)
    qed
    moreover have "(from < tr_end t) = (a < y)" "(tr_end t \<le> now) = (y \<le> b)"
      unfolding t ends divide_less_cancel divide_le_cancel using pos by simp_all
    ultimately show ?thesis by (auto simp: msOf_def x y)
  qed
  moreover have "(from \<le> of_int k / of_nat n) = (a \<le> k)" for k
    unfolding ends divide_le_cancel using pos by simp
  ultimately show ?thesis unfolding busyMs_def busyUnits_def by fastforce
qed

section \<open>Properties\<close>

text \<open>
  C31: the throughput the player reports is the bytes of the downloads that
  ended in the window, times eight, over the time of the window in which at
  least one of them was running (overlapping downloads count their shared time
  once), rounded; and 0 under a quarter of a second of such time. The times
  are any fractions of a millisecond, a download ending no earlier than it
  starts: cut into units of an \<open>n\<close>-th of a millisecond for any common
  denominator \<open>n\<close> of the times, and there is one, the time is the number of
  units in which a download was running.
\<close>

theorem throughput_over_busy_union:
  assumes "\<forall>t \<in> set transfers. tr_start t \<le> tr_end t"
  shows "(\<exists>n. onGrid n (timesOf transfers now windowMs))
    \<and> (onGrid n (timesOf transfers now windowMs) \<longrightarrow>
        throughputKbps transfers now windowMs =
          (let busy = of_nat (card (busyUnits n transfers (now - windowMs) now)) / of_nat n;
               bytes = sum_list (map tr_bytes (filter (\<lambda>t. now - windowMs < tr_end t \<and> tr_end t \<le> now) transfers))
           in if busy < 250 then 0 else js_round (bytes * 8 / busy)))"
proof (intro conjI impI onGrid_exists)
  assume grid: "onGrid n (timesOf transfers now windowMs)"
  then have n: "0 < n" by (simp add: onGrid_def)
  let ?spans = "spansIn transfers (now - windowMs) now"
  obtain b w where b: "of_nat n * now = of_int b" "of_nat n * windowMs = of_int w"
    using grid by (auto simp: onGrid_def timesOf_def elim!: Ints_cases)
  have start: "of_nat n * (now - windowMs) = of_int (b - w)" using b by (simp add: algebra_simps)
  have ints: "\<forall>t \<in> set transfers. of_nat n * tr_start t \<in> \<int> \<and> of_nat n * tr_end t \<in> \<int>"
    using grid by (auto simp: onGrid_def timesOf_def)
  have whole: "\<forall>t \<in> set (map (inUnits n) transfers). wholeSpan t"
    using ints assms n by (auto simp: wholeSpan_def)
  have spans: "spansIn (map (inUnits n) transfers) (of_int (b - w)) (of_int b) = map (inUnits n) ?spans"
    using spansIn_inUnits [OF n, of transfers "now - windowMs" now] by (simp only: start b(1))
  have "of_nat n * fst (busyLoop None 0 0 ?spans) = fst (busyLoop None 0 0 (map (inUnits n) ?spans))"
    using busyLoop_inUnits [OF n, of None 0 0 ?spans] by simp
  also have "\<dots> = of_int (int (card (busyMs (map (inUnits n) transfers) (b - w) b)))"
    using busyLoop_None [OF spansIn_msOf(1) [OF whole] spansIn_props(2)] spansIn_msOf(2) [OF whole]
    by (simp only: spans [symmetric])
  also have "busyMs (map (inUnits n) transfers) (b - w) b = busyUnits n transfers (now - windowMs) now"
    by (rule busyMs_inUnits [OF n ints start b(1)])
  finally have "fst (busyLoop None 0 0 ?spans) = of_nat (card (busyUnits n transfers (now - windowMs) now)) / of_nat n"
    using n by (simp add: field_simps)
  moreover have "snd (busyLoop None 0 0 ?spans) = sum_list (map tr_bytes ?spans)" by (simp add: busyLoop_bytes)
  ultimately have "busyLoop None 0 0 ?spans =
      (of_nat (card (busyUnits n transfers (now - windowMs) now)) / of_nat n, sum_list (map tr_bytes ?spans))"
    by (simp add: prod_eq_iff)
  then show "throughputKbps transfers now windowMs =
          (let busy = of_nat (card (busyUnits n transfers (now - windowMs) now)) / of_nat n;
               bytes = sum_list (map tr_bytes (filter (\<lambda>t. now - windowMs < tr_end t \<and> tr_end t \<le> now) transfers))
           in if busy < 250 then 0 else js_round (bytes * 8 / busy))"
    by (simp add: throughputKbps_def MIN_BUSY_MS_def spansIn_bytes Let_def)
qed

theorem throughput_over_busy_union_witness:
  "throughputKbps [\<lparr>tr_start = 1 / 2, tr_end = 400, tr_bytes = 100000\<rparr>,
                   \<lparr>tr_start = 100, tr_end = 1001 / 2, tr_bytes = 25000\<rparr>] 1000 1000 = 2000"
proof -
  let ?ts = "[\<lparr>tr_start = 1 / 2, tr_end = 400, tr_bytes = 100000\<rparr>, \<lparr>tr_start = 100, tr_end = 1001 / 2, tr_bytes = 25000\<rparr>]"
  have order: "\<forall>t \<in> set ?ts. tr_start t \<le> tr_end t" by simp
  have grid: "onGrid 2 (timesOf ?ts 1000 1000)" by (simp add: onGrid_def timesOf_def)
  have "busyUnits 2 ?ts (1000 - 1000) 1000 = {1..<1001}"
    by (auto simp: busyUnits_def field_simps)
  then have "card (busyUnits 2 ?ts (1000 - 1000) 1000) = 1000" by simp
  with throughput_over_busy_union [OF order, of 1000 1000 2] grid show ?thesis
    by simp
qed

text \<open>
  when the player stops holding a stopped, ready element away from the end
  of the timeline, every moment of the next three seconds is in a buffered
  range or in a hole that ends within half a second in one.
\<close>

theorem release_has_buffer:
  assumes "hold_aheadSec input = bufferAhead ranges (hold_currentTime input)"
    and "hold_gateSec input = gateSecondsFor gate"
    and "hold_ready input" and "\<not> hold_playing input" and "\<not> holdsForBuffer input"
    and "hold_timelineEnd input \<le> 0 \<or>
         hold_currentTime input + hold_gateSec input < hold_timelineEnd input - 1 / 2"
    and "hold_currentTime input \<le> t" and "t < hold_currentTime input + 3"
  shows "\<exists>(start, end) \<in> set ranges. start - 1 / 2 \<le> t \<and> t < end"
proof -
  have "hold_gateSec input \<le> hold_aheadSec input"
    using assms(3-6) by (auto simp: holdsForBuffer_def split: if_splits)
  with gate_floor [of gate] assms(1,2)
  have "3 \<le> bufferAhead ranges (hold_currentTime input)" by simp
  then have "hold_currentTime input + 3 \<le> reachFrom (hold_currentTime input) ranges"
    by (simp add: bufferAhead_def)
  with assms(7,8) show ?thesis by (intro reachFrom_filled) auto
qed

theorem release_has_buffer_witness:
  "\<exists>(start, end) \<in> set [(9, 12), (49 / 4, 41 :: rat)]. start - 1 / 2 \<le> (12 :: rat) \<and> 12 < end"
  by (rule release_has_buffer
        [of "\<lparr>hold_aheadSec = 31, hold_gateSec = 30, hold_currentTime = 10, hold_timelineEnd = 100,
              hold_playing = False, hold_ready = True\<rparr>"
            "[(9, 12), (49 / 4, 41)]"
            "\<lparr>gate_producedEdgeSec = None, gate_currentTime = 10, gate_sealed = False,
              gate_gatedStart = False, gate_opening = True\<rparr>" 12])
     (simp_all add: bufferAhead_def gateSecondsFor_def gate_values holdsForBuffer_def)

end
