(* ===== verification/UploadQueue.thy ===== *)
theory UploadQueue
  imports Prelude "HOL-Library.Multiset"
begin

text \<open>
  The upload queue of the client media pipeline (\<open>admit\<close>, \<open>kickPump\<close>,
  \<open>pumpLoop\<close>, \<open>uploadBatch\<close> and \<open>dropQueued\<close> of
  \<open>web/src/pipeline/clientMedia.ts\<close>): what the muxer finalizes waits for
  room, is presigned in batches and PUT in at most eight slots.

  The code runs on one thread, so what happens between two \<open>await\<close>s is one
  step: an event is a promise that settles (a presign, a PUT), a continuation
  that was woken, or a call from the rest of the pipeline. An event that is
  not pending leaves the state as it is. Promises that wait for capacity are
  modelled as such: \<open>wake\<close> marks the sleepers, which run in later events.
\<close>

section \<open>State\<close>

definition PRESIGN_BATCH :: nat where "PRESIGN_BATCH = 32"

definition PUT_CONCURRENCY :: int where "PUT_CONCURRENCY = 8"

definition MAX_QUEUED_BYTES :: int where "MAX_QUEUED_BYTES = 192 * 1024 * 1024"

text \<open>An object is compared by identity in the code: \<open>po_id\<close> is its address.\<close>

record pending_object =
  po_id :: nat
  po_name :: string
  po_size :: nat

text \<open>
  The pump: not running, asleep in \<open>waitCapacity\<close>, woken from it, or past its
  loop with the \<open>finally\<close> still to run.
\<close>

datatype pump_phase = PumpIdle | PumpAsleep | PumpWoken | PumpFinishing

text \<open>
  One call of \<open>uploadBatch\<close>: its objects, those not settled yet, those whose
  PUT is running, whether the presign is still awaited, the first rejection,
  whether it was aborted, and whether its \<open>finally\<close> ran.
\<close>

record upload_batch =
  ba_objects :: "pending_object list"
  ba_remaining :: "pending_object list"
  ba_putting :: "pending_object list"
  ba_presigning :: bool
  ba_error :: "string option"
  ba_aborted :: bool
  ba_over :: bool

text \<open>An \<open>admit\<close> call that waits for room: its object, and whether it was woken.\<close>

type_synonym waiter = "pending_object \<times> bool"

record uploads =
  uq_waiters :: "waiter list"
  uq_queued :: "pending_object list"
  uq_queuedBytes :: int
  uq_activeSlots :: int
  uq_inflightBytes :: int
  uq_inflightNames :: "string list"
  uq_pump :: pump_phase
  uq_batches :: "upload_batch list"
  uq_uploaded :: "string list"
  uq_uploadedBytes :: int
  uq_nextId :: nat
  uq_failure :: "string option"

definition emptyUploads :: uploads where
  "emptyUploads =
     \<lparr>uq_waiters = [], uq_queued = [], uq_queuedBytes = 0, uq_activeSlots = 0, uq_inflightBytes = 0,
      uq_inflightNames = [], uq_pump = PumpIdle, uq_batches = [], uq_uploaded = [],
      uq_uploadedBytes = 0, uq_nextId = 0, uq_failure = None\<rparr>"

section \<open>Operations\<close>

text \<open>\<open>wake\<close> and \<open>onFailure\<close> resolve every promise that waits for capacity.\<close>

definition wakePump :: "pump_phase \<Rightarrow> pump_phase" where
  "wakePump ph = (if ph = PumpAsleep then PumpWoken else ph)"

definition wake :: "uploads \<Rightarrow> uploads" where
  "wake s = s\<lparr>uq_waiters := map (\<lambda>w. (fst w, True)) (uq_waiters s), uq_pump := wakePump (uq_pump s)\<rparr>"

definition failUpload :: "string \<Rightarrow> uploads \<Rightarrow> uploads" where
  "failUpload err s = wake (s\<lparr>uq_failure := Some (orElse (uq_failure s) err)\<rparr>)"

definition startBatch :: "pending_object list \<Rightarrow> upload_batch" where
  "startBatch objs =
     \<lparr>ba_objects = objs, ba_remaining = objs, ba_putting = [], ba_presigning = True,
      ba_error = None, ba_aborted = False, ba_over = False\<rparr>"

definition totalSize :: "pending_object list \<Rightarrow> int" where
  "totalSize objs = (\<Sum>ob \<leftarrow> objs. int (po_size ob))"

definition takeBatch :: "nat \<Rightarrow> uploads \<Rightarrow> uploads" where
  "takeBatch n s =
     (let batch = take n (uq_queued s)
      in s\<lparr>uq_queued := drop n (uq_queued s),
           uq_queuedBytes := uq_queuedBytes s - totalSize batch,
           uq_inflightBytes := uq_inflightBytes s + totalSize batch,
           uq_inflightNames := foldl addTo (uq_inflightNames s) (map po_name batch),
           uq_activeSlots := uq_activeSlots s + int (length batch),
           uq_batches := uq_batches s @ [startBatch batch]\<rparr>)"

function pumpLoop :: "uploads \<Rightarrow> uploads" where
  "pumpLoop s =
     (if uq_queued s = [] \<or> uq_failure s \<noteq> None then s\<lparr>uq_pump := PumpFinishing\<rparr>
      else let roomLeft = PUT_CONCURRENCY - uq_activeSlots s
        in if roomLeft \<le> 0 then s\<lparr>uq_pump := PumpAsleep\<rparr>
           else pumpLoop (takeBatch (min PRESIGN_BATCH (nat roomLeft)) s))"
  by pat_completeness auto
termination
  by (relation "measure (\<lambda>s. length (uq_queued s))")
     (auto simp: takeBatch_def Let_def PRESIGN_BATCH_def PUT_CONCURRENCY_def neq_Nil_conv)

declare pumpLoop.simps [simp del]

definition kickPump :: "uploads \<Rightarrow> uploads" where
  "kickPump s =
     (if uq_pump s \<noteq> PumpIdle \<or> uq_failure s \<noteq> None then s else pumpLoop s)"

definition hasRoom :: "uploads \<Rightarrow> bool" where
  "hasRoom s \<longleftrightarrow> uq_queuedBytes s + uq_inflightBytes s < MAX_QUEUED_BYTES"

text \<open>\<open>admit\<close> past its loop: pushed when nothing failed meanwhile, asleep again when there is no room.\<close>

definition enqueue :: "pending_object \<Rightarrow> uploads \<Rightarrow> uploads" where
  "enqueue ob s =
     (if uq_failure s \<noteq> None then s
      else if \<not> hasRoom s then s\<lparr>uq_waiters := uq_waiters s @ [(ob, False)]\<rparr>
      else kickPump (s\<lparr>uq_queued := uq_queued s @ [ob],
                       uq_queuedBytes := uq_queuedBytes s + int (po_size ob)\<rparr>))"

definition admit :: "string \<Rightarrow> nat option \<Rightarrow> uploads \<Rightarrow> uploads" where
  "admit name buffer s =
     (if uq_failure s \<noteq> None then s
      else case buffer of
        None \<Rightarrow> failUpload (''segment '' @ name @ '' finished without bytes'') s
      | Some bytes \<Rightarrow>
          enqueue \<lparr>po_id = uq_nextId s, po_name = name, po_size = bytes\<rparr> (s\<lparr>uq_nextId := Suc (uq_nextId s)\<rparr>))"

text \<open>The oldest woken \<open>admit\<close> runs on.\<close>

definition resumeAdmit :: "uploads \<Rightarrow> uploads" where
  "resumeAdmit s =
     (case find snd (uq_waiters s) of
        None \<Rightarrow> s
      | Some w \<Rightarrow> enqueue (fst w) (s\<lparr>uq_waiters := remove1 w (uq_waiters s)\<rparr>))"

definition pumpFinally :: "uploads \<Rightarrow> uploads" where
  "pumpFinally s =
     (let s = s\<lparr>uq_pump := PumpIdle\<rparr>
      in if uq_queued s \<noteq> [] \<and> uq_failure s = None then kickPump s else s)"

definition dropQueued :: "uploads \<Rightarrow> uploads" where
  "dropQueued s =
     wake (s\<lparr>uq_queued := [],
             uq_queuedBytes := uq_queuedBytes s - totalSize (uq_queued s),
             uq_batches := map (\<lambda>b. if ba_over b then b else b\<lparr>ba_aborted := True\<rparr>) (uq_batches s)\<rparr>)"

definition putBatch :: "nat \<Rightarrow> upload_batch \<Rightarrow> uploads \<Rightarrow> uploads" where
  "putBatch i b s = s\<lparr>uq_batches := (uq_batches s)[i := b]\<rparr>"

definition settleObject :: "nat \<Rightarrow> pending_object \<Rightarrow> uploads \<Rightarrow> uploads" where
  "settleObject i ob s =
     (let b = uq_batches s ! i
      in if ob \<notin> set (ba_remaining b) then s
         else wake (putBatch i (b\<lparr>ba_remaining := filter (\<lambda>x. x \<noteq> ob) (ba_remaining b)\<rparr>)
                (s\<lparr>uq_inflightNames := filter (\<lambda>n. n \<noteq> po_name ob) (uq_inflightNames s),
                   uq_activeSlots := uq_activeSlots s - 1,
                   uq_inflightBytes := uq_inflightBytes s - int (po_size ob)\<rparr>)))"

definition rejectBatch :: "string \<Rightarrow> upload_batch \<Rightarrow> upload_batch" where
  "rejectBatch err b = b\<lparr>ba_error := Some (orElse (ba_error b) err)\<rparr>"

text \<open>The presign answered with the names it signed; an object it left out throws.\<close>

definition presigned :: "nat \<Rightarrow> string list \<Rightarrow> uploads \<Rightarrow> uploads" where
  "presigned i names s =
     (let b = uq_batches s ! i;
          missing = filter (\<lambda>ob. po_name ob \<notin> set names) (ba_objects b);
          b' = b\<lparr>ba_presigning := False, ba_putting := filter (\<lambda>ob. po_name ob \<in> set names) (ba_objects b)\<rparr>;
          b'' = (case missing of [] \<Rightarrow> b' | ob # _ \<Rightarrow> rejectBatch (''presign missing '' @ po_name ob) b')
      in fold (settleObject i) missing (putBatch i b'' s))"

definition presignFailed :: "nat \<Rightarrow> string \<Rightarrow> uploads \<Rightarrow> uploads" where
  "presignFailed i err s = putBatch i (rejectBatch err (uq_batches s ! i)) s"

definition donePutting :: "nat \<Rightarrow> pending_object \<Rightarrow> uploads \<Rightarrow> uploads" where
  "donePutting i ob s =
     (let b = uq_batches s ! i
      in putBatch i (b\<lparr>ba_putting := filter (\<lambda>x. x \<noteq> ob) (ba_putting b)\<rparr>) s)"

definition putOk :: "nat \<Rightarrow> pending_object \<Rightarrow> uploads \<Rightarrow> uploads" where
  "putOk i ob s =
     (let s = settleObject i ob (donePutting i ob s)
      in s\<lparr>uq_uploaded := uq_uploaded s @ [po_name ob],
           uq_uploadedBytes := uq_uploadedBytes s + int (po_size ob)\<rparr>)"

definition putFailed :: "nat \<Rightarrow> pending_object \<Rightarrow> string \<Rightarrow> uploads \<Rightarrow> uploads" where
  "putFailed i ob err s =
     (let s = settleObject i ob (donePutting i ob s)
      in putBatch i (rejectBatch err (uq_batches s ! i)) s)"

text \<open>
  \<open>Promise.all\<close> settled: the \<open>catch\<close>, the \<open>finally\<close> and, for an error that is
  thrown on, the \<open>fail\<close> of the caller. In the code \<open>fail\<close> runs a microtask after
  the wake of the \<open>finally\<close>; here the two are one step, so a pump woken by it
  sees the failure before it goes on.
\<close>

definition endBatch :: "nat \<Rightarrow> uploads \<Rightarrow> uploads" where
  "endBatch i s =
     (let b = uq_batches s ! i;
          settled = fold (settleObject i) (ba_remaining b) s;
          over = wake (putBatch i ((uq_batches settled ! i)\<lparr>ba_over := True, ba_presigning := False\<rparr>) settled)
      in case ba_error b of
           Some err \<Rightarrow> if ba_aborted b then over else failUpload err over
         | None \<Rightarrow> over)"

section \<open>Events\<close>

datatype upload_event =
    Finalized string "nat option"
  | AdmitResumed
  | PumpResumed
  | PumpEnded
  | Presigned nat "string list"
  | PresignFailed nat string
  | PutOk nat pending_object
  | PutFailed nat pending_object string
  | BatchEnded nat
  | Restarted
  | FailedElsewhere string

text \<open>The promise an event settles is pending.\<close>

fun pendingIn :: "uploads \<Rightarrow> upload_event \<Rightarrow> bool" where
  "pendingIn s (Finalized _ _) = True"
| "pendingIn s AdmitResumed = (\<exists>w \<in> set (uq_waiters s). snd w)"
| "pendingIn s PumpResumed = (uq_pump s = PumpWoken)"
| "pendingIn s PumpEnded = (uq_pump s = PumpFinishing)"
| "pendingIn s (Presigned i _) =
     (i < length (uq_batches s) \<and> ba_presigning (uq_batches s ! i) \<and> ba_error (uq_batches s ! i) = None)"
| "pendingIn s (PresignFailed i _) =
     (i < length (uq_batches s) \<and> ba_presigning (uq_batches s ! i) \<and> ba_error (uq_batches s ! i) = None)"
| "pendingIn s (PutOk i ob) = (i < length (uq_batches s) \<and> ob \<in> set (ba_putting (uq_batches s ! i)))"
| "pendingIn s (PutFailed i ob _) = (i < length (uq_batches s) \<and> ob \<in> set (ba_putting (uq_batches s ! i)))"
| "pendingIn s (BatchEnded i) =
     (i < length (uq_batches s) \<and> \<not> ba_over (uq_batches s ! i) \<and>
      (ba_error (uq_batches s ! i) \<noteq> None \<or>
       \<not> ba_presigning (uq_batches s ! i) \<and> ba_putting (uq_batches s ! i) = []))"
| "pendingIn s Restarted = True"
| "pendingIn s (FailedElsewhere _) = True"

fun uploadEvent :: "uploads \<Rightarrow> upload_event \<Rightarrow> uploads" where
  "uploadEvent s (Finalized name buffer) = admit name buffer s"
| "uploadEvent s AdmitResumed = resumeAdmit s"
| "uploadEvent s PumpResumed = pumpLoop s"
| "uploadEvent s PumpEnded = pumpFinally s"
| "uploadEvent s (Presigned i names) = presigned i names s"
| "uploadEvent s (PresignFailed i err) = presignFailed i err s"
| "uploadEvent s (PutOk i ob) = putOk i ob s"
| "uploadEvent s (PutFailed i ob err) = putFailed i ob err s"
| "uploadEvent s (BatchEnded i) = endBatch i s"
| "uploadEvent s Restarted = dropQueued s"
| "uploadEvent s (FailedElsewhere err) = failUpload err s"

definition uploadStep :: "uploads \<Rightarrow> upload_event \<Rightarrow> uploads" where
  "uploadStep s e = (if pendingIn s e then uploadEvent s e else s)"

definition runUploads :: "upload_event list \<Rightarrow> uploads" where
  "runUploads es = foldl uploadStep emptyUploads es"

section \<open>What the counters count\<close>

definition slotsOf :: "upload_batch list \<Rightarrow> int" where
  "slotsOf bs = (\<Sum>b \<leftarrow> bs. int (length (ba_remaining b)))"

definition bytesOf :: "upload_batch list \<Rightarrow> int" where
  "bytesOf bs = (\<Sum>b \<leftarrow> bs. totalSize (ba_remaining b))"

text \<open>What a batch looks like between two events.\<close>

definition batchOk :: "upload_batch \<Rightarrow> bool" where
  "batchOk b \<longleftrightarrow> distinct (ba_objects b) \<and> distinct (ba_remaining b) \<and>
     (if ba_over b then ba_remaining b = [] \<and> \<not> ba_presigning b \<and> (ba_error b = None \<longrightarrow> ba_putting b = [])
      else if ba_presigning b then ba_putting b = [] \<and> ba_remaining b = ba_objects b
      else ba_remaining b = ba_putting b)"

definition counters :: "uploads \<Rightarrow> bool" where
  "counters s \<longleftrightarrow>
     uq_queuedBytes s = totalSize (uq_queued s)
   \<and> uq_activeSlots s = slotsOf (uq_batches s)
   \<and> uq_inflightBytes s = bytesOf (uq_batches s)
   \<and> uq_activeSlots s \<le> PUT_CONCURRENCY"

text \<open>Every object that is not in a batch yet has its own address.\<close>

definition addresses :: "uploads \<Rightarrow> nat list" where
  "addresses s = map po_id (map fst (uq_waiters s)) @ map po_id (uq_queued s)"

definition freshIds :: "uploads \<Rightarrow> bool" where
  "freshIds s \<longleftrightarrow> distinct (addresses s) \<and> (\<forall>i \<in> set (addresses s). i < uq_nextId s)"

text \<open>Nobody sleeps without a reason that a later event takes away.\<close>

definition nobodyForgotten :: "uploads \<Rightarrow> bool" where
  "nobodyForgotten s \<longleftrightarrow>
     ((\<exists>w \<in> set (uq_waiters s). \<not> snd w) \<longrightarrow> uq_failure s = None \<and> \<not> hasRoom s)
   \<and> (uq_pump s = PumpAsleep \<longrightarrow>
        uq_queued s \<noteq> [] \<and> uq_failure s = None \<and> PUT_CONCURRENCY \<le> uq_activeSlots s)
   \<and> (uq_pump s = PumpIdle \<longrightarrow> uq_queued s = [] \<or> uq_failure s \<noteq> None)"

definition uploadsOk :: "uploads \<Rightarrow> bool" where
  "uploadsOk s \<longleftrightarrow> counters s \<and> freshIds s \<and> nobodyForgotten s \<and> (\<forall>b \<in> set (uq_batches s). batchOk b)"

lemma totalSize_simps [simp]:
  "totalSize [] = 0" "totalSize (ob # obs) = int (po_size ob) + totalSize obs"
  "totalSize (obs @ obs') = totalSize obs + totalSize obs'"
  by (simp_all add: totalSize_def)

lemma totalSize_nonneg [simp]: "0 \<le> totalSize obs"
  by (induction obs) auto

lemma totalSize_take_drop: "totalSize (drop n obs) = totalSize obs - totalSize (take n obs)"
  by (metis append_take_drop_id totalSize_simps(3) add_diff_cancel_left')

lemma slotsOf_simps [simp]:
  "slotsOf [] = 0" "slotsOf (b # bs) = int (length (ba_remaining b)) + slotsOf bs"
  "slotsOf (bs @ bs') = slotsOf bs + slotsOf bs'"
  by (simp_all add: slotsOf_def)

lemma bytesOf_simps [simp]:
  "bytesOf [] = 0" "bytesOf (b # bs) = totalSize (ba_remaining b) + bytesOf bs"
  "bytesOf (bs @ bs') = bytesOf bs + bytesOf bs'"
  by (simp_all add: bytesOf_def)

lemma slotsOf_update:
  "i < length bs \<Longrightarrow> slotsOf (bs[i := b]) = slotsOf bs - int (length (ba_remaining (bs ! i))) + int (length (ba_remaining b))"
  by (induction bs arbitrary: i) (auto split: nat.split)

lemma bytesOf_update:
  "i < length bs \<Longrightarrow> bytesOf (bs[i := b]) = bytesOf bs - totalSize (ba_remaining (bs ! i)) + totalSize (ba_remaining b)"
  by (induction bs arbitrary: i) (auto split: nat.split)

lemma bytesOf_nonneg: "0 \<le> bytesOf bs"
  by (induction bs) auto

lemma slotsOf_nonneg: "0 \<le> slotsOf bs"
  by (induction bs) auto

lemma slotsOf_pos: "0 < slotsOf bs \<Longrightarrow> \<exists>i < length bs. ba_remaining (bs ! i) \<noteq> []"
proof (induction bs)
  case (Cons b bs)
  show ?case
  proof (cases "ba_remaining b = []")
    case True
    then have "0 < slotsOf bs" using Cons.prems by simp
    then obtain i where "i < length bs" "ba_remaining (bs ! i) \<noteq> []" using Cons.IH by blast
    then show ?thesis by (intro exI [of _ "Suc i"]) simp
  qed (auto intro: exI [of _ 0])
qed simp

lemma bytesOf_pos_slotsOf: "0 < bytesOf bs \<Longrightarrow> 0 < slotsOf bs"
proof (induction bs)
  case (Cons b bs)
  then show ?case by (cases "ba_remaining b") (auto simp: add_pos_nonneg slotsOf_nonneg)
qed simp

text \<open>Taking one of distinct objects out.\<close>

lemma sum_filter_neq:
  "distinct obs \<Longrightarrow> ob \<in> set obs \<Longrightarrow> (\<Sum>x \<leftarrow> filter (\<lambda>x. x \<noteq> ob) obs. w x) = (\<Sum>x \<leftarrow> obs. w x) - (w ob :: int)"
proof (induction obs)
  case (Cons x obs)
  show ?case
  proof (cases "x = ob")
    case True
    then have "filter (\<lambda>y. y \<noteq> ob) obs = obs" using Cons.prems(1) by (auto simp: filter_id_conv)
    with True show ?thesis by simp
  qed (use Cons in auto)
qed simp

lemma length_filter_neq:
  "distinct obs \<Longrightarrow> ob \<in> set obs \<Longrightarrow> int (length (filter (\<lambda>x. x \<noteq> ob) obs)) = int (length obs) - 1"
  using sum_filter_neq [of obs ob "\<lambda>_. 1"] by (simp add: sum_list_triv)

lemma totalSize_filter_neq:
  "distinct obs \<Longrightarrow> ob \<in> set obs \<Longrightarrow> totalSize (filter (\<lambda>x. x \<noteq> ob) obs) = totalSize obs - int (po_size ob)"
  unfolding totalSize_def by (rule sum_filter_neq)

section \<open>The primitives\<close>

lemma wake_fields [simp]:
  "uq_queued (wake s) = uq_queued s" "uq_queuedBytes (wake s) = uq_queuedBytes s"
  "uq_activeSlots (wake s) = uq_activeSlots s" "uq_inflightBytes (wake s) = uq_inflightBytes s"
  "uq_batches (wake s) = uq_batches s" "uq_failure (wake s) = uq_failure s"
  "uq_nextId (wake s) = uq_nextId s" "uq_uploaded (wake s) = uq_uploaded s"
  "uq_inflightNames (wake s) = uq_inflightNames s"
  "map fst (uq_waiters (wake s)) = map fst (uq_waiters s)"
  "uq_pump (wake s) = PumpIdle \<longleftrightarrow> uq_pump s = PumpIdle"
  "uq_pump (wake s) \<noteq> PumpAsleep"
  "(\<forall>w \<in> set (uq_waiters (wake s)). snd w)"
  "length (uq_waiters (wake s)) = length (uq_waiters s)"
  by (auto simp: wake_def wakePump_def comp_def)

lemma addresses_wake [simp]: "addresses (wake s) = addresses s"
  by (simp only: addresses_def wake_fields)

lemma putBatch_fields [simp]:
  "uq_queued (putBatch i b s) = uq_queued s" "uq_queuedBytes (putBatch i b s) = uq_queuedBytes s"
  "uq_activeSlots (putBatch i b s) = uq_activeSlots s" "uq_inflightBytes (putBatch i b s) = uq_inflightBytes s"
  "uq_batches (putBatch i b s) = (uq_batches s)[i := b]" "uq_failure (putBatch i b s) = uq_failure s"
  "uq_nextId (putBatch i b s) = uq_nextId s" "uq_pump (putBatch i b s) = uq_pump s"
  "uq_waiters (putBatch i b s) = uq_waiters s" "addresses (putBatch i b s) = addresses s"
  "uq_uploaded (putBatch i b s) = uq_uploaded s" "uq_inflightNames (putBatch i b s) = uq_inflightNames s"
  by (simp_all add: putBatch_def addresses_def)

lemma hasRoom_cong:
  "uq_queuedBytes s + uq_inflightBytes s = uq_queuedBytes t + uq_inflightBytes t \<Longrightarrow> hasRoom s = hasRoom t"
  by (simp add: hasRoom_def)

lemma woken_forgets_nobody:
  "uq_pump s = PumpIdle \<longrightarrow> uq_queued s = [] \<or> uq_failure s \<noteq> None \<Longrightarrow> nobodyForgotten (wake s)"
  by (auto simp: nobodyForgotten_def)

lemma settle_fields [simp]:
  "uq_queued (settleObject i ob s) = uq_queued s" "uq_queuedBytes (settleObject i ob s) = uq_queuedBytes s"
  "uq_failure (settleObject i ob s) = uq_failure s" "uq_nextId (settleObject i ob s) = uq_nextId s"
  "addresses (settleObject i ob s) = addresses s" "uq_uploaded (settleObject i ob s) = uq_uploaded s"
  "uq_pump (settleObject i ob s) = PumpIdle \<longleftrightarrow> uq_pump s = PumpIdle"
  "length (uq_batches (settleObject i ob s)) = length (uq_batches s)"
  "map fst (uq_waiters (settleObject i ob s)) = map fst (uq_waiters s)"
  "length (uq_waiters (settleObject i ob s)) = length (uq_waiters s)"
  by (simp_all add: settleObject_def Let_def del: map_map list.map_comp) (simp_all add: addresses_def)?

lemma settle_batches:
  "i < length (uq_batches s) \<Longrightarrow> uq_batches (settleObject i ob s) =
     (uq_batches s)[i := (uq_batches s ! i)\<lparr>ba_remaining := filter (\<lambda>x. x \<noteq> ob) (ba_remaining (uq_batches s ! i))\<rparr>]"
proof -
  assume i: "i < length (uq_batches s)"
  let ?b = "uq_batches s ! i"
  have "?b\<lparr>ba_remaining := ba_remaining ?b\<rparr> = ?b" by simp
  moreover have "filter (\<lambda>x. x \<noteq> ob) (ba_remaining ?b) = ba_remaining ?b" if "ob \<notin> set (ba_remaining ?b)"
    using that by (auto simp: filter_id_conv)
  ultimately show ?thesis using i by (auto simp: settleObject_def Let_def)
qed

lemma settle_counters:
  assumes "counters s" and "i < length (uq_batches s)" and "distinct (ba_remaining (uq_batches s ! i))"
  shows "counters (settleObject i ob s)"
  using assms length_filter_neq [OF assms(3), of ob] totalSize_filter_neq [OF assms(3), of ob]
  by (auto simp: settleObject_def Let_def counters_def slotsOf_update bytesOf_update)

lemma settle_forgets_nobody [keeps]: "nobodyForgotten s \<Longrightarrow> nobodyForgotten (settleObject i ob s)"
  by (auto simp: settleObject_def Let_def nobodyForgotten_def)

text \<open>Settling several objects of one batch.\<close>

lemma settleAll:
  assumes "i < length (uq_batches s)" and "counters s" and "distinct (ba_remaining (uq_batches s ! i))"
  shows "uq_batches (fold (settleObject i) obs s) =
      (uq_batches s)[i := (uq_batches s ! i)\<lparr>ba_remaining := filter (\<lambda>x. x \<notin> set obs) (ba_remaining (uq_batches s ! i))\<rparr>]
    \<and> counters (fold (settleObject i) obs s)"
  using assms
proof (induction obs arbitrary: s)
  case Nil
  then show ?case by simp
next
  case (Cons ob obs)
  let ?t = "settleObject i ob s"
  from Cons.prems have "i < length (uq_batches ?t)" "counters ?t" "distinct (ba_remaining (uq_batches ?t ! i))"
    by (simp_all add: settle_counters settle_batches)
  from Cons.IH [OF this] Cons.prems(1) show ?case by (simp add: settle_batches conj_commute)
qed

lemma settleAll_fields [simp]:
  "uq_queued (fold (settleObject i) obs s) = uq_queued s"
  "uq_failure (fold (settleObject i) obs s) = uq_failure s"
  "uq_nextId (fold (settleObject i) obs s) = uq_nextId s"
  "addresses (fold (settleObject i) obs s) = addresses s"
  "uq_pump (fold (settleObject i) obs s) = PumpIdle \<longleftrightarrow> uq_pump s = PumpIdle"
  "length (uq_waiters (fold (settleObject i) obs s)) = length (uq_waiters s)"
  "length (uq_batches (fold (settleObject i) obs s)) = length (uq_batches s)"
  "uq_uploaded (fold (settleObject i) obs s) = uq_uploaded s"
  by (induction obs arbitrary: s) simp_all

lemma settleAll_forgets_nobody: "nobodyForgotten s \<Longrightarrow> nobodyForgotten (fold (settleObject i) obs s)"
  by (induction obs arbitrary: s) (simp_all add: keeps)

section \<open>The pump\<close>

lemma takeBatch_fields [simp]:
  "uq_waiters (takeBatch c s) = uq_waiters s" "uq_failure (takeBatch c s) = uq_failure s"
  "uq_nextId (takeBatch c s) = uq_nextId s" "uq_pump (takeBatch c s) = uq_pump s"
  "uq_queued (takeBatch c s) = drop c (uq_queued s)"
  "uq_batches (takeBatch c s) = uq_batches s @ [startBatch (take c (uq_queued s))]"
  "uq_queuedBytes (takeBatch c s) + uq_inflightBytes (takeBatch c s) = uq_queuedBytes s + uq_inflightBytes s"
  "uq_uploaded (takeBatch c s) = uq_uploaded s"
  by (simp_all add: takeBatch_def Let_def)

lemma takeBatch_keeps:
  assumes "counters s" and "freshIds s" and "\<forall>b \<in> set (uq_batches s). batchOk b"
    and "int c \<le> PUT_CONCURRENCY - uq_activeSlots s"
  shows "counters (takeBatch c s)" and "freshIds (takeBatch c s)"
    and "\<forall>b \<in> set (uq_batches (takeBatch c s)). batchOk b"
proof -
  show "counters (takeBatch c s)"
    using assms(1,4) by (auto simp: counters_def takeBatch_def Let_def startBatch_def totalSize_take_drop)
  show "freshIds (takeBatch c s)"
    using assms(2) set_drop_subset [of c "map po_id (uq_queued s)"]
    unfolding freshIds_def addresses_def takeBatch_fields drop_map [symmetric] distinct_append set_append
    by (blast intro: distinct_drop)
  have "distinct (take c (uq_queued s))"
    using assms(2) by (auto simp: freshIds_def addresses_def distinct_map)
  with assms(3) show "\<forall>b \<in> set (uq_batches (takeBatch c s)). batchOk b"
    by (auto simp: batchOk_def startBatch_def)
qed

lemma pumpLoop_rule:
  assumes "P s"
    and taken: "\<And>s c. P s \<Longrightarrow> int c \<le> PUT_CONCURRENCY - uq_activeSlots s \<Longrightarrow> P (takeBatch c s)"
    and phase: "\<And>s ph. P s \<Longrightarrow> P (s\<lparr>uq_pump := ph\<rparr>)"
  shows "P (pumpLoop s)"
  using assms(1)
proof (induction s rule: pumpLoop.induct)
  case (1 s)
  let ?c = "min PRESIGN_BATCH (nat (PUT_CONCURRENCY - uq_activeSlots s))"
  have "P (pumpLoop (takeBatch ?c s))"
    if "\<not> (uq_queued s = [] \<or> uq_failure s \<noteq> None)" and "\<not> PUT_CONCURRENCY - uq_activeSlots s \<le> 0"
    using that 1 by (intro 1 taken) auto
  then show ?case using 1(2) phase by (subst pumpLoop.simps) (simp add: Let_def)
qed

lemma pumpLoop_fields [simp]:
  "uq_waiters (pumpLoop s) = uq_waiters s" "uq_failure (pumpLoop s) = uq_failure s"
  "uq_nextId (pumpLoop s) = uq_nextId s" "uq_uploaded (pumpLoop s) = uq_uploaded s"
  "uq_queuedBytes (pumpLoop s) + uq_inflightBytes (pumpLoop s) = uq_queuedBytes s + uq_inflightBytes s"
  by (rule pumpLoop_rule; simp)+

lemma pumpLoop_keeps:
  assumes "counters s" and "freshIds s" and "\<forall>b \<in> set (uq_batches s). batchOk b"
  shows "counters (pumpLoop s) \<and> freshIds (pumpLoop s) \<and> (\<forall>b \<in> set (uq_batches (pumpLoop s)). batchOk b)"
proof (rule pumpLoop_rule)
  show "counters s \<and> freshIds s \<and> (\<forall>b \<in> set (uq_batches s). batchOk b)" using assms by blast
next
  fix t c
  assume "counters t \<and> freshIds t \<and> (\<forall>b \<in> set (uq_batches t). batchOk b)"
    and "int c \<le> PUT_CONCURRENCY - uq_activeSlots t"
  then show "counters (takeBatch c t) \<and> freshIds (takeBatch c t) \<and> (\<forall>b \<in> set (uq_batches (takeBatch c t)). batchOk b)"
    using takeBatch_keeps by blast
qed (auto simp: counters_def freshIds_def addresses_def)

lemma pumpLoop_phase:
  "uq_pump (pumpLoop s) = PumpFinishing \<or>
   uq_pump (pumpLoop s) = PumpAsleep \<and> uq_queued (pumpLoop s) \<noteq> [] \<and> uq_failure s = None
   \<and> PUT_CONCURRENCY \<le> uq_activeSlots (pumpLoop s)"
proof (induction s rule: pumpLoop.induct)
  case (1 s)
  let ?c = "min PRESIGN_BATCH (nat (PUT_CONCURRENCY - uq_activeSlots s))"
  consider "uq_queued s = [] \<or> uq_failure s \<noteq> None"
    | "\<not> (uq_queued s = [] \<or> uq_failure s \<noteq> None)" "PUT_CONCURRENCY - uq_activeSlots s \<le> 0"
    | "\<not> (uq_queued s = [] \<or> uq_failure s \<noteq> None)" "\<not> PUT_CONCURRENCY - uq_activeSlots s \<le> 0"
    by blast
  then show ?case
  proof cases
    case 1
    then have "pumpLoop s = s\<lparr>uq_pump := PumpFinishing\<rparr>" by (subst pumpLoop.simps) simp
    then show ?thesis by simp
  next
    case 2
    then have "pumpLoop s = s\<lparr>uq_pump := PumpAsleep\<rparr>" by (subst pumpLoop.simps) simp
    with 2 show ?thesis by simp
  next
    case 3
    then have "pumpLoop s = pumpLoop (takeBatch ?c s)" by (subst pumpLoop.simps) (simp add: Let_def)
    with 1 [OF 3(1) refl 3(2)] show ?thesis by simp
  qed
qed

lemma pumpLoop_forgets_nobody:
  assumes "(\<exists>w \<in> set (uq_waiters s). \<not> snd w) \<longrightarrow> uq_failure s = None \<and> \<not> hasRoom s"
  shows "nobodyForgotten (pumpLoop s)"
proof -
  have "hasRoom (pumpLoop s) = hasRoom s" by (rule hasRoom_cong) (rule pumpLoop_fields)
  with assms pumpLoop_phase [of s] show ?thesis unfolding nobodyForgotten_def pumpLoop_fields by auto
qed

lemma uploadsOk_pumpLoop [keeps]: "uploadsOk s \<Longrightarrow> uploadsOk (pumpLoop s)"
  unfolding uploadsOk_def using pumpLoop_keeps pumpLoop_forgets_nobody
  by (metis nobodyForgotten_def)

section \<open>Every event keeps the queue in order\<close>

text \<open>An object joins the queue or the sleepers.\<close>

lemma uploadsOk_enqueue:
  assumes "uploadsOk s" and "po_id ob \<notin> set (addresses s)" and "po_id ob < uq_nextId s"
  shows "uploadsOk (enqueue ob s)"
proof -
  have ok: "counters s" "freshIds s" "nobodyForgotten s" "\<forall>b \<in> set (uq_batches s). batchOk b"
    using assms(1) by (simp_all add: uploadsOk_def)
  let ?q = "s\<lparr>uq_queued := uq_queued s @ [ob], uq_queuedBytes := uq_queuedBytes s + int (po_size ob)\<rparr>"
  let ?w = "s\<lparr>uq_waiters := uq_waiters s @ [(ob, False)]\<rparr>"
  have q: "counters ?q" "freshIds ?q" "\<forall>b \<in> set (uq_batches ?q). batchOk b"
    using ok assms(2,3) by (auto simp: counters_def freshIds_def addresses_def)
  have w: "counters ?w" "freshIds ?w"
    using ok assms(2,3) by (auto simp: counters_def freshIds_def addresses_def)
  consider "uq_failure s \<noteq> None" | "uq_failure s = None" "\<not> hasRoom s" | "uq_failure s = None" "hasRoom s" by blast
  then show ?thesis
  proof cases
    case 1
    with assms(1) show ?thesis by (simp add: enqueue_def)
  next
    case 2
    then have "nobodyForgotten ?w" using ok(3) by (auto simp: nobodyForgotten_def hasRoom_def)
    with 2 w ok show ?thesis by (simp add: enqueue_def uploadsOk_def)
  next
    case 3
    with ok(3) have awake: "\<forall>w \<in> set (uq_waiters s). snd w" by (auto simp: nobodyForgotten_def)
    show ?thesis
    proof (cases "uq_pump s = PumpIdle")
      case True
      then have "enqueue ob s = pumpLoop ?q" using 3 by (simp add: enqueue_def kickPump_def)
      moreover have "nobodyForgotten (pumpLoop ?q)" using awake by (intro pumpLoop_forgets_nobody) auto
      ultimately show ?thesis using pumpLoop_keeps [OF q] by (simp add: uploadsOk_def)
    next
      case False
      then have "enqueue ob s = ?q" using 3 by (simp add: enqueue_def kickPump_def)
      moreover have "nobodyForgotten ?q" using ok(3) awake False by (auto simp: nobodyForgotten_def)
      ultimately show ?thesis using q by (simp add: uploadsOk_def)
    qed
  qed
qed

lemma uploadsOk_wake [keeps]: "uploadsOk s \<Longrightarrow> uploadsOk (wake s)"
  using woken_forgets_nobody [of s]
  by (simp add: uploadsOk_def counters_def freshIds_def nobodyForgotten_def [of s])

lemma uploadsOk_fail [keeps]: "uploadsOk s \<Longrightarrow> uploadsOk (failUpload err s)"
  unfolding failUpload_def uploadsOk_def
  by (intro conjI woken_forgets_nobody) (auto simp: counters_def freshIds_def addresses_def)


lemma uploadsOk_admit [keeps]:
  assumes "uploadsOk s"
  shows "uploadsOk (admit name buffer s)"
proof -
  let ?t = "s\<lparr>uq_nextId := Suc (uq_nextId s)\<rparr>"
  have "counters ?t = counters s" "nobodyForgotten ?t = nobodyForgotten s"
    by (simp_all add: counters_def nobodyForgotten_def hasRoom_def)
  moreover have "freshIds s \<Longrightarrow> freshIds ?t" by (auto simp: freshIds_def addresses_def intro: less_SucI)
  ultimately have "uploadsOk ?t" using assms by (simp add: uploadsOk_def)
  moreover have "uq_nextId s \<notin> set (addresses s)" using assms by (auto simp: uploadsOk_def freshIds_def)
  ultimately have "uploadsOk (enqueue \<lparr>po_id = uq_nextId s, po_name = name, po_size = n\<rparr>
      (s\<lparr>uq_nextId := Suc (uq_nextId s)\<rparr>))" for n
    by (intro uploadsOk_enqueue) (auto simp: addresses_def)
  then show ?thesis using assms by (auto simp: admit_def uploadsOk_fail split: option.split)
qed

lemma uploadsOk_resumeAdmit [keeps]:
  assumes "uploadsOk s"
  shows "uploadsOk (resumeAdmit s)"
proof (cases "find snd (uq_waiters s)")
  case (Some w)
  let ?t = "s\<lparr>uq_waiters := remove1 w (uq_waiters s)\<rparr>"
  have w: "w \<in> set (uq_waiters s)" using Some by (auto simp: find_Some_iff)
  have ids: "distinct (map (po_id \<circ> fst) (uq_waiters s))"
      "(po_id \<circ> fst) ` set (uq_waiters s) \<inter> po_id ` set (uq_queued s) = {}"
      "\<forall>i \<in> (po_id \<circ> fst) ` set (uq_waiters s) \<union> po_id ` set (uq_queued s). i < uq_nextId s"
    using assms by (simp_all add: uploadsOk_def freshIds_def addresses_def image_comp)
  have sub: "set (remove1 w (uq_waiters s)) \<subseteq> set (uq_waiters s)" by (rule set_remove1_subset)
  have addr: "set (addresses ?t) = (po_id \<circ> fst) ` set (remove1 w (uq_waiters s)) \<union> po_id ` set (uq_queued s)"
    by (simp add: addresses_def image_comp)
  have "freshIds ?t"
    unfolding freshIds_def addr
    using assms ids sub distinct_map_remove1 [OF ids(1), of w]
    by (auto simp: addresses_def uploadsOk_def freshIds_def simp del: set_remove1_eq)
  then have "uploadsOk ?t"
    using assms sub by (auto simp: uploadsOk_def counters_def nobodyForgotten_def hasRoom_def)
  moreover have "po_id (fst w) \<notin> set (addresses ?t)"
    unfolding addr using distinct_map_remove1_notin [OF ids(1) w] ids(2) w by auto
  moreover have "po_id (fst w) < uq_nextId ?t" using ids(3) w by auto
  ultimately show ?thesis unfolding resumeAdmit_def Some option.case by (rule uploadsOk_enqueue)
qed (simp add: resumeAdmit_def assms)

lemma uploadsOk_pumpFinally [keeps]:
  assumes "uploadsOk s"
  shows "uploadsOk (pumpFinally s)"
proof -
  let ?t = "s\<lparr>uq_pump := PumpIdle\<rparr>"
  have t: "counters ?t" "freshIds ?t" "\<forall>b \<in> set (uq_batches ?t). batchOk b"
    using assms by (auto simp: uploadsOk_def counters_def freshIds_def addresses_def)
  have waiters: "(\<exists>w \<in> set (uq_waiters ?t). \<not> snd w) \<longrightarrow> uq_failure ?t = None \<and> \<not> hasRoom ?t"
    using assms by (auto simp: uploadsOk_def nobodyForgotten_def hasRoom_def)
  show ?thesis
  proof (cases "uq_queued s \<noteq> [] \<and> uq_failure s = None")
    case True
    then have "pumpFinally s = pumpLoop ?t" by (simp add: pumpFinally_def kickPump_def)
    with pumpLoop_keeps [OF t] pumpLoop_forgets_nobody [OF waiters] show ?thesis by (simp add: uploadsOk_def)
  next
    case False
    then have "pumpFinally s = ?t" by (auto simp: pumpFinally_def)
    with t waiters False show ?thesis by (auto simp: uploadsOk_def nobodyForgotten_def)
  qed
qed

lemma uploadsOk_dropQueued [keeps]:
  assumes "uploadsOk s"
  shows "uploadsOk (dropQueued s)"
proof -
  let ?abort = "\<lambda>b. if ba_over b then b else b\<lparr>ba_aborted := True\<rparr>"
  have sums: "slotsOf (map ?abort bs) = slotsOf bs" "bytesOf (map ?abort bs) = bytesOf bs" for bs
    by (induction bs) auto
  show ?thesis
    using assms unfolding dropQueued_def uploadsOk_def
    by (intro conjI woken_forgets_nobody)
       (auto simp: counters_def sums freshIds_def addresses_def batchOk_def)
qed

text \<open>The events of one batch.\<close>

lemma batches_update:
  assumes "\<forall>b \<in> set bs. batchOk b" and "batchOk b'"
  shows "\<forall>b \<in> set (bs[i := b']). batchOk b"
  using assms set_update_subset_insert [of bs i b'] by auto

lemma uploadsOkE:
  assumes "uploadsOk s" and "i < length (uq_batches s)"
  shows "counters s" "freshIds s" "nobodyForgotten s" "\<forall>b \<in> set (uq_batches s). batchOk b" "batchOk (uq_batches s ! i)"
  using assms by (simp_all add: uploadsOk_def)

text \<open>Rewriting a batch without touching what is unsettled changes no counter.\<close>

lemma putBatch_counters:
  assumes "i < length (uq_batches s)" and "ba_remaining b = ba_remaining (uq_batches s ! i)"
  shows "counters (putBatch i b s) = counters s"
  using assms by (simp add: counters_def slotsOf_update bytesOf_update)

lemma putBatch_others [simp]:
  "freshIds (putBatch i b s) = freshIds s" "nobodyForgotten (putBatch i b s) = nobodyForgotten s"
  by (simp_all add: freshIds_def nobodyForgotten_def hasRoom_def)

lemma uploadsOk_presignFailed [keeps]:
  assumes "uploadsOk s" and "i < length (uq_batches s)"
  shows "uploadsOk (presignFailed i err s)"
proof -
  let ?b = "rejectBatch err (uq_batches s ! i)"
  have "batchOk (uq_batches s ! i) \<longrightarrow> batchOk ?b" "ba_remaining ?b = ba_remaining (uq_batches s ! i)"
    by (simp_all add: rejectBatch_def batchOk_def)
  then have "counters (putBatch i ?b s)" "batchOk ?b"
    using uploadsOkE(1,5) [OF assms] putBatch_counters [OF assms(2)] by simp_all
  moreover from batches_update [OF uploadsOkE(4) [OF assms] this(2)]
  have "\<forall>b \<in> set ((uq_batches s)[i := ?b]). batchOk b" .
  ultimately show ?thesis
    using uploadsOkE [OF assms]
    unfolding presignFailed_def uploadsOk_def putBatch_others putBatch_fields by blast
qed

text \<open>What every settling event does to the state: some objects of one batch leave it.\<close>

lemma uploadsOk_settleAll:
  assumes ok: "uploadsOk s" and i: "i < length (uq_batches s)"
    and same: "ba_remaining b = ba_remaining (uq_batches s ! i)"
    and after: "batchOk (b\<lparr>ba_remaining := filter (\<lambda>x. x \<notin> set obs) (ba_remaining b)\<rparr>)"
  shows "uploadsOk (fold (settleObject i) obs (putBatch i b s))"
    and "uq_batches (fold (settleObject i) obs (putBatch i b s)) =
      (uq_batches s)[i := b\<lparr>ba_remaining := filter (\<lambda>x. x \<notin> set obs) (ba_remaining b)\<rparr>]"
proof -
  let ?t = "putBatch i b s"
  have t: "i < length (uq_batches ?t)" "counters ?t" "distinct (ba_remaining (uq_batches ?t ! i))"
    using uploadsOkE [OF ok i] i same by (simp_all add: putBatch_counters batchOk_def)
  note all = settleAll [OF t, of obs]
  then show batches: "uq_batches (fold (settleObject i) obs ?t) =
      (uq_batches s)[i := b\<lparr>ba_remaining := filter (\<lambda>x. x \<notin> set obs) (ba_remaining b)\<rparr>]"
    using i by simp
  have "freshIds (fold (settleObject i) obs ?t)"
    using uploadsOkE(2) [OF ok i] by (simp add: freshIds_def)
  moreover have "nobodyForgotten (fold (settleObject i) obs ?t)"
    using uploadsOkE(3) [OF ok i] by (intro settleAll_forgets_nobody) simp
  moreover have "\<forall>b \<in> set (uq_batches (fold (settleObject i) obs ?t)). batchOk b"
    unfolding batches using uploadsOkE(4) [OF ok i] after by (rule batches_update)
  ultimately show "uploadsOk (fold (settleObject i) obs ?t)" using all by (simp add: uploadsOk_def)
qed

lemma uploadsOk_presigned [keeps]:
  assumes ok: "uploadsOk s" and pend: "pendingIn s (Presigned i names)"
  shows "uploadsOk (presigned i names s)"
proof -
  let ?b = "uq_batches s ! i"
  let ?missing = "filter (\<lambda>ob. po_name ob \<notin> set names) (ba_objects ?b)"
  let ?b' = "?b\<lparr>ba_presigning := False, ba_putting := filter (\<lambda>ob. po_name ob \<in> set names) (ba_objects ?b)\<rparr>"
  let ?b'' = "case ?missing of [] \<Rightarrow> ?b' | ob # _ \<Rightarrow> rejectBatch (''presign missing '' @ po_name ob) ?b'"
  have i: "i < length (uq_batches s)" and presigning: "ba_presigning ?b" using pend by simp_all
  have b: "batchOk ?b" by (rule uploadsOkE [OF ok i])
  have fields: "ba_remaining ?b'' = ba_remaining ?b" "ba_putting ?b'' = ba_putting ?b'"
      "ba_over ?b'' = ba_over ?b" "ba_presigning ?b'' = False" "ba_objects ?b'' = ba_objects ?b"
    by (simp_all add: rejectBatch_def split: list.split)
  have "filter (\<lambda>x. x \<notin> set ?missing) (ba_objects ?b) = ba_putting ?b'" by (auto intro: filter_cong)
  then have "batchOk (?b''\<lparr>ba_remaining := filter (\<lambda>x. x \<notin> set ?missing) (ba_remaining ?b'')\<rparr>)"
    using b presigning unfolding batchOk_def by (simp add: fields split: if_splits)
  from uploadsOk_settleAll(1) [OF ok i fields(1) this] show ?thesis
    by (simp add: presigned_def Let_def)
qed

lemma settleObject_fold: "settleObject i ob s = fold (settleObject i) [ob] s"
  by simp

lemma settled_put:
  assumes ok: "uploadsOk s" and i: "i < length (uq_batches s)" and put: "ob \<in> set (ba_putting (uq_batches s ! i))"
  shows "uploadsOk (settleObject i ob (donePutting i ob s))"
    and "uq_batches (settleObject i ob (donePutting i ob s)) = (uq_batches s)[i := (uq_batches s ! i)
      \<lparr>ba_putting := filter (\<lambda>x. x \<noteq> ob) (ba_putting (uq_batches s ! i)),
       ba_remaining := filter (\<lambda>x. x \<noteq> ob) (ba_remaining (uq_batches s ! i))\<rparr>]"
proof -
  let ?b = "uq_batches s ! i"
  let ?b' = "?b\<lparr>ba_putting := filter (\<lambda>x. x \<noteq> ob) (ba_putting ?b)\<rparr>"
  have "batchOk ?b" by (rule uploadsOkE [OF ok i])
  then have after: "batchOk (?b'\<lparr>ba_remaining := filter (\<lambda>x. x \<notin> set [ob]) (ba_remaining ?b')\<rparr>)"
    using put by (auto simp: batchOk_def split: if_splits)
  have same: "ba_remaining ?b' = ba_remaining ?b" by simp
  have shape: "settleObject i ob (donePutting i ob s) = fold (settleObject i) [ob] (putBatch i ?b' s)"
    by (simp add: donePutting_def Let_def)
  show "uploadsOk (settleObject i ob (donePutting i ob s))"
    unfolding shape by (rule uploadsOk_settleAll(1) [OF ok i same after])
  show "uq_batches (settleObject i ob (donePutting i ob s)) = (uq_batches s)[i := (uq_batches s ! i)
      \<lparr>ba_putting := filter (\<lambda>x. x \<noteq> ob) (ba_putting (uq_batches s ! i)),
       ba_remaining := filter (\<lambda>x. x \<noteq> ob) (ba_remaining (uq_batches s ! i))\<rparr>]"
    unfolding shape uploadsOk_settleAll(2) [OF ok i same after] by simp
qed

lemma uploadsOk_uploaded:
  "uploadsOk (s\<lparr>uq_uploaded := u, uq_uploadedBytes := v\<rparr>) = uploadsOk s"
proof -
  let ?t = "s\<lparr>uq_uploaded := u, uq_uploadedBytes := v\<rparr>"
  have "counters ?t = counters s" "freshIds ?t = freshIds s" "nobodyForgotten ?t = nobodyForgotten s"
    by (simp_all add: counters_def freshIds_def addresses_def nobodyForgotten_def hasRoom_def)
  then show ?thesis by (simp add: uploadsOk_def)
qed

lemma uploadsOk_putOk [keeps]:
  assumes "uploadsOk s" and "pendingIn s (PutOk i ob)"
  shows "uploadsOk (putOk i ob s)"
proof -
  have "uploadsOk (settleObject i ob (donePutting i ob s))" using assms by (intro settled_put) simp_all
  then show ?thesis
    by (simp add: putOk_def Let_def uploadsOk_uploaded)
qed

lemma uploadsOk_putFailed [keeps]:
  assumes "uploadsOk s" and "pendingIn s (PutFailed i ob err)"
  shows "uploadsOk (putFailed i ob err s)"
proof -
  let ?t = "settleObject i ob (donePutting i ob s)"
  have t: "uploadsOk ?t" "i < length (uq_batches ?t)" using settled_put [of s i ob] assms by simp_all
  have "putFailed i ob err s = presignFailed i err ?t" by (simp add: putFailed_def presignFailed_def Let_def)
  with uploadsOk_presignFailed [OF t] show ?thesis by simp
qed

lemma uploadsOk_endBatch [keeps]:
  assumes ok: "uploadsOk s" and pend: "pendingIn s (BatchEnded i)"
  shows "uploadsOk (endBatch i s)"
proof -
  let ?b = "uq_batches s ! i"
  have i: "i < length (uq_batches s)" using pend by simp
  have b: "batchOk ?b" by (rule uploadsOkE [OF ok i])
  let ?t = "fold (settleObject i) (ba_remaining ?b) s"
  have t: "counters ?t" "freshIds ?t" "nobodyForgotten ?t"
      "uq_batches ?t = (uq_batches s)[i := ?b\<lparr>ba_remaining := []\<rparr>]"
    using settleAll [of i s "ba_remaining ?b"] uploadsOkE [OF ok i] i
    by (auto simp: batchOk_def freshIds_def intro: settleAll_forgets_nobody)
  let ?over = "putBatch i ((uq_batches ?t ! i)\<lparr>ba_over := True, ba_presigning := False\<rparr>) ?t"
  have "\<forall>b \<in> set (uq_batches ?over). batchOk b"
    unfolding putBatch_fields t(4) list_update_overwrite
    by (rule batches_update [OF uploadsOkE(4) [OF ok i]]) (use b i pend in \<open>auto simp: batchOk_def\<close>)
  then have "uploadsOk ?over"
    using t i by (simp add: uploadsOk_def putBatch_counters)
  then show ?thesis
    by (auto simp: endBatch_def Let_def intro: uploadsOk_fail uploadsOk_wake split: option.split)
qed

lemma uploadsOk_step: "uploadsOk s \<Longrightarrow> uploadsOk (uploadStep s e)"
  unfolding uploadStep_def by (cases e) (auto intro: keeps simp del: pendingIn.simps(5, 7, 8, 9))

interpretation uploads: component uploadStep uploadsOk
  by unfold_locales (rule uploadsOk_step)

lemma uploadsOk_run: "uploadsOk (runUploads es)"
  unfolding runUploads_def
  by (rule uploads.run_keeps)
     (simp add: uploadsOk_def emptyUploads_def counters_def freshIds_def addresses_def nobodyForgotten_def PUT_CONCURRENCY_def)

section \<open>Progress\<close>

text \<open>The events the queue owes itself: promises and continuations already under way.\<close>

fun ownEvent :: "upload_event \<Rightarrow> bool" where
  "ownEvent (Finalized _ _) = False"
| "ownEvent Restarted = False"
| "ownEvent (FailedElsewhere _) = False"
| "ownEvent _ = True"

definition workLeft :: "uploads \<Rightarrow> bool" where
  "workLeft s \<longleftrightarrow> uq_queued s \<noteq> [] \<or> uq_waiters s \<noteq> [] \<or> 0 < uq_activeSlots s"

lemma unsettled_pending:
  assumes "batchOk (uq_batches s ! i)" and "i < length (uq_batches s)" and "ba_remaining (uq_batches s ! i) \<noteq> []"
  shows "\<exists>e. ownEvent e \<and> pendingIn s e"
proof -
  let ?b = "uq_batches s ! i"
  have open_batch: "\<not> ba_over ?b" using assms(1,3) by (auto simp: batchOk_def)
  consider "ba_error ?b \<noteq> None" | "ba_presigning ?b" "ba_error ?b = None" | "\<not> ba_presigning ?b" "ba_error ?b = None" by blast
  then show ?thesis
  proof cases
    case 1
    with open_batch assms(2) show ?thesis by (intro exI [of _ "BatchEnded i"]) auto
  next
    case 2
    with assms(2) show ?thesis by (intro exI [of _ "Presigned i []"]) auto
  next
    case 3
    with assms(1,3) open_batch have "ba_putting ?b \<noteq> []" by (auto simp: batchOk_def)
    with assms(2) show ?thesis by (intro exI [of _ "PutOk i (hd (ba_putting ?b))"]) auto
  qed
qed

lemma pending_when_work_left:
  assumes ok: "uploadsOk s" and work: "workLeft s" and running: "uq_failure s = None"
  shows "\<exists>e. ownEvent e \<and> pendingIn s e"
proof -
  have slots: "\<exists>e. ownEvent e \<and> pendingIn s e" if "0 < slotsOf (uq_batches s)"
  proof -
    from slotsOf_pos [OF that] obtain i where i: "i < length (uq_batches s)" "ba_remaining (uq_batches s ! i) \<noteq> []"
      by blast
    then show ?thesis using ok by (intro unsettled_pending [of s i]) (simp_all add: uploadsOk_def)
  qed
  have counts: "uq_activeSlots s = slotsOf (uq_batches s)" "uq_inflightBytes s = bytesOf (uq_batches s)"
      "uq_queuedBytes s = totalSize (uq_queued s)"
    using ok by (simp_all add: uploadsOk_def counters_def)
  have queued: "\<exists>e. ownEvent e \<and> pendingIn s e" if "uq_queued s \<noteq> []"
  proof (cases "uq_pump s")
    case PumpIdle
    with ok that running show ?thesis by (simp add: uploadsOk_def nobodyForgotten_def)
  next
    case PumpAsleep
    with ok have "PUT_CONCURRENCY \<le> uq_activeSlots s" by (simp add: uploadsOk_def nobodyForgotten_def)
    then show ?thesis by (intro slots) (simp add: counts PUT_CONCURRENCY_def)
  next
    case PumpWoken
    then show ?thesis by (intro exI [of _ PumpResumed]) simp
  next
    case PumpFinishing
    then show ?thesis by (intro exI [of _ PumpEnded]) simp
  qed
  show ?thesis
  proof (cases "\<exists>w \<in> set (uq_waiters s). snd w")
    case True
    then show ?thesis by (intro exI [of _ AdmitResumed]) simp
  next
    case False
    show ?thesis
    proof (cases "uq_waiters s = []")
      case True
      with work queued slots show ?thesis by (auto simp: workLeft_def counts)
    next
      case asleep: False
      then have "hd (uq_waiters s) \<in> set (uq_waiters s)" by simp
      with False ok have "\<not> hasRoom s" unfolding uploadsOk_def nobodyForgotten_def by blast
      then have "uq_queued s \<noteq> [] \<or> 0 < bytesOf (uq_batches s)"
        by (auto simp: hasRoom_def MAX_QUEUED_BYTES_def counts)
      with queued slots bytesOf_pos_slotsOf show ?thesis by blast
    qed
  qed
qed

text \<open>What is left to do, as a number: every object has some promises ahead of it, less with each one that settles.\<close>

definition batchRank :: "upload_batch \<Rightarrow> nat" where
  "batchRank b = (if ba_over b then 0 else 1) + (if ba_error b = None then 1 else 0)
     + (if ba_presigning b then 2 * length (ba_objects b) + 1 else 0) + length (ba_putting b)"

definition ranks :: "upload_batch list \<Rightarrow> nat" where
  "ranks bs = (\<Sum>b \<leftarrow> bs. batchRank b)"

definition rank :: "uploads \<Rightarrow> nat" where
  "rank s = 7 * length (uq_waiters s) + 6 * length (uq_queued s) + ranks (uq_batches s)"

fun phaseRank :: "pump_phase \<Rightarrow> nat" where
  "phaseRank PumpWoken = 2"
| "phaseRank PumpFinishing = 1"
| "phaseRank _ = 0"

definition awake :: "uploads \<Rightarrow> nat" where
  "awake s = length (filter snd (uq_waiters s)) + phaseRank (uq_pump s)"

definition progress :: "(uploads \<times> uploads) set" where
  "progress = inv_image (less_than <*lex*> less_than) (\<lambda>s. (rank s, awake s))"

lemma wf_progress: "wf progress"
  by (auto simp: progress_def intro: wf_inv_image)

lemma progressI: "rank t < rank s \<or> rank t = rank s \<and> awake t < awake s \<Longrightarrow> (t, s) \<in> progress"
  by (auto simp: progress_def)

lemma ranks_simps [simp]:
  "ranks [] = 0" "ranks (b # bs) = batchRank b + ranks bs" "ranks (bs @ bs') = ranks bs + ranks bs'"
  by (simp_all add: ranks_def)

lemma ranks_update_less:
  "i < length bs \<Longrightarrow> batchRank b < batchRank (bs ! i) \<Longrightarrow> ranks (bs[i := b]) < ranks bs"
  by (induction bs arbitrary: i) (auto split: nat.split)

lemma pumpLoop_rank:
  "rank (pumpLoop s) < rank s \<or>
   rank (pumpLoop s) = rank s \<and> phaseRank (uq_pump (pumpLoop s)) \<le> 1
     \<and> (uq_queued s \<noteq> [] \<longrightarrow> uq_failure s = None \<longrightarrow> uq_pump (pumpLoop s) = PumpAsleep)"
proof (induction s rule: pumpLoop.induct)
  case (1 s)
  let ?c = "min PRESIGN_BATCH (nat (PUT_CONCURRENCY - uq_activeSlots s))"
  consider "uq_queued s = [] \<or> uq_failure s \<noteq> None"
    | "\<not> (uq_queued s = [] \<or> uq_failure s \<noteq> None)" "PUT_CONCURRENCY - uq_activeSlots s \<le> 0"
    | "\<not> (uq_queued s = [] \<or> uq_failure s \<noteq> None)" "\<not> PUT_CONCURRENCY - uq_activeSlots s \<le> 0"
    by blast
  then show ?case
  proof cases
    case 1
    then have "pumpLoop s = s\<lparr>uq_pump := PumpFinishing\<rparr>" by (subst pumpLoop.simps) simp
    with 1 show ?thesis by (auto simp: rank_def)
  next
    case 2
    then have "pumpLoop s = s\<lparr>uq_pump := PumpAsleep\<rparr>" by (subst pumpLoop.simps) simp
    then show ?thesis by (simp add: rank_def)
  next
    case 3
    then have step: "pumpLoop s = pumpLoop (takeBatch ?c s)" by (subst pumpLoop.simps) (simp add: Let_def)
    obtain ob obs c where q: "uq_queued s = ob # obs" and c: "?c = Suc c"
      using 3 by (cases "uq_queued s"; cases ?c) (auto simp: PRESIGN_BATCH_def)
    have "rank (takeBatch ?c s) < rank s"
      unfolding c by (simp add: rank_def q startBatch_def batchRank_def)
    with 1 [OF 3(1) refl 3(2)] show ?thesis unfolding step by auto
  qed
qed

lemma settle_rank:
  assumes "i < length (uq_batches s)"
  shows "rank (fold (settleObject i) obs s) = rank s"
  using assms
proof (induction obs arbitrary: s)
  case (Cons ob obs)
  let ?b = "(uq_batches s ! i)\<lparr>ba_remaining := filter (\<lambda>x. x \<noteq> ob) (ba_remaining (uq_batches s ! i))\<rparr>"
  have same: "ranks (bs[j := b]) = ranks bs" if "j < length bs" "batchRank b = batchRank (bs ! j)" for bs j b
    using that by (induction bs arbitrary: j) (auto split: nat.split)
  have "ranks ((uq_batches s)[i := ?b]) = ranks (uq_batches s)"
    using Cons.prems by (intro same) (simp_all add: batchRank_def)
  then have "rank (settleObject i ob s) = rank s"
    using Cons.prems by (simp add: rank_def settle_batches)
  with Cons show ?case by simp
qed simp

lemma putBatch_rank:
  "i < length (uq_batches s) \<Longrightarrow> batchRank b < batchRank (uq_batches s ! i) \<Longrightarrow> rank (putBatch i b s) < rank s"
  by (simp add: rank_def ranks_update_less)

lemma rank_wake [simp]: "rank (wake s) = rank s"
  by (simp add: rank_def)

lemma rank_fail [simp]: "rank (failUpload err s) = rank s"
  by (simp add: rank_def failUpload_def)

lemma enqueue_rank:
  "rank (enqueue ob s) < rank s + 7 \<or>
   rank (enqueue ob s) = rank s + 7 \<and> uq_waiters (enqueue ob s) = uq_waiters s @ [(ob, False)] \<and> uq_pump (enqueue ob s) = uq_pump s"
proof -
  let ?q = "s\<lparr>uq_queued := uq_queued s @ [ob], uq_queuedBytes := uq_queuedBytes s + int (po_size ob)\<rparr>"
  have "rank ?q = rank s + 6" by (simp add: rank_def)
  moreover have "rank (pumpLoop ?q) \<le> rank ?q" using pumpLoop_rank [of ?q] by auto
  ultimately show ?thesis by (auto simp: enqueue_def kickPump_def rank_def)
qed

lemma resume_progress:
  assumes "find snd (uq_waiters s) = Some w"
  shows "(resumeAdmit s, s) \<in> progress"
proof -
  let ?t = "s\<lparr>uq_waiters := remove1 w (uq_waiters s)\<rparr>"
  have w: "w \<in> set (uq_waiters s)" "snd w" using assms by (auto simp: find_Some_iff)
  have t: "rank s = rank ?t + 7"
    using w(1) length_pos_if_in_set [OF w(1)] by (cases "length (uq_waiters s)") (simp_all add: rank_def length_remove1)
  have awake: "length (filter snd (remove1 w ws)) < length (filter snd ws)" if "w \<in> set ws" for ws :: "waiter list"
    using that w(2) by (induction ws) auto
  have resume: "resumeAdmit s = enqueue (fst w) ?t" by (simp add: resumeAdmit_def assms)
  show ?thesis
    using enqueue_rank [of "fst w" ?t] awake [OF w(1)]
    by (intro progressI) (auto simp: resume t awake_def)
qed

lemma batch_progress:
  assumes "uploadsOk s" and "pendingIn s e" and "e \<in> {Presigned i names, PresignFailed i err, PutOk i ob, PutFailed i ob err, BatchEnded i}"
  shows "rank (uploadEvent s e) < rank s"
proof -
  let ?b = "uq_batches s ! i"
  have i: "i < length (uq_batches s)" using assms(2,3) by auto
  have put: "length (filter (\<lambda>x. x \<noteq> ob) (ba_putting ?b)) < length (ba_putting ?b)" if "ob \<in> set (ba_putting ?b)"
    using that by (intro length_filter_less) auto
  have rejected: "batchRank (rejectBatch m b) \<le> batchRank b" for m b
    by (simp add: rejectBatch_def batchRank_def)
  consider "e = Presigned i names" | "e = PresignFailed i err" | "e = PutOk i ob" | "e = PutFailed i ob err" | "e = BatchEnded i"
    using assms(3) by blast
  then show ?thesis
  proof cases
    case 1
    let ?missing = "filter (\<lambda>ob. po_name ob \<notin> set names) (ba_objects ?b)"
    let ?b' = "?b\<lparr>ba_presigning := False, ba_putting := filter (\<lambda>ob. po_name ob \<in> set names) (ba_objects ?b)\<rparr>"
    let ?b'' = "case ?missing of [] \<Rightarrow> ?b' | ob # _ \<Rightarrow> rejectBatch (''presign missing '' @ po_name ob) ?b'"
    have "length (filter (\<lambda>ob. po_name ob \<in> set names) (ba_objects ?b)) \<le> length (ba_objects ?b)"
      by (rule length_filter_le)
    then have "length (filter (\<lambda>ob. po_name ob \<in> set names) (ba_objects ?b)) <
        Suc (2 * length (ba_objects ?b) + length (ba_putting ?b))" by linarith
    then have "batchRank ?b' < batchRank ?b" using assms(2) 1 by (simp add: batchRank_def)
    then have "batchRank ?b'' < batchRank ?b" using rejected [of _ ?b'] by (auto split: list.split intro: le_less_trans)
    from putBatch_rank [OF i this] show ?thesis
      using i by (simp add: 1 presigned_def Let_def settle_rank)
  next
    case 2
    have "batchRank (rejectBatch err ?b) < batchRank ?b"
      using assms(2) 2 by (simp add: rejectBatch_def batchRank_def)
    from putBatch_rank [OF i this] show ?thesis by (simp add: 2 presignFailed_def)
  next
    case 3
    let ?t = "donePutting i ob s"
    have "rank ?t < rank s"
      using put assms(2) 3 i by (auto simp: donePutting_def Let_def batchRank_def intro!: putBatch_rank)
    moreover have "rank (settleObject i ob ?t) = rank ?t"
      using i settle_rank [of i ?t "[ob]"] by (simp add: donePutting_def Let_def)
    moreover have "rank (putOk i ob s) = rank (settleObject i ob ?t)"
      by (simp add: putOk_def Let_def rank_def)
    ultimately show ?thesis by (simp add: 3)
  next
    case 4
    let ?t = "donePutting i ob s"
    let ?u = "settleObject i ob ?t"
    have "rank ?t < rank s"
      using put assms(2) 4 i by (auto simp: donePutting_def Let_def batchRank_def intro!: putBatch_rank)
    moreover have "rank ?u = rank ?t"
      using i settle_rank [of i ?t "[ob]"] by (simp add: donePutting_def Let_def)
    moreover have "rank (putFailed i ob err s) \<le> rank ?u"
    proof (cases "ba_error (uq_batches ?u ! i) = None")
      case True
      then have "batchRank (rejectBatch err (uq_batches ?u ! i)) < batchRank (uq_batches ?u ! i)"
        by (simp add: rejectBatch_def batchRank_def)
      from putBatch_rank [OF _ this] i show ?thesis by (simp add: putFailed_def Let_def donePutting_def less_imp_le)
    next
      case False
      then have "rejectBatch err (uq_batches ?u ! i) = uq_batches ?u ! i" by (auto simp: rejectBatch_def)
      then show ?thesis by (simp add: putFailed_def Let_def rank_def)
    qed
    ultimately show ?thesis by (simp add: 4)
  next
    case 5
    let ?t = "fold (settleObject i) (ba_remaining ?b) s"
    have t: "uq_batches ?t ! i = ?b\<lparr>ba_remaining := []\<rparr>" "i < length (uq_batches ?t)"
      using settleAll [of i s "ba_remaining ?b"] uploadsOkE [OF assms(1) i] i by (simp_all add: batchOk_def)
    have "batchRank ((uq_batches ?t ! i)\<lparr>ba_over := True, ba_presigning := False\<rparr>) < batchRank (uq_batches ?t ! i)"
      using assms(2) 5 by (simp add: t(1) batchRank_def)
    from putBatch_rank [OF t(2) this] i show ?thesis
      by (simp add: 5 endBatch_def Let_def settle_rank split: option.split)
  qed
qed

lemma own_event_progress:
  assumes ok: "uploadsOk s" and pend: "pendingIn s e" and own: "ownEvent e"
  shows "(uploadStep s e, s) \<in> progress"
proof -
  have "(uploadEvent s e, s) \<in> progress"
  proof (cases e)
    case AdmitResumed
    then have "\<exists>w \<in> set (uq_waiters s). snd w" using pend by simp
    then obtain w where "find snd (uq_waiters s) = Some w"
      using find_None_iff [of snd "uq_waiters s"] by (metis not_None_eq)
    then show ?thesis by (simp add: AdmitResumed resume_progress)
  next
    case PumpResumed
    with pend have "uq_pump s = PumpWoken" by simp
    with pumpLoop_rank [of s] PumpResumed show ?thesis
      by (intro progressI) (auto simp: awake_def)
  next
    case PumpEnded
    let ?t = "s\<lparr>uq_pump := PumpIdle\<rparr>"
    have "rank ?t = rank s" "awake ?t < awake s" using pend PumpEnded by (auto simp: rank_def awake_def)
    moreover have "awake (pumpLoop ?t) \<le> awake ?t"
      if "uq_pump (pumpLoop ?t) = PumpAsleep" using that by (simp add: awake_def)
    ultimately show ?thesis
      using pumpLoop_rank [of ?t] PumpEnded
      by (intro progressI) (auto simp: pumpFinally_def Let_def kickPump_def)
  next
    case (Presigned i names)
    then show ?thesis by (intro progressI disjI1 batch_progress [OF ok pend, of i names]) simp
  next
    case (PresignFailed i err)
    then show ?thesis by (intro progressI disjI1 batch_progress [OF ok pend, of i _ err]) simp
  next
    case (PutOk i ob)
    then show ?thesis by (intro progressI disjI1 batch_progress [OF ok pend, of i _ _ ob]) simp
  next
    case (PutFailed i ob err)
    then show ?thesis by (intro progressI disjI1 batch_progress [OF ok pend, of i _ err ob]) simp
  next
    case (BatchEnded i)
    then show ?thesis by (intro progressI disjI1 batch_progress [OF ok pend, of i]) simp
  qed (use own in simp_all)
  then show ?thesis using pend by (simp add: uploadStep_def)
qed

section \<open>The bound on memory\<close>

definition load :: "uploads \<Rightarrow> int" where
  "load s = uq_queuedBytes s + uq_inflightBytes s"

text \<open>No object is larger than \<open>m\<close> and the bytes held never reach the limit plus \<open>m\<close>.\<close>

definition boundedBy :: "int \<Rightarrow> uploads \<Rightarrow> bool" where
  "boundedBy m s \<longleftrightarrow> load s < MAX_QUEUED_BYTES + m \<and> (\<forall>ob \<in> fst ` set (uq_waiters s). int (po_size ob) \<le> m)"

lemma boundedBy_less:
  assumes "boundedBy m s" and "load t \<le> load s" and "set (map fst (uq_waiters t)) \<subseteq> set (map fst (uq_waiters s))"
  shows "boundedBy m t"
proof -
  have "load t < MAX_QUEUED_BYTES + m" using assms(1,2) by (simp add: boundedBy_def)
  moreover have "\<forall>ob \<in> fst ` set (uq_waiters t). int (po_size ob) \<le> m"
    using assms(1,3) unfolding boundedBy_def set_map by blast
  ultimately show ?thesis unfolding boundedBy_def by blast
qed

lemma load_pumpLoop [simp]: "load (pumpLoop s) = load s"
  unfolding load_def by (rule pumpLoop_fields)

lemma waiters_wake: "map fst (uq_waiters (wake s)) = map fst (uq_waiters s)"
  by (rule wake_fields)

lemma settleAll_load:
  "load (fold (settleObject i) obs s) \<le> load s \<and>
   map fst (uq_waiters (fold (settleObject i) obs s)) = map fst (uq_waiters s)"
proof (induction obs arbitrary: s)
  case (Cons ob obs)
  have "load (settleObject i ob s) \<le> load s" by (auto simp: settleObject_def Let_def load_def)
  with Cons [of "settleObject i ob s"] show ?case by (simp del: map_map)
qed simp

lemma enqueue_bounded:
  assumes "boundedBy m s" and "int (po_size ob) \<le> m"
  shows "boundedBy m (enqueue ob s)"
proof -
  let ?q = "s\<lparr>uq_queued := uq_queued s @ [ob], uq_queuedBytes := uq_queuedBytes s + int (po_size ob)\<rparr>"
  have "boundedBy m ?q" if "hasRoom s"
    using that assms by (auto simp: boundedBy_def load_def hasRoom_def)
  moreover have "boundedBy m (pumpLoop ?q) = boundedBy m ?q" by (simp add: boundedBy_def)
  moreover have "boundedBy m (s\<lparr>uq_waiters := uq_waiters s @ [(ob, False)]\<rparr>)"
    using assms by (auto simp: boundedBy_def load_def)
  ultimately show ?thesis using assms(1) by (auto simp: enqueue_def kickPump_def)
qed

lemma event_bounded:
  assumes b: "boundedBy m s" and ok: "uploadsOk s" and fits: "\<forall>name bytes. e = Finalized name (Some bytes) \<longrightarrow> int bytes \<le> m"
  shows "boundedBy m (uploadEvent s e)"
proof -
  have less: "boundedBy m t" if "load t \<le> load s" "map fst (uq_waiters t) = map fst (uq_waiters s)" for t
    using boundedBy_less [OF b that(1)] that(2) by (metis order_refl)
  have put: "load (putBatch i ba t) = load t" "load (wake t) = load t" "load (failUpload err t) = load t"
      "map fst (uq_waiters (failUpload err t)) = map fst (uq_waiters t)" for i ba t err
    by (simp_all add: load_def failUpload_def del: map_map)
  have settle: "load (settleObject i ob t) \<le> load t" for i ob t
    using settleAll_load [of i "[ob]" t] by simp
  show ?thesis
  proof (cases e)
    case (Finalized name buffer)
    have "boundedBy m (s\<lparr>uq_nextId := k\<rparr>)" for k using b by (simp add: boundedBy_def load_def)
    then show ?thesis
      using b fits Finalized less [of "failUpload _ s"] put
      by (auto simp: admit_def intro!: enqueue_bounded split: option.split)
  next
    case AdmitResumed
    show ?thesis
    proof (cases "find snd (uq_waiters s)")
      case (Some w)
      then have w: "w \<in> set (uq_waiters s)" by (auto simp: find_Some_iff)
      have "boundedBy m (s\<lparr>uq_waiters := remove1 w (uq_waiters s)\<rparr>)"
        using set_remove1_subset [of w "uq_waiters s"] by (intro boundedBy_less [OF b]) (auto simp: load_def)
      moreover have "int (po_size (fst w)) \<le> m" using b w by (auto simp: boundedBy_def)
      ultimately show ?thesis using AdmitResumed by (simp add: resumeAdmit_def Some enqueue_bounded)
    qed (use b AdmitResumed in \<open>simp add: resumeAdmit_def\<close>)
  next
    case PumpResumed
    then show ?thesis by (intro less) simp_all
  next
    case PumpEnded
    have "load (pumpLoop (s\<lparr>uq_pump := PumpIdle\<rparr>)) = load (s\<lparr>uq_pump := PumpIdle\<rparr>)" by (rule load_pumpLoop)
    with PumpEnded show ?thesis
      by (intro less) (auto simp: pumpFinally_def Let_def kickPump_def load_def)
  next
    case (Presigned i names)
    let ?missing = "filter (\<lambda>ob. po_name ob \<notin> set names) (ba_objects (uq_batches s ! i))"
    obtain b where "presigned i names s = fold (settleObject i) ?missing (putBatch i b s)"
      by (simp add: presigned_def Let_def)
    with settleAll_load [of i ?missing "putBatch i b s"] Presigned show ?thesis
      by (intro less) (simp_all add: put del: map_map)
  next
    case (PresignFailed i err)
    then show ?thesis by (intro less) (simp_all add: presignFailed_def put)
  next
    case (PutOk i ob)
    then show ?thesis
      using settle [of i ob "donePutting i ob s"]
      by (intro less) (auto simp: putOk_def Let_def donePutting_def load_def simp del: map_map)
  next
    case (PutFailed i ob err)
    then show ?thesis
      using settle [of i ob "donePutting i ob s"]
      by (intro less) (auto simp: putFailed_def Let_def donePutting_def load_def simp del: map_map)
  next
    case (BatchEnded i)
    then show ?thesis
      using settleAll_load [of i "ba_remaining (uq_batches s ! i)" s]
      by (intro less) (auto simp: endBatch_def Let_def put simp del: map_map split: option.split)
  next
    case Restarted
    have "0 \<le> totalSize (uq_queued s)" by simp
    then show ?thesis using Restarted
      by (intro less) (simp_all add: dropQueued_def load_def del: map_map totalSize_nonneg)
  next
    case (FailedElsewhere err)
    then show ?thesis by (intro less) (simp_all add: put del: map_map)
  qed
qed

lemma step_bounded:
  assumes "boundedBy m s" and "uploadsOk s" and "\<forall>name bytes. e = Finalized name (Some bytes) \<longrightarrow> int bytes \<le> m"
  shows "boundedBy m (uploadStep s e)"
  using event_bounded [OF assms] assms(1) by (simp add: uploadStep_def)

section \<open>Nothing is lost\<close>

definition namesLeft :: "upload_batch list \<Rightarrow> string multiset" where
  "namesLeft bs = sum_list (map (\<lambda>b. mset (map po_name (ba_remaining b))) bs)"

text \<open>Every name the queue still answers for: asleep, queued, in flight or in the bucket.\<close>

definition heldNames :: "uploads \<Rightarrow> string multiset" where
  "heldNames s = mset (map po_name (map fst (uq_waiters s))) + mset (map po_name (uq_queued s))
     + namesLeft (uq_batches s) + mset (uq_uploaded s)"

text \<open>Nothing failed and nothing was dropped.\<close>

definition clean :: "uploads \<Rightarrow> bool" where
  "clean s \<longleftrightarrow> uq_failure s = None \<and> (\<forall>b \<in> set (uq_batches s). ba_error b = None)"

fun finalizedNames :: "upload_event list \<Rightarrow> string list" where
  "finalizedNames [] = []"
| "finalizedNames (Finalized name (Some _) # es) = name # finalizedNames es"
| "finalizedNames (_ # es) = finalizedNames es"

lemma mset_map_remove1: "x \<in> set xs \<Longrightarrow> mset (map f xs) = mset (map f (remove1 x xs)) + {# f x #}"
  by (induction xs) auto

lemma mset_map_filter_neq:
  "distinct xs \<Longrightarrow> x \<in> set xs \<Longrightarrow> mset (map f xs) = mset (map f (filter (\<lambda>y. y \<noteq> x) xs)) + {# f x #}"
  using mset_map_remove1 [of x xs f] by (simp add: distinct_remove1_removeAll removeAll_filter_not_eq eq_commute)

lemma finalizedNames_append: "finalizedNames (es @ es') = finalizedNames es @ finalizedNames es'"
  by (induction es rule: finalizedNames.induct) simp_all

lemma namesLeft_simps [simp]:
  "namesLeft [] = {#}" "namesLeft (b # bs) = mset (map po_name (ba_remaining b)) + namesLeft bs"
  "namesLeft (bs @ bs') = namesLeft bs + namesLeft bs'"
  by (simp_all add: namesLeft_def)

lemma namesLeft_update:
  "i < length bs \<Longrightarrow> mset (map po_name (ba_remaining (bs ! i))) = mset (map po_name (ba_remaining b)) + extra \<Longrightarrow>
   namesLeft bs = namesLeft (bs[i := b]) + extra"
  by (induction bs arbitrary: i) (auto split: nat.split)

lemma heldNames_pumpLoop [simp]: "heldNames (pumpLoop s) = heldNames s"
proof -
  have "heldNames (takeBatch c t) = heldNames t" for c t
  proof -
    have "mset (map po_name (take c (uq_queued t))) + mset (map po_name (drop c (uq_queued t))) =
        mset (map po_name (uq_queued t))"
      by (metis append_take_drop_id map_append mset_append)
    then show ?thesis by (simp add: heldNames_def startBatch_def ac_simps)
  qed
  moreover have "heldNames (t\<lparr>uq_pump := ph\<rparr>) = heldNames t" for t ph by (simp add: heldNames_def)
  ultimately show ?thesis by (intro pumpLoop_rule [where P = "\<lambda>t. heldNames t = heldNames s"]) simp_all
qed

lemma heldNames_wake [simp]: "heldNames (wake s) = heldNames s"
  unfolding heldNames_def waiters_wake by simp

lemma heldNames_enqueue:
  "uq_failure s = None \<Longrightarrow> heldNames (enqueue ob s) = heldNames s + {# po_name ob #}"
  by (auto simp: enqueue_def kickPump_def) (simp_all add: heldNames_def)

text \<open>A failure or a rejected batch is never taken back.\<close>

lemma clean_settleAll: "clean (fold (settleObject i) obs s) = clean s"
proof (induction obs arbitrary: s)
  case (Cons ob obs)
  have "clean (settleObject i ob s) = clean s"
  proof (cases "i < length (uq_batches s)")
    case True
    have same: "(\<forall>b \<in> set (bs[j := b']). ba_error b = None) = (\<forall>b \<in> set bs. ba_error b = None)"
      if "j < length bs" "ba_error b' = ba_error (bs ! j)" for bs j b'
      using that by (auto simp: all_set_conv_all_nth nth_list_update)
    show ?thesis using True by (simp add: clean_def settle_batches same)
  next
    case False
    then show ?thesis by (auto simp: settleObject_def Let_def clean_def list_update_beyond)
  qed
  with Cons show ?case by simp
qed simp

lemma clean_pumpLoop [simp]: "clean (pumpLoop s) = clean s"
  by (rule pumpLoop_rule [where P = "\<lambda>t. clean t = clean s"]) (auto simp: clean_def startBatch_def)

lemma clean_simps [simp]:
  "clean (wake s) = clean s" "clean (failUpload err s) = False"
  "clean (s\<lparr>uq_pump := ph\<rparr>) = clean s" "clean (s\<lparr>uq_nextId := k\<rparr>) = clean s"
  "clean (s\<lparr>uq_uploaded := u, uq_uploadedBytes := v\<rparr>) = clean s"
  "clean (s\<lparr>uq_waiters := ws\<rparr>) = clean s"
  by (simp_all add: clean_def failUpload_def)

lemma clean_putBatch:
  "i < length (uq_batches s) \<Longrightarrow> clean (putBatch i b s) \<Longrightarrow> ba_error b = None"
  "i < length (uq_batches s) \<Longrightarrow> ba_error b = ba_error (uq_batches s ! i) \<Longrightarrow> clean (putBatch i b s) = clean s"
  by (auto simp: clean_def all_set_conv_all_nth nth_list_update)

lemma not_clean_reject: "i < length (uq_batches s) \<Longrightarrow> \<not> clean (putBatch i (rejectBatch err b) s)"
  using clean_putBatch(1) [of i s "rejectBatch err b"] by (auto simp: rejectBatch_def)

lemma clean_enqueue: "clean (enqueue ob s) = clean s"
  by (auto simp: enqueue_def kickPump_def clean_def [of s] clean_def [of "_ \<lparr>uq_queued := _, uq_queuedBytes := _\<rparr>"])

lemma clean_batch: "clean s \<Longrightarrow> i < length (uq_batches s) \<Longrightarrow> ba_error (uq_batches s ! i) = None"
  by (simp add: clean_def)

text \<open>Rewriting a batch without touching what is unsettled keeps the names.\<close>

lemma heldNames_putBatch:
  assumes "i < length (uq_batches s)" and "ba_remaining b = ba_remaining (uq_batches s ! i)"
  shows "heldNames (putBatch i b s) = heldNames s"
  using namesLeft_update [OF assms(1), of b "{#}"] assms(2) by (simp add: heldNames_def)

lemma batch_event_accounts:
  assumes ok: "uploadsOk s" and pend: "pendingIn s e" and clean: "clean (uploadEvent s e)"
    and e: "e \<in> {Presigned i names, PresignFailed i err, PutOk i ob, PutFailed i ob err, BatchEnded i}"
  shows "clean s \<and> heldNames (uploadEvent s e) = heldNames s"
proof -
  let ?b = "uq_batches s ! i"
  have i: "i < length (uq_batches s)" using pend e by auto
  have b: "batchOk ?b" by (rule uploadsOkE [OF ok i])
  consider "e = Presigned i names" | "e = PresignFailed i err" | "e = PutOk i ob" | "e = PutFailed i ob err" | "e = BatchEnded i"
    using e by blast
  then show ?thesis
  proof cases
    case 1
    let ?missing = "filter (\<lambda>ob. po_name ob \<notin> set names) (ba_objects ?b)"
    let ?b' = "?b\<lparr>ba_presigning := False, ba_putting := filter (\<lambda>ob. po_name ob \<in> set names) (ba_objects ?b)\<rparr>"
    have "?missing = []"
      using clean not_clean_reject [OF i] by (auto simp: 1 presigned_def Let_def clean_settleAll split: list.splits)
    then have "uploadEvent s e = putBatch i ?b' s" by (simp add: 1 presigned_def Let_def)
    with clean clean_putBatch(2) [OF i, of ?b'] heldNames_putBatch [OF i, of ?b'] show ?thesis by simp
  next
    case 2
    with clean not_clean_reject [OF i] show ?thesis by (simp add: presignFailed_def)
  next
    case 3
    let ?b' = "?b\<lparr>ba_putting := filter (\<lambda>x. x \<noteq> ob) (ba_putting ?b)\<rparr>"
    let ?t = "settleObject i ob (donePutting i ob s)"
    have "clean ?t" using clean by (simp add: 3 putOk_def Let_def)
    then have "clean (donePutting i ob s)" using clean_settleAll [of i "[ob]"] by simp
    then have cs: "clean s" using clean_putBatch(2) [OF i, of ?b'] by (simp add: donePutting_def Let_def)
    have put: "ob \<in> set (ba_putting ?b)" using pend 3 by simp
    with b clean_batch [OF cs i] have "ba_remaining ?b = ba_putting ?b" "distinct (ba_putting ?b)"
      by (auto simp: batchOk_def split: if_splits)
    then have "mset (map po_name (ba_remaining ?b)) =
        mset (map po_name (filter (\<lambda>x. x \<noteq> ob) (ba_remaining ?b))) + {# po_name ob #}"
      using put by (intro mset_map_filter_neq) simp_all
    then have "namesLeft (uq_batches s) = namesLeft (uq_batches ?t) + {# po_name ob #}"
      unfolding settled_put(2) [OF ok i put] by (intro namesLeft_update [OF i]) simp
    with cs show ?thesis
      by (simp add: 3 putOk_def Let_def heldNames_def donePutting_def)
  next
    case 4
    let ?t = "settleObject i ob (donePutting i ob s)"
    have "i < length (uq_batches ?t)" using i by (simp add: donePutting_def Let_def)
    with clean not_clean_reject [of i ?t] 4 show ?thesis by (simp add: putFailed_def Let_def)
  next
    case 5
    let ?t = "fold (settleObject i) (ba_remaining ?b) s"
    let ?over = "putBatch i ((uq_batches ?t ! i)\<lparr>ba_over := True, ba_presigning := False\<rparr>) ?t"
    have t: "i < length (uq_batches ?t)" using i by simp
    have "clean ?over" using clean by (auto simp: 5 endBatch_def Let_def split: option.splits if_splits)
    then have "clean ?t" using clean_putBatch(2) [OF t] by simp
    then have cs: "clean s" by (simp add: clean_settleAll)
    have "ba_remaining ?b = []"
      using b pend clean_batch [OF cs i] by (auto simp: 5 batchOk_def split: if_splits)
    then have "uploadEvent s e = wake (putBatch i (?b\<lparr>ba_over := True, ba_presigning := False\<rparr>) s)"
      using clean_batch [OF cs i] by (simp add: 5 endBatch_def Let_def)
    with cs heldNames_putBatch [OF i, of "?b\<lparr>ba_over := True, ba_presigning := False\<rparr>"] show ?thesis by simp
  qed
qed

lemma event_accounts:
  assumes ok: "uploadsOk s" and pend: "pendingIn s e" and clean: "clean (uploadEvent s e)" and "e \<noteq> Restarted"
  shows "clean s \<and> heldNames (uploadEvent s e) = heldNames s + mset (finalizedNames [e])"
proof (cases e)
  case (Finalized name buffer)
  then have run: "uq_failure s = None"
    using clean by (cases "uq_failure s") (simp_all add: admit_def clean_def)
  obtain bytes where buffer: "buffer = Some bytes"
    using clean run Finalized by (cases buffer) (simp_all add: admit_def)
  have "heldNames (s\<lparr>uq_nextId := k\<rparr>) = heldNames s" for k by (simp add: heldNames_def)
  with clean run show ?thesis
    by (simp add: Finalized buffer admit_def clean_enqueue heldNames_enqueue)
next
  case AdmitResumed
  then obtain w where w: "find snd (uq_waiters s) = Some w"
    using pend find_None_iff [of snd "uq_waiters s"] by (metis not_None_eq pendingIn.simps(2))
  let ?t = "s\<lparr>uq_waiters := remove1 w (uq_waiters s)\<rparr>"
  have step: "uploadEvent s e = enqueue (fst w) ?t" by (simp add: AdmitResumed resumeAdmit_def w)
  then have cs: "clean s" using clean by (simp add: clean_enqueue)
  have "w \<in> set (uq_waiters s)" using w by (auto simp: find_Some_iff)
  then have "mset (map (po_name \<circ> fst) (uq_waiters s)) =
      mset (map (po_name \<circ> fst) (remove1 w (uq_waiters s))) + {# (po_name \<circ> fst) w #}"
    by (rule mset_map_remove1)
  then have "heldNames s = heldNames ?t + {# po_name (fst w) #}"
    by (simp add: heldNames_def del: mset_map mset_remove1)
  moreover have "uq_failure ?t = None" using cs by (simp add: clean_def)
  ultimately show ?thesis using cs heldNames_enqueue [of ?t "fst w"] unfolding step by (simp add: AdmitResumed)
next
  case PumpResumed
  with clean show ?thesis by simp
next
  case PumpEnded
  have "heldNames (s\<lparr>uq_pump := ph\<rparr>) = heldNames s" for ph by (simp add: heldNames_def)
  with clean PumpEnded show ?thesis by (auto simp: pumpFinally_def Let_def kickPump_def split: if_splits)
next
  case (Presigned i names)
  with batch_event_accounts [OF ok pend clean, of i names] show ?thesis by simp
next
  case (PresignFailed i err)
  with batch_event_accounts [OF ok pend clean, of i _ err] show ?thesis by simp
next
  case (PutOk i ob)
  with batch_event_accounts [OF ok pend clean, of i _ _ ob] show ?thesis by simp
next
  case (PutFailed i ob err)
  with batch_event_accounts [OF ok pend clean, of i _ err ob] show ?thesis by simp
next
  case (BatchEnded i)
  with batch_event_accounts [OF ok pend clean, of i] show ?thesis by simp
qed (use clean assms(4) in simp_all)

lemma runUploads_snoc: "runUploads (es @ [e]) = uploadStep (runUploads es) e"
  by (simp add: runUploads_def)

section \<open>Properties\<close>

text \<open>
  C2: whatever the muxer finalizes and however presigns, PUTs, restarts and
  failures interleave, the queue's counters are exact (the bytes queued, the
  bytes and slots of what is not settled yet), at most eight PUT slots are in
  use, and with objects of at most \<open>m\<close> bytes the memory held stays under the
  limit of 192 MiB plus one object.
\<close>

theorem uploads_counters_and_bound:
  assumes "\<forall>name bytes. Finalized name (Some bytes) \<in> set es \<longrightarrow> int bytes \<le> m" and "0 \<le> m"
  defines "s \<equiv> runUploads es"
  shows "uq_queuedBytes s = totalSize (uq_queued s)
    \<and> uq_activeSlots s = slotsOf (uq_batches s)
    \<and> uq_inflightBytes s = bytesOf (uq_batches s)
    \<and> uq_activeSlots s \<le> 8
    \<and> uq_queuedBytes s + uq_inflightBytes s < MAX_QUEUED_BYTES + m"
proof -
  have "boundedBy m (runUploads es)"
    using assms(1)
  proof (induction es rule: rev_induct)
    case Nil
    then show ?case using assms(2) by (simp add: boundedBy_def load_def runUploads_def emptyUploads_def MAX_QUEUED_BYTES_def)
  next
    case (snoc e es)
    then show ?case unfolding runUploads_snoc by (intro step_bounded) (auto intro: uploadsOk_run)
  qed
  then show ?thesis
    using uploadsOk_run [of es]
    by (simp add: uploadsOk_def counters_def boundedBy_def load_def s_def PUT_CONCURRENCY_def)
qed

theorem uploads_counters_and_bound_witness:
  "let s = runUploads [Finalized ''cs_1_1.m4s'' (Some 900), Finalized ''cs_2_1.m4s'' (Some 100)]
   in uq_queuedBytes s + uq_inflightBytes s < MAX_QUEUED_BYTES + 900 \<and> uq_activeSlots s \<le> 8"
proof -
  let ?es = "[Finalized ''cs_1_1.m4s'' (Some 900), Finalized ''cs_2_1.m4s'' (Some 100)]"
  have small: "\<forall>name bytes. Finalized name (Some bytes) \<in> set ?es \<longrightarrow> int bytes \<le> 900" by auto
  have "(0 :: int) \<le> 900" by simp
  from uploads_counters_and_bound [OF small this] show ?thesis by (simp add: Let_def)
qed

text \<open>
  C3: no wakeup is lost. While the run has not failed and something waits to
  be admitted, is queued or is in flight, some promise or woken continuation of
  the queue is still under way.
\<close>

theorem uploads_never_stuck:
  assumes "uq_failure (runUploads es) = None"
    and "uq_queued (runUploads es) \<noteq> [] \<or> uq_waiters (runUploads es) \<noteq> [] \<or> 0 < uq_activeSlots (runUploads es)"
  shows "\<exists>e. ownEvent e \<and> pendingIn (runUploads es) e"
  using pending_when_work_left [OF uploadsOk_run] assms by (simp add: workLeft_def)

theorem uploads_never_stuck_witness:
  "\<exists>e. ownEvent e \<and> pendingIn (runUploads [Finalized ''cs_1_1.m4s'' (Some 900)]) e"
proof -
  have run: "runUploads [Finalized ''cs_1_1.m4s'' (Some 900)] =
      pumpLoop (emptyUploads\<lparr>uq_nextId := 1, uq_queued := [\<lparr>po_id = 0, po_name = ''cs_1_1.m4s'', po_size = 900\<rparr>],
        uq_queuedBytes := 900\<rparr>)"
    by (simp add: runUploads_def uploadStep_def admit_def enqueue_def emptyUploads_def hasRoom_def
        MAX_QUEUED_BYTES_def kickPump_def)
  have "uq_failure (runUploads [Finalized ''cs_1_1.m4s'' (Some 900)]) = None"
    unfolding run by (simp add: emptyUploads_def)
  moreover have "0 < uq_activeSlots (runUploads [Finalized ''cs_1_1.m4s'' (Some 900)])"
    unfolding run
    by (simp add: pumpLoop.simps emptyUploads_def takeBatch_def Let_def PUT_CONCURRENCY_def PRESIGN_BATCH_def)
  ultimately show ?thesis by (intro uploads_never_stuck) auto
qed

text \<open>
  the queue drains. From any state it can reach there is no endless run of
  its own events: once the muxer stops, finitely many settled promises and
  continuations leave nothing pending.
\<close>

theorem uploads_drain:
  "wf {(uploadStep (runUploads es) e, runUploads es) | es e. ownEvent e \<and> pendingIn (runUploads es) e}"
  by (rule wf_subset [OF wf_progress]) (auto intro: own_event_progress uploadsOk_run)

text \<open>
  C4: in a run without a restart, a failure or a rejected batch, every object
  the muxer finalized is accounted for exactly once: asleep waiting for room,
  queued, in flight, or uploaded.
\<close>

theorem uploads_lose_nothing:
  assumes "Restarted \<notin> set es" and "uq_failure (runUploads es) = None"
    and "\<forall>b \<in> set (uq_batches (runUploads es)). ba_error b = None"
  shows "heldNames (runUploads es) = mset (finalizedNames es)"
proof -
  have "clean (runUploads es) \<Longrightarrow> Restarted \<notin> set es \<Longrightarrow> heldNames (runUploads es) = mset (finalizedNames es)"
  proof (induction es rule: rev_induct)
    case Nil
    show ?case by (simp add: runUploads_def emptyUploads_def heldNames_def)
  next
    case (snoc e es)
    show ?case
    proof (cases "pendingIn (runUploads es) e")
      case True
      with snoc.prems have "clean (uploadEvent (runUploads es) e)" "e \<noteq> Restarted"
        by (auto simp: runUploads_snoc uploadStep_def)
      from event_accounts [OF uploadsOk_run True this] snoc True show ?thesis
        by (simp add: runUploads_snoc uploadStep_def finalizedNames_append)
    next
      case False
      then have "finalizedNames [e] = []" by (cases "(runUploads es, e)" rule: pendingIn.cases) auto
      with False snoc show ?thesis by (simp add: runUploads_snoc uploadStep_def finalizedNames_append)
    qed
  qed
  with assms show ?thesis by (simp add: clean_def)
qed

theorem uploads_lose_nothing_witness:
  "heldNames (runUploads [Finalized ''cs_1_1.m4s'' (Some 900)]) = {# ''cs_1_1.m4s'' #}"
proof -
  have run: "runUploads [Finalized ''cs_1_1.m4s'' (Some 900)] =
      pumpLoop (emptyUploads\<lparr>uq_nextId := 1, uq_queued := [\<lparr>po_id = 0, po_name = ''cs_1_1.m4s'', po_size = 900\<rparr>],
        uq_queuedBytes := 900\<rparr>)"
    by (simp add: runUploads_def uploadStep_def admit_def enqueue_def emptyUploads_def hasRoom_def
        MAX_QUEUED_BYTES_def kickPump_def)
  have "clean (runUploads [Finalized ''cs_1_1.m4s'' (Some 900)])"
    unfolding run clean_pumpLoop by (simp add: clean_def emptyUploads_def)
  then have "uq_failure (runUploads [Finalized ''cs_1_1.m4s'' (Some 900)]) = None"
    "\<forall>b \<in> set (uq_batches (runUploads [Finalized ''cs_1_1.m4s'' (Some 900)])). ba_error b = None"
    by (simp_all add: clean_def)
  from uploads_lose_nothing [OF _ this] show ?thesis by simp
qed

end
