(* ===== verification/UploadNames.thy ===== *)
theory UploadNames
  imports UploadQueue
begin

text \<open>
  The names the upload queue keeps as in flight (\<open>inflightNames\<close> of
  \<open>web/src/pipeline/clientMedia.ts\<close>) are those of the objects that are not
  settled, as long as no name is finalized again while it is still unsettled.
  \<open>publish\<close> decides by them whether a region's playlist may be ended.
\<close>

definition unsettled :: "uploads \<Rightarrow> string multiset" where
  "unsettled s = mset (map po_name (map fst (uq_waiters s))) + mset (map po_name (uq_queued s))
     + namesLeft (uq_batches s)"

definition onceEach :: "'a multiset \<Rightarrow> bool" where
  "onceEach M \<longleftrightarrow> (\<forall>x. count M x \<le> 1)"

lemma onceEach_mono: "onceEach M \<Longrightarrow> N \<subseteq># M \<Longrightarrow> onceEach N"
  unfolding onceEach_def by (meson le_trans mset_subset_eq_count)

lemma onceEach_add [simp]: "onceEach (add_mset x M) \<longleftrightarrow> x \<notin># M \<and> onceEach M"
proof
  assume once: "onceEach (add_mset x M)"
  then have "count (add_mset x M) x \<le> 1" by (simp only: onceEach_def)
  moreover have "onceEach M" using once by (rule onceEach_mono) simp
  ultimately show "x \<notin># M \<and> onceEach M" by (simp add: not_in_iff)
next
  assume "x \<notin># M \<and> onceEach M"
  then show "onceEach (add_mset x M)" by (simp add: onceEach_def not_in_iff)
qed

definition namesExact :: "uploads \<Rightarrow> bool" where
  "namesExact s \<longleftrightarrow> onceEach (unsettled s) \<and> set (uq_inflightNames s) = set_mset (namesLeft (uq_batches s))"

fun freshName :: "uploads \<Rightarrow> upload_event \<Rightarrow> bool" where
  "freshName s (Finalized name _) = (name \<notin># unsettled s)"
| "freshName s _ = True"

section \<open>The primitives\<close>

lemma namesExact_sub:
  assumes "namesExact s" and "unsettled t \<subseteq># unsettled s"
    and "set (uq_inflightNames t) = set_mset (namesLeft (uq_batches t))"
  shows "namesExact t"
  using assms onceEach_mono unfolding namesExact_def by blast

lemma set_foldl_addTo: "set (foldl addTo xs ys) = set xs \<union> set ys"
  by (induction ys arbitrary: xs) auto

lemma unsettled_wake [simp]: "unsettled (wake s) = unsettled s"
  unfolding unsettled_def waiters_wake by simp

lemma namesExact_wake [simp]: "namesExact (wake s) = namesExact s"
  by (simp add: namesExact_def)

lemma unsettled_fields [simp]:
  "unsettled (s\<lparr>uq_pump := ph\<rparr>) = unsettled s" "unsettled (s\<lparr>uq_nextId := k\<rparr>) = unsettled s"
  "unsettled (s\<lparr>uq_uploaded := u, uq_uploadedBytes := v\<rparr>) = unsettled s"
  "unsettled (s\<lparr>uq_uploaded := u\<rparr>) = unsettled s"
  "unsettled (s\<lparr>uq_failure := f\<rparr>) = unsettled s"
  by (simp_all add: unsettled_def)

lemma namesExact_fields [simp]:
  "namesExact (s\<lparr>uq_pump := ph\<rparr>) = namesExact s" "namesExact (s\<lparr>uq_nextId := k\<rparr>) = namesExact s"
  "namesExact (s\<lparr>uq_uploaded := u, uq_uploadedBytes := v\<rparr>) = namesExact s"
  "namesExact (s\<lparr>uq_uploaded := u\<rparr>) = namesExact s"
  "namesExact (failUpload err s) = namesExact s"
  by (simp_all add: namesExact_def failUpload_def)

lemma held_unsettled: "heldNames s = unsettled s + mset (uq_uploaded s)"
  by (simp add: heldNames_def unsettled_def)

lemma takeBatch_unsettled [simp]: "unsettled (takeBatch c s) = unsettled s"
proof -
  have "mset (map po_name (take c (uq_queued s))) + mset (map po_name (drop c (uq_queued s))) = mset (map po_name (uq_queued s))"
    by (metis append_take_drop_id map_append mset_append)
  then show ?thesis by (simp add: unsettled_def startBatch_def ac_simps)
qed

lemma pumpLoop_names: "namesExact s \<Longrightarrow> namesExact (pumpLoop s) \<and> unsettled (pumpLoop s) = unsettled s"
proof (rule pumpLoop_rule [where P = "\<lambda>t. namesExact t \<and> unsettled t = unsettled s"])
  fix t c assume t: "namesExact t \<and> unsettled t = unsettled s"
  have "set (uq_inflightNames (takeBatch c t)) = set (uq_inflightNames t) \<union> po_name ` set (take c (uq_queued t))"
    by (simp add: takeBatch_def Let_def set_foldl_addTo)
  moreover have "set_mset (namesLeft (uq_batches (takeBatch c t))) =
      set_mset (namesLeft (uq_batches t)) \<union> po_name ` set (take c (uq_queued t))"
    by (simp add: startBatch_def)
  ultimately show "namesExact (takeBatch c t) \<and> unsettled (takeBatch c t) = unsettled s"
    using t by (auto simp: namesExact_def)
qed simp_all

lemma putBatch_names:
  assumes "i < length (uq_batches s)" and "ba_remaining b = ba_remaining (uq_batches s ! i)"
  shows "unsettled (putBatch i b s) = unsettled s" and "namesExact (putBatch i b s) = namesExact s"
proof -
  have "namesLeft ((uq_batches s)[i := b]) = namesLeft (uq_batches s)"
    using namesLeft_update [OF assms(1), of b "{#}"] assms(2) by simp
  then show "unsettled (putBatch i b s) = unsettled s" "namesExact (putBatch i b s) = namesExact s"
    by (simp_all add: unsettled_def namesExact_def)
qed

lemma settle_names:
  assumes "namesExact s" and "i < length (uq_batches s)" and "distinct (ba_remaining (uq_batches s ! i))"
  shows "namesExact (settleObject i ob s) \<and> unsettled (settleObject i ob s) \<subseteq># unsettled s"
proof (cases "ob \<in> set (ba_remaining (uq_batches s ! i))")
  case True
  let ?b = "(uq_batches s ! i)\<lparr>ba_remaining := filter (\<lambda>x. x \<noteq> ob) (ba_remaining (uq_batches s ! i))\<rparr>"
  let ?bs = "(uq_batches s)[i := ?b]"
  have left: "namesLeft (uq_batches s) = namesLeft ?bs + {# po_name ob #}"
    using mset_map_filter_neq [OF assms(3) True, of po_name] by (intro namesLeft_update [OF assms(2)]) simp
  have "onceEach (namesLeft (uq_batches s))"
    using assms(1) by (auto simp: namesExact_def unsettled_def intro: onceEach_mono)
  then have "po_name ob \<notin># namesLeft ?bs" unfolding left by simp
  then have "set (uq_inflightNames (settleObject i ob s)) = set_mset (namesLeft ?bs)"
    using True assms(1) left by (auto simp: settleObject_def Let_def namesExact_def)
  moreover have "unsettled (settleObject i ob s) \<subseteq># unsettled s"
    using left settle_batches [OF assms(2), of ob] settle_fields(1,9) [of i ob s]
    unfolding unsettled_def by (simp del: settle_fields(9) map_map)
  ultimately show ?thesis
    using namesExact_sub [OF assms(1)] settle_batches [OF assms(2), of ob] by simp
qed (use assms(1) in \<open>simp add: settleObject_def\<close>)

lemma settleAll_names:
  assumes "namesExact s" and "i < length (uq_batches s)" and "distinct (ba_remaining (uq_batches s ! i))"
  shows "namesExact (fold (settleObject i) obs s) \<and> unsettled (fold (settleObject i) obs s) \<subseteq># unsettled s"
  using assms
proof (induction obs arbitrary: s)
  case (Cons ob obs)
  let ?t = "settleObject i ob s"
  have t: "namesExact ?t" "unsettled ?t \<subseteq># unsettled s" using settle_names [OF Cons.prems] by auto
  moreover have "i < length (uq_batches ?t)" "distinct (ba_remaining (uq_batches ?t ! i))"
    using Cons.prems by (simp_all add: settle_batches)
  ultimately show ?case using Cons.IH [of ?t] by (auto intro: subset_mset.order_trans)
qed simp

lemma enqueue_names:
  assumes "namesExact s" and "po_name ob \<notin># unsettled s"
  shows "namesExact (enqueue ob s) \<and> unsettled (enqueue ob s) \<subseteq># add_mset (po_name ob) (unsettled s)"
proof -
  let ?q = "s\<lparr>uq_queued := uq_queued s @ [ob], uq_queuedBytes := uq_queuedBytes s + int (po_size ob)\<rparr>"
  let ?w = "s\<lparr>uq_waiters := uq_waiters s @ [(ob, False)]\<rparr>"
  have "unsettled ?q = add_mset (po_name ob) (unsettled s)" "unsettled ?w = add_mset (po_name ob) (unsettled s)"
    by (simp_all add: unsettled_def)
  moreover from this have "namesExact ?q" "namesExact ?w" using assms by (simp_all add: namesExact_def)
  ultimately show ?thesis
    using assms(1) pumpLoop_names [of ?q] by (auto simp: enqueue_def kickPump_def)
qed

section \<open>Every event\<close>

lemma namesExact_event:
  assumes ok: "uploadsOk s" and names: "namesExact s" and pend: "pendingIn s e" and fresh: "freshName s e"
  shows "namesExact (uploadEvent s e)"
proof -
  have put: "namesExact (settleObject i ob (donePutting i ob s)) \<and> i < length (uq_batches (settleObject i ob (donePutting i ob s)))"
    if "i < length (uq_batches s)" for i ob
  proof -
    have "namesExact (donePutting i ob s)"
      unfolding donePutting_def Let_def using that names by (subst putBatch_names) simp_all
    moreover have "distinct (ba_remaining (uq_batches (donePutting i ob s) ! i))"
      using uploadsOkE(5) [OF ok that] that by (simp add: donePutting_def Let_def batchOk_def)
    ultimately show ?thesis using settle_names [of "donePutting i ob s" i ob] that
      by (simp add: donePutting_def Let_def)
  qed
  show ?thesis
  proof (cases e)
    case (Finalized name buffer)
    then show ?thesis
      using names fresh
      by (auto simp: admit_def intro!: enqueue_names [THEN conjunct1] split: option.split)
  next
    case AdmitResumed
    show ?thesis
    proof (cases "find snd (uq_waiters s)")
      case (Some w)
      let ?t = "s\<lparr>uq_waiters := remove1 w (uq_waiters s)\<rparr>"
      have "w \<in> set (uq_waiters s)" using Some by (auto simp: find_Some_iff)
      then have "mset (map (po_name \<circ> fst) (uq_waiters s)) =
          mset (map (po_name \<circ> fst) (remove1 w (uq_waiters s))) + {# (po_name \<circ> fst) w #}"
        by (rule mset_map_remove1)
      then have split: "unsettled s = add_mset (po_name (fst w)) (unsettled ?t)"
        by (simp add: unsettled_def del: mset_map mset_remove1)
      then have "onceEach (add_mset (po_name (fst w)) (unsettled ?t))"
        using names by (simp add: namesExact_def)
      then have "po_name (fst w) \<notin># unsettled ?t" "namesExact ?t"
        using names by (simp_all add: namesExact_def)
      then show ?thesis using enqueue_names [of ?t "fst w"] by (simp add: AdmitResumed resumeAdmit_def Some)
    qed (use names AdmitResumed in \<open>simp add: resumeAdmit_def\<close>)
  next
    case PumpResumed
    then show ?thesis using pumpLoop_names [OF names] by simp
  next
    case PumpEnded
    have "namesExact (pumpLoop (s\<lparr>uq_pump := PumpIdle\<rparr>))" using pumpLoop_names [of "s\<lparr>uq_pump := PumpIdle\<rparr>"] names by simp
    with PumpEnded names show ?thesis by (simp add: pumpFinally_def Let_def kickPump_def)
  next
    case (Presigned i ns)
    let ?b = "uq_batches s ! i"
    let ?missing = "filter (\<lambda>ob. po_name ob \<notin> set ns) (ba_objects ?b)"
    have i: "i < length (uq_batches s)" using pend Presigned by simp
    obtain b where b: "presigned i ns s = fold (settleObject i) ?missing (putBatch i b s)" "ba_remaining b = ba_remaining ?b"
      by (rule that [of "case ?missing of [] \<Rightarrow> ?b\<lparr>ba_presigning := False, ba_putting := filter (\<lambda>ob. po_name ob \<in> set ns) (ba_objects ?b)\<rparr>
          | ob # _ \<Rightarrow> rejectBatch (''presign missing '' @ po_name ob)
              (?b\<lparr>ba_presigning := False, ba_putting := filter (\<lambda>ob. po_name ob \<in> set ns) (ba_objects ?b)\<rparr>)"])
         (simp_all add: presigned_def Let_def rejectBatch_def split: list.split)
    have "namesExact (putBatch i b s)" using putBatch_names(2) [of i s b] i b(2) names by simp
    moreover have "distinct (ba_remaining (uq_batches (putBatch i b s) ! i))"
      using uploadsOkE(5) [OF ok i] i b(2) by (simp add: batchOk_def)
    ultimately show ?thesis using settleAll_names [of "putBatch i b s" i ?missing] i b(1) by (simp add: Presigned)
  next
    case (PresignFailed i err)
    with pend names show ?thesis by (simp add: presignFailed_def putBatch_names rejectBatch_def)
  next
    case (PutOk i ob)
    with put [of i ob] pend show ?thesis by (simp add: putOk_def Let_def)
  next
    case (PutFailed i ob err)
    with put [of i ob] pend show ?thesis by (simp add: putFailed_def Let_def putBatch_names rejectBatch_def)
  next
    case (BatchEnded i)
    let ?b = "uq_batches s ! i"
    let ?t = "fold (settleObject i) (ba_remaining ?b) s"
    have i: "i < length (uq_batches s)" using pend BatchEnded by simp
    have "namesExact ?t" using settleAll_names [OF names i] uploadsOkE(5) [OF ok i] by (simp add: batchOk_def)
    then have "namesExact (putBatch i ((uq_batches ?t ! i)\<lparr>ba_over := True, ba_presigning := False\<rparr>) ?t)"
      using i by (simp add: putBatch_names)
    then show ?thesis by (simp add: BatchEnded endBatch_def Let_def split: option.split)
  next
    case Restarted
    let ?bs = "map (\<lambda>b. if ba_over b then b else b\<lparr>ba_aborted := True\<rparr>) (uq_batches s)"
    have same: "namesLeft ?bs = namesLeft (uq_batches s)"
      unfolding namesLeft_def map_map by (rule arg_cong [where f = sum_list], rule map_cong) auto
    have "unsettled (dropQueued s) \<subseteq># unsettled s"
      by (simp add: dropQueued_def) (simp add: unsettled_def same)
    moreover have "set (uq_inflightNames (dropQueued s)) = set_mset (namesLeft (uq_batches (dropQueued s)))"
      using names by (simp add: dropQueued_def same namesExact_def)
    ultimately show ?thesis using namesExact_sub [OF names] Restarted by simp
  qed (use names in simp_all)
qed

text \<open>What \<open>publish\<close> asks: nothing of a set of names is uploaded, queued or in flight by name.\<close>

lemma namesExact_unsettled:
  assumes "namesExact s" and "name \<notin> set (uq_inflightNames s)" and "name \<notin> po_name ` set (uq_queued s)"
    and "name \<in># unsettled s"
  shows "name \<in> po_name ` fst ` set (uq_waiters s)"
  using assms by (auto simp: namesExact_def unsettled_def)

end
