(* ===== verification/RegionPlan.thy ===== *)
theory RegionPlan
  imports SegmentLedger Playback
begin

text \<open>
  The regions of a run of the client media pipeline
  (\<open>web/src/pipeline/clientMedia.ts\<close>): how much of the timeline each one
  produced (\<open>regionSpanMs\<close>, \<open>regionMap\<close>), whether the whole timeline is
  covered (\<open>timelineCovered\<close>), which gap to fill next (\<open>nextGap\<close>) and whether
  a position needs a cold restart (\<open>uncovered\<close>).

  Milliseconds are \<open>int\<close>; \<open>durationMs\<close> is \<open>Math.round(durationSeconds * 1000)\<close>
  and the end of a fill, in seconds, is \<open>rat\<close>.
\<close>

section \<open>Regions\<close>

definition SEGMENT_SECONDS :: int where "SEGMENT_SECONDS = 4"

definition COLD_AHEAD_MS :: int where "COLD_AHEAD_MS = 30000"

definition COLD_BEHIND_MS :: int where "COLD_BEHIND_MS = 1000"

record region_record =
  rr_n :: nat
  rr_startMs :: int
  rr_growing :: bool
  rr_ranToEnd :: bool

definition regionSpanMs :: "int \<Rightarrow> ledger \<Rightarrow> region_record \<Rightarrow> int" where
  "regionSpanMs durationMs l r =
     (let done = coveredMs l (rr_n r) (SEGMENT_SECONDS * 1000)
      in if rr_ranToEnd r \<and> settled l (rr_n r) then max done (durationMs - rr_startMs r) else done)"

definition regionMap :: "int \<Rightarrow> ledger \<Rightarrow> region_record list \<Rightarrow> media_region list" where
  "regionMap durationMs l regions =
     map (\<lambda>r. \<lparr>mr_n = rr_n r, mr_startMs = rr_startMs r,
               mr_producedMs = regionSpanMs durationMs l r, mr_growing = rr_growing r\<rparr>) regions"

definition spansOf :: "media_region list \<Rightarrow> (int \<times> int) list" where
  "spansOf regions = sort_key fst (map (\<lambda>r. (mr_startMs r, mr_startMs r + mr_producedMs r)) regions)"

text \<open>The loop of \<open>timelineCovered\<close>: how far the spans reach without a hole, \<open>None\<close> at the first one.\<close>

fun coverLoop :: "int \<Rightarrow> (int \<times> int) list \<Rightarrow> int option" where
  "coverLoop reach [] = Some reach"
| "coverLoop reach ((start, end) # spans) =
     (if reach + COLD_BEHIND_MS < start then None else coverLoop (max reach end) spans)"

definition timelineCovered :: "int \<Rightarrow> ledger \<Rightarrow> region_record list \<Rightarrow> bool" where
  "timelineCovered durationMs l regions =
     (case coverLoop 0 (spansOf (regionMap durationMs l regions)) of
        None \<Rightarrow> False
      | Some reach \<Rightarrow> durationMs - SEGMENT_SECONDS * 1000 \<le> reach)"

fun gapLoop :: "int \<Rightarrow> (int \<times> int) list \<Rightarrow> (int \<times> int) list \<times> int" where
  "gapLoop reach [] = ([], reach)"
| "gapLoop reach ((start, end) # spans) =
     (let (gaps, last) = gapLoop (max reach end) spans
      in (if reach + COLD_BEHIND_MS < start then (reach, start) # gaps else gaps, last))"

definition gapsOf :: "int \<Rightarrow> ledger \<Rightarrow> region_record list \<Rightarrow> (int \<times> int) list" where
  "gapsOf durationMs l regions =
     (let (gaps, reach) = gapLoop 0 (spansOf (regionMap durationMs l regions))
      in if reach < durationMs - SEGMENT_SECONDS * 1000 then gaps @ [(reach, durationMs)] else gaps)"

definition nextGap :: "int \<Rightarrow> ledger \<Rightarrow> region_record list \<Rightarrow> int option \<Rightarrow> (int \<times> int) option" where
  "nextGap durationMs l regions wanted =
     (let gaps = gapsOf durationMs l regions;
          behind = (case wanted of None \<Rightarrow> [] | Some w \<Rightarrow> filter (\<lambda>g. fst g \<le> w) gaps)
      in if gaps = [] then None
         else if behind \<noteq> [] then Some (last behind) else Some (hd gaps))"

text \<open>How far ahead of its start a region is counted on: a growing one up to 30 s past what it wrote or aims at.\<close>

definition forwardEdge :: "int \<Rightarrow> rat option \<Rightarrow> media_region \<Rightarrow> rat" where
  "forwardEdge aimMs fillEndSeconds r =
     (let end = mr_startMs r + mr_producedMs r;
          ahead = of_int (max end aimMs + COLD_AHEAD_MS)
      in if \<not> mr_growing r then of_int end
         else (case fillEndSeconds of None \<Rightarrow> ahead | Some e \<Rightarrow> min ahead (e * 1000)))"

definition uncovered :: "int \<Rightarrow> rat option \<Rightarrow> media_region list \<Rightarrow> int \<Rightarrow> bool" where
  "uncovered aimMs fillEndSeconds regions absoluteMs =
     list_all (\<lambda>r. \<not> (mr_startMs r - COLD_BEHIND_MS \<le> absoluteMs
                    \<and> of_int absoluteMs \<le> forwardEdge aimMs fillEndSeconds r)) regions"

section \<open>Lemmas\<close>

lemma coverLoop_gapLoop:
  "coverLoop reach spans = (if fst (gapLoop reach spans) = [] then Some (snd (gapLoop reach spans)) else None)"
  by (induction reach spans rule: coverLoop.induct) (auto simp: case_prod_unfold Let_def)

lemma gapLoop_from: "reach \<le> snd (gapLoop reach spans)"
  by (induction reach spans rule: gapLoop.induct) (auto simp: case_prod_unfold Let_def)

lemma gapLoop_ends: "sp \<in> set spans \<Longrightarrow> snd sp \<le> snd (gapLoop reach spans)"
proof (induction reach spans rule: gapLoop.induct)
  case (2 reach s e spans)
  then show ?case using gapLoop_from [of "max reach e" spans] by (auto simp: case_prod_unfold Let_def)
qed simp

text \<open>A hole starts past the reach, is more than a second wide, and no span reaches into it.\<close>

lemma gapLoop_gap:
  assumes "sorted (map fst spans)" and "(a, b) \<in> set (fst (gapLoop reach spans))"
  shows "reach \<le> a \<and> a + COLD_BEHIND_MS < b \<and> (\<forall>(start, end) \<in> set spans. end \<le> a \<or> b \<le> start)"
  using assms
proof (induction reach spans rule: gapLoop.induct)
  case (2 reach s e spans)
  show ?case
  proof (cases "reach + COLD_BEHIND_MS < s \<and> (a, b) = (reach, s)")
    case True
    with 2(2) show ?thesis by auto
  next
    case False
    with 2(3) have "(a, b) \<in> set (fst (gapLoop (max reach e) spans))"
      by (auto simp: case_prod_unfold Let_def split: if_splits)
    with 2(1,2) show ?thesis by auto
  qed
qed simp

lemma gapLoop_sorted:
  assumes "sorted (map fst spans)"
  shows "sorted (map fst (fst (gapLoop reach spans)))"
  using assms
proof (induction reach spans rule: gapLoop.induct)
  case (2 reach s e spans)
  have "reach \<le> fst g" if "g \<in> set (fst (gapLoop (max reach e) spans))" for g
    using gapLoop_gap [of spans "fst g" "snd g" "max reach e"] 2(2) that by auto
  with 2 show ?case by (auto simp: case_prod_unfold Let_def)
qed simp

lemma coverLoop_covers:
  assumes "coverLoop reach spans = Some far" and "reach \<le> t" and "t \<le> far" and "reach < far"
  shows "\<exists>(start, end) \<in> set spans. start - COLD_BEHIND_MS \<le> t \<and> t \<le> end"
  using assms
proof (induction reach spans rule: coverLoop.induct)
  case (2 reach s e spans)
  then have near: "s \<le> reach + COLD_BEHIND_MS" and rest: "coverLoop (max reach e) spans = Some far"
    by (simp_all split: if_splits)
  show ?case
  proof (cases "reach < e \<and> t \<le> e")
    case True
    with near 2(3) show ?thesis by auto
  next
    case False
    then have "\<exists>(start, end) \<in> set spans. start - COLD_BEHIND_MS \<le> t \<and> t \<le> end"
      using 2(3-5) near rest by (intro 2(1)) auto
    then show ?thesis by auto
  qed
qed simp

lemma sorted_spansOf [simp]: "sorted (map fst (spansOf regions))"
  by (simp add: spansOf_def)

lemma set_spansOf [simp]: "set (spansOf regions) = (\<lambda>r. (mr_startMs r, mr_startMs r + mr_producedMs r)) ` set regions"
  by (simp add: spansOf_def)

lemma gapsOf_empty: "gapsOf durationMs l regions = [] \<longleftrightarrow> timelineCovered durationMs l regions"
  by (auto simp: gapsOf_def timelineCovered_def coverLoop_gapLoop case_prod_unfold Let_def)

text \<open>What every gap is: inside the timeline, not produced by any region.\<close>

lemma gapsOf_gap:
  assumes "(a, b) \<in> set (gapsOf durationMs l regions)"
  shows "0 \<le> a \<and> a < b \<and> (b \<noteq> durationMs \<longrightarrow> a + COLD_BEHIND_MS < b)
    \<and> (\<forall>r \<in> set (regionMap durationMs l regions). mr_startMs r + mr_producedMs r \<le> a \<or> b \<le> mr_startMs r)"
proof -
  let ?spans = "spansOf (regionMap durationMs l regions)"
  consider "(a, b) \<in> set (fst (gapLoop 0 ?spans))"
    | "a = snd (gapLoop 0 ?spans)" "b = durationMs" "a < durationMs - SEGMENT_SECONDS * 1000"
    using assms by (auto simp: gapsOf_def case_prod_unfold Let_def split: if_splits)
  then show ?thesis
  proof cases
    case 1
    from gapLoop_gap [OF sorted_spansOf 1] show ?thesis by (auto simp: COLD_BEHIND_MS_def)
  next
    case 2
    then show ?thesis
      using gapLoop_from [of 0 ?spans] gapLoop_ends [of _ ?spans 0]
      by (fastforce simp: SEGMENT_SECONDS_def)
  qed
qed

lemma gapsOf_sorted: "sorted (map fst (gapsOf durationMs l regions))"
proof -
  let ?spans = "spansOf (regionMap durationMs l regions)"
  have "fst g \<le> snd (gapLoop 0 ?spans)" if "g \<in> set (fst (gapLoop 0 ?spans))" for g
  proof -
    have g: "(fst g, snd g) \<in> set (fst (gapLoop 0 ?spans))" using that by simp
    have "fst g \<le> snd (gapLoop reach spans)" if "(fst g, snd g) \<in> set (fst (gapLoop reach spans))" for reach spans
      using that
    proof (induction reach spans rule: gapLoop.induct)
      case (2 reach s e spans)
      then show ?case
        using gapLoop_from [of "max reach e" spans]
        by (auto simp: case_prod_unfold Let_def split: if_splits)
    qed simp
    then show ?thesis using g .
  qed
  then show ?thesis
    using gapLoop_sorted [OF sorted_spansOf, of 0 "regionMap durationMs l regions"]
    by (auto simp: gapsOf_def case_prod_unfold Let_def sorted_append)
qed

lemma sorted_last: "sorted xs \<Longrightarrow> x \<in> set xs \<Longrightarrow> x \<le> last xs"
  by (induction xs) (auto split: if_splits)

text \<open>A run that produced its first eight seconds and, after a seek, eight more from 0:40 of a minute.\<close>

definition sampleLedger :: ledger where
  "sampleLedger = runLedger
     [Emitted (segmentPath 0 1 1), Emitted (segmentPath 0 1 2), Emitted (segmentPath 1 1 1), Emitted (segmentPath 1 1 2),
      Durations 0 1 [4, 4], Durations 1 1 [4, 4],
      Confirmed [segmentPath 0 1 1, segmentPath 1 1 2, segmentPath 1 1 1, segmentPath 0 1 2]]"

definition sampleRegions :: "region_record list" where
  "sampleRegions =
     [\<lparr>rr_n = 0, rr_startMs = 0, rr_growing = False, rr_ranToEnd = False\<rparr>,
      \<lparr>rr_n = 1, rr_startMs = 40000, rr_growing = False, rr_ranToEnd = True\<rparr>]"

lemma sample_covered:
  "coveredMs sampleLedger 0 4000 = 8000" "coveredMs sampleLedger 1 4000 = 8000" "settled sampleLedger 1"
  by (simp_all add: sampleLedger_def coveredMs_def runMs_def contiguousIn_def settled_def runLedger_def
      noteEmitted_def noteConfirmed_def noteConfirmedOne_def noteDurations_def bump_def countOf_def
      emptyRegion_def Let_def landedIn_def segmentMs_def runFrom.simps upt_conv_Cons)

lemma sample_regionMap:
  "regionMap 60000 sampleLedger sampleRegions =
     [\<lparr>mr_n = 0, mr_startMs = 0, mr_producedMs = 8000, mr_growing = False\<rparr>,
      \<lparr>mr_n = 1, mr_startMs = 40000, mr_producedMs = 20000, mr_growing = False\<rparr>]"
  using sample_covered by (simp add: regionMap_def sampleRegions_def regionSpanMs_def SEGMENT_SECONDS_def)

section \<open>Properties\<close>

text \<open>
  C7: when the host finds a timeline of more than four seconds covered, every
  position of it up to four seconds (one segment) before the end is in a region as the viewers' player decides it
  (\<open>regionHolds\<close>), so no seek inside it waits for a restart.
\<close>

theorem covered_timeline_is_held:
  assumes "timelineCovered durationMs l regions"
    and "0 \<le> ms" and "ms \<le> durationMs - SEGMENT_SECONDS * 1000" and "0 < durationMs - SEGMENT_SECONDS * 1000"
  shows "\<exists>r \<in> set (regionMap durationMs l regions). regionHolds r ms"
proof -
  obtain far where far: "coverLoop 0 (spansOf (regionMap durationMs l regions)) = Some far"
      "durationMs - SEGMENT_SECONDS * 1000 \<le> far"
    using assms(1) by (auto simp: timelineCovered_def split: option.splits)
  have "\<exists>(start, end) \<in> set (spansOf (regionMap durationMs l regions)). start - COLD_BEHIND_MS \<le> ms \<and> ms \<le> end"
    using far assms(2-4) by (intro coverLoop_covers [OF far(1)]) auto
  then obtain r where "r \<in> set (regionMap durationMs l regions)"
      "mr_startMs r - COLD_BEHIND_MS \<le> ms" "ms \<le> mr_startMs r + mr_producedMs r"
    by auto
  then show ?thesis
    by (intro bexI [of _ r]) (auto simp: regionHolds_def Let_def COLD_BEHIND_MS_def REGION_BEHIND_MS_def REGION_AHEAD_MS_def)
qed

theorem covered_timeline_is_held_witness:
  "\<exists>r \<in> set (regionMap 12000 sampleLedger [hd sampleRegions]). regionHolds r 7000"
proof (rule covered_timeline_is_held)
  have "regionMap 12000 sampleLedger [hd sampleRegions] =
      [\<lparr>mr_n = 0, mr_startMs = 0, mr_producedMs = 8000, mr_growing = False\<rparr>]"
    using sample_covered by (simp add: regionMap_def sampleRegions_def regionSpanMs_def SEGMENT_SECONDS_def)
  then show "timelineCovered 12000 sampleLedger [hd sampleRegions]"
    by (simp add: timelineCovered_def spansOf_def COLD_BEHIND_MS_def SEGMENT_SECONDS_def)
qed (simp_all add: SEGMENT_SECONDS_def)

text \<open>
  the gap the host fills next, after the last region ran out, exists
  exactly while the timeline is not covered; it is a stretch no region produced
  anything of, and with a position being watched it is the last one that starts
  at or before it, if any does.
\<close>

theorem nextGap_is_unproduced:
  "(nextGap durationMs l regions wanted = None \<longleftrightarrow> timelineCovered durationMs l regions)
   \<and> (nextGap durationMs l regions wanted = Some (a, b) \<longrightarrow>
      0 \<le> a \<and> a < b
      \<and> (\<forall>r \<in> set regions. \<forall>t. a < t \<and> t < b \<longrightarrow>
           \<not> (rr_startMs r \<le> t \<and> t < rr_startMs r + regionSpanMs durationMs l r))
      \<and> (\<forall>w. wanted = Some w \<longrightarrow> (\<exists>g \<in> set (gapsOf durationMs l regions). fst g \<le> w) \<longrightarrow>
           a \<le> w \<and> (\<forall>g \<in> set (gapsOf durationMs l regions). fst g \<le> w \<longrightarrow> fst g \<le> a)))"
proof -
  let ?gaps = "gapsOf durationMs l regions"
  have none: "nextGap durationMs l regions wanted = None \<longleftrightarrow> timelineCovered durationMs l regions"
    by (auto simp: nextGap_def Let_def gapsOf_empty [symmetric])
  have "0 \<le> a \<and> a < b
      \<and> (\<forall>r \<in> set regions. \<forall>t. a < t \<and> t < b \<longrightarrow>
           \<not> (rr_startMs r \<le> t \<and> t < rr_startMs r + regionSpanMs durationMs l r))
      \<and> (\<forall>w. wanted = Some w \<longrightarrow> (\<exists>g \<in> set ?gaps. fst g \<le> w) \<longrightarrow>
           a \<le> w \<and> (\<forall>g \<in> set ?gaps. fst g \<le> w \<longrightarrow> fst g \<le> a))"
    if gap: "nextGap durationMs l regions wanted = Some (a, b)"
  proof (intro conjI ballI allI impI)
    have mem: "(a, b) \<in> set ?gaps"
    proof -
      have "?gaps \<noteq> [] \<and> hd ?gaps = (a, b)
          \<or> (\<exists>w. filter (\<lambda>g. fst g \<le> w) ?gaps \<noteq> [] \<and> last (filter (\<lambda>g. fst g \<le> w) ?gaps) = (a, b))"
        using gap by (auto simp: nextGap_def Let_def split: if_splits option.splits)
      then show ?thesis by (metis (no_types, lifting) filter_is_subset hd_in_set last_in_set subsetD)
    qed
    from gapsOf_gap [OF mem] show "0 \<le> a" "a < b" by auto
    show "\<not> (rr_startMs r \<le> t \<and> t < rr_startMs r + regionSpanMs durationMs l r)"
      if "r \<in> set regions" and "a < t \<and> t < b" for r t
      using gapsOf_gap [OF mem] that by (auto simp: regionMap_def)
    {
      fix w assume wanted: "wanted = Some w" and near: "\<exists>g \<in> set ?gaps. fst g \<le> w"
      let ?behind = "filter (\<lambda>g. fst g \<le> w) ?gaps"
      have "?behind \<noteq> []" using near by (auto simp: filter_empty_conv)
      moreover have last: "last ?behind = (a, b)"
        using gap wanted calculation by (auto simp: nextGap_def Let_def split: if_splits)
      ultimately have "(a, b) \<in> set ?behind" by (metis last_in_set)
      then show "a \<le> w" by simp
      fix g assume "g \<in> set ?gaps" and "fst g \<le> w"
      then have "fst g \<in> set (map fst ?behind)" by auto
      moreover have "sorted (map fst ?behind)" by (rule sorted_filter) (rule gapsOf_sorted)
      ultimately have "fst g \<le> last (map fst ?behind)" by (intro sorted_last)
      then show "fst g \<le> a" using \<open>?behind \<noteq> []\<close> by (simp add: last_map last)
    }
  qed
  with none show ?thesis by blast
qed

theorem nextGap_is_unproduced_witness:
  "nextGap 60000 sampleLedger sampleRegions (Some 50000) = Some (8000, 40000)
   \<and> \<not> timelineCovered 60000 sampleLedger sampleRegions
   \<and> list_all (\<lambda>r. \<not> (rr_startMs r \<le> 8001 \<and> 8001 < rr_startMs r + regionSpanMs 60000 sampleLedger r)) sampleRegions"
proof -
  have gap: "nextGap 60000 sampleLedger sampleRegions (Some 50000) = Some (8000, 40000)"
    by (simp add: nextGap_def gapsOf_def sample_regionMap spansOf_def COLD_BEHIND_MS_def SEGMENT_SECONDS_def)
  with nextGap_is_unproduced [of 60000 sampleLedger sampleRegions "Some 50000" 8000 40000] show ?thesis
    by (auto simp: list_all_iff)
qed

text \<open>
  What the host adds to what a viewer's player goes by, for the region being
  written: the point the writer aims at counts as written, and a bounded fill
  is counted on up to its end only.
\<close>

definition aimedAt :: "int \<Rightarrow> media_region \<Rightarrow> int \<Rightarrow> bool" where
  "aimedAt aimMs r ms =
     (mr_growing r \<and> mr_startMs r - REGION_BEHIND_MS \<le> ms \<and> ms \<le> aimMs + REGION_AHEAD_MS)"

definition withinFill :: "rat option \<Rightarrow> media_region \<Rightarrow> int \<Rightarrow> bool" where
  "withinFill fillEndSeconds r ms =
     (mr_growing r \<longrightarrow> (case fillEndSeconds of None \<Rightarrow> True | Some e \<Rightarrow> of_int ms \<le> e * 1000))"

lemma below_forwardEdge:
  "(mr_startMs r - COLD_BEHIND_MS \<le> ms \<and> of_int ms \<le> forwardEdge aimMs fillEndSeconds r)
   \<longleftrightarrow> (regionHolds r ms \<or> aimedAt aimMs r ms) \<and> withinFill fillEndSeconds r ms"
proof (cases "mr_growing r")
  case True
  have "(of_int ms \<le> forwardEdge aimMs fillEndSeconds r)
      \<longleftrightarrow> (ms \<le> mr_startMs r + mr_producedMs r + REGION_AHEAD_MS \<or> ms \<le> aimMs + REGION_AHEAD_MS)
        \<and> withinFill fillEndSeconds r ms"
    using True by (cases fillEndSeconds)
      (auto simp: forwardEdge_def withinFill_def Let_def COLD_AHEAD_MS_def REGION_AHEAD_MS_def max_def)
  with True show ?thesis
    by (auto simp: regionHolds_def aimedAt_def Let_def COLD_BEHIND_MS_def REGION_BEHIND_MS_def)
next
  case False
  then show ?thesis
    by (auto simp: forwardEdge_def withinFill_def regionHolds_def aimedAt_def Let_def COLD_BEHIND_MS_def
        REGION_BEHIND_MS_def)
qed

text \<open>
  C8: what the host and a viewer's player make of a position. Whatever the
  point aimed at and the end of a bounded fill, the host restarts for a position
  exactly when no region serves it, where a region serves what the viewer's
  player finds held by it (\<open>regionHolds\<close>) or, for the region being written,
  what is at most 30 s past the point it aims at, and a bounded fill nothing
  past its end. So the two agree wherever the region being written aims no
  further than it has written and is not a bounded fill; otherwise the host
  waits for what the writer aims at, and restarts for what lies past a fill.
\<close>

theorem restart_exactly_when_not_held:
  "(uncovered aimMs fillEndSeconds regions ms \<longleftrightarrow>
      \<not> (\<exists>r \<in> set regions. (regionHolds r ms \<or> aimedAt aimMs r ms) \<and> withinFill fillEndSeconds r ms))
   \<and> ((\<forall>r \<in> set regions. mr_growing r \<longrightarrow> aimMs \<le> mr_startMs r + mr_producedMs r) \<longrightarrow>
      (uncovered aimMs None regions ms \<longleftrightarrow> \<not> (\<exists>r \<in> set regions. regionHolds r ms)))"
proof (intro conjI impI)
  show general: "uncovered aimMs fillEndSeconds regions ms \<longleftrightarrow>
      \<not> (\<exists>r \<in> set regions. (regionHolds r ms \<or> aimedAt aimMs r ms) \<and> withinFill fillEndSeconds r ms)"
      for fillEndSeconds
    unfolding uncovered_def list_all_iff below_forwardEdge by blast
  assume short: "\<forall>r \<in> set regions. mr_growing r \<longrightarrow> aimMs \<le> mr_startMs r + mr_producedMs r"
  have "(regionHolds r ms \<or> aimedAt aimMs r ms) \<and> withinFill None r ms \<longleftrightarrow> regionHolds r ms" if "r \<in> set regions" for r
    using short that by (auto simp: regionHolds_def aimedAt_def withinFill_def Let_def)
  with general [of None] show "uncovered aimMs None regions ms \<longleftrightarrow> \<not> (\<exists>r \<in> set regions. regionHolds r ms)"
    by auto
qed

theorem restart_exactly_when_not_held_witness:
  "uncovered 500 None [\<lparr>mr_n = 0, mr_startMs = 0, mr_producedMs = 8000, mr_growing = True\<rparr>] 40000
   \<and> \<not> uncovered 50000 None [\<lparr>mr_n = 0, mr_startMs = 0, mr_producedMs = 8000, mr_growing = True\<rparr>] 40000
   \<and> uncovered 500 (Some 20) [\<lparr>mr_n = 0, mr_startMs = 0, mr_producedMs = 8000, mr_growing = True\<rparr>] 20001"
proof -
  let ?rs = "[\<lparr>mr_n = 0, mr_startMs = 0, mr_producedMs = 8000, mr_growing = True\<rparr>]"
  have "\<forall>r \<in> set ?rs. mr_growing r \<longrightarrow> 500 \<le> mr_startMs r + mr_producedMs r" by simp
  with restart_exactly_when_not_held [of 500 None ?rs 40000]
  have "uncovered 500 None ?rs 40000 \<longleftrightarrow> \<not> (\<exists>r \<in> set ?rs. regionHolds r 40000)" by blast
  moreover have "\<not> uncovered 50000 None ?rs 40000"
    unfolding conjunct1 [OF restart_exactly_when_not_held]
    by (simp add: aimedAt_def withinFill_def REGION_AHEAD_MS_def REGION_BEHIND_MS_def)
  moreover have "uncovered 500 (Some 20) ?rs 20001"
    unfolding conjunct1 [OF restart_exactly_when_not_held] by (simp add: withinFill_def)
  ultimately show ?thesis by (simp add: regionHolds_def REGION_AHEAD_MS_def REGION_BEHIND_MS_def)
qed

end
