(* ===== verification/Publish.thy ===== *)
theory Publish
  imports UploadQueue Playlist RegionPlan
begin

text \<open>
  What the client media pipeline tells the server
  (\<open>web/src/pipeline/clientMedia.ts\<close>): \<open>closeRegion\<close> sets the playlists of a
  finished region aside, \<open>publish\<close> sends the playlists and up to 128 uploaded
  names to confirm, and \<open>runPublish\<close>/\<open>kickPublish\<close> keep one publish in flight.

  The state is the local variables of \<open>remuxAndPublish\<close>. A publish is two
  steps, up to its request and from its answer; the tracing calls and the
  warm-region callback are left out.
\<close>

section \<open>State\<close>

record sealed_entry =
  se_prefix :: string
  se_region :: nat
  se_playlist :: nat
  se_body :: string

text \<open>What a publish sends, and the sealed names it ends.\<close>

record publish_request =
  pr_seq :: nat
  pr_confirm :: "string list"
  pr_playlists :: "(string, string) jsmap"
  pr_complete :: bool
  pr_receivedBytes :: int
  pr_offsetMs :: int
  pr_regions :: "media_region list"
  pr_audioTracks :: bool
  pr_sealing :: "string list"

text \<open>
  The restarts that still look for their keyframe, each with its position: the
  code's \<open>pendingRestart\<close> is the latest, \<open>rm_pending\<close>. The phase says which
  \<open>await\<close> of the region loop the run is at (theory RemuxLoop).
\<close>

datatype phase =
    Opening
  | Converting
  | AfterExecute
  | Settling
  | AfterSettle
  | GapSnap int int
  | Draining
  | Finishing
  | Ended
  | Broken

record remux =
  rm_phase :: phase
  rm_uploads :: uploads
  rm_playlists :: "(string, string) jsmap"
  rm_sealed :: "(string, sealed_entry) jsmap"
  rm_ledger :: ledger
  rm_durationMs :: int
  rm_region :: int
  rm_regionStartMs :: int
  rm_regions :: "region_record list"
  rm_metadataSent :: bool
  rm_seq :: nat
  rm_publishing :: "publish_request option"
  rm_publishDirty :: bool
  rm_publishStopped :: bool
  rm_kickTimer :: bool
  rm_seekTarget :: "rat option"
  rm_nextStart :: rat
  rm_start :: rat
  rm_fillEnd :: "rat option"
  rm_restartPending :: bool
  rm_snaps :: "(nat \<times> int) list"
  rm_pending :: "nat option"
  rm_restarts :: nat
  rm_draining :: bool
  rm_lastFollow :: "int option"
  rm_aimMs :: int
  rm_rounds :: nat

definition failed :: "remux \<Rightarrow> bool" where
  "failed s \<longleftrightarrow> uq_failure (rm_uploads s) \<noteq> None"

definition failRemux :: "string \<Rightarrow> remux \<Rightarrow> remux" where
  "failRemux err s = s\<lparr>rm_uploads := failUpload err (rm_uploads s)\<rparr>"

section \<open>Which region a name belongs to\<close>

text \<open>\<open>region <= 0 ? '' : `r${region}_`\<close>.\<close>

definition regionTag :: "int \<Rightarrow> string" where
  "regionTag region = (if region \<le> 0 then '''' else ''r'' @ dec (nat region) @ ''_'')"

definition ofRegion :: "string \<Rightarrow> string \<Rightarrow> bool" where
  "ofRegion tag name = (if tag = '''' then regionPrefix name = None else startsWith name tag)"

definition inCurrentRegion :: "remux \<Rightarrow> string \<Rightarrow> bool" where
  "inCurrentRegion s name =
     (if rm_region s \<le> 0 then regionPrefix name = None else startsWith name (regionTag (rm_region s)))"

section \<open>Closing a region\<close>

definition sealOne :: "string \<Rightarrow> nat \<Rightarrow> string \<times> string \<Rightarrow> remux \<Rightarrow> remux" where
  "sealOne tag n entry s =
     (let (name, content) = entry
      in if \<not> hasSub content ''#EXTINF'' then s
         else case renditionOf name of
           None \<Rightarrow> s
         | Some rendition \<Rightarrow>
             s\<lparr>rm_sealed := mapSet name
                 \<lparr>se_prefix = tag, se_region = n, se_playlist = rendition, se_body = content\<rparr> (rm_sealed s),
               rm_playlists := mapDelete name (rm_playlists s)\<rparr>)"

text \<open>\<open>regions.find((r) => r.growing)\<close>, and its assignment.\<close>

fun stopFirstGrowing :: "region_record list \<Rightarrow> region_record list" where
  "stopFirstGrowing [] = []"
| "stopFirstGrowing (r # rs) =
     (if rr_growing r then r\<lparr>rr_growing := False\<rparr> # rs else r # stopFirstGrowing rs)"

definition closeRegion :: "remux \<Rightarrow> remux" where
  "closeRegion s =
     (case find rr_growing (rm_regions s) of
        None \<Rightarrow> s
      | Some current \<Rightarrow>
          fold (sealOne (regionTag (rm_region s)) (rr_n current)) (rm_playlists s)
            (s\<lparr>rm_regions := stopFirstGrowing (rm_regions s)\<rparr>))"

section \<open>Publishing\<close>

definition CONFIRM_BATCH :: nat where "CONFIRM_BATCH = 128"

definition outstanding :: "remux \<Rightarrow> string \<Rightarrow> bool" where
  "outstanding s tag \<longleftrightarrow>
     list_ex (ofRegion tag) (uq_uploaded (rm_uploads s))
   \<or> list_ex (\<lambda>ob. ofRegion tag (po_name ob)) (uq_queued (rm_uploads s))
   \<or> list_ex (ofRegion tag) (uq_inflightNames (rm_uploads s))"

definition endedPlaylist :: "remux \<Rightarrow> sealed_entry \<Rightarrow> string option" where
  "endedPlaylist s entry =
     endPlaylist (se_body entry) (contiguousIn (rm_ledger s) (se_region entry) (se_playlist entry))"

text \<open>The sealed playlists this publish ends, with their ended bodies.\<close>

definition sealing :: "bool \<Rightarrow> remux \<Rightarrow> (string, string) jsmap" where
  "sealing finish s =
     concat (map (\<lambda>(name, entry).
        if finish \<or> \<not> outstanding s (se_prefix entry)
        then (case endedPlaylist s entry of None \<Rightarrow> [] | Some body \<Rightarrow> [(name, body)])
        else []) (rm_sealed s))"

text \<open>The stable sort that puts the current region's names first.\<close>

definition currentFirst :: "remux \<Rightarrow> string list \<Rightarrow> string list" where
  "currentFirst s names = filter (inCurrentRegion s) names @ filter (\<lambda>n. \<not> inCurrentRegion s n) names"

text \<open>\<open>Object.fromEntries\<close>: a later entry of the same name replaces the earlier one.\<close>

definition fromEntries :: "(string, string) jsmap \<Rightarrow> (string, string) jsmap" where
  "fromEntries entries = foldl (\<lambda>m e. mapSet (fst e) (snd e) m) [] entries"

definition publishStart :: "bool \<Rightarrow> remux \<Rightarrow> remux" where
  "publishStart finish s =
     (let ending = sealing finish s;
          names = currentFirst s (uq_uploaded (rm_uploads s));
          request = \<lparr>pr_seq = Suc (rm_seq s), pr_confirm = take CONFIRM_BATCH names,
                     pr_playlists = fromEntries (ending @ rm_playlists s), pr_complete = finish,
                     pr_receivedBytes = uq_uploadedBytes (rm_uploads s), pr_offsetMs = rm_regionStartMs s,
                     pr_regions = regionMap (rm_durationMs s) (rm_ledger s) (rm_regions s),
                     pr_audioTracks = (\<not> rm_metadataSent s), pr_sealing = map fst ending\<rparr>
      in s\<lparr>rm_uploads := (rm_uploads s)\<lparr>uq_uploaded := drop CONFIRM_BATCH names\<rparr>,
           rm_seq := Suc (rm_seq s), rm_publishing := Some request\<rparr>)"

text \<open>A publish answered with the names the server confirmed.\<close>

definition publishAnswered :: "publish_request \<Rightarrow> string list \<Rightarrow> remux \<Rightarrow> remux" where
  "publishAnswered request vouched s =
     s\<lparr>rm_metadataSent := True,
       rm_sealed := fold mapDelete (pr_sealing request) (rm_sealed s),
       rm_ledger := noteConfirmed (rm_ledger s) vouched,
       rm_uploads := (rm_uploads s)\<lparr>uq_uploaded := uq_uploaded (rm_uploads s)
           @ filter (\<lambda>n. n \<notin> set vouched) (pr_confirm request)\<rparr>\<rparr>"

definition kickPublish :: "remux \<Rightarrow> remux" where
  "kickPublish s = (if rm_kickTimer s \<or> failed s \<or> rm_publishStopped s then s else s\<lparr>rm_kickTimer := True\<rparr>)"

definition runPublish :: "remux \<Rightarrow> remux" where
  "runPublish s =
     (if failed s \<or> rm_publishStopped s then s
      else if rm_publishing s \<noteq> None then s\<lparr>rm_publishDirty := True\<rparr>
      else publishStart False (s\<lparr>rm_publishDirty := False\<rparr>))"

text \<open>The timer of \<open>kickPublish\<close>.\<close>

definition timerFired :: "remux \<Rightarrow> remux" where
  "timerFired s = runPublish (s\<lparr>rm_kickTimer := False\<rparr>)"

text \<open>The \<open>finally\<close> of the publish that \<open>runPublish\<close> started.\<close>

definition publishSettled :: "remux \<Rightarrow> remux" where
  "publishSettled s =
     (let s = s\<lparr>rm_publishing := None\<rparr> in if rm_publishDirty s then kickPublish s else s)"

definition publishOk :: "string list \<Rightarrow> remux \<Rightarrow> remux" where
  "publishOk vouched s =
     (case rm_publishing s of
        None \<Rightarrow> s
      | Some request \<Rightarrow> publishSettled (publishAnswered request vouched s))"

definition publishFailed :: "string \<Rightarrow> remux \<Rightarrow> remux" where
  "publishFailed err s =
     (case rm_publishing s of None \<Rightarrow> s | Some _ \<Rightarrow> publishSettled (failRemux err s))"

text \<open>
  After the last region, with the timers stopped: while names wait to be
  confirmed, at most ten more publishes, then the one that completes the run.
\<close>

definition DRAIN_ROUNDS :: nat where "DRAIN_ROUNDS = 10"

definition drainPublish :: "remux \<Rightarrow> remux" where
  "drainPublish s =
     (if uq_uploaded (rm_uploads s) \<noteq> [] \<and> rm_rounds s < DRAIN_ROUNDS
      then publishStart False (s\<lparr>rm_rounds := Suc (rm_rounds s)\<rparr>)
      else publishStart True (s\<lparr>rm_rounds := Suc DRAIN_ROUNDS\<rparr>))"

section \<open>Lemmas\<close>

lemma mset_currentFirst [simp]: "mset (currentFirst s names) = mset names"
  by (simp add: currentFirst_def)

lemma mset_take_drop: "mset (take n xs) + mset (drop n xs) = mset xs"
  by (metis append_take_drop_id mset_append)

section \<open>Properties\<close>

text \<open>
  C5: a publish takes at most 128 uploaded names to confirm, those of the
  current region before any other, numbers itself one past the last, and loses
  none of them: what the server does not vouch for is back among the uploaded
  names when it answers.
\<close>

theorem publish_loses_no_name:
  "let t = publishStart finish s; names = uq_uploaded (rm_uploads s)
   in \<exists>request. rm_publishing t = Some request
     \<and> pr_seq request = Suc (rm_seq s) \<and> length (pr_confirm request) \<le> 128
     \<and> pr_confirm request = take 128 (filter (inCurrentRegion s) names @ filter (\<lambda>n. \<not> inCurrentRegion s n) names)
     \<and> mset (pr_confirm request) + mset (uq_uploaded (rm_uploads t)) = mset names
     \<and> mset (uq_uploaded (rm_uploads (publishAnswered request vouched t)))
         + mset (filter (\<lambda>n. n \<in> set vouched) (pr_confirm request)) = mset names"
proof -
  let ?names = "currentFirst s (uq_uploaded (rm_uploads s))"
  let ?taken = "take CONFIRM_BATCH ?names"
  have whole: "mset ?taken + mset (drop CONFIRM_BATCH ?names) = mset (uq_uploaded (rm_uploads s))"
    unfolding mset_take_drop by simp
  have "mset (filter (\<lambda>n. n \<notin> set vouched) ?taken) + mset (filter (\<lambda>n. n \<in> set vouched) ?taken) = mset ?taken"
    by simp
  with whole have requeued: "mset (drop CONFIRM_BATCH ?names) + mset (filter (\<lambda>n. n \<notin> set vouched) ?taken)
      + mset (filter (\<lambda>n. n \<in> set vouched) ?taken) = mset (uq_uploaded (rm_uploads s))"
    by (metis (no_types, lifting) union_assoc union_commute)
  show ?thesis
    using whole requeued
    by (simp add: publishStart_def Let_def publishAnswered_def CONFIRM_BATCH_def currentFirst_def)
qed

end
