(* ===== verification/RemuxLoop.thy ===== *)
theory RemuxLoop
  imports Publish UploadNames
begin

text \<open>
  The loop over the regions of a run (\<open>remuxAndPublish\<close> in
  \<open>web/src/pipeline/clientMedia.ts\<close>): a region is opened, converted and closed;
  a position nothing covers restarts the run there (\<open>follow\<close>, \<open>restartAt\<close>);
  past the last region the gaps are filled (\<open>settled\<close>, \<open>nextGap\<close>) and the run
  drains.

  The phase is the \<open>await\<close> the loop is at; an event is a promise that settles,
  a call of the room page, or a callback of the running conversion, and leaves
  the state alone when it is not pending. The conversion and the keyframe
  search are not this code's: what they answer is part of the event. A
  conversion calls back only until its \<open>execute\<close> settles.
\<close>

section \<open>Restarting\<close>

definition uncoveredNow :: "remux \<Rightarrow> int \<Rightarrow> bool" where
  "uncoveredNow s absoluteMs =
     uncovered (rm_aimMs s) (rm_fillEnd s) (regionMap (rm_durationMs s) (rm_ledger s) (rm_regions s)) absoluteMs"

definition restartAt :: "int \<Rightarrow> remux \<Rightarrow> remux" where
  "restartAt absoluteMs s =
     (let closed = closeRegion (s\<lparr>rm_restartPending := True\<rparr>)
      in closed\<lparr>rm_uploads := dropQueued (rm_uploads closed),
                rm_snaps := rm_snaps s @ [(rm_restarts s, absoluteMs)],
                rm_pending := Some (rm_restarts s),
                rm_restarts := Suc (rm_restarts s)\<rparr>)"

text \<open>The keyframe search of a restart settled.\<close>

definition restartSnapped :: "nat \<Rightarrow> rat \<Rightarrow> remux \<Rightarrow> remux" where
  "restartSnapped i seconds s =
     (case map_of (rm_snaps s) i of
        None \<Rightarrow> s
      | Some absoluteMs \<Rightarrow>
          s\<lparr>rm_snaps := AList.delete i (rm_snaps s), rm_seekTarget := Some seconds, rm_aimMs := absoluteMs\<rparr>)"

definition restartResolved :: "remux \<Rightarrow> bool" where
  "restartResolved s \<longleftrightarrow>
     (case rm_pending s of None \<Rightarrow> True | Some i \<Rightarrow> i \<notin> set (map fst (rm_snaps s)))"

definition follow :: "int \<Rightarrow> remux \<Rightarrow> remux" where
  "follow absoluteMs s =
     (let s = s\<lparr>rm_lastFollow := Some absoluteMs\<rparr>
      in if failed s \<or> rm_restartPending s \<or> rm_draining s then s
         else if uncoveredNow s absoluteMs then restartAt absoluteMs s else s)"

section \<open>The loop\<close>

definition toMs :: "rat \<Rightarrow> int" where
  "toMs seconds = js_round (seconds * 1000)"

text \<open>From the top of the loop to \<open>Conversion.init\<close>.\<close>

definition openRegion :: "remux \<Rightarrow> remux" where
  "openRegion s =
     (let region = rm_region s + 1;
          startMs = toMs (rm_nextStart s);
          s = s\<lparr>rm_region := region, rm_start := rm_nextStart s, rm_regionStartMs := startMs,
                rm_aimMs := (if rm_fillEnd s \<noteq> None then startMs else max (rm_aimMs s) startMs)\<rparr>;
          s = closeRegion s
      in s\<lparr>rm_seekTarget := None,
           rm_regions := rm_regions s
             @ [\<lparr>rr_n = nat region, rr_startMs = startMs, rr_growing = True, rr_ranToEnd = False\<rparr>],
           rm_playlists := [],
           rm_phase := Opening\<rparr>)"

text \<open>An error thrown out of the loop: the \<open>finally\<close> stops the timers.\<close>

definition breakRun :: "remux \<Rightarrow> remux" where
  "breakRun s = s\<lparr>rm_phase := Broken, rm_publishStopped := True, rm_kickTimer := False\<rparr>"

definition initDone :: "bool \<Rightarrow> remux \<Rightarrow> remux" where
  "initDone valid s =
     (if \<not> valid then breakRun s
      else let s = s\<lparr>rm_restartPending := False, rm_phase := Converting\<rparr>
        in case rm_lastFollow s of
             Some ms \<Rightarrow> if uncoveredNow s ms then restartAt ms s else s
           | None \<Rightarrow> s)"

text \<open>How \<open>execute\<close> settles: to the end, canceled, with a read aborted, or with an error.\<close>

datatype execution = RanOut | Canceled | ReadAborted string | Threw string

fun executionError :: "bool \<Rightarrow> execution \<Rightarrow> string option" where
  "executionError restarting RanOut = None"
| "executionError restarting Canceled = None"
| "executionError restarting (ReadAborted err) = (if restarting then None else Some err)"
| "executionError restarting (Threw err) = Some err"

definition executeDone :: "execution \<Rightarrow> remux \<Rightarrow> remux" where
  "executeDone how s =
     (let s = (case executionError (rm_restartPending s) how of None \<Rightarrow> s | Some err \<Rightarrow> failRemux err s)
      in if failed s then breakRun s else s\<lparr>rm_phase := AfterExecute\<rparr>)"

definition startDraining :: "remux \<Rightarrow> remux" where
  "startDraining s = s\<lparr>rm_draining := True, rm_phase := Draining\<rparr>"

definition covered_now :: "remux \<Rightarrow> bool" where
  "covered_now s = timelineCovered (rm_durationMs s) (rm_ledger s) (rm_regions s)"

definition markRanToEnd :: "int \<Rightarrow> region_record list \<Rightarrow> region_record list" where
  "markRanToEnd region rs = map (\<lambda>r. if int (rr_n r) = region then r\<lparr>rr_ranToEnd := True\<rparr> else r) rs"

definition afterExecute :: "remux \<Rightarrow> remux" where
  "afterExecute s =
     (let s = s\<lparr>rm_pending := None\<rparr>
      in case rm_seekTarget s of
           Some target \<Rightarrow> openRegion (s\<lparr>rm_fillEnd := None, rm_nextStart := target\<rparr>)
         | None \<Rightarrow>
             let s = closeRegion s;
                 wasFill = rm_fillEnd s \<noteq> None;
                 s = s\<lparr>rm_fillEnd := None,
                       rm_regions := if wasFill then rm_regions s else markRanToEnd (rm_region s) (rm_regions s)\<rparr>
             in if \<not> wasFill \<and> rm_start s \<le> of_int COLD_BEHIND_MS / 1000 \<or> covered_now s
                then startDraining s else s\<lparr>rm_phase := Settling\<rparr>)"

definition settleDone :: "remux \<Rightarrow> remux" where
  "settleDone s = (if failed s then breakRun s else s\<lparr>rm_phase := AfterSettle\<rparr>)"

definition afterSettle :: "remux \<Rightarrow> remux" where
  "afterSettle s =
     (let s = s\<lparr>rm_pending := None\<rparr>
      in case rm_seekTarget s of
           Some target \<Rightarrow> openRegion (s\<lparr>rm_nextStart := target\<rparr>)
         | None \<Rightarrow>
             if covered_now s then startDraining s
             else (case nextGap (rm_durationMs s) (rm_ledger s) (rm_regions s) (rm_lastFollow s) of
                     None \<Rightarrow> startDraining s
                   | Some (a, b) \<Rightarrow> s\<lparr>rm_phase := GapSnap a b\<rparr>))"

definition gapSnapped :: "int \<Rightarrow> rat \<Rightarrow> remux \<Rightarrow> remux" where
  "gapSnapped b start s =
     (let end = (if rm_durationMs s \<le> b then None else Some (of_int b / 1000 + of_int SEGMENT_SECONDS))
      in openRegion (s\<lparr>rm_nextStart := start,
           rm_fillEnd := (case end of None \<Rightarrow> None | Some e \<Rightarrow> if start < e then Some e else None)\<rparr>))"

definition queueIdle :: "uploads \<Rightarrow> bool" where
  "queueIdle u \<longleftrightarrow> uq_queued u = [] \<and> uq_activeSlots u \<le> 0 \<and> uq_inflightBytes u \<le> 0"

definition drained :: "remux \<Rightarrow> remux" where
  "drained s =
     (if failed s then breakRun s
      else s\<lparr>rm_phase := Finishing, rm_publishStopped := True, rm_kickTimer := False\<rparr>)"

section \<open>Callbacks of the conversion\<close>

definition masterRendered :: "string \<Rightarrow> remux \<Rightarrow> remux" where
  "masterRendered content s =
     kickPublish (s\<lparr>rm_playlists := mapSet (''r'' @ dec (nat (rm_region s)) @ ''_master.m3u8'') content
       (mapSet ''master.m3u8'' content (rm_playlists s))\<rparr>)"

definition playlistName :: "int \<Rightarrow> nat \<Rightarrow> string" where
  "playlistName region n = regionTag region @ ''client_stream_'' @ dec n @ ''.m3u8''"

text \<open>
  The muxer writes a number after every \<open>#EXTINF:\<close>. A line without one, which the
  code would read as \<open>NaN\<close>, counts as 0 here.
\<close>

definition playlistRendered :: "nat \<Rightarrow> string \<Rightarrow> remux \<Rightarrow> remux" where
  "playlistRendered n content s =
     s\<lparr>rm_playlists := mapSet (playlistName (rm_region s) n) content (rm_playlists s),
       rm_ledger := noteDurations (rm_ledger s) (nat (rm_region s)) n
         (map (\<lambda>d. orElse d 0) (segmentDurations content))\<rparr>"

definition segmentMuxed :: "nat \<Rightarrow> nat \<Rightarrow> remux \<Rightarrow> remux" where
  "segmentMuxed playlist n s =
     s\<lparr>rm_ledger := noteEmitted (rm_ledger s) (segmentPath (nat (rm_region s)) playlist n)\<rparr>"

section \<open>Events\<close>

datatype remux_event =
    Upload upload_event
  | Tick
  | TimerFired
  | PublishOk "string list"
  | PublishFailed string
  | Follow int
  | RestartSnapped nat rat
  | InitDone bool
  | MasterRendered string
  | PlaylistRendered nat string
  | SegmentMuxed nat nat
  | ExecuteDone execution
  | ExecuteAwaited
  | SettleDone
  | SettleAwaited
  | GapSnapped rat
  | Drained
  | FinalPublish

fun awaited :: "remux \<Rightarrow> remux_event \<Rightarrow> bool" where
  "awaited s (Upload e) = (pendingIn (rm_uploads s) e \<and> e \<noteq> Restarted)"
| "awaited s Tick = (rm_phase s \<notin> {Finishing, Ended, Broken})"
| "awaited s TimerFired = rm_kickTimer s"
| "awaited s (PublishOk _) = (rm_publishing s \<noteq> None)"
| "awaited s (PublishFailed _) = (rm_publishing s \<noteq> None)"
| "awaited s (Follow _) = (0 < rm_region s \<or> rm_phase s \<noteq> Opening)"
| "awaited s (RestartSnapped i _) = (i \<in> set (map fst (rm_snaps s)))"
| "awaited s (InitDone _) = (rm_phase s = Opening)"
| "awaited s (MasterRendered _) = (rm_phase s = Converting)"
| "awaited s (PlaylistRendered _ _) = (rm_phase s = Converting)"
| "awaited s (SegmentMuxed _ _) = (rm_phase s = Converting)"
| "awaited s (ExecuteDone _) = (rm_phase s = Converting)"
| "awaited s ExecuteAwaited = (rm_phase s = AfterExecute \<and> restartResolved s)"
| "awaited s SettleDone = (rm_phase s = Settling)"
| "awaited s SettleAwaited = (rm_phase s = AfterSettle \<and> restartResolved s)"
| "awaited s (GapSnapped _) = (case rm_phase s of GapSnap _ _ \<Rightarrow> True | _ \<Rightarrow> False)"
| "awaited s Drained = (rm_phase s = Draining \<and> (failed s \<or> queueIdle (rm_uploads s)))"
| "awaited s FinalPublish = (rm_phase s = Finishing \<and> rm_publishing s = None \<and> rm_rounds s \<le> DRAIN_ROUNDS)"

text \<open>A PUT that lands in the current region asks for a publish.\<close>

definition uploadDone :: "upload_event \<Rightarrow> remux \<Rightarrow> remux" where
  "uploadDone e s =
     (let s = s\<lparr>rm_uploads := uploadEvent (rm_uploads s) e\<rparr>
      in case e of
           PutOk _ ob \<Rightarrow> if inCurrentRegion s (po_name ob) then kickPublish s else s
         | _ \<Rightarrow> s)"

text \<open>The answer to the publish that completes the run ends it.\<close>

definition publishAnswer :: "string list \<Rightarrow> remux \<Rightarrow> remux" where
  "publishAnswer vouched s =
     (case rm_publishing s of
        Some request \<Rightarrow>
          if pr_complete request then (publishOk vouched s)\<lparr>rm_phase := Ended\<rparr> else publishOk vouched s
      | None \<Rightarrow> s)"

text \<open>
  A publish of the timers that fails fails the run; one of the final rounds
  throws out of \<open>remuxAndPublish\<close>. One that was in flight when the final
  rounds were reached is awaited, and its failure is not looked at again.
\<close>

definition publishError :: "string \<Rightarrow> remux \<Rightarrow> remux" where
  "publishError err s =
     (if rm_phase s = Finishing \<and> 0 < rm_rounds s then breakRun (s\<lparr>rm_publishing := None\<rparr>)
      else publishFailed err s)"

fun remuxEvent :: "remux \<Rightarrow> remux_event \<Rightarrow> remux" where
  "remuxEvent s (Upload e) = uploadDone e s"
| "remuxEvent s Tick = runPublish s"
| "remuxEvent s TimerFired = timerFired s"
| "remuxEvent s (PublishOk vouched) = publishAnswer vouched s"
| "remuxEvent s (PublishFailed err) = publishError err s"
| "remuxEvent s (Follow ms) = follow ms s"
| "remuxEvent s (RestartSnapped i seconds) = restartSnapped i seconds s"
| "remuxEvent s (InitDone valid) = initDone valid s"
| "remuxEvent s (MasterRendered content) = masterRendered content s"
| "remuxEvent s (PlaylistRendered n content) = playlistRendered n content s"
| "remuxEvent s (SegmentMuxed playlist n) = segmentMuxed playlist n s"
| "remuxEvent s (ExecuteDone how) = executeDone how s"
| "remuxEvent s ExecuteAwaited = afterExecute s"
| "remuxEvent s SettleDone = settleDone s"
| "remuxEvent s SettleAwaited = afterSettle s"
| "remuxEvent s (GapSnapped start) =
     (case rm_phase s of GapSnap a b \<Rightarrow> gapSnapped b start s | _ \<Rightarrow> s)"
| "remuxEvent s Drained = drained s"
| "remuxEvent s FinalPublish = drainPublish s"

definition remuxStep :: "remux \<Rightarrow> remux_event \<Rightarrow> remux" where
  "remuxStep s e = (if awaited s e then remuxEvent s e else s)"

definition remuxStart :: "int \<Rightarrow> remux" where
  "remuxStart durationMs = openRegion
     \<lparr>rm_phase = Opening, rm_uploads = emptyUploads, rm_playlists = [], rm_sealed = [],
      rm_ledger = createSegmentLedger, rm_durationMs = durationMs, rm_region = -1, rm_regionStartMs = 0,
      rm_regions = [], rm_metadataSent = False, rm_seq = 0, rm_publishing = None, rm_publishDirty = False,
      rm_publishStopped = False, rm_kickTimer = False, rm_seekTarget = None, rm_nextStart = 0, rm_start = 0,
      rm_fillEnd = None, rm_restartPending = False, rm_snaps = [], rm_pending = None, rm_restarts = 0,
      rm_draining = False, rm_lastFollow = None, rm_aimMs = 0, rm_rounds = 0\<rparr>"

definition runRemux :: "int \<Rightarrow> remux_event list \<Rightarrow> remux" where
  "runRemux durationMs es = foldl remuxStep (remuxStart durationMs) es"

section \<open>Playlist names\<close>

lemma regionPrefix_tag: "0 < k \<Longrightarrow> regionPrefix (regionTag k @ s) = Some (nat k, s)"
  using regionPrefix_r [of "nat k" s] by (simp add: regionTag_def)

lemma regionPrefix_client: "regionPrefix (''client_stream_'' @ s) = None"
  by (simp add: regionPrefix_def)

lemma renditionOf_playlistName [simp]: "renditionOf (playlistName k n) = Some n"
proof -
  have "(case regionPrefix (playlistName k n) of Some (r, body) \<Rightarrow> body | None \<Rightarrow> playlistName k n) =
      ''client_stream_'' @ dec n @ ''.m3u8''"
  proof (cases "0 < k")
    case True
    then show ?thesis by (simp add: playlistName_def regionPrefix_tag del: append.simps)
  next
    case False
    then show ?thesis
      using regionPrefix_client [of "dec n @ ''.m3u8''"] by (simp add: playlistName_def regionTag_def)
  qed
  then show ?thesis
    by (simp add: renditionOf_def takeDigits_dec_Cons Let_def del: append.simps)
qed

lemma renditionOf_master [simp]: "renditionOf ''master.m3u8'' = None"
  by (simp add: renditionOf_def regionPrefix_def)

lemma renditionOf_regionMaster [simp]: "renditionOf (''r'' @ dec k @ ''_master.m3u8'') = None"
proof -
  have "regionPrefix (''r'' @ dec k @ ''_master.m3u8'') = Some (k, ''master.m3u8'')"
    using regionPrefix_r [of k "''master.m3u8''"] by simp
  then show ?thesis by (simp add: renditionOf_def del: append.simps)
qed

lemmas renditionOf_regionMaster_Cons [simp] = renditionOf_regionMaster [simplified]

section \<open>The shape of a run\<close>

definition anyGrowing :: "remux \<Rightarrow> bool" where
  "anyGrowing s \<longleftrightarrow> (\<exists>r \<in> set (rm_regions s). rr_growing r)"

definition namedIn :: "int \<Rightarrow> (string, string) jsmap \<Rightarrow> bool" where
  "namedIn region m \<longleftrightarrow> (\<forall>name \<in> set (mapKeys m). renditionOf name = None \<or> (\<exists>n. name = playlistName region n))"

definition regionsOk :: "int \<Rightarrow> region_record list \<Rightarrow> bool" where
  "regionsOk region rs \<longleftrightarrow> 0 \<le> region \<and> map rr_n rs = [0..<Suc (nat region)]
     \<and> (\<forall>r \<in> set rs. rr_growing r \<longrightarrow> int (rr_n r) = region)"

text \<open>A sealed playlist is named after its region; its prefix is the one its region's files have, or the next one's.\<close>

definition entryOk :: "int \<Rightarrow> string \<times> sealed_entry \<Rightarrow> bool" where
  "entryOk region ne \<longleftrightarrow>
     (let (name, e) = ne; k = int (se_region e)
      in k \<le> region \<and> name = playlistName k (se_playlist e)
       \<and> (se_prefix e = regionTag k \<or> se_prefix e = regionTag (k + 1)))"

fun closedPhase :: "phase \<Rightarrow> bool" where
  "closedPhase Opening = False"
| "closedPhase Converting = False"
| "closedPhase AfterExecute = False"
| "closedPhase Broken = False"
| "closedPhase _ = True"

definition loopOk :: "remux \<Rightarrow> bool" where
  "loopOk s \<longleftrightarrow> regionsOk (rm_region s) (rm_regions s) \<and> namedIn (rm_region s) (rm_playlists s)
     \<and> (\<forall>ne \<in> set (rm_sealed s). entryOk (rm_region s) ne)
     \<and> (closedPhase (rm_phase s) \<longrightarrow> \<not> anyGrowing s)
     \<and> (\<forall>req. rm_publishing s = Some req \<longrightarrow> pr_complete req \<longrightarrow> rm_phase s = Finishing)"

lemma set_mapDelete_subset: "set (mapDelete k m) \<subseteq> set m"
  by (auto simp: AList.delete_eq)

lemma namedIn_subset: "set (mapKeys m') \<subseteq> set (mapKeys m) \<Longrightarrow> namedIn region m \<Longrightarrow> namedIn region m'"
  unfolding namedIn_def by blast

text \<open>What \<open>closeRegion\<close> touches, and what it leaves.\<close>

lemma sealOne_fields [simp]:
  "rm_phase (sealOne tag n ne s) = rm_phase s" "rm_region (sealOne tag n ne s) = rm_region s"
  "rm_regions (sealOne tag n ne s) = rm_regions s" "rm_uploads (sealOne tag n ne s) = rm_uploads s"
  "rm_ledger (sealOne tag n ne s) = rm_ledger s" "rm_snaps (sealOne tag n ne s) = rm_snaps s"
  "rm_pending (sealOne tag n ne s) = rm_pending s" "rm_seekTarget (sealOne tag n ne s) = rm_seekTarget s"
  "rm_restartPending (sealOne tag n ne s) = rm_restartPending s" "rm_publishing (sealOne tag n ne s) = rm_publishing s"
  "rm_restarts (sealOne tag n ne s) = rm_restarts s" "rm_nextStart (sealOne tag n ne s) = rm_nextStart s"
  "rm_fillEnd (sealOne tag n ne s) = rm_fillEnd s" "rm_start (sealOne tag n ne s) = rm_start s"
  "rm_aimMs (sealOne tag n ne s) = rm_aimMs s" "rm_durationMs (sealOne tag n ne s) = rm_durationMs s"
  by (auto simp: sealOne_def split: prod.split option.split)

lemma sealAll_fields [simp]:
  "rm_phase (fold (sealOne tag n) nes s) = rm_phase s" "rm_region (fold (sealOne tag n) nes s) = rm_region s"
  "rm_regions (fold (sealOne tag n) nes s) = rm_regions s" "rm_uploads (fold (sealOne tag n) nes s) = rm_uploads s"
  "rm_ledger (fold (sealOne tag n) nes s) = rm_ledger s" "rm_snaps (fold (sealOne tag n) nes s) = rm_snaps s"
  "rm_pending (fold (sealOne tag n) nes s) = rm_pending s" "rm_seekTarget (fold (sealOne tag n) nes s) = rm_seekTarget s"
  "rm_restartPending (fold (sealOne tag n) nes s) = rm_restartPending s" "rm_publishing (fold (sealOne tag n) nes s) = rm_publishing s"
  "rm_restarts (fold (sealOne tag n) nes s) = rm_restarts s" "rm_nextStart (fold (sealOne tag n) nes s) = rm_nextStart s"
  "rm_fillEnd (fold (sealOne tag n) nes s) = rm_fillEnd s" "rm_start (fold (sealOne tag n) nes s) = rm_start s"
  "rm_aimMs (fold (sealOne tag n) nes s) = rm_aimMs s" "rm_durationMs (fold (sealOne tag n) nes s) = rm_durationMs s"
  by (induction nes arbitrary: s) simp_all

lemma closeRegion_fields [simp]:
  "rm_phase (closeRegion s) = rm_phase s" "rm_region (closeRegion s) = rm_region s"
  "rm_uploads (closeRegion s) = rm_uploads s" "rm_ledger (closeRegion s) = rm_ledger s"
  "rm_snaps (closeRegion s) = rm_snaps s" "rm_pending (closeRegion s) = rm_pending s"
  "rm_seekTarget (closeRegion s) = rm_seekTarget s" "rm_restartPending (closeRegion s) = rm_restartPending s"
  "rm_publishing (closeRegion s) = rm_publishing s" "rm_restarts (closeRegion s) = rm_restarts s"
  "rm_nextStart (closeRegion s) = rm_nextStart s" "rm_fillEnd (closeRegion s) = rm_fillEnd s"
  "rm_start (closeRegion s) = rm_start s" "rm_aimMs (closeRegion s) = rm_aimMs s"
  "rm_durationMs (closeRegion s) = rm_durationMs s"
  by (simp_all add: closeRegion_def split: option.split)

lemma sealOne_playlists: "set (mapKeys (rm_playlists (sealOne tag n ne s))) \<subseteq> set (mapKeys (rm_playlists s))"
  using set_mapDelete_subset [of "fst ne" "rm_playlists s"]
  by (auto simp: sealOne_def split: prod.split option.split)

lemma sealOne_sealed:
  assumes "x \<in> set (rm_sealed (sealOne tag n (name, body) s))" and "x \<notin> set (rm_sealed s)"
  shows "\<exists>k. renditionOf name = Some k
    \<and> x = (name, \<lparr>se_prefix = tag, se_region = n, se_playlist = k, se_body = body\<rparr>)"
proof (cases "renditionOf name")
  case None
  with assms show ?thesis by (simp add: sealOne_def split: if_splits)
next
  case (Some k)
  let ?e = "\<lparr>se_prefix = tag, se_region = n, se_playlist = k, se_body = body\<rparr>"
  from assms Some have "x \<in> set (mapSet name ?e (rm_sealed s))" by (simp add: sealOne_def split: if_splits)
  with assms(2) set_mapSet_subset [of name ?e "rm_sealed s"] have "x = (name, ?e)" by blast
  with Some show ?thesis by blast
qed

lemma sealAll_playlists: "set (mapKeys (rm_playlists (fold (sealOne tag n) nes s))) \<subseteq> set (mapKeys (rm_playlists s))"
proof (induction nes arbitrary: s)
  case (Cons ne nes)
  show ?case using Cons [of "sealOne tag n ne s"] sealOne_playlists [of tag n ne s] by (simp only: fold_Cons comp_apply)
qed simp

lemma sealAll_sealed:
  assumes "x \<in> set (rm_sealed (fold (sealOne tag n) nes s))" and "x \<notin> set (rm_sealed s)"
  shows "\<exists>name body k. (name, body) \<in> set nes \<and> renditionOf name = Some k
    \<and> x = (name, \<lparr>se_prefix = tag, se_region = n, se_playlist = k, se_body = body\<rparr>)"
  using assms
proof (induction nes arbitrary: s)
  case (Cons ne nes)
  show ?case
  proof (cases "x \<in> set (rm_sealed (sealOne tag n ne s))")
    case True
    then have "\<exists>k. renditionOf (fst ne) = Some k
        \<and> x = (fst ne, \<lparr>se_prefix = tag, se_region = n, se_playlist = k, se_body = snd ne\<rparr>)"
      using Cons.prems(2) by (intro sealOne_sealed) simp_all
    then show ?thesis by (intro exI [of _ "fst ne"] exI [of _ "snd ne"]) auto
  next
    case False
    from Cons.IH [OF _ this] Cons.prems(1) show ?thesis by auto
  qed
qed simp

text \<open>With at most one region growing, none grows after \<open>closeRegion\<close>.\<close>

lemma stopFirstGrowing_n [simp]: "map rr_n (stopFirstGrowing rs) = map rr_n rs"
  by (induction rs) simp_all

lemma length_stopFirstGrowing [simp]: "length (stopFirstGrowing rs) = length rs"
  by (induction rs) simp_all

lemma stopFirstGrowing_none:
  assumes "\<forall>r \<in> set rs. rr_growing r \<longrightarrow> int (rr_n r) = k" and "distinct (map rr_n rs)"
  shows "\<forall>r \<in> set (stopFirstGrowing rs). \<not> rr_growing r"
  using assms
proof (induction rs)
  case (Cons r rs)
  show ?case
  proof (cases "rr_growing r")
    case True
    have "\<not> rr_growing x" if "x \<in> set rs" for x
    proof
      assume "rr_growing x"
      with True have "rr_n x = rr_n r" using Cons.prems(1) that True by (metis list.set_intros nat_int)
      then show False using Cons.prems(2) that by (metis distinct.simps(2) image_eqI list.set_map list.simps(9))
    qed
    with True show ?thesis by auto
  next
    case False
    with Cons show ?thesis by auto
  qed
qed simp

lemma regionsOk_distinct: "regionsOk k rs \<Longrightarrow> distinct (map rr_n rs)"
  by (simp add: regionsOk_def)

lemma closeRegion_stops:
  assumes "regionsOk k (rm_regions s)"
  shows "\<not> anyGrowing (closeRegion s)" and "map rr_n (rm_regions (closeRegion s)) = map rr_n (rm_regions s)"
proof -
  have "\<forall>r \<in> set (stopFirstGrowing (rm_regions s)). \<not> rr_growing r"
    using assms by (intro stopFirstGrowing_none [where k = k]) (simp_all add: regionsOk_def)
  then show "\<not> anyGrowing (closeRegion s)"
    using assms by (auto simp: closeRegion_def anyGrowing_def find_None_iff split: option.split)
  show "map rr_n (rm_regions (closeRegion s)) = map rr_n (rm_regions s)"
    by (simp add: closeRegion_def split: option.split)
qed

lemma closeRegion_playlists: "set (mapKeys (rm_playlists (closeRegion s))) \<subseteq> set (mapKeys (rm_playlists s))"
  using sealAll_playlists [of _ _ _ "s\<lparr>rm_regions := stopFirstGrowing (rm_regions s)\<rparr>"]
  by (simp add: closeRegion_def split: option.split)

text \<open>What it seals: playlists of the region that was growing, under the tag of the region counter.\<close>

lemma closeRegion_sealed:
  assumes k: "regionsOk k (rm_regions s)" and names: "namedIn k (rm_playlists s)"
    and new: "(name, e) \<in> set (rm_sealed (closeRegion s))" "(name, e) \<notin> set (rm_sealed s)"
  shows "int (se_region e) = k \<and> name = playlistName k (se_playlist e) \<and> se_prefix e = regionTag (rm_region s)
    \<and> anyGrowing s"
proof -
  obtain current where find: "find rr_growing (rm_regions s) = Some current"
    using new by (cases "find rr_growing (rm_regions s)") (auto simp: closeRegion_def)
  then have cur: "int (rr_n current) = k" "anyGrowing s"
    using k by (auto simp: find_Some_iff regionsOk_def anyGrowing_def)
  let ?t = "s\<lparr>rm_regions := stopFirstGrowing (rm_regions s)\<rparr>"
  have "\<exists>name' body n. (name', body) \<in> set (rm_playlists s) \<and> renditionOf name' = Some n
    \<and> (name, e) = (name', \<lparr>se_prefix = regionTag (rm_region s), se_region = rr_n current, se_playlist = n, se_body = body\<rparr>)"
    using new by (intro sealAll_sealed [of _ _ _ _ ?t]) (simp_all add: closeRegion_def find)
  then obtain body n where mem: "(name, body) \<in> set (rm_playlists s)" "renditionOf name = Some n"
      and e: "e = \<lparr>se_prefix = regionTag (rm_region s), se_region = rr_n current, se_playlist = n, se_body = body\<rparr>"
    by auto
  from mem(1) have "name \<in> set (mapKeys (rm_playlists s))" by force
  with names mem(2) obtain m where "name = playlistName k m" by (auto simp: namedIn_def)
  with mem(2) e cur show ?thesis by simp
qed

section \<open>The shape is kept\<close>

lemma regionsOk_closed:
  assumes "regionsOk k (rm_regions s)"
  shows "regionsOk k (rm_regions (closeRegion s))"
  using closeRegion_stops [OF assms] assms by (auto simp: regionsOk_def anyGrowing_def)

lemma loopOk_closeRegion:
  assumes "loopOk s"
  shows "loopOk (closeRegion s)"
proof -
  have ok: "regionsOk (rm_region s) (rm_regions s)" "namedIn (rm_region s) (rm_playlists s)"
    using assms by (simp_all add: loopOk_def)
  have "entryOk (rm_region s) (name, e)" if "(name, e) \<in> set (rm_sealed (closeRegion s))" for name e
  proof (cases "(name, e) \<in> set (rm_sealed s)")
    case True
    with assms show ?thesis by (auto simp: loopOk_def)
  next
    case False
    from closeRegion_sealed [OF ok that False] show ?thesis by (simp add: entryOk_def)
  qed
  moreover have "namedIn (rm_region s) (rm_playlists (closeRegion s))"
    using closeRegion_playlists ok(2) by (rule namedIn_subset)
  ultimately show ?thesis
    using assms regionsOk_closed [OF ok(1)] closeRegion_stops(1) [OF ok(1)] by (auto simp: loopOk_def)
qed

text \<open>Opening the next region, from a state whose old region may still be growing.\<close>

lemma loopOk_openRegion:
  assumes "loopOk s" and "\<forall>req. rm_publishing s = Some req \<longrightarrow> \<not> pr_complete req"
  shows "loopOk (openRegion s)"
proof -
  let ?k = "rm_region s"
  define t where "t = s\<lparr>rm_region := ?k + 1, rm_start := rm_nextStart s, rm_regionStartMs := toMs (rm_nextStart s),
      rm_aimMs := (if rm_fillEnd s \<noteq> None then toMs (rm_nextStart s) else max (rm_aimMs s) (toMs (rm_nextStart s)))\<rparr>"
  have t: "rm_regions t = rm_regions s" "rm_playlists t = rm_playlists s" "rm_sealed t = rm_sealed s"
      "rm_region t = ?k + 1" "rm_publishing t = rm_publishing s"
    by (simp_all add: t_def)
  have ok: "regionsOk ?k (rm_regions t)" "namedIn ?k (rm_playlists t)"
    using assms(1) by (simp_all add: loopOk_def t)
  have entries: "entryOk (?k + 1) (name, e)" if "(name, e) \<in> set (rm_sealed (closeRegion t))" for name e
  proof (cases "(name, e) \<in> set (rm_sealed t)")
    case True
    then have "entryOk ?k (name, e)" using assms(1) by (simp add: loopOk_def t)
    then show ?thesis by (auto simp: entryOk_def Let_def)
  next
    case False
    from closeRegion_sealed [OF ok that False] show ?thesis by (simp add: entryOk_def t)
  qed
  have k: "0 \<le> ?k" using assms(1) by (simp add: loopOk_def regionsOk_def)
  let ?new = "\<lparr>rr_n = nat (?k + 1), rr_startMs = toMs (rm_nextStart s), rr_growing = True, rr_ranToEnd = False\<rparr>"
  have "map rr_n (rm_regions (closeRegion t) @ [?new]) = [0..<Suc (nat ?k)] @ [nat (?k + 1)]"
    using closeRegion_stops(2) [OF ok(1)] ok(1) by (simp add: regionsOk_def)
  also have "\<dots> = [0..<Suc (nat (?k + 1))]" using k by (simp add: nat_add_distrib)
  finally have "regionsOk (?k + 1) (rm_regions (closeRegion t) @ [?new])"
    using closeRegion_stops(1) [OF ok(1)] k by (auto simp: regionsOk_def anyGrowing_def)
  moreover have "openRegion s = (closeRegion t)\<lparr>rm_seekTarget := None,
      rm_regions := rm_regions (closeRegion t) @ [?new], rm_playlists := [], rm_phase := Opening\<rparr>"
    by (simp add: openRegion_def Let_def t_def)
  ultimately show ?thesis
    using entries assms(2) by (auto simp: loopOk_def t namedIn_def)
qed

text \<open>Events that touch neither the regions nor the phase: names only leave the tables.\<close>

lemma loopOk_same:
  assumes "loopOk s"
    and "rm_region t = rm_region s" "rm_regions t = rm_regions s" "rm_phase t = rm_phase s"
    and "set (mapKeys (rm_playlists t)) \<subseteq> set (mapKeys (rm_playlists s))"
    and "set (rm_sealed t) \<subseteq> set (rm_sealed s)"
    and "\<forall>req. rm_publishing t = Some req \<longrightarrow> pr_complete req \<longrightarrow> rm_phase s = Finishing"
  shows "loopOk t"
  using assms(1) namedIn_subset [OF assms(5)] assms(2-4,6,7) unfolding loopOk_def anyGrowing_def
  by (auto simp only: ball_simps subset_iff)

lemma kickPublish_fields [simp]:
  "rm_region (kickPublish s) = rm_region s" "rm_regions (kickPublish s) = rm_regions s"
  "rm_phase (kickPublish s) = rm_phase s" "rm_playlists (kickPublish s) = rm_playlists s"
  "rm_sealed (kickPublish s) = rm_sealed s" "rm_publishing (kickPublish s) = rm_publishing s"
  "rm_snaps (kickPublish s) = rm_snaps s" "rm_pending (kickPublish s) = rm_pending s"
  "rm_seekTarget (kickPublish s) = rm_seekTarget s" "rm_restartPending (kickPublish s) = rm_restartPending s"
  "rm_uploads (kickPublish s) = rm_uploads s" "rm_ledger (kickPublish s) = rm_ledger s"
  by (simp_all add: kickPublish_def)

lemma publishStart_fields [simp]:
  "rm_region (publishStart c s) = rm_region s" "rm_regions (publishStart c s) = rm_regions s"
  "rm_phase (publishStart c s) = rm_phase s" "rm_playlists (publishStart c s) = rm_playlists s"
  "rm_sealed (publishStart c s) = rm_sealed s"
  "rm_snaps (publishStart c s) = rm_snaps s" "rm_pending (publishStart c s) = rm_pending s"
  "rm_seekTarget (publishStart c s) = rm_seekTarget s" "rm_restartPending (publishStart c s) = rm_restartPending s"
  "\<exists>req. rm_publishing (publishStart c s) = Some req \<and> pr_complete req = c"
  by (simp_all add: publishStart_def Let_def)

lemma publishSettled_fields [simp]:
  "rm_region (publishSettled s) = rm_region s" "rm_regions (publishSettled s) = rm_regions s"
  "rm_phase (publishSettled s) = rm_phase s" "rm_playlists (publishSettled s) = rm_playlists s"
  "rm_sealed (publishSettled s) = rm_sealed s" "rm_publishing (publishSettled s) = None"
  "rm_snaps (publishSettled s) = rm_snaps s" "rm_pending (publishSettled s) = rm_pending s"
  "rm_seekTarget (publishSettled s) = rm_seekTarget s" "rm_restartPending (publishSettled s) = rm_restartPending s"
  by (simp_all add: publishSettled_def Let_def)

lemma publishAnswered_fields [simp]:
  "rm_region (publishAnswered req v s) = rm_region s" "rm_regions (publishAnswered req v s) = rm_regions s"
  "rm_phase (publishAnswered req v s) = rm_phase s" "rm_playlists (publishAnswered req v s) = rm_playlists s"
  "rm_snaps (publishAnswered req v s) = rm_snaps s" "rm_pending (publishAnswered req v s) = rm_pending s"
  "rm_seekTarget (publishAnswered req v s) = rm_seekTarget s" "rm_restartPending (publishAnswered req v s) = rm_restartPending s"
  "rm_sealed (publishAnswered req v s) = fold mapDelete (pr_sealing req) (rm_sealed s)"
  by (simp_all add: publishAnswered_def)

lemma failRemux_fields [simp]:
  "rm_region (failRemux err s) = rm_region s" "rm_regions (failRemux err s) = rm_regions s"
  "rm_phase (failRemux err s) = rm_phase s" "rm_playlists (failRemux err s) = rm_playlists s"
  "rm_sealed (failRemux err s) = rm_sealed s" "rm_publishing (failRemux err s) = rm_publishing s"
  "rm_snaps (failRemux err s) = rm_snaps s" "rm_pending (failRemux err s) = rm_pending s"
  "rm_seekTarget (failRemux err s) = rm_seekTarget s" "rm_restartPending (failRemux err s) = rm_restartPending s"
  by (simp_all add: failRemux_def)

lemma fold_mapDelete_subset: "set (fold mapDelete names m) \<subseteq> set m"
  by (induction names arbitrary: m) (use set_mapDelete_subset in fastforce)+

text \<open>The fields the loop's shape is about, as one value: most events keep it.\<close>

definition shape :: "remux \<Rightarrow> int \<times> region_record list \<times> phase \<times> (nat \<times> int) list \<times> nat option \<times> rat option \<times> bool" where
  "shape s = (rm_region s, rm_regions s, rm_phase s, rm_snaps s, rm_pending s, rm_seekTarget s, rm_restartPending s)"

definition keepsTables :: "remux \<Rightarrow> remux \<Rightarrow> bool" where
  "keepsTables s t \<longleftrightarrow> shape t = shape s
     \<and> set (mapKeys (rm_playlists t)) \<subseteq> set (mapKeys (rm_playlists s)) \<and> set (rm_sealed t) \<subseteq> set (rm_sealed s)"

lemma quiet_event:
  assumes "e \<in> {Tick, TimerFired, PublishFailed err, Upload ue} \<or> e = PublishOk vouched \<and>
      (\<forall>req. rm_publishing s = Some req \<longrightarrow> \<not> pr_complete req)"
    and "e = PublishFailed err \<longrightarrow> \<not> (rm_phase s = Finishing \<and> 0 < rm_rounds s)"
  shows "keepsTables s (remuxEvent s e) \<and>
    (\<forall>req. rm_publishing (remuxEvent s e) = Some req \<longrightarrow> rm_publishing s = Some req \<or> \<not> pr_complete req)"
proof -
  have run: "keepsTables s (runPublish t) \<and>
      (\<forall>req. rm_publishing (runPublish t) = Some req \<longrightarrow> rm_publishing s = Some req \<or> \<not> pr_complete req)"
    if "t = s \<or> t = s\<lparr>rm_kickTimer := False\<rparr>" for t
  proof (cases "failed t \<or> rm_publishStopped t \<or> rm_publishing t \<noteq> None")
    case True
    then show ?thesis using that by (auto simp: runPublish_def keepsTables_def shape_def)
  next
    case False
    then have "runPublish t = publishStart False (t\<lparr>rm_publishDirty := False\<rparr>)" by (simp add: runPublish_def)
    moreover from publishStart_fields(10) [of False "t\<lparr>rm_publishDirty := False\<rparr>"]
    obtain req where "rm_publishing (publishStart False (t\<lparr>rm_publishDirty := False\<rparr>)) = Some req" "\<not> pr_complete req"
      by auto
    ultimately show ?thesis using that by (auto simp: keepsTables_def shape_def)
  qed
  consider "e = Tick" | "e = TimerFired" | "e = PublishFailed err" | "e = Upload ue"
    | "e = PublishOk vouched" "\<forall>req. rm_publishing s = Some req \<longrightarrow> \<not> pr_complete req"
    using assms(1) by auto
  then show ?thesis
  proof cases
    case 1
    then show ?thesis using run [of s] by simp
  next
    case 2
    then show ?thesis using run [of "s\<lparr>rm_kickTimer := False\<rparr>"] by (simp add: timerFired_def)
  next
    case 3
    then show ?thesis using assms(2)
      by (auto simp: publishError_def publishFailed_def keepsTables_def shape_def split: option.split)
  next
    case 4
    then show ?thesis by (auto simp: uploadDone_def Let_def keepsTables_def shape_def split: upload_event.split)
  next
    case 5
    then show ?thesis
      using fold_mapDelete_subset
      by (auto simp: publishAnswer_def publishOk_def keepsTables_def shape_def split: option.split)
  qed
qed

lemma loopOk_keeps:
  assumes "loopOk s" and "keepsTables s t"
    and "\<forall>req. rm_publishing t = Some req \<longrightarrow> rm_publishing s = Some req \<or> \<not> pr_complete req"
  shows "loopOk t"
proof (rule loopOk_same [OF assms(1)])
  show "\<forall>req. rm_publishing t = Some req \<longrightarrow> pr_complete req \<longrightarrow> rm_phase s = Finishing"
    using assms(1,3) unfolding loopOk_def by blast
qed (use assms(2) in \<open>simp_all add: keepsTables_def shape_def\<close>)

lemma loopOk_restartAt [keeps]:
  assumes "loopOk s"
  shows "loopOk (restartAt ms s)"
proof -
  have "loopOk (closeRegion (s\<lparr>rm_restartPending := True\<rparr>))"
    using assms by (intro loopOk_closeRegion) (simp add: loopOk_def anyGrowing_def)
  then show ?thesis by (simp add: restartAt_def Let_def loopOk_def anyGrowing_def)
qed

lemma loopOk_follow [keeps]: "loopOk s \<Longrightarrow> loopOk (follow ms s)"
  unfolding follow_def Let_def
  by (auto intro!: loopOk_restartAt) (simp_all add: loopOk_def anyGrowing_def)

lemma loopOk_breakRun [keeps]:
  "loopOk s \<Longrightarrow> \<forall>req. rm_publishing s = Some req \<longrightarrow> \<not> pr_complete req \<Longrightarrow> loopOk (breakRun s)"
  by (auto simp: breakRun_def loopOk_def anyGrowing_def)

lemma loopOk_phase:
  "loopOk s \<Longrightarrow> rm_phase s \<noteq> Finishing \<Longrightarrow> (closedPhase ph \<longrightarrow> \<not> anyGrowing s) \<Longrightarrow> loopOk (s\<lparr>rm_phase := ph\<rparr>)"
  by (auto simp: loopOk_def anyGrowing_def)

lemma not_completing: "loopOk s \<Longrightarrow> rm_phase s \<noteq> Finishing \<Longrightarrow> \<forall>req. rm_publishing s = Some req \<longrightarrow> \<not> pr_complete req"
  by (auto simp: loopOk_def)

lemma loopOk_initDone [keeps]:
  assumes "loopOk s" and "rm_phase s = Opening"
  shows "loopOk (initDone valid s)"
proof -
  have "loopOk (s\<lparr>rm_restartPending := False, rm_phase := Converting\<rparr>)"
    using assms by (auto simp: loopOk_def anyGrowing_def)
  moreover have "loopOk (breakRun s)" using assms by (intro loopOk_breakRun not_completing) auto
  ultimately show ?thesis
    by (auto simp: initDone_def Let_def intro: loopOk_restartAt split: option.split)
qed

lemma loopOk_executeDone [keeps]:
  assumes "loopOk s" and "rm_phase s = Converting"
  shows "loopOk (executeDone how s)"
proof -
  have ok: "loopOk t" "rm_phase t = Converting" if "t = s \<or> (\<exists>err. t = failRemux err s)" for t
    using that assms by (auto simp: loopOk_def anyGrowing_def)
  have "loopOk (breakRun t)" "loopOk (t\<lparr>rm_phase := AfterExecute\<rparr>)" if t: "t = s \<or> (\<exists>err. t = failRemux err s)" for t
  proof -
    have "\<forall>req. rm_publishing t = Some req \<longrightarrow> \<not> pr_complete req"
      using ok [OF t] by (intro not_completing) simp_all
    with ok [OF t] show "loopOk (breakRun t)" by (intro loopOk_breakRun)
    show "loopOk (t\<lparr>rm_phase := AfterExecute\<rparr>)" using ok [OF t] by (intro loopOk_phase) simp_all
  qed
  then show ?thesis by (auto simp: executeDone_def Let_def split: option.split)
qed

text \<open>What of a region its shape is about.\<close>

definition regionView :: "region_record \<Rightarrow> nat \<times> bool" where
  "regionView r = (rr_n r, rr_growing r)"

lemma regionView_mark [simp]: "map regionView (markRanToEnd k rs) = map regionView rs"
  by (simp add: markRanToEnd_def regionView_def)

lemma growing_view: "(\<exists>r \<in> set rs. rr_growing r) = (\<exists>v \<in> set (map regionView rs). snd v)"
  by (simp add: regionView_def)

lemma regionsOk_view: "regionsOk k rs \<longleftrightarrow> 0 \<le> k \<and> map fst (map regionView rs) = [0..<Suc (nat k)]
    \<and> (\<forall>v \<in> set (map regionView rs). snd v \<longrightarrow> int (fst v) = k)"
proof -
  have "map fst (map regionView rs) = map rr_n rs" by (simp add: regionView_def)
  moreover have "(\<forall>v \<in> set (map regionView rs). snd v \<longrightarrow> int (fst v) = k) = (\<forall>r \<in> set rs. rr_growing r \<longrightarrow> int (rr_n r) = k)"
    by (simp add: regionView_def)
  ultimately show ?thesis by (simp only: regionsOk_def)
qed

lemma loopOk_setRegions:
  assumes "loopOk s" and "rm_phase s \<noteq> Finishing" and "map regionView rs = map regionView (rm_regions s)"
    and "closedPhase ph \<longrightarrow> \<not> anyGrowing s"
  shows "loopOk (s\<lparr>rm_fillEnd := f, rm_draining := d, rm_regions := rs, rm_phase := ph\<rparr>)"
proof -
  have "regionsOk (rm_region s) rs" using assms(1) unfolding loopOk_def regionsOk_view assms(3) by blast
  moreover have "(\<exists>r \<in> set rs. rr_growing r) = anyGrowing s" unfolding anyGrowing_def growing_view assms(3) ..
  moreover have "\<forall>req. rm_publishing s = Some req \<longrightarrow> \<not> pr_complete req" using assms(1,2) by (rule not_completing)
  ultimately show ?thesis using assms(1,4) unfolding loopOk_def anyGrowing_def by simp
qed

lemma loopOk_afterExecute [keeps]:
  assumes "loopOk s" and "rm_phase s = AfterExecute"
  shows "loopOk (afterExecute s)"
proof (cases "rm_seekTarget s")
  case (Some target)
  have "loopOk (openRegion (s\<lparr>rm_pending := None, rm_fillEnd := None, rm_nextStart := target\<rparr>))"
    using assms by (intro loopOk_openRegion) (auto simp: loopOk_def anyGrowing_def)
  with Some show ?thesis by (simp add: afterExecute_def)
next
  case None
  let ?c = "closeRegion (s\<lparr>rm_pending := None\<rparr>)"
  have "loopOk (s\<lparr>rm_pending := None\<rparr>)" using assms(1) by (simp add: loopOk_def anyGrowing_def)
  then have c: "loopOk ?c" by (rule loopOk_closeRegion)
  have quiet: "\<not> anyGrowing ?c" using assms(1) by (intro closeRegion_stops) (auto simp: loopOk_def)
  have set: "loopOk (?c\<lparr>rm_fillEnd := None, rm_draining := d, rm_regions := rs, rm_phase := ph\<rparr>)"
    if "map regionView rs = map regionView (rm_regions ?c)" for d rs ph
    using c assms(2) that quiet by (intro loopOk_setRegions) simp_all
  let ?rs = "if rm_fillEnd s \<noteq> None then rm_regions ?c else markRanToEnd (rm_region s) (rm_regions ?c)"
  have "afterExecute s = ?c\<lparr>rm_fillEnd := None, rm_draining := True, rm_regions := ?rs, rm_phase := Draining\<rparr>
      \<or> afterExecute s = ?c\<lparr>rm_fillEnd := None, rm_draining := rm_draining ?c, rm_regions := ?rs, rm_phase := Settling\<rparr>"
    by (simp add: afterExecute_def Let_def None startDraining_def)
  moreover have view: "map regionView ?rs = map regionView (rm_regions ?c)" by simp
  moreover note set [OF view, of Draining True] set [OF view, of Settling "rm_draining ?c"]
  ultimately show ?thesis by (elim disjE) (simp_all only:)
qed

lemma loopOk_settle [keeps]:
  "loopOk s \<Longrightarrow> rm_phase s = Settling \<Longrightarrow> loopOk (settleDone s)"
  "loopOk s \<Longrightarrow> rm_phase s = AfterSettle \<Longrightarrow> loopOk (afterSettle s)"
proof -
  show "loopOk (settleDone s)" if "loopOk s" "rm_phase s = Settling"
  proof -
    have "\<forall>req. rm_publishing s = Some req \<longrightarrow> \<not> pr_complete req" using that by (intro not_completing) simp_all
    then have "loopOk (breakRun s)" using that(1) by (intro loopOk_breakRun)
    moreover have "loopOk (s\<lparr>rm_phase := AfterSettle\<rparr>)"
      using that by (intro loopOk_phase) (simp_all add: loopOk_def)
    ultimately show ?thesis by (simp add: settleDone_def)
  qed
  show "loopOk (afterSettle s)" if ok: "loopOk s" "rm_phase s = AfterSettle"
  proof (cases "rm_seekTarget s")
    case (Some target)
    have "loopOk (openRegion (s\<lparr>rm_pending := None, rm_nextStart := target\<rparr>))"
      using ok by (intro loopOk_openRegion) (auto simp: loopOk_def anyGrowing_def)
    with Some show ?thesis by (simp add: afterSettle_def)
  next
    case None
    then show ?thesis
      using ok by (auto simp: afterSettle_def Let_def startDraining_def loopOk_def anyGrowing_def split: option.split)
  qed
qed

lemma loopOk_gapSnapped [keeps]:
  assumes "loopOk s" and "rm_phase s = GapSnap a b"
  shows "loopOk (gapSnapped b start s)"
  unfolding gapSnapped_def Let_def
  using assms by (intro loopOk_openRegion) (auto simp: loopOk_def anyGrowing_def)

lemma mapKeys_mapSet: "set (mapKeys (mapSet k v m)) = insert k (set (mapKeys m))"
  by simp

lemma loopOk_callbacks [keeps]:
  assumes "loopOk s"
  shows "loopOk (masterRendered content s)" and "loopOk (playlistRendered n content s)" and "loopOk (segmentMuxed p n s)"
proof -
  have "loopOk (s\<lparr>rm_playlists := mapSet (''r'' @ dec (nat (rm_region s)) @ ''_master.m3u8'') content
       (mapSet ''master.m3u8'' content (rm_playlists s))\<rparr>)"
    using assms unfolding loopOk_def namedIn_def mapKeys_mapSet anyGrowing_def by auto
  then show "loopOk (masterRendered content s)"
    unfolding masterRendered_def by (simp add: loopOk_def anyGrowing_def)
  show "loopOk (playlistRendered n content s)"
    using assms unfolding playlistRendered_def loopOk_def namedIn_def mapKeys_mapSet anyGrowing_def
    by (auto simp del: map_map)
  show "loopOk (segmentMuxed p n s)"
    using assms by (simp add: segmentMuxed_def loopOk_def anyGrowing_def)
qed

lemma loopOk_drained [keeps]:
  assumes "loopOk s" and "rm_phase s = Draining"
  shows "loopOk (drained s)"
proof -
  have none: "\<forall>req. rm_publishing s = Some req \<longrightarrow> \<not> pr_complete req" using assms by (intro not_completing) simp_all
  then have "loopOk (breakRun s)" using assms(1) by (intro loopOk_breakRun)
  moreover have "loopOk (s\<lparr>rm_phase := Finishing, rm_publishStopped := True, rm_kickTimer := False\<rparr>)"
    using assms none by (simp add: loopOk_def anyGrowing_def)
  ultimately show ?thesis by (simp add: drained_def)
qed

lemma loopOk_final [keeps]:
  assumes "loopOk s" and "rm_phase s = Finishing"
  shows "loopOk (drainPublish s)"
proof -
  have "loopOk (publishStart c (s\<lparr>rm_rounds := k\<rparr>))" for c k
    using assms by (auto simp: loopOk_def anyGrowing_def)
  then show ?thesis by (simp add: drainPublish_def)
qed

lemma loopOk_answers [keeps]:
  assumes "loopOk s"
  shows "loopOk (publishAnswer vouched s)" and "loopOk (publishError err s)"
proof -
  show "loopOk (publishAnswer vouched s)"
  proof (cases "\<exists>req. rm_publishing s = Some req \<and> pr_complete req")
    case True
    then obtain req where req: "rm_publishing s = Some req" "pr_complete req" by blast
    with assms have fin: "rm_phase s = Finishing" "\<not> anyGrowing s" by (auto simp: loopOk_def)
    have "set (rm_sealed (publishOk vouched s)) \<subseteq> set (rm_sealed s)"
      using fold_mapDelete_subset by (simp add: publishOk_def req)
    with req fin assms show ?thesis
      by (auto simp: publishAnswer_def loopOk_def anyGrowing_def publishOk_def)
  next
    case False
    then have q: "PublishOk vouched \<in> {Tick, TimerFired, PublishFailed err, Upload ue} \<or> PublishOk vouched = PublishOk vouched
        \<and> (\<forall>req. rm_publishing s = Some req \<longrightarrow> \<not> pr_complete req)" for err ue
      by blast
    have "PublishOk vouched = PublishFailed err \<longrightarrow> \<not> (rm_phase s = Finishing \<and> 0 < rm_rounds s)" by simp
    from quiet_event [OF q this] have "keepsTables s (publishAnswer vouched s)"
      "\<forall>req. rm_publishing (publishAnswer vouched s) = Some req \<longrightarrow> rm_publishing s = Some req \<or> \<not> pr_complete req"
      by simp_all
    with assms show ?thesis by (rule loopOk_keeps)
  qed
  show "loopOk (publishError err s)"
    using assms
    by (auto simp: publishError_def breakRun_def publishFailed_def loopOk_def anyGrowing_def split: option.split)
qed

lemma loopOk_step: "loopOk s \<Longrightarrow> loopOk (remuxStep s e)"
proof -
  assume ok: "loopOk s"
  have quiet: "loopOk (remuxEvent s e')" if "e' \<in> {Tick, TimerFired, Upload ue}" for e' ue
  proof -
    have "e' \<in> {Tick, TimerFired, PublishFailed err, Upload ue} \<or> e' = PublishOk v \<and>
        (\<forall>req. rm_publishing s = Some req \<longrightarrow> \<not> pr_complete req)"
      "e' = PublishFailed err \<longrightarrow> \<not> (rm_phase s = Finishing \<and> 0 < rm_rounds s)" for err v
      using that by auto
    from quiet_event [OF this] show ?thesis using loopOk_keeps [OF ok] by blast
  qed
  have snapped: "loopOk (restartSnapped i seconds s)" for i seconds
    using ok by (auto simp: restartSnapped_def loopOk_def anyGrowing_def split: option.split)
  show ?thesis
    unfolding remuxStep_def using ok quiet [of e] snapped
    by (cases e) (auto intro: keeps simp del: awaited.simps(1) split: phase.splits)
qed

interpretation remux: component remuxStep loopOk
  by unfold_locales (rule loopOk_step)

lemma loopOk_start: "loopOk (remuxStart durationMs)"
  by (simp add: remuxStart_def openRegion_def closeRegion_def Let_def loopOk_def regionsOk_def namedIn_def anyGrowing_def)

lemma loopOk_run: "loopOk (runRemux durationMs es)"
  unfolding runRemux_def by (rule remux.run_keeps) (rule loopOk_start)

section \<open>Runs whose restarts wait for a conversion\<close>

text \<open>
  A position reported while a region is being opened, or while the keyframe of
  a gap is looked for, may start a restart nobody waits for. The calm runs are
  those where this does not happen.
\<close>

fun snapping :: "phase \<Rightarrow> bool" where
  "snapping Opening = True"
| "snapping (GapSnap _ _) = True"
| "snapping _ = False"

fun calmEvent :: "remux \<Rightarrow> remux_event \<Rightarrow> bool" where
  "calmEvent s (Follow _) = (rm_restartPending s \<or> \<not> snapping (rm_phase s))"
| "calmEvent s _ = True"

definition calmOk :: "remux \<Rightarrow> bool" where
  "calmOk s \<longleftrightarrow>
     (rm_snaps s \<noteq> [] \<or> rm_seekTarget s \<noteq> None \<longrightarrow>
        rm_restartPending s \<and> \<not> anyGrowing s \<and> \<not> snapping (rm_phase s))
   \<and> (\<forall>i \<in> fst ` set (rm_snaps s). rm_pending s = Some i)
   \<and> (\<forall>ne \<in> set (rm_sealed s). se_prefix (snd ne) = regionTag (int (se_region (snd ne))))"

lemma calmOk_keeps:
  assumes "calmOk s" and "keepsTables s t"
  shows "calmOk t"
proof -
  have "rm_snaps t = rm_snaps s" "rm_seekTarget t = rm_seekTarget s" "rm_restartPending t = rm_restartPending s"
    "anyGrowing t = anyGrowing s" "rm_phase t = rm_phase s" "rm_pending t = rm_pending s" "set (rm_sealed t) \<subseteq> set (rm_sealed s)"
    using assms(2) by (simp_all add: keepsTables_def shape_def anyGrowing_def)
  with assms(1) show ?thesis unfolding calmOk_def by (simp only: subset_iff) blast
qed

lemma closeRegion_idle: "\<not> anyGrowing s \<Longrightarrow> closeRegion s = s"
  by (auto simp: closeRegion_def anyGrowing_def find_Some_iff split: option.split)

lemma calmOk_closeRegion:
  assumes "loopOk s" and "calmOk s"
  shows "calmOk (closeRegion s)"
proof -
  have ok: "regionsOk (rm_region s) (rm_regions s)" "namedIn (rm_region s) (rm_playlists s)"
    using assms(1) by (simp_all add: loopOk_def)
  have "se_prefix e = regionTag (int (se_region e))" if "(name, e) \<in> set (rm_sealed (closeRegion s))" for name e
  proof (cases "(name, e) \<in> set (rm_sealed s)")
    case True
    with assms(2) show ?thesis by (auto simp: calmOk_def)
  next
    case False
    from closeRegion_sealed [OF ok that False] show ?thesis by simp
  qed
  with assms(2) closeRegion_stops(1) [OF ok(1)] show ?thesis by (auto simp: calmOk_def)
qed

lemma calmOk_restartAt:
  assumes ok: "loopOk s" and calm: "calmOk s" and "\<not> rm_restartPending s" and "\<not> snapping (rm_phase s)"
  shows "calmOk (restartAt ms s)"
proof -
  let ?s = "s\<lparr>rm_restartPending := True\<rparr>"
  have none: "rm_snaps s = []" "rm_seekTarget s = None" using calm assms(3) by (auto simp: calmOk_def)
  have "loopOk ?s" "calmOk ?s" using ok calm none by (simp_all add: loopOk_def calmOk_def anyGrowing_def)
  then have "calmOk (closeRegion ?s)" by (rule calmOk_closeRegion)
  moreover have "\<not> anyGrowing (closeRegion ?s)"
    using ok by (intro closeRegion_stops) (auto simp: loopOk_def)
  ultimately show ?thesis
    using none assms(4) by (simp add: restartAt_def Let_def calmOk_def anyGrowing_def)
qed

lemma calmOk_openRegion:
  assumes "calmOk s" and "\<not> anyGrowing s" and "rm_snaps s = []"
  shows "calmOk (openRegion s)"
proof -
  let ?k = "rm_region s"
  define t where "t = s\<lparr>rm_region := ?k + 1, rm_start := rm_nextStart s, rm_regionStartMs := toMs (rm_nextStart s),
      rm_aimMs := (if rm_fillEnd s \<noteq> None then toMs (rm_nextStart s) else max (rm_aimMs s) (toMs (rm_nextStart s)))\<rparr>"
  have "\<not> anyGrowing t" using assms(2) by (simp add: t_def anyGrowing_def)
  then have "closeRegion t = t" by (rule closeRegion_idle)
  moreover have "openRegion s = (closeRegion t)\<lparr>rm_seekTarget := None,
      rm_regions := rm_regions (closeRegion t) @
        [\<lparr>rr_n = nat (?k + 1), rr_startMs = toMs (rm_nextStart s), rr_growing = True, rr_ranToEnd = False\<rparr>],
      rm_playlists := [], rm_phase := Opening\<rparr>"
    by (simp add: openRegion_def Let_def t_def)
  ultimately show ?thesis using assms by (simp add: calmOk_def t_def)
qed

lemma resolved_calm: "calmOk s \<Longrightarrow> restartResolved s \<Longrightarrow> rm_snaps s = []"
  by (cases "rm_snaps s") (auto simp: calmOk_def restartResolved_def split: option.splits)

lemma calmOk_afterExecute:
  assumes ok: "loopOk s" and calm: "calmOk s" and "restartResolved s" and phase: "rm_phase s = AfterExecute"
  shows "calmOk (afterExecute s)"
proof -
  have snaps: "rm_snaps s = []" using resolved_calm calm assms(3) by blast
  show ?thesis
  proof (cases "rm_seekTarget s")
    case (Some target)
    have "calmOk (openRegion (s\<lparr>rm_pending := None, rm_fillEnd := None, rm_nextStart := target\<rparr>))"
      using calm snaps Some by (intro calmOk_openRegion) (auto simp: calmOk_def anyGrowing_def)
    with Some show ?thesis by (simp add: afterExecute_def)
  next
    case None
    let ?t = "s\<lparr>rm_pending := None\<rparr>"
    have "loopOk ?t" "calmOk ?t" using ok calm snaps by (simp_all add: loopOk_def calmOk_def anyGrowing_def)
    from calmOk_closeRegion [OF this] None snaps show ?thesis
      by (auto simp: afterExecute_def Let_def startDraining_def calmOk_def)
  qed
qed

lemma calmOk_afterSettle:
  assumes ok: "loopOk s" and calm: "calmOk s" and "restartResolved s" and phase: "rm_phase s = AfterSettle"
  shows "calmOk (afterSettle s)"
proof -
  have snaps: "rm_snaps s = []" using resolved_calm calm assms(3) by blast
  have quiet: "\<not> anyGrowing s" using ok phase by (simp add: loopOk_def)
  show ?thesis
  proof (cases "rm_seekTarget s")
    case (Some target)
    have "calmOk (openRegion (s\<lparr>rm_pending := None, rm_nextStart := target\<rparr>))"
      using calm snaps quiet by (intro calmOk_openRegion) (auto simp: calmOk_def anyGrowing_def)
    with Some show ?thesis by (simp add: afterSettle_def)
  next
    case None
    then show ?thesis
      using calm snaps by (auto simp: afterSettle_def Let_def startDraining_def calmOk_def anyGrowing_def split: option.split)
  qed
qed

lemma calmOk_other:
  assumes "calmOk s" and "rm_snaps t = rm_snaps s" "rm_seekTarget t = rm_seekTarget s" "rm_pending t = rm_pending s"
    and "rm_restartPending t = rm_restartPending s" "rm_regions t = rm_regions s" "set (rm_sealed t) \<subseteq> set (rm_sealed s)"
    and "snapping (rm_phase t) \<longrightarrow> snapping (rm_phase s)"
  shows "calmOk t"
  using assms(1) assms(7,8) unfolding calmOk_def anyGrowing_def assms(2-6) by blast

lemma calmOk_restartSnapped:
  assumes "calmOk s"
  shows "calmOk (restartSnapped i seconds s)"
proof (cases "map_of (rm_snaps s) i")
  case (Some ms)
  then have "rm_snaps s \<noteq> []" by auto
  then show ?thesis
    using assms set_mapDelete_subset [of i "rm_snaps s"]
    by (auto simp: restartSnapped_def Some calmOk_def anyGrowing_def)
qed (use assms in \<open>simp add: restartSnapped_def\<close>)

lemma calmOk_initDone:
  assumes "loopOk s" and "calmOk s" and "rm_phase s = Opening"
  shows "calmOk (initDone valid s)"
proof -
  let ?t = "s\<lparr>rm_restartPending := False, rm_phase := Converting\<rparr>"
  have "loopOk ?t" using assms(1,3) by (auto simp: loopOk_def anyGrowing_def)
  moreover have t: "calmOk ?t" using assms(2,3) by (auto simp: calmOk_def anyGrowing_def)
  ultimately have "calmOk (restartAt ms ?t)" for ms by (intro calmOk_restartAt) simp_all
  moreover have "calmOk (breakRun s)" using assms(2) by (rule calmOk_other) (simp_all add: breakRun_def)
  ultimately show ?thesis using t by (auto simp: initDone_def Let_def split: option.split)
qed

lemma calmOk_answers:
  assumes ok: "loopOk s" and calm: "calmOk s"
  shows "calmOk (publishAnswer vouched s)" and "calmOk (publishError err s)"
proof -
  have sealed: "set (rm_sealed (publishOk vouched s)) \<subseteq> set (rm_sealed s)"
    by (simp add: publishOk_def fold_mapDelete_subset split: option.split)
  then have "calmOk (publishOk vouched s)"
    by (rule calmOk_other [OF calm, rotated 5]) (simp_all add: publishOk_def split: option.split)
  moreover have "calmOk ((publishOk vouched s)\<lparr>rm_phase := Ended\<rparr>)"
    by (rule calmOk_other [OF calm]) (use sealed in \<open>simp_all add: publishOk_def split: option.split\<close>)
  ultimately show "calmOk (publishAnswer vouched s)"
    using calm by (auto simp: publishAnswer_def split: option.split)
  show "calmOk (publishError err s)"
    by (rule calmOk_other [OF calm]) (auto simp: publishError_def breakRun_def publishFailed_def split: option.split)
qed

lemma calmOk_follow:
  assumes "loopOk s" and "calmOk s" and "calmEvent s (Follow ms)"
  shows "calmOk (follow ms s)"
proof -
  let ?t = "s\<lparr>rm_lastFollow := Some ms\<rparr>"
  have t: "loopOk ?t" "calmOk ?t" using assms(1,2) by (simp_all add: loopOk_def calmOk_def anyGrowing_def)
  then have "calmOk (restartAt ms ?t)" if "\<not> rm_restartPending s"
    using that assms(3) by (intro calmOk_restartAt) simp_all
  with t(2) show ?thesis by (simp add: follow_def Let_def)
qed

lemma calmOk_step:
  assumes ok: "loopOk s" and calm: "calmOk s" and ev: "calmEvent s e"
  shows "calmOk (remuxStep s e)"
proof -
  have quiet: "calmOk (remuxEvent s e')" if "e' \<in> {Tick, TimerFired, Upload ue}" for e' ue
  proof -
    have "e' \<in> {Tick, TimerFired, PublishFailed err, Upload ue} \<or> e' = PublishOk v \<and>
        (\<forall>req. rm_publishing s = Some req \<longrightarrow> \<not> pr_complete req)"
      "e' = PublishFailed err \<longrightarrow> \<not> (rm_phase s = Finishing \<and> 0 < rm_rounds s)" for err v
      using that by auto
    from quiet_event [OF this] show ?thesis using calmOk_keeps [OF calm] by blast
  qed
  have callbacks: "calmOk (masterRendered content s)" "calmOk (playlistRendered n content s)" "calmOk (segmentMuxed p n s)"
      for content n p
    by (rule calmOk_other [OF calm]; simp add: masterRendered_def playlistRendered_def segmentMuxed_def)+
  have drains: "calmOk (drainPublish s)" "calmOk (drained s)"
    by (rule calmOk_other [OF calm]; simp add: drainPublish_def drained_def breakRun_def)+
  have phases: "calmOk (executeDone how s)" "calmOk (settleDone s)" for how
    by (rule calmOk_other [OF calm];
        simp add: executeDone_def settleDone_def Let_def breakRun_def split: option.split)+
  have gap: "calmOk (gapSnapped b start s)" if "rm_phase s = GapSnap a b" for a b start
  proof -
    have "rm_snaps s = []" "\<not> anyGrowing s" using ok calm that by (auto simp: calmOk_def loopOk_def)
    then show ?thesis
      unfolding gapSnapped_def Let_def using calm that
      by (intro calmOk_openRegion) (auto simp: calmOk_def anyGrowing_def)
  qed
  show ?thesis
  proof (cases "awaited s e")
    case False
    with calm show ?thesis by (simp add: remuxStep_def)
  next
    case True
    have "calmOk (remuxEvent s e)"
    proof (cases e)
      case (Upload ue)
      then show ?thesis using quiet [of e ue] by simp
    next
      case Tick
      then show ?thesis using quiet [of e] by simp
    next
      case TimerFired
      then show ?thesis using quiet [of e] by simp
    next
      case (Follow ms)
      then show ?thesis using calmOk_follow [OF ok calm] ev by simp
    next
      case (InitDone valid)
      then show ?thesis using calmOk_initDone [OF ok calm] True by simp
    next
      case ExecuteAwaited
      then show ?thesis using calmOk_afterExecute [OF ok calm] True by simp
    next
      case SettleAwaited
      then show ?thesis using calmOk_afterSettle [OF ok calm] True by simp
    next
      case (GapSnapped start)
      with True obtain a b where "rm_phase s = GapSnap a b" by (auto split: phase.splits)
      with GapSnapped gap show ?thesis by simp
    qed (simp_all add: callbacks drains phases calmOk_answers [OF ok calm] calmOk_restartSnapped [OF calm])
    with True show ?thesis by (simp add: remuxStep_def)
  qed
qed


lemma calm_run:
  "loopOk s \<Longrightarrow> calmOk s \<Longrightarrow> along remuxStep calmEvent s es \<Longrightarrow> calmOk (foldl remuxStep s es)"
  by (induction es arbitrary: s) (simp_all add: loopOk_step calmOk_step)

section \<open>The uploads of a run\<close>




lemma uploadsOk_uploadedOnly [simp]: "uploadsOk (u\<lparr>uq_uploaded := v\<rparr>) = uploadsOk u"
  using uploadsOk_uploaded [of "uq_uploadedBytes u" v u] by simp









section \<open>Properties\<close>

text \<open>
  C6: in every run, whatever the conversions, seeks, uploads and publishes do,
  the regions are numbered in the order they are opened, only the current one
  can be growing, none is once a region ran out, and a sealed playlist is
  named after the region it was rendered for.
\<close>

theorem one_region_grows:
  defines "s durationMs es \<equiv> runRemux durationMs es"
  shows "map rr_n (rm_regions (s durationMs es)) = [0..<Suc (nat (rm_region (s durationMs es)))]
    \<and> filter rr_growing (rm_regions (s durationMs es)) \<in>
        {[], filter (\<lambda>r. int (rr_n r) = rm_region (s durationMs es)) (rm_regions (s durationMs es))}
    \<and> (closedPhase (rm_phase (s durationMs es)) \<longrightarrow> filter rr_growing (rm_regions (s durationMs es)) = [])
    \<and> list_all (\<lambda>(name, e). name = playlistName (int (se_region e)) (se_playlist e)) (rm_sealed (s durationMs es))"
proof -
  let ?s = "runRemux durationMs es"
  have ok: "loopOk ?s" by (rule loopOk_run)
  let ?k = "rm_region ?s"
  have regions: "map rr_n (rm_regions ?s) = [0..<Suc (nat ?k)]" "distinct (map rr_n (rm_regions ?s))"
      "\<forall>r \<in> set (rm_regions ?s). rr_growing r \<longrightarrow> int (rr_n r) = ?k"
    using ok regionsOk_distinct by (auto simp: loopOk_def regionsOk_def)
  have "filter rr_growing rs \<in> {[], filter (\<lambda>r. int (rr_n r) = ?k) rs}"
    if "distinct (map rr_n rs)" "\<forall>r \<in> set rs. rr_growing r \<longrightarrow> int (rr_n r) = ?k" for rs
    using that
  proof (induction rs)
    case (Cons r rs)
    show ?case
    proof (cases "int (rr_n r) = ?k")
      case True
      have "int (rr_n x) \<noteq> ?k" if "x \<in> set rs" for x
        using Cons.prems(1) True that by (metis distinct.simps(2) image_eqI list.set_map list.simps(9) of_nat_eq_iff)
      then have "filter (\<lambda>x. int (rr_n x) = ?k) rs = []" "filter rr_growing rs = []"
        using Cons.prems(2) by (auto simp: filter_empty_conv)
      with True show ?thesis by auto
    next
      case False
      with Cons show ?thesis by auto
    qed
  qed simp
  from this [OF regions(2,3)] regions(1) ok show ?thesis
    by (auto simp: s_def loopOk_def anyGrowing_def filter_empty_conv list_all_iff entryOk_def Let_def)
qed

theorem one_region_grows_witness:
  "filter rr_growing (rm_regions (runRemux 600000 [InitDone True, ExecuteDone RanOut, ExecuteAwaited])) = []"
proof -
  have "closedPhase (rm_phase (runRemux 600000 [InitDone True, ExecuteDone RanOut, ExecuteAwaited]))"
    by code_simp
  with one_region_grows [of 600000 "[InitDone True, ExecuteDone RanOut, ExecuteAwaited]"] show ?thesis by blast
qed





text \<open>
  A seek that lands while the host looks for the keyframe of a gap leaves a
  restart behind that nobody waits for. Its region is closed at the top of the
  loop, when the region counter has moved on, so its playlist is sealed under
  the next region's prefix: it is ended while a segment of it is in flight, and
  that segment is never listed.
\<close>

definition gapSeekEvents :: "remux_event list" where
  "gapSeekEvents =
     [InitDone True, Follow 300000, ExecuteDone Canceled, RestartSnapped 0 300, ExecuteAwaited,
      InitDone True, ExecuteDone RanOut, ExecuteAwaited, SettleDone, SettleAwaited,
      Follow 310000, GapSnapped 300, InitDone True, SegmentMuxed 1 1, SegmentMuxed 1 2,
      PlaylistRendered 1 (''#EXTINF:4,'' @ [NL] @ ''r2_cs_1_1.m4s'' @ [NL] @ ''#EXTINF:4,'' @ [NL] @ ''r2_cs_1_2.m4s'' @ [NL]),
      Upload (Finalized ''r2_cs_1_1.m4s'' (Some 900)), Upload PumpEnded, Upload (Presigned 0 [''r2_cs_1_1.m4s'']),
      Upload (PutOk 0 \<lparr>po_id = 0, po_name = ''r2_cs_1_1.m4s'', po_size = 900\<rparr>), TimerFired,
      PublishOk [''r2_cs_1_1.m4s''], Upload (Finalized ''r2_cs_1_2.m4s'' (Some 900)),
      RestartSnapped 1 308, ExecuteDone RanOut, ExecuteAwaited]"

text \<open>
  In this run, a seek during the keyframe search of a gap makes the host seal the
  second region under the third region's prefix, and its playlist is about to be ended
  although the segment of it that is in flight is not listed.
\<close>

lemma seek_during_gap_cuts_region:
  "let s = runRemux 600000 gapSeekEvents
   in map (\<lambda>e. (se_region e, se_prefix e)) (map snd (rm_sealed s)) = [(2, ''r3_'')]
    \<and> sealing False s =
        [(''r2_client_stream_1.m3u8'', ''#EXTINF:4,'' @ [NL] @ ''r2_cs_1_1.m4s'' @ [NL] @ ''#EXT-X-ENDLIST'' @ [NL])]
    \<and> uq_inflightNames (rm_uploads s) = [''r2_cs_1_2.m4s'']"
  by code_simp

text \<open>
  A publish still in flight when the run drains may fail without the run
  failing: it is awaited, its failure is recorded, and the final publishes go on
  without the names it took.
\<close>

definition lateFailureEvents :: "remux_event list" where
  "lateFailureEvents =
     [InitDone True, SegmentMuxed 1 1, Upload (Finalized ''cs_1_1.m4s'' (Some 900)), Upload PumpEnded,
      Upload (Presigned 0 [''cs_1_1.m4s'']),
      Upload (PutOk 0 \<lparr>po_id = 0, po_name = ''cs_1_1.m4s'', po_size = 900\<rparr>), ExecuteDone RanOut, ExecuteAwaited,
      Tick, Drained, PublishFailed ''offline'', FinalPublish, PublishOk []]"

text \<open>
  In this run the last publish of the timer fails, the run has failed, its names are
  gone, and yet it ends as a complete run with nothing confirmed.
\<close>

lemma late_publish_failure_is_swallowed:
  "let s = runRemux 600000 lateFailureEvents
   in rm_phase s = Ended \<and> failed s \<and> uq_uploaded (rm_uploads s) = [] \<and> contiguousIn (rm_ledger s) 0 1 = 0"
  by code_simp

end
