(* ===== verification/Bytes.thy ===== *)
theory Bytes
  imports Prelude
begin

text \<open>
  Files as lists of bytes: the slice of a file between two offsets, how
  adjoining slices join, and the contract of a component that hands out a file
  in order, \<open>byte_source\<close>: whatever it does, what it has handed out is the
  slice between where its cursor was and where it is.
\<close>

section \<open>Slices\<close>

definition slice :: "'b list \<Rightarrow> nat \<Rightarrow> nat \<Rightarrow> 'b list" where
  "slice src a b = take (b - a) (drop a src)"

lemma slice_self [simp]: "slice src a a = []"
  by (simp add: slice_def)

lemma slice_empty [simp]: "b \<le> a \<Longrightarrow> slice src a b = []"
  by (simp add: slice_def)

lemma length_slice [simp]: "length (slice src a b) = min (b - a) (length src - a)"
  by (simp add: slice_def)

lemma slice_join: "a \<le> b \<Longrightarrow> b \<le> c \<Longrightarrow> slice src a b @ slice src b c = slice src a c"
proof -
  assume "a \<le> b" "b \<le> c"
  then obtain m n where "b = a + m" "c = a + m + n" by (metis le_iff_add)
  then show ?thesis by (simp add: slice_def take_add add.commute)
qed

lemma slice_join_append [simp]:
  "a \<le> b \<Longrightarrow> b \<le> c \<Longrightarrow> slice src a b @ slice src b c @ xs = slice src a c @ xs"
  by (simp flip: slice_join [of a b c] append_assoc)

lemma take_slice [simp]: "take n (slice src a b) = slice src a (min b (a + n))"
proof -
  have "min n (b - a) = min b (a + n) - a" by simp
  then show ?thesis by (simp add: slice_def)
qed

lemma drop_slice [simp]: "drop n (slice src a b) = slice src (a + n) b"
  by (simp add: slice_def drop_take add.commute)

lemma slice_append_right: "slice (xs @ ys) a b = slice xs a b @ slice ys (a - length xs) (b - length xs)"
  by (cases "a \<le> length xs") (simp_all add: slice_def)

text \<open>Bytes that lie in the src at an offset.\<close>

definition liesAt :: "'b list \<Rightarrow> nat \<Rightarrow> 'b list \<Rightarrow> bool" where
  "liesAt src offset bytes \<longleftrightarrow> take (length bytes) (drop offset src) = bytes"

lemma liesAt_Nil [simp]: "liesAt src a []"
  by (simp add: liesAt_def)

lemma liesAt_slice: "liesAt src a (slice src a b)"
  by (simp add: liesAt_def slice_def min_def)

lemma liesAt_eq: "liesAt src a bytes \<Longrightarrow> slice src a (a + length bytes) = bytes"
  by (simp add: liesAt_def slice_def)

lemma take_eq_append:
  "take (length xs + length ys) zs = xs @ ys \<longleftrightarrow> take (length xs) zs = xs \<and> take (length ys) (drop (length xs) zs) = ys"
proof (induction xs arbitrary: zs)
  case (Cons x xs)
  then show ?case by (cases zs) auto
qed simp

lemma liesAt_append: "liesAt src a (xs @ ys) \<longleftrightarrow> liesAt src a xs \<and> liesAt src (a + length xs) ys"
  by (simp add: liesAt_def take_eq_append add.commute)

lemma liesAt_take: "liesAt src a bytes \<Longrightarrow> liesAt src a (take n bytes)"
  using liesAt_append [of src a "take n bytes" "drop n bytes"] by simp

lemma liesAt_drop: "liesAt src a bytes \<Longrightarrow> n \<le> length bytes \<Longrightarrow> liesAt src (a + n) (drop n bytes)"
  using liesAt_append [of src a "take n bytes" "drop n bytes"] by simp

lemma liesAt_bound: "liesAt src a bytes \<Longrightarrow> bytes \<noteq> [] \<Longrightarrow> a + length bytes \<le> length src"
proof -
  assume lies: "liesAt src a bytes" and "bytes \<noteq> []"
  have "length bytes \<le> length (drop a src)" using lies unfolding liesAt_def by (metis length_take min.cobounded1)
  moreover have "0 < length bytes" using \<open>bytes \<noteq> []\<close> by simp
  ultimately show ?thesis unfolding length_drop by linarith
qed

section \<open>Handing out a src in order\<close>

locale byte_source = guarded_component step ok inv
  for step :: "'s \<Rightarrow> 'e \<Rightarrow> 's" and ok :: "'s \<Rightarrow> 'e \<Rightarrow> bool" and inv :: "'s \<Rightarrow> bool" +
  fixes cursor :: "'s \<Rightarrow> nat"
    and handed :: "'s \<Rightarrow> 'b list"
    and content :: "'b list"
  assumes cursor_grows: "inv s \<Longrightarrow> ok s e \<Longrightarrow> cursor s \<le> cursor (step s e)"
    and hands_slice: "inv s \<Longrightarrow> ok s e \<Longrightarrow>
      handed (step s e) = handed s @ slice content (cursor s) (cursor (step s e))"
begin

lemma run_hands_slice:
  "inv s \<Longrightarrow> along step ok s es \<Longrightarrow>
     cursor s \<le> cursor (foldl step s es)
   \<and> handed (foldl step s es) = handed s @ slice content (cursor s) (cursor (foldl step s es))"
proof (induction es arbitrary: s)
  case Nil
  then show ?case by simp
next
  case (Cons e es)
  from Cons.prems have ok: "ok s e" and rest: "along step ok (step s e) es" by simp_all
  note IH = Cons.IH [OF step_keeps [OF Cons.prems(1) ok] rest]
  show ?case
    using IH cursor_grows [OF Cons.prems(1) ok] hands_slice [OF Cons.prems(1) ok]
    by (simp add: slice_join del: slice_join_append)
qed

end

end
