(* ===== verification/RangeRead.thy ===== *)
theory RangeRead
  imports Bytes JsText
begin

text \<open>
  Ranged reads that resume (\<open>pipeline/rangeRead.ts\<close>): the gate that aborts
  reads, the stream over as many requests as it takes, and the whole read.

  Every place where the code awaits is a phase and every way the awaited
  promise can settle is an event: the fetch, the token refresh, the backoff
  sleep, the next chunk of a body. The two timers (first byte, stall) abort the
  request, so they arrive as the fetch or the read that throws. The body an
  answer carries is the list of bytes it would stream; a chunk takes some of it.
\<close>

section \<open>The gate\<close>

record read_gate =
  rg_controller :: nat
  rg_abortedOnes :: "nat list"
  rg_closed :: bool

definition newGate :: read_gate where
  "newGate = \<lparr>rg_controller = 0, rg_abortedOnes = [], rg_closed = False\<rparr>"

definition gateAbort :: "read_gate \<Rightarrow> read_gate" where
  "gateAbort g =
     (let g = g\<lparr>rg_abortedOnes := rg_controller g # rg_abortedOnes g\<rparr>
      in if rg_closed g then g else g\<lparr>rg_controller := rg_controller g + 1\<rparr>)"

definition gateClose :: "read_gate \<Rightarrow> read_gate" where
  "gateClose g = g\<lparr>rg_closed := True, rg_abortedOnes := rg_controller g # rg_abortedOnes g\<rparr>"

section \<open>State\<close>

datatype read_error =
    ReadAborted bool
  | ReadFailed nat string
  | ReadUnreachable string
  | RefreshThrew
  | SetOutOfRange

definition abortedError :: "read_gate \<Rightarrow> read_error" where
  "abortedError g = ReadAborted (rg_closed g)"

record reader_options =
  ro_size :: nat
  ro_maxAttempts :: "nat option"
  ro_maxSlowRetries :: "nat option"
  ro_backoffMs :: "nat option"
  ro_refresh :: bool

definition DEFAULT_ATTEMPTS :: nat where "DEFAULT_ATTEMPTS = 8"

definition DEFAULT_SLOW_RETRIES :: nat where "DEFAULT_SLOW_RETRIES = 60"

definition BACKOFF_BASE_MS :: nat where "BACKOFF_BASE_MS = 250"

definition BACKOFF_CAP_MS :: nat where "BACKOFF_CAP_MS = 8000"

definition TERMINAL_STATUSES :: "nat list" where "TERMINAL_STATUSES = [400, 404, 410, 416]"

definition maxAttempts :: "reader_options \<Rightarrow> nat" where
  "maxAttempts opts = orElse (ro_maxAttempts opts) DEFAULT_ATTEMPTS"

definition maxSlow :: "reader_options \<Rightarrow> nat" where
  "maxSlow opts = orElse (ro_maxSlowRetries opts) DEFAULT_SLOW_RETRIES"

text \<open>The delay before a retry; \<open>random\<close> is what \<open>Math.random\<close> answered.\<close>

definition backoff :: "nat \<Rightarrow> nat \<Rightarrow> rat \<Rightarrow> rat" where
  "backoff attempt baseMs random =
     (let base = of_nat (min BACKOFF_CAP_MS (baseMs * 2 ^ attempt))
      in base / 2 + random * base / 2)"

record 'b answer =
  an_status :: nat
  an_contentRange :: string
  an_body :: "'b list option"

text \<open>\<open>/^bytes (\d+)-(\d+)\/(\d+|\*)$/\<close>, the first number.\<close>

definition contentRangeStart :: "string \<Rightarrow> nat option" where
  "contentRangeStart h = do {
     h \<leftarrow> stripPrefix ''bytes '' h;
     (from, h) \<leftarrow> takeDigits h;
     h \<leftarrow> stripPrefix ''-'' h;
     (to, h) \<leftarrow> takeDigits h;
     h \<leftarrow> stripPrefix ''/'' h;
     if allDigits h \<or> h = ''*'' then Some (num from) else None }"

datatype read_phase =
    ReadIdle
  | ReadOpening
  | ReadRefreshing
  | ReadSleeping
  | ReadChunk
  | ReadClosed
  | ReadErrored read_error
  | ReadCancelled

text \<open>
  The state of one stream. \<open>rs_enqueued\<close> is what \<open>controller.enqueue\<close> was called
  with; \<open>rs_cancelled\<close> that the stream was cancelled. \<open>ReadIdle\<close> is between two
  pulls, \<open>ReadCancelled\<close> a cancelled stream none of whose pulls is still running.
\<close>

record 'b range_read =
  rs_gate :: read_gate
  rs_signal :: nat
  rs_target :: nat
  rs_cursor :: nat
  rs_attempts :: nat
  rs_slowRetries :: nat
  rs_refreshed :: bool
  rs_deliveredByBody :: nat
  rs_lastStatus :: nat
  rs_reader :: "'b list option"
  rs_phase :: read_phase
  rs_cancelled :: bool
  rs_enqueued :: "'b list list"

definition rangeStream :: "reader_options \<Rightarrow> read_gate \<Rightarrow> nat \<Rightarrow> nat \<Rightarrow> 'b range_read" where
  "rangeStream opts gate from end =
     \<lparr>rs_gate = gate, rs_signal = rg_controller gate, rs_target = min end (ro_size opts), rs_cursor = from,
      rs_attempts = 0, rs_slowRetries = 0, rs_refreshed = False, rs_deliveredByBody = 0, rs_lastStatus = 0,
      rs_reader = None, rs_phase = ReadIdle, rs_cancelled = False, rs_enqueued = []\<rparr>"

section \<open>The pull loop\<close>

definition signalAborted :: "'b range_read \<Rightarrow> bool" where
  "signalAborted s \<longleftrightarrow> rs_signal s \<in> set (rg_abortedOnes (rs_gate s))"

definition throwRead :: "read_error \<Rightarrow> 'b range_read \<Rightarrow> 'b range_read" where
  "throwRead err s = s\<lparr>rs_phase := ReadErrored err\<rparr>"

definition throwAborted :: "'b range_read \<Rightarrow> 'b range_read" where
  "throwAborted s = throwRead (abortedError (rs_gate s)) s"

text \<open>\<open>attempts += 1\<close> and the sleep, which rejects at once under an aborted signal.\<close>

definition retryLater :: "'b range_read \<Rightarrow> 'b range_read" where
  "retryLater s =
     (let s = s\<lparr>rs_attempts := rs_attempts s + 1\<rparr>
      in if signalAborted s then throwAborted s else s\<lparr>rs_phase := ReadSleeping\<rparr>)"

definition noProgress :: "'b range_read \<Rightarrow> string" where
  "noProgress s =
     ''no progress after '' @ dec (rs_attempts s) @ '' attempts at byte '' @ dec (rs_cursor s)
     @ (if 0 < rs_lastStatus s then '', last answer '' @ dec (rs_lastStatus s) else '', no answer at all'')"

text \<open>The top of \<open>while (cursor < target)\<close>, up to the next await or the end of \<open>pull\<close>.\<close>

definition pullLoop :: "reader_options \<Rightarrow> 'b range_read \<Rightarrow> 'b range_read" where
  "pullLoop opts s =
     (if rs_cursor s < rs_target s then
        if signalAborted s then throwAborted s
        else if rs_reader s = None then
          if maxAttempts opts \<le> rs_attempts s then throwRead (ReadUnreachable (noProgress s)) s
          else s\<lparr>rs_phase := ReadOpening\<rparr>
        else s\<lparr>rs_phase := ReadChunk\<rparr>
      else s\<lparr>rs_phase := ReadClosed\<rparr>)"

definition keptWaiting :: "'b range_read \<Rightarrow> string" where
  "keptWaiting s =
     ''origin kept waiting on the swarm at byte '' @ dec (rs_cursor s)
     @ '' after '' @ dec (rs_slowRetries s) @ '' answers of 504''"

definition readFailed :: "nat \<Rightarrow> read_error" where
  "readFailed status = ReadFailed status (''read failed ('' @ dec status @ '')'')"

definition readRefused :: "nat \<Rightarrow> read_error" where
  "readRefused status = ReadFailed status (''read refused ('' @ dec status @ '')'')"

text \<open>\<open>open\<close> from the fetch that threw.\<close>

definition fetchThrew :: "'b range_read \<Rightarrow> 'b range_read" where
  "fetchThrew s = (if signalAborted s then throwAborted s else retryLater (s\<lparr>rs_lastStatus := 0\<rparr>))"

text \<open>\<open>open\<close> from the answer on; \<open>null\<close> is the retry.\<close>

definition answered :: "reader_options \<Rightarrow> 'b answer \<Rightarrow> 'b range_read \<Rightarrow> 'b range_read" where
  "answered opts an s =
     (let status = an_status an;
          s = s\<lparr>rs_lastStatus := status\<rparr>
      in if status = 504 then
           let s = s\<lparr>rs_slowRetries := rs_slowRetries s + 1\<rparr>
           in if maxSlow opts < rs_slowRetries s then throwRead (ReadUnreachable (keptWaiting s)) s
              else retryLater (s\<lparr>rs_attempts := rs_attempts s - 1\<rparr>)
         else if status = 401 \<or> status = 403 then
           if \<not> rs_refreshed s \<and> ro_refresh opts then s\<lparr>rs_phase := ReadRefreshing\<rparr>
           else throwRead (readRefused status) s
         else if status \<in> set TERMINAL_STATUSES then throwRead (readFailed status) s
         else if status \<noteq> 206 \<and> status \<noteq> 200 then retryLater s
         else if status = 200 \<and> rs_cursor s \<noteq> 0 then throwRead (ReadFailed 200 ''origin ignored Range'') s
         else (case (if status = 206 then contentRangeStart (an_contentRange an) else None) of
             Some from \<Rightarrow>
               if from \<noteq> rs_cursor s
               then throwRead (ReadFailed 206 (''origin answered byte '' @ dec from @ '' for byte '' @ dec (rs_cursor s))) s
               else (case an_body an of
                   None \<Rightarrow> retryLater s
                 | Some body \<Rightarrow> s\<lparr>rs_deliveredByBody := 0, rs_reader := Some body, rs_phase := ReadChunk\<rparr>)
           | None \<Rightarrow>
               (case an_body an of
                   None \<Rightarrow> retryLater s
                 | Some body \<Rightarrow> s\<lparr>rs_deliveredByBody := 0, rs_reader := Some body, rs_phase := ReadChunk\<rparr>)))"

text \<open>\<open>await opts.refresh()\<close>: answered, or rejected (\<open>None\<close>).\<close>

definition refreshAnswered :: "bool option \<Rightarrow> 'b range_read \<Rightarrow> 'b range_read" where
  "refreshAnswered answer s =
     (case answer of
        None \<Rightarrow> throwRead RefreshThrew s
      | Some True \<Rightarrow> retryLater (s\<lparr>rs_refreshed := True\<rparr>)
      | Some False \<Rightarrow> throwRead (readRefused (rs_lastStatus s)) s)"

text \<open>A body that ended, or whose read threw (a stall included).\<close>

definition bodyOver :: "reader_options \<Rightarrow> 'b range_read \<Rightarrow> 'b range_read" where
  "bodyOver opts s =
     (let s = s\<lparr>rs_reader := None\<rparr>
      in if rs_deliveredByBody s = 0 then retryLater s else pullLoop opts s)"

definition bodyThrew :: "reader_options \<Rightarrow> 'b range_read \<Rightarrow> 'b range_read" where
  "bodyThrew opts s = (if signalAborted s then throwAborted s else bodyOver opts s)"

definition chunkRead :: "reader_options \<Rightarrow> nat \<Rightarrow> 'b range_read \<Rightarrow> 'b range_read" where
  "chunkRead opts n s =
     (case rs_reader s of
        None \<Rightarrow> s
      | Some body \<Rightarrow>
          (let chunk = take n body;
               s = s\<lparr>rs_reader := Some (drop n body)\<rparr>
           in if chunk = [] then pullLoop opts s
              else
                let chunk = take (rs_target s - rs_cursor s) chunk
                in s\<lparr>rs_cursor := rs_cursor s + length chunk,
                     rs_deliveredByBody := rs_deliveredByBody s + length chunk,
                     rs_attempts := 0,
                     rs_enqueued := rs_enqueued s @ [chunk],
                     rs_phase := ReadIdle\<rparr>))"

text \<open>The gate fires its listeners: a sleep under the aborted signal rejects, the rest sees it later.\<close>

definition gateFired :: "(read_gate \<Rightarrow> read_gate) \<Rightarrow> 'b range_read \<Rightarrow> 'b range_read" where
  "gateFired f s =
     (let s' = s\<lparr>rs_gate := f (rs_gate s)\<rparr>
      in if rs_phase s = ReadSleeping \<and> signalAborted s' then throwAborted s' else s')"

text \<open>
  \<open>cancel\<close> only settles: the reader it has is cancelled, so that its pending
  read is done, and the request aborted, so that its fetch throws; a pull that is
  running goes on where it waits.
\<close>

definition cancelStream :: "'b range_read \<Rightarrow> 'b range_read" where
  "cancelStream s =
     (if rs_cancelled s then s
      else s\<lparr>rs_cancelled := True, rs_reader := map_option (\<lambda>body. []) (rs_reader s)\<rparr>)"

text \<open>
  A cancelled stream asks for no further pull, refuses the chunk of the one that
  was running (\<open>enqueue\<close> throws, so that \<open>pull\<close> settles and ends), and is neither
  closed nor failed any more.
\<close>

definition afterPull :: "'b range_read \<Rightarrow> 'b range_read" where
  "afterPull s =
     (if rs_cancelled s \<and> (case rs_phase s of ReadIdle \<Rightarrow> True | ReadClosed \<Rightarrow> True | ReadErrored err \<Rightarrow> True | _ \<Rightarrow> False)
      then s\<lparr>rs_phase := ReadCancelled\<rparr> else s)"

section \<open>Events\<close>

datatype 'b read_event =
    Pulled
  | FetchThrew
  | Answered "'b answer"
  | RefreshAnswered "bool option"
  | Slept
  | ChunkCame nat
  | BodyDone
  | BodyThrew
  | GateAborted
  | GateClosed
  | StreamCancelled

fun awaitedRead :: "read_phase \<Rightarrow> 'b read_event \<Rightarrow> bool" where
  "awaitedRead p Pulled = (p = ReadIdle)"
| "awaitedRead p FetchThrew = (p = ReadOpening)"
| "awaitedRead p (Answered an) = (p = ReadOpening)"
| "awaitedRead p (RefreshAnswered b) = (p = ReadRefreshing)"
| "awaitedRead p Slept = (p = ReadSleeping)"
| "awaitedRead p (ChunkCame n) = (p = ReadChunk)"
| "awaitedRead p BodyDone = (p = ReadChunk)"
| "awaitedRead p BodyThrew = (p = ReadChunk)"
| "awaitedRead p GateAborted = True"
| "awaitedRead p GateClosed = True"
| "awaitedRead p StreamCancelled =
     (case p of ReadClosed \<Rightarrow> False | ReadErrored err \<Rightarrow> False | ReadCancelled \<Rightarrow> False | _ \<Rightarrow> True)"

fun readEvent :: "reader_options \<Rightarrow> 'b range_read \<Rightarrow> 'b read_event \<Rightarrow> 'b range_read" where
  "readEvent opts s Pulled = pullLoop opts s"
| "readEvent opts s FetchThrew = fetchThrew s"
| "readEvent opts s (Answered an) = answered opts an s"
| "readEvent opts s (RefreshAnswered b) = refreshAnswered b s"
| "readEvent opts s Slept = pullLoop opts s"
| "readEvent opts s (ChunkCame n) = chunkRead opts n s"
| "readEvent opts s BodyDone = bodyOver opts s"
| "readEvent opts s BodyThrew = bodyThrew opts s"
| "readEvent opts s GateAborted = gateFired gateAbort s"
| "readEvent opts s GateClosed = gateFired gateClose s"
| "readEvent opts s StreamCancelled = cancelStream s"

definition readStep :: "reader_options \<Rightarrow> 'b range_read \<Rightarrow> 'b read_event \<Rightarrow> 'b range_read" where
  "readStep opts s e = (if awaitedRead (rs_phase s) e then afterPull (readEvent opts s e) else s)"

definition runRead :: "reader_options \<Rightarrow> 'b range_read \<Rightarrow> 'b read_event list \<Rightarrow> 'b range_read" where
  "runRead opts s es = foldl (readStep opts) s es"

section \<open>The whole read\<close>

text \<open>\<open>out.set(value, at)\<close>, which throws when the bytes do not fit.\<close>

definition setBytes :: "'b list \<Rightarrow> nat \<Rightarrow> 'b list \<Rightarrow> 'b list option" where
  "setBytes out pos bytes =
     (if pos + length bytes \<le> length out then Some (take pos out @ bytes @ drop (pos + length bytes) out) else None)"

fun fillChunks :: "'b list \<Rightarrow> nat \<Rightarrow> 'b list list \<Rightarrow> 'b list option" where
  "fillChunks out pos [] = Some out"
| "fillChunks out pos (chunk # chunks) = do {
     out \<leftarrow> setBytes out pos chunk;
     fillChunks out (pos + length chunk) chunks }"

text \<open>What the promise of \<open>rangeBytes\<close> has come to after some events; \<open>None\<close> while it is pending.\<close>

definition rangeBytes ::
    "'b \<Rightarrow> reader_options \<Rightarrow> read_gate \<Rightarrow> nat \<Rightarrow> nat \<Rightarrow> 'b read_event list \<Rightarrow> (read_error + 'b list) option" where
  "rangeBytes zero opts gate from end es =
     (let target = min end (ro_size opts)
      in if target \<le> from then Some (Inr [])
         else
           let s = runRead opts (rangeStream opts gate from target) es
           in (case rs_phase s of
                 ReadClosed \<Rightarrow>
                   (case fillChunks (replicate (target - from) zero) 0 (rs_enqueued s) of
                      None \<Rightarrow> Some (Inl SetOutOfRange)
                    | Some out \<Rightarrow> Some (Inr out))
               | ReadErrored err \<Rightarrow> Some (Inl err)
               | _ \<Rightarrow> None))"

lemma fillChunks_concat:
  "length front + length (concat chunks) \<le> length (front @ rest) \<Longrightarrow>
   fillChunks (front @ rest) (length front) chunks =
     Some (front @ concat chunks @ drop (length (concat chunks)) rest)"
proof (induction chunks arbitrary: front rest)
  case Nil
  then show ?case by simp
next
  case (Cons chunk chunks)
  have "fillChunks ((front @ chunk) @ drop (length chunk) rest) (length (front @ chunk)) chunks =
      Some ((front @ chunk) @ concat chunks @ drop (length (concat chunks)) (drop (length chunk) rest))"
    by (rule Cons.IH) (use Cons.prems in simp)
  with Cons.prems show ?case by (simp add: setBytes_def add.commute)
qed

section \<open>Bounds of the budgets\<close>

definition readBounds :: "reader_options \<Rightarrow> 'b range_read \<Rightarrow> bool" where
  "readBounds opts s \<longleftrightarrow>
     rs_attempts s \<le> maxAttempts opts
   \<and> (rs_slowRetries s \<le> maxSlow opts
      \<or> rs_slowRetries s = maxSlow opts + 1
        \<and> (rs_phase s = ReadErrored (ReadUnreachable (keptWaiting s)) \<or> rs_phase s = ReadCancelled))
   \<and> (rs_phase s \<in> {ReadOpening, ReadRefreshing, ReadChunk} \<longrightarrow>
        rs_attempts s < maxAttempts opts \<and> rs_cursor s < rs_target s)
   \<and> (rs_phase s = ReadChunk \<longrightarrow> rs_reader s \<noteq> None)
   \<and> (rs_phase s = ReadClosed \<longrightarrow> rs_target s \<le> rs_cursor s)
   \<and> (rs_phase s = ReadIdle \<and> rs_reader s \<noteq> None \<longrightarrow>
        rs_attempts s < maxAttempts opts \<and> 0 < rs_deliveredByBody s)
   \<and> (rs_phase s \<in> {ReadSleeping, ReadOpening, ReadRefreshing} \<longrightarrow> rs_reader s = None)
   \<and> (rs_phase s = ReadRefreshing \<longrightarrow> rs_lastStatus s = 401 \<or> rs_lastStatus s = 403)"

lemma readBounds_start: "readBounds opts (rangeStream opts gate from end)"
  by (simp add: readBounds_def rangeStream_def)

lemma readBounds_throw:
  "rs_attempts s \<le> maxAttempts opts \<Longrightarrow> rs_slowRetries s \<le> maxSlow opts \<Longrightarrow> readBounds opts (throwRead err s)"
  by (simp add: readBounds_def throwRead_def)

lemma readBounds_retryLater:
  "rs_attempts s < maxAttempts opts \<Longrightarrow> rs_slowRetries s \<le> maxSlow opts \<Longrightarrow> rs_reader s = None \<Longrightarrow>
   readBounds opts (retryLater s)"
  by (simp add: retryLater_def Let_def throwAborted_def readBounds_throw)
    (simp add: readBounds_def)

lemma readBounds_pullLoop:
  "rs_attempts s \<le> maxAttempts opts \<Longrightarrow> rs_slowRetries s \<le> maxSlow opts \<Longrightarrow>
   rs_reader s = None \<or> rs_attempts s < maxAttempts opts \<Longrightarrow> readBounds opts (pullLoop opts s)"
  by (auto simp: pullLoop_def throwAborted_def readBounds_throw) (auto simp: readBounds_def)

lemma readBounds_answered:
  assumes "readBounds opts s" and "rs_phase s = ReadOpening"
  shows "readBounds opts (answered opts an s)"
proof -
  have s: "rs_attempts s < maxAttempts opts" "rs_slowRetries s \<le> maxSlow opts" "rs_reader s = None"
      "rs_cursor s < rs_target s"
    using assms by (auto simp: readBounds_def)
  show ?thesis
  proof (cases "an_status an = 504")
    case True
    show ?thesis
    proof (cases "maxSlow opts < rs_slowRetries s + 1")
      case True
      with s \<open>an_status an = 504\<close> show ?thesis
        by (simp add: answered_def Let_def readBounds_def throwRead_def keptWaiting_def)
    next
      case False
      with s True show ?thesis
        by (simp add: answered_def Let_def readBounds_retryLater)
    qed
  next
    case False
    with s show ?thesis
      by (auto simp: answered_def Let_def readBounds_throw readBounds_retryLater split: option.split)
        (auto simp: readBounds_def)
  qed
qed

lemma readBounds_gateFired: "readBounds opts s \<Longrightarrow> readBounds opts (gateFired f s)"
proof (cases "rs_phase s = ReadSleeping \<and> signalAborted (s\<lparr>rs_gate := f (rs_gate s)\<rparr>)")
  case True
  assume "readBounds opts s"
  with True have "rs_attempts s \<le> maxAttempts opts" "rs_slowRetries s \<le> maxSlow opts"
    by (auto simp: readBounds_def)
  with True show ?thesis by (simp add: gateFired_def Let_def throwAborted_def readBounds_throw)
next
  case False
  then have "gateFired f s = s\<lparr>rs_gate := f (rs_gate s)\<rparr>" by (auto simp: gateFired_def Let_def)
  moreover have "keptWaiting (s\<lparr>rs_gate := g\<rparr>) = keptWaiting s" for g by (simp add: keptWaiting_def)
  moreover assume "readBounds opts s"
  ultimately show ?thesis by (simp add: readBounds_def)
qed

lemma readBounds_chunkRead: "readBounds opts s \<Longrightarrow> rs_phase s = ReadChunk \<Longrightarrow> readBounds opts (chunkRead opts n s)"
proof -
  assume "readBounds opts s" and chunk: "rs_phase s = ReadChunk"
  then obtain body where s: "rs_reader s = Some body" "rs_attempts s < maxAttempts opts"
      "rs_slowRetries s \<le> maxSlow opts" "rs_cursor s < rs_target s"
    by (auto simp: readBounds_def)
  then have "0 < min (rs_target s - rs_cursor s) (length (take n body))" if "take n body \<noteq> []"
    using that by auto
  with s show ?thesis
    by (simp add: chunkRead_def Let_def readBounds_pullLoop) (simp add: readBounds_def)
qed

lemma readBounds_bodyOver: "readBounds opts s \<Longrightarrow> rs_phase s = ReadChunk \<Longrightarrow> readBounds opts (bodyOver opts s)"
proof -
  assume "readBounds opts s" and "rs_phase s = ReadChunk"
  then have "rs_attempts s < maxAttempts opts" "rs_slowRetries s \<le> maxSlow opts" by (auto simp: readBounds_def)
  then show ?thesis by (simp add: bodyOver_def Let_def readBounds_pullLoop readBounds_retryLater)
qed

lemma readBounds_cancel: "readBounds opts s \<Longrightarrow> readBounds opts (cancelStream s)"
  by (simp add: readBounds_def cancelStream_def keptWaiting_def)

lemma readBounds_afterPull: "readBounds opts s \<Longrightarrow> readBounds opts (afterPull s)"
  by (auto simp: readBounds_def afterPull_def keptWaiting_def split: read_phase.splits)

lemma readBounds_event:
  assumes "readBounds opts s" and "awaitedRead (rs_phase s) e"
  shows "readBounds opts (readEvent opts s e)"
proof (cases e)
  case (Answered an)
  with assms show ?thesis by (simp add: readBounds_answered)
next
  case GateAborted
  with assms show ?thesis by (simp add: readBounds_gateFired)
next
  case GateClosed
  with assms show ?thesis by (simp add: readBounds_gateFired)
next
  case (ChunkCame n)
  with assms show ?thesis by (simp add: readBounds_chunkRead)
next
  case StreamCancelled
  with assms show ?thesis by (simp add: readBounds_cancel)
next
  case Pulled
  with assms have "rs_reader s = None \<or> rs_attempts s < maxAttempts opts" "rs_slowRetries s \<le> maxSlow opts"
      "rs_attempts s \<le> maxAttempts opts"
    by (auto simp: readBounds_def)
  with Pulled show ?thesis by (simp add: readBounds_pullLoop)
next
  case Slept
  with assms have "rs_reader s = None" "rs_slowRetries s \<le> maxSlow opts" "rs_attempts s \<le> maxAttempts opts"
    by (auto simp: readBounds_def)
  with Slept show ?thesis by (simp add: readBounds_pullLoop)
next
  case FetchThrew
  with assms have "rs_attempts s < maxAttempts opts" "rs_slowRetries s \<le> maxSlow opts" "rs_reader s = None"
    by (auto simp: readBounds_def)
  with FetchThrew show ?thesis
    by (simp add: fetchThrew_def throwAborted_def readBounds_throw readBounds_retryLater)
next
  case (RefreshAnswered b)
  with assms have "rs_attempts s < maxAttempts opts" "rs_slowRetries s \<le> maxSlow opts" "rs_reader s = None"
    by (auto simp: readBounds_def)
  with RefreshAnswered show ?thesis
    by (simp add: refreshAnswered_def readBounds_throw readBounds_retryLater split: option.split bool.split)
next
  case BodyDone
  with assms show ?thesis by (simp add: readBounds_bodyOver)
next
  case BodyThrew
  with assms have "rs_attempts s \<le> maxAttempts opts" "rs_slowRetries s \<le> maxSlow opts" by (auto simp: readBounds_def)
  with BodyThrew assms show ?thesis
    by (simp add: bodyThrew_def readBounds_bodyOver throwAborted_def readBounds_throw)
qed

interpretation reads: component "readStep opts" "readBounds opts" for opts
  by unfold_locales (simp add: readStep_def readBounds_event readBounds_afterPull)

section \<open>What an honest origin's stream hands out\<close>

text \<open>
  What HTTP promises of an answer the stream accepts: a 206 whose
  \<open>Content-Range\<close> is absent or starts where asked carries the file from there,
  a 200 carries it from its beginning.
\<close>

definition honest :: "'b list \<Rightarrow> 'b range_read \<Rightarrow> 'b read_event \<Rightarrow> bool" where
  "honest content s e =
     (case e of
        Answered an \<Rightarrow>
          (case an_body an of
             None \<Rightarrow> True
           | Some body \<Rightarrow>
               (an_status an = 206 \<and> contentRangeStart (an_contentRange an) \<in> {None, Some (rs_cursor s)}
                  \<longrightarrow> liesAt content (rs_cursor s) body)
             \<and> (an_status an = 200 \<longrightarrow> liesAt content 0 body))
      | _ \<Rightarrow> True)"

definition readerHonest :: "'b list \<Rightarrow> 'b range_read \<Rightarrow> bool" where
  "readerHonest content s \<longleftrightarrow>
     (\<forall>body. rs_reader s = Some body \<longrightarrow> rs_cursor s < rs_target s \<longrightarrow> liesAt content (rs_cursor s) body)"

definition keepsBytes :: "'b range_read \<Rightarrow> 'b range_read \<Rightarrow> bool" where
  "keepsBytes s t \<longleftrightarrow>
     rs_cursor t = rs_cursor s \<and> rs_target t = rs_target s \<and> rs_enqueued t = rs_enqueued s
   \<and> (rs_reader t = rs_reader s \<or> rs_reader t = None \<or> rs_reader t = Some [])"

lemma keepsBytes_refl [simp]: "keepsBytes s s"
  by (simp add: keepsBytes_def)

lemma keepsBytes_fields [simp]:
  "keepsBytes s (t\<lparr>rs_phase := p\<rparr>) \<longleftrightarrow> keepsBytes s t"
  "keepsBytes s (t\<lparr>rs_lastStatus := n\<rparr>) \<longleftrightarrow> keepsBytes s t"
  "keepsBytes s (t\<lparr>rs_slowRetries := n\<rparr>) \<longleftrightarrow> keepsBytes s t"
  "keepsBytes s (t\<lparr>rs_attempts := n\<rparr>) \<longleftrightarrow> keepsBytes s t"
  "keepsBytes s (t\<lparr>rs_refreshed := b\<rparr>) \<longleftrightarrow> keepsBytes s t"
  "keepsBytes s (t\<lparr>rs_gate := g\<rparr>) \<longleftrightarrow> keepsBytes s t"
  "keepsBytes s t \<Longrightarrow> keepsBytes s (t\<lparr>rs_reader := None\<rparr>)"
  by (auto simp: keepsBytes_def)

lemma keepsBytes_ops [simp]:
  "keepsBytes s (throwRead err t) \<longleftrightarrow> keepsBytes s t"
  "keepsBytes s (throwAborted t) \<longleftrightarrow> keepsBytes s t"
  "keepsBytes s (retryLater t) \<longleftrightarrow> keepsBytes s t"
  "keepsBytes s (pullLoop opts t) \<longleftrightarrow> keepsBytes s t"
  "keepsBytes s (gateFired f t) \<longleftrightarrow> keepsBytes s t"
  by (simp_all add: throwRead_def throwAborted_def retryLater_def pullLoop_def gateFired_def Let_def)

lemma keepsBytes_cancel [simp]: "keepsBytes s (cancelStream s)"
  by (cases "rs_reader s") (simp_all add: keepsBytes_def cancelStream_def)

lemma afterPull_keeps [simp]:
  "rs_cursor (afterPull s) = rs_cursor s" "rs_target (afterPull s) = rs_target s" "rs_enqueued (afterPull s) = rs_enqueued s"
  "rs_reader (afterPull s) = rs_reader s" "rs_attempts (afterPull s) = rs_attempts s"
  "rs_slowRetries (afterPull s) = rs_slowRetries s" "rs_refreshed (afterPull s) = rs_refreshed s"
  "rs_deliveredByBody (afterPull s) = rs_deliveredByBody s" "rs_cancelled (afterPull s) = rs_cancelled s"
  by (simp_all add: afterPull_def)

text \<open>An answer is refused, retried, or its body is opened.\<close>

definition accepts :: "'b range_read \<Rightarrow> 'b answer \<Rightarrow> bool" where
  "accepts s an \<longleftrightarrow>
     an_status an = 200 \<and> rs_cursor s = 0
   \<or> an_status an = 206 \<and> contentRangeStart (an_contentRange an) \<in> {None, Some (rs_cursor s)}"

lemma answered_cases:
  "keepsBytes s (answered opts an s)
   \<or> (\<exists>body. an_body an = Some body \<and> accepts s an
      \<and> answered opts an s =
          s\<lparr>rs_lastStatus := an_status an, rs_deliveredByBody := 0, rs_reader := Some body, rs_phase := ReadChunk\<rparr>)"
proof (cases "accepts s an \<and> an_body an \<noteq> None")
  case True
  then obtain body where body: "an_body an = Some body" and ok: "accepts s an" by auto
  from ok have "answered opts an s =
      s\<lparr>rs_lastStatus := an_status an, rs_deliveredByBody := 0, rs_reader := Some body, rs_phase := ReadChunk\<rparr>"
    unfolding accepts_def
    by (elim disjE; cases "contentRangeStart (an_contentRange an)";
        simp add: answered_def Let_def TERMINAL_STATUSES_def body)
  with body ok show ?thesis by blast
next
  case False
  have "keepsBytes s (answered opts an s)"
  proof (cases "accepts s an")
    case True
    with False have "an_body an = None" by simp
    then show ?thesis by (simp add: answered_def Let_def split: option.split)
  next
    case False
    then show ?thesis
      by (cases "contentRangeStart (an_contentRange an)") (simp_all add: answered_def Let_def accepts_def)
  qed
  then show ?thesis by blast
qed

lemma readEvent_bytes:
  assumes "\<And>n. e \<noteq> ChunkCame n" and "\<And>an. e \<noteq> Answered an"
  shows "keepsBytes s (readEvent opts s e)"
  using assms
  by (cases e) (auto simp: refreshAnswered_def bodyOver_def bodyThrew_def fetchThrew_def Let_def
    split: option.split bool.split)

text \<open>A chunk: nothing, or the next bytes of the body, as many as there is room for.\<close>

lemma chunkRead_bytes:
  assumes "rs_reader s = Some body"
  shows "let t = chunkRead opts n s; chunk = take (rs_target s - rs_cursor s) (take n body)
     in rs_target t = rs_target s
      \<and> (take n body = [] \<and> rs_cursor t = rs_cursor s \<and> rs_enqueued t = rs_enqueued s \<and> rs_reader t = Some body
       \<or> take n body \<noteq> [] \<and> rs_cursor t = rs_cursor s + length chunk \<and> rs_enqueued t = rs_enqueued s @ [chunk]
         \<and> rs_reader t = Some (drop n body))"
  using assms by (auto simp: chunkRead_def Let_def pullLoop_def throwAborted_def throwRead_def)

lemma read_event_hands:
  assumes bounds: "readBounds opts s" and reader: "readerHonest content s" and ok: "honest content s e"
  defines "t \<equiv> (if awaitedRead (rs_phase s) e then readEvent opts s e else s)"
  shows "readerHonest content t \<and> rs_cursor s \<le> rs_cursor t
    \<and> concat (rs_enqueued t) = concat (rs_enqueued s) @ slice content (rs_cursor s) (rs_cursor t)
    \<and> rs_target t = rs_target s \<and> rs_cursor t \<le> max (rs_cursor s) (rs_target s)"
proof -
  have kept: ?thesis if "keepsBytes s t"
    using that reader by (auto simp: keepsBytes_def readerHonest_def)
  consider "t = s" | "t = readEvent opts s e" "awaitedRead (rs_phase s) e"
    unfolding t_def by presburger
  then show ?thesis
  proof cases
    case 1
    with kept show ?thesis by simp
  next
    case 2
    show ?thesis
    proof (cases "\<exists>an. e = Answered an")
      case True
      then obtain an where e: "e = Answered an" by blast
      show ?thesis
        using answered_cases [of s opts an] ok 2 kept
        by (auto simp: e honest_def readerHonest_def accepts_def)
    next
      case noAnswer: False
      show ?thesis
      proof (cases "\<exists>n. e = ChunkCame n")
        case True
        then obtain n where e: "e = ChunkCame n" by blast
        with 2 bounds obtain body where body: "rs_reader s = Some body" "rs_cursor s < rs_target s"
          by (auto simp: readBounds_def)
        then have lies: "liesAt content (rs_cursor s) (take n body @ drop n body)"
          using reader by (simp add: readerHonest_def)
        define chunk where "chunk = take (rs_target s - rs_cursor s) (take n body)"
        have "liesAt content (rs_cursor s) chunk"
          unfolding chunk_def using lies liesAt_append liesAt_take by metis
        then have slice: "slice content (rs_cursor s) (rs_cursor s + length chunk) = chunk"
          by (rule liesAt_eq)
        have fits: "rs_cursor s + length chunk \<le> rs_target s" using body by (auto simp: chunk_def)
        have rest: "liesAt content (rs_cursor s + length chunk) (drop n body)"
          if "rs_cursor s + length chunk < rs_target s"
        proof -
          have "length chunk < rs_target s - rs_cursor s" using that by linarith
          then have "length (take n body) \<le> rs_target s - rs_cursor s"
            by (auto simp: chunk_def min_def split: if_splits)
          then have "chunk = take n body" unfolding chunk_def by (rule take_all)
          with lies show ?thesis by (simp only: liesAt_append)
        qed
        have t: "t = chunkRead opts n s" using 2 e by simp
        from chunkRead_bytes [OF body(1), of opts n] consider
            "rs_target t = rs_target s" "rs_cursor t = rs_cursor s" "rs_enqueued t = rs_enqueued s" "rs_reader t = Some body"
          | "rs_target t = rs_target s" "rs_cursor t = rs_cursor s + length chunk"
            "rs_enqueued t = rs_enqueued s @ [chunk]" "rs_reader t = Some (drop n body)"
          unfolding Let_def t chunk_def by blast
        then show ?thesis
        proof cases
          case 1
          with lies show ?thesis by (simp add: readerHonest_def)
        next
          case 2
          with slice fits rest show ?thesis by (simp add: readerHonest_def)
        qed
      next
        case False
        with noAnswer kept 2 show ?thesis using readEvent_bytes [of e s opts] by blast
      qed
    qed
  qed
qed

lemma read_step_hands:
  assumes "readBounds opts s" and "readerHonest content s" and "honest content s e"
  defines "t \<equiv> readStep opts s e"
  shows "readerHonest content t \<and> rs_cursor s \<le> rs_cursor t
    \<and> concat (rs_enqueued t) = concat (rs_enqueued s) @ slice content (rs_cursor s) (rs_cursor t)
    \<and> rs_target t = rs_target s \<and> rs_cursor t \<le> max (rs_cursor s) (rs_target s)"
proof -
  have "readerHonest content (afterPull u) = readerHonest content u" for u by (simp add: readerHonest_def)
  with read_event_hands [OF assms(1-3)] show ?thesis
    by (cases "awaitedRead (rs_phase s) e") (simp_all add: t_def readStep_def)
qed

text \<open>The stream is a source of the file's bytes, as long as the origin is honest.\<close>

definition streamOk :: "reader_options \<Rightarrow> 'b list \<Rightarrow> 'b range_read \<Rightarrow> bool" where
  "streamOk opts content s \<longleftrightarrow> readBounds opts s \<and> readerHonest content s"

interpretation stream: byte_source "readStep opts" "honest content" "streamOk opts content" rs_cursor
    "\<lambda>s. concat (rs_enqueued s)" content for opts content
proof unfold_locales
  fix s :: "'a range_read" and e
  assume ok: "streamOk opts content s" "honest content s e"
  show "streamOk opts content (readStep opts s e)"
    using read_step_hands [of opts s content e] reads.step_keeps [of opts s e] ok by (simp add: streamOk_def)
qed (use read_step_hands in \<open>auto simp: streamOk_def\<close>)

section \<open>Why a stream may fail\<close>

fun fits :: "reader_options \<Rightarrow> 'b range_read \<Rightarrow> read_error \<Rightarrow> bool" where
  "fits opts s (ReadAborted byClose) = signalAborted s"
| "fits opts s (ReadUnreachable detail) =
     (rs_attempts s = maxAttempts opts \<and> detail = noProgress s
      \<or> rs_slowRetries s = maxSlow opts + 1 \<and> detail = keptWaiting s)"
| "fits opts s (ReadFailed status detail) =
     (rs_lastStatus s = status
      \<and> (status \<in> {400, 401, 403, 404, 410, 416} \<or> status = 200 \<and> 0 < rs_cursor s \<or> status = 206))"
| "fits opts s RefreshThrew = ro_refresh opts"
| "fits opts s SetOutOfRange = False"

definition errorOk :: "reader_options \<Rightarrow> 'b range_read \<Rightarrow> bool" where
  "errorOk opts s \<longleftrightarrow> (\<forall>err. rs_phase s = ReadErrored err \<longrightarrow> fits opts s err)
     \<and> (rs_phase s = ReadRefreshing \<longrightarrow> ro_refresh opts)"

lemma fits_phase [simp]: "fits opts (s\<lparr>rs_phase := p\<rparr>) err = fits opts s err"
  by (cases err) (simp_all add: signalAborted_def noProgress_def keptWaiting_def)

lemma fits_gate [simp]:
  "noProgress (s\<lparr>rs_gate := g\<rparr>) = noProgress s" "keptWaiting (s\<lparr>rs_gate := g\<rparr>) = keptWaiting s"
  by (simp_all add: noProgress_def keptWaiting_def)

lemma errorOk_throw: "fits opts s err \<Longrightarrow> errorOk opts (throwRead err s)"
  by (simp add: errorOk_def throwRead_def)

lemma errorOk_aborted: "signalAborted s \<Longrightarrow> errorOk opts (throwAborted s)"
  by (simp add: throwAborted_def abortedError_def errorOk_throw)

lemma errorOk_retryLater: "errorOk opts (retryLater s)"
  by (simp add: retryLater_def Let_def errorOk_aborted) (simp add: errorOk_def)

lemma errorOk_pullLoop: "rs_attempts s \<le> maxAttempts opts \<Longrightarrow> errorOk opts (pullLoop opts s)"
  by (auto simp: pullLoop_def errorOk_aborted intro!: errorOk_throw) (simp_all add: errorOk_def)

lemma errorOk_answered: 
  assumes "rs_slowRetries s \<le> maxSlow opts"
  shows "errorOk opts (answered opts an s)"
proof (cases "accepts s an")
  case True
  then have "an_status an = 200 \<and> rs_cursor s = 0
    \<or> an_status an = 206 \<and> contentRangeStart (an_contentRange an) \<in> {None, Some (rs_cursor s)}"
    by (simp add: accepts_def)
  then show ?thesis
    by (cases "an_body an")
      (elim disjE; auto simp: answered_def Let_def TERMINAL_STATUSES_def errorOk_retryLater split: option.split;
       simp add: errorOk_def)+
next
  case no: False
  consider "an_status an = 504" | "an_status an = 401 \<or> an_status an = 403" | "an_status an \<in> set TERMINAL_STATUSES"
    | "an_status an = 200" | pos where "an_status an = 206" "contentRangeStart (an_contentRange an) = Some pos"
    | "an_status an \<notin> {504, 401, 403, 200, 206}" "an_status an \<notin> set TERMINAL_STATUSES"
    using no by (cases "contentRangeStart (an_contentRange an)") (auto simp: accepts_def)
  then show ?thesis
  proof cases
    case 1
    with assms show ?thesis
      by (auto simp: answered_def Let_def errorOk_retryLater keptWaiting_def intro!: errorOk_throw)
  next
    case 2
    then show ?thesis
      by (auto simp: answered_def Let_def readRefused_def intro!: errorOk_throw) (auto simp: errorOk_def)
  next
    case 3
    then show ?thesis
      by (auto simp: answered_def Let_def readFailed_def TERMINAL_STATUSES_def intro!: errorOk_throw)
  next
    case 4
    with no have "0 < rs_cursor s" by (simp add: accepts_def)
    with 4 show ?thesis
      by (auto simp: answered_def Let_def TERMINAL_STATUSES_def intro!: errorOk_throw)
  next
    case (5 pos)
    with no show ?thesis
      by (auto simp: answered_def Let_def TERMINAL_STATUSES_def accepts_def intro!: errorOk_throw)
  next
    case 6
    then show ?thesis by (simp add: answered_def Let_def errorOk_retryLater)
  qed
qed

lemma signalAborted_fired:
  "signalAborted s \<Longrightarrow> signalAborted (s\<lparr>rs_gate := gateAbort (rs_gate s)\<rparr>)"
  "signalAborted s \<Longrightarrow> signalAborted (s\<lparr>rs_gate := gateClose (rs_gate s)\<rparr>)"
  by (auto simp: signalAborted_def gateAbort_def gateClose_def Let_def)

lemma errorOk_gateFired:
  assumes "errorOk opts s" and "signalAborted s \<Longrightarrow> signalAborted (s\<lparr>rs_gate := f (rs_gate s)\<rparr>)"
  shows "errorOk opts (gateFired f s)"
proof (cases "rs_phase s = ReadSleeping \<and> signalAborted (s\<lparr>rs_gate := f (rs_gate s)\<rparr>)")
  case True
  then show ?thesis by (simp add: gateFired_def Let_def errorOk_aborted)
next
  case False
  then have "gateFired f s = s\<lparr>rs_gate := f (rs_gate s)\<rparr>" by (auto simp: gateFired_def Let_def)
  moreover have "fits opts (s\<lparr>rs_gate := f (rs_gate s)\<rparr>) err" if "fits opts s err" for err
    using that assms(2) by (cases err) auto
  ultimately show ?thesis using assms(1) by (simp add: errorOk_def)
qed

lemma errorOk_event:
  assumes "readBounds opts s" and "errorOk opts s" and "awaitedRead (rs_phase s) e"
  shows "errorOk opts (readEvent opts s e)"
proof -
  have bounds: "rs_attempts s \<le> maxAttempts opts" using assms(1) by (simp add: readBounds_def)
  show ?thesis
  proof (cases e)
    case (Answered an)
    have "rs_slowRetries s \<le> maxSlow opts" using assms(1,3) Answered by (auto simp: readBounds_def)
    with Answered show ?thesis by (simp add: errorOk_answered)
  next
    case (RefreshAnswered b)
    have "ro_refresh opts" "rs_lastStatus s = 401 \<or> rs_lastStatus s = 403"
      using assms RefreshAnswered by (auto simp: errorOk_def readBounds_def)
    with RefreshAnswered show ?thesis
      by (auto simp: refreshAnswered_def readRefused_def errorOk_retryLater intro!: errorOk_throw
          split: option.split bool.split)
  next
    case (ChunkCame n)
    with bounds assms(2,3) show ?thesis
      by (auto simp: chunkRead_def Let_def intro!: errorOk_pullLoop split: option.split) (simp add: errorOk_def)
  next
    case GateAborted
    with assms(2) show ?thesis by (simp add: errorOk_gateFired signalAborted_fired)
  next
    case GateClosed
    with assms(2) show ?thesis by (simp add: errorOk_gateFired signalAborted_fired)
  next
    case StreamCancelled
    have "fits opts (cancelStream s) err = fits opts s err" for err
      by (cases err) (simp_all add: cancelStream_def signalAborted_def noProgress_def keptWaiting_def)
    with StreamCancelled assms(2) show ?thesis by (simp add: errorOk_def) (simp add: cancelStream_def)
  qed (use bounds in \<open>simp_all add: fetchThrew_def bodyThrew_def bodyOver_def Let_def
    errorOk_aborted errorOk_retryLater errorOk_pullLoop\<close>)
qed

lemma errorOk_afterPull: "errorOk opts s \<Longrightarrow> errorOk opts (afterPull s)"
  by (auto simp: errorOk_def afterPull_def split: read_phase.splits)

interpretation failures: component "readStep opts" "\<lambda>s. readBounds opts s \<and> errorOk opts s" for opts
  by unfold_locales (simp add: readStep_def readBounds_event errorOk_event readBounds_afterPull errorOk_afterPull)

section \<open>Progress\<close>

text \<open>
  A stream on its own (whoever reads it, but without the gate) moves down: the
  cancelling left, bytes left, slow answers left, the refresh left, attempts
  left, and last the place in the loop. An empty chunk alone changes nothing, and
  a stream is cancelled once.
\<close>

definition emptyChunk :: "'b range_read \<Rightarrow> 'b read_event \<Rightarrow> bool" where
  "emptyChunk s e =
     (case (e, rs_reader s) of (ChunkCame n, Some body) \<Rightarrow> take n body = [] | _ \<Rightarrow> False)"

definition ownRead :: "'b range_read \<Rightarrow> 'b read_event \<Rightarrow> bool" where
  "ownRead s e \<longleftrightarrow>
     awaitedRead (rs_phase s) e \<and> e \<noteq> GateAborted \<and> e \<noteq> GateClosed \<and> \<not> emptyChunk s e
     \<and> \<not> (e = StreamCancelled \<and> rs_cancelled s)"

fun placeRank :: "read_phase \<Rightarrow> bool \<Rightarrow> nat" where
  "placeRank ReadIdle d = 6"
| "placeRank ReadChunk d = (if d then 5 else 1)"
| "placeRank ReadSleeping d = 4"
| "placeRank ReadOpening d = 3"
| "placeRank ReadRefreshing d = 2"
| "placeRank p d = 0"

definition readRank :: "reader_options \<Rightarrow> 'b range_read \<Rightarrow> nat \<times> nat \<times> nat \<times> nat \<times> nat \<times> nat" where
  "readRank opts s =
     (if rs_cancelled s then 0 else 1, rs_target s - rs_cursor s, maxSlow opts + 1 - rs_slowRetries s, if rs_refreshed s then 0 else 1,
      maxAttempts opts - rs_attempts s, placeRank (rs_phase s) (0 < rs_deliveredByBody s))"

definition readProgress :: "reader_options \<Rightarrow> ('b range_read \<times> 'b range_read) set" where
  "readProgress opts =
     inv_image (less_than <*lex*> less_than <*lex*> less_than <*lex*> less_than <*lex*> less_than <*lex*> less_than) (readRank opts)"

lemma wf_readProgress: "wf (readProgress opts)"
  by (auto simp: readProgress_def intro: wf_inv_image)

lemma progress_retryLater:
  "rs_attempts s < maxAttempts opts \<Longrightarrow> rs_target t = rs_target s \<Longrightarrow> rs_cursor t = rs_cursor s \<Longrightarrow>
   rs_slowRetries t = rs_slowRetries s \<Longrightarrow> rs_refreshed s \<longrightarrow> rs_refreshed t \<Longrightarrow>
   rs_attempts t = rs_attempts s \<Longrightarrow> rs_cancelled t = rs_cancelled s \<Longrightarrow> (retryLater t, s) \<in> readProgress opts"
  by (auto simp: readProgress_def readRank_def retryLater_def Let_def throwAborted_def throwRead_def)

lemma progress_place:
  assumes "rs_target t = rs_target s" "rs_cursor t = rs_cursor s" "rs_slowRetries t = rs_slowRetries s"
    "rs_refreshed t = rs_refreshed s" "rs_attempts t = rs_attempts s" "rs_cancelled t = rs_cancelled s"
    "placeRank (rs_phase t) (0 < rs_deliveredByBody t) < placeRank (rs_phase s) (0 < rs_deliveredByBody s)"
  shows "(t, s) \<in> readProgress opts"
  using assms by (simp add: readProgress_def readRank_def)

lemma progress_throw:
  assumes "rs_phase s \<in> {ReadIdle, ReadChunk, ReadSleeping, ReadOpening, ReadRefreshing}"
    "rs_target t = rs_target s" "rs_cursor t = rs_cursor s" "rs_slowRetries t = rs_slowRetries s"
    "rs_refreshed t = rs_refreshed s" "rs_attempts t = rs_attempts s" "rs_cancelled t = rs_cancelled s"
  shows "(throwRead err t, s) \<in> readProgress opts"
  using assms by (intro progress_place) (auto simp: throwRead_def)

lemma progress_answered:
  assumes "readBounds opts s" and "rs_phase s = ReadOpening"
  shows "(answered opts an s, s) \<in> readProgress opts"
proof -
  have s: "rs_attempts s < maxAttempts opts" "rs_slowRetries s \<le> maxSlow opts"
    using assms by (auto simp: readBounds_def)
  show ?thesis
  proof (cases "an_status an = 504")
    case True
    with s show ?thesis
      by (auto simp: answered_def Let_def readProgress_def readRank_def throwRead_def retryLater_def throwAborted_def)
  next
    case False
    have opened: "(s\<lparr>rs_lastStatus := n, rs_deliveredByBody := 0, rs_reader := r, rs_phase := ReadChunk\<rparr>, s)
        \<in> readProgress opts" for n r
      using assms by (intro progress_place) simp_all
    have asked: "(s\<lparr>rs_lastStatus := n, rs_phase := ReadRefreshing\<rparr>, s) \<in> readProgress opts" for n
      using assms by (intro progress_place) simp_all
    have thrown: "(throwRead err (s\<lparr>rs_lastStatus := n\<rparr>), s) \<in> readProgress opts" for err n
      using assms by (intro progress_throw) simp_all
    have retried: "(retryLater (s\<lparr>rs_lastStatus := n\<rparr>), s) \<in> readProgress opts" for n
      using s by (intro progress_retryLater) simp_all
    from False show ?thesis
      by (cases "an_body an"; cases "contentRangeStart (an_contentRange an)")
        (simp_all add: answered_def Let_def opened asked thrown retried)
  qed
qed

lemma progress_pullLoop:
  assumes "rs_target t = rs_target s" "rs_cursor t = rs_cursor s" "rs_slowRetries t = rs_slowRetries s"
    "rs_refreshed t = rs_refreshed s" "rs_attempts t = rs_attempts s" "rs_deliveredByBody t = rs_deliveredByBody s"
    "rs_cancelled t = rs_cancelled s"
    and "rs_phase s \<in> {ReadIdle, ReadSleeping} \<or> rs_phase s = ReadChunk \<and> 0 < rs_deliveredByBody s"
    and "rs_phase s = ReadIdle \<or> rs_reader t = None"
  shows "(pullLoop opts t, s) \<in> readProgress opts"
  using assms by (intro progress_place) (auto simp: pullLoop_def throwAborted_def throwRead_def)

lemma progress_chunk:
  assumes "readBounds opts s" and "rs_phase s = ReadChunk" and "\<not> emptyChunk s (ChunkCame n)"
  shows "(chunkRead opts n s, s) \<in> readProgress opts"
proof -
  from assms(1,2) obtain body where body: "rs_reader s = Some body" "rs_cursor s < rs_target s"
    by (auto simp: readBounds_def)
  with assms(3) have "take n body \<noteq> []" by (simp add: emptyChunk_def)
  then have some: "0 < length (take (rs_target s - rs_cursor s) (take n body))" using body(2) by simp
  have "rs_target (chunkRead opts n s) = rs_target s"
    and "rs_cursor (chunkRead opts n s) = rs_cursor s + length (take (rs_target s - rs_cursor s) (take n body))"
    using chunkRead_bytes [OF body(1), of opts n] \<open>take n body \<noteq> []\<close> unfolding Let_def by blast+
  then have "rs_target (chunkRead opts n s) - rs_cursor (chunkRead opts n s) < rs_target s - rs_cursor s"
    using some body(2) by linarith
  moreover have "rs_cancelled (chunkRead opts n s) = rs_cancelled s"
    by (simp add: chunkRead_def Let_def pullLoop_def throwAborted_def throwRead_def split: option.split)
  ultimately show ?thesis by (simp add: readProgress_def readRank_def)
qed

lemma own_read_moves:
  assumes "readBounds opts s" and "ownRead s e"
  shows "(readEvent opts s e, s) \<in> readProgress opts"
proof -
  have awaited: "awaitedRead (rs_phase s) e" using assms(2) by (simp add: ownRead_def)
  show ?thesis
  proof (cases e)
    case Pulled
    with awaited show ?thesis by (simp add: progress_pullLoop)
  next
    case Slept
    with awaited assms(1) show ?thesis by (simp add: progress_pullLoop readBounds_def)
  next
    case (Answered an)
    with awaited assms(1) show ?thesis by (simp add: progress_answered)
  next
    case (ChunkCame n)
    with awaited assms show ?thesis by (simp add: progress_chunk ownRead_def)
  next
    case FetchThrew
    with awaited assms(1) have "rs_attempts s < maxAttempts opts" by (simp add: readBounds_def)
    with FetchThrew awaited show ?thesis
      by (simp add: fetchThrew_def throwAborted_def progress_throw progress_retryLater)
  next
    case (RefreshAnswered b)
    with awaited assms(1) have "rs_attempts s < maxAttempts opts" by (simp add: readBounds_def)
    with RefreshAnswered awaited show ?thesis
      by (simp add: refreshAnswered_def progress_throw progress_retryLater split: option.split bool.split)
  next
    case BodyDone
    with awaited assms(1) have "rs_attempts s < maxAttempts opts" by (simp add: readBounds_def)
    with BodyDone awaited show ?thesis
      by (simp add: bodyOver_def Let_def progress_retryLater progress_pullLoop)
  next
    case BodyThrew
    with awaited assms(1) have "rs_attempts s < maxAttempts opts" by (simp add: readBounds_def)
    with BodyThrew awaited show ?thesis
      by (simp add: bodyThrew_def bodyOver_def Let_def throwAborted_def progress_throw progress_retryLater progress_pullLoop)
  next
    case StreamCancelled
    with assms(2) show ?thesis by (simp add: ownRead_def cancelStream_def readProgress_def readRank_def)
  qed (use assms(2) in \<open>simp_all add: ownRead_def\<close>)
qed

text \<open>A pull that ends in a cancelled stream moves down in its place.\<close>

lemma progress_afterPull:
  assumes "(t, s) \<in> readProgress opts"
  shows "(afterPull t, s) \<in> readProgress opts"
proof -
  have "placeRank (rs_phase (afterPull t)) d \<le> placeRank (rs_phase t) d" for d
    by (simp add: afterPull_def)
  then have "readRank opts (afterPull t) = readRank opts t \<or> (readRank opts (afterPull t), readRank opts t)
      \<in> less_than <*lex*> less_than <*lex*> less_than <*lex*> less_than <*lex*> less_than <*lex*> less_than"
    unfolding readRank_def by (simp add: order_le_less) metis
  then show ?thesis
  proof
    assume "readRank opts (afterPull t) = readRank opts t"
    with assms show ?thesis by (simp add: readProgress_def)
  next
    assume "(readRank opts (afterPull t), readRank opts t)
      \<in> less_than <*lex*> less_than <*lex*> less_than <*lex*> less_than <*lex*> less_than <*lex*> less_than"
    then have "(afterPull t, t) \<in> readProgress opts" by (simp add: readProgress_def)
    moreover have "trans (readProgress opts)"
      unfolding readProgress_def by (intro trans_inv_image trans_lex_prod trans_less_than)
    ultimately show ?thesis using assms by (meson transD)
  qed
qed

lemma own_read_progress:
  assumes "readBounds opts s" and "ownRead s e"
  shows "(readStep opts s e, s) \<in> readProgress opts"
proof -
  have "awaitedRead (rs_phase s) e" using assms(2) by (simp add: ownRead_def)
  then show ?thesis using progress_afterPull [OF own_read_moves [OF assms]] by (simp add: readStep_def)
qed

section \<open>Properties\<close>

lemma cursor_of_run:
  assumes "streamOk opts content s" and "along (readStep opts) (honest content) s es"
  shows "rs_target (runRead opts s es) = rs_target s \<and> rs_cursor (runRead opts s es) \<le> max (rs_cursor s) (rs_target s)"
  using assms
proof (induction es arbitrary: s)
  case Nil
  then show ?case by (simp add: runRead_def)
next
  case (Cons e es)
  then have "streamOk opts content (readStep opts s e)" by (auto intro: stream.step_keeps)
  with Cons read_step_hands [of opts s content e] show ?case
    by (force simp: runRead_def streamOk_def)
qed

lemma range_stream_delivers_slice_plain:
  assumes "along (readStep opts) (honest content) (rangeStream opts gate from end) es"
  defines "s \<equiv> runRead opts (rangeStream opts gate from end) es"
  shows "concat (rs_enqueued s) = slice content from (rs_cursor s)
    \<and> from \<le> rs_cursor s \<and> rs_cursor s \<le> max from (min end (ro_size opts))
    \<and> (rs_phase s = ReadClosed \<longrightarrow> concat (rs_enqueued s) = slice content from (min end (ro_size opts)))"
proof -
  have start: "streamOk opts content (rangeStream opts gate from end)"
    by (simp add: streamOk_def readBounds_start) (simp add: readerHonest_def rangeStream_def)
  have bounds: "readBounds opts s"
    using stream.run_keeps [OF start assms(1)] by (simp add: s_def runRead_def streamOk_def)
  have out: "concat (rs_enqueued s) = slice content from (rs_cursor s)" "from \<le> rs_cursor s"
    using stream.run_hands_slice [OF start assms(1)] by (simp_all add: s_def runRead_def rangeStream_def)
  have reach: "rs_target s = min end (ro_size opts)" "rs_cursor s \<le> max from (min end (ro_size opts))"
    using cursor_of_run [OF start assms(1)] unfolding s_def by (simp_all add: rangeStream_def)
  have "slice content from (rs_cursor s) = slice content from (min end (ro_size opts))" if "rs_phase s = ReadClosed"
  proof -
    have "min end (ro_size opts) \<le> rs_cursor s" using bounds that reach by (simp add: readBounds_def)
    with reach out(2) have "rs_cursor s = min end (ro_size opts) \<or> min end (ro_size opts) \<le> from \<and> rs_cursor s = from"
      by linarith
    then show ?thesis by auto
  qed
  with out reach show ?thesis by simp
qed

text \<open>
  C33: whatever requests fail, stall, are cut short or refused on the way, what a
  stream over an honest origin has handed out is the file from where it started
  to its cursor; it never passes its target, and it closes only at the target,
  with every byte delivered.
\<close>

theorem range_stream_delivers_slice:
  assumes "along (readStep opts) (honest content) (rangeStream opts gate from end) es"
  defines "s \<equiv> runRead opts (rangeStream opts gate from end) es"
  shows "concat (rs_enqueued s) = slice content from (rs_cursor s)
    \<and> from \<le> rs_cursor s \<and> rs_cursor s \<le> max from (min end (ro_size opts))
    \<and> (rs_phase s = ReadClosed \<longrightarrow> concat (rs_enqueued s) = slice content from (min end (ro_size opts)))"
  using range_stream_delivers_slice_plain [OF assms(1)] unfolding s_def .

definition sampleFile :: "nat list" where "sampleFile = [10, 11, 12, 13, 14, 15, 16, 17, 18, 19]"

definition sampleOptions :: reader_options where
  "sampleOptions = \<lparr>ro_size = 10, ro_maxAttempts = Some 3, ro_maxSlowRetries = Some 2, ro_backoffMs = None, ro_refresh = True\<rparr>"

text \<open>Reading 2 to 8: refused once, cut short after three bytes, then a body of more than was asked.\<close>

definition sampleReads :: "nat read_event list" where
  "sampleReads =
     [Pulled, FetchThrew, Slept, Answered \<lparr>an_status = 401, an_contentRange = [], an_body = None\<rparr>,
      RefreshAnswered (Some True), Slept,
      Answered \<lparr>an_status = 206, an_contentRange = ''bytes 2-7/10'', an_body = Some [12, 13, 14]\<rparr>,
      ChunkCame 2, Pulled, ChunkCame 9, Pulled, BodyDone,
      Answered \<lparr>an_status = 206, an_contentRange = [], an_body = Some [15, 16, 17, 18]\<rparr>, ChunkCame 4, Pulled]"

theorem range_stream_delivers_slice_witness:
  "rs_phase (runRead sampleOptions (rangeStream sampleOptions newGate 2 8) sampleReads) = ReadClosed
   \<and> concat (rs_enqueued (runRead sampleOptions (rangeStream sampleOptions newGate 2 8) sampleReads)) = [12, 13, 14, 15, 16, 17]"
proof -
  have closes: "rs_phase (runRead sampleOptions (rangeStream sampleOptions newGate 2 8) sampleReads) = ReadClosed"
    by code_simp
  have "along (readStep sampleOptions) (honest sampleFile) (rangeStream sampleOptions newGate 2 8) sampleReads"
    by code_simp
  from range_stream_delivers_slice [OF this] closes
  have "concat (rs_enqueued (runRead sampleOptions (rangeStream sampleOptions newGate 2 8) sampleReads))
      = slice sampleFile 2 (min 8 (ro_size sampleOptions))"
    by blast
  also have "\<dots> = [12, 13, 14, 15, 16, 17]" by code_simp
  finally show ?thesis using closes by simp
qed

text \<open>
  C34: a stream fails only for a reason: its signal was aborted, the origin's
  answer was a refusal or a broken promise, the consecutive attempts reached the
  limit exactly, or one more slow answer than allowed came; no budget is ever
  exceeded by more.
\<close>

theorem range_stream_fails_for_a_reason:
  fixes opts :: reader_options and gate :: read_gate and start stop :: nat and es :: "'b read_event list"
  defines "s \<equiv> runRead opts (rangeStream opts gate start stop) es"
  shows "rs_attempts s \<le> maxAttempts opts \<and> rs_slowRetries s \<le> maxSlow opts + 1
    \<and> (\<forall>err. rs_phase s = ReadErrored err \<longrightarrow> fits opts s err)"
proof -
  have "readBounds opts s \<and> errorOk opts s"
    unfolding s_def runRead_def
    by (rule failures.run_keeps) (use readBounds_start [of opts gate start stop] in \<open>simp add: errorOk_def rangeStream_def\<close>)
  then have bounds: "readBounds opts s" and err: "errorOk opts s" by simp_all
  have "rs_attempts s \<le> maxAttempts opts" "rs_slowRetries s \<le> maxSlow opts + 1"
    using bounds unfolding readBounds_def by linarith+
  with err show ?thesis by (simp add: errorOk_def)
qed

text \<open>Three failures in a row use up three attempts.\<close>

definition failingReads :: "nat read_event list" where
  "failingReads = [Pulled, FetchThrew, Slept, FetchThrew, Slept, FetchThrew, Slept]"

theorem range_stream_fails_for_a_reason_witness:
  "(let s = runRead sampleOptions (rangeStream sampleOptions newGate 0 8) failingReads
    in rs_phase s = ReadErrored (ReadUnreachable ''no progress after 3 attempts at byte 0, no answer at all'')
     \<and> rs_attempts s = 3)"
proof -
  have err: "rs_phase (runRead sampleOptions (rangeStream sampleOptions newGate 0 8) failingReads)
      = ReadErrored (ReadUnreachable ''no progress after 3 attempts at byte 0, no answer at all'')"
    by code_simp
  have slow: "rs_slowRetries (runRead sampleOptions (rangeStream sampleOptions newGate 0 8) failingReads) = 0"
    by code_simp
  show ?thesis
    using range_stream_fails_for_a_reason [of sampleOptions newGate 0 8 failingReads] err slow
    by (auto simp: Let_def sampleOptions_def maxAttempts_def maxSlow_def)
qed

text \<open>
  C35: a stream comes to an end: whatever the gate did before, what it does on
  its own from any reachable state (the pulls of its reader, the fetches, the
  refresh, the sleeps, the chunks and ends of bodies, its being cancelled, and
  what a pull that was running at the cancel still does) cannot go on forever.
  Only the chunks of no bytes are left out, which the loop reads again after.
\<close>

theorem range_stream_comes_to_an_end:
  "wf {(readStep opts s e, s) | s e es. s = runRead opts (rangeStream opts gate from end) es \<and> ownRead s e}"
proof (rule wf_subset [OF wf_readProgress [of opts]], clarify)
  fix s :: "'a range_read" and e es
  assume "ownRead (runRead opts (rangeStream opts gate from end) es) e"
  moreover have "readBounds opts (runRead opts (rangeStream opts gate from end) es)"
    unfolding runRead_def by (rule reads.run_keeps) (rule readBounds_start)
  ultimately show "(readStep opts (runRead opts (rangeStream opts gate from end) es) e,
      runRead opts (rangeStream opts gate from end) es) \<in> readProgress opts"
    by (rule own_read_progress [rotated])
qed

text \<open>
  A cancel does not stop the pull that is running. The aborted fetch counts as
  a failed attempt, and after its sleep the pull asks the origin again, opens
  the body and reads a chunk of it, which the cancelled stream refuses: one
  request more that nobody waits for.
\<close>

theorem cancelled_read_asks_again:
  "let run = runRead sampleOptions (rangeStream sampleOptions newGate 2 8);
       body = Answered \<lparr>an_status = 206, an_contentRange = [], an_body = Some [12, 13, 14]\<rparr>
   in rs_phase (run [Pulled, StreamCancelled, FetchThrew, Slept]) = ReadOpening
    \<and> rs_cancelled (run [Pulled, StreamCancelled, FetchThrew, Slept])
    \<and> rs_phase (run [Pulled, StreamCancelled, FetchThrew, Slept, body]) = ReadChunk
    \<and> rs_phase (run [Pulled, StreamCancelled, FetchThrew, Slept, body, ChunkCame 3]) = ReadCancelled"
  by code_simp

text \<open>
  a whole read answers exactly the asked part of the file, as far as the file
  goes by its declared size, or the reason its stream failed.
\<close>

theorem range_bytes_answers_slice:
  assumes "along (readStep opts) (honest content) (rangeStream opts gate from (min end (ro_size opts))) es"
    and "ro_size opts \<le> length content"
  shows "rangeBytes zero opts gate from end es
    \<in> {None, Some (Inr (slice content from (min end (ro_size opts))))}
      \<union> {Some (Inl err) | err. rs_phase (runRead opts (rangeStream opts gate from (min end (ro_size opts))) es) = ReadErrored err}"
proof (cases "min end (ro_size opts) \<le> from")
  case True
  then show ?thesis by (simp add: rangeBytes_def Let_def)
next
  case False
  let ?t = "min end (ro_size opts)"
  let ?s = "runRead opts (rangeStream opts gate from ?t) es"
  have "fillChunks (replicate (?t - from) zero) 0 (rs_enqueued ?s) = Some (slice content from ?t)"
    if "rs_phase ?s = ReadClosed"
  proof -
    have out: "concat (rs_enqueued ?s) = slice content from ?t"
      using range_stream_delivers_slice_plain [OF assms(1)] that unfolding min.right_idem by blast
    have "?t \<le> length content" using assms(2) by simp
    with False out have "length (concat (rs_enqueued ?s)) = ?t - from" by simp
    then show ?thesis
      using fillChunks_concat [of "[]" "rs_enqueued ?s" "replicate (?t - from) zero"] out by simp
  qed
  with False show ?thesis by (simp add: rangeBytes_def Let_def split: read_phase.split)
qed

theorem range_bytes_answers_slice_witness:
  "rangeBytes 0 sampleOptions newGate 2 8 sampleReads = Some (Inr [12, 13, 14, 15, 16, 17])"
proof -
  have along: "along (readStep sampleOptions) (honest sampleFile)
      (rangeStream sampleOptions newGate 2 (min 8 (ro_size sampleOptions))) sampleReads"
    by code_simp
  have size: "ro_size sampleOptions \<le> length sampleFile" by code_simp
  have closes: "rs_phase (runRead sampleOptions (rangeStream sampleOptions newGate 2 (min 8 (ro_size sampleOptions))) sampleReads)
      = ReadClosed"
    by code_simp
  have settled: "rangeBytes 0 sampleOptions newGate 2 8 sampleReads \<noteq> None" by code_simp
  have "slice sampleFile 2 (min 8 (ro_size sampleOptions)) = [12, 13, 14, 15, 16, 17]" by code_simp
  with range_bytes_answers_slice [OF along size, of 0] settled closes show ?thesis by auto
qed

text \<open>
  C30: slow answers add up over a whole stream. With two allowed, a stream that
  delivers bytes after each of two slow answers still fails at the third: the
  budget is never given back on progress, unlike the attempts.
\<close>

definition slowReads :: "nat read_event list" where
  "slowReads =
     (let slow = Answered \<lparr>an_status = 504, an_contentRange = [], an_body = None\<rparr>;
          serve = (\<lambda>b. Answered \<lparr>an_status = 206, an_contentRange = [], an_body = Some [b]\<rparr>)
      in [Pulled, slow, Slept, serve 10, ChunkCame 1, Pulled, BodyDone,
          slow, Slept, serve 11, ChunkCame 1, Pulled, BodyDone, slow])"

theorem slow_answers_add_up:
  "(let s = runRead sampleOptions (rangeStream sampleOptions newGate 0 8) slowReads
    in rs_cursor s = 2 \<and> rs_attempts s = 0
     \<and> rs_phase s = ReadErrored (ReadUnreachable ''origin kept waiting on the swarm at byte 2 after 3 answers of 504''))"
  by code_simp

text \<open>The delay before a retry is between half of its base and its base, which is at most eight seconds.\<close>

lemma backoff_bounds:
  assumes "0 \<le> random" and "random \<le> 1"
  shows "backoff attempt baseMs random \<le> of_nat (min BACKOFF_CAP_MS (baseMs * 2 ^ attempt))"
    and "of_nat (min BACKOFF_CAP_MS (baseMs * 2 ^ attempt)) / 2 \<le> backoff attempt baseMs random"
proof -
  define base :: rat where "base = of_nat (min BACKOFF_CAP_MS (baseMs * 2 ^ attempt))"
  have "0 \<le> base" by (simp add: base_def)
  then have "random * base \<le> base" "0 \<le> random * base"
    using assms mult_right_mono [of random 1 base] by simp_all
  then show "backoff attempt baseMs random \<le> of_nat (min BACKOFF_CAP_MS (baseMs * 2 ^ attempt))"
    "of_nat (min BACKOFF_CAP_MS (baseMs * 2 ^ attempt)) / 2 \<le> backoff attempt baseMs random"
    unfolding backoff_def Let_def base_def [symmetric] by simp_all
qed

end
