(* ===== verification/ByteTap.thy ===== *)
theory ByteTap
  imports Bytes
begin

text \<open>
  The tap that lets the subtitle scan ride on the remux's reads
  (\<open>pipeline/byteTap.ts\<close>): what the remux offers is held until the scan's cursor
  reaches it, what it skips the scan fetches itself, and the scan sees one
  contiguous file. A \<open>pull\<close> that waits is a pending promise; its wake-up and its
  continuation are separate events, so offers can come between them.
\<close>

section \<open>State\<close>

definition MAX_PULL_BYTES :: int where "MAX_PULL_BYTES = 8 * 1024 * 1024"

definition DEFAULT_BUFFER_BYTES :: nat where "DEFAULT_BUFFER_BYTES = 64 * 1024 * 1024"

text \<open>
  \<open>bt_pull\<close> is the promise of \<open>pull\<close>: none, waiting for its waiter, or woken and
  about to go on. \<open>bt_seen\<close> is what the scan was given or filled in, in order,
  and \<open>bt_results\<close> what its calls of \<open>pull\<close> answered.
\<close>

datatype pull_state = NoPull | PullWaiting | PullWoken bool

record 'b byte_tap =
  bt_at :: nat
  bt_pending :: "(nat, 'b list) jsmap"
  bt_buffered :: int
  bt_pull :: pull_state
  bt_done :: bool
  bt_latestOfferEnd :: nat
  bt_bufferBytes :: nat
  bt_seen :: "'b list list"
  bt_results :: "'b list option list"

definition newTap :: "nat \<Rightarrow> 'b byte_tap" where
  "newTap bufferBytes =
     \<lparr>bt_at = 0, bt_pending = [], bt_buffered = 0, bt_pull = NoPull, bt_done = False,
      bt_latestOfferEnd = 0, bt_bufferBytes = bufferBytes, bt_seen = [], bt_results = []\<rparr>"

definition riding :: "'b byte_tap \<Rightarrow> bool" where
  "riding s \<longleftrightarrow> \<not> bt_done s \<and> bt_latestOfferEnd s \<le> bt_at s + bt_bufferBytes s"

section \<open>Offering\<close>

definition wakeTap :: "bool \<Rightarrow> 'b byte_tap \<Rightarrow> 'b byte_tap" where
  "wakeTap woken s = (if bt_pull s = PullWaiting then s\<lparr>bt_pull := PullWoken woken\<rparr> else s)"

text \<open>\<open>offer\<close> past its clipping to the cursor.\<close>

definition hold :: "nat \<Rightarrow> 'b list \<Rightarrow> 'b byte_tap \<Rightarrow> 'b byte_tap" where
  "hold offset bytes s =
     (let held = mapGet (bt_pending s) offset;
          heldLength = (case held of None \<Rightarrow> 0 | Some h \<Rightarrow> length h)
      in if held \<noteq> None \<and> length bytes \<le> heldLength then s
         else if offset \<noteq> bt_at s \<and> int (bt_bufferBytes s) < bt_buffered s - int heldLength + int (length bytes) then s
         else
           let s = (if held = None then s
                    else s\<lparr>bt_buffered := bt_buffered s - int heldLength, bt_pending := mapDelete offset (bt_pending s)\<rparr>);
               s = s\<lparr>bt_pending := mapSet offset bytes (bt_pending s), bt_buffered := bt_buffered s + int (length bytes)\<rparr>
           in if offset = bt_at s then wakeTap True s else s)"

definition offer :: "nat \<Rightarrow> 'b list \<Rightarrow> 'b byte_tap \<Rightarrow> 'b byte_tap" where
  "offer offset bytes s =
     (if bt_done s \<or> bytes = [] then s
      else if offset + length bytes \<le> bt_at s then s
      else
        let s = s\<lparr>bt_latestOfferEnd := offset + length bytes\<rparr>;
            bytes = (if offset < bt_at s then drop (bt_at s - offset) bytes else bytes);
            offset = max offset (bt_at s)
        in if bt_at s + bt_bufferBytes s < offset then s else hold offset bytes s)"

section \<open>Pulling\<close>

definition prune :: "'b byte_tap \<Rightarrow> 'b byte_tap" where
  "prune s =
     (let gone = filter (\<lambda>(offset, bytes). offset + length bytes \<le> bt_at s) (bt_pending s)
      in s\<lparr>bt_pending := filter (\<lambda>(offset, bytes). \<not> offset + length bytes \<le> bt_at s) (bt_pending s),
           bt_buffered := bt_buffered s - int (sum_list (map (length \<circ> snd) gone))\<rparr>)"

text \<open>\<open>takeAt\<close>: the entry to hand out, by its key, and the bytes of it from \<open>pos\<close> on.\<close>

definition takeAt :: "nat \<Rightarrow> (nat, 'b list) jsmap \<Rightarrow> (nat \<times> 'b list) option" where
  "takeAt pos pending =
     (case mapGet pending pos of
        Some bytes \<Rightarrow> Some (pos, bytes)
      | None \<Rightarrow>
          (case find (\<lambda>(offset, bytes). offset < pos \<and> pos < offset + length bytes) pending of
             None \<Rightarrow> None
           | Some (offset, bytes) \<Rightarrow> Some (offset, drop (pos - offset) bytes)))"

lemma find_SomeD: "find P xs = Some x \<Longrightarrow> x \<in> set xs \<and> P x"
  by (induction xs) (auto split: if_splits)

lemma takeAt_key: "takeAt pos pending = Some (offset, bytes) \<Longrightarrow> offset \<in> fst ` set pending"
proof (cases "mapGet pending pos")
  case None
  assume "takeAt pos pending = Some (offset, bytes)"
  with None obtain b where "(offset, b) \<in> set pending"
    by (auto simp: takeAt_def dest!: find_SomeD split: option.splits)
  then show ?thesis by force
next
  case (Some b)
  assume "takeAt pos pending = Some (offset, bytes)"
  with Some show ?thesis by (auto simp: takeAt_def dest!: map_of_SomeD) force
qed

text \<open>The loop of \<open>drain\<close>: the parts it takes and the tap it leaves.\<close>

function drainLoop :: "int \<Rightarrow> 'b byte_tap \<Rightarrow> 'b list list \<times> 'b byte_tap" where
  "drainLoop got s =
     (if got < MAX_PULL_BYTES then
        case takeAt (bt_at s) (bt_pending s) of
          None \<Rightarrow> ([], s)
        | Some (offset, bytes) \<Rightarrow>
            let whole = (case mapGet (bt_pending s) offset of None \<Rightarrow> 0 | Some h \<Rightarrow> length h);
                (parts, s') = drainLoop (got + int (length bytes))
                  (s\<lparr>bt_pending := mapDelete offset (bt_pending s),
                     bt_buffered := bt_buffered s - int whole,
                     bt_at := bt_at s + length bytes\<rparr>)
            in (bytes # parts, s')
      else ([], s))"
  by pat_completeness auto
termination
proof (relation "measure (\<lambda>(got, s). length (bt_pending s))")
  fix got and s :: "'b byte_tap" and p offset bytes whole
  assume "takeAt (bt_at s) (bt_pending s) = Some p" and "(offset, bytes) = p"
  then have "offset \<in> fst ` set (bt_pending s)" by (auto dest: takeAt_key)
  then have "length (mapDelete offset (bt_pending s)) < length (bt_pending s)"
    unfolding AList.delete_eq by (auto intro!: length_filter_less)
  then show "((got + int (length bytes), s\<lparr>bt_pending := mapDelete offset (bt_pending s),
      bt_buffered := bt_buffered s - int whole, bt_at := bt_at s + length bytes\<rparr>), got, s)
      \<in> measure (\<lambda>(got, s). length (bt_pending s))"
    by simp
qed simp

declare drainLoop.simps [simp del]

text \<open>\<open>drain\<close>: the parts joined, or nothing when there is no byte.\<close>

definition drain :: "'b byte_tap \<Rightarrow> 'b list option \<times> 'b byte_tap" where
  "drain s =
     (let (parts, s') = drainLoop 0 s
      in if concat parts = [] then (None, s') else (Some (concat parts), prune s'))"

definition answerPull :: "'b list option \<Rightarrow> 'b byte_tap \<Rightarrow> 'b byte_tap" where
  "answerPull r s =
     s\<lparr>bt_pull := NoPull, bt_results := bt_results s @ [r],
       bt_seen := bt_seen s @ (case r of None \<Rightarrow> [] | Some bytes \<Rightarrow> [bytes])\<rparr>"

text \<open>One round of the loop of \<open>pull\<close>, up to its answer or its wait.\<close>

definition pullTap :: "'b byte_tap \<Rightarrow> 'b byte_tap" where
  "pullTap s =
     (case drain s of
        (Some bytes, s) \<Rightarrow> answerPull (Some bytes) s
      | (None, s) \<Rightarrow>
          if bt_done s then answerPull None s
          else if bt_at s + bt_bufferBytes s < bt_latestOfferEnd s then answerPull None s
          else s\<lparr>bt_pull := PullWaiting\<rparr>)"

definition resumePull :: "'b byte_tap \<Rightarrow> 'b byte_tap" where
  "resumePull s =
     (case bt_pull s of
        PullWoken True \<Rightarrow> pullTap s
      | PullWoken False \<Rightarrow> answerPull None s
      | _ \<Rightarrow> s)"

definition fillTap :: "'b list \<Rightarrow> 'b byte_tap \<Rightarrow> 'b byte_tap" where
  "fillTap bytes s = prune (s\<lparr>bt_at := bt_at s + length bytes, bt_seen := bt_seen s @ [bytes]\<rparr>)"

definition closeTap :: "'b byte_tap \<Rightarrow> 'b byte_tap" where
  "closeTap s = wakeTap False (s\<lparr>bt_done := True, bt_pending := [], bt_buffered := 0\<rparr>)"

section \<open>Events\<close>

datatype 'b tap_event =
    Offered nat "'b list"
  | PullCalled
  | PullResumed
  | IdleFired
  | Filled "'b list"
  | TapClosed

fun tapStep :: "'b byte_tap \<Rightarrow> 'b tap_event \<Rightarrow> 'b byte_tap" where
  "tapStep s (Offered offset bytes) = offer offset bytes s"
| "tapStep s PullCalled = (if bt_pull s = NoPull then pullTap s else s)"
| "tapStep s PullResumed = resumePull s"
| "tapStep s IdleFired = wakeTap False s"
| "tapStep s (Filled bytes) = (if bt_pull s = NoPull then fillTap bytes s else s)"
| "tapStep s TapClosed = closeTap s"

definition runTap :: "'b byte_tap \<Rightarrow> 'b tap_event list \<Rightarrow> 'b byte_tap" where
  "runTap s es = foldl tapStep s es"

section \<open>Mirroring a read\<close>

text \<open>
  \<open>teeInto\<close>: every chunk of the stream goes into the tap at the read's own offset
  and on to the reader unchanged. The state is the tap, the next offset and what
  the reader was given; \<open>None\<close> is the end of the stream.
\<close>

definition teePull :: "'b list option \<Rightarrow> 'b byte_tap \<times> nat \<times> 'b list list \<Rightarrow> 'b byte_tap \<times> nat \<times> 'b list list" where
  "teePull chunk st =
     (case (chunk, st) of
        (None, st) \<Rightarrow> st
      | (Some value, (tap, offset, out)) \<Rightarrow> (offer offset value tap, offset + length value, out @ [value]))"

definition teeInto :: "'b byte_tap \<Rightarrow> nat \<Rightarrow> 'b list list \<Rightarrow> 'b byte_tap \<times> nat \<times> 'b list list" where
  "teeInto tap start chunks = fold (\<lambda>chunk. teePull (Some chunk)) chunks (tap, start, [])"

section \<open>Counting what is held\<close>

definition held :: "(nat, 'b list) jsmap \<Rightarrow> nat" where
  "held m = sum_list (map (length \<circ> snd) m)"

lemma held_simps [simp]: "held [] = 0" "held (e # m) = length (snd e) + held m"
  "held (m @ m') = held m + held m'"
  by (simp_all add: held_def)

lemma held_delete: "distinct (map fst m) \<Longrightarrow> mapGet m k = Some v \<Longrightarrow> held (mapDelete k m) + length v = held m"
proof (induction m)
  case (Cons e m)
  then show ?case
    by (cases e) (auto simp: delete_simps split: if_splits)
qed simp

lemma held_filter: "held (filter P m) + held (filter (\<lambda>e. \<not> P e) m) = held m"
  by (induction m) auto

lemma held_set_new: "mapGet m k = None \<Longrightarrow> held (mapSet k v m) = held m + length v"
  by (induction m) (auto split: if_splits)

lemma set_mapSet_new: "mapGet m k = None \<Longrightarrow> set (mapSet k v m) = insert (k, v) (set m)"
  by (induction m) (auto split: if_splits)

section \<open>Invariant\<close>

definition entryOk :: "'b list \<Rightarrow> nat \<times> 'b list \<Rightarrow> bool" where
  "entryOk content e \<longleftrightarrow> snd e \<noteq> [] \<and> liesAt content (fst e) (snd e)"

definition tapOk :: "'b list \<Rightarrow> 'b byte_tap \<Rightarrow> bool" where
  "tapOk content s \<longleftrightarrow>
     distinct (map fst (bt_pending s)) \<and> bt_buffered s = int (held (bt_pending s))
   \<and> (\<forall>e \<in> set (bt_pending s). entryOk content e)"

text \<open>The promises of those who feed the tap: offers and fills are bytes of the file, fills at the cursor.\<close>

definition honestTap :: "'b list \<Rightarrow> 'b byte_tap \<Rightarrow> 'b tap_event \<Rightarrow> bool" where
  "honestTap content s e =
     (case e of
        Offered offset bytes \<Rightarrow> liesAt content offset bytes
      | Filled bytes \<Rightarrow> liesAt content (bt_at s) bytes
      | _ \<Rightarrow> True)"

lemma tapOk_same:
  "bt_pending t = bt_pending s \<Longrightarrow> bt_buffered t = bt_buffered s \<Longrightarrow> tapOk content t = tapOk content s"
  by (simp add: tapOk_def)

lemma wakeTap_fields [simp]:
  "bt_pending (wakeTap w s) = bt_pending s" "bt_buffered (wakeTap w s) = bt_buffered s"
  "bt_at (wakeTap w s) = bt_at s" "bt_seen (wakeTap w s) = bt_seen s"
  by (simp_all add: wakeTap_def)

lemma tapOk_delete:
  assumes "tapOk content s" and "mapGet (bt_pending s) k = Some v"
  shows "tapOk content (s\<lparr>bt_pending := mapDelete k (bt_pending s), bt_buffered := bt_buffered s - int (length v), bt_at := n\<rparr>)"
  using assms held_delete [of "bt_pending s" k v]
  by (auto simp: tapOk_def distinct_delete) (auto simp: AList.delete_eq)

lemma tapOk_insert:
  assumes "tapOk content s" and "mapGet (bt_pending s) k = None" and "entryOk content (k, bytes)"
  shows "tapOk content (s\<lparr>bt_pending := mapSet k bytes (bt_pending s), bt_buffered := bt_buffered s + int (length bytes)\<rparr>)"
  using assms by (auto simp: tapOk_def held_set_new set_mapSet_new distinct_update)

lemma hold_effect:
  assumes "tapOk content s" and "entryOk content (offset, bytes)"
  shows "tapOk content (hold offset bytes s)"
    and "bt_at (hold offset bytes s) = bt_at s" and "bt_seen (hold offset bytes s) = bt_seen s"
proof -
  have wake: "tapOk content (wakeTap w t) = tapOk content t" for w and t :: "'a byte_tap" by (simp add: tapOk_def)
  show "tapOk content (hold offset bytes s)"
  proof (cases "mapGet (bt_pending s) offset")
    case None
    from tapOk_insert [OF assms(1) None assms(2)] None assms(1) show ?thesis
      by (auto simp: hold_def Let_def wake)
  next
    case (Some h)
    have "tapOk content (s\<lparr>bt_buffered := bt_buffered s - int (length h), bt_pending := mapDelete offset (bt_pending s)\<rparr>)"
      using tapOk_delete [OF assms(1) Some, of "bt_at s"] by (simp add: tapOk_def)
    from tapOk_insert [OF this _ assms(2)] Some assms(1) show ?thesis
      by (auto simp: hold_def Let_def wake)
  qed
  show "bt_at (hold offset bytes s) = bt_at s" "bt_seen (hold offset bytes s) = bt_seen s"
    by (simp_all add: hold_def Let_def)
qed

lemma offer_effect:
  assumes "tapOk content s" and "liesAt content offset bytes"
  shows "tapOk content (offer offset bytes s)"
    and "bt_at (offer offset bytes s) = bt_at s" and "bt_seen (offer offset bytes s) = bt_seen s"
proof -
  define clipped where "clipped = (if offset < bt_at s then drop (bt_at s - offset) bytes else bytes)"
  have entry: "entryOk content (max offset (bt_at s), clipped)"
    if "bt_at s < offset + length bytes" "bytes \<noteq> []"
    using that assms(2) liesAt_drop [of content offset bytes "bt_at s - offset"]
    by (auto simp: entryOk_def clipped_def)
  have s: "tapOk content (s\<lparr>bt_latestOfferEnd := n\<rparr>)" for n using assms(1) by (simp add: tapOk_def)
  have offer: "offer offset bytes s =
      (if bt_done s \<or> bytes = [] \<or> offset + length bytes \<le> bt_at s then s
       else let s' = s\<lparr>bt_latestOfferEnd := offset + length bytes\<rparr>
            in if bt_at s + bt_bufferBytes s < max offset (bt_at s) then s' else hold (max offset (bt_at s)) clipped s')"
    by (simp add: offer_def clipped_def Let_def)
  show "tapOk content (offer offset bytes s)"
    and "bt_at (offer offset bytes s) = bt_at s" and "bt_seen (offer offset bytes s) = bt_seen s"
    using hold_effect [OF s entry] assms(1) s by (auto simp: offer Let_def)
qed

lemma takeAt_get:
  assumes "takeAt pos m = Some (offset, bytes)" and "distinct (map fst m)"
  obtains whole where "mapGet m offset = Some whole" "offset \<le> pos" "bytes = drop (pos - offset) whole"
    "offset = pos \<or> pos < offset + length whole"
proof (cases "mapGet m pos")
  case None
  with assms(1) obtain whole where "find (\<lambda>(offset, bytes). offset < pos \<and> pos < offset + length bytes) m = Some (offset, whole)"
      and bytes: "bytes = drop (pos - offset) whole"
    by (auto simp: takeAt_def split: option.splits)
  then have "(offset, whole) \<in> set m" "offset < pos" "pos < offset + length whole"
    by (auto simp: find_Some_iff in_set_conv_nth)
  with assms(2) bytes that show ?thesis by simp
next
  case (Some whole)
  with assms(1) that show ?thesis by (auto simp: takeAt_def)
qed

lemma drainLoop_effect:
  assumes "tapOk content s" and "drainLoop got s = (parts, t)"
  shows "tapOk content t \<and> bt_at t = bt_at s + length (concat parts) \<and> liesAt content (bt_at s) (concat parts)
    \<and> bt_seen t = bt_seen s"
  using assms
proof (induction got s arbitrary: parts t rule: drainLoop.induct)
  case (1 got s)
  show ?case
  proof (cases "got < MAX_PULL_BYTES \<and> takeAt (bt_at s) (bt_pending s) \<noteq> None")
    case False
    then have "drainLoop got s = ([], s)"
      by (cases "takeAt (bt_at s) (bt_pending s)") (auto simp: drainLoop.simps [of got s])
    with "1.prems" show ?thesis by simp
  next
    case True
    then obtain offset bytes where took: "takeAt (bt_at s) (bt_pending s) = Some (offset, bytes)" by auto
    from "1.prems"(1) have distinct: "distinct (map fst (bt_pending s))" by (simp add: tapOk_def)
    obtain whole where whole: "mapGet (bt_pending s) offset = Some whole" "offset \<le> bt_at s"
        "bytes = drop (bt_at s - offset) whole" "offset = bt_at s \<or> bt_at s < offset + length whole"
      using takeAt_get [OF took distinct] by blast
    let ?next = "s\<lparr>bt_pending := mapDelete offset (bt_pending s), bt_buffered := bt_buffered s - int (length whole),
        bt_at := bt_at s + length bytes\<rparr>"
    obtain rest where rest: "drainLoop (got + int (length bytes)) ?next = (rest, t)" "parts = bytes # rest"
      using "1.prems"(2) True took whole(1) by (auto simp: drainLoop.simps [of got s] Let_def split: prod.splits)
    have "tapOk content ?next" by (rule tapOk_delete [OF "1.prems"(1) whole(1)])
    with "1.IH" [of "(offset, bytes)" offset bytes "length whole"] True took whole(1) rest(1)
    have rec: "tapOk content t" "bt_at t = bt_at s + length bytes + length (concat rest)"
        "liesAt content (bt_at s + length bytes) (concat rest)" "bt_seen t = bt_seen s"
      by auto
    have "liesAt content offset whole" using "1.prems"(1) whole(1) map_of_SomeD by (fastforce simp: tapOk_def entryOk_def)
    then have "liesAt content (bt_at s) bytes"
      using liesAt_drop [of content offset whole "bt_at s - offset"] whole(2-4) by auto
    with rec rest(2) show ?thesis by (simp add: liesAt_append)
  qed
qed

lemma drainLoop_results: "drainLoop got s = (parts, t) \<Longrightarrow> bt_results t = bt_results s"
proof (induction got s arbitrary: parts t rule: drainLoop.induct)
  case (1 got s)
  then show ?case
    by (subst (asm) (2) drainLoop.simps) (auto simp: Let_def split: if_splits option.splits prod.splits)
qed

lemma prune_effect:
  "tapOk content s \<Longrightarrow> tapOk content (prune s)" "bt_at (prune s) = bt_at s" "bt_seen (prune s) = bt_seen s"
proof -
  assume "tapOk content s"
  then show "tapOk content (prune s)"
    using held_filter [of "\<lambda>(offset, bytes). offset + length bytes \<le> bt_at s" "bt_pending s"]
    by (auto simp: prune_def Let_def tapOk_def distinct_map_filter held_def split_def)
qed (simp_all add: prune_def Let_def)

lemma answerPull_fields [simp]:
  "tapOk content (answerPull r s) = tapOk content s" "bt_at (answerPull r s) = bt_at s"
  "bt_seen (answerPull r s) = bt_seen s @ (case r of None \<Rightarrow> [] | Some bytes \<Rightarrow> [bytes])"
  by (simp_all add: answerPull_def tapOk_def)

definition tapHands :: "'b list \<Rightarrow> 'b byte_tap \<Rightarrow> 'b byte_tap \<Rightarrow> bool" where
  "tapHands content s t \<longleftrightarrow> tapOk content t \<and> bt_at s \<le> bt_at t
     \<and> concat (bt_seen t) = concat (bt_seen s) @ slice content (bt_at s) (bt_at t)"

lemma pullTap_hands: "tapOk content s \<Longrightarrow> tapHands content s (pullTap s)"
proof -
  assume ok: "tapOk content s"
  obtain parts t where loop: "drainLoop 0 s = (parts, t)" by (cases "drainLoop 0 s") auto
  note eff = drainLoop_effect [OF ok loop]
  show ?thesis
  proof (cases "concat parts = []")
    case True
    then have "drain s = (None, t)" using loop by (simp add: drain_def)
    moreover have "tapOk content (t\<lparr>bt_pull := p\<rparr>)" for p using eff by (simp add: tapOk_def)
    ultimately show ?thesis using eff True by (simp add: pullTap_def tapHands_def)
  next
    case False
    then have "drain s = (Some (concat parts), prune t)" using loop by (simp add: drain_def)
    moreover have "slice content (bt_at s) (bt_at s + length (concat parts)) = concat parts"
      using eff by (simp add: liesAt_eq)
    ultimately show ?thesis using eff by (simp add: pullTap_def tapHands_def prune_effect)
  qed
qed

lemma tapStep_hands:
  assumes ok: "tapOk content s" and honest: "honestTap content s e"
  shows "tapHands content s (tapStep s e)"
proof -
  have same: "tapHands content s s" using ok by (simp add: tapHands_def)
  have wake: "tapHands content s (wakeTap w t) = tapHands content s t" for w and t :: "'a byte_tap"
    by (simp add: tapHands_def tapOk_def)
  show ?thesis
  proof (cases e)
    case (Offered offset bytes)
    with honest have lies: "liesAt content offset bytes" by (simp add: honestTap_def)
    with Offered show ?thesis using offer_effect [OF ok lies] by (simp add: tapHands_def)
  next
    case PullCalled
    with same pullTap_hands [OF ok] show ?thesis by simp
  next
    case PullResumed
    have "tapHands content s (answerPull None s)" using ok by (simp add: tapHands_def)
    with PullResumed same pullTap_hands [OF ok] show ?thesis
      by (simp add: resumePull_def split: pull_state.split bool.split)
  next
    case IdleFired
    with same wake show ?thesis by simp
  next
    case (Filled bytes)
    with honest have lies: "liesAt content (bt_at s) bytes" by (simp add: honestTap_def)
    let ?t = "s\<lparr>bt_at := bt_at s + length bytes, bt_seen := bt_seen s @ [bytes]\<rparr>"
    have "tapOk content ?t" using ok by (simp add: tapOk_def)
    then have "tapOk content (prune ?t)" by (rule prune_effect)
    with lies have "tapHands content s (fillTap bytes s)"
      by (simp add: fillTap_def tapHands_def prune_effect liesAt_eq)
    with Filled same show ?thesis by simp
  next
    case TapClosed
    have "tapHands content s (s\<lparr>bt_done := True, bt_pending := [], bt_buffered := 0\<rparr>)"
      using ok by (simp add: tapHands_def tapOk_def)
    with TapClosed wake show ?thesis by (simp add: closeTap_def)
  qed
qed

interpretation tap: byte_source tapStep "honestTap content" "tapOk content" bt_at
    "\<lambda>s. concat (bt_seen s)" content for content
  by unfold_locales (use tapStep_hands in \<open>auto simp: tapHands_def\<close>)

lemma tapOk_new: "tapOk content (newTap n)"
  by (simp add: tapOk_def newTap_def)

section \<open>A waiting scan is never forgotten\<close>

definition covers :: "nat \<Rightarrow> nat \<times> 'b list \<Rightarrow> bool" where
  "covers pos e \<longleftrightarrow> fst e \<le> pos \<and> pos < fst e + length (snd e)"

lemma takeAt_None:
  assumes "takeAt pos m = None"
  shows "list_all (\<lambda>e. \<not> covers pos e) m"
proof -
  have "\<not> covers pos e" if "e \<in> set m" for e
  proof -
    have "pos \<notin> fst ` set m" "\<not> (fst e < pos \<and> pos < fst e + length (snd e))"
      using assms that by (auto simp: takeAt_def find_None_iff map_of_eq_None_iff split: option.splits prod.splits)
    with that show ?thesis unfolding covers_def by (metis imageI le_neq_implies_less)
  qed
  then show ?thesis by (simp add: list_all_iff)
qed

text \<open>A waiting \<open>pull\<close> has nothing at its cursor and an open tap.\<close>

definition waitsRightly :: "'b byte_tap \<Rightarrow> bool" where
  "waitsRightly s \<longleftrightarrow>
     (bt_pull s = PullWaiting \<longrightarrow> list_all (\<lambda>e. \<not> covers (bt_at s) e) (bt_pending s) \<and> \<not> bt_done s)"

lemma drainLoop_none:
  assumes "drainLoop got s = (parts, t)" and "concat parts = []" and "tapOk content s" and "got < MAX_PULL_BYTES"
  shows "takeAt (bt_at t) (bt_pending t) = None \<and> bt_done t = bt_done s"
proof (cases "takeAt (bt_at s) (bt_pending s)")
  case None
  then show ?thesis using assms(1,4) by (auto simp: drainLoop.simps [of got s])
next
  case (Some p)
  obtain offset bytes where p: "p = (offset, bytes)" by (cases p)
  have distinct: "distinct (map fst (bt_pending s))" using assms(3) by (simp add: tapOk_def)
  obtain whole where whole: "mapGet (bt_pending s) offset = Some whole"
      "bytes = drop (bt_at s - offset) whole" "offset = bt_at s \<or> bt_at s < offset + length whole" "offset \<le> bt_at s"
    using takeAt_get [OF Some [unfolded p] distinct] by blast
  have "whole \<noteq> []" using assms(3) whole(1) map_of_SomeD by (fastforce simp: tapOk_def entryOk_def)
  with whole have "bytes \<noteq> []" by auto
  moreover have "\<exists>rest. parts = bytes # rest"
    using assms(1,4) Some p by (auto simp: drainLoop.simps [of got s] Let_def split: prod.splits)
  ultimately show ?thesis using assms(2) by auto
qed

lemma waitsRightly_pullTap:
  assumes "tapOk content s"
  shows "waitsRightly (pullTap s)"
proof -
  obtain parts t where loop: "drainLoop 0 s = (parts, t)" by (cases "drainLoop 0 s") auto
  show ?thesis
  proof (cases "concat parts = []")
    case True
    have "takeAt (bt_at t) (bt_pending t) = None"
      using drainLoop_none [OF loop True assms] by (simp add: MAX_PULL_BYTES_def)
    with True show ?thesis
      by (simp add: pullTap_def drain_def loop waitsRightly_def answerPull_def takeAt_None)
  next
    case False
    then have "drain s = (Some (concat parts), prune t)" using loop by (simp add: drain_def)
    then show ?thesis by (simp add: pullTap_def waitsRightly_def answerPull_def)
  qed
qed

lemma waitsRightly_hold:
  assumes "waitsRightly s" and "bt_at s \<le> offset"
  shows "waitsRightly (hold offset bytes s)"
proof (cases "bt_pull s = PullWaiting")
  case False
  then show ?thesis by (auto simp: hold_def Let_def waitsRightly_def wakeTap_def)
next
  case True
  have "\<not> covers (bt_at s) e" if "e \<in> set (mapSet offset bytes (mapDelete offset (bt_pending s)))" "offset \<noteq> bt_at s" for e
  proof -
    have "e = (offset, bytes) \<or> e \<in> set (bt_pending s)"
      using that(1) set_mapSet_subset [of offset bytes "mapDelete offset (bt_pending s)"] by (auto simp: AList.delete_eq)
    with assms True that(2) show ?thesis by (auto simp: waitsRightly_def list_all_iff covers_def)
  qed
  moreover have "mapGet (bt_pending s) offset = None \<Longrightarrow> mapDelete offset (bt_pending s) = bt_pending s"
    by (simp add: map_of_eq_None_iff)
  ultimately show ?thesis
    using assms(1) True by (auto simp: hold_def Let_def waitsRightly_def wakeTap_def list_all_iff)
qed

lemma waitsRightly_step:
  assumes "waitsRightly s" and "tapOk content s" and "honestTap content s e"
  shows "waitsRightly (tapStep s e)"
proof (cases e)
  case (Offered offset bytes)
  have "waitsRightly (s\<lparr>bt_latestOfferEnd := n\<rparr>)" for n using assms(1) by (simp add: waitsRightly_def)
  with assms(1) Offered show ?thesis by (simp add: offer_def Let_def waitsRightly_hold)
next
  case PullCalled
  with assms show ?thesis by (simp add: waitsRightly_pullTap)
next
  case PullResumed
  with assms show ?thesis
    by (simp add: resumePull_def waitsRightly_pullTap answerPull_def split: pull_state.split bool.split)
      (simp add: waitsRightly_def)
next
  case (Filled bytes)
  with assms(1) show ?thesis by (simp add: fillTap_def prune_def Let_def waitsRightly_def)
qed (simp_all add: waitsRightly_def wakeTap_def closeTap_def)

lemma waitsRightly_new: "waitsRightly (newTap n)"
  by (simp add: waitsRightly_def newTap_def)

interpretation waiting: guarded_component tapStep "honestTap content" "\<lambda>s. tapOk content s \<and> waitsRightly s" for content
  by unfold_locales (auto intro: waitsRightly_step tap.step_keeps)

section \<open>Properties\<close>

text \<open>
  C36: the scan sees one contiguous file. Whatever the remux offers, in whatever
  order and with whatever overlaps and holes, what the scan pulled or filled in
  so far is the file from its start to the cursor, every byte once and in order,
  and the bytes the tap says it holds are the bytes it holds.
\<close>

theorem scan_sees_contiguous_file:
  assumes "along tapStep (honestTap content) (newTap bufferBytes) es"
  shows "concat (bt_seen (runTap (newTap bufferBytes) es)) = slice content 0 (bt_at (runTap (newTap bufferBytes) es))
    \<and> bt_buffered (runTap (newTap bufferBytes) es) = int (held (bt_pending (runTap (newTap bufferBytes) es)))"
proof -
  have new: "tapOk content (newTap bufferBytes)" by (rule tapOk_new)
  have "bt_at (newTap bufferBytes :: 'a byte_tap) = 0" "bt_seen (newTap bufferBytes :: 'a byte_tap) = []"
    by (simp_all add: newTap_def)
  with tap.run_hands_slice [OF new assms] tap.run_keeps [OF new assms] show ?thesis
    by (simp add: runTap_def tapOk_def)
qed

text \<open>Out of order, overlapping, a hole filled by the scan itself, the tail of the file offered early.\<close>

definition sampleTape :: "nat list" where "sampleTape = [10, 11, 12, 13, 14, 15, 16, 17]"

definition sampleOffers :: "nat tap_event list" where
  "sampleOffers =
     [PullCalled, Offered 2 [12, 13], Offered 0 [10, 11, 12], PullResumed, PullCalled, IdleFired, PullResumed,
      Filled [14], Offered 4 [14, 15, 16], PullCalled, PullCalled, Offered 7 [17], PullResumed]"

theorem scan_sees_contiguous_file_witness:
  "concat (bt_seen (runTap (newTap 100) sampleOffers)) = sampleTape
   \<and> bt_buffered (runTap (newTap 100) sampleOffers) = 0"
proof -
  have along: "along tapStep (honestTap sampleTape) (newTap 100) sampleOffers" by code_simp
  have last: "bt_at (runTap (newTap 100) sampleOffers) = 8" "held (bt_pending (runTap (newTap 100) sampleOffers)) = 0"
    by code_simp+
  from scan_sees_contiguous_file [OF along] last show ?thesis by (simp add: sampleTape_def slice_def)
qed

text \<open>
  no wake-up is lost. A scan that waits for its next byte has an open tap that
  holds no entry covering its cursor: whatever could have served it has woken it.
\<close>

theorem waiting_scan_has_nothing_to_take:
  assumes "along tapStep (honestTap content) (newTap bufferBytes) es"
    and "bt_pull (runTap (newTap bufferBytes) es) = PullWaiting"
  shows "list_all (\<lambda>e. \<not> covers (bt_at (runTap (newTap bufferBytes) es)) e) (bt_pending (runTap (newTap bufferBytes) es))
    \<and> \<not> bt_done (runTap (newTap bufferBytes) es)"
proof -
  have "waitsRightly (runTap (newTap bufferBytes) es)"
    using waiting.run_keeps [OF conjI [OF tapOk_new waitsRightly_new] assms(1)] by (simp add: runTap_def)
  with assms(2) show ?thesis by (simp add: waitsRightly_def)
qed

theorem waiting_scan_has_nothing_to_take_witness:
  "bt_pending (runTap (newTap 100) [PullCalled, Offered 2 [12, 13 :: nat]]) = [(2, [12, 13])]
   \<and> \<not> covers (bt_at (runTap (newTap 100) [PullCalled, Offered 2 [12, 13 :: nat]])) (2, [12, 13 :: nat])"
proof -
  have along: "along tapStep (honestTap sampleTape) (newTap 100) [PullCalled, Offered 2 [12, 13]]" by code_simp
  have waits: "bt_pull (runTap (newTap 100) [PullCalled, Offered 2 [12, 13 :: nat]]) = PullWaiting" by code_simp
  have pending: "bt_pending (runTap (newTap 100) [PullCalled, Offered 2 [12, 13 :: nat]]) = [(2, [12, 13])]" by code_simp
  from waiting_scan_has_nothing_to_take [OF along waits] pending show ?thesis by simp
qed

lemma teeInto_state:
  assumes "tapOk content tap" and "liesAt content offset (concat chunks)"
  shows "\<exists>tap'. fold (\<lambda>chunk. teePull (Some chunk)) chunks (tap, offset, out)
      = (tap', offset + length (concat chunks), out @ chunks)
    \<and> tapOk content tap' \<and> bt_at tap' = bt_at tap \<and> bt_seen tap' = bt_seen tap"
  using assms
proof (induction chunks arbitrary: tap offset out)
  case (Cons chunk chunks)
  then have "liesAt content offset chunk" "liesAt content (offset + length chunk) (concat chunks)"
    by (simp_all add: liesAt_append)
  with Cons.prems(1) Cons.IH [of "offer offset chunk tap" "offset + length chunk" "out @ [chunk]"]
  show ?case using offer_effect [of content tap offset chunk] by (simp add: teePull_def add.assoc)
qed simp

text \<open>
  mirroring a read changes nothing of it and lies about nothing: the reader
  gets the stream's chunks, and if they are the file from the read's start, every
  offer the tap gets is honest, so the tap stays correct.
\<close>

theorem tee_is_transparent:
  assumes "tapOk content tap" and "liesAt content start (concat chunks)"
  shows "case teeInto tap start chunks of (tap', offset, out) \<Rightarrow>
    out = chunks \<and> offset = start + length (concat chunks) \<and> tapOk content tap'
    \<and> bt_at tap' = bt_at tap \<and> bt_seen tap' = bt_seen tap"
  using teeInto_state [OF assms, of "[]"] by (auto simp: teeInto_def)

theorem tee_is_transparent_witness:
  "snd (snd (teeInto (newTap 100) 2 [[12, 13], [14 :: nat]])) = [[12, 13], [14]]"
proof -
  have lies: "liesAt sampleTape 2 (concat [[12, 13], [14]])" by code_simp
  from tee_is_transparent [OF tapOk_new [of sampleTape 100] lies] show ?thesis
    by (auto split: prod.splits)
qed

end
