(* ===== verification/MkvChapters.thy ===== *)
theory MkvChapters
  imports Bytes
begin

text \<open>
  Matroska chapters (\<open>pipeline/mkvChapters.ts\<close>): the EBML reader, the walk over
  the Segment's children with its SeekHead detour, and the parsing of the
  Chapters element. A byte is a \<open>nat\<close> below 256, a reader its bytes and its
  position; the decoder of UTF-8 text and the file's \<open>read\<close> are parameters.

  Each loop moves its position past at least one byte, so each is a total
  function; the value of a field of up to eight bytes is kept exact.
\<close>

record mkv_chapter =
  mc_startMs :: int
  mc_endMs :: int
  mc_title :: string

definition EBML_ID :: nat where "EBML_ID = 0x1a45dfa3"
definition SEGMENT_ID :: nat where "SEGMENT_ID = 0x18538067"
definition SEEK_HEAD_ID :: nat where "SEEK_HEAD_ID = 0x114d9b74"
definition CLUSTER_ID :: nat where "CLUSTER_ID = 0x1f43b675"
definition CHAPTERS_ID :: nat where "CHAPTERS_ID = 0x1043a770"
definition SEEK_ID :: nat where "SEEK_ID = 0x4dbb"
definition SEEK_ID_FIELD :: nat where "SEEK_ID_FIELD = 0x53ab"
definition SEEK_POSITION :: nat where "SEEK_POSITION = 0x53ac"
definition EDITION_ENTRY :: nat where "EDITION_ENTRY = 0x45b9"
definition CHAPTER_ATOM :: nat where "CHAPTER_ATOM = 0xb6"
definition CHAPTER_TIME_START :: nat where "CHAPTER_TIME_START = 0x91"
definition CHAPTER_TIME_END :: nat where "CHAPTER_TIME_END = 0x92"
definition CHAPTER_DISPLAY :: nat where "CHAPTER_DISPLAY = 0x80"
definition CHAP_STRING :: nat where "CHAP_STRING = 0x85"
definition HEAD_SCAN_BYTES :: nat where "HEAD_SCAN_BYTES = 4194304"
definition MAX_CHAPTERS :: nat where "MAX_CHAPTERS = 512"

lemmas mkv_ids =
  EBML_ID_def SEGMENT_ID_def SEEK_HEAD_ID_def CLUSTER_ID_def CHAPTERS_ID_def SEEK_ID_def SEEK_ID_FIELD_def
  SEEK_POSITION_def EDITION_ENTRY_def CHAPTER_ATOM_def CHAPTER_TIME_START_def CHAPTER_TIME_END_def
  CHAPTER_DISPLAY_def CHAP_STRING_def

section \<open>The reader\<close>

record reader =
  rd_bytes :: "nat list"
  rd_pos :: nat

definition newReader :: "nat list \<Rightarrow> reader" where
  "newReader bytes = \<lparr>rd_bytes = bytes, rd_pos = 0\<rparr>"

definition leftOver :: "reader \<Rightarrow> nat" where
  "leftOver r = length (rd_bytes r) - rd_pos r"

definition skip :: "nat \<Rightarrow> reader \<Rightarrow> reader" where
  "skip n r = r\<lparr>rd_pos := rd_pos r + n\<rparr>"

text \<open>The width of a number whose first byte is not zero: its leading zero bits and one.\<close>

fun vintWidth :: "nat \<Rightarrow> nat \<Rightarrow> nat" where
  "vintWidth first 0 = 1"
| "vintWidth first (Suc k) = (if first div 2 ^ Suc k mod 2 = 0 then 1 + vintWidth first k else 1)"

definition bigEndian :: "nat \<Rightarrow> nat list \<Rightarrow> nat" where
  "bigEndian value bytes = foldl (\<lambda>v b. v * 256 + b) value bytes"

text \<open>\<open>vint\<close>: an id keeps its marker bit, a size clears it (\<open>first & (0xff >> width)\<close>).\<close>

definition vint :: "bool \<Rightarrow> reader \<Rightarrow> nat option \<times> reader" where
  "vint keepMarker r =
     (if length (rd_bytes r) \<le> rd_pos r then (None, r)
      else
        let first = rd_bytes r ! rd_pos r
        in if first = 0 then (None, r)
           else
             let width = vintWidth first 7
             in if length (rd_bytes r) < rd_pos r + width then (None, r)
                else (Some (bigEndian (if keepMarker then first else first mod 2 ^ (8 - width))
                              (slice (rd_bytes r) (rd_pos r + 1) (rd_pos r + width))),
                      skip width r))"

definition uint :: "nat \<Rightarrow> reader \<Rightarrow> nat \<times> reader" where
  "uint n r = (bigEndian 0 (slice (rd_bytes r) (rd_pos r) (rd_pos r + n)), skip n r)"

text \<open>\<open>text.replace(/\\0+$/, '')\<close>.\<close>

definition dropZeros :: "string \<Rightarrow> string" where
  "dropZeros s = rev (dropWhile (\<lambda>c. c = CHR 0x00) (rev s))"

definition utf8 :: "(nat list \<Rightarrow> string) \<Rightarrow> nat \<Rightarrow> reader \<Rightarrow> string \<times> reader" where
  "utf8 decode n r = (dropZeros (decode (slice (rd_bytes r) (rd_pos r) (rd_pos r + n))), skip n r)"

text \<open>The id and the size of the next element, and the reader behind them.\<close>

definition header :: "reader \<Rightarrow> (nat \<times> nat \<times> reader) option" where
  "header r =
     (case vint True r of
        (None, r) \<Rightarrow> None
      | (Some id', r) \<Rightarrow> (case vint False r of (None, r) \<Rightarrow> None | (Some n, r) \<Rightarrow> Some (id', n, r)))"

definition body :: "nat \<Rightarrow> reader \<Rightarrow> reader" where
  "body n r = newReader (slice (rd_bytes r) (rd_pos r) (rd_pos r + n))"

lemma vintWidth_pos [simp]: "0 < vintWidth first k"
  by (cases k) simp_all

lemma skip_simps [simp]: "rd_bytes (skip n r) = rd_bytes r" "rd_pos (skip n r) = rd_pos r + n"
  by (simp_all add: skip_def)

lemma vint_moves:
  "vint keep r = (v, r') \<Longrightarrow> rd_bytes r' = rd_bytes r \<and> rd_pos r \<le> rd_pos r'
    \<and> (v \<noteq> None \<longrightarrow> rd_pos r < rd_pos r' \<and> rd_pos r' \<le> length (rd_bytes r))"
  by (auto simp: vint_def Let_def split: if_splits)

lemma header_moves:
  assumes "header r = Some (i, n, r')"
  shows "rd_bytes r' = rd_bytes r" and "rd_pos r < rd_pos r'" and "rd_pos r' \<le> length (rd_bytes r)"
proof -
  obtain a b where v: "vint True r = (Some i, a)" "vint False a = (Some n, b)" "b = r'"
    using assms by (auto simp: header_def split: prod.splits option.splits)
  show "rd_bytes r' = rd_bytes r" "rd_pos r < rd_pos r'" "rd_pos r' \<le> length (rd_bytes r)"
    using vint_moves [OF v(1)] vint_moves [OF v(2)] v(3) by auto
qed

lemma leftOver_skip [simp]: "header r = Some (i, n, r') \<Longrightarrow> leftOver (skip m r') < leftOver r"
  using header_moves [of r i n r'] by (auto simp: leftOver_def)

lemma leftOver_body [simp]: "header r = Some (i, n, r') \<Longrightarrow> leftOver (body m r') < leftOver r"
  using header_moves [of r i n r'] by (auto simp: leftOver_def body_def newReader_def)

section \<open>Chapters\<close>

text \<open>The loop over the fields of a ChapterDisplay: the title is the first string that is not empty.\<close>

function displayLoop :: "(nat list \<Rightarrow> string) \<Rightarrow> string \<Rightarrow> reader \<Rightarrow> string" where
  "displayLoop decode title r =
     (if length (rd_bytes r) \<le> rd_pos r then title
      else case header r of
             None \<Rightarrow> title
           | Some (field, n, r') \<Rightarrow>
               if field = CHAP_STRING \<and> title = []
               then displayLoop decode (fst (utf8 decode n r')) (snd (utf8 decode n r'))
               else displayLoop decode title (skip n r'))"
  by pat_completeness auto
termination
  by (relation "measure (\<lambda>(_, _, r). leftOver r)") (auto simp: utf8_def)

declare displayLoop.simps [simp del]

text \<open>The loop of \<open>readAtom\<close>: start (in nanoseconds over a million), end and title.\<close>

record atom_fields =
  af_startMs :: "rat option"
  af_endMs :: rat
  af_title :: string

definition millis :: "nat \<Rightarrow> rat" where
  "millis n = of_nat n / 1000000"

function atomLoop :: "(nat list \<Rightarrow> string) \<Rightarrow> atom_fields \<Rightarrow> reader \<Rightarrow> atom_fields" where
  "atomLoop decode a r =
     (if length (rd_bytes r) \<le> rd_pos r then a
      else case header r of
             None \<Rightarrow> a
           | Some (field, n, r') \<Rightarrow>
               if field = CHAPTER_TIME_START
               then atomLoop decode (a\<lparr>af_startMs := Some (millis (fst (uint n r')))\<rparr>) (snd (uint n r'))
               else if field = CHAPTER_TIME_END
               then atomLoop decode (a\<lparr>af_endMs := millis (fst (uint n r'))\<rparr>) (snd (uint n r'))
               else if field = CHAPTER_DISPLAY
               then atomLoop decode (a\<lparr>af_title := displayLoop decode (af_title a) (body n r')\<rparr>) (skip n r')
               else atomLoop decode a (skip n r'))"
  by pat_completeness auto
termination
  by (relation "measure (\<lambda>(_, _, r). leftOver r)") (auto simp: uint_def)

declare atomLoop.simps [simp del]

definition readAtom :: "(nat list \<Rightarrow> string) \<Rightarrow> reader \<Rightarrow> mkv_chapter option" where
  "readAtom decode r =
     (let a = atomLoop decode \<lparr>af_startMs = None, af_endMs = 0, af_title = []\<rparr> r
      in case af_startMs a of
           None \<Rightarrow> None
         | Some startMs \<Rightarrow> Some \<lparr>mc_startMs = js_round startMs, mc_endMs = js_round (af_endMs a), mc_title = af_title a\<rparr>)"

text \<open>\<open>walk\<close>: the atoms of an edition, and of the editions inside, up to the limit.\<close>

function walk :: "(nat list \<Rightarrow> string) \<Rightarrow> reader \<Rightarrow> mkv_chapter list \<Rightarrow> mkv_chapter list" where
  "walk decode r chapters =
     (if length (rd_bytes r) \<le> rd_pos r \<or> MAX_CHAPTERS \<le> length chapters then chapters
      else case header r of
             None \<Rightarrow> chapters
           | Some (i, n, r') \<Rightarrow>
               walk decode (skip n r')
                 (if i = EDITION_ENTRY then walk decode (body n r') chapters
                  else if i = CHAPTER_ATOM then
                    (case readAtom decode (body n r') of None \<Rightarrow> chapters | Some atom \<Rightarrow> chapters @ [atom])
                  else chapters))"
  by pat_completeness auto
termination
  by (relation "measure (\<lambda>(_, r, _). leftOver r)") auto

declare walk.simps [simp del]

text \<open>The loop that gives a chapter without an end the start of the next one.\<close>

fun closeEnds :: "mkv_chapter list \<Rightarrow> mkv_chapter list" where
  "closeEnds (a # b # cs) =
     (if mc_endMs a \<le> mc_startMs a then a\<lparr>mc_endMs := mc_startMs b\<rparr> else a) # closeEnds (b # cs)"
| "closeEnds cs = cs"

definition parseChapters :: "(nat list \<Rightarrow> string) \<Rightarrow> reader \<Rightarrow> mkv_chapter list" where
  "parseChapters decode r =
     filter (\<lambda>c. mc_startMs c < mc_endMs c)
       (closeEnds (sort_by (\<lambda>a b. mc_startMs a \<le> mc_startMs b) (walk decode r [])))"

section \<open>The walk over the file\<close>

record seek_entry =
  se_target :: "nat option"
  se_position :: "nat option"

function seekEntryLoop :: "seek_entry \<Rightarrow> reader \<Rightarrow> seek_entry" where
  "seekEntryLoop e r =
     (if length (rd_bytes r) \<le> rd_pos r then e
      else case header r of
             None \<Rightarrow> e
           | Some (field, n, r') \<Rightarrow>
               if field = SEEK_ID_FIELD then seekEntryLoop (e\<lparr>se_target := Some (fst (uint n r'))\<rparr>) (snd (uint n r'))
               else if field = SEEK_POSITION
               then seekEntryLoop (e\<lparr>se_position := Some (fst (uint n r'))\<rparr>) (snd (uint n r'))
               else seekEntryLoop e (skip n r'))"
  by pat_completeness auto
termination
  by (relation "measure (\<lambda>(_, r). leftOver r)") (auto simp: uint_def)

declare seekEntryLoop.simps [simp del]

function findChaptersSeek :: "reader \<Rightarrow> nat option" where
  "findChaptersSeek r =
     (if length (rd_bytes r) \<le> rd_pos r then None
      else case header r of
             None \<Rightarrow> None
           | Some (i, n, r') \<Rightarrow>
               if i \<noteq> SEEK_ID then findChaptersSeek (skip n r')
               else
                 let e = seekEntryLoop \<lparr>se_target = None, se_position = None\<rparr> (body n r')
                 in if se_target e = Some CHAPTERS_ID \<and> se_position e \<noteq> None then se_position e
                    else findChaptersSeek (skip n r'))"
  by pat_completeness auto
termination
  by (relation "measure leftOver") auto

declare findChaptersSeek.simps [simp del]

datatype segment_scan =
    ScanChapters "mkv_chapter list"
  | ScanSeek "nat option"

text \<open>The loop over the Segment's children in the head of the file.\<close>

function segmentLoop :: "(nat list \<Rightarrow> string) \<Rightarrow> nat \<Rightarrow> nat option \<Rightarrow> reader \<Rightarrow> segment_scan" where
  "segmentLoop decode segmentStart chaptersAt r =
     (if length (rd_bytes r) \<le> rd_pos r then ScanSeek chaptersAt
      else case header r of
             None \<Rightarrow> ScanSeek chaptersAt
           | Some (i, n, r') \<Rightarrow>
               if i = CHAPTERS_ID then ScanChapters (parseChapters decode (body n r'))
               else
                 let chaptersAt =
                   (if i = SEEK_HEAD_ID then
                      (case findChaptersSeek (body n r') of
                         None \<Rightarrow> chaptersAt
                       | Some found \<Rightarrow> Some (segmentStart + found))
                    else chaptersAt)
                 in if i = CLUSTER_ID then ScanSeek chaptersAt
                    else segmentLoop decode segmentStart chaptersAt (skip n r'))"
  by pat_completeness auto
termination
  by (relation "measure (\<lambda>(_, _, _, r). leftOver r)") auto

declare segmentLoop.simps [simp del]

datatype file_error = FileAborted | FileThrew

type_synonym file_read = "nat \<Rightarrow> nat \<Rightarrow> file_error + nat list"

text \<open>The EBML header and the Segment's start, \<open>None\<close> when the file is no Matroska.\<close>

definition enterSegment :: "reader \<Rightarrow> reader option" where
  "enterSegment r =
     (case vint True r of (i, r) \<Rightarrow>
        if i \<noteq> Some EBML_ID then None
        else case vint False r of
          (None, r) \<Rightarrow> None
        | (Some ebmlSize, r) \<Rightarrow>
            (case vint True (skip ebmlSize r) of (i, r) \<Rightarrow>
               if i \<noteq> Some SEGMENT_ID then None
               else case vint False r of (None, r) \<Rightarrow> None | (Some n, r) \<Rightarrow> Some r))"

definition walkChapters :: "(nat list \<Rightarrow> string) \<Rightarrow> nat \<Rightarrow> file_read \<Rightarrow> file_error + mkv_chapter list" where
  "walkChapters decode fileSize read =
     (case read 0 (min HEAD_SCAN_BYTES fileSize) of
        Inl err \<Rightarrow> Inl err
      | Inr head \<Rightarrow>
          (case enterSegment (newReader head) of
             None \<Rightarrow> Inr []
           | Some r \<Rightarrow>
               (case segmentLoop decode (rd_pos r) None r of
                  ScanChapters chapters \<Rightarrow> Inr chapters
                | ScanSeek None \<Rightarrow> Inr []
                | ScanSeek (Some chaptersAt) \<Rightarrow>
                    (case read chaptersAt (min (chaptersAt + 12) fileSize) of
                       Inl err \<Rightarrow> Inl err
                     | Inr probe \<Rightarrow>
                         (case vint True (newReader probe) of (i, r) \<Rightarrow>
                            if i \<noteq> Some CHAPTERS_ID then Inr []
                            else case vint False r of
                              (None, r) \<Rightarrow> Inr []
                            | (Some bodySize, r) \<Rightarrow>
                                if HEAD_SCAN_BYTES < bodySize then Inr []
                                else
                                  (case read (chaptersAt + rd_pos r) (chaptersAt + rd_pos r + bodySize) of
                                     Inl err \<Rightarrow> Inl err
                                   | Inr bytes \<Rightarrow> Inr (parseChapters decode (newReader bytes))))))))"

text \<open>A walk that was aborted is tried once more, over reads that answer anew; nothing is thrown.\<close>

definition readMkvChapters :: "(nat list \<Rightarrow> string) \<Rightarrow> nat \<Rightarrow> file_read \<Rightarrow> file_read \<Rightarrow> mkv_chapter list" where
  "readMkvChapters decode fileSize read retry =
     (case walkChapters decode fileSize read of
        Inr chapters \<Rightarrow> chapters
      | Inl FileThrew \<Rightarrow> []
      | Inl FileAborted \<Rightarrow> (case walkChapters decode fileSize retry of Inr chapters \<Rightarrow> chapters | Inl err \<Rightarrow> []))"

section \<open>What any file yields\<close>

lemma walk_length: "length chapters \<le> MAX_CHAPTERS \<Longrightarrow> length (walk decode r chapters) \<le> MAX_CHAPTERS"
proof (induction decode r chapters rule: walk.induct)
  case (1 decode r chapters)
  show ?case
  proof (cases "length (rd_bytes r) \<le> rd_pos r \<or> MAX_CHAPTERS \<le> length chapters")
    case True
    with "1.prems" show ?thesis by (subst walk.simps) auto
  next
    case False
    show ?thesis
    proof (cases "header r")
      case None
      with "1.prems" show ?thesis by (subst walk.simps) auto
    next
      case (Some h)
      obtain i n r' where h: "header r = Some (i, n, r')" using Some by (cases h) auto
      let ?next = "if i = EDITION_ENTRY then walk decode (body n r') chapters
          else if i = CHAPTER_ATOM then
            (case readAtom decode (body n r') of None \<Rightarrow> chapters | Some atom \<Rightarrow> chapters @ [atom])
          else chapters"
      have "length ?next \<le> MAX_CHAPTERS"
        using "1.IH"(1) [OF False h refl refl] "1.prems" False by (auto split: option.split)
      from "1.IH"(2) [OF False h refl refl this] False h show ?thesis by (subst walk.simps) simp
    qed
  qed
qed

lemma closeEnds_starts [simp]: "map mc_startMs (closeEnds cs) = map mc_startMs cs"
  by (induction cs rule: closeEnds.induct) auto

lemma length_closeEnds [simp]: "length (closeEnds cs) = length cs"
  by (metis closeEnds_starts length_map)

lemma sorted_parse: "sorted (map mc_startMs (parseChapters decode r))"
proof -
  have "sorted_wrt (\<lambda>a b. mc_startMs a \<le> mc_startMs b) (sort_by (\<lambda>a b. mc_startMs a \<le> mc_startMs b) (walk decode r []))"
    by (rule sorted_wrt_sort_by) auto
  then have "sorted (map mc_startMs (closeEnds (sort_by (\<lambda>a b. mc_startMs a \<le> mc_startMs b) (walk decode r []))))"
    unfolding closeEnds_starts sorted_map .
  then show ?thesis unfolding parseChapters_def by (rule sorted_filter)
qed

lemma length_parse: "length (parseChapters decode r) \<le> MAX_CHAPTERS"
proof -
  have "length (filter P (closeEnds (sort_by le (walk decode r [])))) \<le> length (walk decode r [])" for P le
    using length_filter_le [of P "closeEnds (sort_by le (walk decode r []))"] by simp
  moreover have "length (walk decode r []) \<le> MAX_CHAPTERS" by (rule walk_length) simp
  ultimately show ?thesis unfolding parseChapters_def by (rule le_trans)
qed

definition saneChapters :: "mkv_chapter list \<Rightarrow> bool" where
  "saneChapters cs \<longleftrightarrow>
     length cs \<le> MAX_CHAPTERS \<and> sorted (map mc_startMs cs) \<and> list_all (\<lambda>c. mc_startMs c < mc_endMs c) cs"

lemma sane_parse: "saneChapters (parseChapters decode r)"
  using length_parse sorted_parse by (simp add: saneChapters_def parseChapters_def list_all_iff)

lemma sane_Nil: "saneChapters []"
  by (simp add: saneChapters_def)

lemma sane_segmentLoop: "segmentLoop decode st chaptersAt r = ScanChapters cs \<Longrightarrow> saneChapters cs"
proof (induction decode st chaptersAt r rule: segmentLoop.induct)
  case (1 decode st chaptersAt r)
  show ?case
  proof (cases "length (rd_bytes r) \<le> rd_pos r")
    case True
    with "1.prems" show ?thesis by (simp add: segmentLoop.simps [of decode st chaptersAt r])
  next
    case False
    note unfold = segmentLoop.simps [of decode st chaptersAt r]
    show ?thesis
    proof (cases "header r")
      case None
      with "1.prems" False show ?thesis by (simp add: unfold)
    next
      case (Some h)
      obtain i n r' where h: "header r = Some (i, n, r')" using Some by (cases h) auto
      show ?thesis
      proof (cases "i = CHAPTERS_ID \<or> i = CLUSTER_ID")
        case True
        with "1.prems" False h show ?thesis
          by (auto simp: unfold sane_parse Let_def split: if_splits)
      next
        case other: False
        with "1.prems" False h show ?thesis
          by (intro "1.IH" [OF False h refl refl _ refl]) (simp_all add: unfold Let_def)
      qed
    qed
  qed
qed

lemma sane_walk: "walkChapters decode n read = Inr cs \<Longrightarrow> saneChapters cs"
  unfolding walkChapters_def
  by (auto simp: sane_parse sane_Nil sane_segmentLoop
      split: sum.splits option.splits segment_scan.splits if_splits prod.splits)

section \<open>What a writer's file yields\<close>

text \<open>The bytes still to read.\<close>

definition restOf :: "reader \<Rightarrow> nat list" where
  "restOf r = drop (rd_pos r) (rd_bytes r)"

lemma restOf_simps [simp]:
  "restOf (skip n r) = drop n (restOf r)" "restOf (newReader bytes) = bytes"
  by (simp_all add: restOf_def newReader_def add.commute)

lemma at_end: "length (rd_bytes r) \<le> rd_pos r \<longleftrightarrow> restOf r = []"
  by (simp add: restOf_def)

lemma slice_rest: "slice (rd_bytes r) (rd_pos r) (rd_pos r + n) = take n (restOf r)"
  by (simp add: slice_def restOf_def)

lemma body_rest: "body n r = newReader (take n (restOf r))"
  by (simp add: body_def slice_rest)

lemma uint_rest: "uint n r = (bigEndian 0 (take n (restOf r)), skip n r)"
  by (simp add: uint_def slice_rest)

lemma vint_rest:
  assumes rest: "restOf r = first # after" and "first \<noteq> 0" and "vintWidth first 7 \<le> Suc (length after)"
  shows "vint keep r = (Some (bigEndian (if keep then first else first mod 2 ^ (8 - vintWidth first 7))
      (take (vintWidth first 7 - 1) after)), skip (vintWidth first 7) r)"
proof -
  have pos: "rd_pos r < length (rd_bytes r)" using rest at_end [of r] by auto
  then have "rd_bytes r ! rd_pos r = first" "drop (Suc (rd_pos r)) (rd_bytes r) = after"
    using rest by (simp_all add: restOf_def flip: Cons_nth_drop_Suc)
  moreover have "length (rd_bytes r) = rd_pos r + Suc (length after)"
    using pos arg_cong [OF rest, of length] by (simp add: restOf_def)
  ultimately show ?thesis using assms(2,3) by (simp add: vint_def Let_def slice_def)
qed

fun be :: "nat \<Rightarrow> nat \<Rightarrow> nat list" where
  "be 0 n = []"
| "be (Suc k) n = be k (n div 256) @ [n mod 256]"

lemma length_be [simp]: "length (be k n) = k"
  by (induction k n rule: be.induct) auto

lemma bigEndian_append: "bigEndian v (xs @ ys) = bigEndian (bigEndian v xs) ys"
  by (simp add: bigEndian_def)

lemma bigEndian_be: "n < 256 ^ k \<Longrightarrow> bigEndian v (be k n) = v * 256 ^ k + n"
proof (induction k n arbitrary: v rule: be.induct)
  case (1 n)
  then show ?case by (simp add: bigEndian_def)
next
  case (2 k n)
  then have "n div 256 < 256 ^ k" by (simp add: div_less_iff_less_mult mult.commute)
  with "2.IH" have "bigEndian v (be k (n div 256)) = v * 256 ^ k + n div 256" by blast
  then have "bigEndian v (be (Suc k) n) = (v * 256 ^ k + n div 256) * 256 + n mod 256"
    by (simp add: bigEndian_append) (simp add: bigEndian_def)
  also have "\<dots> = v * 256 ^ Suc k + n" by (simp add: algebra_simps)
  finally show ?case .
qed

text \<open>A size in eight bytes, and an element: its id's bytes, its size, its content.\<close>

definition sizeBytes :: "nat \<Rightarrow> nat list" where
  "sizeBytes n = 1 # be 7 n"

definition idBytes :: "nat \<Rightarrow> nat list" where
  "idBytes i = (if i < 256 then [i] else if i < 256 ^ 2 then be 2 i else be 4 i)"

definition element :: "nat \<Rightarrow> nat list \<Rightarrow> nat list" where
  "element i content = idBytes i @ sizeBytes (length content) @ content"

definition knownId :: "nat \<Rightarrow> bool" where
  "knownId i \<longleftrightarrow> i \<in> set [EBML_ID, SEGMENT_ID, SEEK_HEAD_ID, CLUSTER_ID, CHAPTERS_ID, SEEK_ID, SEEK_ID_FIELD,
     SEEK_POSITION, EDITION_ENTRY, CHAPTER_ATOM, CHAPTER_TIME_START, CHAPTER_TIME_END, CHAPTER_DISPLAY, CHAP_STRING]"

lemma be_2: "be 2 n = [n div 256 mod 256, n mod 256]"
proof -
  have two: "(2 :: nat) = Suc (Suc 0)" by simp
  show ?thesis unfolding two be.simps append.simps ..
qed

lemma be_4: "be 4 n = [n div 256 div 256 div 256 mod 256, n div 256 div 256 mod 256, n div 256 mod 256, n mod 256]"
proof -
  have four: "(4 :: nat) = Suc (Suc (Suc (Suc 0)))" by simp
  show ?thesis unfolding four be.simps append.simps ..
qed

lemma vintWidth_7: "vintWidth first 7 =
  (if first div 128 mod 2 = 0 then if first div 64 mod 2 = 0 then if first div 32 mod 2 = 0
   then if first div 16 mod 2 = 0 then if first div 8 mod 2 = 0 then if first div 4 mod 2 = 0
   then if first div 2 mod 2 = 0 then 8 else 7 else 6 else 5 else 4 else 3 else 2 else 1)"
proof -
  have seven: "(7 :: nat) = Suc (Suc (Suc (Suc (Suc (Suc (Suc 0))))))" by simp
  have powers: "(2 :: nat) ^ Suc 0 = 2" "(2 :: nat) ^ Suc (Suc 0) = 4" "(2 :: nat) ^ Suc (Suc (Suc 0)) = 8"
    "(2 :: nat) ^ Suc (Suc (Suc (Suc 0))) = 16" "(2 :: nat) ^ Suc (Suc (Suc (Suc (Suc 0)))) = 32"
    "(2 :: nat) ^ Suc (Suc (Suc (Suc (Suc (Suc 0))))) = 64" "(2 :: nat) ^ Suc (Suc (Suc (Suc (Suc (Suc (Suc 0)))))) = 128"
    by simp_all
  show ?thesis unfolding seven vintWidth.simps powers by simp
qed

lemma idBytes_values:
  assumes "knownId i"
  shows "idBytes i \<noteq> [] \<and> hd (idBytes i) \<noteq> 0 \<and> vintWidth (hd (idBytes i)) 7 = length (idBytes i)
    \<and> bigEndian (hd (idBytes i)) (tl (idBytes i)) = i"
proof -
  consider "i = EBML_ID" | "i = SEGMENT_ID" | "i = SEEK_HEAD_ID" | "i = CLUSTER_ID" | "i = CHAPTERS_ID" | "i = SEEK_ID"
    | "i = SEEK_ID_FIELD" | "i = SEEK_POSITION" | "i = EDITION_ENTRY" | "i = CHAPTER_ATOM" | "i = CHAPTER_TIME_START"
    | "i = CHAPTER_TIME_END" | "i = CHAPTER_DISPLAY" | "i = CHAP_STRING"
    using assms unfolding knownId_def by auto
  then show ?thesis
    by cases (simp_all add: mkv_ids idBytes_def be_4 be_2 vintWidth_7 bigEndian_def)
qed

lemma skip_skip [simp]: "skip n (skip m r) = skip (m + n) r"
  by (simp add: skip_def)

lemma vint_size:
  assumes "restOf r = sizeBytes n @ tail" and "n < 256 ^ 7"
  shows "vint False r = (Some n, skip 8 r)"
proof -
  have width: "vintWidth (Suc 0) 7 = 8" by (simp add: vintWidth_7)
  have "vint False r = (Some (bigEndian 0 (be 7 n)), skip 8 r)"
    using vint_rest [of r 1 "be 7 n @ tail" False] assms(1) by (simp add: sizeBytes_def width)
  then show ?thesis using bigEndian_be [OF assms(2), of 0] by simp
qed

lemma vint_id:
  assumes "restOf r = idBytes i @ tail" and "knownId i"
  shows "vint True r = (Some i, skip (length (idBytes i)) r)"
proof -
  note id = idBytes_values [OF assms(2)]
  then obtain b bs where bs: "idBytes i = b # bs" by (cases "idBytes i") auto
  show ?thesis using vint_rest [of r b "bs @ tail" True] assms(1) id by (simp add: bs)
qed

text \<open>Reading an element: its header, its content, and what comes behind it.\<close>

lemma header_element:
  assumes "restOf r = element i content @ tail" and "knownId i" and "length content < 256 ^ 7"
  obtains r' where "header r = Some (i, length content, r')" and "restOf r' = content @ tail"
    and "skip (length content) r' = skip (length (element i content)) r"
proof
  let ?r' = "skip (length (idBytes i) + 8) r"
  have "vint True r = (Some i, skip (length (idBytes i)) r)"
    using assms(1,2) by (intro vint_id) (simp_all add: element_def)
  moreover have "vint False (skip (length (idBytes i)) r) = (Some (length content), ?r')"
    using assms(1,3) vint_size [of "skip (length (idBytes i)) r" "length content" "content @ tail"]
    by (simp add: element_def)
  ultimately show "header r = Some (i, length content, ?r')" by (simp add: header_def)
  show "restOf ?r' = content @ tail"
    using assms(1) by (simp add: element_def sizeBytes_def)
  show "skip (length content) ?r' = skip (length (element i content)) r"
    by (simp add: element_def sizeBytes_def add.assoc)
qed

lemma not_at_end: "restOf r = element i content @ tail \<Longrightarrow> \<not> length (rd_bytes r) \<le> rd_pos r"
  by (simp add: at_end element_def sizeBytes_def)

lemma knownIds [simp]:
  "knownId CHAP_STRING" "knownId CHAPTER_DISPLAY" "knownId CHAPTER_TIME_START" "knownId CHAPTER_TIME_END"
  "knownId CHAPTER_ATOM" "knownId EDITION_ENTRY" "knownId CHAPTERS_ID"
  by (simp_all add: knownId_def)

text \<open>A chapter as a writer lays it out: nanoseconds in eight bytes, the title in a display.\<close>

record written_chapter =
  wc_startNs :: nat
  wc_endNs :: nat
  wc_title :: "nat list"

definition displayBytes :: "written_chapter \<Rightarrow> nat list" where
  "displayBytes c = element CHAP_STRING (wc_title c)"

definition atomBytes :: "written_chapter \<Rightarrow> nat list" where
  "atomBytes c =
     element CHAPTER_TIME_START (be 8 (wc_startNs c)) @ element CHAPTER_TIME_END (be 8 (wc_endNs c))
     @ element CHAPTER_DISPLAY (displayBytes c)"

definition editionBytes :: "written_chapter list \<Rightarrow> nat list" where
  "editionBytes cs = concat (map (\<lambda>c. element CHAPTER_ATOM (atomBytes c)) cs)"

definition writable :: "written_chapter \<Rightarrow> bool" where
  "writable c \<longleftrightarrow> wc_startNs c < 256 ^ 8 \<and> wc_endNs c < 256 ^ 8 \<and> length (wc_title c) < 2 ^ 40"

definition chapterOf :: "(nat list \<Rightarrow> string) \<Rightarrow> written_chapter \<Rightarrow> mkv_chapter" where
  "chapterOf decode c =
     \<lparr>mc_startMs = js_round (millis (wc_startNs c)), mc_endMs = js_round (millis (wc_endNs c)),
      mc_title = dropZeros (decode (wc_title c))\<rparr>"

lemma loops_end [simp]:
  assumes "restOf r = []"
  shows "displayLoop decode t r = t" and "atomLoop decode a r = a" and "walk decode r chapters = chapters"
  using assms by (simp_all add: displayLoop.simps [of decode t r] atomLoop.simps [of decode a r]
    walk.simps [of decode r chapters] at_end)

lemma displayLoop_read:
  assumes "length title < 256 ^ 7"
  shows "displayLoop decode [] (newReader (element CHAP_STRING title)) = dropZeros (decode title)"
proof -
  let ?r = "newReader (element CHAP_STRING title)"
  have rest: "restOf ?r = element CHAP_STRING title @ []" by simp
  from header_element [OF rest _ assms] obtain r' where r':
      "header ?r = Some (CHAP_STRING, length title, r')" "restOf r' = title @ []"
      "skip (length title) r' = skip (length (element CHAP_STRING title)) ?r"
    by auto
  have "utf8 decode (length title) r' = (dropZeros (decode title), skip (length title) r')"
    using r'(2) by (simp add: utf8_def slice_rest)
  moreover have "displayLoop decode t (skip (length title) r') = t" for t
    using r'(2) by simp
  ultimately show ?thesis
    using r'(1) not_at_end [OF rest] by (subst displayLoop.simps) simp
qed

lemma uint_be:
  assumes "restOf r = be 8 n @ tail" and "n < 256 ^ 8"
  shows "uint 8 r = (n, skip 8 r)"
  using assms bigEndian_be [OF assms(2), of 0] by (simp add: uint_rest)

lemma small_content:
  "length (be 8 n) < 256 ^ 7" "length title < 2 ^ 40 \<Longrightarrow> length title < 256 ^ 7"
  by simp_all

lemma atomLoop_time:
  assumes "restOf r = element i (be 8 n) @ tail" and "n < 256 ^ 8"
  shows "i = CHAPTER_TIME_START \<Longrightarrow> atomLoop decode a r =
      atomLoop decode (a\<lparr>af_startMs := Some (millis n)\<rparr>) (skip (length (element i (be 8 n))) r)"
    and "i = CHAPTER_TIME_END \<Longrightarrow> atomLoop decode a r =
      atomLoop decode (a\<lparr>af_endMs := millis n\<rparr>) (skip (length (element i (be 8 n))) r)"
proof -
  have step: "\<exists>r'. header r = Some (i, 8, r') \<and> uint 8 r' = (n, skip (length (element i (be 8 n))) r)"
    if known: "knownId i"
  proof -
    obtain r' where r': "header r = Some (i, length (be 8 n), r')" "restOf r' = be 8 n @ tail"
        "skip (length (be 8 n)) r' = skip (length (element i (be 8 n))) r"
      using header_element [OF assms(1) known small_content(1)] by blast
    then show ?thesis using uint_be [OF r'(2) assms(2)] by simp
  qed
  show "atomLoop decode a r =
      atomLoop decode (a\<lparr>af_startMs := Some (millis n)\<rparr>) (skip (length (element i (be 8 n))) r)" if "i = CHAPTER_TIME_START"
    using step not_at_end [OF assms(1)] that by (subst atomLoop.simps) auto
  show "atomLoop decode a r =
      atomLoop decode (a\<lparr>af_endMs := millis n\<rparr>) (skip (length (element i (be 8 n))) r)" if "i = CHAPTER_TIME_END"
  proof -
    have other: "CHAPTER_TIME_END \<noteq> CHAPTER_TIME_START" by (simp add: CHAPTER_TIME_START_def CHAPTER_TIME_END_def)
    show ?thesis using step not_at_end [OF assms(1)] that other by (subst atomLoop.simps) auto
  qed
qed

lemma length_element: "length (element i content) \<le> length content + 12"
  by (simp add: element_def sizeBytes_def idBytes_def)

lemma readAtom_atomBytes:
  assumes "writable c"
  shows "readAtom decode (newReader (atomBytes c)) = Some (chapterOf decode c)"
proof -
  define start finish display where parts: "start = element CHAPTER_TIME_START (be 8 (wc_startNs c))"
    "finish = element CHAPTER_TIME_END (be 8 (wc_endNs c))" "display = element CHAPTER_DISPLAY (displayBytes c)"
  have bounds: "wc_startNs c < 256 ^ 8" "wc_endNs c < 256 ^ 8" "length (wc_title c) < 256 ^ 7" 
    using assms by (simp_all add: writable_def)
  have small: "length (displayBytes c) < 256 ^ 7"
    using length_element [of CHAP_STRING "wc_title c"] assms by (simp add: displayBytes_def writable_def)
  let ?r = "newReader (atomBytes c)"
  have r: "restOf ?r = start @ finish @ display" by (simp add: atomBytes_def parts)
  let ?a0 = "\<lparr>af_startMs = None, af_endMs = 0, af_title = []\<rparr>"
  have one: "atomLoop decode ?a0 ?r = atomLoop decode (?a0\<lparr>af_startMs := Some (millis (wc_startNs c))\<rparr>) (skip (length start) ?r)"
    using atomLoop_time(1) [OF r [unfolded parts(1)] bounds(1) refl] unfolding parts(1) .
  let ?r1 = "skip (length start) ?r"
  have r1: "restOf ?r1 = finish @ display" using r by simp
  have two: "atomLoop decode a ?r1 = atomLoop decode (a\<lparr>af_endMs := millis (wc_endNs c)\<rparr>) (skip (length finish) ?r1)" for a
    using atomLoop_time(2) [OF r1 [unfolded parts(2)] bounds(2) refl] unfolding parts(2) .
  let ?r2 = "skip (length finish) ?r1"
  have r2: "restOf ?r2 = element CHAPTER_DISPLAY (displayBytes c) @ []" using r by (simp add: parts(3))
  obtain r3 where r3: "header ?r2 = Some (CHAPTER_DISPLAY, length (displayBytes c), r3)"
      "restOf r3 = displayBytes c @ []" "skip (length (displayBytes c)) r3 = skip (length (element CHAPTER_DISPLAY (displayBytes c))) ?r2"
    using header_element [OF r2 _ small] by auto
  have title: "displayLoop decode [] (body (length (displayBytes c)) r3) = dropZeros (decode (wc_title c))"
    using r3(2) displayLoop_read [OF bounds(3)] by (simp add: body_rest displayBytes_def)
  have over: "atomLoop decode a (skip (length (displayBytes c)) r3) = a" for a
    using r3(2) by simp
  have "atomLoop decode a ?r2 = a\<lparr>af_title := dropZeros (decode (wc_title c))\<rparr>" if "af_title a = []" for a
    using r3(1) not_at_end [OF r2] title over that
    by (subst atomLoop.simps) (simp add: CHAPTER_DISPLAY_def CHAPTER_TIME_START_def CHAPTER_TIME_END_def)
  with one two show ?thesis by (simp add: readAtom_def Let_def chapterOf_def)
qed

lemma walk_edition:
  assumes "restOf r = editionBytes cs" and "list_all writable cs" and "length chapters + length cs \<le> MAX_CHAPTERS"
  shows "walk decode r chapters = chapters @ map (chapterOf decode) cs"
  using assms
proof (induction cs arbitrary: r chapters)
  case Nil
  then show ?case by (subst walk.simps) (simp add: editionBytes_def at_end)
next
  case (Cons c cs)
  have rest: "restOf r = element CHAPTER_ATOM (atomBytes c) @ editionBytes cs"
    using Cons.prems(1) by (simp add: editionBytes_def)
  have small: "length (atomBytes c) < 256 ^ 7"
  proof -
    have "length (displayBytes c) \<le> length (wc_title c) + 12" by (simp add: displayBytes_def length_element)
    moreover have "length (atomBytes c) \<le> 20 + 20 + (length (displayBytes c) + 12)"
      using length_element [of CHAPTER_TIME_START "be 8 (wc_startNs c)"] length_element [of CHAPTER_TIME_END "be 8 (wc_endNs c)"]
        length_element [of CHAPTER_DISPLAY "displayBytes c"] by (simp add: atomBytes_def)
    ultimately show ?thesis using Cons.prems(2) by (simp add: writable_def)
  qed
  obtain r' where r': "header r = Some (CHAPTER_ATOM, length (atomBytes c), r')" "restOf r' = atomBytes c @ editionBytes cs"
      "skip (length (atomBytes c)) r' = skip (length (element CHAPTER_ATOM (atomBytes c))) r"
    using header_element [OF rest _ small] by auto
  have atom: "readAtom decode (body (length (atomBytes c)) r') = Some (chapterOf decode c)"
    using r'(2) readAtom_atomBytes [of c decode] Cons.prems(2) by (simp add: body_rest)
  have room: "\<not> MAX_CHAPTERS \<le> length chapters" using Cons.prems(3) by simp
  have "walk decode (skip (length (atomBytes c)) r') (chapters @ [chapterOf decode c])
      = (chapters @ [chapterOf decode c]) @ map (chapterOf decode) cs"
    by (rule Cons.IH) (use r'(2) Cons.prems in simp_all)
  then show ?case
    using r'(1) not_at_end [OF rest] room atom
    by (subst walk.simps) (simp add: CHAPTER_ATOM_def EDITION_ENTRY_def)
qed

section \<open>Properties\<close>

text \<open>
  C38: whatever the file and its reads hold, the chapters reported are at most 512,
  in order of their start, and every one of them ends after it starts; a read that
  throws yields none, and a walk that was aborted is made once more over fresh
  reads, whose chapters are the ones reported (none when it fails again).
\<close>

theorem mkv_chapters_are_sane:
  "saneChapters (readMkvChapters decode fileSize read retry)
   \<and> (walkChapters decode fileSize read = Inl FileThrew \<longrightarrow> readMkvChapters decode fileSize read retry = [])
   \<and> (walkChapters decode fileSize read = Inl FileAborted \<longrightarrow>
        readMkvChapters decode fileSize read retry =
          (case walkChapters decode fileSize retry of Inr chapters \<Rightarrow> chapters | Inl err \<Rightarrow> []))
   \<and> (\<forall>chapters. walkChapters decode fileSize read = Inr chapters \<longrightarrow>
        readMkvChapters decode fileSize read retry = chapters)"
  by (auto simp: readMkvChapters_def sane_walk sane_Nil split: sum.split file_error.split)

text \<open>Bytes that are no Matroska, reads that throw and that are aborted.\<close>

theorem mkv_chapters_are_sane_witness:
  "readMkvChapters (\<lambda>_. []) 10 (\<lambda>_ _. Inl FileThrew) (\<lambda>_ _. Inr [1, 2, 3]) = []
   \<and> readMkvChapters (\<lambda>_. []) 10 (\<lambda>_ _. Inl FileAborted) (\<lambda>_ _. Inl FileAborted) = []"
  using mkv_chapters_are_sane [of "\<lambda>_. []" 10 "\<lambda>_ _. Inl FileThrew" "\<lambda>_ _. Inr [1, 2, 3]"]
    mkv_chapters_are_sane [of "\<lambda>_. []" 10 "\<lambda>_ _. Inl FileAborted" "\<lambda>_ _. Inl FileAborted"]
  by (simp add: walkChapters_def)

text \<open>
  an edition a writer lays out reads back: its chapters in order of their
  start, a missing end closed by the next start, those that stay empty dropped.
\<close>

theorem mkv_edition_roundtrip:
  assumes "list_all writable cs" and "length cs \<le> MAX_CHAPTERS" and "length (editionBytes cs) < 256 ^ 7"
  shows "parseChapters decode (newReader (element EDITION_ENTRY (editionBytes cs)))
    = filter (\<lambda>c. mc_startMs c < mc_endMs c)
        (closeEnds (sort_by (\<lambda>a b. mc_startMs a \<le> mc_startMs b) (map (chapterOf decode) cs)))"
proof -
  let ?r = "newReader (element EDITION_ENTRY (editionBytes cs))"
  have rest: "restOf ?r = element EDITION_ENTRY (editionBytes cs) @ []" by simp
  obtain r' where r': "header ?r = Some (EDITION_ENTRY, length (editionBytes cs), r')" "restOf r' = editionBytes cs @ []"
      "skip (length (editionBytes cs)) r' = skip (length (element EDITION_ENTRY (editionBytes cs))) ?r"
    using header_element [OF rest _ assms(3)] by auto
  have inner: "walk decode (body (length (editionBytes cs)) r') [] = map (chapterOf decode) cs"
    using walk_edition [of "body (length (editionBytes cs)) r'" cs "[]" decode] r'(2) assms(1,2)
    by (simp add: body_rest)
  have over: "walk decode (skip (length (editionBytes cs)) r') chapters = chapters" for chapters
    using r'(2) by simp
  have "walk decode ?r [] = map (chapterOf decode) cs"
    using r'(1) not_at_end [OF rest] inner over
    by (subst walk.simps) (simp add: MAX_CHAPTERS_def)
  then show ?thesis by (simp add: parseChapters_def)
qed

definition sampleDecode :: "nat list \<Rightarrow> string" where
  "sampleDecode bytes = (if bytes = [65] then ''A'' else if bytes = [66] then ''B'' else [])"

definition sampleChapters :: "written_chapter list" where
  "sampleChapters =
     [\<lparr>wc_startNs = 90000000000, wc_endNs = 0, wc_title = [66]\<rparr>,
      \<lparr>wc_startNs = 0, wc_endNs = 0, wc_title = [65]\<rparr>,
      \<lparr>wc_startNs = 120000000000, wc_endNs = 150500000000, wc_title = []\<rparr>]"

theorem mkv_edition_roundtrip_witness:
  "map (\<lambda>c. (mc_startMs c, mc_endMs c, mc_title c))
     (parseChapters sampleDecode (newReader (element EDITION_ENTRY (editionBytes sampleChapters))))
   = [(0, 90000, ''A''), (90000, 120000, ''B''), (120000, 150500, [])]"
proof -
  have small: "list_all writable sampleChapters" "length sampleChapters \<le> MAX_CHAPTERS"
    by (simp_all add: sampleChapters_def writable_def MAX_CHAPTERS_def)
  have "length (editionBytes sampleChapters) < 256 ^ 7"
    by (simp add: sampleChapters_def editionBytes_def atomBytes_def displayBytes_def element_def sizeBytes_def
        idBytes_def mkv_ids)
  from mkv_edition_roundtrip [OF small this, of sampleDecode] show ?thesis
    by (simp add: sampleChapters_def chapterOf_def millis_def dropZeros_def sampleDecode_def)
qed

end
