(* ===== verification/AssVtt.thy ===== *)
theory AssVtt
  imports JsText
begin

text \<open>
  ASS dialogue as WebVTT cues (\<open>assvtt.ts\<close>): the styles of the header, the override
  tags of a cue as a machine that opens and closes markup, the cue settings, and
  the pass that places dialogue cues. A number that may be \<open>NaN\<close> is an option; the
  styles are a map in insertion order.
\<close>

section \<open>Styles\<close>

record ass_style =
  as_italic :: bool
  as_bold :: bool
  as_color :: "string option"
  as_alignment :: int

record ass_info =
  ai_playResX :: int
  ai_playResY :: int
  ai_styles :: "(string, ass_style) jsmap"

definition DEFAULT_STYLE :: ass_style where
  "DEFAULT_STYLE = \<lparr>as_italic = False, as_bold = False, as_color = None, as_alignment = 2\<rparr>"

definition VTT_COLORS :: "(string \<times> int \<times> int \<times> int) list" where
  "VTT_COLORS =
     [(''white'', 255, 255, 255), (''yellow'', 255, 255, 0), (''cyan'', 0, 255, 255), (''red'', 255, 0, 0),
      (''lime'', 0, 255, 0), (''magenta'', 255, 0, 255), (''blue'', 0, 0, 255), (''black'', 0, 0, 0)]"

definition assFlag :: "string \<Rightarrow> bool" where
  "assFlag value = (case parseInt value of None \<Rightarrow> False | Some n \<Rightarrow> n = - 1 \<or> n = 1 \<or> 700 \<le> n)"

text \<open>\<open>value & 3\<close> is the remainder modulo four, 0 of \<open>NaN\<close>.\<close>

definition normalizeAlignment :: "int option \<Rightarrow> bool \<Rightarrow> int" where
  "normalizeAlignment value legacy =
     (if \<not> legacy then (case value of None \<Rightarrow> 2 | Some v \<Rightarrow> if 1 \<le> v \<and> v \<le> 9 then v else 2)
      else case value of
             None \<Rightarrow> 2
           | Some v \<Rightarrow>
               let column = v mod 4
               in if column = 0 then 2 else if 9 \<le> v then 3 + column else if 5 \<le> v then 6 + column else column)"

definition hexVal :: "char \<Rightarrow> nat option" where
  "hexVal c =
     (if isDigit c then Some (digitVal c)
      else if 97 \<le> codeOf c \<and> codeOf c \<le> 102 then Some (codeOf c - 87)
      else if 65 \<le> codeOf c \<and> codeOf c \<le> 70 then Some (codeOf c - 55)
      else None)"

text \<open>\<open>/^&H?([0-9a-f]{1,8})&?$/i\<close>: the hexadecimal number.\<close>

definition assHex :: "string \<Rightarrow> int option" where
  "assHex value =
     (case value of
        [] \<Rightarrow> None
      | c # s \<Rightarrow>
          if c \<noteq> CHR ''&'' then None
          else
            let s = (case s of [] \<Rightarrow> s | h # r \<Rightarrow> if h = CHR ''H'' \<or> h = CHR ''h'' then r else s);
                s = (if s \<noteq> [] \<and> last s = CHR ''&'' then butlast s else s)
            in if s \<noteq> [] \<and> length s \<le> 8 \<and> list_all (\<lambda>c. hexVal c \<noteq> None) s
               then Some (foldl (\<lambda>v c. 16 * v + int (the (hexVal c))) 0 s) else None)"

text \<open>The unsigned shifts read the number modulo \<open>2 ^ 32\<close>.\<close>

definition parseAssColor :: "string \<Rightarrow> (int \<times> int \<times> int) option" where
  "parseAssColor value =
     (if value = [] then None
      else case (case assHex value of Some n \<Rightarrow> Some n | None \<Rightarrow> parseInt value) of
             None \<Rightarrow> None
           | Some parsed \<Rightarrow>
               let bits = parsed mod 4294967296
               in if 240 \<le> bits div 16777216 then None
                  else Some (bits mod 256, bits div 256 mod 256, bits div 65536 mod 256))"

definition distance :: "int \<times> int \<times> int \<Rightarrow> int \<times> int \<times> int \<Rightarrow> int" where
  "distance a b = (case (a, b) of ((r, g, b), (r', g', b')) \<Rightarrow> (r - r') ^ 2 + (g - g') ^ 2 + (b - b') ^ 2)"

text \<open>The loop of \<open>colorClass\<close>: the first colour at the least distance.\<close>

fun nearest :: "int \<times> int \<times> int \<Rightarrow> string \<times> int option \<Rightarrow> (string \<times> int \<times> int \<times> int) list \<Rightarrow> string \<times> int option" where
  "nearest rgb best [] = best"
| "nearest rgb (name, least) ((candidate, color) # cs) =
     (let d = distance color rgb
      in nearest rgb (if (case least of None \<Rightarrow> True | Some m \<Rightarrow> d < m) then (candidate, Some d) else (name, least)) cs)"

definition colorClass :: "(int \<times> int \<times> int) option \<Rightarrow> string option" where
  "colorClass rgb =
     (case rgb of
        None \<Rightarrow> None
      | Some rgb \<Rightarrow>
          (let best = fst (nearest rgb (''white'', None) VTT_COLORS)
           in if best = ''white'' then None else Some best))"

definition positiveNumber :: "string \<Rightarrow> int \<Rightarrow> int" where
  "positiveNumber value fallback = (case parseInt value of None \<Rightarrow> fallback | Some n \<Rightarrow> if 0 < n then n else fallback)"

section \<open>The header\<close>

record header_scan =
  hs_info :: ass_info
  hs_fields :: "string list option"
  hs_section :: string
  hs_legacy :: bool

text \<open>The column named \<open>name\<close> of a style line, empty when there is none.\<close>

definition styleField :: "string list \<Rightarrow> string list \<Rightarrow> string \<Rightarrow> string" where
  "styleField columns values name =
     (let index = length (takeWhile (\<lambda>c. c \<noteq> name) columns)
      in if index < length columns \<and> index < length values then trim (values ! index) else [])"

definition styleOf :: "string list \<Rightarrow> string list \<Rightarrow> bool \<Rightarrow> ass_style" where
  "styleOf columns values legacy =
     \<lparr>as_italic = assFlag (styleField columns values ''italic''),
      as_bold = assFlag (styleField columns values ''bold''),
      as_color = colorClass (parseAssColor (styleField columns values ''primarycolour'')),
      as_alignment =
        (case parseInt (styleField columns values ''alignment'') of
           None \<Rightarrow> 2
         | Some n \<Rightarrow> normalizeAlignment (Some n) legacy)\<rparr>"

text \<open>One line of the header.\<close>

definition headerLine :: "string \<Rightarrow> header_scan \<Rightarrow> header_scan" where
  "headerLine raw s =
     (let line = trim raw
      in if startsWith line ''['' then
           s\<lparr>hs_section := lower line, hs_legacy := lower line = ''[v4 styles]''\<rparr>
         else (case indexOfChar CHR '':'' line of
             None \<Rightarrow> s
           | Some colon \<Rightarrow>
               let key = lower (trim (take colon line));
                   value = trim (drop (colon + 1) line);
                   info = hs_info s
               in if hs_section s = ''[script info]'' then
                    (if key = ''playresx'' then s\<lparr>hs_info := info\<lparr>ai_playResX := positiveNumber value (ai_playResX info)\<rparr>\<rparr>
                     else if key = ''playresy'' then s\<lparr>hs_info := info\<lparr>ai_playResY := positiveNumber value (ai_playResY info)\<rparr>\<rparr>
                     else s)
                  else if \<not> endsWith (hs_section s) ''styles]'' then s
                  else if key = ''format'' then s\<lparr>hs_fields := Some (map (lower \<circ> trim) (splitOn CHR '','' value))\<rparr>
                  else (case hs_fields s of
                      None \<Rightarrow> s
                    | Some columns \<Rightarrow>
                        if key \<noteq> ''style'' then s
                        else
                          let values = splitOn CHR '','' value
                          in s\<lparr>hs_info := info\<lparr>ai_styles :=
                                mapSet (styleField columns values ''name'') (styleOf columns values (hs_legacy s)) (ai_styles info)\<rparr>\<rparr>)))"

definition parseAssHeader :: "string \<Rightarrow> ass_info" where
  "parseAssHeader header =
     hs_info (fold headerLine (splitLines (normalizeNewlines header))
       \<lparr>hs_info = \<lparr>ai_playResX = 384, ai_playResY = 288, ai_styles = []\<rparr>, hs_fields = None, hs_section = [], hs_legacy = False\<rparr>)"

section \<open>A cue\<close>

datatype markup = Italic | Bold | Colored

record cue_state =
  cu_alignment :: int
  cu_pos :: "(rat option \<times> rat option) option"
  cu_drawing :: bool
  cu_desiredI :: bool
  cu_desiredB :: bool
  cu_desiredC :: "string option"
  cu_open :: "markup list"
  cu_openColor :: "string option"
  cu_out :: string

text \<open>\<open>open\<close> is kept in its order, the last one innermost.\<close>

definition closeTag :: "markup \<Rightarrow> string" where
  "closeTag k = (case k of Italic \<Rightarrow> ''</i>'' | Bold \<Rightarrow> ''</b>'' | Colored \<Rightarrow> ''</c>'')"

definition wanted :: "cue_state \<Rightarrow> markup \<Rightarrow> bool" where
  "wanted s k =
     (case k of Italic \<Rightarrow> cu_desiredI s | Bold \<Rightarrow> cu_desiredB s | Colored \<Rightarrow> cu_desiredC s = cu_openColor s)"

definition closeUnwanted :: "cue_state \<Rightarrow> cue_state" where
  "closeUnwanted s =
     (let keep = takeWhile (wanted s) (cu_open s)
      in s\<lparr>cu_out := cu_out s @ concat (map closeTag (rev (drop (length keep) (cu_open s)))),
           cu_open := keep,
           cu_openColor := (if Colored \<in> set keep then cu_openColor s else None)\<rparr>)"

definition openItalic :: "cue_state \<Rightarrow> cue_state" where
  "openItalic s =
     (if cu_desiredI s \<and> Italic \<notin> set (cu_open s)
      then s\<lparr>cu_open := cu_open s @ [Italic], cu_out := cu_out s @ ''<i>''\<rparr> else s)"

definition openBold :: "cue_state \<Rightarrow> cue_state" where
  "openBold s =
     (if cu_desiredB s \<and> Bold \<notin> set (cu_open s)
      then s\<lparr>cu_open := cu_open s @ [Bold], cu_out := cu_out s @ ''<b>''\<rparr> else s)"

definition openColored :: "cue_state \<Rightarrow> cue_state" where
  "openColored s =
     (case cu_desiredC s of
        None \<Rightarrow> s
      | Some c \<Rightarrow>
          if cu_openColor s = Some c then s
          else s\<lparr>cu_open := cu_open s @ [Colored], cu_openColor := Some c, cu_out := cu_out s @ ''<c.'' @ c @ ''>''\<rparr>)"

definition reconcile :: "cue_state \<Rightarrow> cue_state" where
  "reconcile s = openColored (openBold (openItalic (closeUnwanted s)))"

definition escapeText :: "string \<Rightarrow> string" where
  "escapeText s =
     replaceChar CHR ''>'' ''&gt;'' (replaceChar CHR ''<'' ''&lt;'' (replaceChar CHR ''&'' ''&amp;'' s))"

definition emitText :: "string \<Rightarrow> cue_state \<Rightarrow> cue_state" where
  "emitText segment s =
     (if cu_drawing s \<or> segment = [] then s
      else let s = reconcile s in s\<lparr>cu_out := cu_out s @ escapeText segment\<rparr>)"

text \<open>\<open>Number.parseFloat\<close> of digits and dots after an optional minus sign.\<close>

definition parseFloat :: "string \<Rightarrow> rat option" where
  "parseFloat s =
     (let (sign, s) = (case s of [] \<Rightarrow> (1, s) | c # r \<Rightarrow> if c = CHR ''-'' then (- 1, r) else (1, s));
          whole = takeWhile isDigit s;
          rest = dropWhile isDigit s;
          fraction = (case rest of [] \<Rightarrow> [] | c # r \<Rightarrow> if c = CHR ''.'' then takeWhile isDigit r else [])
      in if whole = [] \<and> fraction = [] then None
         else Some (sign * (of_nat (num whole) + of_nat (num fraction) / 10 ^ length fraction)))"

text \<open>\<open>-?[\d.]+\<close> at the front.\<close>

definition takeCoordinate :: "string \<Rightarrow> (string \<times> string) option" where
  "takeCoordinate s =
     (let (sign, s) = (case s of [] \<Rightarrow> ([], s) | c # r \<Rightarrow> if c = CHR ''-'' then ([c], r) else ([], s));
          ok = (\<lambda>c. isDigit c \<or> c = CHR ''.'')
      in if takeWhile ok s = [] then None else Some (sign @ takeWhile ok s, dropWhile ok s))"

definition pointAt :: "string \<Rightarrow> (rat option \<times> rat option) option" where
  "pointAt s = do {
     s \<leftarrow> stripPrefix ''('' s;
     (x, s) \<leftarrow> takeCoordinate (dropWhile isSpace s);
     s \<leftarrow> stripPrefix '','' (dropWhile isSpace s);
     (y, s) \<leftarrow> takeCoordinate (dropWhile isSpace s);
     Some (parseFloat x, parseFloat y) }"

text \<open>\<open>/\(\s*(-?[\d.]+)\s*,\s*(-?[\d.]+)/\<close>, wherever it first matches.\<close>

fun parsePoint :: "string \<Rightarrow> (rat option \<times> rat option) option" where
  "parsePoint [] = None"
| "parsePoint (c # s) = (case pointAt (c # s) of Some p \<Rightarrow> Some p | None \<Rightarrow> parsePoint s)"

section \<open>Override tags\<close>

datatype override_tag = TagI | TagB | TagC | TagAn | TagA | TagPos | TagP | TagR

text \<open>\<open>(?=-?\d)\<close>.\<close>

definition numberAhead :: "string \<Rightarrow> bool" where
  "numberAhead s \<longleftrightarrow>
     (case s of [] \<Rightarrow> False | c # r \<Rightarrow> isDigit c \<or> c = CHR ''-'' \<and> (case r of [] \<Rightarrow> False | d # q \<Rightarrow> isDigit d))"

text \<open>\<open>(?=&|\\|$)\<close> on what follows up to the next backslash.\<close>

definition colorAhead :: "string \<Rightarrow> bool" where
  "colorAhead s \<longleftrightarrow> s = [] \<or> hd s = CHR ''&''"

text \<open>
  \<open>OVERRIDE_TAG\<close> at a backslash: the first alternative that matches the text up to
  the next backslash, and the value behind the name.
\<close>

definition tagOf :: "string \<Rightarrow> (override_tag \<times> string) option" where
  "tagOf s =
     (case stripPrefix ''pos'' s of Some v \<Rightarrow> Some (TagPos, v) | None \<Rightarrow>
     (case stripPrefix ''move'' s of Some v \<Rightarrow> Some (TagPos, v) | None \<Rightarrow>
     (case stripPrefix ''an'' s of Some v \<Rightarrow> Some (TagAn, v) | None \<Rightarrow>
     (case s of
        [] \<Rightarrow> None
      | c # v \<Rightarrow>
          if c = CHR ''a'' \<and> numberAhead v then Some (TagA, v)
          else if c = CHR ''1'' \<and> (case v of [] \<Rightarrow> False | d # w \<Rightarrow> d = CHR ''c'' \<and> colorAhead w) then Some (TagC, tl v)
          else if c = CHR ''c'' \<and> colorAhead v then Some (TagC, v)
          else if c = CHR ''i'' \<and> numberAhead v then Some (TagI, v)
          else if c = CHR ''b'' \<and> numberAhead v then Some (TagB, v)
          else if c = CHR ''p'' \<and> numberAhead v then Some (TagP, v)
          else if c = CHR ''r'' then Some (TagR, v)
          else None))))"

definition tagsOf :: "string \<Rightarrow> (override_tag \<times> string) list" where
  "tagsOf block = concat (map (\<lambda>s. case tagOf s of None \<Rightarrow> [] | Some t \<Rightarrow> [t]) (tl (splitOn CHR 0x5C block)))"

definition isZero :: "int option \<Rightarrow> bool" where
  "isZero n \<longleftrightarrow> n = Some 0"

definition applyTag :: "ass_info \<Rightarrow> ass_style \<Rightarrow> override_tag \<times> string \<Rightarrow> cue_state \<Rightarrow> cue_state" where
  "applyTag info style tag s =
     (let value = snd tag
      in case fst tag of
           TagI \<Rightarrow> s\<lparr>cu_desiredI := \<not> isZero (parseInt value)\<rparr>
         | TagB \<Rightarrow> s\<lparr>cu_desiredB :=
             (case parseInt value of None \<Rightarrow> False | Some w \<Rightarrow> w = 1 \<or> w = - 1 \<or> 700 \<le> w)\<rparr>
         | TagC \<Rightarrow> s\<lparr>cu_desiredC :=
             (if trim value = [] then as_color style else colorClass (parseAssColor (trim value)))\<rparr>
         | TagAn \<Rightarrow> (case parseInt value of
               None \<Rightarrow> s
             | Some n \<Rightarrow> if 1 \<le> n \<and> n \<le> 9 then s\<lparr>cu_alignment := n\<rparr> else s)
         | TagA \<Rightarrow> s\<lparr>cu_alignment := normalizeAlignment (parseInt value) True\<rparr>
         | TagPos \<Rightarrow> (case parsePoint value of
               None \<Rightarrow> s
             | Some point \<Rightarrow> if cu_pos s = None then s\<lparr>cu_pos := Some point\<rparr> else s)
         | TagP \<Rightarrow> s\<lparr>cu_drawing := (case parseInt value of None \<Rightarrow> False | Some n \<Rightarrow> 0 < n)\<rparr>
         | TagR \<Rightarrow>
             let target = (if trim value = [] then style else orElse (mapGet (ai_styles info) (trim value)) style)
             in s\<lparr>cu_desiredI := as_italic target, cu_desiredB := as_bold target, cu_desiredC := as_color target\<rparr>)"

section \<open>The cue's text and settings\<close>

text \<open>\<open>/\{([^}]*)\}/\<close>: the text before the first block, the block, and what follows it.\<close>

definition nextBlock :: "string \<Rightarrow> (string \<times> string \<times> string) option" where
  "nextBlock raw =
     (case indexOfChar CHR ''{'' raw of
        None \<Rightarrow> None
      | Some i \<Rightarrow>
          (case indexOfChar CHR ''}'' (drop (i + 1) raw) of
             None \<Rightarrow> None
           | Some j \<Rightarrow> Some (take i raw, take j (drop (i + 1) raw), drop (i + j + 2) raw)))"

lemma nextBlock_shorter: "nextBlock raw = Some (before, block, rest) \<Longrightarrow> length rest < length raw"
  by (auto simp: nextBlock_def indexOfChar_def split: option.splits if_splits)
    (metis (no_types, lifting) diff_less length_pos_if_in_set zero_less_Suc)

function blockLoop :: "ass_info \<Rightarrow> ass_style \<Rightarrow> string \<Rightarrow> cue_state \<Rightarrow> cue_state" where
  "blockLoop info style raw s =
     (case nextBlock raw of
        None \<Rightarrow> emitText raw s
      | Some (before, block, rest) \<Rightarrow>
          blockLoop info style rest (fold (applyTag info style) (tagsOf block) (emitText before s)))"
  by pat_completeness auto
termination
  by (relation "measure (\<lambda>(_, _, raw, _). length raw)") (auto dest: nextBlock_shorter)

declare blockLoop.simps [simp del]

definition startCue :: "ass_style \<Rightarrow> cue_state" where
  "startCue style =
     \<lparr>cu_alignment = as_alignment style, cu_pos = None, cu_drawing = False, cu_desiredI = as_italic style,
      cu_desiredB = as_bold style, cu_desiredC = as_color style, cu_open = [], cu_openColor = None, cu_out = []\<rparr>"

text \<open>\<open>percent\<close>, \<open>None\<close> for \<open>NaN\<close>; the scale is positive.\<close>

definition percent :: "rat option \<Rightarrow> int \<Rightarrow> int \<Rightarrow> int option" where
  "percent value scale anchor =
     map_option (\<lambda>v. min 100 (max 0 (js_round (v / of_int scale * 100) - anchor))) value"

definition showPercent :: "int option \<Rightarrow> string" where
  "showPercent n = (case n of None \<Rightarrow> ''NaN'' | Some n \<Rightarrow> decInt n)"

definition cueSettings :: "int \<Rightarrow> (rat option \<times> rat option) option \<Rightarrow> ass_info \<Rightarrow> string" where
  "cueSettings alignment pos info =
     (let upper = 7 \<le> alignment; middle = \<not> upper \<and> 4 \<le> alignment; column = alignment mod 3;
          place = (case pos of
              Some (x, y) \<Rightarrow>
                let anchor = (if upper then 0 else if middle then 3 else 6)
                in [''line:'' @ showPercent (percent y (ai_playResY info) anchor) @ ''%'',
                    ''position:'' @ showPercent (percent x (ai_playResX info) 0) @ ''%'']
            | None \<Rightarrow>
                (if upper then [''line:5%''] else if middle then [''line:47%''] else [])
                @ (if column = 1 then [''position:5%''] else if column = 0 then [''position:95%''] else []));
          side = (if column = 1 then [''align:left''] else if column = 0 then [''align:right''] else [])
      in joinWith '' '' (place @ side))"

definition convertAssCue :: "ass_info \<Rightarrow> string option \<Rightarrow> string \<Rightarrow> string \<times> string" where
  "convertAssCue info styleName raw =
     (let style = orElse (Option.bind styleName (mapGet (ai_styles info))) DEFAULT_STYLE;
          s = blockLoop info style raw (startCue style);
          out = cu_out s @ concat (map closeTag (rev (cu_open s)));
          text = trim (replacePair CHR 0x5C CHR ''h'' [CHR 0xA0] (replacePair CHR 0x5C CHR ''n'' '' ''
                   (replacePair CHR 0x5C CHR ''N'' [NL] out)))
      in (if text = [] then [] else cueSettings (cu_alignment s) (cu_pos s) info, text))"

section \<open>Placing dialogue\<close>

definition BOTTOM_DIALOGUE :: string where "BOTTOM_DIALOGUE = ''line:-3''"

definition TOP_DIALOGUE :: string where "TOP_DIALOGUE = ''line:2''"

text \<open>\<open>(\d{2})\.(\d{3})\<close> to the end: the milliseconds.\<close>

definition secondsPart :: "string \<Rightarrow> int option" where
  "secondsPart s =
     (if length s = 6 \<and> list_all isDigit (take 2 s) \<and> s ! 2 = CHR ''.'' \<and> list_all isDigit (drop 3 s)
      then Some (int (num (take 2 s)) * 1000 + int (num (drop 3 s))) else None)"

text \<open>\<open>/^(?:(\d+):)?(\d{2}):(\d{2})\.(\d{3})$/\<close>.\<close>

definition parseVttStamp :: "string \<Rightarrow> int option" where
  "parseVttStamp stamp =
     (case splitOn CHR '':'' stamp of
        [m, s] \<Rightarrow>
          if length m = 2 \<and> allDigits m then map_option (\<lambda>ms. int (num m) * 60000 + ms) (secondsPart s) else None
      | [h, m, s] \<Rightarrow>
          if allDigits h \<and> length m = 2 \<and> allDigits m
          then map_option (\<lambda>ms. (int (num h) * 60 + int (num m)) * 60000 + ms) (secondsPart s) else None
      | _ \<Rightarrow> None)"

text \<open>The start and the end of a cue line that has no settings.\<close>

definition plainCue :: "string \<Rightarrow> (int \<times> int) option" where
  "plainCue line =
     (case indexOf ''-->'' line of
        None \<Rightarrow> None
      | Some arrow \<Rightarrow>
          (case spaceRuns (drop (arrow + 3) line) of
             [endStamp] \<Rightarrow>
               (case (parseVttStamp (trim (take arrow line)), parseVttStamp endStamp) of
                  (Some start, Some end) \<Rightarrow> Some (start, end)
                | _ \<Rightarrow> None)
           | _ \<Rightarrow> None))"

fun placeLines :: "int \<Rightarrow> string list \<Rightarrow> string list" where
  "placeLines lastBottomEnd [] = []"
| "placeLines lastBottomEnd (line # lines) =
     (case plainCue line of
        None \<Rightarrow> line # placeLines lastBottomEnd lines
      | Some (start, end) \<Rightarrow>
          if start < lastBottomEnd then (line @ '' '' @ TOP_DIALOGUE) # placeLines lastBottomEnd lines
          else (line @ '' '' @ BOTTOM_DIALOGUE) # placeLines end lines)"

definition positionDialogueCues :: "string \<Rightarrow> string" where
  "positionDialogueCues vtt = joinLines (placeLines (- 1) (splitLines vtt))"

section \<open>Well-formed markup\<close>

text \<open>
  A scanner for cue text: outside a tag any character but \<open>>\<close>, inside one no white
  space and no backslash; a tag opens italics, bold or a class, or closes the
  innermost. \<open>None\<close> is a malformed text.
\<close>

type_synonym scan_state = "(string list \<times> string option) option"

definition tagEnds :: "string list \<Rightarrow> string \<Rightarrow> scan_state" where
  "tagEnds stack buf =
     (case stripPrefix ''/'' buf of
        Some name \<Rightarrow> (case stack of [] \<Rightarrow> None | inner # rest \<Rightarrow> if inner = name then Some (rest, None) else None)
      | None \<Rightarrow>
          (let name = takeWhile (\<lambda>c. c \<noteq> CHR ''.'') buf
           in if name = ''i'' \<or> name = ''b'' \<or> name = ''c'' then Some (name # stack, None) else None))"

definition scanChar :: "scan_state \<Rightarrow> char \<Rightarrow> scan_state" where
  "scanChar st c =
     (case st of
        None \<Rightarrow> None
      | Some (stack, None) \<Rightarrow>
          if c = CHR ''<'' then Some (stack, Some []) else if c = CHR ''>'' then None else st
      | Some (stack, Some buf) \<Rightarrow>
          if c = CHR ''>'' then tagEnds stack buf
          else if isSpace c \<or> c = CHR 0x5C \<or> c = CHR ''<'' then None
          else Some (stack, Some (buf @ [c])))"

definition scanText :: "scan_state \<Rightarrow> string \<Rightarrow> scan_state" where
  "scanText st s = foldl scanChar st s"

definition wellFormed :: "string \<Rightarrow> bool" where
  "wellFormed s \<longleftrightarrow> scanText (Some ([], None)) s = Some ([], None)"

lemma scanText_simps [simp]:
  "scanText st [] = st" "scanText st (c # s) = scanText (scanChar st c) s"
  "scanText st (s @ t) = scanText (scanText st s) t"
  by (simp_all add: scanText_def)

lemma scan_malformed [simp]: "scanText None s = None"
  by (induction s) (simp_all add: scanChar_def)

lemma scan_plain:
  "CHR ''<'' \<notin> set s \<Longrightarrow> CHR ''>'' \<notin> set s \<Longrightarrow> scanText (Some (stack, None)) s = Some (stack, None)"
  by (induction s) (auto simp: scanChar_def)

lemma isSpace_plain: "isSpace c \<Longrightarrow> c \<noteq> CHR ''<'' \<and> c \<noteq> CHR ''>''"
  by (auto simp: isSpace_def codeOf_def)

lemma backslash: "\<not> isSpace CHR 0x5C"
  by (simp add: isSpace_def codeOf_def)

lemma scan_pair:
  assumes "isSpace r" and "b \<noteq> CHR ''<''" and "b \<noteq> CHR ''>''"
  shows "scanChar (scanChar st CHR 0x5C) b = scanChar st r"
  using assms backslash isSpace_plain [OF assms(1)] by (auto simp: scanChar_def split: option.splits)

lemma scan_replacePair:
  "a = CHR 0x5C \<Longrightarrow> w = [r] \<Longrightarrow> isSpace r \<Longrightarrow> b \<noteq> CHR ''<'' \<Longrightarrow> b \<noteq> CHR ''>'' \<Longrightarrow>
   scanText st (replacePair a b w s) = scanText st s"
  by (induction a b w s arbitrary: st rule: replacePair.induct) (auto simp: scan_pair)

lemma scan_spaces: "list_all isSpace s \<Longrightarrow> scanText (Some (stack, None)) s = Some (stack, None)"
  by (induction s) (auto simp: scanChar_def dest: isSpace_plain)

lemma scan_trailing:
  assumes "list_all isSpace t" and "scanText st t = Some (stack, None)"
  shows "st = Some (stack, None)"
proof (cases t)
  case Nil
  with assms show ?thesis by simp
next
  case (Cons c u)
  with assms have c: "isSpace c" "scanText (scanChar st c) u = Some (stack, None)" by simp_all
  then obtain st' where st': "scanChar st c = Some st'" by (cases "scanChar st c") auto
  with c(1) have "scanChar st c = st" "snd st' = None"
    using isSpace_plain [OF c(1)] by (auto simp: scanChar_def split: option.splits prod.splits if_splits)
  with st' have "st = Some (fst st', None)" by (cases st') auto
  then show ?thesis using scan_spaces [OF assms(1), of "fst st'"] assms(2) by simp
qed

lemma trim_parts: "\<exists>lead trail. s = lead @ trim s @ trail \<and> list_all isSpace lead \<and> list_all isSpace trail"
proof -
  let ?d = "dropWhile isSpace s"
  have "s = takeWhile isSpace s @ ?d" by simp
  moreover have "?d = trim s @ rev (takeWhile isSpace (rev ?d))"
    unfolding trim_def trimEnd_def by (metis rev_append rev_rev_ident takeWhile_dropWhile_id)
  moreover have "list_all isSpace (takeWhile isSpace s)" "list_all isSpace (rev (takeWhile isSpace (rev ?d)))"
    by (auto simp: list_all_iff dest: set_takeWhileD)
  ultimately show ?thesis by metis
qed

lemma wellFormed_trim: "wellFormed s \<Longrightarrow> wellFormed (trim s)"
proof -
  assume "wellFormed s"
  moreover obtain lead trail where parts: "s = lead @ trim s @ trail" "list_all isSpace lead" "list_all isSpace trail"
    using trim_parts by blast
  ultimately have "scanText (scanText (Some ([], None)) (trim s)) trail = Some ([], None)"
    unfolding wellFormed_def by (metis scan_spaces scanText_simps(3))
  from scan_trailing [OF parts(3) this] show ?thesis by (simp add: wellFormed_def)
qed

section \<open>The machine keeps its markup\<close>

definition markupName :: "markup \<Rightarrow> string" where
  "markupName k = (case k of Italic \<Rightarrow> ''i'' | Bold \<Rightarrow> ''b'' | Colored \<Rightarrow> ''c'')"

definition colorNames :: "string list" where
  "colorNames = [''yellow'', ''cyan'', ''red'', ''lime'', ''magenta'', ''blue'', ''black'']"

definition colorOk :: "string option \<Rightarrow> bool" where
  "colorOk c \<longleftrightarrow> (case c of None \<Rightarrow> True | Some n \<Rightarrow> n \<in> set colorNames)"

definition infoOk :: "ass_info \<Rightarrow> bool" where
  "infoOk info \<longleftrightarrow> list_all (\<lambda>(n, style). colorOk (as_color style)) (ai_styles info)"

definition cueOk :: "cue_state \<Rightarrow> bool" where
  "cueOk s \<longleftrightarrow>
     scanText (Some ([], None)) (cu_out s) = Some (map markupName (rev (cu_open s)), None)
   \<and> colorOk (cu_desiredC s)"

lemma scan_closing: "scanText (Some (map markupName ks @ stack, None)) (concat (map closeTag ks)) = Some (stack, None)"
proof (induction ks)
  case (Cons k ks)
  then show ?case
    by (cases k) (simp_all add: markupName_def closeTag_def scanChar_def tagEnds_def isSpace_def codeOf_def)
qed simp

lemma scan_opening:
  "scanText (Some (stack, None)) ''<i>'' = Some (''i'' # stack, None)"
  "scanText (Some (stack, None)) ''<b>'' = Some (''b'' # stack, None)"
  by (simp_all add: scanChar_def tagEnds_def isSpace_def codeOf_def)

lemma scan_color: "colorOk (Some c) \<Longrightarrow> scanText (Some (stack, None)) (''<c.'' @ c @ ''>'') = Some (''c'' # stack, None)"
  unfolding colorOk_def colorNames_def
  by (auto simp: scanChar_def tagEnds_def isSpace_def codeOf_def)

lemma cueOk_closeUnwanted:
  assumes "cueOk s"
  shows "cueOk (closeUnwanted s)"
proof -
  let ?keep = "takeWhile (wanted s) (cu_open s)"
  have split: "cu_open s = ?keep @ drop (length ?keep) (cu_open s)"
    by (metis append_take_drop_id takeWhile_eq_take)
  then have "map markupName (rev (cu_open s)) =
      map markupName (rev (drop (length ?keep) (cu_open s))) @ map markupName (rev ?keep)"
    by (metis map_append rev_append)
  then show ?thesis
    using assms scan_closing [of "rev (drop (length ?keep) (cu_open s))" "map markupName (rev ?keep)"]
    by (simp add: cueOk_def closeUnwanted_def Let_def)
qed

lemma cueOk_reconcile: "cueOk s \<Longrightarrow> cueOk (reconcile s)"
proof -
  assume "cueOk s"
  then have "cueOk (closeUnwanted s)" by (rule cueOk_closeUnwanted)
  then have "cueOk (openItalic (closeUnwanted s))"
    unfolding openItalic_def by (auto simp: cueOk_def markupName_def scan_opening simp del: scanText_simps(2))
  then have "cueOk (openBold (openItalic (closeUnwanted s)))"
    unfolding openBold_def by (auto simp: cueOk_def markupName_def scan_opening simp del: scanText_simps(2))
  then show ?thesis
    unfolding reconcile_def openColored_def [of "openBold (openItalic (closeUnwanted s))"]
    using scan_color by (auto simp: cueOk_def markupName_def simp del: scanText_simps(2) split: option.split)
qed

lemma escapeText_plain: "CHR ''<'' \<notin> set (escapeText s) \<and> CHR ''>'' \<notin> set (escapeText s)"
  by (auto simp: escapeText_def replaceChar_def)

lemma cueOk_emit: "cueOk s \<Longrightarrow> cueOk (emitText segment s)"
  using cueOk_reconcile [of s] escapeText_plain [of segment]
  by (simp add: emitText_def Let_def) (simp add: cueOk_def scan_plain)

lemma nearest_name: "fst (nearest rgb best cs) \<in> insert (fst best) (fst ` set cs)"
  by (induction rgb best cs rule: nearest.induct) (auto simp: Let_def split: if_splits option.splits)

lemma colorOk_colorClass: "colorOk (colorClass rgb)"
proof (cases rgb)
  case (Some c)
  define best where "best = fst (nearest c (''white'', None) VTT_COLORS)"
  have "best \<in> insert ''white'' (set (map fst VTT_COLORS))"
    using nearest_name [of c "(''white'', None)" VTT_COLORS] unfolding best_def by (simp only: fst_conv list.set_map)
  moreover have "map fst VTT_COLORS = ''white'' # colorNames" by (simp add: VTT_COLORS_def colorNames_def)
  ultimately have "best = ''white'' \<or> best \<in> set colorNames" by auto
  then show ?thesis
    unfolding colorClass_def Some option.case Let_def best_def [symmetric] by (auto simp: colorOk_def)
qed (simp add: colorClass_def colorOk_def)

lemma infoOk_get: "infoOk info \<Longrightarrow> mapGet (ai_styles info) n = Some style \<Longrightarrow> colorOk (as_color style)"
  by (auto simp: infoOk_def list_all_iff dest!: map_of_SomeD)

lemma cueOk_applyTag:
  assumes "infoOk info" and "colorOk (as_color style)" and "cueOk s"
  shows "cueOk (applyTag info style tag s)"
proof -
  have "colorOk (as_color (orElse (mapGet (ai_styles info) n) style))" for n
    using assms(2) infoOk_get [OF assms(1)] by (cases "mapGet (ai_styles info) n") auto
  with assms(2,3) show ?thesis
    by (cases "fst tag") (auto simp: applyTag_def Let_def cueOk_def colorOk_colorClass split: option.split)
qed

lemma cueOk_tags: "infoOk info \<Longrightarrow> colorOk (as_color style) \<Longrightarrow> cueOk s \<Longrightarrow> cueOk (fold (applyTag info style) tags s)"
  by (induction tags arbitrary: s) (simp_all add: cueOk_applyTag)

lemma cueOk_blockLoop:
  "infoOk info \<Longrightarrow> colorOk (as_color style) \<Longrightarrow> cueOk s \<Longrightarrow> cueOk (blockLoop info style raw s)"
proof (induction info style raw s rule: blockLoop.induct)
  case (1 info style raw s)
  then show ?case
    by (subst blockLoop.simps) (auto simp: cueOk_emit cueOk_tags split: option.split)
qed

lemma infoOk_line: "infoOk (hs_info s) \<Longrightarrow> infoOk (hs_info (headerLine raw s))"
proof -
  assume ok: "infoOk (hs_info s)"
  have set: "infoOk (info\<lparr>ai_styles := mapSet n (styleOf columns values legacy) (ai_styles info)\<rparr>)"
    if "infoOk info" for info n columns "values" legacy
    using that set_mapSet_subset [of n "styleOf columns values legacy" "ai_styles info"]
    by (fastforce simp: infoOk_def list_all_iff styleOf_def colorOk_colorClass)
  have "infoOk (hs_info s\<lparr>ai_playResX := x\<rparr>)" "infoOk (hs_info s\<lparr>ai_playResY := x\<rparr>)" for x
    using ok by (simp_all add: infoOk_def)
  with ok set [OF ok] show ?thesis
    by (auto simp: headerLine_def Let_def split: option.split)
qed

lemma infoOk_parse: "infoOk (parseAssHeader header)"
proof -
  have "infoOk (hs_info s) \<Longrightarrow> infoOk (hs_info (fold headerLine lines s))" for lines s
    by (induction lines arbitrary: s) (simp_all add: infoOk_line)
  then show ?thesis by (simp add: parseAssHeader_def infoOk_def)
qed

section \<open>Properties\<close>

text \<open>
  C39: whatever a script's header and a cue's text say, the text the viewer gets is
  well-formed markup: every tag is one of italics, bold or a class, closed in the
  order it was opened, and the text between carries no stray angle bracket.
\<close>

theorem converted_cue_is_well_formed:
  "wellFormed (snd (convertAssCue (parseAssHeader header) styleName raw))"
proof -
  let ?info = "parseAssHeader header"
  define style where "style = orElse (Option.bind styleName (mapGet (ai_styles ?info))) DEFAULT_STYLE"
  have style: "colorOk (as_color style)"
  proof (cases "Option.bind styleName (mapGet (ai_styles ?info))")
    case None
    then show ?thesis by (simp add: style_def DEFAULT_STYLE_def colorOk_def)
  next
    case (Some st)
    then obtain n where "mapGet (ai_styles ?info) n = Some st" by (cases styleName) auto
    with Some show ?thesis using infoOk_get [OF infoOk_parse] by (simp add: style_def)
  qed
  define s where "s = blockLoop ?info style raw (startCue style)"
  have "cueOk (startCue style)" using style by (simp add: cueOk_def startCue_def)
  then have "cueOk s" unfolding s_def by (rule cueOk_blockLoop [OF infoOk_parse style])
  then have out: "scanText (Some ([], None)) (cu_out s @ concat (map closeTag (rev (cu_open s)))) = Some ([], None)"
    using scan_closing [of "rev (cu_open s)" "[]"] by (simp add: cueOk_def)
  have spaces: "isSpace CHR '' ''" "isSpace CHR 0xA0" "isSpace NL" by (simp_all add: isSpace_def codeOf_def NL_def)
  have "wellFormed (replacePair CHR 0x5C CHR ''h'' [CHR 0xA0] (replacePair CHR 0x5C CHR ''n'' '' ''
      (replacePair CHR 0x5C CHR ''N'' [NL] (cu_out s @ concat (map closeTag (rev (cu_open s)))))))"
    using out spaces by (simp add: wellFormed_def scan_replacePair)
  then show ?thesis
    by (simp add: convertAssCue_def Let_def s_def [symmetric] style_def [symmetric] wellFormed_trim)
qed

lemma plainCue_moved:
  assumes "plainCue line = Some p" and "t = TOP_DIALOGUE \<or> t = BOTTOM_DIALOGUE"
  shows "plainCue (line @ CHR '' '' # t) = None"
proof -
  obtain arrow where arrow: "indexOf ''-->'' line = Some arrow"
    using assms(1) by (cases "indexOf ''-->'' line") (auto simp: plainCue_def)
  obtain stamp where runs: "spaceRuns (drop (arrow + 3) line) = [stamp]"
    using assms(1) by (auto simp: plainCue_def arrow split: list.splits)
  have "arrow + 3 \<le> length line" using indexOf_bound [OF arrow] by simp
  then have "drop (arrow + 3) (line @ CHR '' '' # t) = drop (arrow + 3) line @ CHR '' '' # t" by simp
  moreover have "isSpace CHR '' ''" by (simp add: isSpace_def codeOf_def)
  ultimately have "spaceRuns (drop (arrow + 3) (line @ CHR '' '' # t)) = [stamp] @ spaceRuns t"
    using runs spaceRuns_append_space [of "CHR '' ''" "drop (arrow + 3) line" t] by simp
  moreover have "spaceRuns t \<noteq> []"
    using assms(2) by (intro spaceRuns_nonempty) (auto simp: TOP_DIALOGUE_def BOTTOM_DIALOGUE_def isSpace_def codeOf_def)
  ultimately have "length (spaceRuns (drop (arrow + 3) (line @ CHR '' '' # t))) \<noteq> 1" by simp
  with indexOf_append [OF arrow, of "CHR '' '' # t"] show ?thesis
    by (auto simp: plainCue_def split: list.split)
qed

lemma placeLines_settled: "list_all (\<lambda>l. plainCue l = None) (placeLines b lines)"
  by (induction b lines rule: placeLines.induct) (auto simp: plainCue_moved split: option.split prod.split)

lemma placeLines_id: "list_all (\<lambda>l. plainCue l = None) lines \<Longrightarrow> placeLines b lines = lines"
  by (induction b lines rule: placeLines.induct) auto

lemma placeLines_lines: "list_all (\<lambda>l. NL \<notin> set l) lines \<Longrightarrow> list_all (\<lambda>l. NL \<notin> set l) (placeLines b lines)"
  by (induction b lines rule: placeLines.induct)
    (auto simp: NL_def TOP_DIALOGUE_def BOTTOM_DIALOGUE_def split: option.split prod.split)

lemma placeLines_appends:
  "list_all2 (\<lambda>line placed. placed \<in> {line, line @ '' line:2'', line @ '' line:-3''}) lines (placeLines b lines)"
  by (induction b lines rule: placeLines.induct)
    (auto simp: TOP_DIALOGUE_def BOTTOM_DIALOGUE_def split: option.split prod.split)

lemma position_lines: "splitLines (positionDialogueCues vtt) = placeLines (- 1) (splitLines vtt)"
proof -
  have lines: "list_all (\<lambda>l. NL \<notin> set l) (placeLines (- 1) (splitLines vtt))"
    by (rule placeLines_lines) (auto simp: list_all_iff dest: splitOn_no_sep)
  have "placeLines b ls \<noteq> []" if "ls \<noteq> []" for b ls
    using that by (cases ls) (auto split: option.split prod.split)
  then have "placeLines (- 1) (splitLines vtt) \<noteq> []" by simp
  with lines show ?thesis by (simp add: positionDialogueCues_def split_join list_all_iff)
qed

lemma positioned_twice: "positionDialogueCues (positionDialogueCues vtt) = positionDialogueCues vtt"
proof -
  have "positionDialogueCues (positionDialogueCues vtt) = joinLines (placeLines (- 1) (placeLines (- 1) (splitLines vtt)))"
    by (simp add: positionDialogueCues_def [of "positionDialogueCues vtt"] position_lines)
  also have "\<dots> = positionDialogueCues vtt"
    by (simp add: placeLines_id [OF placeLines_settled] positionDialogueCues_def)
  finally show ?thesis .
qed

text \<open>
  placing the dialogue of a subtitle file twice is placing it once, and it never
  changes a line but by appending a placement to it.
\<close>

theorem placing_dialogue_is_idempotent:
  "positionDialogueCues (positionDialogueCues vtt) = positionDialogueCues vtt
   \<and> list_all2 (\<lambda>line placed. placed \<in> {line, line @ '' line:2'', line @ '' line:-3''})
       (splitLines vtt) (splitLines (positionDialogueCues vtt))"
  by (simp add: positioned_twice position_lines placeLines_appends del: insert_iff)

end
