(* ===== verification/SubtitleFormats.thy ===== *)
theory SubtitleFormats
  imports AssVtt
begin

text \<open>
  Subtitle files beside a video (\<open>subtitleFormats.ts\<close>): what a file name says of the
  track, and the conversion of SRT, ASS and WebVTT text. The text is what the
  decoder made of the bytes; the byte decoding itself is the browser's.
\<close>

section \<open>What a file name says\<close>

definition LANGUAGE_NAMES :: "(string \<times> string) list" where
  "LANGUAGE_NAMES =
     [(''arabic'', ''ara''), (''chinese'', ''chi''), (''croatian'', ''hrv''), (''czech'', ''cze''), (''danish'', ''dan''),
      (''dutch'', ''dut''), (''english'', ''eng''), (''finnish'', ''fin''), (''french'', ''fre''), (''german'', ''ger''),
      (''greek'', ''gre''), (''hebrew'', ''heb''), (''hindi'', ''hin''), (''hungarian'', ''hun''), (''indonesian'', ''ind''),
      (''italian'', ''ita''), (''japanese'', ''jpn''), (''korean'', ''kor''), (''norwegian'', ''nor''), (''polish'', ''pol''),
      (''portuguese'', ''por''), (''romanian'', ''rum''), (''russian'', ''rus''), (''serbian'', ''srp''), (''spanish'', ''spa''),
      (''swedish'', ''swe''), (''thai'', ''tha''), (''turkish'', ''tur''), (''ukrainian'', ''ukr''), (''vietnamese'', ''vie'')]"

definition LANGUAGE_CODES :: "string list" where
  "LANGUAGE_CODES = map snd LANGUAGE_NAMES"

definition SHORT_CODES :: "(string \<times> string) list" where
  "SHORT_CODES =
     [(''ar'', ''ara''), (''cs'', ''cze''), (''da'', ''dan''), (''de'', ''ger''), (''el'', ''gre''), (''en'', ''eng''), (''es'', ''spa''),
      (''fi'', ''fin''), (''fr'', ''fre''), (''he'', ''heb''), (''hi'', ''hin''), (''hr'', ''hrv''), (''hu'', ''hun''), (''id'', ''ind''),
      (''it'', ''ita''), (''ja'', ''jpn''), (''ko'', ''kor''), (''nl'', ''dut''), (''no'', ''nor''), (''pl'', ''pol''), (''pt'', ''por''),
      (''ro'', ''rum''), (''ru'', ''rus''), (''sr'', ''srp''), (''sv'', ''swe''), (''th'', ''tha''), (''tr'', ''tur''), (''uk'', ''ukr''),
      (''vi'', ''vie''), (''zh'', ''chi'')]"

text \<open>
  A language is a string, or what \<open>record[key]\<close> finds on the prototype of every
  object: of its keys only \<open>constructor\<close> is in lower case and without an underscore.
\<close>

datatype language = Language string | InheritedConstructor

definition recordGet :: "(string \<times> string) list \<Rightarrow> string \<Rightarrow> language option" where
  "recordGet m key =
     (case map_of m key of
        Some v \<Rightarrow> Some (Language v)
      | None \<Rightarrow> if key = ''constructor'' then Some InheritedConstructor else None)"

definition isSubtitleFileName :: "string \<Rightarrow> bool" where
  "isSubtitleFileName name \<longleftrightarrow>
     lower (drop (length name - 4) name) \<in> set [''.srt'', ''.ass'', ''.ssa'', ''.vtt'', ''.sub'']"

text \<open>The words between characters of a class: \<open>split(/[..]+/).filter(Boolean)\<close>.\<close>

fun wordsOf :: "(char \<Rightarrow> bool) \<Rightarrow> string \<Rightarrow> string \<Rightarrow> string list" where
  "wordsOf sep word [] = (if word = [] then [] else [word])"
| "wordsOf sep word (c # s) =
     (if sep c then (if word = [] then [] else [word]) @ wordsOf sep [] s else wordsOf sep (word @ [c]) s)"

definition nameSeparator :: "char \<Rightarrow> bool" where
  "nameSeparator c \<longleftrightarrow> c \<in> {CHR ''.'', CHR ''_'', CHR ''('', CHR '')'', CHR ''['', CHR '']''} \<or> isSpace c"

text \<open>\<open>/^[a-z]{2}-[a-z]{2}$/i\<close>.\<close>

definition regionTagged :: "string \<Rightarrow> bool" where
  "regionTagged t \<longleftrightarrow> length t = 5 \<and> t ! 2 = CHR ''-'' \<and> isAlpha (t ! 0) \<and> isAlpha (t ! 1) \<and> isAlpha (t ! 3) \<and> isAlpha (t ! 4)"

definition nameTokens :: "string \<Rightarrow> string list" where
  "nameTokens base =
     concat (map (\<lambda>t. if regionTagged t then [t] else wordsOf (\<lambda>c. c = CHR ''-'') [] t) (wordsOf nameSeparator [] base))"

definition tokenLanguage :: "string \<Rightarrow> language \<Rightarrow> language" where
  "tokenLanguage token language =
     (let key = lower token
      in case recordGet LANGUAGE_NAMES key of
           Some l \<Rightarrow> l
         | None \<Rightarrow>
             if key \<in> set LANGUAGE_CODES then Language key
             else (case recordGet SHORT_CODES key of
                 Some l \<Rightarrow> l
               | None \<Rightarrow> if regionTagged token then Language key else language))"

text \<open>\<open>replace(/[._]+/g, ' ')\<close>.\<close>

fun dotsToSpaces :: "bool \<Rightarrow> string \<Rightarrow> string" where
  "dotsToSpaces inRun [] = []"
| "dotsToSpaces inRun (c # s) =
     (if c = CHR ''.'' \<or> c = CHR ''_'' then (if inRun then [] else '' '') @ dotsToSpaces True s
      else c # dotsToSpaces False s)"

definition subtitleIdentity :: "string \<Rightarrow> language \<times> string" where
  "subtitleIdentity path =
     (let fileName = last (splitOn CHR ''/'' path);
          base = (if isSubtitleFileName fileName then take (length fileName - 4) fileName else fileName);
          title = take 120 (trim (dotsToSpaces False base))
      in (fold tokenLanguage (nameTokens base) (Language ''und''), if title = [] then ''Subtitle'' else title))"

section \<open>Stamps\<close>

text \<open>\<open>\d{lo,hi}\<close> at the front, greedy, when no digit may follow.\<close>

definition digitsIn :: "nat \<Rightarrow> nat \<Rightarrow> string \<Rightarrow> (string \<times> string) option" where
  "digitsIn lo hi s =
     (let d = takeWhile isDigit s
      in if lo \<le> length d \<and> length d \<le> hi then Some (d, dropWhile isDigit s) else None)"

text \<open>\<open>\d{1,hi}\<close> at the front, greedy, whatever follows.\<close>

definition digitsUpTo :: "nat \<Rightarrow> string \<Rightarrow> (string \<times> string) option" where
  "digitsUpTo hi s =
     (let d = takeWhile isDigit (take hi s) in if d = [] then None else Some (d, drop (length d) s))"

record srt_stamp =
  ss_hours :: string
  ss_minutes :: string
  ss_seconds :: string
  ss_fraction :: string

text \<open>\<open>\d{1,2}:\d{2}:\d{2}[,.]\d{1,3}\<close> at the front.\<close>

definition takeSrtStamp :: "string \<Rightarrow> (srt_stamp \<times> string) option" where
  "takeSrtStamp s = do {
     (h, s) \<leftarrow> digitsIn 1 2 s;
     s \<leftarrow> stripPrefix '':'' s;
     (m, s) \<leftarrow> digitsIn 2 2 s;
     s \<leftarrow> stripPrefix '':'' s;
     (sec, s) \<leftarrow> digitsIn 2 2 s;
     s \<leftarrow> (case s of [] \<Rightarrow> None | c # r \<Rightarrow> if c = CHR '','' \<or> c = CHR ''.'' then Some r else None);
     (f, s) \<leftarrow> digitsUpTo 3 s;
     Some (\<lparr>ss_hours = h, ss_minutes = m, ss_seconds = sec, ss_fraction = f\<rparr>, s) }"

definition zero :: char where "zero = CHR ''0''"

definition normalizeSrtStamp :: "srt_stamp \<Rightarrow> string" where
  "normalizeSrtStamp s =
     padStart 2 zero (ss_hours s) @ '':'' @ ss_minutes s @ '':'' @ ss_seconds s @ ''.''
     @ take 3 (padEnd 3 zero (ss_fraction s))"

definition parseSrtTiming :: "string \<Rightarrow> string option" where
  "parseSrtTiming line = do {
     (from, s) \<leftarrow> takeSrtStamp (dropWhile isSpace line);
     s \<leftarrow> stripPrefix ''-->'' (dropWhile isSpace s);
     (to, s) \<leftarrow> takeSrtStamp (dropWhile isSpace s);
     Some (normalizeSrtStamp from @ '' --> '' @ normalizeSrtStamp to) }"

text \<open>\<open>/^(\d{1,2}):(\d{1,2}):(\d{1,2})(?:[.,](\d{1,3}))?$/\<close>, and zero for anything else.\<close>

definition assStampParts :: "string \<Rightarrow> string option" where
  "assStampParts stamp = do {
     (h, s) \<leftarrow> digitsIn 1 2 (trim stamp);
     s \<leftarrow> stripPrefix '':'' s;
     (m, s) \<leftarrow> digitsIn 1 2 s;
     s \<leftarrow> stripPrefix '':'' s;
     (sec, s) \<leftarrow> digitsIn 1 2 s;
     f \<leftarrow> (case s of
             [] \<Rightarrow> Some ''0''
           | c # r \<Rightarrow>
               if c = CHR ''.'' \<or> c = CHR '',''
               then (case digitsIn 1 3 r of Some (f, []) \<Rightarrow> Some f | _ \<Rightarrow> None) else None);
     Some (padStart 2 zero h @ '':'' @ padStart 2 zero m @ '':'' @ padStart 2 zero sec @ ''.'' @ take 3 (padEnd 3 zero f)) }"

definition normalizeAssStamp :: "string \<Rightarrow> string" where
  "normalizeAssStamp stamp = orElse (assStampParts stamp) ''00:00:00.000''"

section \<open>Converting\<close>

definition VTT_HEAD :: string where
  "VTT_HEAD = ''WEBVTT'' @ [NL, NL]"

text \<open>\<open>text.replace(/^WEBVTT[^\n]*\n/, '')\<close> on normalized text.\<close>

definition dropSignature :: "string \<Rightarrow> string" where
  "dropSignature s =
     (if startsWith s ''WEBVTT'' then
        (case indexOfChar NL s of None \<Rightarrow> s | Some i \<Rightarrow> drop (i + 1) s)
      else s)"

definition normalizeWebVTT :: "string \<Rightarrow> string" where
  "normalizeWebVTT text =
     (let body = trim (dropSignature (normalizeNewlines text))
      in if \<not> hasSub body ''-->'' then [] else VTT_HEAD @ body @ [NL])"

text \<open>The loop of \<open>srtToWebVTT\<close>: the lines kept and the number of cues.\<close>

definition srtLine :: "string \<Rightarrow> string list \<times> nat \<Rightarrow> string list \<times> nat" where
  "srtLine line st =
     (case st of (output, cues) \<Rightarrow>
        (case parseSrtTiming line of
           Some timing \<Rightarrow> (output @ [timing], cues + 1)
         | None \<Rightarrow>
             if allDigits (trim line) \<and> (output = [] \<or> last output = []) then (output, cues)
             else (output @ [line], cues)))"

definition srtToWebVTT :: "string \<Rightarrow> string" where
  "srtToWebVTT text =
     (case fold srtLine (splitLines (normalizeNewlines text)) ([], 0) of (output, cues) \<Rightarrow>
        if cues = 0 then [] else VTT_HEAD @ trim (joinLines output) @ [NL])"

text \<open>The suffixes of a text that start a line, and where the first that satisfies a test begins.\<close>

fun lineSuffixes :: "nat \<Rightarrow> bool \<Rightarrow> string \<Rightarrow> (nat \<times> string) list" where
  "lineSuffixes i atStart [] = (if atStart then [(i, [])] else [])"
| "lineSuffixes i atStart (c # s) = (if atStart then [(i, c # s)] else []) @ lineSuffixes (i + 1) (c = NL) s"

definition normalizeAssSidecar :: "string \<Rightarrow> string" where
  "normalizeAssSidecar text =
     (let normalized = normalizeNewlines text
      in case find (\<lambda>(i, s). startsWith (lower s) ''[script info]'') (lineSuffixes 0 True normalized) of
           Some (i, s) \<Rightarrow> if 0 < i then drop i normalized else normalized
         | None \<Rightarrow> normalized)"

text \<open>\<open>splitAssFields\<close>: the leading fields, and the rest whole.\<close>

fun splitAssFields :: "nat \<Rightarrow> string \<Rightarrow> string list" where
  "splitAssFields 0 rest = [rest]"
| "splitAssFields (Suc n) rest =
     (case indexOfChar CHR '','' rest of
        None \<Rightarrow> [rest]
      | Some comma \<Rightarrow> trim (take comma rest) # splitAssFields n (drop (comma + 1) rest))"

definition ASS_ORDER :: "string list" where
  "ASS_ORDER = [''layer'', ''start'', ''end'', ''style'', ''name'', ''marginl'', ''marginr'', ''marginv'', ''effect'', ''text'']"

definition column :: "string list \<Rightarrow> string list \<Rightarrow> string \<Rightarrow> string option" where
  "column order values name =
     (let index = length (takeWhile (\<lambda>c. c \<noteq> name) order)
      in if index < length order \<and> index < length values then Some (values ! index) else None)"

text \<open>\<open>/^format\s*:/i\<close> and \<open>/^dialogue\s*:/i\<close>: what follows the colon.\<close>

definition afterKey :: "string \<Rightarrow> string \<Rightarrow> string option" where
  "afterKey key line =
     (if startsWith (lower line) key then
        (case dropWhile isSpace (drop (length key) line) of
           [] \<Rightarrow> None
         | c # s \<Rightarrow> if c = CHR '':'' then Some s else None)
      else None)"

record ass_scan =
  sc_fields :: "string list option"
  sc_inEvents :: bool
  sc_cues :: "string list"

definition dialogueCue :: "ass_info \<Rightarrow> string list \<Rightarrow> string \<Rightarrow> string option" where
  "dialogueCue info order rest =
     (let values = splitAssFields (length order - 1) rest;
          (settings, text) = convertAssCue info (column order values ''style'') (orElse (column order values ''text'') [])
      in case (or_null (column order values ''start''), or_null (column order values ''end'')) of
           (Some start, Some end) \<Rightarrow>
             if text = [] then None
             else Some (normalizeAssStamp start @ '' --> '' @ normalizeAssStamp end
                        @ (if settings = [] then [] else '' '' @ settings) @ [NL] @ text @ [NL])
         | _ \<Rightarrow> None)"

definition assLine :: "ass_info \<Rightarrow> string \<Rightarrow> ass_scan \<Rightarrow> ass_scan" where
  "assLine info line s =
     (let trimmed = trim line
      in if startsWith trimmed ''['' then s\<lparr>sc_inEvents := lower trimmed = ''[events]''\<rparr>
         else if \<not> sc_inEvents s then s
         else (case afterKey ''format'' trimmed of
             Some rest \<Rightarrow> s\<lparr>sc_fields := Some (map (lower \<circ> trim) (splitOn CHR '','' rest))\<rparr>
           | None \<Rightarrow>
               (case afterKey ''dialogue'' trimmed of
                  None \<Rightarrow> s
                | Some rest \<Rightarrow>
                    (case dialogueCue info (orElse (sc_fields s) ASS_ORDER) rest of
                       None \<Rightarrow> s
                     | Some cue \<Rightarrow> s\<lparr>sc_cues := sc_cues s @ [cue]\<rparr>))))"

definition assToWebVTT :: "string \<Rightarrow> string" where
  "assToWebVTT text =
     (let normalized = normalizeNewlines text;
          s = fold (assLine (parseAssHeader normalized)) (splitLines normalized)
                \<lparr>sc_fields = None, sc_inEvents = False, sc_cues = []\<rparr>
      in if sc_cues s = [] then [] else VTT_HEAD @ joinLines (sc_cues s))"

record vtt_track =
  vt_language :: language
  vt_title :: string
  vt_vtt :: string
  vt_ass :: "string option"

definition convertSubtitleText :: "string \<Rightarrow> string \<Rightarrow> vtt_track option" where
  "convertSubtitleText path text =
     (let extension = lower (last (splitOn CHR ''.'' path));
          isAss = extension = ''ass'' \<or> extension = ''ssa'';
          vtt = (if extension = ''vtt'' then normalizeWebVTT text
                 else if isAss then assToWebVTT text
                 else if extension = ''srt'' then srtToWebVTT text
                 else if extension = ''sub'' \<and> hasSub text ''-->'' then srtToWebVTT text
                 else [])
      in if vtt = [] then None
         else
           let (language, title) = subtitleIdentity path
           in Some \<lparr>vt_language = language, vt_title = title, vt_vtt = positionDialogueCues vtt,
                    vt_ass = (if isAss then Some (normalizeAssSidecar text) else None)\<rparr>)"

section \<open>Stamps a player reads\<close>

lemma digit_not_colon: "list_all isDigit s \<Longrightarrow> CHR '':'' \<notin> set s"
  by (auto simp: list_all_iff isDigit_def codeOf_def)

lemma secondsPart_read:
  assumes "length sec = 2" "length f = 3" "list_all isDigit sec" "list_all isDigit f"
  shows "secondsPart (sec @ ''.'' @ f) = Some (int (num sec) * 1000 + int (num f))"
  using assms by (simp add: secondsPart_def nth_append)

lemma parseVttStamp_read:
  assumes "h \<noteq> []" "length m = 2" "length sec = 2" "length f = 3"
    and "list_all isDigit h" "list_all isDigit m" "list_all isDigit sec" "list_all isDigit f"
  shows "parseVttStamp (h @ '':'' @ m @ '':'' @ sec @ ''.'' @ f)
    = Some ((int (num h) * 60 + int (num m)) * 60000 + int (num sec) * 1000 + int (num f))"
proof -
  have "CHR '':'' \<notin> set (sec @ ''.'' @ f)" using assms(7,8) by (auto dest: digit_not_colon)
  then have "splitOn CHR '':'' (h @ '':'' @ m @ '':'' @ sec @ ''.'' @ f) = [h, m, sec @ ''.'' @ f]"
    using assms(5,6) by (simp add: digit_not_colon splitOn_append splitOn_single)
  then show ?thesis using assms secondsPart_read [of sec f] by (auto simp: parseVttStamp_def allDigits_def)
qed

lemma digitsIn_Some: "digitsIn lo hi s = Some (d, r) \<Longrightarrow> list_all isDigit d \<and> lo \<le> length d \<and> length d \<le> hi"
  by (auto simp: digitsIn_def Let_def list_all_iff dest: set_takeWhileD split: if_splits)

lemma digitsUpTo_Some: "digitsUpTo hi s = Some (d, r) \<Longrightarrow> list_all isDigit d \<and> d \<noteq> [] \<and> length d \<le> hi"
proof -
  assume "digitsUpTo hi s = Some (d, r)"
  then have d: "d = takeWhile isDigit (take hi s)" "d \<noteq> []" by (auto simp: digitsUpTo_def Let_def split: if_splits)
  then have "length d \<le> hi" using length_takeWhile_le [of isDigit "take hi s"] by simp
  with d show ?thesis by (auto simp: list_all_iff dest: set_takeWhileD)
qed

lemma pad_zero:
  "list_all isDigit d \<Longrightarrow> list_all isDigit (padStart n zero d)"
  "list_all isDigit d \<Longrightarrow> list_all isDigit (take k (padEnd n zero d))"
  "length d \<le> 2 \<Longrightarrow> length (padStart 2 zero d) = 2"
  "length (take 3 (padEnd 3 zero d)) = 3"
proof -
  have "isDigit zero" by (simp add: zero_def isDigit_def codeOf_def)
  then show "list_all isDigit d \<Longrightarrow> list_all isDigit (padStart n zero d)"
    "list_all isDigit d \<Longrightarrow> list_all isDigit (take k (padEnd n zero d))"
    by (auto simp: padStart_def padEnd_def list_all_iff in_set_replicate dest!: in_set_takeD)
qed (simp_all add: padEnd_def)

definition stampOk :: "srt_stamp \<Rightarrow> bool" where
  "stampOk s \<longleftrightarrow>
     list_all isDigit (ss_hours s) \<and> ss_hours s \<noteq> [] \<and> length (ss_hours s) \<le> 2
   \<and> list_all isDigit (ss_minutes s) \<and> length (ss_minutes s) = 2
   \<and> list_all isDigit (ss_seconds s) \<and> length (ss_seconds s) = 2
   \<and> list_all isDigit (ss_fraction s)"

lemma takeSrtStamp_ok: "takeSrtStamp s = Some (stamp, r) \<Longrightarrow> stampOk stamp"
  unfolding takeSrtStamp_def stampOk_def
  by (auto simp: bind_eq_Some_conv dest!: digitsIn_Some digitsUpTo_Some split: prod.splits)

text \<open>The milliseconds a stamp means.\<close>

definition stampMs :: "srt_stamp \<Rightarrow> int" where
  "stampMs s =
     (int (num (ss_hours s)) * 60 + int (num (ss_minutes s))) * 60000 + int (num (ss_seconds s)) * 1000
     + int (num (take 3 (padEnd 3 zero (ss_fraction s))))"

lemma parse_normalized:
  assumes "stampOk s"
  shows "parseVttStamp (normalizeSrtStamp s) = Some (stampMs s)"
proof -
  have "num (padStart 2 zero (ss_hours s)) = num (ss_hours s)"
  proof -
    have "zero = digitChar 0" unfolding codeOf_inject [symmetric] by (simp add: zero_def digitChar_def codeOf_def [of "CHR ''0''"])
    then show ?thesis by (metis num_padStart)
  qed
  moreover have "padStart 2 zero (ss_hours s) \<noteq> []" using assms by (auto simp: stampOk_def padStart_def)
  ultimately show ?thesis
    using assms parseVttStamp_read [of "padStart 2 zero (ss_hours s)" "ss_minutes s" "ss_seconds s" "take 3 (padEnd 3 zero (ss_fraction s))"]
    by (simp add: normalizeSrtStamp_def stampMs_def stampOk_def pad_zero del: length_take)
qed

lemma normalized_chars:
  assumes "stampOk s"
  shows "CHR ''-'' \<notin> set (normalizeSrtStamp s)" and "list_all (\<lambda>c. \<not> isSpace c) (normalizeSrtStamp s)"
    and "normalizeSrtStamp s \<noteq> []"
proof -
  have digits: "list_all isDigit (padStart 2 zero (ss_hours s))" "list_all isDigit (ss_minutes s)"
    "list_all isDigit (ss_seconds s)" "list_all isDigit (take 3 (padEnd 3 zero (ss_fraction s)))"
    using assms by (simp_all add: stampOk_def pad_zero)
  have d: "list_all isDigit w \<Longrightarrow> CHR ''-'' \<notin> set w \<and> list_all (\<lambda>c. \<not> isSpace c) w" for w
    by (auto simp: list_all_iff isDigit_def isSpace_def codeOf_def)
  show "CHR ''-'' \<notin> set (normalizeSrtStamp s)" using digits d by (auto simp: normalizeSrtStamp_def)
  have "\<not> isSpace CHR '':''" "\<not> isSpace CHR ''.''" by (simp_all add: isSpace_def codeOf_def)
  then show "list_all (\<lambda>c. \<not> isSpace c) (normalizeSrtStamp s)" using digits d by (auto simp: normalizeSrtStamp_def)
  show "normalizeSrtStamp s \<noteq> []" by (simp add: normalizeSrtStamp_def)
qed

lemma spaceRuns_word: "list_all (\<lambda>c. \<not> isSpace c) w \<Longrightarrow> w \<noteq> [] \<Longrightarrow> spaceRuns w = [w]"
proof (induction w)
  case (Cons c w)
  then show ?case by (cases w) auto
qed simp

lemma indexOf_arrow: "CHR ''-'' \<notin> set w \<Longrightarrow> indexOf ''-->'' (w @ ''-->'' @ t) = Some (length w)"
  by (induction w) (auto simp: startsWith_def)

lemma plainCue_timing:
  assumes "stampOk from" and "stampOk to"
  shows "plainCue (normalizeSrtStamp from @ '' --> '' @ normalizeSrtStamp to) = Some (stampMs from, stampMs to)"
proof -
  have arrow: "indexOf ''-->'' (normalizeSrtStamp from @ '' --> '' @ normalizeSrtStamp to)
      = Some (length (normalizeSrtStamp from) + 1)"
    using indexOf_arrow [of "normalizeSrtStamp from @ '' ''" "'' '' @ normalizeSrtStamp to"] normalized_chars(1) [OF assms(1)]
    by simp
  have trimmed: "trim (normalizeSrtStamp from @ '' '') = normalizeSrtStamp from"
  proof -
    note chars = normalized_chars(2,3) [OF assms(1)]
    then have "trimEnd (normalizeSrtStamp from) = normalizeSrtStamp from"
      by (intro trimEnd_id) (auto simp: list_all_iff)
    moreover have "trimEnd (s @ '' '') = trimEnd s" for s by (simp add: trimEnd_def isSpace_def codeOf_def)
    moreover have "dropWhile isSpace (normalizeSrtStamp from @ '' '') = normalizeSrtStamp from @ '' ''"
      using chars by (cases "normalizeSrtStamp from") auto
    ultimately show ?thesis by (simp add: trim_def)
  qed
  have runs: "spaceRuns (CHR '' '' # normalizeSrtStamp to) = [normalizeSrtStamp to]"
    using spaceRuns_word normalized_chars(2,3) [OF assms(2)] by (simp add: isSpace_def codeOf_def)
  have parts: "take (length (normalizeSrtStamp from) + 1) (normalizeSrtStamp from @ '' --> '' @ normalizeSrtStamp to)
      = normalizeSrtStamp from @ '' ''"
    "drop (length (normalizeSrtStamp from) + 1 + 3) (normalizeSrtStamp from @ '' --> '' @ normalizeSrtStamp to)
      = CHR '' '' # normalizeSrtStamp to"
    by simp_all
  show ?thesis
    unfolding plainCue_def arrow option.case parts trimmed runs list.case
    using parse_normalized [OF assms(1)] parse_normalized [OF assms(2)] by simp
qed

section \<open>Properties\<close>

text \<open>
  a timing line of an SRT file becomes a WebVTT timing line that the placing
  pass reads back as the same two moments, to the millisecond, however the hours
  and the fraction were written.
\<close>

theorem srt_timing_reads_back:
  assumes "takeSrtStamp (dropWhile isSpace line) = Some (from, r)"
    and "stripPrefix ''-->'' (dropWhile isSpace r) = Some r'"
    and "takeSrtStamp (dropWhile isSpace r') = Some (to, r'')"
  shows "Option.bind (parseSrtTiming line) plainCue = Some (stampMs from, stampMs to)"
  using assms plainCue_timing [OF takeSrtStamp_ok [OF assms(1)] takeSrtStamp_ok [OF assms(3)]]
  by (simp add: parseSrtTiming_def)

theorem srt_timing_reads_back_witness:
  "Option.bind (parseSrtTiming ''1:02:03,5 -->01:02:04.25 X1:0'') plainCue = Some (3723500, 3724250)"
proof -
  have stamps: "takeSrtStamp (dropWhile isSpace ''1:02:03,5 -->01:02:04.25 X1:0'')
      = Some (\<lparr>ss_hours = ''1'', ss_minutes = ''02'', ss_seconds = ''03'', ss_fraction = ''5''\<rparr>, '' -->01:02:04.25 X1:0'')"
    "stripPrefix ''-->'' (dropWhile isSpace '' -->01:02:04.25 X1:0'') = Some ''01:02:04.25 X1:0''"
    "takeSrtStamp (dropWhile isSpace ''01:02:04.25 X1:0'')
      = Some (\<lparr>ss_hours = ''01'', ss_minutes = ''02'', ss_seconds = ''04'', ss_fraction = ''25''\<rparr>, '' X1:0'')"
    by code_simp+
  have ms: "stampMs \<lparr>ss_hours = ''1'', ss_minutes = ''02'', ss_seconds = ''03'', ss_fraction = ''5''\<rparr> = 3723500"
    "stampMs \<lparr>ss_hours = ''01'', ss_minutes = ''02'', ss_seconds = ''04'', ss_fraction = ''25''\<rparr> = 3724250"
    by code_simp+
  from srt_timing_reads_back [OF stamps] show ?thesis unfolding ms .
qed

definition readable :: "string \<Rightarrow> bool" where
  "readable t \<longleftrightarrow> parseVttStamp t \<noteq> None"

lemma readable_padded:
  assumes "list_all isDigit h" "list_all isDigit m" "list_all isDigit sec" "list_all isDigit f"
    "length h \<le> 2" "length m \<le> 2" "length sec \<le> 2"
  shows "readable (padStart 2 zero h @ '':'' @ padStart 2 zero m @ '':'' @ padStart 2 zero sec @ ''.'' @ take 3 (padEnd 3 zero f))"
proof -
  have "length (padStart 2 zero h) \<noteq> 0" by simp
  then have "padStart 2 zero h \<noteq> []" by (metis list.size(3))
  then show ?thesis
    using parseVttStamp_read [of "padStart 2 zero h" "padStart 2 zero m" "padStart 2 zero sec" "take 3 (padEnd 3 zero f)"] assms
    by (simp add: readable_def pad_zero del: length_take)
qed

lemma assStampParts_readable:
  assumes "assStampParts stamp = Some t"
  shows "readable t"
proof -
  obtain h s where h: "digitsIn (Suc 0) 2 (trim stamp) = Some (h, s)"
    using assms by (auto simp: assStampParts_def bind_eq_Some_conv)
  obtain s' where s': "stripPrefix '':'' s = Some s'" using assms by (auto simp: assStampParts_def bind_eq_Some_conv h)
  obtain m u where m: "digitsIn (Suc 0) 2 s' = Some (m, u)" using assms by (auto simp: assStampParts_def bind_eq_Some_conv h s')
  obtain u' where u': "stripPrefix '':'' u = Some u'" using assms by (auto simp: assStampParts_def bind_eq_Some_conv h s' m)
  obtain sec v where sec: "digitsIn (Suc 0) 2 u' = Some (sec, v)"
    using assms by (auto simp: assStampParts_def bind_eq_Some_conv h s' m u')
  obtain f where f: "list_all isDigit f"
      "t = padStart 2 zero h @ '':'' @ padStart 2 zero m @ '':'' @ padStart 2 zero sec @ ''.'' @ take 3 (padEnd 3 zero f)"
  proof (cases v)
    case Nil
    have "list_all isDigit ''0''" by code_simp
    moreover have "t = padStart 2 zero h @ '':'' @ padStart 2 zero m @ '':'' @ padStart 2 zero sec @ ''.'' @ take 3 (padEnd 3 zero ''0'')"
      using assms by (simp add: assStampParts_def h s' m u' sec Nil)
    ultimately show ?thesis by (rule that)
  next
    case (Cons c r)
    then obtain f where "digitsIn (Suc 0) 3 r = Some (f, [])"
        "t = padStart 2 zero h @ '':'' @ padStart 2 zero m @ '':'' @ padStart 2 zero sec @ ''.'' @ take 3 (padEnd 3 zero f)"
      using assms by (auto simp: assStampParts_def h s' m u' sec split: if_splits option.splits list.splits prod.splits)
    with that show ?thesis by (auto dest: digitsIn_Some)
  qed
  show ?thesis
    unfolding f(2) using digitsIn_Some [OF h] digitsIn_Some [OF m] digitsIn_Some [OF sec] f(1)
    by (intro readable_padded) auto
qed

text \<open>
  whatever stands where an ASS script should have a time, the stamp written is
  one a player reads.
\<close>

theorem ass_stamp_always_reads:
  "parseVttStamp (normalizeAssStamp stamp) \<noteq> None"
proof (cases "assStampParts stamp")
  case None
  have "parseVttStamp ''00:00:00.000'' \<noteq> None" by code_simp
  with None show ?thesis by (simp add: normalizeAssStamp_def)
next
  case (Some t)
  with assStampParts_readable show ?thesis by (simp add: normalizeAssStamp_def readable_def)
qed

lemma splitLines_head: "splitLines (VTT_HEAD @ s) = ''WEBVTT'' # [] # splitLines s"
  by (simp add: VTT_HEAD_def NL_def)

lemma positioned_head: "\<exists>s'. positionDialogueCues (VTT_HEAD @ s) = VTT_HEAD @ s'"
proof -
  have none: "plainCue ''WEBVTT'' = None" "plainCue [] = None" by code_simp+
  obtain l ls where "placeLines (- 1) (splitLines s) = l # ls"
    by (cases "splitLines s"; cases "placeLines (- 1) (splitLines s)") (auto split: option.splits prod.splits if_splits)
  then have "positionDialogueCues (VTT_HEAD @ s) = joinLines (''WEBVTT'' # [] # l # ls)"
    unfolding positionDialogueCues_def splitLines_head by (simp add: none)
  then show ?thesis by (simp add: VTT_HEAD_def)
qed

lemma converters_head:
  "normalizeWebVTT text = [] \<or> (\<exists>s. normalizeWebVTT text = VTT_HEAD @ s)"
  "srtToWebVTT text = [] \<or> (\<exists>s. srtToWebVTT text = VTT_HEAD @ s)"
  "assToWebVTT text = [] \<or> (\<exists>s. assToWebVTT text = VTT_HEAD @ s)"
  by (auto simp: normalizeWebVTT_def srtToWebVTT_def assToWebVTT_def Let_def split: prod.split)

text \<open>
  a subtitle file that converts yields a WebVTT file with its signature, whose
  dialogue is placed once and for all, and a script alongside exactly for ASS.
\<close>

theorem converted_track_is_webvtt:
  assumes "convertSubtitleText path text = Some track"
  shows "(\<exists>s. vt_vtt track = VTT_HEAD @ s) \<and> positionDialogueCues (vt_vtt track) = vt_vtt track
    \<and> (vt_ass track \<noteq> None \<longleftrightarrow> lower (last (splitOn CHR ''.'' path)) \<in> {''ass'', ''ssa''})"
proof -
  obtain v where v: "v \<noteq> []" "vt_vtt track = positionDialogueCues v"
      "v = normalizeWebVTT text \<or> v = srtToWebVTT text \<or> v = assToWebVTT text"
    using assms by (auto simp: convertSubtitleText_def Let_def split: if_splits prod.splits)
  then have "\<exists>s. v = VTT_HEAD @ s" using converters_head [of "text"] by auto
  then have "\<exists>s. vt_vtt track = VTT_HEAD @ s" using v(2) positioned_head by auto
  moreover have "positionDialogueCues (vt_vtt track) = vt_vtt track" using v(2) positioned_twice by simp
  moreover have "vt_ass track \<noteq> None \<longleftrightarrow> lower (last (splitOn CHR ''.'' path)) \<in> {''ass'', ''ssa''}"
    using assms by (auto simp: convertSubtitleText_def Let_def split: if_splits prod.splits)
  ultimately show ?thesis by blast
qed

definition sampleSrt :: string where
  "sampleSrt = ''1'' @ [CR, NL] @ ''00:00:01,5 --> 00:00:03,000'' @ [CR, NL] @ ''Hello'' @ [CR, NL]"

theorem converted_track_is_webvtt_witness:
  "positionDialogueCues (VTT_HEAD @ ''00:00:01.500 --> 00:00:03.000 line:-3'' @ [NL] @ ''Hello'' @ [NL])
   = VTT_HEAD @ ''00:00:01.500 --> 00:00:03.000 line:-3'' @ [NL] @ ''Hello'' @ [NL]"
proof -
  have converts: "convertSubtitleText ''Movie.pt-BR.srt'' sampleSrt
      = Some \<lparr>vt_language = Language ''pt-br'', vt_title = ''Movie pt-BR'',
          vt_vtt = VTT_HEAD @ ''00:00:01.500 --> 00:00:03.000 line:-3'' @ [NL] @ ''Hello'' @ [NL], vt_ass = None\<rparr>"
    by code_simp
  from converted_track_is_webvtt [OF converts] show ?thesis by simp
qed

text \<open>
  a file named after a constructor gets a function for its language: the table
  of names is a plain object, and looking the word up finds what every object
  inherits, where the track's language should be undetermined.
\<close>

theorem constructor_is_no_language:
  "fst (subtitleIdentity ''Movie.constructor.srt'') = InheritedConstructor
   \<and> fst (subtitleIdentity ''Movie.builder.srt'') = Language ''und''"
  by code_simp

end
