(* ===== verification/AssDoc.thy ===== *)
theory AssDoc
  imports SubtitleFormats
begin

text \<open>
  The ASS document rebuilt from a Matroska track (\<open>assDoc.ts\<close>) and the font
  attachments that go with it. A cue's optional fields are options, its times
  milliseconds.
\<close>

record ass_cue =
  ac_layer :: "string option"
  ac_style :: "string option"
  ac_name :: "string option"
  ac_marginL :: "string option"
  ac_marginR :: "string option"
  ac_marginV :: "string option"
  ac_effect :: "string option"
  ac_text :: string
  ac_time :: rat
  ac_duration :: rat

definition EVENTS_FORMAT :: string where
  "EVENTS_FORMAT = ''Format: Layer, Start, End, Style, Name, MarginL, MarginR, MarginV, Effect, Text''"

definition pad2 :: "nat \<Rightarrow> string" where
  "pad2 v = padStart 2 zero (dec v)"

definition formatAssTime :: "rat \<Rightarrow> string" where
  "formatAssTime ms =
     (let clamped = nat (max 0 (js_round (ms / 10)));
          cs = clamped mod 100;
          totalSeconds = clamped div 100
      in dec (totalSeconds div 3600) @ '':'' @ pad2 (totalSeconds div 60 mod 60) @ '':'' @ pad2 (totalSeconds mod 60)
         @ ''.'' @ pad2 cs)"

text \<open>\<open>replace(/[\r\n]/g, ' ')\<close>.\<close>

definition breaksToSpaces :: "string \<Rightarrow> string" where
  "breaksToSpaces s = map (\<lambda>c. if c = CR \<or> c = NL then CHR '' '' else c) s"

definition safeField :: "string option \<Rightarrow> string \<Rightarrow> string" where
  "safeField value fallback =
     (let v = trim (orElse value [])
      in if v = [] then fallback else breaksToSpaces (replaceChar CHR '','' '';'' v))"

text \<open>\<open>/^-?\d+$/\<close>.\<close>

definition wholeNumber :: "string \<Rightarrow> bool" where
  "wholeNumber v \<longleftrightarrow> (case v of [] \<Rightarrow> False | c # r \<Rightarrow> if c = CHR ''-'' then allDigits r else allDigits v)"

definition numField :: "string option \<Rightarrow> string \<Rightarrow> string" where
  "numField value fallback = (let v = trim (orElse value []) in if wholeNumber v then v else fallback)"

definition DEFAULT_HEAD :: string where
  "DEFAULT_HEAD = ''[Script Info]'' @ [NL] @ ''ScriptType: v4.00+'' @ [NL] @ ''PlayResX: 384'' @ [NL] @ ''PlayResY: 288''"

text \<open>\<open>/^\s*\[events\]\s*$/im\<close>: a line that says only that.\<close>

definition hasEvents :: "string \<Rightarrow> bool" where
  "hasEvents head \<longleftrightarrow> list_ex (\<lambda>l. lower (trim l) = ''[events]'') (splitLines head)"

text \<open>What starts at the last \<open>[events]\<close>, as the \<open>slice\<close> at \<open>lastIndexOf\<close> takes it.\<close>

fun lastEvents :: "string \<Rightarrow> string option" where
  "lastEvents [] = None"
| "lastEvents (c # s) =
     (case lastEvents s of
        Some t \<Rightarrow> Some t
      | None \<Rightarrow> if startsWith (lower (c # s)) ''[events]'' then Some (c # s) else None)"

text \<open>\<open>/^\s*format\s*:/im\<close>, where the white space may cross lines.\<close>

definition hasFormat :: "string \<Rightarrow> bool" where
  "hasFormat s \<longleftrightarrow> list_ex (\<lambda>(i, u). afterKey ''format'' (dropWhile isSpace u) \<noteq> None) (lineSuffixes 0 True s)"

definition dialogueFields :: "ass_cue \<Rightarrow> string list" where
  "dialogueFields cue =
     [numField (ac_layer cue) ''0'', formatAssTime (ac_time cue), formatAssTime (ac_time cue + ac_duration cue),
      safeField (ac_style cue) ''Default'', safeField (ac_name cue) [], numField (ac_marginL cue) ''0'',
      numField (ac_marginR cue) ''0'', numField (ac_marginV cue) ''0'', safeField (ac_effect cue) []]"

definition cueText :: "ass_cue \<Rightarrow> string" where
  "cueText cue = trim (breaksToSpaces (ac_text cue))"

definition dialogueLine :: "ass_cue \<Rightarrow> string" where
  "dialogueLine cue = ''Dialogue: '' @ concat (map (\<lambda>f. f @ '','') (dialogueFields cue)) @ cueText cue"

definition headLines :: "string \<Rightarrow> string list" where
  "headLines header =
     (let head = trimEnd (normalizeNewlines header);
          head = (if head = [] then DEFAULT_HEAD else head)
      in if \<not> hasEvents head then [head, [], ''[Events]'', EVENTS_FORMAT]
         else if \<not> hasFormat (orElse (lastEvents head) (drop (length head - 1) head)) then [head, EVENTS_FORMAT]
         else [head])"

definition buildAssDocument :: "string \<Rightarrow> ass_cue list \<Rightarrow> string" where
  "buildAssDocument header cues =
     joinLines (headLines header
       @ map dialogueLine (filter (\<lambda>c. cueText c \<noteq> []) (sort_by (\<lambda>a b. ac_time a \<le> ac_time b) cues))) @ [NL]"

section \<open>Fonts\<close>

definition FONT_MIMES :: "string list" where
  "FONT_MIMES =
     [''font/ttf'', ''font/otf'', ''font/sfnt'', ''font/woff'', ''font/woff2'', ''font/collection'',
      ''application/x-truetype-font'', ''application/x-font-ttf'', ''application/x-font-otf'',
      ''application/vnd.ms-opentype'', ''application/font-sfnt'', ''application/x-font'']"

definition fontExtension :: "string \<Rightarrow> bool" where
  "fontExtension name \<longleftrightarrow> list_ex (endsWith (lower name)) [''.ttf'', ''.otf'', ''.ttc'', ''.woff'', ''.woff2'']"

definition isFontAttachment :: "string option \<Rightarrow> string option \<Rightarrow> bool" where
  "isFontAttachment filename mimetype \<longleftrightarrow>
     trim (hd (splitOn CHR '';'' (lower (orElse mimetype [])))) \<in> set FONT_MIMES
   \<or> fontExtension (orElse filename [])"

section \<open>Reading a line back\<close>

lemma indexOfChar_append: "c \<notin> set w \<Longrightarrow> indexOfChar c (w @ c # s) = Some (length w)"
proof -
  assume "c \<notin> set w"
  then have "takeWhile (\<lambda>x. x \<noteq> c) (w @ c # s) = w" by (induction w) auto
  then show ?thesis by (simp add: indexOfChar_def)
qed

lemma splitAssFields_read:
  "list_all (\<lambda>f. CHR '','' \<notin> set f \<and> trim f = f) fs \<Longrightarrow>
   splitAssFields (length fs) (concat (map (\<lambda>f. f @ '','') fs) @ rest) = fs @ [rest]"
  by (induction fs) (simp_all add: indexOfChar_append)

lemma breaks_set: "set (breaksToSpaces s) \<subseteq> insert (CHR '' '') (set s)"
  by (auto simp: breaksToSpaces_def)

lemma isSpace_breaks: "isSpace CR" "isSpace NL"
  by (simp_all add: isSpace_def codeOf_def CR_def NL_def)

lemma trim_breaks: "trim v = v \<Longrightarrow> trim (breaksToSpaces v) = breaksToSpaces v"
proof -
  assume id: "trim v = v"
  show ?thesis
  proof (cases "v = []")
    case True
    then show ?thesis by (simp add: breaksToSpaces_def)
  next
    case False
    with id have "\<not> isSpace (hd v)" "\<not> isSpace (last v)" using hd_trim [of v] last_trim [of v] by auto
    with False isSpace_breaks have "\<not> isSpace (hd (breaksToSpaces v))" "\<not> isSpace (last (breaksToSpaces v))"
      by (auto simp: breaksToSpaces_def hd_map last_map)
    then show ?thesis by (intro trim_id) simp
  qed
qed

lemma trim_semicolons: "trim v = v \<Longrightarrow> trim (replaceChar CHR '','' '';'' v) = replaceChar CHR '','' '';'' v"
proof -
  assume id: "trim v = v"
  have as_map: "replaceChar CHR '','' '';'' v = map (\<lambda>c. if c = CHR '','' then CHR '';'' else c) v"
    by (induction v) auto
  show ?thesis
  proof (cases "v = []")
    case False
    with id have "\<not> isSpace (hd v)" "\<not> isSpace (last v)" using hd_trim [of v] last_trim [of v] by auto
    moreover have "\<not> isSpace CHR '';''" by (simp add: isSpace_def codeOf_def)
    ultimately show ?thesis unfolding as_map using False by (intro trim_id) (auto simp: hd_map last_map)
  qed simp
qed

lemma safeField_ok:
  assumes "CHR '','' \<notin> set fallback" and "trim fallback = fallback"
  shows "CHR '','' \<notin> set (safeField value fallback) \<and> trim (safeField value fallback) = safeField value fallback"
proof -
  let ?v = "trim (orElse value [])"
  have "CHR '','' \<notin> set (breaksToSpaces (replaceChar CHR '','' '';'' ?v))"
    by (auto simp: breaksToSpaces_def replaceChar_def split: if_splits)
  moreover have "trim (breaksToSpaces (replaceChar CHR '','' '';'' ?v)) = breaksToSpaces (replaceChar CHR '','' '';'' ?v)"
    by (intro trim_breaks trim_semicolons) simp
  ultimately show ?thesis using assms by (simp add: safeField_def Let_def)
qed

lemma numberish_ok:
  assumes "list_all (\<lambda>c. isDigit c \<or> c = CHR ''-'' \<or> c = CHR '':'' \<or> c = CHR ''.'') s"
  shows "CHR '','' \<notin> set s \<and> trim s = s"
proof -
  have "\<not> isDigit CHR '',''" by (simp add: isDigit_def codeOf_def)
  then have "CHR '','' \<notin> set s" using assms by (auto simp: list_all_iff)
  moreover have "\<not> isSpace c" if "c \<in> set s" for c
    using assms that by (auto simp: list_all_iff isDigit_def isSpace_def codeOf_def)
  then have "trim s = s" by (intro trim_id) auto
  ultimately show ?thesis ..
qed

lemma numField_ok: "CHR '','' \<notin> set (numField value ''0'') \<and> trim (numField value ''0'') = numField value ''0''"
proof (rule numberish_ok)
  show "list_all (\<lambda>c. isDigit c \<or> c = CHR ''-'' \<or> c = CHR '':'' \<or> c = CHR ''.'') (numField value ''0'')"
    by (auto simp: numField_def Let_def wholeNumber_def allDigits_def list_all_iff isDigit_def codeOf_def
        split: list.splits if_splits)
qed

lemma formatAssTime_ok: "CHR '','' \<notin> set (formatAssTime ms) \<and> trim (formatAssTime ms) = formatAssTime ms"
proof (rule numberish_ok)
  have "list_all isDigit (pad2 n)" for n
    unfolding pad2_def by (rule pad_zero(1)) simp
  moreover have "list_all isDigit (dec n)" for n by simp
  ultimately show "list_all (\<lambda>c. isDigit c \<or> c = CHR ''-'' \<or> c = CHR '':'' \<or> c = CHR ''.'') (formatAssTime ms)"
    by (auto simp: formatAssTime_def Let_def list_all_iff)
qed

lemma dialogueFields_ok: "list_all (\<lambda>f. CHR '','' \<notin> set f \<and> trim f = f) (dialogueFields cue)"
proof -
  have "trim ''Default'' = ''Default''" by (rule trim_id) (simp add: isSpace_def codeOf_def)
  then show ?thesis
    using safeField_ok [of "''Default''"] safeField_ok [of "[]"] numField_ok formatAssTime_ok
    by (simp add: dialogueFields_def)
qed

lemma trim_space_Cons: "trim f = f \<Longrightarrow> trim (CHR '' '' # f) = f"
  by (simp add: trim_def isSpace_def [of "CHR '' ''"] codeOf_def [of "CHR '' ''"])

lemma trimmed_line:
  assumes "cueText cue \<noteq> []"
  shows "trim (dialogueLine cue) = dialogueLine cue"
proof -
  have "\<not> isSpace (last (cueText cue))" using assms by (simp add: cueText_def last_trim)
  then have "\<not> isSpace (last (dialogueLine cue))" using assms by (simp add: dialogueLine_def)
  moreover have "\<not> isSpace (hd (dialogueLine cue))" by (simp add: dialogueLine_def isSpace_def codeOf_def)
  ultimately show ?thesis by (intro trim_id) simp
qed

section \<open>Properties\<close>

text \<open>
  C40: a dialogue line reads back: the reader of ASS files finds in it exactly the
  nine fields that were written and the whole text, commas and all.
\<close>

theorem dialogue_line_reads_back:
  assumes "cueText cue \<noteq> []"
  shows "map_option (splitAssFields (length ASS_ORDER - 1)) (afterKey ''dialogue'' (trim (dialogueLine cue)))
    = Some (dialogueFields cue @ [cueText cue])"
proof -
  obtain f fs where fs: "dialogueFields cue = f # fs" "length fs = 8" by (simp add: dialogueFields_def)
  have lower: "lower (dialogueLine cue) = ''dialogue: '' @ lower (drop 10 (dialogueLine cue))"
  proof -
    have "lower ''Dialogue: '' = ''dialogue: ''" by code_simp
    moreover have "lower (x @ y) = lower x @ lower y" for x y by (simp add: lower_def)
    ultimately show ?thesis by (simp add: dialogueLine_def del: append_Cons)
  qed
  have key: "afterKey ''dialogue'' (dialogueLine cue)
      = Some (CHR '' '' # concat (map (\<lambda>f. f @ '','') (f # fs)) @ cueText cue)"
    unfolding afterKey_def startsWith_def lower by (simp add: dialogueLine_def fs isSpace_def codeOf_def)
  have ok: "CHR '','' \<notin> set f" "trim f = f" "list_all (\<lambda>f. CHR '','' \<notin> set f \<and> trim f = f) fs"
    using dialogueFields_ok [of cue] by (simp_all add: fs)
  have "indexOfChar CHR '','' (CHR '' '' # f @ CHR '','' # concat (map (\<lambda>f. f @ '','') fs) @ cueText cue) = Some (Suc (length f))"
    using indexOfChar_append [of "CHR '',''" "CHR '' '' # f"] ok(1) by simp
  then have "splitAssFields 9 (CHR '' '' # concat (map (\<lambda>f. f @ '','') (f # fs)) @ cueText cue)
      = f # splitAssFields 8 (concat (map (\<lambda>f. f @ '','') fs) @ cueText cue)"
    using trim_space_Cons [OF ok(2)] by (simp add: eval_nat_numeral)
  also have "splitAssFields 8 (concat (map (\<lambda>f. f @ '','') fs) @ cueText cue) = fs @ [cueText cue]"
    using splitAssFields_read [OF ok(3), of "cueText cue"] fs(2) by simp
  finally have fields: "splitAssFields 9 (CHR '' '' # concat (map (\<lambda>f. f @ '','') (f # fs)) @ cueText cue)
      = dialogueFields cue @ [cueText cue]"
    by (simp add: fs)
  have length: "length ASS_ORDER - 1 = 9" by (simp add: ASS_ORDER_def)
  show ?thesis unfolding trimmed_line [OF assms] key length option.map fields ..
qed

definition sampleCue :: ass_cue where
  "sampleCue =
     \<lparr>ac_layer = None, ac_style = Some ''Main, big'', ac_name = None, ac_marginL = Some ''12'', ac_marginR = Some ''x'',
      ac_marginV = None, ac_effect = None, ac_text = ''Well, hello'', ac_time = 120, ac_duration = 50\<rparr>"

theorem dialogue_line_reads_back_witness:
  "map_option (splitAssFields 9) (afterKey ''dialogue'' (trim (dialogueLine sampleCue)))
   = Some [''0'', ''0:00:00.12'', ''0:00:00.17'', ''Main; big'', [], ''12'', ''0'', ''0'', [], ''Well, hello'']"
proof -
  have "cueText sampleCue \<noteq> []" by code_simp
  note reads = dialogue_line_reads_back [OF this]
  have length: "length ASS_ORDER - 1 = 9" by (simp add: ASS_ORDER_def)
  have fields: "dialogueFields sampleCue @ [cueText sampleCue]
      = [''0'', ''0:00:00.12'', ''0:00:00.17'', ''Main; big'', [], ''12'', ''0'', ''0'', [], ''Well, hello'']"
    by code_simp
  show ?thesis using reads unfolding length fields .
qed

lemma zero_digitChar: "zero = digitChar 0"
  unfolding codeOf_inject [symmetric] by (simp add: zero_def digitChar_def codeOf_def [of "CHR ''0''"])

lemma num_pad2 [simp]: "num (pad2 n) = n"
  unfolding pad2_def zero_digitChar by simp

lemma pad2_digits: "n < 100 \<Longrightarrow> length (pad2 n) = 2" "list_all isDigit (pad2 n)"
proof -
  assume "n < 100"
  then have "length (dec n) \<le> 2" using length_dec_le [of n 2] by simp
  then show "length (pad2 n) = 2" unfolding pad2_def by (rule pad_zero(3))
qed (simp add: pad2_def pad_zero)

lemma digitsIn_read:
  assumes "list_all isDigit d" and "lo \<le> length d" and "length d \<le> hi" and "r = [] \<or> \<not> isDigit (hd r)"
  shows "digitsIn lo hi (d @ r) = Some (d, r)"
proof -
  have "takeWhile isDigit r = []" "dropWhile isDigit r = r" using assms(4) by (cases r; auto)+
  moreover have "takeWhile isDigit (d @ r) = d @ takeWhile isDigit r" "dropWhile isDigit (d @ r) = dropWhile isDigit r"
    using assms(1) by (auto simp: takeWhile_append2 dropWhile_append2 list_all_iff)
  ultimately show ?thesis using assms(2,3) by (simp add: digitsIn_def Let_def)
qed

text \<open>
  a time written into the document reads back, through the reader of ASS files
  and the player's stamp, as the same time to the hundredth of a second, up to a
  hundred hours.
\<close>

theorem ass_time_roundtrip:
  assumes "0 \<le> ms" and "js_round (ms / 10) < 36000000"
  shows "parseVttStamp (normalizeAssStamp (formatAssTime ms)) = Some (10 * js_round (ms / 10))"
proof -
  define n where "n = nat (js_round (ms / 10))"
  have n: "js_round (ms / 10) = int n" using assms(1) by (simp add: n_def js_round_nonneg)
  define h m s c where parts: "h = n div 100 div 3600" "m = n div 100 div 60 mod 60" "s = n div 100 mod 60" "c = n mod 100"
  have h: "h < 100" using assms(2) by (simp add: parts n) 
  have small: "m < 100" "s < 100" "c < 100" by (simp_all add: parts)
  have format: "formatAssTime ms = dec h @ '':'' @ pad2 m @ '':'' @ pad2 s @ ''.'' @ pad2 c"
    by (simp add: formatAssTime_def Let_def n parts)
  have nodigit: "\<not> isDigit CHR '':''" "\<not> isDigit CHR ''.''" by (simp_all add: isDigit_def codeOf_def)
  have two: "length (dec h) \<le> 2" using length_dec_le [of h 2] h by simp
  have one: "Suc 0 \<le> length (dec h)" using dec_nonempty [of h] by (cases "dec h") auto
  have steps: "digitsIn (Suc 0) 2 (dec h @ CHR '':'' # r) = Some (dec h, CHR '':'' # r)"
    "digitsIn (Suc 0) 2 (pad2 m @ CHR '':'' # r) = Some (pad2 m, CHR '':'' # r)"
    "digitsIn (Suc 0) 2 (pad2 s @ CHR ''.'' # r) = Some (pad2 s, CHR ''.'' # r)"
    "digitsIn (Suc 0) 3 (pad2 c) = Some (pad2 c, [])" for r
    using digitsIn_read [of "dec h" "Suc 0" 2] digitsIn_read [of "pad2 m" "Suc 0" 2] digitsIn_read [of "pad2 s" "Suc 0" 2]
      digitsIn_read [of "pad2 c" "Suc 0" 3 "[]"] one two nodigit pad2_digits(2) small by (simp_all add: pad2_digits)
  have pads: "padStart 2 zero (pad2 k) = pad2 k" if "k < 100" for k
    using pad2_digits(1) [OF that] by (simp add: padStart_def)
  have "trim (formatAssTime ms) = formatAssTime ms" using formatAssTime_ok by blast
  then have parsed: "assStampParts (formatAssTime ms) = Some (pad2 h @ '':'' @ pad2 m @ '':'' @ pad2 s @ ''.'' @ pad2 c @ ''0'')"
  proof -
    have "take 3 (padEnd 3 zero (pad2 c)) = pad2 c @ ''0''"
      using pad2_digits(1) [OF small(3)] by (simp add: padEnd_def zero_def)
    moreover have "padStart 2 zero (dec h) = pad2 h" by (simp add: pad2_def)
    moreover note \<open>trim (formatAssTime ms) = formatAssTime ms\<close>
    ultimately show ?thesis
      using pads small by (simp add: assStampParts_def format steps)
  qed
  have "num (pad2 c @ ''0'') = 10 * c" using zero_digitChar by (simp add: zero_def)
  moreover have "pad2 h \<noteq> []" using pad2_digits(1) [OF h] by auto
  moreover have "list_all isDigit (pad2 c @ ''0'')" using pad2_digits(2) [of c] by (simp add: isDigit_def codeOf_def)
  ultimately have "parseVttStamp (normalizeAssStamp (formatAssTime ms))
      = Some ((int h * 60 + int m) * 60000 + int s * 1000 + int (10 * c))"
    using parseVttStamp_read [of "pad2 h" "pad2 m" "pad2 s" "pad2 c @ ''0''"] small
    by (simp add: normalizeAssStamp_def parsed pad2_digits)
  moreover have "(int h * 60 + int m) * 60000 + int s * 1000 + int (10 * c) = 10 * int n"
  proof -
    define q where "q = n div 100"
    have "h = q div 60 div 60" by (simp add: parts q_def flip: div_mult2_eq)
    then have "q div 60 = 60 * h + m" by (simp add: parts q_def)
    moreover have "q = 60 * (q div 60) + s" by (simp add: parts q_def)
    moreover have "n = 100 * q + c" by (simp add: parts q_def)
    ultimately have "n = 100 * (60 * (60 * h + m) + s) + c" by simp
    then show ?thesis by simp
  qed
  ultimately show ?thesis by (simp add: n)
qed

theorem ass_time_roundtrip_witness:
  "parseVttStamp (normalizeAssStamp (formatAssTime 3723456)) = Some 3723460"
proof -
  have "js_round (3723456 / 10) = 372346" by (simp add: js_round_def floor_eq_iff)
  with ass_time_roundtrip [of 3723456] show ?thesis by simp
qed

end
