(* ===== verification/Json.thy ===== *)
theory Json
  imports JsText
begin

text \<open>
  What crosses the wire: JSON values, the objects a handler builds with
  spreads, and JavaScript's reading of an optional string as a condition.
\<close>

datatype json =
    JNull
  | JBool bool
  | JNum rat
  | JStr string
  | JList "json list"
  | JObj "(string \<times> json) list"

type_synonym payload = "(string \<times> json) list"

text \<open>\<open>...(value ? { key: value } : {})\<close> for a string that counts as absent when empty.\<close>

definition strField :: "string \<Rightarrow> string \<Rightarrow> payload" where
  "strField key v = (if v = [] then [] else [(key, JStr v)])"

text \<open>A string field of a received object, \<open>undefined\<close> and \<open>''\<close> being false.\<close>

abbreviation truthy :: "string option \<Rightarrow> bool" where
  "truthy v \<equiv> orElse v [] \<noteq> []"

lemma fst_strField [simp]: "fst ` set (strField k v) = (if v = [] then {} else {k})"
  by (simp add: strField_def)

text \<open>\<open>Number.isFinite\<close> and the like apart, a number on the wire is a \<open>rat\<close>.\<close>

definition num_json :: "int \<Rightarrow> json" where
  "num_json n = JNum (of_int n)"

end
