(* ===== verification/Sync.thy ===== *)
theory Sync
  imports Stages Playback Json
begin

text \<open>
  The room's live connection (\<open>web/src/player/useSync.ts\<close>): the hook that
  opens the socket, takes the seat back after a reconnect, folds the server's
  messages into the room's view, keeps the player where the room is and
  answers heartbeats.

  Its refs and its React state are one record. A socket is its place in the
  list of sockets opened, and a run of the effect (its \<open>attempt\<close>, \<open>retry\<close>,
  \<open>halted\<close> and \<open>disposed\<close>) its place in the list of runs: the handlers of an
  old socket keep pointing at the run that opened it, as the closures do. The
  effect is set up again after any event that changed what it depends on.
  What a handler reads of the browser (the clock, whether the bot check
  passed, what the player's refs say) comes with the event.
\<close>

section \<open>Constants and wire types\<close>

definition PRESENCE_LIMIT :: nat where "PRESENCE_LIMIT = 50"

definition RECONNECT_MIN_MS :: int where "RECONNECT_MIN_MS = 500"

definition RECONNECT_MAX_MS :: int where "RECONNECT_MAX_MS = 8000"

definition HEARTBEAT_MS :: int where "HEARTBEAT_MS = 5000"

definition DEAD_AFTER_MS :: int where "DEAD_AFTER_MS = 15000"

definition TITLE_REQUEST_LIMIT :: nat where "TITLE_REQUEST_LIMIT = 20"

record room_ban =
  ban_id :: string
  ban_nickname :: string
  ban_avatar :: "string option"

record host_subtitles =
  hs_track :: int
  hs_delayMs :: rat

record member =
  mem_id :: string
  mem_nickname :: string
  mem_joinedAt :: string
  mem_mic :: "bool option"
  mem_cam :: "bool option"
  mem_hostMuted :: "bool option"
  mem_hostCamOff :: "bool option"
  mem_accountId :: "nat option"
  mem_avatar :: "string option"
  mem_client :: "string option"
  mem_tv :: "bool option"

record chat_message =
  cm_author :: string
  cm_text :: string
  cm_at :: string

record presence_event =
  pe_id :: nat
  pe_member :: string
  pe_nickname :: string
  pe_joined :: bool
  pe_at :: rat

record title_body =
  tb_metaId :: string
  tb_series :: bool
  tb_name :: string
  tb_poster :: "string option"
  tb_season :: "nat option"
  tb_episode :: "nat option"
  tb_from :: "string option"

record title_request =
  tq_id :: nat
  tq_member :: string
  tq_from :: string
  tq_metaId :: string
  tq_series :: bool
  tq_name :: string
  tq_poster :: string
  tq_season :: "nat option"
  tq_episode :: "nat option"
  tq_at :: rat

record member_readiness =
  mr_member :: string
  mr_bufferAheadMs :: rat
  mr_stalled :: "bool option"
  mr_ready :: bool
  mr_ignored :: "bool option"

record media_snapshot =
  ms_generation :: nat
  ms_version :: nat
  ms_offsetMs :: rat
  ms_regions :: "media_region list option"

record forced_media =
  fm_mic :: "bool option"
  fm_cam :: "bool option"
  fm_seq :: nat

datatype door = DoorIn | DoorPassword | DoorBadPassword | DoorLobby | DoorDenied

datatype message_type =
    MLobby | MAdmitted | MDenied | MKnock | MForceMedia | MWelcome | MState | MWaiting | MError
  | MStillThere | MAwake | MGating | MBans | MHostSubtitles | MMembers | MChat | MNeedBrowserMedia
  | MBrowserMediaIdle | MRoomStatus | MRoomUpdated | MStageRequest | MStageGrant | MStageClosed
  | MSpotlight | MTitleRequest | MOther string

record outbound =
  ob_type :: message_type
  ob_memberId :: "string option"
  ob_state :: "play_state option"
  ob_controllerId :: "string option"
  ob_members :: "member list option"
  ob_message :: "chat_message option"
  ob_history :: "chat_message list option"
  ob_status :: "string option"
  ob_serverTimeMs :: "rat option"
  ob_clientTimeMs :: "rat option"
  ob_error :: "string option"
  ob_capability :: "string option"
  ob_readiness :: "member_readiness list option"
  ob_targetMs :: "rat option"
  ob_deadlineMs :: "rat option"
  ob_gating :: "bool option"
  ob_hostSubtitles :: "host_subtitles option"
  ob_media :: "media_snapshot option"
  ob_requestId :: "string option"
  ob_kind :: "stage_kind option"
  ob_nickname :: "string option"
  ob_allow :: "bool option"
  ob_spotlight :: "spotlight option"
  ob_bans :: "room_ban list option"
  ob_mic :: "bool option"
  ob_cam :: "bool option"
  ob_title :: "title_body option"
  ob_generation :: "nat option"

definition plainMessage :: "message_type \<Rightarrow> outbound" where
  "plainMessage t =
     \<lparr>ob_type = t, ob_memberId = None, ob_state = None, ob_controllerId = None, ob_members = None,
      ob_message = None, ob_history = None, ob_status = None, ob_serverTimeMs = None,
      ob_clientTimeMs = None, ob_error = None, ob_capability = None, ob_readiness = None,
      ob_targetMs = None, ob_deadlineMs = None, ob_gating = None, ob_hostSubtitles = None,
      ob_media = None, ob_requestId = None, ob_kind = None, ob_nickname = None, ob_allow = None,
      ob_spotlight = None, ob_bans = None, ob_mic = None, ob_cam = None, ob_title = None,
      ob_generation = None\<rparr>"

section \<open>State\<close>

datatype ready_state = Connecting | SocketOpen | Closing | SocketClosed

text \<open>A socket: its state, whether it ever opened, the run that opened it, what was sent on it.\<close>

type_synonym frame = "string \<times> payload"

record web_socket =
  ws_ready :: ready_state
  ws_opened :: bool
  ws_run :: nat
  ws_sent :: "frame list"

text \<open>The variables of one run of the effect, with the props it closed over.\<close>

record sync_props =
  sp_room :: string
  sp_nickname :: string
  sp_tvToken :: string
  sp_tvTicket :: string

record effect_run =
  ru_props :: sync_props
  ru_disposed :: bool
  ru_attempt :: nat
  ru_retry :: "nat option"
  ru_armed :: "(nat \<times> rat) list"
  ru_halted :: bool
  ru_asking :: nat
  ru_goneAsks :: nat

record seat =
  seat_room :: string
  seat_member :: string
  seat_capability :: string

record media_element =
  md_time :: rat
  md_paused :: bool
  md_rate :: rat
  md_muted :: bool
  md_buffered :: "(rat \<times> rat) list"
  md_duration :: "rat option"
  md_quality :: "(nat \<times> nat) option"

record room_waiting =
  rw_targetMs :: rat
  rw_readiness :: "member_readiness list"

record sync =
  sy_sockets :: "web_socket list"
  sy_current :: "nat option"
  sy_runs :: "effect_run list"
  sy_mounted :: bool
  sy_props :: sync_props
  sy_deps :: "(sync_props \<times> bool \<times> nat) option"
  sy_timers :: nat
  sy_forgotten :: nat
  sy_offset :: rat
  sy_seat :: "seat option"
  sy_pendingChat :: "payload list"
  sy_unanswered :: "int option"
  sy_buffering :: bool
  sy_media :: "media_element option"
  sy_starts :: "bool list"
  sy_steerAt :: "int option"
  sy_state :: play_state
  sy_controllerId :: string
  sy_memberId :: string
  sy_members :: "member list"
  sy_messages :: "chat_message list"
  sy_presence :: "presence_event list"
  sy_known :: "(string, string) jsmap option"
  sy_presenceSeq :: nat
  sy_autoplayBlocked :: bool
  sy_roomStatus :: string
  sy_roomVersion :: nat
  sy_mediaPatch :: "media_snapshot option"
  sy_connected :: bool
  sy_serverOffsetMs :: rat
  sy_capability :: string
  sy_waiting :: "room_waiting option"
  sy_gating :: bool
  sy_hostSubtitles :: "host_subtitles option"
  sy_titleRequests :: "title_request list"
  sy_lastError :: string
  sy_errorSeq :: nat
  sy_deadlineMs :: "rat option"
  sy_left :: bool
  sy_kicked :: bool
  sy_replaced :: bool
  sy_gone :: bool
  sy_titleSeq :: nat
  sy_stages :: stages_state
  sy_door :: door
  sy_doorNonce :: nat
  sy_knocks :: "(string \<times> string) list"
  sy_bans :: "room_ban list"
  sy_forced :: "forced_media option"
  sy_mediaCalls :: "(seat \<times> nat) option list"

definition initialState :: play_state where
  "initialState = \<lparr>playing = False, positionMs = 0, play_rate = 1, serverTimeMs = 0\<rparr>"

definition newSync :: "sync_props \<Rightarrow> media_element option \<Rightarrow> sync" where
  "newSync props media =
     \<lparr>sy_sockets = [], sy_current = None, sy_runs = [], sy_mounted = True, sy_props = props,
      sy_deps = None, sy_timers = 0, sy_forgotten = 0, sy_offset = 0, sy_seat = None, sy_pendingChat = [],
      sy_unanswered = None, sy_buffering = False, sy_media = media, sy_starts = [], sy_steerAt = None,
      sy_state = initialState, sy_controllerId = [], sy_memberId = [], sy_members = [], sy_messages = [],
      sy_presence = [], sy_known = None, sy_presenceSeq = 0, sy_autoplayBlocked = False,
      sy_roomStatus = ''connecting'', sy_roomVersion = 0, sy_mediaPatch = None, sy_connected = False,
      sy_serverOffsetMs = 0, sy_capability = [], sy_waiting = None, sy_gating = True,
      sy_hostSubtitles = None, sy_titleRequests = [], sy_lastError = [], sy_errorSeq = 0,
      sy_deadlineMs = None, sy_left = False, sy_kicked = False, sy_replaced = False, sy_gone = False,
      sy_titleSeq = 0, sy_stages = initialStages, sy_door = DoorIn, sy_doorNonce = 0, sy_knocks = [],
      sy_bans = [], sy_forced = None, sy_mediaCalls = []\<rparr>"

text \<open>What a handler reads outside the hook when it runs.\<close>

record sync_env =
  en_now :: int
  en_humanReady :: bool
  en_hidden :: bool
  en_random :: rat
  en_mediaOffset :: rat
  en_coldWait :: bool
  en_coldFor :: "(rat \<Rightarrow> bool) option"
  en_health :: payload
  en_ownerToken :: string
  en_joinTicket :: string
  en_deviceId :: string
  en_avatar :: string
  en_desktop :: bool

definition serverNow :: "sync_env \<Rightarrow> sync \<Rightarrow> rat" where
  "serverNow env s = of_int (en_now env) + sy_offset s"

section \<open>Sending\<close>

abbreviation socketAt :: "sync \<Rightarrow> nat \<Rightarrow> web_socket" where
  "socketAt s i \<equiv> sy_sockets s ! i"

definition putSocket :: "nat \<Rightarrow> (web_socket \<Rightarrow> web_socket) \<Rightarrow> sync \<Rightarrow> sync" where
  "putSocket i f s = s\<lparr>sy_sockets := (sy_sockets s)[i := f (sy_sockets s ! i)]\<rparr>"

definition socketSend :: "nat \<Rightarrow> frame \<Rightarrow> sync \<Rightarrow> sync" where
  "socketSend i fr s = putSocket i (\<lambda>w. w\<lparr>ws_sent := ws_sent w @ [fr]\<rparr>) s"

text \<open>\<open>socket?.readyState === WebSocket.OPEN\<close> for the current socket.\<close>

definition openSocketOf :: "sync \<Rightarrow> nat option" where
  "openSocketOf s =
     (case sy_current s of
        None \<Rightarrow> None
      | Some i \<Rightarrow> if ws_ready (socketAt s i) = SocketOpen then Some i else None)"

definition send :: "string \<Rightarrow> payload \<Rightarrow> sync \<Rightarrow> sync" where
  "send type payload s =
     (case openSocketOf s of
        None \<Rightarrow> if type \<noteq> ''chat'' then s else s\<lparr>sy_pendingChat := sy_pendingChat s @ [payload]\<rparr>
      | Some i \<Rightarrow> socketSend i (type, payload) s)"

text \<open>What \<open>send\<close> answers: whether the message went out or is kept.\<close>

definition sends :: "string \<Rightarrow> sync \<Rightarrow> bool" where
  "sends type s \<longleftrightarrow> openSocketOf s \<noteq> None \<or> type = ''chat''"

text \<open>The buffer reported: the first range the position is in, and the gate's at the media's end.\<close>

fun readyBuffer :: "media_element \<Rightarrow> (rat \<times> rat) list \<Rightarrow> int" where
  "readyBuffer md [] = 0"
| "readyBuffer md ((start, stop) # ranges) =
     (if md_time md + 1 / 10 < start \<or> stop < md_time md then readyBuffer md ranges
      else
        let ahead = js_round ((stop - md_time md) * 1000)
        in case md_duration md of
             None \<Rightarrow> ahead
           | Some duration \<Rightarrow> if duration - 3 / 10 \<le> stop then max ahead GATE_READY_BUFFER_MS else ahead)"

definition sendReadiness :: "sync_env \<Rightarrow> sync \<Rightarrow> sync" where
  "sendReadiness env s =
     (case sy_media s of
        None \<Rightarrow> s
      | Some md \<Rightarrow>
          let position = of_int (js_round (md_time md * 1000)) + en_mediaOffset env;
              ahead = readyBuffer md (md_buffered md);
              s = (if sy_buffering s \<and> GATE_READY_BUFFER_MS \<le> ahead then s\<lparr>sy_buffering := False\<rparr> else s)
          in send ''ready''
               ([(''positionMs'', JNum position), (''bufferAheadMs'', num_json ahead),
                 (''stalled'', JBool (sy_buffering s))]
                @ en_health env
                @ (case md_quality md of
                     None \<Rightarrow> []
                   | Some (dropped, decoded) \<Rightarrow>
                       [(''droppedFrames'', JNum (of_nat dropped)), (''decodedFrames'', JNum (of_nat decoded))])) s)"

text \<open>\<open>media.currentTime\<close> back to where the room is, when it drifted.\<close>

definition pullBack :: "sync_env \<Rightarrow> play_state \<Rightarrow> sync \<Rightarrow> sync" where
  "pullBack env state s =
     (case sy_media s of
        None \<Rightarrow> s
      | Some md \<Rightarrow>
          let expected = expectedPositionMs state (serverNow env s)
          in if needsResync (md_time md * 1000 + en_mediaOffset env) expected
             then s\<lparr>sy_media := Some (md\<lparr>md_time := (expected - en_mediaOffset env) / 1000\<rparr>)\<rparr>
             else s)"

definition reportBuffering :: "sync_env \<Rightarrow> bool \<Rightarrow> sync \<Rightarrow> sync" where
  "reportBuffering env stalled s =
     (if sy_buffering s = stalled then s
      else
        let s = s\<lparr>sy_buffering := stalled\<rparr>
        in if stalled then s
           else case sy_media s of
                  None \<Rightarrow> s
                | Some md \<Rightarrow> if md_paused md \<or> en_coldWait env then s else pullBack env (sy_state s) s)"

definition sayGoodbye :: "sync \<Rightarrow> sync" where
  "sayGoodbye s =
     (case openSocketOf s of None \<Rightarrow> s | Some i \<Rightarrow> socketSend i (''leave'', []) s)"

section \<open>The members and the player\<close>

text \<open>Who came and who went, against the roll before.\<close>

definition rosterOf :: "member list \<Rightarrow> (string, string) jsmap" where
  "rosterOf members = fold (\<lambda>m. mapSet (mem_id m) (mem_nickname m)) members []"

definition movesOf :: "(string, string) jsmap \<Rightarrow> (string, string) jsmap \<Rightarrow> (bool \<times> string \<times> string) list" where
  "movesOf previous roster =
     map (\<lambda>m. (True, m)) (filter (\<lambda>(i, _). mapGet previous i = None) roster)
     @ map (\<lambda>m. (False, m)) (filter (\<lambda>(i, _). mapGet roster i = None) previous)"

fun presenceEvents :: "rat \<Rightarrow> nat \<Rightarrow> (bool \<times> string \<times> string) list \<Rightarrow> presence_event list" where
  "presenceEvents time seq [] = []"
| "presenceEvents time seq ((joined, who, nickname) # moves) =
     \<lparr>pe_id = seq + 1, pe_member = who, pe_nickname = nickname, pe_joined = joined, pe_at = time\<rparr>
     # presenceEvents time (seq + 1) moves"

definition notePresence :: "sync_env \<Rightarrow> (string, string) jsmap \<Rightarrow> sync \<Rightarrow> sync" where
  "notePresence env roster s =
     (case sy_known s of
        None \<Rightarrow> s
      | Some previous \<Rightarrow>
          let events = presenceEvents (serverNow env s) (sy_presenceSeq s) (movesOf previous roster)
          in s\<lparr>sy_presenceSeq := sy_presenceSeq s + length events,
               sy_presence := (if events = [] then sy_presence s
                 else take_last PRESENCE_LIMIT (sy_presence s @ events))\<rparr>)"

definition dispatchStage :: "stage_event \<Rightarrow> sync \<Rightarrow> sync" where
  "dispatchStage e s = s\<lparr>sy_stages := stagesReducer (sy_stages s) e\<rparr>"

definition applyMembers :: "sync_env \<Rightarrow> member list \<Rightarrow> sync \<Rightarrow> sync" where
  "applyMembers env members s =
     (let roster = rosterOf members;
          s = notePresence env roster s
      in dispatchStage (MembersAre (map mem_id members))
           (s\<lparr>sy_known := Some roster, sy_members := members\<rparr>))"

text \<open>\<open>coldAt\<close>: the player's own judge of a position, or its flag.\<close>

definition coldAt :: "sync_env \<Rightarrow> play_state \<Rightarrow> sync \<Rightarrow> bool" where
  "coldAt env state s =
     (case en_coldFor env of
        None \<Rightarrow> en_coldWait env
      | Some judge \<Rightarrow> judge (expectedPositionMs state (serverNow env s)))"

text \<open>
  \<open>start\<close>: a call of \<open>play()\<close> is under way, the first or the muted one. What the
  element makes of it comes with its answer and with the element's own events.
\<close>

definition startPlay :: "bool \<Rightarrow> sync \<Rightarrow> sync" where
  "startPlay muted s = s\<lparr>sy_starts := sy_starts s @ [muted]\<rparr>"

datatype play_result = Played | NotAllowed | PlayFailed

definition playSettled :: "nat \<Rightarrow> play_result \<Rightarrow> sync \<Rightarrow> sync" where
  "playSettled k result s =
     (if length (sy_starts s) \<le> k then s
      else
        let muted = sy_starts s ! k;
            s = s\<lparr>sy_starts := take k (sy_starts s) @ drop (Suc k) (sy_starts s)\<rparr>
        in if result = Played then s\<lparr>sy_autoplayBlocked := False\<rparr>
           else if muted then s\<lparr>sy_autoplayBlocked := True\<rparr>
           else if result = NotAllowed
             then startPlay True (s\<lparr>sy_media := map_option (\<lambda>md. md\<lparr>md_muted := True\<rparr>) (sy_media s)\<rparr>)
           else s)"

definition applyState :: "sync_env \<Rightarrow> play_state \<Rightarrow> sync \<Rightarrow> sync" where
  "applyState env state s =
     (let s = s\<lparr>sy_state := state\<rparr>
      in case sy_media s of
           None \<Rightarrow> s
         | Some md \<Rightarrow>
             let s = s\<lparr>sy_steerAt := Some (en_now env)\<rparr>
             in if coldAt env state s then s\<lparr>sy_media := Some (md\<lparr>md_paused := True\<rparr>)\<rparr>
                else
                  let s = (if sy_buffering s then s else pullBack env state s);
                      s = s\<lparr>sy_media := map_option
                              (\<lambda>md. md\<lparr>md_rate := (if play_rate state = 0 then 1 else play_rate state)\<rparr>) (sy_media s)\<rparr>;
                      s = (if playing state \<and> md_paused md then startPlay False s else s)
                  in if \<not> playing state \<and> \<not> md_paused md
                     then s\<lparr>sy_media := map_option (\<lambda>md. md\<lparr>md_paused := True\<rparr>) (sy_media s),
                            sy_autoplayBlocked := False\<rparr>
                     else s)"

section \<open>A message of the server\<close>

abbreviation runAt :: "sync \<Rightarrow> nat \<Rightarrow> effect_run" where
  "runAt s r \<equiv> sy_runs s ! r"

definition putRun :: "nat \<Rightarrow> (effect_run \<Rightarrow> effect_run) \<Rightarrow> sync \<Rightarrow> sync" where
  "putRun r f s = s\<lparr>sy_runs := (sy_runs s)[r := f (sy_runs s ! r)]\<rparr>"

definition haltRun :: "nat \<Rightarrow> sync \<Rightarrow> sync" where
  "haltRun r s = putRun r (\<lambda>u. u\<lparr>ru_halted := True\<rparr>) s"

text \<open>Half the round trip is taken as the way of the answer.\<close>

definition noteClock :: "sync_env \<Rightarrow> outbound \<Rightarrow> sync \<Rightarrow> sync" where
  "noteClock env m s =
     (case (ob_serverTimeMs m, ob_clientTimeMs m) of
        (Some server, Some client) \<Rightarrow>
          let offset = server - (client + (of_int (en_now env) - client) / 2)
          in s\<lparr>sy_offset := offset, sy_serverOffsetMs := offset\<rparr>
      | _ \<Rightarrow> s)"

definition flushChat :: "nat \<Rightarrow> sync \<Rightarrow> sync" where
  "flushChat i s =
     fold (\<lambda>payload. socketSend i (''chat'', payload)) (sy_pendingChat s) (s\<lparr>sy_pendingChat := []\<rparr>)"

definition applyStateOf :: "sync_env \<Rightarrow> outbound \<Rightarrow> sync \<Rightarrow> sync" where
  "applyStateOf env m s = (case ob_state m of None \<Rightarrow> s | Some st \<Rightarrow> applyState env st s)"

definition onWelcome :: "sync_env \<Rightarrow> nat \<Rightarrow> sync_props \<Rightarrow> outbound \<Rightarrow> sync \<Rightarrow> sync" where
  "onWelcome env i props m s =
     (let s = s\<lparr>sy_door := DoorIn,
                sy_seat := Some \<lparr>seat_room = sp_room props, seat_member = orElse (ob_memberId m) [],
                                 seat_capability = orElse (ob_capability m) []\<rparr>\<rparr>;
          s = flushChat i s;
          s = s\<lparr>sy_memberId := orElse (ob_memberId m) [], sy_controllerId := orElse (ob_controllerId m) []\<rparr>;
          s = applyMembers env (orElse (ob_members m) []) s;
          s = s\<lparr>sy_messages := orElse (ob_history m) [], sy_capability := orElse (ob_capability m) [],
                sy_gating := orElse (ob_gating m) True, sy_hostSubtitles := ob_hostSubtitles m,
                sy_bans := orElse (ob_bans m) [], sy_waiting := None, sy_roomStatus := ''live'',
                sy_roomVersion := sy_roomVersion s + 1\<rparr>
      in applyStateOf env m s)"

definition onError :: "nat \<Rightarrow> outbound \<Rightarrow> sync \<Rightarrow> sync" where
  "onError r m s =
     (let err = ob_error m;
          s = (if err = Some ''password_required'' \<or> err = Some ''bad_ticket''
               then (haltRun r s)\<lparr>sy_door := (if err = Some ''bad_ticket'' then DoorBadPassword else DoorPassword)\<rparr>
               else s);
          s = s\<lparr>sy_lastError := orElse err ''error'', sy_errorSeq := sy_errorSeq s + 1\<rparr>;
          s = (if err = Some ''room_gone''
               then (haltRun r s)\<lparr>sy_gone := True, sy_connected := False\<rparr> else s)
      in if err = Some ''kicked'' \<or> err = Some ''replaced''
         then (let s = haltRun r s;
                   s = (if err = Some ''kicked'' then s\<lparr>sy_kicked := True\<rparr> else s\<lparr>sy_replaced := True\<rparr>)
               in s\<lparr>sy_left := True, sy_connected := False\<rparr>)
         else s)"

definition onKnock :: "outbound \<Rightarrow> sync \<Rightarrow> sync" where
  "onKnock m s =
     (if truthy (ob_requestId m) then
        let request = orElse (ob_requestId m) []
        in if list_ex (\<lambda>k. fst k = request) (sy_knocks s) then s
           else s\<lparr>sy_knocks := sy_knocks s @ [(request, orElse (ob_nickname m) [])]\<rparr>
      else s)"

definition onForceMedia :: "outbound \<Rightarrow> sync \<Rightarrow> sync" where
  "onForceMedia m s =
     s\<lparr>sy_forced := Some \<lparr>fm_mic = ob_mic m, fm_cam = ob_cam m,
          fm_seq = (case sy_forced s of None \<Rightarrow> 0 | Some f \<Rightarrow> fm_seq f) + 1\<rparr>\<rparr>"

definition onTitleRequest :: "sync_env \<Rightarrow> outbound \<Rightarrow> sync \<Rightarrow> sync" where
  "onTitleRequest env m s =
     (case ob_title m of
        None \<Rightarrow> s
      | Some title \<Rightarrow>
          let request = \<lparr>tq_id = sy_titleSeq s + 1, tq_member = orElse (ob_memberId m) [],
                tq_from = orElse (tb_from title) [], tq_metaId = tb_metaId title,
                tq_series = tb_series title, tq_name = tb_name title,
                tq_poster = orElse (tb_poster title) [], tq_season = tb_season title,
                tq_episode = tb_episode title, tq_at = serverNow env s\<rparr>
          in s\<lparr>sy_titleSeq := sy_titleSeq s + 1,
               sy_titleRequests := take_last TITLE_REQUEST_LIMIT (sy_titleRequests s @ [request])\<rparr>)"

definition onStageRequest :: "outbound \<Rightarrow> sync \<Rightarrow> sync" where
  "onStageRequest m s =
     (case ob_kind m of
        None \<Rightarrow> s
      | Some kind \<Rightarrow>
          if truthy (ob_requestId m) \<and> truthy (ob_memberId m)
          then dispatchStage (StageRequest \<lparr>req_id = orElse (ob_requestId m) [],
                 req_member = orElse (ob_memberId m) [], req_nickname = orElse (ob_nickname m) [],
                 req_kind = kind\<rparr>) s
          else s)"

text \<open>What the desktop app is asked for: a seat and a generation, or to stop (\<open>None\<close>).\<close>

definition onNeedBrowserMedia :: "sync_props \<Rightarrow> outbound \<Rightarrow> sync \<Rightarrow> sync" where
  "onNeedBrowserMedia props m s =
     (case sy_seat s of
        None \<Rightarrow> s
      | Some held \<Rightarrow>
          if seat_room held = sp_room props \<and> sp_tvToken props = []
          then s\<lparr>sy_mediaCalls := sy_mediaCalls s @ [Some (held, orElse (ob_generation m) 0)]\<rparr>
          else s)"

fun onType :: "message_type \<Rightarrow> sync_env \<Rightarrow> nat \<Rightarrow> nat \<Rightarrow> sync_props \<Rightarrow> outbound \<Rightarrow> sync \<Rightarrow> sync" where
  "onType MLobby env i r props m s = s\<lparr>sy_door := DoorLobby\<rparr>"
| "onType MAdmitted env i r props m s = s\<lparr>sy_door := DoorIn\<rparr>"
| "onType MDenied env i r props m s = (haltRun r s)\<lparr>sy_door := DoorDenied\<rparr>"
| "onType MKnock env i r props m s = onKnock m s"
| "onType MForceMedia env i r props m s = onForceMedia m s"
| "onType MWelcome env i r props m s = onWelcome env i props m s"
| "onType MState env i r props m s = applyStateOf env m (s\<lparr>sy_waiting := None\<rparr>)"
| "onType MWaiting env i r props m s =
     s\<lparr>sy_waiting := Some \<lparr>rw_targetMs = orElse (ob_targetMs m) 0, rw_readiness = orElse (ob_readiness m) []\<rparr>\<rparr>"
| "onType MError env i r props m s = onError r m s"
| "onType MStillThere env i r props m s = s\<lparr>sy_deadlineMs := ob_deadlineMs m\<rparr>"
| "onType MAwake env i r props m s = s\<lparr>sy_deadlineMs := None\<rparr>"
| "onType MGating env i r props m s = s\<lparr>sy_gating := orElse (ob_gating m) True\<rparr>"
| "onType MBans env i r props m s = s\<lparr>sy_bans := orElse (ob_bans m) []\<rparr>"
| "onType MHostSubtitles env i r props m s = s\<lparr>sy_hostSubtitles := ob_hostSubtitles m\<rparr>"
| "onType MMembers env i r props m s =
     applyMembers env (orElse (ob_members m) []) (s\<lparr>sy_controllerId := orElse (ob_controllerId m) []\<rparr>)"
| "onType MChat env i r props m s =
     (case ob_message m of None \<Rightarrow> s | Some c \<Rightarrow> s\<lparr>sy_messages := sy_messages s @ [c]\<rparr>)"
| "onType MNeedBrowserMedia env i r props m s = onNeedBrowserMedia props m s"
| "onType MBrowserMediaIdle env i r props m s = s\<lparr>sy_mediaCalls := sy_mediaCalls s @ [None]\<rparr>"
| "onType MRoomStatus env i r props m s =
     s\<lparr>sy_roomStatus := orElse (ob_status m) [], sy_roomVersion := sy_roomVersion s + 1\<rparr>"
| "onType MRoomUpdated env i r props m s =
     (case ob_media m of
        None \<Rightarrow> s\<lparr>sy_roomVersion := sy_roomVersion s + 1\<rparr>
      | Some media \<Rightarrow> s\<lparr>sy_mediaPatch := Some media\<rparr>)"
| "onType MStageRequest env i r props m s = onStageRequest m s"
| "onType MStageGrant env i r props m s =
     (case ob_kind m of
        None \<Rightarrow> s
      | Some kind \<Rightarrow> dispatchStage (StageGrant kind (ob_allow m = Some True) (en_now env)) s)"
| "onType MStageClosed env i r props m s =
     (case ob_kind m of None \<Rightarrow> s | Some kind \<Rightarrow> dispatchStage (StageClosed kind) s)"
| "onType MSpotlight env i r props m s = dispatchStage (SpotlightSet (ob_spotlight m)) s"
| "onType MTitleRequest env i r props m s = onTitleRequest env m s"
| "onType (MOther _) env i r props m s = s"

text \<open>\<open>onmessage\<close>: only the socket the hook is on is listened to.\<close>

definition onMessage :: "sync_env \<Rightarrow> nat \<Rightarrow> outbound \<Rightarrow> sync \<Rightarrow> sync" where
  "onMessage env i m s =
     (if sy_current s \<noteq> Some i then s
      else
        let r = ws_run (socketAt s i);
            s = noteClock env m (s\<lparr>sy_unanswered := None\<rparr>)
        in onType (ob_type m) env i r (ru_props (runAt s r)) m s)"

section \<open>The connection\<close>

definition newRun :: "sync_props \<Rightarrow> effect_run" where
  "newRun props =
     \<lparr>ru_props = props, ru_disposed = False, ru_attempt = 0, ru_retry = None, ru_armed = [],
      ru_halted = False, ru_asking = 0, ru_goneAsks = 0\<rparr>"

text \<open>\<open>open\<close>: a socket to the room, and nobody known in it yet.\<close>

definition openSocket :: "nat \<Rightarrow> sync \<Rightarrow> sync" where
  "openSocket r s =
     (if ru_disposed (runAt s r) then s
      else s\<lparr>sy_sockets := sy_sockets s @ [\<lparr>ws_ready = Connecting, ws_opened = False, ws_run = r, ws_sent = []\<rparr>],
             sy_current := Some (length (sy_sockets s)), sy_known := None\<rparr>)"

text \<open>\<open>connect\<close>: at once for a TV or a browser that passed the check, after it otherwise.\<close>

definition connect :: "sync_env \<Rightarrow> nat \<Rightarrow> sync \<Rightarrow> sync" where
  "connect env r s =
     (if ru_disposed (runAt s r) then s
      else if sp_tvToken (ru_props (runAt s r)) \<noteq> [] \<or> en_humanReady env then openSocket r s
      else putRun r (\<lambda>u. u\<lparr>ru_asking := ru_asking u + 1\<rparr>) s)"

definition humanAnswered :: "nat \<Rightarrow> sync \<Rightarrow> sync" where
  "humanAnswered r s =
     (if ru_asking (runAt s r) = 0 then s
      else openSocket r (putRun r (\<lambda>u. u\<lparr>ru_asking := ru_asking u - 1\<rparr>) s))"

definition seatIn :: "string \<Rightarrow> sync \<Rightarrow> seat option" where
  "seatIn room s =
     (case sy_seat s of None \<Rightarrow> None | Some held \<Rightarrow> if seat_room held = room then Some held else None)"

definition seatFields :: "seat option \<Rightarrow> payload" where
  "seatFields held =
     (case held of
        None \<Rightarrow> []
      | Some h \<Rightarrow> [(''memberId'', JStr (seat_member h)), (''capability'', JStr (seat_capability h))])"

definition hello :: "sync_env \<Rightarrow> sync_props \<Rightarrow> seat option \<Rightarrow> payload" where
  "hello env props held =
     (if sp_tvToken props \<noteq> [] then
        [(''nickname'', JStr (sp_nickname props)), (''clientTimeMs'', num_json (en_now env)),
         (''client'', JStr ''tv''), (''ticket'', JStr (sp_tvTicket props))] @ seatFields held
      else
        [(''nickname'', JStr (sp_nickname props)), (''clientTimeMs'', num_json (en_now env)),
         (''ownerToken'', JStr (en_ownerToken env))]
        @ strField ''ticket'' (en_joinTicket env)
        @ seatFields held
        @ strField ''device'' (en_deviceId env)
        @ strField ''avatar'' (en_avatar env)
        @ (if en_desktop env
           then [(''client'', JStr ''desktop''), (''features'', JList [JStr ''localSource'', JStr ''localCopy''])]
           else []))"

definition onOpen :: "sync_env \<Rightarrow> nat \<Rightarrow> sync \<Rightarrow> sync" where
  "onOpen env i s =
     (let r = ws_run (socketAt s i);
          props = ru_props (runAt s r);
          s = putSocket i (\<lambda>w. w\<lparr>ws_ready := SocketOpen, ws_opened := True\<rparr>) s;
          s = putRun r (\<lambda>u. u\<lparr>ru_attempt := 0\<rparr>) s;
          s = s\<lparr>sy_unanswered := None, sy_connected := True\<rparr>
      in socketSend i (''hello'', hello env props (seatIn (sp_room props) s)) s)"

definition reconnectDelay :: "nat \<Rightarrow> rat \<Rightarrow> rat" where
  "reconnectDelay attempt random =
     (let wait = min (RECONNECT_MIN_MS * 2 ^ attempt) RECONNECT_MAX_MS
      in of_int wait * (3 / 4 + random * (1 / 2)))"

definition armRetry :: "sync_env \<Rightarrow> nat \<Rightarrow> sync \<Rightarrow> sync" where
  "armRetry env r s =
     (let delay = reconnectDelay (ru_attempt (runAt s r)) (en_random env);
          timer = sy_timers s
      in putRun r (\<lambda>u. u\<lparr>ru_attempt := ru_attempt u + 1, ru_retry := Some timer,
                         ru_armed := ru_armed u @ [(timer, delay)]\<rparr>)
           (s\<lparr>sy_timers := sy_timers s + 1\<rparr>))"

text \<open>\<open>if (retry !== null) window.clearTimeout(retry)\<close>.\<close>

definition clearRetry :: "effect_run \<Rightarrow> effect_run" where
  "clearRetry u =
     (case ru_retry u of
        None \<Rightarrow> u
      | Some timer \<Rightarrow> u\<lparr>ru_armed := filter (\<lambda>t. fst t \<noteq> timer) (ru_armed u)\<rparr>)"

definition onClose :: "sync_env \<Rightarrow> nat \<Rightarrow> sync \<Rightarrow> sync" where
  "onClose env i s =
     (let r = ws_run (socketAt s i);
          u = runAt s r;
          opened = ws_opened (socketAt s i);
          s = (putSocket i (\<lambda>w. w\<lparr>ws_ready := SocketClosed\<rparr>) s)\<lparr>sy_connected := False\<rparr>;
          s = (if \<not> opened \<and> sp_tvToken (ru_props u) = [] then s\<lparr>sy_forgotten := sy_forgotten s + 1\<rparr> else s)
      in if ru_disposed u \<or> ru_halted u \<or> sy_current s \<noteq> Some i then s
         else
           let s = armRetry env r s
           in if opened then s else putRun r (\<lambda>u. u\<lparr>ru_goneAsks := ru_goneAsks u + 1\<rparr>) s)"

definition retryFires :: "sync_env \<Rightarrow> nat \<Rightarrow> nat \<Rightarrow> sync \<Rightarrow> sync" where
  "retryFires env r timer s =
     (if timer \<notin> fst ` set (ru_armed (runAt s r)) then s
      else connect env r
             (putRun r (\<lambda>u. u\<lparr>ru_armed := filter (\<lambda>t. fst t \<noteq> timer) (ru_armed u)\<rparr>) s))"

definition goneAnswered :: "nat \<Rightarrow> bool \<Rightarrow> sync \<Rightarrow> sync" where
  "goneAnswered r isGone s =
     (if ru_goneAsks (runAt s r) = 0 then s
      else
        let s = putRun r (\<lambda>u. u\<lparr>ru_goneAsks := ru_goneAsks u - 1\<rparr>) s
        in if \<not> isGone \<or> ru_disposed (runAt s r) then s
           else (putRun r clearRetry (haltRun r s))\<lparr>sy_gone := True\<rparr>)"

text \<open>What \<open>roomGone\<close> answers of the status and the error the server gave, or of a failed ask.\<close>

definition roomGone :: "(nat \<times> string option) option \<Rightarrow> bool" where
  "roomGone answer =
     (case answer of None \<Rightarrow> False
      | Some (status, err) \<Rightarrow> if status \<noteq> 404 then False else err = Some ''room_not_found'')"

text \<open>The run set up last, when it still listens.\<close>

definition liveRun :: "sync \<Rightarrow> nat option" where
  "liveRun s =
     (if sy_runs s = [] \<or> ru_disposed (last (sy_runs s)) then None else Some (length (sy_runs s) - 1))"

definition wakeUp :: "sync_env \<Rightarrow> nat \<Rightarrow> sync \<Rightarrow> sync" where
  "wakeUp env r s =
     (if ru_disposed (runAt s r) \<or> ru_halted (runAt s r) \<or> openSocketOf s \<noteq> None then s
      else if en_hidden env then s
      else connect env r (putRun r (\<lambda>u. (clearRetry u)\<lparr>ru_attempt := 0\<rparr>) s))"

definition closeSocket :: "nat \<Rightarrow> sync \<Rightarrow> sync" where
  "closeSocket i s =
     putSocket i (\<lambda>w. if ws_ready w = SocketClosed then w else w\<lparr>ws_ready := Closing\<rparr>) s"

definition deadLink :: "sync_env \<Rightarrow> sync \<Rightarrow> nat option" where
  "deadLink env s =
     (case (openSocketOf s, sy_unanswered s) of
        (Some i, Some since) \<Rightarrow> if DEAD_AFTER_MS < en_now env - since then Some i else None
      | _ \<Rightarrow> None)"

definition heartbeat :: "sync_env \<Rightarrow> nat \<Rightarrow> sync \<Rightarrow> sync" where
  "heartbeat env r s =
     (case deadLink env s of
        Some i \<Rightarrow> closeSocket i (putRun r (\<lambda>u. u\<lparr>ru_attempt := 0\<rparr>) s)
      | None \<Rightarrow>
          let s = (if openSocketOf s \<noteq> None \<and> sy_unanswered s = None
                   then s\<lparr>sy_unanswered := Some (en_now env)\<rparr> else s);
              s = sendReadiness env (send ''heartbeat'' [(''clientTimeMs'', num_json (en_now env))] s)
          in case sy_media s of
               None \<Rightarrow> s
             | Some md \<Rightarrow>
                 if sy_buffering s \<or> en_coldWait env \<or> md_paused md then s else pullBack env (sy_state s) s)"

section \<open>The effect and the hook's own calls\<close>

definition depsOf :: "sync \<Rightarrow> sync_props \<times> bool \<times> nat" where
  "depsOf s = (sy_props s, sy_left s, sy_doorNonce s)"

text \<open>The effect's cleanup, run on the run set up last.\<close>

definition cleanUp :: "sync \<Rightarrow> sync" where
  "cleanUp s =
     (case liveRun s of
        None \<Rightarrow> s
      | Some r \<Rightarrow>
          let s = putRun r (\<lambda>u. clearRetry (u\<lparr>ru_disposed := True\<rparr>)) s;
              s = (case sy_current s of None \<Rightarrow> s | Some i \<Rightarrow> closeSocket i s)
          in s\<lparr>sy_current := None\<rparr>)"

definition setUp :: "sync_env \<Rightarrow> sync \<Rightarrow> sync" where
  "setUp env s =
     (if sy_left s then s
      else connect env (length (sy_runs s)) (s\<lparr>sy_runs := sy_runs s @ [newRun (sy_props s)]\<rparr>))"

text \<open>After a render: the effects whose dependencies changed run again.\<close>

definition runEffects :: "sync_env \<Rightarrow> sync \<Rightarrow> sync" where
  "runEffects env s =
     (if sy_deps s = Some (depsOf s) then s
      else
        let s = (case sy_deps s of
                   None \<Rightarrow> s
                 | Some (props, _, _) \<Rightarrow> if sp_room props \<noteq> sp_room (sy_props s) then sayGoodbye s else s);
            s = cleanUp s
        in setUp env (s\<lparr>sy_deps := Some (depsOf s)\<rparr>))"

definition unmount :: "sync \<Rightarrow> sync" where
  "unmount s = (cleanUp (sayGoodbye s))\<lparr>sy_mounted := False\<rparr>"

definition leave :: "sync \<Rightarrow> sync" where
  "leave s = (sayGoodbye s)\<lparr>sy_left := True, sy_deadlineMs := None, sy_connected := False\<rparr>"

definition requestStage :: "stage_kind \<Rightarrow> sync \<Rightarrow> sync" where
  "requestStage kind s =
     (if \<not> sends ''stageRequest'' s then s
      else dispatchStage (Asked kind) (send ''stageRequest'' [(''kind'', JStr (kindName kind))] s))"

definition answerStage :: "string \<Rightarrow> bool \<Rightarrow> sync \<Rightarrow> sync" where
  "answerStage request allow s =
     (if \<not> sends ''stageAnswer'' s then s
      else dispatchStage (Answered request)
             (send ''stageAnswer'' [(''requestId'', JStr request), (''allow'', JBool allow)] s))"

definition closeStage :: "stage_kind \<Rightarrow> string option \<Rightarrow> sync \<Rightarrow> sync" where
  "closeStage kind target s =
     send ''stageClose'' ((''kind'', JStr (kindName kind)) # strField ''targetId'' (orElse target [])) s"

definition spotName :: "spot_kind \<Rightarrow> string" where
  "spotName k = (case k of SpotStage kind \<Rightarrow> kindName kind | SpotMember \<Rightarrow> ''member'')"

definition setSpotlight :: "spotlight option \<Rightarrow> sync \<Rightarrow> sync" where
  "setSpotlight spot s =
     send ''spotlight''
       (case spot of
          None \<Rightarrow> []
        | Some sp \<Rightarrow> (''kind'', JStr (spotName (spot_kind sp))) # strField ''targetId'' (orElse (spot_member sp) [])) s"

definition answerKnock :: "bool \<Rightarrow> string \<Rightarrow> sync \<Rightarrow> sync" where
  "answerKnock let_in request s =
     (let type = (if let_in then ''admit'' else ''deny'')
      in if \<not> sends type s then s
         else (let s = send type [(''targetId'', JStr request)] s
               in s\<lparr>sy_knocks := filter (\<lambda>k. fst k \<noteq> request) (sy_knocks s)\<rparr>))"

definition retryDoor :: "sync \<Rightarrow> sync" where
  "retryDoor s = s\<lparr>sy_door := DoorIn, sy_doorNonce := sy_doorNonce s + 1\<rparr>"

definition isController :: "sync \<Rightarrow> bool" where
  "isController s \<longleftrightarrow> sy_memberId s \<noteq> [] \<and> sy_memberId s = sy_controllerId s"

section \<open>The hook, one event at a time\<close>

datatype sync_event =
    SocketOpens nat
  | SocketCloses nat
  | Receives nat outbound
  | RetryFires nat nat
  | HumanAnswered nat
  | GoneAnswered nat "(nat \<times> string option) option"
  | WakesUp
  | HeartbeatDue
  | ReadinessDue
  | PlaySettled nat play_result
  | MediaIs "media_element option"
  | PageHides
  | Renders sync_props
  | Unmounts
  | CallSend string payload
  | CallBuffering bool
  | CallLeave
  | CallRefresh
  | CallRequestStage stage_kind
  | CallAnswerStage string bool
  | CallCloseStage stage_kind "string option"
  | CallSpotlight "spotlight option"
  | CallStageUsed stage_kind
  | CallRetryDoor
  | CallAnswerKnock bool string

definition onRun :: "(nat \<Rightarrow> sync \<Rightarrow> sync) \<Rightarrow> sync \<Rightarrow> sync" where
  "onRun f s = (case liveRun s of None \<Rightarrow> s | Some r \<Rightarrow> f r s)"

text \<open>
  What the browser's sockets promise: one opens once, closes once and speaks
  only while it is open. The hook's own calls come while it is mounted.
\<close>

fun handle :: "sync_env \<Rightarrow> sync_event \<Rightarrow> sync \<Rightarrow> sync" where
  "handle env (SocketOpens i) s =
     (if i < length (sy_sockets s) \<and> ws_ready (socketAt s i) = Connecting then onOpen env i s else s)"
| "handle env (SocketCloses i) s =
     (if i < length (sy_sockets s) \<and> ws_ready (socketAt s i) \<noteq> SocketClosed then onClose env i s else s)"
| "handle env (Receives i m) s =
     (if i < length (sy_sockets s) \<and> ws_ready (socketAt s i) = SocketOpen then onMessage env i m s else s)"
| "handle env (RetryFires r timer) s = (if r < length (sy_runs s) then retryFires env r timer s else s)"
| "handle env (HumanAnswered r) s = (if r < length (sy_runs s) then humanAnswered r s else s)"
| "handle env (GoneAnswered r answer) s =
     (if r < length (sy_runs s) then goneAnswered r (roomGone answer) s else s)"
| "handle env WakesUp s = onRun (wakeUp env) s"
| "handle env HeartbeatDue s = onRun (heartbeat env) s"
| "handle env ReadinessDue s = (if sy_waiting s = None then s else sendReadiness env s)"
| "handle env (PlaySettled k result) s = playSettled k result s"
| "handle env (MediaIs md) s = s\<lparr>sy_media := md\<rparr>"
| "handle env PageHides s = onRun (\<lambda>_. sayGoodbye) s"
| "handle env (Renders props) s = s\<lparr>sy_props := props\<rparr>"
| "handle env Unmounts s = unmount s"
| "handle env (CallSend type payload) s = send type payload s"
| "handle env (CallBuffering stalled) s = reportBuffering env stalled s"
| "handle env CallLeave s = leave s"
| "handle env CallRefresh s = s\<lparr>sy_roomVersion := sy_roomVersion s + 1\<rparr>"
| "handle env (CallRequestStage kind) s = requestStage kind s"
| "handle env (CallAnswerStage request allow) s = answerStage request allow s"
| "handle env (CallCloseStage kind target) s = closeStage kind target s"
| "handle env (CallSpotlight spot) s = setSpotlight spot s"
| "handle env (CallStageUsed kind) s = dispatchStage (Used kind) s"
| "handle env CallRetryDoor s = retryDoor s"
| "handle env (CallAnswerKnock let_in request) s = answerKnock let_in request s"

definition syncStep :: "sync \<Rightarrow> sync_env \<times> sync_event \<Rightarrow> sync" where
  "syncStep s ev =
     (let (env, e) = ev;
          s = handle env e s
      in if sy_mounted s then runEffects env s else s)"

definition runSync :: "sync \<Rightarrow> (sync_env \<times> sync_event) list \<Rightarrow> sync" where
  "runSync s evs = foldl syncStep s evs"

definition mountSync :: "sync_env \<Rightarrow> sync_props \<Rightarrow> media_element option \<Rightarrow> sync" where
  "mountSync env props media = runEffects env (newSync props media)"

end
