(* ===== verification/SyncFacts.thy ===== *)
theory SyncFacts
  imports Sync
begin

text \<open>
  What holds of the live connection of \<open>Sync\<close>: which sockets and runs it
  keeps, where a chat line goes, which seat a new socket asks for, what a run
  that was stopped can still do, who the presence notes say came and went, and
  when a silent socket is given up.
\<close>

section \<open>What the connection is made of\<close>

text \<open>
  Which run opened which socket, which socket is the hook's and which runs are
  over: most of what the hook does leaves this alone.
\<close>

definition core :: "sync \<Rightarrow> nat list \<times> nat option \<times> bool list" where
  "core s = (map ws_run (sy_sockets s), sy_current s, map ru_disposed (sy_runs s))"

lemma map_update_same: "f y = f (xs ! i) \<Longrightarrow> map f (xs[i := y]) = map f xs"
  by (cases "i < length xs") (simp_all add: map_update list_update_same_conv list_update_beyond)

lemma core_fields [simp]:
  "core (s\<lparr>sy_mounted := v3\<rparr>) = core s"
  "core (s\<lparr>sy_props := v4\<rparr>) = core s"
  "core (s\<lparr>sy_deps := v5\<rparr>) = core s"
  "core (s\<lparr>sy_timers := v6\<rparr>) = core s"
  "core (s\<lparr>sy_forgotten := v7\<rparr>) = core s"
  "core (s\<lparr>sy_offset := v8\<rparr>) = core s"
  "core (s\<lparr>sy_seat := v9\<rparr>) = core s"
  "core (s\<lparr>sy_pendingChat := v10\<rparr>) = core s"
  "core (s\<lparr>sy_unanswered := v11\<rparr>) = core s"
  "core (s\<lparr>sy_buffering := v12\<rparr>) = core s"
  "core (s\<lparr>sy_media := v13\<rparr>) = core s"
  "core (s\<lparr>sy_starts := v14\<rparr>) = core s"
  "core (s\<lparr>sy_steerAt := v15\<rparr>) = core s"
  "core (s\<lparr>sy_state := v16\<rparr>) = core s"
  "core (s\<lparr>sy_controllerId := v17\<rparr>) = core s"
  "core (s\<lparr>sy_memberId := v18\<rparr>) = core s"
  "core (s\<lparr>sy_members := v19\<rparr>) = core s"
  "core (s\<lparr>sy_messages := v20\<rparr>) = core s"
  "core (s\<lparr>sy_presence := v21\<rparr>) = core s"
  "core (s\<lparr>sy_known := v22\<rparr>) = core s"
  "core (s\<lparr>sy_presenceSeq := v23\<rparr>) = core s"
  "core (s\<lparr>sy_autoplayBlocked := v24\<rparr>) = core s"
  "core (s\<lparr>sy_roomStatus := v25\<rparr>) = core s"
  "core (s\<lparr>sy_roomVersion := v26\<rparr>) = core s"
  "core (s\<lparr>sy_mediaPatch := v27\<rparr>) = core s"
  "core (s\<lparr>sy_connected := v28\<rparr>) = core s"
  "core (s\<lparr>sy_serverOffsetMs := v29\<rparr>) = core s"
  "core (s\<lparr>sy_capability := v30\<rparr>) = core s"
  "core (s\<lparr>sy_waiting := v31\<rparr>) = core s"
  "core (s\<lparr>sy_gating := v32\<rparr>) = core s"
  "core (s\<lparr>sy_hostSubtitles := v33\<rparr>) = core s"
  "core (s\<lparr>sy_titleRequests := v34\<rparr>) = core s"
  "core (s\<lparr>sy_lastError := v35\<rparr>) = core s"
  "core (s\<lparr>sy_errorSeq := v36\<rparr>) = core s"
  "core (s\<lparr>sy_deadlineMs := v37\<rparr>) = core s"
  "core (s\<lparr>sy_left := v38\<rparr>) = core s"
  "core (s\<lparr>sy_kicked := v39\<rparr>) = core s"
  "core (s\<lparr>sy_replaced := v40\<rparr>) = core s"
  "core (s\<lparr>sy_gone := v41\<rparr>) = core s"
  "core (s\<lparr>sy_titleSeq := v42\<rparr>) = core s"
  "core (s\<lparr>sy_stages := v43\<rparr>) = core s"
  "core (s\<lparr>sy_door := v44\<rparr>) = core s"
  "core (s\<lparr>sy_doorNonce := v45\<rparr>) = core s"
  "core (s\<lparr>sy_knocks := v46\<rparr>) = core s"
  "core (s\<lparr>sy_bans := v47\<rparr>) = core s"
  "core (s\<lparr>sy_forced := v48\<rparr>) = core s"
  "core (s\<lparr>sy_mediaCalls := v49\<rparr>) = core s"
  by (simp_all add: core_def)

lemma core_putRun [simp]:
  assumes "\<And>u. ru_disposed (f u) = ru_disposed u"
  shows "core (putRun r f s) = core s"
  using map_update_same [of ru_disposed "f (sy_runs s ! r)"] assms by (simp add: core_def putRun_def)

lemma core_putSocket [simp]:
  assumes "\<And>w. ws_run (f w) = ws_run w"
  shows "core (putSocket i f s) = core s"
  using map_update_same [of ws_run "f (sy_sockets s ! i)"] assms by (simp add: core_def putSocket_def)

named_theorems quiet "what leaves the connection alone"

lemma core_socketSend [quiet]: "core (socketSend i fr s) = core s"
  by (simp add: socketSend_def)

lemma core_send [quiet]: "core (send type payload s) = core s"
  by (simp add: send_def Let_def quiet split: option.splits)

lemma core_sayGoodbye [quiet]: "core (sayGoodbye s) = core s"
  by (simp add: sayGoodbye_def Let_def quiet split: option.splits)

lemma core_sendReadiness [quiet]: "core (sendReadiness env s) = core s"
  by (simp add: sendReadiness_def Let_def quiet split: option.splits)

lemma core_pullBack [quiet]: "core (pullBack env st s) = core s"
  by (simp add: pullBack_def Let_def quiet split: option.splits)

lemma core_reportBuffering [quiet]: "core (reportBuffering env stalled s) = core s"
  by (simp add: reportBuffering_def Let_def quiet split: option.splits)

lemma core_dispatchStage [quiet]: "core (dispatchStage e s) = core s"
  by (simp add: dispatchStage_def Let_def quiet)

lemma core_notePresence [quiet]: "core (notePresence env roster s) = core s"
  by (simp add: notePresence_def Let_def quiet split: option.splits)

lemma core_applyMembers [quiet]: "core (applyMembers env ms s) = core s"
  by (simp add: applyMembers_def Let_def quiet)

lemma core_startPlay [quiet]: "core (startPlay muted s) = core s"
  by (simp add: startPlay_def Let_def quiet)

lemma core_playSettled [quiet]: "core (playSettled k result s) = core s"
  by (simp add: playSettled_def Let_def quiet)

lemma core_applyState [quiet]: "core (applyState env st s) = core s"
  by (simp add: applyState_def Let_def quiet split: option.splits)

lemma core_applyStateOf [quiet]: "core (applyStateOf env m s) = core s"
  by (simp add: applyStateOf_def Let_def quiet split: option.splits)

lemma core_haltRun [quiet]: "core (haltRun r s) = core s"
  by (simp add: haltRun_def Let_def quiet)

lemma core_noteClock [quiet]: "core (noteClock env m s) = core s"
  by (simp add: noteClock_def Let_def quiet split: option.splits)

lemma core_fold_socketSend: "core (fold (\<lambda>p. socketSend i (t, p)) ps s) = core s"
  by (induction ps arbitrary: s) (simp_all add: quiet)

lemma core_flushChat [quiet]: "core (flushChat i s) = core s"
  by (simp add: flushChat_def core_fold_socketSend)

lemma core_onWelcome [quiet]: "core (onWelcome env i props m s) = core s"
  by (simp add: onWelcome_def Let_def quiet)

lemma core_onError [quiet]: "core (onError r m s) = core s"
  by (simp add: onError_def Let_def quiet)

lemma core_onType [quiet]: "core (onType t env i r props m s) = core s"
  by (cases t) (simp_all add: onKnock_def onForceMedia_def onTitleRequest_def onStageRequest_def onNeedBrowserMedia_def Let_def quiet split: option.splits)

lemma core_onMessage [quiet]: "core (onMessage env i m s) = core s"
  by (simp add: onMessage_def Let_def quiet)

lemma core_onOpen [quiet]: "core (onOpen env i s) = core s"
  by (simp add: onOpen_def Let_def quiet)

lemma core_armRetry [quiet]: "core (armRetry env r s) = core s"
  by (simp add: armRetry_def Let_def quiet)

lemma clearRetry_simps [simp]:
  "ru_disposed (clearRetry u) = ru_disposed u" "ru_halted (clearRetry u) = ru_halted u"
  "ru_asking (clearRetry u) = ru_asking u" "ru_props (clearRetry u) = ru_props u"
  by (simp_all add: clearRetry_def split: option.splits)

lemma core_onClose [quiet]: "core (onClose env i s) = core s"
  by (simp add: onClose_def Let_def quiet)

lemma core_goneAnswered [quiet]: "core (goneAnswered r isGone s) = core s"
  by (simp add: goneAnswered_def Let_def quiet)

lemma core_closeSocket [quiet]: "core (closeSocket i s) = core s"
  by (simp add: closeSocket_def Let_def quiet)

lemma core_heartbeat [quiet]: "core (heartbeat env r s) = core s"
  by (simp add: heartbeat_def Let_def quiet split: option.splits)

lemma core_leave [quiet]: "core (leave s) = core s"
  by (simp add: leave_def Let_def quiet)

lemma core_requestStage [quiet]: "core (requestStage kind s) = core s"
  by (simp add: requestStage_def Let_def quiet)

lemma core_answerStage [quiet]: "core (answerStage request allow s) = core s"
  by (simp add: answerStage_def Let_def quiet)

lemma core_closeStage [quiet]: "core (closeStage kind target s) = core s"
  by (simp add: closeStage_def Let_def quiet)

lemma core_setSpotlight [quiet]: "core (setSpotlight spot s) = core s"
  by (simp add: setSpotlight_def Let_def quiet)

lemma core_answerKnock [quiet]: "core (answerKnock let_in request s) = core s"
  by (simp add: answerKnock_def Let_def quiet)

lemma core_retryDoor [quiet]: "core (retryDoor s) = core s"
  by (simp add: retryDoor_def Let_def quiet)

text \<open>
  The invariant: every socket was opened by a run, every run but the last is
  over, and the hook is on a socket only while the last run is not.
\<close>

definition syncOk :: "sync \<Rightarrow> bool" where
  "syncOk s \<longleftrightarrow>
     list_all (\<lambda>w. ws_run w < length (sy_runs s)) (sy_sockets s)
   \<and> list_all ru_disposed (butlast (sy_runs s))
   \<and> (case sy_current s of None \<Rightarrow> True | Some i \<Rightarrow> i < length (sy_sockets s) \<and> liveRun s \<noteq> None)"

lemma core_lengths:
  assumes "core t = core s"
  shows "length (sy_sockets t) = length (sy_sockets s)" "length (sy_runs t) = length (sy_runs s)"
    "sy_current t = sy_current s" "map ru_disposed (sy_runs t) = map ru_disposed (sy_runs s)"
    "map ws_run (sy_sockets t) = map ws_run (sy_sockets s)"
  using assms unfolding core_def by (auto dest: map_eq_imp_length_eq)

lemma list_all_core:
  "list_all (\<lambda>w. ws_run w < n) xs \<longleftrightarrow> list_all (\<lambda>r. r < n) (map ws_run xs)"
  "list_all ru_disposed us \<longleftrightarrow> list_all id (map ru_disposed us)"
  by (simp_all add: list_all_iff)

lemma liveRun_core: "liveRun s = (let ds = map ru_disposed (sy_runs s) in if ds = [] \<or> last ds then None else Some (length ds - 1))"
  by (simp add: liveRun_def last_map Let_def)

lemma syncOk_core: "core t = core s \<Longrightarrow> syncOk t = syncOk s"
  using core_lengths [of t s] unfolding syncOk_def liveRun_core list_all_core
  by (simp only: map_butlast length_map)

lemma disposed_unless_last:
  assumes "syncOk s" "r < length (sy_runs s)" "\<not> ru_disposed (runAt s r)"
  shows "liveRun s = Some r"
proof -
  have "r = length (sy_runs s) - 1"
  proof (rule ccontr)
    assume "r \<noteq> length (sy_runs s) - 1"
    then have "r < length (butlast (sy_runs s))" using assms(2) by simp
    then have "ru_disposed (butlast (sy_runs s) ! r)"
      using assms(1) by (simp add: syncOk_def list_all_length)
    then show False using assms(3) \<open>r < length (butlast (sy_runs s))\<close> by (simp add: nth_butlast)
  qed
  moreover have "sy_runs s \<noteq> []" using assms(2) by auto
  ultimately show ?thesis using assms(3) by (simp add: liveRun_def last_conv_nth)
qed

lemma liveRun_bound: "liveRun s = Some r \<Longrightarrow> r < length (sy_runs s) \<and> \<not> ru_disposed (runAt s r)"
  by (auto simp: liveRun_def last_conv_nth split: if_splits)

lemma openSocket_keeps [keeps]:
  assumes "syncOk s" "r < length (sy_runs s)" shows "syncOk (openSocket r s)"
proof (cases "ru_disposed (runAt s r)")
  case True
  then show ?thesis using assms by (simp add: openSocket_def)
next
  case False
  then have "liveRun s = Some r" using assms disposed_unless_last by blast
  moreover have "liveRun (openSocket r s) = liveRun s" by (simp add: openSocket_def liveRun_def)
  ultimately show ?thesis using assms False by (simp add: syncOk_def openSocket_def)
qed

lemma runs_putRun [simp]: "length (sy_runs (putRun r f s)) = length (sy_runs s)"
  by (simp add: putRun_def)

lemma connect_keeps [keeps]:
  assumes "syncOk s" "r < length (sy_runs s)" shows "syncOk (connect env r s)"
  using assms openSocket_keeps [OF assms]
  by (auto simp: connect_def syncOk_core [of "putRun r f s" s for f])

lemma update_last: "xs \<noteq> [] \<Longrightarrow> xs[length xs - 1 := y] = butlast xs @ [y]"
  by (induction xs rule: rev_induct) simp_all

lemma syncOk_over:
  assumes "list_all ru_disposed (sy_runs u)" "list_all (\<lambda>w. ws_run w < length (sy_runs u)) (sy_sockets u)"
  shows "syncOk (u\<lparr>sy_current := None\<rparr>)"
  using assms by (auto simp: syncOk_def list_all_iff dest: in_set_butlastD)

lemma cleanUp_over:
  assumes "syncOk s"
  shows "syncOk (cleanUp s) \<and> sy_current (cleanUp s) = None \<and> list_all ru_disposed (sy_runs (cleanUp s))
    \<and> length (sy_runs (cleanUp s)) = length (sy_runs s)"
proof (cases "liveRun s")
  case None
  then have "sy_current s = None" using assms by (auto simp: syncOk_def split: option.splits)
  moreover have "list_all ru_disposed (sy_runs s)"
  proof (cases "sy_runs s = []")
    case False
    then have "list_all ru_disposed (butlast (sy_runs s))" "ru_disposed (last (sy_runs s))"
      using None assms by (simp_all add: syncOk_def liveRun_def split: if_splits)
    then show ?thesis
      by (subst append_butlast_last_id [OF False, symmetric])
         (simp only: list_all_append list.pred_inject simp_thms)
  qed simp
  ultimately show ?thesis using None assms by (simp add: cleanUp_def)
next
  case (Some r)
  let ?t = "putRun r (\<lambda>u. clearRetry (u\<lparr>ru_disposed := True\<rparr>)) s"
  let ?u = "case sy_current ?t of None \<Rightarrow> ?t | Some i \<Rightarrow> closeSocket i ?t"
  have r: "r = length (sy_runs s) - 1" "sy_runs s \<noteq> []"
    using Some by (auto simp: liveRun_def split: if_splits)
  have runs: "sy_runs ?u = butlast (sy_runs s) @ [clearRetry ((last (sy_runs s))\<lparr>ru_disposed := True\<rparr>)]"
    by (simp add: putRun_def closeSocket_def putSocket_def r(1) last_conv_nth [OF r(2)] update_last [OF r(2), simplified]
        split: option.splits)
  have ws: "map ws_run (sy_sockets ?u) = map ws_run (sy_sockets s)"
    using core_lengths(5) [OF core_closeSocket, of _ ?t] by (simp add: putRun_def split: option.splits)
  have eq: "cleanUp s = ?u\<lparr>sy_current := None\<rparr>" by (simp add: cleanUp_def Some Let_def)
  have over: "list_all ru_disposed (sy_runs ?u)"
    unfolding runs using assms by (simp add: syncOk_def)
  have len: "length (sy_runs ?u) = length (sy_runs s)" unfolding runs using r by simp
  have "list_all (\<lambda>w. ws_run w < length (sy_runs ?u)) (sy_sockets ?u)"
    using assms unfolding list_all_core ws len by (simp add: syncOk_def list_all_core)
  then have "syncOk (cleanUp s)" unfolding eq using over by (rule syncOk_over [rotated])
  moreover define u where "u = ?u"
  ultimately show ?thesis using over len unfolding eq u_def [symmetric] by simp
qed

lemma setUp_keeps:
  assumes "syncOk s" "list_all ru_disposed (sy_runs s)" "sy_current s = None"
  shows "syncOk (setUp env s)"
proof (cases "sy_left s")
  case True
  then show ?thesis using assms by (simp add: setUp_def)
next
  case False
  let ?t = "s\<lparr>sy_runs := sy_runs s @ [newRun (sy_props s)]\<rparr>"
  have "syncOk ?t"
    using assms by (auto simp: syncOk_def list_all_iff intro: less_SucI)
  then have "syncOk (connect env (length (sy_runs s)) ?t)" by (rule connect_keeps) simp
  then show ?thesis using False by (simp add: setUp_def)
qed

lemma runEffects_keeps [keeps]: "syncOk s \<Longrightarrow> syncOk (runEffects env s)"
proof -
  assume ok: "syncOk s"
  define t where "t = (case sy_deps s of None \<Rightarrow> s
    | Some (props, _, _) \<Rightarrow> if sp_room props \<noteq> sp_room (sy_props s) then sayGoodbye s else s)"
  have "syncOk t"
    using ok by (auto simp: t_def syncOk_core [OF core_sayGoodbye] split: option.splits)
  then have "syncOk ((cleanUp t)\<lparr>sy_deps := d\<rparr>) \<and> list_all ru_disposed (sy_runs ((cleanUp t)\<lparr>sy_deps := d\<rparr>))
      \<and> sy_current ((cleanUp t)\<lparr>sy_deps := d\<rparr>) = None" for d
    using cleanUp_over [of t] syncOk_core [of "(cleanUp t)\<lparr>sy_deps := d\<rparr>" "cleanUp t"] by simp
  then have "syncOk (setUp env ((cleanUp t)\<lparr>sy_deps := Some (depsOf (cleanUp t))\<rparr>))"
    by (intro setUp_keeps) auto
  then show ?thesis using ok by (simp add: runEffects_def t_def Let_def)
qed

lemma core_putRun_intro: "(\<And>u. ru_disposed (f u) = ru_disposed u) \<Longrightarrow> syncOk s \<Longrightarrow> syncOk (putRun r f s)"
  by (simp add: syncOk_core [OF core_putRun])

text \<open>Only a retry, an answer of the bot check, a wake-up and the end open or drop sockets.\<close>

fun moving :: "sync_event \<Rightarrow> bool" where
  "moving (RetryFires r timer) = True"
| "moving (HumanAnswered r) = True"
| "moving WakesUp = True"
| "moving Unmounts = True"
| "moving _ = False"

lemma core_onRun: "(\<And>r. core (f r s) = core s) \<Longrightarrow> core (onRun f s) = core s"
  by (simp add: onRun_def split: option.splits)

lemma core_handle [quiet]: "\<not> moving e \<Longrightarrow> core (handle env e s) = core s"
  by (cases e) (simp_all add: quiet core_onRun)

lemma handle_keeps [keeps]:
  assumes "syncOk s" shows "syncOk (handle env e s)"
proof (cases e)
  case (RetryFires r timer)
  have "syncOk (putRun r (\<lambda>u. u\<lparr>ru_armed := filter (\<lambda>t. fst t \<noteq> timer) (ru_armed u)\<rparr>) s)"
    using assms by (intro core_putRun_intro) simp_all
  then show ?thesis using RetryFires assms by (simp add: retryFires_def connect_keeps)
next
  case (HumanAnswered r)
  have "syncOk (putRun r (\<lambda>u. u\<lparr>ru_asking := ru_asking u - 1\<rparr>) s)"
    using assms by (intro core_putRun_intro) simp_all
  then show ?thesis using HumanAnswered assms by (simp add: humanAnswered_def openSocket_keeps)
next
  case WakesUp
  have "syncOk (putRun r (\<lambda>u. (clearRetry u)\<lparr>ru_attempt := 0\<rparr>) s)" for r
    using assms by (intro core_putRun_intro) simp_all
  then show ?thesis using WakesUp assms
    by (auto simp: onRun_def wakeUp_def liveRun_bound intro!: connect_keeps split: option.splits)
next
  case Unmounts
  have "syncOk (sayGoodbye s)" using assms by (simp add: syncOk_core [OF core_sayGoodbye])
  then have "syncOk (cleanUp (sayGoodbye s))" using cleanUp_over by blast
  then have "syncOk ((cleanUp (sayGoodbye s))\<lparr>sy_mounted := False\<rparr>)"
    by (rule syncOk_core [THEN iffD2, rotated]) simp
  then show ?thesis using Unmounts by (simp add: unmount_def)
qed (use assms syncOk_core [OF core_handle] in \<open>auto simp only: moving.simps simp_thms\<close>)

lemma syncStep_keeps [keeps]: "syncOk s \<Longrightarrow> syncOk (syncStep s ev)"
  by (cases ev) (simp add: syncStep_def Let_def handle_keeps runEffects_keeps)

interpretation live: component syncStep syncOk
  by unfold_locales (rule syncStep_keeps)

lemma syncOk_mount [simp]: "syncOk (mountSync env props media)"
  unfolding mountSync_def by (rule runEffects_keeps) (simp add: syncOk_def newSync_def)

lemma syncOk_run: "syncOk s \<Longrightarrow> syncOk (runSync s evs)"
  unfolding runSync_def by (rule live.run_keeps)

section \<open>Where a chat line goes\<close>

text \<open>The chat lines on the sockets and in the queue, as a multiset.\<close>

definition chatsOn :: "web_socket \<Rightarrow> payload multiset" where
  "chatsOn w = mset (map snd (filter (\<lambda>f. fst f = ''chat'') (ws_sent w)))"

definition chats :: "sync \<Rightarrow> payload multiset" where
  "chats s = mset (sy_pendingChat s) + sum_list (map chatsOn (sy_sockets s))"

lemma chatsOn_sent [simp]:
  "chatsOn (w\<lparr>ws_sent := ws_sent w @ [f]\<rparr>) = chatsOn w + (if fst f = ''chat'' then {#snd f#} else {#})"
  by (simp add: chatsOn_def)

lemma chats_fields [simp]:
  "chats (s\<lparr>sy_current := v1\<rparr>) = chats s"
  "chats (s\<lparr>sy_runs := v2\<rparr>) = chats s"
  "chats (s\<lparr>sy_mounted := v3\<rparr>) = chats s"
  "chats (s\<lparr>sy_props := v4\<rparr>) = chats s"
  "chats (s\<lparr>sy_deps := v5\<rparr>) = chats s"
  "chats (s\<lparr>sy_timers := v6\<rparr>) = chats s"
  "chats (s\<lparr>sy_forgotten := v7\<rparr>) = chats s"
  "chats (s\<lparr>sy_offset := v8\<rparr>) = chats s"
  "chats (s\<lparr>sy_seat := v9\<rparr>) = chats s"
  "chats (s\<lparr>sy_unanswered := v11\<rparr>) = chats s"
  "chats (s\<lparr>sy_buffering := v12\<rparr>) = chats s"
  "chats (s\<lparr>sy_media := v13\<rparr>) = chats s"
  "chats (s\<lparr>sy_starts := v14\<rparr>) = chats s"
  "chats (s\<lparr>sy_steerAt := v15\<rparr>) = chats s"
  "chats (s\<lparr>sy_state := v16\<rparr>) = chats s"
  "chats (s\<lparr>sy_controllerId := v17\<rparr>) = chats s"
  "chats (s\<lparr>sy_memberId := v18\<rparr>) = chats s"
  "chats (s\<lparr>sy_members := v19\<rparr>) = chats s"
  "chats (s\<lparr>sy_messages := v20\<rparr>) = chats s"
  "chats (s\<lparr>sy_presence := v21\<rparr>) = chats s"
  "chats (s\<lparr>sy_known := v22\<rparr>) = chats s"
  "chats (s\<lparr>sy_presenceSeq := v23\<rparr>) = chats s"
  "chats (s\<lparr>sy_autoplayBlocked := v24\<rparr>) = chats s"
  "chats (s\<lparr>sy_roomStatus := v25\<rparr>) = chats s"
  "chats (s\<lparr>sy_roomVersion := v26\<rparr>) = chats s"
  "chats (s\<lparr>sy_mediaPatch := v27\<rparr>) = chats s"
  "chats (s\<lparr>sy_connected := v28\<rparr>) = chats s"
  "chats (s\<lparr>sy_serverOffsetMs := v29\<rparr>) = chats s"
  "chats (s\<lparr>sy_capability := v30\<rparr>) = chats s"
  "chats (s\<lparr>sy_waiting := v31\<rparr>) = chats s"
  "chats (s\<lparr>sy_gating := v32\<rparr>) = chats s"
  "chats (s\<lparr>sy_hostSubtitles := v33\<rparr>) = chats s"
  "chats (s\<lparr>sy_titleRequests := v34\<rparr>) = chats s"
  "chats (s\<lparr>sy_lastError := v35\<rparr>) = chats s"
  "chats (s\<lparr>sy_errorSeq := v36\<rparr>) = chats s"
  "chats (s\<lparr>sy_deadlineMs := v37\<rparr>) = chats s"
  "chats (s\<lparr>sy_left := v38\<rparr>) = chats s"
  "chats (s\<lparr>sy_kicked := v39\<rparr>) = chats s"
  "chats (s\<lparr>sy_replaced := v40\<rparr>) = chats s"
  "chats (s\<lparr>sy_gone := v41\<rparr>) = chats s"
  "chats (s\<lparr>sy_titleSeq := v42\<rparr>) = chats s"
  "chats (s\<lparr>sy_stages := v43\<rparr>) = chats s"
  "chats (s\<lparr>sy_door := v44\<rparr>) = chats s"
  "chats (s\<lparr>sy_doorNonce := v45\<rparr>) = chats s"
  "chats (s\<lparr>sy_knocks := v46\<rparr>) = chats s"
  "chats (s\<lparr>sy_bans := v47\<rparr>) = chats s"
  "chats (s\<lparr>sy_forced := v48\<rparr>) = chats s"
  "chats (s\<lparr>sy_mediaCalls := v49\<rparr>) = chats s"
  by (simp_all add: chats_def)

lemma sum_list_add_at:
  fixes xs :: "'a :: comm_monoid_add list"
  assumes "i < length xs" shows "sum_list (xs[i := xs ! i + y]) = sum_list xs + y"
  using assms
proof (induction xs arbitrary: i)
  case (Cons x xs)
  then show ?case by (cases i) (simp_all add: ac_simps)
qed simp

lemma chats_socketSend:
  assumes "i < length (sy_sockets s)"
  shows "chats (socketSend i (t, p) s) = chats s + (if t = ''chat'' then {#p#} else {#})"
  using assms sum_list_add_at [of i "map chatsOn (sy_sockets s)" "if t = ''chat'' then {#p#} else {#}"]
  by (cases "t = ''chat''") (simp_all add: chats_def socketSend_def putSocket_def map_update ac_simps)

named_theorems unchatty "what moves no chat line"

lemma chats_putSocket [simp]:
  assumes "\<And>w. ws_sent (f w) = ws_sent w"
  shows "chats (putSocket i f s) = chats s"
  using map_update_same [of chatsOn "f (sy_sockets s ! i)" "sy_sockets s" i] assms
  by (simp add: chats_def putSocket_def chatsOn_def)

lemma chats_putRun [simp]: "chats (putRun r f s) = chats s"
  by (simp add: putRun_def)

lemma chats_socketSend_other [unchatty]: "t \<noteq> ''chat'' \<Longrightarrow> chats (socketSend i (t, p) s) = chats s"
  using map_update_same [of chatsOn "(\<lambda>w. w\<lparr>ws_sent := ws_sent w @ [(t, p)]\<rparr>) (sy_sockets s ! i)" "sy_sockets s" i]
  by (simp add: chats_def socketSend_def putSocket_def)

lemma chats_send_other [unchatty]: "t \<noteq> ''chat'' \<Longrightarrow> chats (send t p s) = chats s"
  by (simp add: send_def unchatty split: option.splits)

lemma chats_sayGoodbye [unchatty]: "chats (sayGoodbye s) = chats s"
  by (simp add: sayGoodbye_def Let_def unchatty split: option.splits)

lemma chats_sendReadiness [unchatty]: "chats (sendReadiness env s) = chats s"
  by (simp add: sendReadiness_def Let_def unchatty split: option.splits)

lemma chats_pullBack [unchatty]: "chats (pullBack env st s) = chats s"
  by (simp add: pullBack_def Let_def unchatty split: option.splits)

lemma chats_reportBuffering [unchatty]: "chats (reportBuffering env stalled s) = chats s"
  by (simp add: reportBuffering_def Let_def unchatty split: option.splits)

lemma chats_dispatchStage [unchatty]: "chats (dispatchStage e s) = chats s"
  by (simp add: dispatchStage_def Let_def unchatty)

lemma chats_notePresence [unchatty]: "chats (notePresence env roster s) = chats s"
  by (simp add: notePresence_def Let_def unchatty split: option.splits)

lemma chats_applyMembers [unchatty]: "chats (applyMembers env ms s) = chats s"
  by (simp add: applyMembers_def Let_def unchatty)

lemma chats_startPlay [unchatty]: "chats (startPlay muted s) = chats s"
  by (simp add: startPlay_def Let_def unchatty)

lemma chats_playSettled [unchatty]: "chats (playSettled k result s) = chats s"
  by (simp add: playSettled_def Let_def unchatty)

lemma chats_applyState [unchatty]: "chats (applyState env st s) = chats s"
  by (simp add: applyState_def Let_def unchatty split: option.splits)

lemma chats_applyStateOf [unchatty]: "chats (applyStateOf env m s) = chats s"
  by (simp add: applyStateOf_def Let_def unchatty split: option.splits)

lemma chats_haltRun [unchatty]: "chats (haltRun r s) = chats s"
  by (simp add: haltRun_def Let_def unchatty)

lemma chats_noteClock [unchatty]: "chats (noteClock env m s) = chats s"
  by (simp add: noteClock_def Let_def unchatty split: option.splits)

lemma chats_fold_socketSend:
  "i < length (sy_sockets s) \<Longrightarrow> chats (fold (\<lambda>p. socketSend i (''chat'', p)) ps s) = chats s + mset ps"
  by (induction ps arbitrary: s) (simp_all add: chats_socketSend core_lengths(1) [OF core_socketSend])

lemma chats_flushChat:
  assumes "i < length (sy_sockets s)" shows "chats (flushChat i s) = chats s"
proof -
  have "chats s = chats (s\<lparr>sy_pendingChat := []\<rparr>) + mset (sy_pendingChat s)" by (simp add: chats_def)
  then show ?thesis using assms by (simp add: flushChat_def chats_fold_socketSend)
qed

lemma chats_onType:
  assumes "i < length (sy_sockets s)" shows "chats (onType t env i r props m s) = chats s"
  by (cases t) (use assms in \<open>simp_all add: onKnock_def onForceMedia_def onTitleRequest_def onStageRequest_def
    onNeedBrowserMedia_def onError_def onWelcome_def Let_def unchatty chats_flushChat split: option.splits\<close>)

lemma chats_onMessage:
  assumes "i < length (sy_sockets s)" shows "chats (onMessage env i m s) = chats s"
proof -
  have "i < length (sy_sockets (noteClock env m (s\<lparr>sy_unanswered := None\<rparr>)))"
    using assms core_lengths(1) [OF core_noteClock] by simp
  then show ?thesis by (simp add: onMessage_def Let_def chats_onType unchatty)
qed

lemma chats_openSocket [unchatty]: "chats (openSocket r s) = chats s"
  by (simp add: openSocket_def chats_def chatsOn_def Let_def unchatty)

lemma chats_connect [unchatty]: "chats (connect env r s) = chats s"
  by (simp add: connect_def Let_def unchatty)

lemma chats_onOpen [unchatty]: "chats (onOpen env i s) = chats s"
  by (simp add: onOpen_def Let_def unchatty)

lemma chats_armRetry [unchatty]: "chats (armRetry env r s) = chats s"
  by (simp add: armRetry_def Let_def unchatty)

lemma chats_onClose [unchatty]: "chats (onClose env i s) = chats s"
  by (simp add: onClose_def Let_def unchatty)

lemma chats_retryFires [unchatty]: "chats (retryFires env r timer s) = chats s"
  by (simp add: retryFires_def Let_def unchatty)

lemma chats_humanAnswered [unchatty]: "chats (humanAnswered r s) = chats s"
  by (simp add: humanAnswered_def Let_def unchatty)

lemma chats_wakeUp [unchatty]: "chats (wakeUp env r s) = chats s"
  by (simp add: wakeUp_def Let_def unchatty)

lemma chats_goneAnswered [unchatty]: "chats (goneAnswered r isGone s) = chats s"
  by (simp add: goneAnswered_def Let_def unchatty)

lemma chats_closeSocket [unchatty]: "chats (closeSocket i s) = chats s"
  by (simp add: closeSocket_def Let_def unchatty)

lemma chats_heartbeat [unchatty]: "chats (heartbeat env r s) = chats s"
  by (simp add: heartbeat_def Let_def unchatty split: option.splits)

lemma chats_leave [unchatty]: "chats (leave s) = chats s"
  by (simp add: leave_def Let_def unchatty)

lemma chats_requestStage [unchatty]: "chats (requestStage kind s) = chats s"
  by (simp add: requestStage_def Let_def unchatty)

lemma chats_answerStage [unchatty]: "chats (answerStage request allow s) = chats s"
  by (simp add: answerStage_def Let_def unchatty)

lemma chats_closeStage [unchatty]: "chats (closeStage kind target s) = chats s"
  by (simp add: closeStage_def Let_def unchatty)

lemma chats_setSpotlight [unchatty]: "chats (setSpotlight spot s) = chats s"
  by (simp add: setSpotlight_def Let_def unchatty)

lemma chats_answerKnock [unchatty]: "chats (answerKnock let_in request s) = chats s"
  by (simp add: answerKnock_def Let_def unchatty)

lemma chats_retryDoor [unchatty]: "chats (retryDoor s) = chats s"
  by (simp add: retryDoor_def Let_def unchatty)

lemma chats_cleanUp [unchatty]: "chats (cleanUp s) = chats s"
  by (simp add: cleanUp_def Let_def unchatty split: option.splits)

lemma chats_setUp [unchatty]: "chats (setUp env s) = chats s"
  by (simp add: setUp_def Let_def unchatty)

lemma chats_runEffects [unchatty]: "chats (runEffects env s) = chats s"
  by (simp add: runEffects_def Let_def unchatty split: option.splits)

lemma chats_unmount [unchatty]: "chats (unmount s) = chats s"
  by (simp add: unmount_def Let_def unchatty)

lemma chats_onRun: "(\<And>r. chats (f r s) = chats s) \<Longrightarrow> chats (onRun f s) = chats s"
  by (simp add: onRun_def split: option.splits)

fun typed :: "sync_event \<Rightarrow> payload list" where
  "typed (CallSend t p) = (if t = ''chat'' then [p] else [])"
| "typed _ = []"

lemma openSocketOf_bound: "syncOk s \<Longrightarrow> openSocketOf s = Some i \<Longrightarrow> i < length (sy_sockets s)"
  by (auto simp: openSocketOf_def syncOk_def split: option.splits if_splits)

lemma chats_send:
  assumes "syncOk s" shows "chats (send t p s) = chats s + (if t = ''chat'' then {#p#} else {#})"
proof (cases "openSocketOf s")
  case None
  then show ?thesis by (simp add: send_def chats_def)
next
  case (Some i)
  then show ?thesis using openSocketOf_bound [OF assms] by (simp add: send_def chats_socketSend)
qed

lemma chats_handle:
  assumes "syncOk s" shows "chats (handle env e s) = chats s + mset (typed e)"
  by (cases e) (use assms in \<open>simp_all add: unchatty chats_onRun chats_onMessage chats_send\<close>)

lemma chats_syncStep: "syncOk s \<Longrightarrow> chats (syncStep s ev) = chats s + mset (typed (snd ev))"
  by (cases ev) (simp add: syncStep_def Let_def chats_handle chats_runEffects)

text \<open>The welcome of the socket the hook is on, while it is open.\<close>

fun welcomes :: "sync \<Rightarrow> sync_event \<Rightarrow> bool" where
  "welcomes s (Receives i m) \<longleftrightarrow>
     ob_type m = MWelcome \<and> sy_current s = Some i \<and> i < length (sy_sockets s)
     \<and> ws_ready (socketAt s i) = SocketOpen"
| "welcomes s _ \<longleftrightarrow> False"

section \<open>Which seat a socket asks for\<close>

text \<open>Only a welcome gives a seat, and what is queued goes out with it.\<close>

definition seatView :: "sync \<Rightarrow> seat option \<times> payload list" where
  "seatView s = (sy_seat s, sy_pendingChat s)"

text \<open>What changes neither the seat nor shortens the queue of chat lines.\<close>

lemma seat_socketSend [simp]: "sy_seat (socketSend i f s) = sy_seat s"
  "sy_pendingChat (socketSend i f s) = sy_pendingChat s"
  by (simp_all add: socketSend_def putSocket_def)

lemma seat_putRun [simp]: "sy_seat (putRun r f s) = sy_seat s" "sy_pendingChat (putRun r f s) = sy_pendingChat s"
  by (simp_all add: putRun_def)

lemma seat_putSocket [simp]: "sy_seat (putSocket i f s) = sy_seat s"
  "sy_pendingChat (putSocket i f s) = sy_pendingChat s"
  by (simp_all add: putSocket_def)

lemma seat_fold_socketSend [simp]:
  "sy_seat (fold (\<lambda>p. socketSend i (t, p)) ps s) = sy_seat s"
  "sy_pendingChat (fold (\<lambda>p. socketSend i (t, p)) ps s) = sy_pendingChat s"
  by (induction ps arbitrary: s) simp_all

lemma seat_send [simp]: "sy_seat (send t p s) = sy_seat s"
  by (simp add: send_def split: option.splits)

lemma seat_parts [simp]:
  "sy_seat (sendReadiness env s) = sy_seat s"
  "sy_seat (pullBack env st s) = sy_seat s" "sy_pendingChat (pullBack env st s) = sy_pendingChat s"
  "sy_seat (reportBuffering env b s) = sy_seat s"
  "sy_seat (sayGoodbye s) = sy_seat s"
  "sy_seat (dispatchStage e s) = sy_seat s" "sy_pendingChat (dispatchStage e s) = sy_pendingChat s"
  "sy_seat (notePresence env roster s) = sy_seat s" "sy_pendingChat (notePresence env roster s) = sy_pendingChat s"
  "sy_seat (startPlay b s) = sy_seat s" "sy_pendingChat (startPlay b s) = sy_pendingChat s"
  "sy_seat (noteClock env m s) = sy_seat s" "sy_pendingChat (noteClock env m s) = sy_pendingChat s"
  "sy_seat (haltRun r s) = sy_seat s" "sy_seat (closeSocket i s) = sy_seat s"
  by (simp_all add: sendReadiness_def pullBack_def reportBuffering_def sayGoodbye_def dispatchStage_def
      notePresence_def startPlay_def noteClock_def haltRun_def closeSocket_def Let_def split: option.splits)

lemma seat_apply [simp]:
  "sy_seat (applyMembers env ms s) = sy_seat s" "sy_pendingChat (applyMembers env ms s) = sy_pendingChat s"
  "sy_seat (applyStateOf env m s) = sy_seat s" "sy_pendingChat (applyStateOf env m s) = sy_pendingChat s"
  "sy_seat (playSettled k result s) = sy_seat s"
  by (simp_all add: applyMembers_def applyStateOf_def applyState_def playSettled_def Let_def split: option.splits)

lemma seat_connection [simp]:
  "sy_seat (openSocket r s) = sy_seat s" "sy_seat (connect env r s) = sy_seat s"
  "sy_seat (onOpen env i s) = sy_seat s" "sy_seat (armRetry env r s) = sy_seat s"
  "sy_seat (onClose env i s) = sy_seat s" "sy_seat (retryFires env r timer s) = sy_seat s"
  "sy_seat (humanAnswered r s) = sy_seat s" "sy_seat (goneAnswered r isGone s) = sy_seat s"
  "sy_seat (wakeUp env r s) = sy_seat s" "sy_seat (heartbeat env r s) = sy_seat s"
  "sy_seat (cleanUp s) = sy_seat s" "sy_seat (setUp env s) = sy_seat s"
  by (simp_all add: openSocket_def connect_def onOpen_def armRetry_def onClose_def retryFires_def
      humanAnswered_def goneAnswered_def wakeUp_def heartbeat_def cleanUp_def setUp_def Let_def
      split: option.splits)

lemma seat_runEffects [simp]: "sy_seat (runEffects env s) = sy_seat s"
  by (simp add: runEffects_def Let_def split: option.splits prod.splits)

lemma seat_calls [simp]:
  "sy_seat (leave s) = sy_seat s" "sy_seat (requestStage kind s) = sy_seat s"
  "sy_seat (answerStage request allow s) = sy_seat s" "sy_seat (closeStage kind target s) = sy_seat s"
  "sy_seat (setSpotlight spot s) = sy_seat s" "sy_seat (answerKnock let_in request s) = sy_seat s"
  "sy_seat (retryDoor s) = sy_seat s" "sy_seat (unmount s) = sy_seat s"
  by (simp_all add: leave_def requestStage_def answerStage_def closeStage_def setSpotlight_def
      answerKnock_def retryDoor_def unmount_def Let_def)

lemma seat_onType: "t \<noteq> MWelcome \<Longrightarrow> sy_seat (onType t env i r props m s) = sy_seat s"
  by (cases t) (simp_all add: onKnock_def onForceMedia_def onTitleRequest_def onStageRequest_def
    onNeedBrowserMedia_def onError_def Let_def split: option.splits)

lemma seat_onWelcome:
  "sy_seat (onWelcome env i props m s) = Some \<lparr>seat_room = sp_room props,
     seat_member = orElse (ob_memberId m) [], seat_capability = orElse (ob_capability m) []\<rparr>"
  "sy_pendingChat (onWelcome env i props m s) = []"
  by (simp_all add: onWelcome_def flushChat_def Let_def)

lemma seat_onRun: "(\<And>r. sy_seat (f r s) = sy_seat s) \<Longrightarrow> sy_seat (onRun f s) = sy_seat s"
  by (simp add: onRun_def split: option.splits)

lemma seat_onMessage: "ob_type m \<noteq> MWelcome \<or> sy_current s \<noteq> Some i \<Longrightarrow> sy_seat (onMessage env i m s) = sy_seat s"
  by (auto simp: onMessage_def Let_def seat_onType)

lemma seat_handle: "\<not> welcomes s e \<Longrightarrow> sy_seat (handle env e s) = sy_seat s"
  by (cases e) (auto simp: seat_onRun seat_onMessage)

lemma seat_syncStep: "\<not> welcomes s (snd ev) \<Longrightarrow> sy_seat (syncStep s ev) = sy_seat s"
  by (cases ev) (simp add: syncStep_def Let_def seat_handle)

lemma seat_run:
  "along syncStep (\<lambda>s ev. \<not> welcomes s (snd ev)) s evs \<Longrightarrow> sy_seat (runSync s evs) = sy_seat s"
  by (induction evs arbitrary: s) (simp_all add: runSync_def seat_syncStep)

text \<open>What was sent stays sent, and the effects send no chat line off the queue.\<close>

lemma sent_putSocket:
  assumes "\<And>w. set (ws_sent w) \<subseteq> set (ws_sent (f w))" "fr \<in> set (ws_sent (socketAt s j))"
  shows "fr \<in> set (ws_sent (socketAt (putSocket i f s) j))"
  using assms
  by (cases "i = j"; cases "i < length (sy_sockets s)") (auto simp: putSocket_def list_update_beyond)

lemma sent_putRun [simp]: "socketAt (putRun r f s) j = socketAt s j"
  by (simp add: putRun_def)

lemma sent_sayGoodbye:
  assumes "fr \<in> set (ws_sent (socketAt s j))" shows "fr \<in> set (ws_sent (socketAt (sayGoodbye s) j))"
  using assms by (auto simp: sayGoodbye_def socketSend_def intro!: sent_putSocket split: option.splits)

lemma sent_cleanUp:
  assumes "fr \<in> set (ws_sent (socketAt s j))" shows "fr \<in> set (ws_sent (socketAt (cleanUp s) j))"
  using assms by (auto simp: cleanUp_def closeSocket_def Let_def intro!: sent_putSocket split: option.splits)

lemma sent_openSocket:
  assumes "j < length (sy_sockets s)" shows "socketAt (openSocket r s) j = socketAt s j"
  using assms by (simp add: openSocket_def nth_append)

lemma sent_setUp:
  assumes "j < length (sy_sockets s)" shows "socketAt (setUp env s) j = socketAt s j"
  using assms by (simp add: setUp_def connect_def sent_openSocket)

lemma length_cleanUp [simp]: "length (sy_sockets (cleanUp s)) = length (sy_sockets s)"
  by (simp add: cleanUp_def closeSocket_def putSocket_def putRun_def Let_def split: option.splits)

lemma sent_runEffects:
  assumes "fr \<in> set (ws_sent (socketAt s j))" "j < length (sy_sockets s)"
  shows "fr \<in> set (ws_sent (socketAt (runEffects env s) j))"
  using assms sent_cleanUp [OF sent_sayGoodbye] core_lengths(1) [OF core_sayGoodbye, of s]
  by (simp add: runEffects_def Let_def sent_setUp sent_cleanUp split: option.splits prod.splits)

lemma pending_sayGoodbye [simp]: "sy_pendingChat (sayGoodbye s) = sy_pendingChat s"
  by (simp add: sayGoodbye_def split: option.splits)

lemma pending_runEffects [simp]: "sy_pendingChat (runEffects env s) = sy_pendingChat s"
  by (simp add: runEffects_def setUp_def connect_def openSocket_def cleanUp_def closeSocket_def Let_def
      split: option.splits prod.splits)

lemma welcome_flushes:
  assumes "welcomes s e" shows "sy_pendingChat (syncStep s (env, e)) = []"
  using assms by (cases e) (auto simp: syncStep_def Let_def onMessage_def seat_onWelcome)

lemma welcome_seats:
  assumes "welcomes s (Receives i m)"
  shows "sy_seat (syncStep s (env, Receives i m)) =
    Some \<lparr>seat_room = sp_room (ru_props (runAt s (ws_run (socketAt s i)))),
      seat_member = orElse (ob_memberId m) [], seat_capability = orElse (ob_capability m) []\<rparr>"
  using assms by (auto simp: syncStep_def Let_def onMessage_def seat_onWelcome noteClock_def split: option.splits)

lemma hello_sent:
  assumes "j < length (sy_sockets s)" "ws_ready (socketAt s j) = Connecting"
  shows "(''hello'', hello env (ru_props (runAt s (ws_run (socketAt s j))))
      (seatIn (sp_room (ru_props (runAt s (ws_run (socketAt s j))))) s))
    \<in> set (ws_sent (socketAt (syncStep s (env, SocketOpens j)) j))"
proof -
  let ?p = "ru_props (runAt s (ws_run (socketAt s j)))"
  have "(''hello'', hello env ?p (seatIn (sp_room ?p) s)) \<in> set (ws_sent (socketAt (onOpen env j s) j))"
    using assms by (simp add: onOpen_def Let_def socketSend_def putSocket_def putRun_def seatIn_def)
  moreover have "length (sy_sockets (onOpen env j s)) = length (sy_sockets s)"
    by (rule core_lengths) (rule core_onOpen)
  ultimately show ?thesis using assms sent_runEffects by (simp add: syncStep_def Let_def)
qed

lemma map_of_strField: "k \<noteq> key \<Longrightarrow> map_of (strField k v @ xs) key = map_of xs key"
  by (simp add: strField_def del: map_of_append)

lemma hello_asks:
  "map_of (hello env props (Some h)) ''memberId'' = Some (JStr (seat_member h))"
  "map_of (hello env props (Some h)) ''capability'' = Some (JStr (seat_capability h))"
  by (cases "sp_tvToken props = []";
      simp only: hello_def if_True if_False not_True_eq_False not_False_eq_True;
      simp add: seatFields_def map_of_strField del: map_of_append)+

section \<open>A run that was stopped\<close>

text \<open>
  What a run can still open: its sockets so far, the answers of the bot check
  it waits for and the retries it armed.
\<close>

definition waysBack :: "nat \<Rightarrow> sync \<Rightarrow> nat" where
  "waysBack r s = length (filter (\<lambda>k. k = r) (map ws_run (sy_sockets s)))
     + ru_asking (runAt s r) + length (ru_armed (runAt s r))"

definition stopped :: "nat \<Rightarrow> sync \<Rightarrow> bool" where
  "stopped r s \<longleftrightarrow> r < length (sy_runs s) \<and> (ru_halted (runAt s r) \<or> ru_disposed (runAt s r))"

definition quieter :: "nat \<Rightarrow> sync \<Rightarrow> sync \<Rightarrow> bool" where
  "quieter r s t \<longleftrightarrow> (stopped r s \<longrightarrow> stopped r t \<and> waysBack r t \<le> waysBack r s)"

lemma quieter_refl [simp]: "quieter r s s"
  by (simp add: quieter_def)

lemma quieter_trans: "quieter r s t \<Longrightarrow> quieter r t u \<Longrightarrow> quieter r s u"
  by (auto simp: quieter_def)

lemma quieter_same: "sy_runs t = sy_runs s \<Longrightarrow> core t = core s \<Longrightarrow> quieter r s t"
  by (simp add: quieter_def stopped_def waysBack_def core_def)

lemma quieter_putRun:
  assumes "\<And>u. ru_halted u \<Longrightarrow> ru_halted (f u)" "\<And>u. ru_disposed u \<Longrightarrow> ru_disposed (f u)"
    "\<And>u. ru_asking (f u) \<le> ru_asking u" "\<And>u. length (ru_armed (f u)) \<le> length (ru_armed u)"
  shows "quieter r s (putRun k f s)"
  using assms add_mono [OF assms(3) assms(4), of "runAt s r" "runAt s r"]
  by (cases "k = r") (auto simp: quieter_def stopped_def waysBack_def putRun_def)

lemma quieter_putRun_other: "k \<noteq> r \<Longrightarrow> quieter r s (putRun k f s)"
  by (simp add: quieter_def stopped_def waysBack_def putRun_def)

lemma quieter_openSocket_other: "k \<noteq> r \<Longrightarrow> quieter r s (openSocket k s)"
  by (simp add: quieter_def stopped_def waysBack_def openSocket_def)

lemma quieter_connect_other: "k \<noteq> r \<Longrightarrow> quieter r s (connect env k s)"
  by (simp add: connect_def quieter_openSocket_other quieter_putRun_other)

lemma connect_adds_one:
  assumes "r < length (sy_runs s)"
  shows "waysBack r (connect env r s) \<le> Suc (waysBack r s)"
    "ru_halted (runAt (connect env r s) r) = ru_halted (runAt s r)"
    "ru_disposed (runAt (connect env r s) r) = ru_disposed (runAt s r)"
    "length (sy_runs (connect env r s)) = length (sy_runs s)"
  using assms by (auto simp: connect_def waysBack_def openSocket_def putRun_def)

lemma length_clearRetry: "length (ru_armed (clearRetry u)) \<le> length (ru_armed u)"
  by (simp add: clearRetry_def split: option.splits)

lemma quieter_retryFires: "quieter r s (retryFires env k timer s)"
proof (cases "k = r \<and> timer \<in> fst ` set (ru_armed (runAt s k))")
  case False
  then show ?thesis
    by (auto simp: retryFires_def intro!: quieter_trans [OF quieter_putRun_other quieter_connect_other])
next
  case True
  let ?t = "putRun r (\<lambda>u. u\<lparr>ru_armed := filter (\<lambda>t. fst t \<noteq> timer) (ru_armed u)\<rparr>) s"
  have less: "length (filter (\<lambda>t. fst t \<noteq> timer) (ru_armed (runAt s r))) < length (ru_armed (runAt s r))"
    using True by (auto intro!: length_filter_less)
  have step: "retryFires env k timer s = connect env r ?t" using True by (auto simp: retryFires_def)
  show ?thesis
    unfolding quieter_def
  proof
    assume "stopped r s"
    then have r: "r < length (sy_runs s)" by (simp add: stopped_def)
    then have "Suc (waysBack r ?t) \<le> waysBack r s" using less by (simp add: waysBack_def putRun_def)
    then show "stopped r (retryFires env k timer s) \<and> waysBack r (retryFires env k timer s) \<le> waysBack r s"
      using \<open>stopped r s\<close> r connect_adds_one [of r ?t env]
      unfolding step by (simp add: stopped_def) (simp add: putRun_def)
  qed
qed

lemma quieter_humanAnswered: "quieter r s (humanAnswered k s)"
proof (cases "k = r \<and> ru_asking (runAt s k) \<noteq> 0")
  case False
  then show ?thesis
    by (auto simp: humanAnswered_def intro!: quieter_trans [OF quieter_putRun_other quieter_openSocket_other])
next
  case True
  then show ?thesis
    by (auto simp: quieter_def stopped_def waysBack_def humanAnswered_def openSocket_def putRun_def)
qed

lemma quieter_wakeUp: "quieter r s (wakeUp env k s)"
proof (cases "k = r")
  case True
  have "quieter r s (wakeUp env r s)"
    by (cases "stopped r s \<or> r \<ge> length (sy_runs s)") (auto simp: wakeUp_def quieter_def stopped_def)
  then show ?thesis using True by simp
next
  case False
  then show ?thesis
    by (auto simp: wakeUp_def intro!: quieter_trans [OF quieter_putRun_other quieter_connect_other])
qed

lemma quieter_onClose: "quieter r s (onClose env i s)"
proof (cases "stopped r s \<and> ws_run (socketAt s i) = r")
  case True
  then have "ru_disposed (runAt s r) \<or> ru_halted (runAt s r)" by (auto simp: stopped_def)
  then have "sy_runs (onClose env i s) = sy_runs s"
    using True by (auto simp: onClose_def Let_def putSocket_def)
  then show ?thesis by (rule quieter_same) (rule core_onClose)
next
  case False
  let ?k = "ws_run (socketAt s i)"
  have same: "runAt (onClose env i s) r = runAt s r" if "?k \<noteq> r"
    using that by (simp add: onClose_def armRetry_def putSocket_def putRun_def Let_def)
  show ?thesis
  proof (cases "?k = r")
    case True
    then show ?thesis using False by (simp add: quieter_def)
  next
    case False
    then show ?thesis
      using same core_lengths(2,5) [OF core_onClose, of env i s]
      by (simp add: quieter_def stopped_def waysBack_def)
  qed
qed

lemma quieter_then_putRun:
  assumes "quieter r s t" "\<And>u. ru_halted u \<Longrightarrow> ru_halted (f u)" "\<And>u. ru_disposed u \<Longrightarrow> ru_disposed (f u)"
    "\<And>u. ru_asking (f u) \<le> ru_asking u" "\<And>u. length (ru_armed (f u)) \<le> length (ru_armed u)"
  shows "quieter r s (putRun k f t)"
  using assms by (blast intro: quieter_trans quieter_putRun)

lemma quieter_haltRun: "quieter r s (haltRun k s)"
  by (simp add: haltRun_def quieter_putRun)

lemma quieter_goneAnswered: "quieter r s (goneAnswered k isGone s)"
proof -
  let ?t = "putRun k (\<lambda>u. u\<lparr>ru_goneAsks := ru_goneAsks u - 1\<rparr>) s"
  have t: "quieter r s ?t" by (rule quieter_putRun) simp_all
  have "quieter r ?t (putRun k clearRetry (haltRun k ?t))"
    by (rule quieter_then_putRun [OF quieter_haltRun]) (simp_all add: length_clearRetry)
  then have "quieter r ?t ((putRun k clearRetry (haltRun k ?t))\<lparr>sy_gone := True\<rparr>)"
    by (rule quieter_trans) (rule quieter_same, simp_all)
  then show ?thesis using t by (auto simp: goneAnswered_def Let_def intro: quieter_trans)
qed

named_theorems samerun "what leaves the runs alone"

lemma runs_socketSend [samerun]: "sy_runs (socketSend i f s) = sy_runs s"
  by (simp add: socketSend_def putSocket_def)

lemma runs_send [samerun]: "sy_runs (send t p s) = sy_runs s"
  by (simp add: send_def samerun split: option.splits)

lemma runs_fold_socketSend [samerun]: "sy_runs (fold (\<lambda>p. socketSend i (t, p)) ps s) = sy_runs s"
  by (induction ps arbitrary: s) (simp_all add: samerun)

lemma runs_parts [samerun]:
  "sy_runs (sendReadiness env s) = sy_runs s" "sy_runs (pullBack env st s) = sy_runs s"
  "sy_runs (sayGoodbye s) = sy_runs s" "sy_runs (dispatchStage e s) = sy_runs s"
  "sy_runs (notePresence env roster s) = sy_runs s" "sy_runs (startPlay b s) = sy_runs s"
  "sy_runs (noteClock env m s) = sy_runs s" "sy_runs (closeSocket i s) = sy_runs s"
  "sy_runs (flushChat i s) = sy_runs s"
  by (simp_all add: sendReadiness_def pullBack_def sayGoodbye_def dispatchStage_def notePresence_def
      startPlay_def noteClock_def closeSocket_def putSocket_def flushChat_def samerun Let_def split: option.splits)

lemma runs_apply [samerun]:
  "sy_runs (applyMembers env ms s) = sy_runs s" "sy_runs (applyStateOf env m s) = sy_runs s"
  "sy_runs (playSettled k result s) = sy_runs s" "sy_runs (reportBuffering env b s) = sy_runs s"
  by (simp_all add: applyMembers_def applyStateOf_def applyState_def playSettled_def reportBuffering_def
      samerun Let_def split: option.splits)

lemma runs_calls [samerun]:
  "sy_runs (leave s) = sy_runs s" "sy_runs (requestStage kind s) = sy_runs s"
  "sy_runs (answerStage request allow s) = sy_runs s" "sy_runs (closeStage kind target s) = sy_runs s"
  "sy_runs (setSpotlight spot s) = sy_runs s" "sy_runs (answerKnock let_in request s) = sy_runs s"
  "sy_runs (retryDoor s) = sy_runs s"
  by (simp_all add: leave_def requestStage_def answerStage_def closeStage_def setSpotlight_def
      answerKnock_def retryDoor_def samerun Let_def)

lemma runs_onType:
  "sy_runs (onType t env i k props m s) = sy_runs s
   \<or> sy_runs (onType t env i k props m s) = sy_runs (haltRun k s)
   \<or> sy_runs (onType t env i k props m s) = sy_runs (haltRun k (haltRun k s))"
  by (cases t) (simp_all add: onKnock_def onForceMedia_def onTitleRequest_def onStageRequest_def
    onNeedBrowserMedia_def onWelcome_def onError_def haltRun_def putRun_def samerun Let_def split: option.splits)

lemma quieter_runs: "sy_runs t = sy_runs u \<Longrightarrow> core t = core u \<Longrightarrow> quieter r s u \<Longrightarrow> quieter r s t"
  by (simp add: quieter_def stopped_def waysBack_def core_def)

lemma quieter_onType: "quieter r s (onType t env i k props m s)"
  using runs_onType [of t env i k props m s]
proof (elim disjE)
  assume "sy_runs (onType t env i k props m s) = sy_runs s"
  then show ?thesis by (rule quieter_same) (rule core_onType)
next
  assume "sy_runs (onType t env i k props m s) = sy_runs (haltRun k s)"
  then show ?thesis by (rule quieter_runs) (simp_all add: quiet quieter_haltRun)
next
  assume "sy_runs (onType t env i k props m s) = sy_runs (haltRun k (haltRun k s))"
  then show ?thesis
    by (rule quieter_runs) (simp_all add: quiet quieter_trans [OF quieter_haltRun quieter_haltRun])
qed

lemma quieter_onMessage: "quieter r s (onMessage env i m s)"
proof -
  have "quieter r s (noteClock env m (s\<lparr>sy_unanswered := None\<rparr>))"
    by (rule quieter_same) (simp_all add: samerun quiet)
  then show ?thesis by (auto simp: onMessage_def Let_def intro: quieter_trans quieter_onType)
qed

lemma quieter_onOpen: "quieter r s (onOpen env i s)"
proof -
  let ?k = "ws_run (socketAt s i)"
  let ?t = "putRun ?k (\<lambda>u. u\<lparr>ru_attempt := 0\<rparr>) s"
  have "sy_runs (onOpen env i s) = sy_runs ?t"
    by (simp add: onOpen_def Let_def samerun putRun_def putSocket_def)
  moreover have "core (onOpen env i s) = core ?t" by (simp add: core_onOpen)
  moreover have "quieter r s ?t" by (rule quieter_putRun) simp_all
  ultimately show ?thesis by (rule quieter_runs)
qed

lemma quieter_heartbeat: "quieter r s (heartbeat env k s)"
proof (cases "deadLink env s")
  case (Some i)
  let ?t = "putRun k (\<lambda>u. u\<lparr>ru_attempt := 0\<rparr>) s"
  have "sy_runs (heartbeat env k s) = sy_runs ?t" using Some by (simp add: heartbeat_def samerun)
  moreover have "core (heartbeat env k s) = core ?t" by (simp add: core_heartbeat)
  moreover have "quieter r s ?t" by (rule quieter_putRun) simp_all
  ultimately show ?thesis by (rule quieter_runs)
next
  case None
  then have "sy_runs (heartbeat env k s) = sy_runs s"
    by (simp add: heartbeat_def Let_def samerun split: option.splits)
  then show ?thesis by (rule quieter_same) (rule core_heartbeat)
qed

lemma quieter_drop: "quieter r s (s\<lparr>sy_current := c\<rparr>)"
  by (simp add: quieter_def stopped_def waysBack_def)

lemma quieter_closeSocket: "quieter r s (closeSocket i s)"
  by (rule quieter_same) (simp_all add: samerun quiet)

lemma quieter_cleanUp: "quieter r s (cleanUp s)"
proof (cases "liveRun s")
  case (Some k)
  have armed: "length (ru_armed (clearRetry (u\<lparr>ru_disposed := True\<rparr>))) \<le> length (ru_armed u)" for u
    using length_clearRetry [of "u\<lparr>ru_disposed := True\<rparr>"] by simp
  have "quieter r s (putRun k (\<lambda>u. clearRetry (u\<lparr>ru_disposed := True\<rparr>)) s)"
    by (rule quieter_putRun) (simp_all add: armed)
  then show ?thesis
    using Some by (auto simp: cleanUp_def Let_def split: option.splits
        intro: quieter_trans [OF _ quieter_trans [OF quieter_closeSocket quieter_drop]] quieter_trans [OF _ quieter_drop])
qed (simp add: cleanUp_def)

lemma quieter_setUp: "quieter r s (setUp env s)"
proof (cases "r < length (sy_runs s)")
  case True
  let ?t = "s\<lparr>sy_runs := sy_runs s @ [newRun (sy_props s)]\<rparr>"
  have "quieter r s ?t" using True by (simp add: quieter_def stopped_def waysBack_def nth_append)
  then show ?thesis using True by (auto simp: setUp_def intro: quieter_trans quieter_connect_other)
qed (simp add: quieter_def stopped_def)

lemma quieter_runEffects: "quieter r s (runEffects env s)"
proof -
  have goodbye: "quieter r s (sayGoodbye s)" by (rule quieter_same) (simp_all add: samerun quiet)
  have deps: "quieter r t (t\<lparr>sy_deps := d\<rparr>)" for t d by (rule quieter_same) simp_all
  have "quieter r t (setUp env ((cleanUp t)\<lparr>sy_deps := d\<rparr>))" for t d
    by (blast intro: quieter_trans quieter_cleanUp deps quieter_setUp)
  then show ?thesis
    using goodbye by (auto simp: runEffects_def Let_def intro: quieter_trans split: option.splits)
qed

lemma quieter_onRun: "(\<And>k. quieter r s (f k s)) \<Longrightarrow> quieter r s (onRun f s)"
  by (simp add: onRun_def split: option.splits)

lemma quieter_handle: "quieter r s (handle env e s)"
proof (cases e)
  case Unmounts
  have "quieter r s (sayGoodbye s)" by (rule quieter_same) (simp_all add: samerun quiet)
  then have "quieter r s (cleanUp (sayGoodbye s))" using quieter_cleanUp by (rule quieter_trans)
  then show ?thesis using Unmounts by (simp add: unmount_def) (rule quieter_trans, assumption, rule quieter_same, simp_all)
qed (simp_all add: quieter_onOpen quieter_onClose quieter_onMessage quieter_retryFires quieter_humanAnswered
    quieter_goneAnswered quieter_onRun quieter_wakeUp quieter_heartbeat quieter_same samerun quiet)

lemma quieter_step: "quieter r s (syncStep s ev)"
  by (cases ev) (auto simp: syncStep_def Let_def intro: quieter_handle quieter_trans quieter_runEffects)

lemma quieter_run: "quieter r s (runSync s evs)"
proof (induction evs arbitrary: s)
  case (Cons ev evs)
  have "quieter r s (runSync (syncStep s ev) evs)" by (rule quieter_trans [OF quieter_step Cons.IH])
  then show ?case by (simp add: runSync_def)
qed (simp add: runSync_def)

section \<open>A link that fell silent\<close>

fun speaks :: "sync_event \<Rightarrow> bool" where
  "speaks (Receives i m) = True"
| "speaks (SocketOpens i) = True"
| "speaks _ = False"

named_theorems unheard "what leaves the unanswered heartbeat alone"

lemma unheard_sends [unheard]:
  "sy_unanswered (socketSend i f s) = sy_unanswered s" "sy_unanswered (putSocket i g s) = sy_unanswered s"
  "sy_unanswered (putRun r h s) = sy_unanswered s"
  by (simp_all add: socketSend_def putSocket_def putRun_def)

lemma unheard_send [unheard]: "sy_unanswered (send t p s) = sy_unanswered s"
  by (simp add: send_def unheard split: option.splits)

lemma unheard_parts [unheard]:
  "sy_unanswered (sendReadiness env s) = sy_unanswered s" "sy_unanswered (pullBack env st s) = sy_unanswered s"
  "sy_unanswered (sayGoodbye s) = sy_unanswered s" "sy_unanswered (dispatchStage e s) = sy_unanswered s"
  "sy_unanswered (startPlay b s) = sy_unanswered s" "sy_unanswered (closeSocket i s) = sy_unanswered s"
  "sy_unanswered (haltRun r s) = sy_unanswered s" "sy_unanswered (openSocket r s) = sy_unanswered s"
  by (simp_all add: sendReadiness_def pullBack_def sayGoodbye_def dispatchStage_def startPlay_def
      closeSocket_def haltRun_def openSocket_def unheard Let_def split: option.splits)

lemma unheard_connection [unheard]:
  "sy_unanswered (connect env r s) = sy_unanswered s" "sy_unanswered (armRetry env r s) = sy_unanswered s"
  "sy_unanswered (onClose env i s) = sy_unanswered s" "sy_unanswered (retryFires env r timer s) = sy_unanswered s"
  "sy_unanswered (humanAnswered r s) = sy_unanswered s" "sy_unanswered (goneAnswered r isGone s) = sy_unanswered s"
  "sy_unanswered (wakeUp env r s) = sy_unanswered s" "sy_unanswered (cleanUp s) = sy_unanswered s"
  "sy_unanswered (setUp env s) = sy_unanswered s" "sy_unanswered (playSettled k result s) = sy_unanswered s"
  "sy_unanswered (reportBuffering env b s) = sy_unanswered s"
  by (simp_all add: connect_def armRetry_def onClose_def retryFires_def humanAnswered_def goneAnswered_def
      wakeUp_def cleanUp_def setUp_def playSettled_def reportBuffering_def unheard Let_def split: option.splits)

lemma unheard_runEffects [unheard]: "sy_unanswered (runEffects env s) = sy_unanswered s"
  by (simp add: runEffects_def unheard Let_def split: option.splits prod.splits)

lemma unheard_calls [unheard]:
  "sy_unanswered (leave s) = sy_unanswered s" "sy_unanswered (requestStage kind s) = sy_unanswered s"
  "sy_unanswered (answerStage request allow s) = sy_unanswered s"
  "sy_unanswered (closeStage kind target s) = sy_unanswered s"
  "sy_unanswered (setSpotlight spot s) = sy_unanswered s"
  "sy_unanswered (answerKnock let_in request s) = sy_unanswered s"
  "sy_unanswered (retryDoor s) = sy_unanswered s" "sy_unanswered (unmount s) = sy_unanswered s"
  by (simp_all add: leave_def requestStage_def answerStage_def closeStage_def setSpotlight_def
      answerKnock_def retryDoor_def unmount_def unheard Let_def)

lemma unheard_heartbeat:
  "sy_unanswered s = Some since \<Longrightarrow> sy_unanswered (heartbeat env r s) = Some since"
  by (simp add: heartbeat_def unheard Let_def split: option.splits)

lemma heartbeat_stamps:
  assumes "sy_unanswered s = None" "openSocketOf s \<noteq> None"
  shows "sy_unanswered (heartbeat env r s) = Some (en_now env)"
  using assms by (simp add: heartbeat_def deadLink_def unheard Let_def split: option.splits)

lemma unheard_onRun: "(\<And>r. sy_unanswered (f r s) = v) \<Longrightarrow> sy_unanswered s = v \<Longrightarrow> sy_unanswered (onRun f s) = v"
  by (simp add: onRun_def split: option.splits)

lemma unheard_step:
  assumes "\<not> speaks (snd ev)" "sy_unanswered s = Some since"
  shows "sy_unanswered (syncStep s ev) = Some since"
proof (cases ev)
  case (Pair env e)
  then have "sy_unanswered (handle env e s) = Some since"
    using assms by (cases e) (simp_all add: unheard unheard_onRun unheard_heartbeat)
  then show ?thesis by (simp add: Pair syncStep_def Let_def unheard)
qed

lemma unheard_run:
  "list_all (\<lambda>ev. \<not> speaks (snd ev)) evs \<Longrightarrow> sy_unanswered s = Some since
    \<Longrightarrow> sy_unanswered (runSync s evs) = Some since"
  by (induction evs arbitrary: s) (simp_all add: runSync_def unheard_step)

text \<open>The effects open no socket at once: a new one is still connecting.\<close>

lemma openSocketOf_sends [simp]:
  "openSocketOf (socketSend i f s) = openSocketOf s" "openSocketOf (putRun r g s) = openSocketOf s"
  by (cases "sy_current s"; cases "sy_current s = Some i \<and> i < length (sy_sockets s)";
      auto simp: openSocketOf_def socketSend_def putSocket_def putRun_def nth_list_update list_update_beyond)+

lemma openSocketOf_connect: "openSocketOf s = None \<Longrightarrow> openSocketOf (connect env r s) = None"
  by (simp add: connect_def openSocket_def) (simp add: openSocketOf_def nth_append)

lemma openSocketOf_current: "sy_current s = None \<Longrightarrow> openSocketOf s = None"
  by (simp add: openSocketOf_def)

lemma openSocketOf_runEffects:
  assumes "syncOk s" "openSocketOf s = None" shows "openSocketOf (runEffects env s) = None"
proof -
  have current: "sy_current (cleanUp t) = None" if "syncOk t" for t using cleanUp_over [OF that] by simp
  have fresh: "openSocketOf (setUp env t) = None" if "sy_current t = None" for t
    using that by (simp add: setUp_def openSocketOf_connect openSocketOf_current)
  have goodbye: "syncOk (sayGoodbye s)" using assms(1) by (simp add: syncOk_core [OF core_sayGoodbye])
  show ?thesis
    using assms current goodbye fresh
    by (simp add: runEffects_def Let_def split: option.splits prod.splits)
qed

lemma openSocketOf_closeSocket:
  assumes "syncOk s" "openSocketOf s = Some i" shows "openSocketOf (closeSocket i s) = None"
  using openSocketOf_bound [OF assms] assms(2)
  by (cases "sy_current s") (simp_all add: openSocketOf_def closeSocket_def putSocket_def split: if_splits)

lemma openSocketOf_same:
  "sy_sockets t = sy_sockets s \<Longrightarrow> sy_current t = sy_current s \<Longrightarrow> openSocketOf t = openSocketOf s"
  by (cases "sy_current s") (simp_all add: openSocketOf_def)

lemma openSocketOf_fields [simp]:
  "openSocketOf (s\<lparr>sy_buffering := b\<rparr>) = openSocketOf s" "openSocketOf (s\<lparr>sy_media := md\<rparr>) = openSocketOf s"
  "openSocketOf (s\<lparr>sy_unanswered := t\<rparr>) = openSocketOf s"
  "openSocketOf (s\<lparr>sy_pendingChat := ps\<rparr>) = openSocketOf s" "openSocketOf (s\<lparr>sy_deps := d\<rparr>) = openSocketOf s"
  by (rule openSocketOf_same; simp)+

lemma openSocketOf_send [simp]: "openSocketOf (send t p s) = openSocketOf s"
  by (auto simp: send_def split: option.splits)

lemma openSocketOf_parts [simp]:
  "openSocketOf (sendReadiness env s) = openSocketOf s"
  "openSocketOf (pullBack env st s) = openSocketOf s"
  by (simp_all add: sendReadiness_def pullBack_def Let_def split: option.splits)

lemma openSocketOf_heartbeat:
  assumes "openSocketOf s = None" shows "openSocketOf (heartbeat env r s) = None"
  using assms by (simp add: heartbeat_def deadLink_def Let_def split: option.splits)

lemma silent_heartbeat_closes:
  assumes "syncOk s" "sy_unanswered s = Some since" "DEAD_AFTER_MS < en_now env - since"
  shows "openSocketOf (syncStep s (env, HeartbeatDue)) = None"
proof -
  have "openSocketOf (handle env HeartbeatDue s) = None"
  proof (cases "openSocketOf s")
    case None
    then show ?thesis by (simp add: onRun_def openSocketOf_heartbeat split: option.splits)
  next
    case (Some i)
    then obtain r where r: "liveRun s = Some r"
      using assms(1) by (auto simp: syncOk_def openSocketOf_def split: option.splits)
    have ok: "syncOk (putRun r (\<lambda>u. u\<lparr>ru_attempt := 0\<rparr>) s)" using assms(1) by (rule core_putRun_intro [rotated]) simp
    have "deadLink env s = Some i" using Some assms by (simp add: deadLink_def)
    then show ?thesis using Some r ok by (simp add: onRun_def heartbeat_def openSocketOf_closeSocket)
  qed
  then show ?thesis
    using openSocketOf_runEffects [OF handle_keeps [OF assms(1)], of env HeartbeatDue]
    by (simp add: syncStep_def Let_def)
qed

section \<open>Who came and who went\<close>

text \<open>A presence note read as what it says of the roll.\<close>

definition applyMove :: "string set \<Rightarrow> bool \<times> string \<times> string \<Rightarrow> string set" where
  "applyMove ids mv = (if fst mv then insert (fst (snd mv)) ids else ids - {fst (snd mv)})"

lemma fold_joins: "foldl applyMove ids (map (\<lambda>m. (True, m)) ms) = ids \<union> fst ` set ms"
  by (induction ms arbitrary: ids) (auto simp: applyMove_def)

lemma fold_leaves: "foldl applyMove ids (map (\<lambda>m. (False, m)) ms) = ids - fst ` set ms"
  by (induction ms arbitrary: ids) (auto simp: applyMove_def)

lemma moves_replay: "foldl applyMove (fst ` set previous) (movesOf previous roster) = fst ` set roster"
proof -
  have joins: "fst ` set (filter (\<lambda>(i, _). mapGet previous i = None) roster) = fst ` set roster - fst ` set previous"
    by (force simp: mapGet_None)
  have leaves: "fst ` set (filter (\<lambda>(i, _). mapGet roster i = None) previous) = fst ` set previous - fst ` set roster"
    by (force simp: mapGet_None)
  show ?thesis unfolding movesOf_def foldl_append fold_joins fold_leaves joins leaves by auto
qed

lemma roster_ids: "fst ` set (fold (\<lambda>m. mapSet (mem_id m) (mem_nickname m)) ms acc) = fst ` set acc \<union> mem_id ` set ms"
  by (induction ms arbitrary: acc) auto

lemma rosterOf_ids: "fst ` set (rosterOf ms) = mem_id ` set ms"
  by (simp add: rosterOf_def roster_ids)

lemma presenceEvents_moves: "map (\<lambda>e. (pe_joined e, pe_member e, pe_nickname e)) (presenceEvents t seq moves) = moves"
  by (induction t seq moves rule: presenceEvents.induct) simp_all

lemma length_presenceEvents [simp]: "length (presenceEvents t seq moves) = length moves"
  by (induction t seq moves rule: presenceEvents.induct) simp_all

lemma presenceEvents_empty [simp]: "presenceEvents t seq moves = [] \<longleftrightarrow> moves = []"
  by (cases "(t, seq, moves)" rule: presenceEvents.cases) simp_all

lemma presenceEvents_ids: "map pe_id (presenceEvents t seq moves) = [Suc seq ..< Suc (seq + length moves)]"
proof (induction t seq moves rule: presenceEvents.induct)
  case (2 t seq joined who nickname moves)
  then show ?case by (simp add: upt_conv_Cons del: upt_Suc)
qed simp

text \<open>
  The notes kept: at most fifty, their ids in the order they came and none
  beyond the counter; and while someone is known, it is the members shown.
\<close>

definition presenceView :: "sync \<Rightarrow> presence_event list \<times> nat \<times> (string, string) jsmap option \<times> member list" where
  "presenceView s = (sy_presence s, sy_presenceSeq s, sy_known s, sy_members s)"

definition presenceOk :: "sync \<Rightarrow> bool" where
  "presenceOk s \<longleftrightarrow> length (sy_presence s) \<le> PRESENCE_LIMIT
     \<and> sorted_wrt (<) (map pe_id (sy_presence s))
     \<and> list_all (\<lambda>e. pe_id e \<le> sy_presenceSeq s) (sy_presence s)
     \<and> (case sy_known s of None \<Rightarrow> True | Some k \<Rightarrow> fst ` set k = mem_id ` set (sy_members s))"

lemma sorted_wrt_take_last: "sorted_wrt R xs \<Longrightarrow> sorted_wrt R (take_last n xs)"
  by (simp add: take_last_def sorted_wrt_drop)

lemma map_take_last: "map f (take_last n xs) = take_last n (map f xs)"
  by (simp add: take_last_def drop_map)

lemma presenceOk_applyMembers [keeps]:
  assumes "presenceOk s" shows "presenceOk (applyMembers env ms s)"
proof -
  define events where "events = (case sy_known s of None \<Rightarrow> []
    | Some previous \<Rightarrow> presenceEvents (serverNow env s) (sy_presenceSeq s) (movesOf previous (rosterOf ms)))"
  have ids: "map pe_id events = [Suc (sy_presenceSeq s) ..< Suc (sy_presenceSeq s + length events)]"
    by (simp add: events_def presenceEvents_ids del: upt_Suc split: option.splits)
  have view: "presenceView (applyMembers env ms s) =
      (if events = [] then sy_presence s else take_last PRESENCE_LIMIT (sy_presence s @ events),
       sy_presenceSeq s + length events, Some (rosterOf ms), ms)"
    by (cases "sy_known s"; cases "events = []")
       (simp_all add: presenceView_def applyMembers_def notePresence_def dispatchStage_def events_def Let_def)
  have le: "pe_id e \<le> sy_presenceSeq s + length events" if "e \<in> set (sy_presence s @ events)" for e
  proof (cases "e \<in> set events")
    case True
    then have "pe_id e \<in> set (map pe_id events)" by simp
    then show ?thesis unfolding ids by auto
  next
    case False
    then show ?thesis using that assms by (force simp: presenceOk_def list_all_iff)
  qed
  have old: "\<forall>e \<in> set (sy_presence s). pe_id e \<le> sy_presenceSeq s"
    using assms by (simp add: presenceOk_def list_all_iff)
  have new: "\<forall>e \<in> set events. sy_presenceSeq s < pe_id e"
  proof
    fix e assume "e \<in> set events"
    then have "pe_id e \<in> set (map pe_id events)" by simp
    then show "sy_presenceSeq s < pe_id e" unfolding ids by auto
  qed
  have sorted_events: "sorted_wrt (<) (map pe_id events)" unfolding ids by (simp del: upt_Suc)
  have "sorted_wrt (<) (map pe_id (sy_presence s @ events))"
    using assms old new sorted_events by (fastforce simp: presenceOk_def sorted_wrt_append)
  then show ?thesis
    using assms le view set_take_last [of PRESENCE_LIMIT "sy_presence s @ events"]
    by (auto simp: presenceOk_def presenceView_def list_all_iff rosterOf_ids map_take_last sorted_wrt_take_last
        simp del: map_append split: if_splits)
qed

lemma presenceOk_view: "presenceView t = presenceView s \<Longrightarrow> presenceOk t = presenceOk s"
  by (cases "sy_known s") (simp_all add: presenceView_def presenceOk_def)

section \<open>Properties\<close>

text \<open>
  C9: No chat line typed is lost or doubled: after any sequence of events,
  whatever sockets opened, died or were replaced, the lines sent on all the
  sockets together with the lines still queued are the lines typed, each as
  often as it was typed; and a welcome leaves none in the queue.
\<close>

theorem chat_is_never_lost:
  "chats (runSync (mountSync env props media) evs) = mset (concat (map (\<lambda>ev. typed (snd ev)) evs))
   \<and> (welcomes (runSync (mountSync env props media) evs) e
      \<longrightarrow> sy_pendingChat (syncStep (runSync (mountSync env props media) evs) (env', e)) = [])"
proof
  have run: "chats (runSync s evs) = chats s + mset (concat (map (\<lambda>ev. typed (snd ev)) evs))" if "syncOk s" for s
    using that
  proof (induction evs arbitrary: s)
    case (Cons ev evs)
    then show ?case
      using Cons.IH [of "syncStep s ev"] by (simp add: runSync_def chats_syncStep syncStep_keeps)
  qed (simp add: runSync_def)
  have "chats (mountSync env props media) = {#}"
    by (simp add: mountSync_def chats_runEffects) (simp add: chats_def newSync_def)
  then show "chats (runSync (mountSync env props media) evs) = mset (concat (map (\<lambda>ev. typed (snd ev)) evs))"
    by (simp add: run)
qed (simp add: welcome_flushes)

text \<open>
  C10: A welcome gives the browser a seat in the room, and whatever happens
  after it (closed sockets, retries, a new nickname, the password page) until
  another welcome, the next socket to that room that opens says hello with
  that very member id and capability.
\<close>

theorem seat_is_asked_back:
  fixes s i m evs j env1 env2 w
  defines "t \<equiv> runSync (syncStep s (env1, Receives i m)) evs"
  assumes greeted: "welcomes s (Receives i m)"
    and quiet: "along syncStep (\<lambda>s ev. \<not> welcomes s (snd ev)) (syncStep s (env1, Receives i m)) evs"
    and room: "sp_room (ru_props (runAt s (ws_run (socketAt s i)))) = sp_room (ru_props (runAt t (ws_run (socketAt t j))))"
    and j: "j < length (sy_sockets t)" "ws_ready (socketAt t j) = Connecting"
  shows "\<exists>payload. (''hello'', payload) \<in> set (ws_sent (socketAt (syncStep t (env2, SocketOpens j)) j))
    \<and> map_of payload ''memberId'' = Some (JStr (orElse (ob_memberId m) []))
    \<and> map_of payload ''capability'' = Some (JStr (orElse (ob_capability m) []))"
proof -
  let ?props = "ru_props (runAt t (ws_run (socketAt t j)))"
  let ?seat = "\<lparr>seat_room = sp_room ?props, seat_member = orElse (ob_memberId m) [],
    seat_capability = orElse (ob_capability m) []\<rparr>"
  have "sy_seat t = Some ?seat"
    unfolding t_def seat_run [OF quiet] welcome_seats [OF greeted] by (simp add: room t_def)
  then have "seatIn (sp_room ?props) t = Some ?seat" by (simp add: seatIn_def)
  then show ?thesis
    using hello_sent [OF j, of env2] hello_asks [of env2 ?props ?seat] by auto
qed

text \<open>
  C11: Being refused is for good: once the room says denied, asks for a
  password, or says the room is gone, the seat was taken or the host put this
  browser out, the run of the effect is stopped, and whatever comes after,
  it never has more sockets than those it had opened and those the bot check
  or a timer had already promised. Nothing arms a new way back.
\<close>

fun refusal :: "outbound \<Rightarrow> bool" where
  "refusal m \<longleftrightarrow> ob_type m = MDenied \<or> ob_type m = MError
     \<and> ob_error m \<in> Some ` set [''password_required'', ''bad_ticket'', ''room_gone'', ''kicked'', ''replaced'']"

lemma refusal_stops:
  assumes "syncOk s" "i < length (sy_sockets s)" "sy_current s = Some i" "refusal m"
  shows "stopped (ws_run (socketAt s i)) (onMessage env i m s)"
proof -
  let ?r = "ws_run (socketAt s i)"
  have r: "?r < length (sy_runs s)" using assms by (simp add: syncOk_def list_all_length)
  have "length (sy_runs (noteClock env m (s\<lparr>sy_unanswered := None\<rparr>))) = length (sy_runs s)"
    by (simp add: samerun)
  then show ?thesis
    using assms r by (auto simp: onMessage_def onError_def stopped_def haltRun_def putRun_def Let_def samerun)
qed

theorem refused_for_good:
  fixes s i m r env evs
  assumes "syncOk s" "i < length (sy_sockets s)" "ws_ready (socketAt s i) = SocketOpen"
    and "sy_current s = Some i" "refusal m" and r: "ws_run (socketAt s i) = r"
  defines "t \<equiv> syncStep s (env, Receives i m)"
  shows "stopped r (runSync t evs)
    \<and> length (filter (\<lambda>w. ws_run w = r) (sy_sockets (runSync t evs)))
        \<le> length (filter (\<lambda>w. ws_run w = r) (sy_sockets t)) + ru_asking (runAt t r) + length (ru_armed (runAt t r))"
proof -
  have "stopped r (handle env (Receives i m) s)"
    using refusal_stops [OF assms(1,2,4,5), of env] assms(2,3) unfolding r by simp
  then have t: "stopped r t"
    using quieter_runEffects [of r "handle env (Receives i m) s" env] by (auto simp: t_def syncStep_def Let_def quieter_def)
  have count: "length (filter (\<lambda>k. k = r) (map ws_run xs)) = length (filter (\<lambda>w. ws_run w = r) xs)" for xs
    by (simp add: filter_map o_def)
  show ?thesis using t quieter_run [of r t evs] by (simp add: quieter_def waysBack_def count comp_def)
qed

text \<open>
  A dead link is noticed: when a heartbeat found everything answered and
  since then no socket opened or spoke, the first heartbeat more than fifteen
  seconds later leaves no open socket, whatever the browser's sockets claim
  and whatever else happened in between.
\<close>

theorem dead_link_is_given_up:
  assumes "syncOk s" "openSocketOf s \<noteq> None" "sy_unanswered s = None"
    and "list_all (\<lambda>ev. \<not> speaks (snd ev)) evs"
    and "DEAD_AFTER_MS < en_now env2 - en_now env1"
  shows "openSocketOf (syncStep (runSync (syncStep s (env1, HeartbeatDue)) evs) (env2, HeartbeatDue)) = None"
proof -
  obtain i where i: "sy_current s = Some i" using assms(2) by (auto simp: openSocketOf_def split: option.splits)
  then obtain r where "liveRun s = Some r" using assms(1) by (auto simp: syncOk_def)
  then have "sy_unanswered (handle env1 HeartbeatDue s) = Some (en_now env1)"
    using heartbeat_stamps [OF assms(3,2)] by (simp add: onRun_def)
  then have "sy_unanswered (syncStep s (env1, HeartbeatDue)) = Some (en_now env1)"
    by (simp add: syncStep_def Let_def unheard)
  then have "sy_unanswered (runSync (syncStep s (env1, HeartbeatDue)) evs) = Some (en_now env1)"
    by (rule unheard_run [OF assms(4)])
  then show ?thesis
    by (rule silent_heartbeat_closes [OF syncOk_run [OF syncStep_keeps [OF assms(1)]]]) (rule assms(5))
qed

text \<open>
  The presence notes say who came and who went: replayed on the roll that
  was known they give exactly the members of the new one, the roll kept is the
  members shown, and the notes kept are the last fifty, with distinct ids in
  the order they happened.
\<close>

theorem presence_follows_roll:
  fixes s previous env ms
  assumes "presenceOk s" "sy_known s = Some previous"
  defines "t \<equiv> applyMembers env ms s"
    and "notes \<equiv> presenceEvents (serverNow env s) (sy_presenceSeq s) (movesOf previous (rosterOf ms))"
  shows "sy_presence t = take_last PRESENCE_LIMIT (sy_presence s @ notes)
    \<and> foldl applyMove (fst ` set previous) (map (\<lambda>e. (pe_joined e, pe_member e, pe_nickname e)) notes) = mem_id ` set ms
    \<and> presenceOk t"
proof -
  have "take_last PRESENCE_LIMIT (sy_presence s) = sy_presence s" using assms(1) by (simp add: presenceOk_def)
  then show ?thesis
    using assms(2) presenceOk_applyMembers [OF assms(1), of env ms]
    by (simp add: t_def notes_def presenceEvents_moves moves_replay rosterOf_ids applyMembers_def notePresence_def
        dispatchStage_def Let_def)
qed

section \<open>Sample runs\<close>

definition sampleEnv :: "int \<Rightarrow> sync_env" where
  "sampleEnv now =
     \<lparr>en_now = now, en_humanReady = True, en_hidden = False, en_random = 0, en_mediaOffset = 0,
      en_coldWait = False, en_coldFor = None, en_health = [], en_ownerToken = [], en_joinTicket = [],
      en_deviceId = [], en_avatar = [], en_desktop = False\<rparr>"

definition sampleProps :: sync_props where
  "sampleProps = \<lparr>sp_room = ''r'', sp_nickname = ''n'', sp_tvToken = [], sp_tvTicket = []\<rparr>"

definition sampleWelcome :: outbound where
  "sampleWelcome = (plainMessage MWelcome)\<lparr>ob_memberId := Some ''m'', ob_capability := Some ''c''\<rparr>"

definition sampleKick :: outbound where
  "sampleKick = (plainMessage MError)\<lparr>ob_error := Some ''kicked''\<rparr>"

definition sampleMount :: sync where
  "sampleMount = mountSync (sampleEnv 0) sampleProps None"

definition sampleTimes :: "(int \<times> sync_event) list \<Rightarrow> (sync_env \<times> sync_event) list" where
  "sampleTimes evs = map (\<lambda>(t, e). (sampleEnv t, e)) evs"

definition sampleOpen :: sync where
  "sampleOpen = runSync sampleMount (sampleTimes [(1, SocketOpens 0)])"

definition sampleMember :: "string \<Rightarrow> member" where
  "sampleMember who =
     \<lparr>mem_id = who, mem_nickname = who, mem_joinedAt = [], mem_mic = None, mem_cam = None,
      mem_hostMuted = None, mem_hostCamOff = None, mem_accountId = None, mem_avatar = None,
      mem_client = None, mem_tv = None\<rparr>"

lemma syncOk_sampleOpen: "syncOk sampleOpen"
  by (simp add: sampleOpen_def sampleMount_def syncOk_run)

lemma chat_is_never_lost_witness:
  "sy_pendingChat (syncStep (runSync sampleMount (sampleTimes [(1, CallSend ''chat'' []), (2, SocketOpens 0)]))
     (sampleEnv 3, Receives 0 sampleWelcome)) = []"
proof -
  have "welcomes (runSync sampleMount (sampleTimes [(1, CallSend ''chat'' []), (2, SocketOpens 0)])) (Receives 0 sampleWelcome)"
    by code_simp
  then show ?thesis
    using chat_is_never_lost [of "sampleEnv 0" sampleProps None
        "sampleTimes [(1, CallSend ''chat'' []), (2, SocketOpens 0)]" "Receives 0 sampleWelcome" "sampleEnv 3"]
    unfolding sampleMount_def by blast
qed

lemma seat_is_asked_back_witness:
  "let t = runSync (syncStep sampleOpen (sampleEnv 2, Receives 0 sampleWelcome))
       (sampleTimes [(3, SocketCloses 0), (900, RetryFires 0 0)])
   in \<exists>payload. (''hello'', payload) \<in> set (ws_sent (socketAt (syncStep t (sampleEnv 901, SocketOpens 1)) 1))
    \<and> map_of payload ''memberId'' = Some (JStr (orElse (ob_memberId sampleWelcome) []))
    \<and> map_of payload ''capability'' = Some (JStr (orElse (ob_capability sampleWelcome) []))"
  unfolding Let_def
proof (rule seat_is_asked_back)
  show "welcomes sampleOpen (Receives 0 sampleWelcome)" by code_simp
  show "along syncStep (\<lambda>s ev. \<not> welcomes s (snd ev)) (syncStep sampleOpen (sampleEnv 2, Receives 0 sampleWelcome))
    (sampleTimes [(3, SocketCloses 0), (900, RetryFires 0 0)])" by code_simp
qed code_simp+

lemma refused_for_good_witness:
  "stopped 0 (runSync (syncStep sampleOpen (sampleEnv 2, Receives 0 sampleKick)) [])"
proof -
  have hyps: "0 < length (sy_sockets sampleOpen)" "ws_ready (socketAt sampleOpen 0) = SocketOpen"
    "sy_current sampleOpen = Some 0" "refusal sampleKick" "ws_run (socketAt sampleOpen 0) = 0"
    by code_simp+
  show ?thesis using refused_for_good [OF syncOk_sampleOpen hyps, of "sampleEnv 2" "[]"] by blast
qed

lemma dead_link_is_given_up_witness:
  "openSocketOf (syncStep (runSync (syncStep sampleOpen (sampleEnv 0, HeartbeatDue)) (sampleTimes [(5, CallBuffering True)]))
     (sampleEnv 15001, HeartbeatDue)) = None"
  by (rule dead_link_is_given_up [OF syncOk_sampleOpen]; code_simp)

lemma presence_follows_roll_witness:
  "presenceOk (applyMembers (sampleEnv 9) [sampleMember ''b''] (applyMembers (sampleEnv 8) [sampleMember ''a''] sampleMount))"
proof -
  have hyps: "presenceOk (applyMembers (sampleEnv 8) [sampleMember ''a''] sampleMount)"
    "sy_known (applyMembers (sampleEnv 8) [sampleMember ''a''] sampleMount) = Some [(''a'', ''a'')]"
    by code_simp+
  show ?thesis using presence_follows_roll [OF hyps, of "sampleEnv 9" "[sampleMember ''b'']"] by blast
qed

text \<open>
  A socket given up for dead that closes late marks the live one as
  disconnected: the close handler clears \<open>connected\<close> before it asks whether
  the socket is still the hook's, so after a heartbeat gave up on the first
  socket, the network came back and the second one was welcomed, the late
  close leaves the hook disconnected with a live, open socket.
\<close>

theorem late_close_disconnects:
  "let s = runSync sampleMount (sampleTimes [(1, SocketOpens 0), (5, HeartbeatDue), (16000, HeartbeatDue),
        (16001, WakesUp), (16002, SocketOpens 1), (16003, Receives 1 sampleWelcome), (16004, SocketCloses 0)])
   in \<not> sy_connected s \<and> openSocketOf s = Some 1 \<and> sy_roomStatus s = ''live''"
  by code_simp

text \<open>
  Coming back to the tab while a socket is still connecting opens a second
  one, and leaving the page closes only the last: the first stays open after
  the unmount, with its hello sent.
\<close>

theorem wake_up_leaks_socket:
  "let s = runSync sampleMount (sampleTimes [(1, WakesUp), (2, SocketOpens 0), (3, SocketOpens 1), (4, Unmounts)])
   in ws_ready (socketAt s 0) = SocketOpen \<and> map fst (ws_sent (socketAt s 0)) = [''hello'']
     \<and> sy_current s = None \<and> \<not> sy_mounted s"
  by code_simp

end
