(* ===== verification/Magnet.thy ===== *)
theory Magnet
  imports JsText
begin

text \<open>
  Magnet links (\<open>web/src/remoteTorrent.ts\<close>): the base32 form of an info hash
  and the parts of the link the page uses. \<open>URLSearchParams\<close> is modelled as the
  platform documents it: pairs between \<open>&\<close>, split at the first \<open>=\<close>, \<open>+\<close> as a
  space and \<open>%XX\<close> as a byte; how the bytes then read as UTF-8 is the parameter
  \<open>utf8\<close>.
\<close>

section \<open>The base32 form of a hash\<close>

definition BASE32 :: string where "BASE32 = ''ABCDEFGHIJKLMNOPQRSTUVWXYZ234567''"

definition upperChar :: "char \<Rightarrow> char" where
  "upperChar c = (if 97 \<le> codeOf c \<and> codeOf c \<le> 122 then chr (codeOf c - 32) else c)"

text \<open>\<open>value.toString(2).padStart(5, '0')\<close>, a bit as a truth value.\<close>

definition fiveBits :: "nat \<Rightarrow> bool list" where
  "fiveBits v = map (\<lambda>k. odd (v div 2 ^ k)) [4, 3, 2, 1, 0]"

fun bitsLoop :: "string \<Rightarrow> bool list option" where
  "bitsLoop [] = Some []"
| "bitsLoop (c # s) =
     (case indexOfChar c BASE32 of
        None \<Rightarrow> None
      | Some v \<Rightarrow> (case bitsLoop s of None \<Rightarrow> None | Some bits \<Rightarrow> Some (fiveBits v @ bits)))"

definition bitVal :: "bool list \<Rightarrow> nat" where
  "bitVal bits = foldl (\<lambda>n b. 2 * n + (if b then 1 else 0)) 0 bits"

definition hexDigit :: "nat \<Rightarrow> char" where
  "hexDigit n = ''0123456789abcdef'' ! n"

definition hexByte :: "nat \<Rightarrow> string" where
  "hexByte n = [hexDigit (n div 16), hexDigit (n mod 16)]"

function hexLoop :: "bool list \<Rightarrow> string" where
  "hexLoop bits = (if length bits < 8 then [] else hexByte (bitVal (take 8 bits)) @ hexLoop (drop 8 bits))"
  by pat_completeness auto
termination by (relation "measure length") auto

declare hexLoop.simps [simp del]

definition base32ToHex :: "string \<Rightarrow> string option" where
  "base32ToHex input =
     (case bitsLoop (map upperChar input) of
        None \<Rightarrow> None
      | Some bits \<Rightarrow> let hex = hexLoop bits in if length hex = 40 then Some hex else None)"

section \<open>The query of the link\<close>

definition hexCode :: "char \<Rightarrow> nat option" where
  "hexCode c =
     (if isDigit c then Some (codeOf c - 48)
      else if 97 \<le> codeOf c \<and> codeOf c \<le> 102 then Some (codeOf c - 87)
      else if 65 \<le> codeOf c \<and> codeOf c \<le> 70 then Some (codeOf c - 55) else None)"

fun formDecode :: "string \<Rightarrow> string" where
  "formDecode (c # x # y # s) =
     (if c = CHR ''+'' then CHR '' '' # formDecode (x # y # s)
      else if c = CHR ''%'' then
        (case (hexCode x, hexCode y) of
           (Some hi, Some lo) \<Rightarrow> chr (16 * hi + lo) # formDecode s
         | _ \<Rightarrow> c # formDecode (x # y # s))
      else c # formDecode (x # y # s))"
| "formDecode (c # s) = (if c = CHR ''+'' then CHR '' '' else c) # formDecode s"
| "formDecode [] = []"

definition formPair :: "(string \<Rightarrow> string) \<Rightarrow> string \<Rightarrow> string \<times> string" where
  "formPair utf8 part =
     (case indexOfChar CHR ''='' part of
        None \<Rightarrow> (utf8 (formDecode part), [])
      | Some i \<Rightarrow> (utf8 (formDecode (take i part)), utf8 (formDecode (drop (Suc i) part))))"

definition formPairs :: "(string \<Rightarrow> string) \<Rightarrow> string \<Rightarrow> (string \<times> string) list" where
  "formPairs utf8 query = map (formPair utf8) (filter (\<lambda>p. p \<noteq> []) (splitOn CHR ''&'' query))"

definition getAll :: "string \<Rightarrow> (string \<times> string) list \<Rightarrow> string list" where
  "getAll key params = map snd (filter (\<lambda>p. fst p = key) params)"

section \<open>The magnet\<close>

record parsed_magnet =
  pm_infoHash :: string
  pm_trackers :: "string list"
  pm_dn :: string

definition isHexHash :: "string \<Rightarrow> bool" where
  "isHexHash s \<longleftrightarrow> length s = 40 \<and> list_all (\<lambda>c. hexCode c \<noteq> None) s"

definition isBase32Hash :: "string \<Rightarrow> bool" where
  "isBase32Hash s \<longleftrightarrow> length s = 32 \<and> list_all (\<lambda>c. isAlpha c \<or> (50 \<le> codeOf c \<and> codeOf c \<le> 55)) s"

text \<open>The hash of one \<open>xt\<close>: \<open>/^urn:btih:([0-9a-fA-F]{40}|[A-Za-z2-7]{32})$/\<close>.\<close>

definition hashOf :: "string \<Rightarrow> string option" where
  "hashOf xt =
     (case stripPrefix ''urn:btih:'' xt of
        None \<Rightarrow> None
      | Some h \<Rightarrow>
          if isHexHash h then Some (lower h)
          else if isBase32Hash h then base32ToHex h
          else None)"

fun firstHash :: "string list \<Rightarrow> string option" where
  "firstHash [] = None"
| "firstHash (xt # xts) = (case hashOf xt of Some h \<Rightarrow> Some h | None \<Rightarrow> firstHash xts)"

definition parseMagnet :: "(string \<Rightarrow> string) \<Rightarrow> string \<Rightarrow> parsed_magnet option" where
  "parseMagnet utf8 magnet =
     (let trimmed = trim magnet
      in if \<not> startsWith (lower trimmed) ''magnet:?'' then None
         else
           let params = formPairs utf8 (drop 8 trimmed)
           in case firstHash (getAll ''xt'' params) of
                None \<Rightarrow> None
              | Some h \<Rightarrow> Some \<lparr>pm_infoHash = h, pm_trackers = take 20 (getAll ''tr'' params),
                    pm_dn = (case getAll ''dn'' params of [] \<Rightarrow> [] | dn # _ \<Rightarrow> dn)\<rparr>)"

section \<open>Lemmas\<close>

lemma bitVal_Nil [simp]: "bitVal [] = 0"
  by (simp add: bitVal_def)

lemma foldl_bits: "foldl (\<lambda>n b. 2 * n + (if b then 1 else 0)) acc bits = acc * 2 ^ length bits + bitVal bits"
proof (induction bits rule: rev_induct)
  case (snoc b bits)
  then show ?case by (simp add: bitVal_def algebra_simps)
qed simp

lemma bitVal_append: "bitVal (xs @ ys) = bitVal xs * 2 ^ length ys + bitVal ys"
proof -
  have "bitVal (xs @ ys) = foldl (\<lambda>n b. 2 * n + (if b then 1 else 0)) (bitVal xs) ys" by (simp add: bitVal_def)
  then show ?thesis by (simp only: foldl_bits)
qed

lemma bitVal_less: "bitVal bits < 2 ^ length bits"
proof (induction bits rule: rev_induct)
  case (snoc b bits)
  then show ?case by (simp add: bitVal_append) (simp add: bitVal_def)
qed simp

lemma length_fiveBits [simp]: "length (fiveBits v) = 5"
  by (simp add: fiveBits_def)

lemma bitVal_fiveBits:
  assumes "v < 32" shows "bitVal (fiveBits v) = v"
proof -
  have "v \<in> set [0..<32]" using assms by simp
  moreover have "list_all (\<lambda>v. bitVal (fiveBits v) = v) [0..<32]" by code_simp
  ultimately show ?thesis by (simp only: list_all_iff)
qed

lemma takeWhile_shorter: "x \<in> set xs \<Longrightarrow> length (takeWhile (\<lambda>y. y \<noteq> x) xs) < length xs"
  by (induction xs) auto

lemma indexOf_BASE32: "indexOfChar c BASE32 = Some v \<Longrightarrow> v < 32"
proof -
  assume "indexOfChar c BASE32 = Some v"
  then have "c \<in> set BASE32" "v = length (takeWhile (\<lambda>x. x \<noteq> c) BASE32)"
    by (simp_all add: indexOfChar_def split: if_splits)
  moreover have "length (takeWhile (\<lambda>x. x \<noteq> c) BASE32) < length BASE32"
    using \<open>c \<in> set BASE32\<close> by (rule takeWhile_shorter)
  ultimately show ?thesis by (simp add: BASE32_def)
qed

text \<open>What the letters of a base32 string denote, and the digits of a hexadecimal one.\<close>

definition b32Val :: "string \<Rightarrow> nat" where
  "b32Val s = foldl (\<lambda>n c. 32 * n + orElse (indexOfChar c BASE32) 0) 0 s"

definition hexValue :: "string \<Rightarrow> nat" where
  "hexValue s = foldl (\<lambda>n c. 16 * n + orElse (hexCode c) 0) 0 s"

lemma foldl_b32: "foldl (\<lambda>n c. 32 * n + orElse (indexOfChar c BASE32) 0) acc s = acc * 32 ^ length s + b32Val s"
proof (induction s rule: rev_induct)
  case (snoc c s)
  then show ?case by (simp add: b32Val_def algebra_simps)
qed (simp add: b32Val_def)

lemma b32Val_Cons: "b32Val (c # s) = orElse (indexOfChar c BASE32) 0 * 32 ^ length s + b32Val s"
proof -
  have "b32Val (c # s) = foldl (\<lambda>n c. 32 * n + orElse (indexOfChar c BASE32) 0) (orElse (indexOfChar c BASE32) 0) s"
    by (simp add: b32Val_def)
  then show ?thesis by (simp only: foldl_b32)
qed

lemma bitsLoop_denotes:
  "bitsLoop s = Some bits \<Longrightarrow> length bits = 5 * length s \<and> bitVal bits = b32Val s"
proof (induction s arbitrary: bits)
  case Nil
  then show ?case by (simp add: b32Val_def)
next
  case (Cons c s)
  then obtain v rest where v: "indexOfChar c BASE32 = Some v" "bitsLoop s = Some rest" "bits = fiveBits v @ rest"
    by (auto split: option.splits)
  have "(2::nat) ^ (5 * length s) = 32 ^ length s" by (simp add: power_mult)
  then show ?case
    using Cons.IH [OF v(2)] v bitVal_fiveBits [OF indexOf_BASE32 [OF v(1)]]
    by (simp add: bitVal_append b32Val_Cons)
qed

lemma bitsLoop_total: "list_all (\<lambda>c. c \<in> set BASE32) s \<Longrightarrow> \<exists>bits. bitsLoop s = Some bits"
  by (induction s) (auto simp: indexOfChar_def)

lemma foldl_hex: "foldl (\<lambda>n c. 16 * n + orElse (hexCode c) 0) acc s = acc * 16 ^ length s + hexValue s"
proof (induction s rule: rev_induct)
  case (snoc c s)
  then show ?case by (simp add: hexValue_def algebra_simps)
qed (simp add: hexValue_def)

lemma hexValue_append: "hexValue (s @ t) = hexValue s * 16 ^ length t + hexValue t"
proof -
  have "hexValue (s @ t) = foldl (\<lambda>n c. 16 * n + orElse (hexCode c) 0) (hexValue s) t" by (simp add: hexValue_def)
  then show ?thesis by (simp only: foldl_hex)
qed

definition lowerHex :: "char \<Rightarrow> bool" where
  "lowerHex c \<longleftrightarrow> isDigit c \<or> (97 \<le> codeOf c \<and> codeOf c \<le> 102)"

lemma hexDigit_value: "d < 16 \<Longrightarrow> hexCode (hexDigit d) = Some d \<and> lowerHex (hexDigit d)"
proof -
  assume "d < 16"
  then have "d \<in> set [0..<16]" by simp
  moreover have "list_all (\<lambda>d. hexCode (hexDigit d) = Some d \<and> lowerHex (hexDigit d)) [0..<16]" by code_simp
  ultimately show ?thesis by (simp only: list_all_iff)
qed

lemma hexByte_value:
  assumes "n < 256" shows "hexValue (hexByte n) = n" "list_all lowerHex (hexByte n)" "length (hexByte n) = 2"
proof -
  have "n div 16 < 16" using assms by (simp add: less_mult_imp_div_less)
  then show "hexValue (hexByte n) = n" "list_all lowerHex (hexByte n)" "length (hexByte n) = 2"
    using hexDigit_value [of "n div 16"] hexDigit_value [of "n mod 16"]
    by (simp_all add: hexByte_def hexValue_def)
qed

lemma hexLoop_denotes:
  "length bits = 8 * k \<Longrightarrow>
     length (hexLoop bits) = 2 * k \<and> hexValue (hexLoop bits) = bitVal bits \<and> list_all lowerHex (hexLoop bits)"
proof (induction k arbitrary: bits)
  case 0
  then show ?case by (simp add: hexLoop.simps hexValue_def)
next
  case (Suc k)
  let ?v = "bitVal (take 8 bits)" and ?rest = "hexLoop (drop 8 bits)"
  have rest: "length ?rest = 2 * k" "hexValue ?rest = bitVal (drop 8 bits)" "list_all lowerHex ?rest"
    using Suc.IH [of "drop 8 bits"] Suc.prems by simp_all
  have "length (take 8 bits) = 8" using Suc.prems by simp
  then have byte: "?v < 256" using bitVal_less [of "take 8 bits"] by simp
  have "bitVal bits = bitVal (take 8 bits @ drop 8 bits)" by (simp only: append_take_drop_id)
  also have "\<dots> = ?v * 2 ^ length (drop 8 bits) + bitVal (drop 8 bits)" by (rule bitVal_append)
  finally have bits: "bitVal bits = ?v * 2 ^ (8 * k) + bitVal (drop 8 bits)" using Suc.prems by simp
  have "(2::nat) ^ (8 * k) = 16 ^ (2 * k)"
  proof -
    have "(2::nat) ^ (8 * k) = (2 ^ 4) ^ (2 * k)" unfolding power_mult [symmetric] by simp
    then show ?thesis by simp
  qed
  moreover have "hexLoop bits = hexByte ?v @ ?rest" using Suc.prems by (simp add: hexLoop.simps [of bits])
  ultimately show ?case using rest bits hexByte_value [OF byte] by (simp add: hexValue_append)
qed

lemma base32_denotes:
  assumes "length s = 32" "list_all (\<lambda>c. upperChar c \<in> set BASE32) s"
  shows "\<exists>h. base32ToHex s = Some h \<and> length h = 40 \<and> hexValue h = b32Val (map upperChar s) \<and> list_all lowerHex h"
proof -
  obtain bits where bits: "bitsLoop (map upperChar s) = Some bits"
    using bitsLoop_total [of "map upperChar s"] assms(2) by (auto simp: list_all_iff)
  have "length bits = 8 * 20" "bitVal bits = b32Val (map upperChar s)"
    using bitsLoop_denotes [OF bits] assms(1) by simp_all
  then show ?thesis using hexLoop_denotes [of bits 20] bits by (simp add: base32ToHex_def Let_def)
qed

text \<open>A class of characters given by code, as the characters it has.\<close>

lemma in_chars: "codeOf c \<in> set (map codeOf s) \<Longrightarrow> c \<in> set s"
  by (auto simp: codeOf_inject)

lemma base32_class:
  assumes "isAlpha c \<or> (50 \<le> codeOf c \<and> codeOf c \<le> 55)"
  shows "c \<in> set ''ABCDEFGHIJKLMNOPQRSTUVWXYZabcdefghijklmnopqrstuvwxyz234567''"
proof (rule in_chars)
  have "codeOf c \<in> set [65..<91] \<union> set [97..<123] \<union> set [50..<56]"
    using assms unfolding isAlpha_def set_upt Un_iff atLeastLessThan_iff by linarith
  moreover have "set [65..<91] \<union> set [97..<123] \<union> set [50..<56]
      \<subseteq> set (map codeOf ''ABCDEFGHIJKLMNOPQRSTUVWXYZabcdefghijklmnopqrstuvwxyz234567'')"
    by (simp add: codeOf_def)
  ultimately show "codeOf c \<in> set (map codeOf ''ABCDEFGHIJKLMNOPQRSTUVWXYZabcdefghijklmnopqrstuvwxyz234567'')"
    by blast
qed

lemma base32_chars: "isAlpha c \<or> (50 \<le> codeOf c \<and> codeOf c \<le> 55) \<Longrightarrow> upperChar c \<in> set BASE32"
proof -
  assume "isAlpha c \<or> (50 \<le> codeOf c \<and> codeOf c \<le> 55)"
  then have "c \<in> set ''ABCDEFGHIJKLMNOPQRSTUVWXYZabcdefghijklmnopqrstuvwxyz234567''" by (rule base32_class)
  moreover have "list_all (\<lambda>c. upperChar c \<in> set BASE32) ''ABCDEFGHIJKLMNOPQRSTUVWXYZabcdefghijklmnopqrstuvwxyz234567''"
    by code_simp
  ultimately show ?thesis by (simp only: list_all_iff)
qed

lemma lower_hash: "isHexHash h \<Longrightarrow> length (lower h) = 40 \<and> list_all lowerHex (lower h) \<and> hexValue (lower h) = hexValue h"
proof -
  have char: "hexCode c \<noteq> None \<Longrightarrow> lowerHex (lowerChar c) \<and> hexCode (lowerChar c) = hexCode c" for c
    by (auto simp: hexCode_def lowerChar_def lowerHex_def isDigit_def split: if_splits)
  have digits: "list_all (\<lambda>c. hexCode c \<noteq> None) s \<Longrightarrow> list_all lowerHex (lower s) \<and> hexValue (lower s) = hexValue s" for s
  proof (induction s rule: rev_induct)
    case (snoc c s)
    then show ?case using char [of c] by (simp add: lower_def hexValue_append) (simp add: hexValue_def)
  qed (simp add: lower_def)
  assume "isHexHash h"
  then show ?thesis using digits [of h] by (simp add: isHexHash_def)
qed

section \<open>Properties\<close>

text \<open>
  A base32 info hash is read as the number it denotes: thirty-two letters of
  the alphabet, in either case, become the forty lower-case hexadecimal digits
  of the same 160-bit number.
\<close>

theorem base32_hash_denotes_itself:
  assumes "length s = 32" "list_all (\<lambda>c. upperChar c \<in> set BASE32) s"
  shows "\<exists>h. base32ToHex s = Some h \<and> length h = 40 \<and> list_all lowerHex h
    \<and> hexValue h = b32Val (map upperChar s)"
  using base32_denotes [OF assms] by auto

lemma base32_hash_denotes_itself_witness:
  "\<exists>h. base32ToHex (replicate 31 CHR ''a'' @ ''z'') = Some h \<and> length h = 40 \<and> list_all lowerHex h
    \<and> hexValue h = b32Val (map upperChar (replicate 31 CHR ''a'' @ ''z''))"
  by (rule base32_hash_denotes_itself; code_simp)

text \<open>
  Whatever link is pasted, the hash the page goes on with is forty lower-case
  hexadecimal digits, at most twenty trackers go with it, and it names the
  number the link's own first usable \<open>xt\<close> denotes.
\<close>

theorem magnet_hash_is_canonical:
  assumes "parseMagnet utf8 magnet = Some p"
  shows "length (pm_infoHash p) = 40 \<and> list_all lowerHex (pm_infoHash p) \<and> length (pm_trackers p) \<le> 20"
proof -
  have hash: "hashOf xt = Some h \<Longrightarrow> length h = 40 \<and> list_all lowerHex h" for xt h
  proof -
    assume "hashOf xt = Some h"
    then obtain r where "isHexHash r \<and> h = lower r \<or> isBase32Hash r \<and> base32ToHex r = Some h"
      by (auto simp: hashOf_def split: option.splits if_splits)
    moreover have "isBase32Hash r \<Longrightarrow> length r = 32 \<and> list_all (\<lambda>c. upperChar c \<in> set BASE32) r"
      using base32_chars by (auto simp: isBase32Hash_def list_all_iff)
    ultimately show ?thesis using lower_hash [of r] base32_denotes [of r] by auto
  qed
  have first: "firstHash xts = Some h \<Longrightarrow> length h = 40 \<and> list_all lowerHex h" for xts h
    by (induction xts rule: firstHash.induct) (auto simp: hash split: option.splits)
  show ?thesis using assms first by (auto simp: parseMagnet_def Let_def split: if_splits option.splits)
qed

lemma magnet_hash_is_canonical_witness:
  "\<exists>p. parseMagnet id (''magnet:?tr=a&xt=urn:btih:'' @ replicate 40 CHR ''A'') = Some p
    \<and> length (pm_infoHash p) = 40"
proof -
  have "parseMagnet id (''magnet:?tr=a&xt=urn:btih:'' @ replicate 40 CHR ''A'')
      = Some \<lparr>pm_infoHash = replicate 40 CHR ''a'', pm_trackers = [''a''], pm_dn = []\<rparr>"
    by code_simp
  then show ?thesis using magnet_hash_is_canonical by blast
qed

end
