(* ===== verification/RemoteTorrent.thy ===== *)
theory RemoteTorrent
  imports Magnet SubtitleFormats "HOL-Library.Multiset"
begin

text \<open>
  The page's side of the torrent fleet (\<open>web/src/remoteTorrent.ts\<close>,
  \<open>torrentErrors.ts\<close>): what a refusal means, measuring and ranking the workers,
  the ranking kept for a few minutes, and the session of one magnet from its
  registration to its release. The server's answers, the timers and the
  transfers are events; \<open>cmp\<close> stands for \<open>localeCompare\<close> with its options.
\<close>

section \<open>Errors\<close>

datatype torrent_error =
    NoWorkersError
  | WorkersBusyError
  | TorrentRejectedError string
  | TorrentQuotaError string
  | OtherError string

definition orText :: "string \<Rightarrow> string \<Rightarrow> string" where
  "orText a b = (if a = [] then b else a)"

definition classify :: "nat \<Rightarrow> string \<Rightarrow> string \<Rightarrow> torrent_error" where
  "classify status code reason =
     (if code = ''no_workers'' then NoWorkersError
      else if code = ''workers_busy'' \<or> code = ''worker_gone'' then WorkersBusyError
      else if status = 429 then TorrentQuotaError (orText reason (orText code ''rate_limited''))
      else if code \<in> set [''blocked'', ''not_video'', ''no_metadata'', ''invalid_infohash'']
        then TorrentRejectedError code
      else OtherError (''torrent api '' @ orText code (dec status)))"

text \<open>An answer of the API: its status, the error and reason its body gave, and the body.\<close>

record 'a api_answer =
  aa_status :: nat
  aa_error :: "(string option \<times> string option) option"
  aa_body :: 'a

definition apiOk :: "nat \<Rightarrow> bool" where
  "apiOk status \<longleftrightarrow> 200 \<le> status \<and> status \<le> 299"

definition api :: "'a api_answer \<Rightarrow> torrent_error + 'a" where
  "api answer =
     (if apiOk (aa_status answer) then Inr (aa_body answer)
      else
        let (code, reason) = (case aa_error answer of None \<Rightarrow> ([], [])
              | Some (e, r) \<Rightarrow> (orElse e [], orElse r []))
        in Inl (classify (aa_status answer) code reason))"

text \<open>What the page says (\<open>torrentErrors.ts\<close>).\<close>

fun isTorrentError :: "torrent_error \<Rightarrow> bool" where
  "isTorrentError (OtherError m) = False"
| "isTorrentError _ = True"

fun torrentErrorRetryable :: "torrent_error \<Rightarrow> bool" where
  "torrentErrorRetryable (TorrentRejectedError c) = False"
| "torrentErrorRetryable _ = True"

fun torrentErrorKey :: "torrent_error \<Rightarrow> string" where
  "torrentErrorKey NoWorkersError = ''home.torrentNoWorkers''"
| "torrentErrorKey WorkersBusyError = ''home.torrentBusy''"
| "torrentErrorKey (TorrentQuotaError r) = ''home.torrentQuota''"
| "torrentErrorKey (TorrentRejectedError c) =
     (if c = ''not_video'' then ''home.torrentNotVideo''
      else if c = ''no_metadata'' then ''home.torrentNoSeeds'' else ''home.torrentRejected'')"
| "torrentErrorKey (OtherError m) = ''home.torrentFailed''"

text \<open>\<open>torrentCapacity\<close>: no answer at all counts as available.\<close>

definition torrentCapacity :: "(nat \<times> string option) option \<Rightarrow> string" where
  "torrentCapacity answer =
     (case answer of
        None \<Rightarrow> ''available''
      | Some (status, capacity) \<Rightarrow> if \<not> apiOk status then ''disabled'' else orElse capacity ''disabled'')"

section \<open>Measuring a worker\<close>

definition PROBE_BYTES :: nat where "PROBE_BYTES = 3 * 1024 * 1024"

definition PROBE_ENOUGH_BYTES :: nat where "PROBE_ENOUGH_BYTES = 1024 * 1024"

definition PROBE_ENOUGH_MS :: rat where "PROBE_ENOUGH_MS = 400"

definition RANKING_TTL_MS :: int where "RANKING_TTL_MS = 3 * 60000"

datatype probe_state = Testing | ProbeOk | ProbeDown

record worker_probe =
  wp_id :: string
  wp_readBase :: string
  wp_holds :: bool
  wp_state :: probe_state
  wp_mbit :: "rat option"
  wp_ttfbMs :: "int option"
  wp_chosen :: "bool option"

record probe_target =
  pt_id :: string
  pt_readBase :: string
  pt_holds :: bool

definition probeAs :: "probe_state \<Rightarrow> probe_target \<Rightarrow> worker_probe" where
  "probeAs st target =
     \<lparr>wp_id = pt_id target, wp_readBase = pt_readBase target, wp_holds = pt_holds target, wp_state = st,
      wp_mbit = None, wp_ttfbMs = None, wp_chosen = None\<rparr>"

text \<open>
  The body: chunks with the milliseconds since the first byte; reading stops at
  its end or once enough came. What was received is the result.
\<close>

fun probeLoop :: "nat \<Rightarrow> (nat \<times> rat) list \<Rightarrow> nat" where
  "probeLoop received [] = received"
| "probeLoop received ((bytes, elapsed) # chunks) =
     (let received = received + bytes
      in if PROBE_ENOUGH_BYTES \<le> received \<and> PROBE_ENOUGH_MS \<le> elapsed then received
         else probeLoop received chunks)"

text \<open>
  A probe that went through: its first byte's time, the chunks, and the
  milliseconds from the first byte to the end of the reading; \<open>None\<close> when the
  request failed, timed out or was refused.
\<close>

definition probeOne :: "probe_target \<Rightarrow> (rat \<times> (nat \<times> rat) list \<times> rat) option \<Rightarrow> worker_probe" where
  "probeOne target outcome =
     (case outcome of
        None \<Rightarrow> probeAs ProbeDown target
      | Some (first, chunks, elapsed) \<Rightarrow>
          let received = probeLoop 0 chunks;
              seconds = elapsed / 1000
          in if received = 0 \<or> seconds \<le> 0 then probeAs ProbeDown target
             else (probeAs ProbeOk target)\<lparr>wp_ttfbMs := Some (js_round first),
                    wp_mbit := Some (of_int (js_round (of_nat received * 8 / seconds / 1000000 * 10)) / 10)\<rparr>)"

section \<open>Ranking\<close>

definition HOLDS_BONUS :: rat where "HOLDS_BONUS = 3 / 2"

definition score :: "worker_probe \<Rightarrow> rat" where
  "score p = orElse (wp_mbit p) 0 * (if wp_holds p then HOLDS_BONUS else 1)"

text \<open>The comparator answers at most zero.\<close>

definition ranksBefore :: "worker_probe \<Rightarrow> worker_probe \<Rightarrow> bool" where
  "ranksBefore a b =
     (if (wp_state a = ProbeOk) \<noteq> (wp_state b = ProbeOk) then wp_state a = ProbeOk
      else score b - score a \<le> 0)"

fun markChosen :: "nat \<Rightarrow> worker_probe list \<Rightarrow> worker_probe list" where
  "markChosen i [] = []"
| "markChosen i (p # ps) = p\<lparr>wp_chosen := Some (i = 0 \<and> wp_state p = ProbeOk)\<rparr> # markChosen (i + 1) ps"

definition rankProbes :: "worker_probe list \<Rightarrow> worker_probe list" where
  "rankProbes probes = markChosen 0 (sort_by ranksBefore probes)"

definition orderVideoFiles :: "(string \<Rightarrow> string \<Rightarrow> bool) \<Rightarrow> ('f \<Rightarrow> string) \<Rightarrow> 'f list \<Rightarrow> 'f list" where
  "orderVideoFiles cmp name files = sort_by (\<lambda>a b. cmp (name a) (name b)) files"

section \<open>The ranking of a torrent's workers\<close>

type_synonym rankings = "(string, int \<times> worker_probe list) jsmap"

definition remembered :: "rankings \<Rightarrow> string \<Rightarrow> bool \<Rightarrow> int \<Rightarrow> worker_probe list option" where
  "remembered rankings infoHash fresh now =
     (case mapGet rankings infoHash of
        None \<Rightarrow> None
      | Some (time, probes) \<Rightarrow>
          if \<not> fresh \<and> now - time < RANKING_TTL_MS \<and> list_ex (\<lambda>p. wp_state p = ProbeOk) probes
          then Some probes else None)"

text \<open>The measurements under way: the list shown and what was reported, oldest first.\<close>

record probing =
  pb_current :: "worker_probe list"
  pb_reports :: "worker_probe list list"

definition startProbing :: "probe_target list \<Rightarrow> probing" where
  "startProbing targets =
     (let current = map (probeAs Testing) targets in \<lparr>pb_current = current, pb_reports = [current]\<rparr>)"

definition probeDone :: "probing \<Rightarrow> worker_probe \<Rightarrow> probing" where
  "probeDone s result =
     (let current = map (\<lambda>p. if wp_id p = wp_id result then result else p) (pb_current s)
      in \<lparr>pb_current = current,
          pb_reports = pb_reports s
            @ [if list_ex (\<lambda>p. wp_state p = Testing) current then current else rankProbes current]\<rparr>)"

text \<open>
  \<open>probeWorkers\<close>: what it answers, what it reports and the rankings kept. The
  workers the server named are \<open>None\<close> when it could not be asked; the results
  come in the order the probes ended.
\<close>

definition probeWorkers ::
  "rankings \<Rightarrow> string \<Rightarrow> bool \<Rightarrow> int \<Rightarrow> probe_target list option \<Rightarrow> worker_probe list \<Rightarrow> int
     \<Rightarrow> worker_probe list \<times> worker_probe list list \<times> rankings" where
  "probeWorkers rankings infoHash fresh now targets results later =
     (case remembered rankings infoHash fresh now of
        Some probes \<Rightarrow> (probes, [probes], rankings)
      | None \<Rightarrow>
          (case targets of
             None \<Rightarrow> ([], [], rankings)
           | Some targets \<Rightarrow>
               let s = foldl probeDone (startProbing targets) results;
                   ranked = rankProbes (pb_current s)
               in (ranked, pb_reports s @ [ranked], mapSet infoHash (later, ranked) rankings)))"

section \<open>The session of a magnet\<close>

definition MAX_SIDE_FILE_BYTES :: nat where "MAX_SIDE_FILE_BYTES = 8 * 1024 * 1024"

definition POLL_MS :: int where "POLL_MS = 1500"

definition STATS_MS :: int where "STATS_MS = 2000"

definition LISTING_TIMEOUT_MS :: int where "LISTING_TIMEOUT_MS = 150000"

definition isVideoName :: "string \<Rightarrow> bool" where
  "isVideoName name \<longleftrightarrow>
     list_ex (\<lambda>ext. endsWith (lower name) ext)
       [''.mkv'', ''.mp4'', ''.m4v'', ''.webm'', ''.avi'', ''.mov'', ''.ogv'', ''.ts'', ''.m2ts'']"

record job_file =
  jf_index :: nat
  jf_name :: string
  jf_path :: string
  jf_size :: nat

record swarm =
  sw_peers :: nat
  sw_downSpeed :: rat
  sw_haveBytes :: nat
  sw_selectedBytes :: nat
  sw_diskBytes :: "nat option"

record job_status =
  js_state :: string
  js_error :: "string option"
  js_name :: "string option"
  js_files :: "job_file list option"
  js_swarm :: "swarm option"

record torrent_stats =
  ts_peers :: nat
  ts_downloadSpeed :: rat
  ts_downloaded :: nat
  ts_progress :: rat
  ts_diskBytes :: "nat option"

record worker_grant =
  wg_jobId :: string
  wg_readBase :: string
  wg_ticket :: string
  wg_expiresAt :: string
  wg_name :: string
  wg_size :: nat
  wg_fileIndex :: nat

datatype open_phase = OpenPolling | OpenSleeping | OpenReady | OpenFailed torrent_error

record torrent_session =
  se_jobId :: string
  se_phase :: open_phase
  se_deadline :: int
  se_polls :: nat
  se_destroyed :: bool
  se_deletes :: nat
  se_timerSet :: bool
  se_ticking :: bool
  se_reports :: bool
  se_status :: "job_status option"
  se_grant :: "worker_grant option"
  se_stats :: torrent_stats
  se_shown :: "torrent_stats list"

definition noStats :: torrent_stats where
  "noStats = \<lparr>ts_peers = 0, ts_downloadSpeed = 0, ts_downloaded = 0, ts_progress = 0, ts_diskBytes = None\<rparr>"

text \<open>
  \<open>se_timerSet\<close> is \<open>statsTimer !== null\<close> and \<open>se_ticking\<close> whether that interval runs:
  clearing it leaves the variable as it was.

  After the POST answered with the job; \<open>reports\<close> is whether the caller listens to the stats.\<close>

definition registered :: "string \<Rightarrow> int \<Rightarrow> bool \<Rightarrow> torrent_session" where
  "registered jobId now reports =
     \<lparr>se_jobId = jobId, se_phase = OpenPolling, se_deadline = now + LISTING_TIMEOUT_MS, se_polls = 0,
      se_destroyed = False, se_deletes = 0, se_timerSet = False, se_ticking = False, se_reports = reports, se_status = None,
      se_grant = None, se_stats = noStats, se_shown = []\<rparr>"

definition destroy :: "torrent_session \<Rightarrow> torrent_session" where
  "destroy s =
     (if se_destroyed s then s
      else s\<lparr>se_destroyed := True, se_ticking := False, se_deletes := se_deletes s + 1\<rparr>)"

definition detach :: "torrent_session \<Rightarrow> torrent_session" where
  "detach s = (if se_destroyed s then s else s\<lparr>se_destroyed := True, se_ticking := False\<rparr>)"

definition showStats :: "torrent_session \<Rightarrow> torrent_session" where
  "showStats s = (if se_reports s then s\<lparr>se_shown := se_shown s @ [se_stats s]\<rparr> else s)"

text \<open>One answer of the polling loop.\<close>

definition polled :: "int \<Rightarrow> job_status api_answer \<Rightarrow> torrent_session \<Rightarrow> torrent_session" where
  "polled now answer s =
     (case api answer of
        Inl err \<Rightarrow> s\<lparr>se_phase := OpenFailed err\<rparr>
      | Inr status \<Rightarrow>
          let s = s\<lparr>se_polls := se_polls s + 1\<rparr>
          in if js_state status = ''listed''
             then (let s = showStats (s\<lparr>se_phase := OpenReady, se_status := Some status\<rparr>)
                   in s\<lparr>se_timerSet := se_reports s, se_ticking := se_reports s\<rparr>)
             else if js_state status = ''failed''
             then (destroy s)\<lparr>se_phase := OpenFailed (classify 502 (orElse (js_error status) ''failed'') [])\<rparr>
             else if se_deadline s < now
             then (destroy s)\<lparr>se_phase := OpenFailed (OtherError ''torrent listing timed out'')\<rparr>
             else s\<lparr>se_phase := OpenSleeping\<rparr>)"

definition videoFiles :: "(string \<Rightarrow> string \<Rightarrow> bool) \<Rightarrow> job_status \<Rightarrow> job_file list" where
  "videoFiles cmp status =
     orderVideoFiles cmp jf_name (filter (\<lambda>f. isVideoName (jf_name f)) (orElse (js_files status) []))"

definition sideFiles :: "job_status \<Rightarrow> job_file list" where
  "sideFiles status =
     filter (\<lambda>f. isSubtitleFileName (jf_name f) \<and> 0 < jf_size f \<and> jf_size f \<le> MAX_SIDE_FILE_BYTES)
       (orElse (js_files status) [])"

definition sessionName :: "job_status \<Rightarrow> parsed_magnet \<Rightarrow> string" where
  "sessionName status parsed = orElse (js_name status) (pm_dn parsed)"

definition statsAnswered :: "job_status api_answer \<Rightarrow> torrent_session \<Rightarrow> torrent_session" where
  "statsAnswered answer s =
     (case api answer of
        Inl err \<Rightarrow> s
      | Inr status \<Rightarrow>
          (case js_swarm status of
             None \<Rightarrow> s
           | Some sw \<Rightarrow>
               let total = max (sw_selectedBytes sw) 1
               in showStats (s\<lparr>se_stats := \<lparr>ts_peers = sw_peers sw, ts_downloadSpeed = sw_downSpeed sw,
                     ts_downloaded = sw_haveBytes sw,
                     ts_progress = min (of_nat (sw_haveBytes sw) / of_nat total) 1,
                     ts_diskBytes = sw_diskBytes sw\<rparr>\<rparr>)))"

text \<open>What \<open>select\<close> asks for: the file with that path, if the listing shows it as a video.\<close>

definition selectedFile :: "(string \<Rightarrow> string \<Rightarrow> bool) \<Rightarrow> string \<Rightarrow> torrent_session \<Rightarrow> job_file option" where
  "selectedFile cmp path s =
     (case se_status s of None \<Rightarrow> None
      | Some status \<Rightarrow> find (\<lambda>f. jf_path f = path) (videoFiles cmp status))"

definition selectAnswered :: "worker_grant api_answer \<Rightarrow> torrent_session \<Rightarrow> torrent_session" where
  "selectAnswered answer s =
     (case api answer of
        Inl err \<Rightarrow> s
      | Inr next \<Rightarrow>
          let s = s\<lparr>se_grant := Some (next\<lparr>wg_jobId := se_jobId s\<rparr>)\<rparr>
          in if se_timerSet s then s else s\<lparr>se_timerSet := True, se_ticking := True\<rparr>)"

text \<open>A listed file's grant: only the selected one has it.\<close>

definition workerOf :: "torrent_session \<Rightarrow> job_file \<Rightarrow> worker_grant option" where
  "workerOf s f =
     (case se_grant s of None \<Rightarrow> None | Some g \<Rightarrow> if wg_fileIndex g = jf_index f then Some g else None)"

datatype session_event =
    Polled int "job_status api_answer"
  | PollSlept
  | StatsAnswered "job_status api_answer"
  | SelectAnswered "worker_grant api_answer"
  | Destroys
  | Detaches

fun sessionStep :: "torrent_session \<Rightarrow> session_event \<Rightarrow> torrent_session" where
  "sessionStep s (Polled now answer) = (if se_phase s = OpenPolling then polled now answer s else s)"
| "sessionStep s PollSlept = (if se_phase s = OpenSleeping then s\<lparr>se_phase := OpenPolling\<rparr> else s)"
| "sessionStep s (StatsAnswered answer) = (if se_phase s = OpenReady then statsAnswered answer s else s)"
| "sessionStep s (SelectAnswered answer) = (if se_phase s = OpenReady then selectAnswered answer s else s)"
| "sessionStep s Destroys = (if se_phase s = OpenReady then destroy s else s)"
| "sessionStep s Detaches = (if se_phase s = OpenReady then detach s else s)"

definition runSession :: "torrent_session \<Rightarrow> session_event list \<Rightarrow> torrent_session" where
  "runSession = foldl sessionStep"

section \<open>Lemmas\<close>

lemma ranksBefore_total: "ranksBefore a b \<or> ranksBefore b a"
  by (auto simp: ranksBefore_def)

lemma ranksBefore_trans: "ranksBefore a b \<Longrightarrow> ranksBefore b c \<Longrightarrow> ranksBefore a c"
  by (auto simp: ranksBefore_def split: if_splits)

lemma markChosen_map: "map (\<lambda>p. p\<lparr>wp_chosen := v\<rparr>) (markChosen i ps) = map (\<lambda>p. p\<lparr>wp_chosen := v\<rparr>) ps"
  by (induction i ps rule: markChosen.induct) simp_all

lemma markChosen_same [simp]:
  "map wp_id (markChosen i ps) = map wp_id ps" "map wp_state (markChosen i ps) = map wp_state ps"
  "map score (markChosen i ps) = map score ps" "length (markChosen i ps) = length ps"
  by (induction i ps rule: markChosen.induct) (simp_all add: score_def)

text \<open>The order only looks at whether a worker answered and at its score.\<close>

definition rankKey :: "worker_probe \<Rightarrow> bool \<times> rat" where
  "rankKey p = (wp_state p = ProbeOk, score p)"

definition keyBefore :: "bool \<times> rat \<Rightarrow> bool \<times> rat \<Rightarrow> bool" where
  "keyBefore a b = (if fst a \<noteq> fst b then fst a else snd b - snd a \<le> 0)"

lemma ranksBefore_key: "ranksBefore = (\<lambda>a b. keyBefore (rankKey a) (rankKey b))"
  by (simp add: fun_eq_iff ranksBefore_def keyBefore_def rankKey_def)

lemma rankKey_markChosen: "map rankKey (markChosen i ps) = map rankKey ps"
  by (induction i ps rule: markChosen.induct) (simp_all add: rankKey_def score_def)

lemma sorted_markChosen: "sorted_wrt ranksBefore (markChosen i ps) = sorted_wrt ranksBefore ps"
  unfolding ranksBefore_key sorted_wrt_map [symmetric] rankKey_markChosen ..

lemma unchosen_tail: "0 < i \<Longrightarrow> list_all (\<lambda>p. wp_chosen p = Some False) (markChosen i ps)"
  by (induction i ps rule: markChosen.induct) simp_all

lemma mset_insert_by: "mset (insert_by le x ys) = add_mset x (mset ys)"
  by (induction ys) auto

lemma mset_sort_by: "mset (sort_by le xs) = mset xs"
  by (induction xs) (simp_all add: mset_insert_by)

text \<open>A session gives its job back at most once, and never once the page let go of it.\<close>

definition sessionOk :: "torrent_session \<Rightarrow> bool" where
  "sessionOk s \<longleftrightarrow>
     se_deletes s \<le> 1 \<and> (0 < se_deletes s \<longrightarrow> se_destroyed s)
   \<and> (se_ticking s \<longrightarrow> se_timerSet s)
   \<and> (se_phase s = OpenReady \<longrightarrow> se_status s \<noteq> None \<and> (se_reports s \<longrightarrow> se_timerSet s))
   \<and> (se_phase s \<noteq> OpenReady \<longrightarrow> \<not> se_timerSet s \<and> se_grant s = None)
   \<and> (se_phase s = OpenPolling \<or> se_phase s = OpenSleeping \<longrightarrow> \<not> se_destroyed s)
   \<and> (se_destroyed s \<and> se_reports s \<longrightarrow> \<not> se_ticking s)"

lemma sessionOk_registered [simp]: "sessionOk (registered jobId now reports)"
  by (simp add: sessionOk_def registered_def)

lemmas session_ops = polled_def statsAnswered_def selectAnswered_def destroy_def detach_def showStats_def Let_def

lemma sessionStep_keeps [keeps]: "sessionOk s \<Longrightarrow> sessionOk (sessionStep s e)"
  by (cases e) (auto simp: sessionOk_def session_ops split: sum.splits option.splits)

interpretation session: component sessionStep sessionOk
  by unfold_locales (rule sessionStep_keeps)

lemma destroyed_stays: "se_destroyed s \<Longrightarrow> sessionOk s \<Longrightarrow>
    se_destroyed (sessionStep s e) \<and> se_deletes (sessionStep s e) = se_deletes s"
  by (cases e) (auto simp: sessionOk_def session_ops split: sum.splits option.splits)

lemma destroyed_run: "se_destroyed s \<Longrightarrow> sessionOk s \<Longrightarrow>
    se_destroyed (runSession s es) \<and> se_deletes (runSession s es) = se_deletes s"
proof (induction es arbitrary: s)
  case (Cons e es)
  then show ?case using destroyed_stays [of s e] Cons.IH [of "sessionStep s e"]
    by (simp add: runSession_def sessionStep_keeps)
qed (simp add: runSession_def)

text \<open>A probe without the mark of the choice.\<close>

definition bare :: "worker_probe \<Rightarrow> worker_probe" where
  "bare p = p\<lparr>wp_chosen := None\<rparr>"

lemma bare_markChosen: "map bare (markChosen i ps) = map bare ps"
  using markChosen_map [of None i ps] by (simp add: bare_def [abs_def])

lemma mset_bare_rank: "mset (map bare (rankProbes ps)) = mset (map bare ps)"
  by (simp only: rankProbes_def bare_markChosen mset_map mset_sort_by)

lemma bare_same [simp]: "wp_id (bare p) = wp_id p" "wp_state (bare p) = wp_state p" "score (bare p) = score p"
  by (simp_all add: bare_def score_def)

lemma sorted_rankProbes: "sorted_wrt ranksBefore (rankProbes ps)"
  unfolding rankProbes_def sorted_markChosen
  by (rule sorted_wrt_sort_by) (use ranksBefore_total ranksBefore_trans in blast)+

lemma first_ok:
  assumes "sorted_wrt ranksBefore (p # ps)" "list_ex (\<lambda>q. wp_state q = ProbeOk) (p # ps)"
  shows "wp_state p = ProbeOk"
  using assms by (fastforce simp: list_ex_iff ranksBefore_def split: if_splits)

lemma chosen_rankProbes:
  "filter (\<lambda>p. wp_chosen p = Some True) (rankProbes ps)
     = (if list_ex (\<lambda>p. wp_state p = ProbeOk) ps then [hd (rankProbes ps)] else [])"
proof (cases "sort_by ranksBefore ps")
  case Nil
  then have "ps = []" by (metis length_0_conv length_sort_by)
  then show ?thesis by (simp add: rankProbes_def)
next
  case (Cons q qs)
  have some: "list_ex (\<lambda>p. wp_state p = ProbeOk) ps = list_ex (\<lambda>p. wp_state p = ProbeOk) (q # qs)"
    using set_sort_by [of ranksBefore ps] unfolding Cons list_ex_iff by simp
  have "sorted_wrt ranksBefore (q # qs)"
    using sorted_wrt_sort_by [of ranksBefore ps] ranksBefore_total ranksBefore_trans unfolding Cons by blast
  then have "wp_state q = ProbeOk \<longleftrightarrow> list_ex (\<lambda>p. wp_state p = ProbeOk) (q # qs)"
    using first_ok [of q qs] by auto
  moreover have "filter (\<lambda>p. wp_chosen p = Some True) (markChosen (0 + 1) qs) = []"
    using unchosen_tail [of "0 + 1" qs] by (auto simp: filter_empty_conv list_all_iff)
  ultimately show ?thesis using some by (simp add: rankProbes_def Cons)
qed

lemma pb_current_probeDone:
  "pb_current (probeDone s r) = map (\<lambda>p. if wp_id p = wp_id r then r else p) (pb_current s)"
  by (simp add: probeDone_def Let_def)

lemma pb_current_ids: "map wp_id (pb_current (foldl probeDone s rs)) = map wp_id (pb_current s)"
proof (induction rs arbitrary: s)
  case (Cons r rs)
  then show ?case by (simp add: pb_current_probeDone comp_def cong: if_cong)
qed simp

text \<open>Once every worker was measured, the list shown is the measurements, whatever order they came in.\<close>

lemma measured_stays:
  assumes "r \<in> set (pb_current s)" "wp_id r \<notin> wp_id ` set rs"
  shows "r \<in> set (pb_current (foldl probeDone s rs))"
  using assms
proof (induction rs arbitrary: s)
  case (Cons q rs)
  then show ?case by (auto simp: pb_current_probeDone intro!: Cons.IH image_eqI [of _ _ r])
qed simp

lemma measured_all:
  assumes "distinct (map wp_id rs)" "set (map wp_id rs) \<subseteq> set (map wp_id (pb_current s))"
  shows "set rs \<subseteq> set (pb_current (foldl probeDone s rs))"
  using assms
proof (induction rs arbitrary: s)
  case (Cons r rs)
  have ids: "map wp_id (pb_current (probeDone s r)) = map wp_id (pb_current s)"
    using pb_current_ids [of s "[r]"] by simp
  have "r \<in> set (pb_current (probeDone s r))"
    using Cons.prems(2) by (auto simp: pb_current_probeDone image_iff)
  then have "r \<in> set (pb_current (foldl probeDone (probeDone s r) rs))"
    using Cons.prems(1) by (intro measured_stays) auto
  moreover have "set rs \<subseteq> set (pb_current (foldl probeDone (probeDone s r) rs))"
    using Cons.prems ids by (intro Cons.IH) auto
  ultimately show ?case by simp
qed simp

lemma measured_mset:
  assumes "distinct (map wp_id (pb_current s))" "mset (map wp_id rs) = mset (map wp_id (pb_current s))"
  shows "mset (pb_current (foldl probeDone s rs)) = mset rs"
proof -
  let ?cur = "pb_current (foldl probeDone s rs)"
  have ids: "map wp_id ?cur = map wp_id (pb_current s)" by (rule pb_current_ids)
  have d: "distinct (map wp_id rs)" using assms by (metis mset_eq_imp_distinct_iff)
  have "set (map wp_id rs) = set (map wp_id (pb_current s))" using assms(2) by (rule mset_eq_setD)
  then have sub: "set rs \<subseteq> set ?cur" using measured_all [OF d] by simp
  have dcur: "distinct ?cur" using assms(1) ids by (metis distinct_map)
  have "card (set rs) = card (set ?cur)"
    using d dcur assms(2) ids by (metis distinct_card distinct_map length_map size_mset)
  then have "set rs = set ?cur" using sub by (simp add: card_subset_eq)
  then show ?thesis using d dcur by (metis distinct_map set_eq_iff_mset_eq_distinct)
qed

section \<open>Properties\<close>

text \<open>
  The ranking is the workers measured, none lost and none changed, the
  reachable ones first and the faster before the slower (a worker that holds
  the torrent counting half as much again); and exactly the first is marked as
  chosen, when any worker could be reached at all.
\<close>

theorem workers_are_ranked:
  "mset (map bare (rankProbes ps)) = mset (map bare ps)
   \<and> sorted_wrt ranksBefore (rankProbes ps)
   \<and> filter (\<lambda>p. wp_chosen p = Some True) (rankProbes ps)
       = (if list_ex (\<lambda>p. wp_state p = ProbeOk) ps then [hd (rankProbes ps)] else [])"
  using mset_bare_rank sorted_rankProbes chosen_rankProbes by blast

text \<open>
  In whatever order the probes end, the ranking answered is the same
  measurements: with every worker measured once and no recent ranking, what
  \<open>probeWorkers\<close> answers, shows last and remembers is the ranking of exactly
  those results.
\<close>

theorem probe_order_does_not_matter:
  assumes "remembered rankings infoHash fresh now = None"
    and "distinct (map pt_id targets)" "mset (map wp_id results) = mset (map pt_id targets)"
    and "probeWorkers rankings infoHash fresh now (Some targets) results later = (answer, reports, kept)"
  shows "mset (map bare answer) = mset (map bare results) \<and> sorted_wrt ranksBefore answer
    \<and> last reports = answer \<and> mapGet kept infoHash = Some (later, answer)"
proof -
  have ids: "map wp_id (pb_current (startProbing targets)) = map pt_id targets"
    by (simp add: startProbing_def probeAs_def Let_def)
  have "mset (pb_current (foldl probeDone (startProbing targets) results)) = mset results"
    using assms(2,3) by (intro measured_mset) (simp_all only: ids)
  moreover have "answer = rankProbes (pb_current (foldl probeDone (startProbing targets) results))"
    using assms(1,4) by (simp add: probeWorkers_def Let_def)
  ultimately show ?thesis
    using assms(1,4) mset_bare_rank sorted_rankProbes
    by (auto simp: probeWorkers_def Let_def)
qed

definition sampleTarget :: "string \<Rightarrow> probe_target" where
  "sampleTarget i = \<lparr>pt_id = i, pt_readBase = [], pt_holds = False\<rparr>"

lemma probe_order_does_not_matter_witness:
  "let results = [probeOne (sampleTarget ''b'') None, probeAs ProbeOk (sampleTarget ''a'')];
       (answer, reports, kept) = probeWorkers [] ''h'' False 0 (Some [sampleTarget ''a'', sampleTarget ''b'']) results 5
   in mset (map bare answer) = mset (map bare results) \<and> last reports = answer"
proof -
  let ?results = "[probeOne (sampleTarget ''b'') None, probeAs ProbeOk (sampleTarget ''a'')]"
  let ?out = "probeWorkers [] ''h'' False 0 (Some [sampleTarget ''a'', sampleTarget ''b'']) ?results 5"
  obtain answer reports kept where out: "?out = (answer, reports, kept)" by (cases ?out)
  have "remembered [] ''h'' False 0 = None" by code_simp
  moreover have "distinct (map pt_id [sampleTarget ''a'', sampleTarget ''b''])" by code_simp
  moreover have "mset (map wp_id ?results) = mset (map pt_id [sampleTarget ''a'', sampleTarget ''b''])"
    by (simp add: probeOne_def probeAs_def sampleTarget_def add_mset_commute)
  ultimately show ?thesis using probe_order_does_not_matter [OF _ _ _ out] by (simp add: Let_def out)
qed

text \<open>
  C37: The fleet's job is given back at most once: whatever answers come, a
  session sends one release at most. A page that destroys its open session has
  sent the one release; one that detaches from it, because the room's
  production runs on, has sent none by it; and after either nothing that still
  comes, a second destroy or detach or a late answer, sends a release.
\<close>

theorem job_is_released_once:
  "let s = runSession (registered jobId now reports) es
   in se_deletes s \<le> 1
    \<and> (se_phase s = OpenReady \<longrightarrow>
        se_deletes (runSession s (Detaches # es')) = se_deletes s
        \<and> se_deletes (runSession s (Destroys # es')) = (if se_destroyed s then se_deletes s else 1))"
proof -
  define s where "s = runSession (registered jobId now reports) es"
  have ok: "sessionOk s"
    unfolding s_def runSession_def by (rule session.run_keeps) simp
  have run: "runSession s (e # es') = runSession (sessionStep s e) es'" for e
    by (simp add: runSession_def)
  have "se_deletes (runSession s (e # es')) = se_deletes (sessionStep s e)" if "se_destroyed (sessionStep s e)" for e
    using destroyed_run [OF that sessionStep_keeps [OF ok]] by (simp add: run)
  moreover have "se_destroyed (sessionStep s Detaches)" "se_destroyed (sessionStep s Destroys)" if "se_phase s = OpenReady"
    using that by (auto simp: session_ops)
  moreover have "se_deletes (sessionStep s Detaches) = se_deletes s"
    "se_deletes (sessionStep s Destroys) = (if se_destroyed s then se_deletes s else 1)" if "se_phase s = OpenReady"
    using that ok by (auto simp: sessionOk_def session_ops)
  ultimately show ?thesis using ok unfolding s_def [symmetric] by (auto simp: Let_def sessionOk_def)
qed

definition sampleListing :: "job_status api_answer" where
  "sampleListing =
     \<lparr>aa_status = 200, aa_error = None,
      aa_body = \<lparr>js_state = ''listed'', js_error = None, js_name = None, js_files = None, js_swarm = None\<rparr>\<rparr>"

definition sampleGrant :: "worker_grant api_answer" where
  "sampleGrant =
     \<lparr>aa_status = 200, aa_error = None,
      aa_body = \<lparr>wg_jobId = [], wg_readBase = [], wg_ticket = [], wg_expiresAt = [],
        wg_name = [], wg_size = 0, wg_fileIndex = 0\<rparr>\<rparr>"

lemma job_is_released_once_witness:
  "se_deletes (runSession (runSession (registered ''j'' 0 True) [Polled 0 sampleListing]) [Detaches, Destroys]) = 0
   \<and> se_deletes (runSession (runSession (registered ''j'' 0 True) [Polled 0 sampleListing]) [Destroys, Detaches]) = 1"
proof -
  have "se_phase (runSession (registered ''j'' 0 True) [Polled 0 sampleListing]) = OpenReady"
    "se_deletes (runSession (registered ''j'' 0 True) [Polled 0 sampleListing]) = 0"
    "\<not> se_destroyed (runSession (registered ''j'' 0 True) [Polled 0 sampleListing])" by code_simp+
  then show ?thesis
    using job_is_released_once [of "''j''" 0 True "[Polled 0 sampleListing]" "[Destroys]"]
      job_is_released_once [of "''j''" 0 True "[Polled 0 sampleListing]" "[Detaches]"]
    by (simp only: Let_def simp_thms if_False)
qed

text \<open>
  Two ways a session leaks: an answer to \<open>select\<close> that comes after the
  session was destroyed starts a stats timer nothing clears any more, and a
  status poll that fails rejects the opening without giving the job back,
  though a failed or late listing does.
\<close>

theorem session_leaks:
  "se_ticking (runSession (registered ''j'' 0 False) [Polled 0 sampleListing, Destroys, SelectAnswered sampleGrant])
   \<and> se_deletes (runSession (registered ''j'' 0 False) [Polled 0 (sampleListing\<lparr>aa_status := 500\<rparr>)]) = 0
   \<and> se_phase (runSession (registered ''j'' 0 False) [Polled 0 (sampleListing\<lparr>aa_status := 500\<rparr>)])
       = OpenFailed (OtherError ''torrent api 500'')"
  by (simp add: runSession_def registered_def sampleListing_def sampleGrant_def session_ops api_def apiOk_def
      classify_def orText_def) code_simp

end
