(* ===== verification/Uploads.thy ===== *)
theory Uploads
  imports Json
begin

text \<open>
  Getting a source into a room (\<open>web/src/upload.ts\<close>, \<open>uploadErrors.ts\<close>,
  \<open>pipeline/remuxTypes.ts\<close>): the tab's registry of uploads, handles and swarms,
  what every kind of source does to it, and the end of a transfer. The remux
  worker's messages, the pipeline's callbacks, the server's answers and the
  timers are events of \<open>registryStep\<close>; entries live in a store, because the
  registry, the production and the timer share them by reference.
\<close>

section \<open>Errors (uploadErrors.ts)\<close>

text \<open>A thrown value: a \<open>DOMException\<close> or \<open>Error\<close> with its name and message, or anything else as \<open>String\<close> shows it.\<close>

datatype failure =
    DOMException string string
  | JsError string string
  | NotAnError string

definition FILE_UNREADABLE :: string where "FILE_UNREADABLE = ''file-unreadable''"

definition UNSUPPORTED_MEDIA :: string where "UNSUPPORTED_MEDIA = ''unsupported-media''"

definition SOURCE_UNREACHABLE :: string where "SOURCE_UNREACHABLE = ''source-unreachable''"

definition WORKER_UNREACHABLE :: string where "WORKER_UNREACHABLE = ''worker-unreachable''"

definition REMUX_UNAVAILABLE :: string where "REMUX_UNAVAILABLE = ''remux-unavailable''"

fun isUnreadableFile :: "failure \<Rightarrow> bool" where
  "isUnreadableFile (DOMException n m) = (n = ''NotReadableError'' \<or> n = ''NotFoundError'')"
| "isUnreadableFile (JsError n m) =
     (if n = ''NotReadableError'' \<or> n = ''NotFoundError'' then True else m = FILE_UNREADABLE)"
| "isUnreadableFile (NotAnError s) = False"

fun isUnreachableRead :: "failure \<Rightarrow> bool" where
  "isUnreachableRead (NotAnError s) = False"
| "isUnreachableRead (DOMException n m) = (n = ''ReadUnreachableError'' \<or> n = ''ReadFailedError'')"
| "isUnreachableRead (JsError n m) = (n = ''ReadUnreachableError'' \<or> n = ''ReadFailedError'')"

datatype source_kind = FileSource | StreamSource | UrlSource | InputSource

definition readFailureCode :: "failure \<Rightarrow> source_kind \<Rightarrow> string option" where
  "readFailureCode failure kind =
     (if isUnreadableFile failure then Some FILE_UNREADABLE
      else if isUnreachableRead failure
        then Some (if kind = UrlSource then SOURCE_UNREACHABLE else WORKER_UNREACHABLE)
      else None)"

text \<open>\<open>error instanceof Error ? `name: message` : String(error)\<close> and the shorter form.\<close>

fun errorDetail :: "failure \<Rightarrow> string" where
  "errorDetail (DOMException n m) = n @ '': '' @ m"
| "errorDetail (JsError n m) = n @ '': '' @ m"
| "errorDetail (NotAnError s) = s"

fun errorMessage :: "failure \<Rightarrow> string" where
  "errorMessage (DOMException n m) = m"
| "errorMessage (JsError n m) = m"
| "errorMessage (NotAnError s) = s"

fun isError :: "failure \<Rightarrow> bool" where
  "isError (NotAnError s) = False"
| "isError _ = True"

section \<open>Sources and jobs (pipeline/remuxTypes.ts)\<close>

text \<open>A source as far as the page looks at it: its kind and the size it says it has.\<close>

record remux_source =
  rs_kind :: source_kind
  rs_size :: int

record remux_side_file =
  rf_name :: string
  rf_url :: "string option"

record remux_job =
  rj_roomID :: string
  rj_mediaGeneration :: nat
  rj_source :: remux_source
  rj_sideFiles :: "remux_side_file list"

definition sourceIsCloneable :: "remux_source \<Rightarrow> bool" where
  "sourceIsCloneable source \<longleftrightarrow> rs_kind source \<noteq> InputSource"

definition sourceSize :: "remux_source \<Rightarrow> int" where
  "sourceSize source = rs_size source"

definition jobIsCloneable :: "remux_job \<Rightarrow> bool" where
  "jobIsCloneable job \<longleftrightarrow>
     sourceIsCloneable (rj_source job) \<and> list_all (\<lambda>side. rf_url side \<noteq> None) (rj_sideFiles job)"

text \<open>\<open>assertReadable\<close>: the byte it probes, and what the failed read becomes.\<close>

definition probeSlice :: "int \<Rightarrow> int \<times> int" where
  "probeSlice bytes = (if 0 < bytes then (bytes - 1, bytes) else (0, 1))"

definition assertReadable :: "int \<Rightarrow> (int \<times> int \<Rightarrow> failure option) \<Rightarrow> failure + unit" where
  "assertReadable bytes readSlice =
     (case readSlice (probeSlice bytes) of
        None \<Rightarrow> Inr ()
      | Some error \<Rightarrow>
          if isUnreadableFile error then Inl (JsError ''Error'' FILE_UNREADABLE) else Inl error)"

section \<open>Opening a room and its media\<close>

text \<open>
  \<open>createRoom\<close>: the server's statuses in the order of the posts. A refused human
  token is forgotten and the post repeated once; the result is whether the
  room was made and how often a token was asked for and forgotten.
\<close>

definition createRoomBody :: "string \<Rightarrow> string \<Rightarrow> string \<Rightarrow> payload" where
  "createRoomBody nickname name password =
     (''nickname'', JStr nickname) # strField ''name'' name
       @ (if password = [] then []
          else [(''joinMode'', JStr ''password''), (''password'', JStr password)])"

record room_created =
  rc_made :: bool
  rc_posts :: nat
  rc_forgotten :: bool

definition createRoom :: "nat \<Rightarrow> nat \<Rightarrow> room_created" where
  "createRoom first second =
     (let again = (first = 403);
          status = (if again then second else first)
      in \<lparr>rc_made = (200 \<le> status \<and> status \<le> 299), rc_posts = (if again then 2 else 1), rc_forgotten = again\<rparr>)"

text \<open>What another member's app opens to play its own copy.\<close>

datatype local_copy = TorrentCopy string nat | YoutubeCopy string string

definition copyJson :: "local_copy \<Rightarrow> json" where
  "copyJson copy = (case copy of
      TorrentCopy magnet index \<Rightarrow>
        JObj [(''kind'', JStr ''torrent''), (''magnet'', JStr magnet), (''index'', num_json (int index))]
    | YoutubeCopy url videoId \<Rightarrow>
        JObj [(''kind'', JStr ''youtube''), (''url'', JStr url), (''videoId'', JStr videoId)])"

definition sourceKindFor :: "string option \<Rightarrow> string \<Rightarrow> string" where
  "sourceKindFor backend otherwise = (if backend = Some ''desktop'' then ''local'' else otherwise)"

definition localFields :: "string \<Rightarrow> string option \<Rightarrow> int option \<Rightarrow> local_copy option \<Rightarrow> payload" where
  "localFields kind fileName durationMs localCopy =
     (if kind \<noteq> ''local'' then []
      else (''title'', JStr (orElse fileName []))
        # (case durationMs of None \<Rightarrow> []
           | Some d \<Rightarrow> if 0 < d then [(''durationMs'', num_json d)] else [])
        @ (case localCopy of None \<Rightarrow> [] | Some copy \<Rightarrow> [(''localCopy'', copyJson copy)]))"

text \<open>An absent \<open>fileName\<close> is left out of the JSON.\<close>

definition changeRoomSource ::
  "string \<Rightarrow> string \<Rightarrow> string \<Rightarrow> string option \<Rightarrow> int option \<Rightarrow> local_copy option \<Rightarrow> payload" where
  "changeRoomSource memberId capability kind fileName durationMs localCopy =
     [(''memberId'', JStr memberId), (''capability'', JStr capability), (''kind'', JStr kind)]
       @ (case fileName of None \<Rightarrow> [] | Some n \<Rightarrow> [(''fileName'', JStr n)])
       @ localFields kind fileName durationMs localCopy"

definition openFirstMedia :: "string option \<Rightarrow> string \<Rightarrow> string \<Rightarrow> payload" where
  "openFirstMedia ownerToken kind fileName =
     [(''ownerToken'', JStr (orElse ownerToken [])), (''kind'', JStr kind), (''fileName'', JStr fileName)]"

record swarm_session =
  ts_magnet :: "string option"
  ts_backend :: "string option"
  ts_jobId :: "string option"
  ts_startsRemux :: bool

record youtube_session =
  ys_url :: string
  ys_videoId :: string
  ys_title :: string
  ys_backend :: string

definition torrentCopy :: "swarm_session \<Rightarrow> nat \<Rightarrow> local_copy option" where
  "torrentCopy session index =
     (case ts_magnet session of
        Some magnet \<Rightarrow>
          if ts_backend session \<noteq> Some ''desktop'' \<or> \<not> startsWith magnet ''magnet:?'' then None
          else Some (TorrentCopy magnet index)
      | None \<Rightarrow> None)"

definition youtubeCopy :: "youtube_session \<Rightarrow> local_copy option" where
  "youtubeCopy session =
     (if ys_backend session \<noteq> ''desktop'' \<or> ys_videoId session = [] \<or> \<not> startsWith (ys_url session) ''https://''
      then None else Some (YoutubeCopy (ys_url session) (ys_videoId session)))"

definition youtubeFileName :: "youtube_session \<Rightarrow> string" where
  "youtubeFileName session =
     (let title = trim (ys_title session)
      in take 200 (if title \<noteq> [] then title else ys_videoId session))"

section \<open>The registry\<close>

text \<open>
  An upload's entry; a production is what the closures of one \<open>startRoomUpload\<close>
  hold, a torrent run those of one \<open>startTorrentUpload\<close>, a YouTube run those of
  one \<open>startYoutubeUpload\<close>. Listeners, external productions and swarms are
  known by number.
\<close>

record upload_entry =
  ue_pct :: int
  ue_uploaded :: int
  ue_total :: int
  ue_done :: bool
  ue_error :: "string option"
  ue_progressListeners :: "nat list"
  ue_doneListeners :: "nat list"

datatype remux_handle = WorkerHandle nat | PipelineHandle nat nat | ExternalHandle nat

record production =
  pn_room :: string
  pn_entry :: nat
  pn_source :: remux_source
  pn_worker :: bool
  pn_own :: "remux_handle option"
  pn_over :: bool

type_synonym seat_auth = "string \<times> string"

text \<open>What a hand-over waits for: an answer known beforehand, or a request's.\<close>

type_synonym asked = "string option + (string \<times> payload)"

datatype torrent_phase =
    AskedHost
  | AskedFleet asked
  | OpeningFleet string
  | SelectingOnFleet string nat
  | AskedFleetAgain asked
  | TorrentOver

record torrent_run =
  tn_room :: string
  tn_generation :: nat
  tn_entry :: nat
  tn_index :: nat
  tn_auth :: "seat_auth option"
  tn_current :: nat
  tn_phase :: torrent_phase

record youtube_run =
  yn_room :: string
  yn_entry :: nat
  yn_over :: bool

datatype source_origin = OriginFile | OriginTorrent | OriginUrl | OriginYoutube

datatype resumable_kind = ResumeTorrent | ResumeUrl | ResumeYoutube | ResumeLive

record resumable_source =
  rm_kind :: resumable_kind
  rm_fileName :: string
  rm_magnet :: "string option"
  rm_filePath :: "string option"
  rm_url :: "string option"
  rm_bytes :: "int option"
  rm_savedAt :: int

datatype upload_effect =
    ProgressTold nat nat int int
  | DoneTold nat nat "string option"
  | StoppedExternal nat
  | CleanedUp nat
  | TerminatedWorker nat
  | DestroyedSwarm nat
  | DetachedSwarm nat
  | DestroyedYoutube nat

record upload_tab =
  ub_entries :: "upload_entry list"
  ub_uploads :: "string \<rightharpoonup> nat"
  ub_handles :: "string \<rightharpoonup> remux_handle"
  ub_stops :: "string \<rightharpoonup> nat"
  ub_sessions :: "string \<rightharpoonup> nat"
  ub_swarms :: "swarm_session list"
  ub_origins :: "string \<rightharpoonup> source_origin"
  ub_remote :: "string set"
  ub_resumes :: "string \<rightharpoonup> resumable_source"
  ub_owners :: "string \<rightharpoonup> string"
  ub_lastDetail :: "string option"
  ub_productions :: "production list"
  ub_torrents :: "torrent_run list"
  ub_youtubes :: "youtube_run list"
  ub_timers :: "(string \<times> nat) list"
  ub_nextListener :: nat
  ub_mocks :: bool
  ub_log :: "upload_effect list"

definition emptyTab :: "bool \<Rightarrow> upload_tab" where
  "emptyTab mocks =
     \<lparr>ub_entries = [], ub_uploads = Map.empty, ub_handles = Map.empty, ub_stops = Map.empty,
      ub_sessions = Map.empty, ub_swarms = [], ub_origins = Map.empty, ub_remote = {},
      ub_resumes = Map.empty, ub_owners = Map.empty, ub_lastDetail = None, ub_productions = [],
      ub_torrents = [], ub_youtubes = [], ub_timers = [], ub_nextListener = 0, ub_mocks = mocks, ub_log = []\<rparr>"

definition logged :: "upload_effect list \<Rightarrow> upload_tab \<Rightarrow> upload_tab" where
  "logged effects tab = tab\<lparr>ub_log := ub_log tab @ effects\<rparr>"

definition ownerTokenFor :: "upload_tab \<Rightarrow> string \<Rightarrow> string" where
  "ownerTokenFor tab room = orElse (ub_owners tab room) []"

definition rememberOwnerToken :: "string \<Rightarrow> string option \<Rightarrow> upload_tab \<Rightarrow> upload_tab" where
  "rememberOwnerToken room token tab =
     (if truthy token then tab\<lparr>ub_owners := (ub_owners tab)(room := token)\<rparr> else tab)"

definition releaseExternal :: "string \<Rightarrow> upload_tab \<Rightarrow> upload_tab" where
  "releaseExternal room tab =
     (case ub_stops tab room of
        None \<Rightarrow> tab
      | Some stop \<Rightarrow>
          logged [StoppedExternal stop]
            (tab\<lparr>ub_stops := (ub_stops tab)(room := None), ub_handles := (ub_handles tab)(room := None)\<rparr>))"

definition registerRemuxHandle :: "string \<Rightarrow> remux_handle \<Rightarrow> nat \<Rightarrow> upload_tab \<Rightarrow> upload_tab" where
  "registerRemuxHandle room handle stop tab =
     (let tab = releaseExternal room tab
      in tab\<lparr>ub_handles := (ub_handles tab)(room \<mapsto> handle), ub_stops := (ub_stops tab)(room \<mapsto> stop)\<rparr>)"

definition unregisterRemuxHandle :: "string \<Rightarrow> remux_handle \<Rightarrow> upload_tab \<Rightarrow> upload_tab" where
  "unregisterRemuxHandle room handle tab =
     (let tab = (if ub_handles tab room = Some handle
                 then tab\<lparr>ub_handles := (ub_handles tab)(room := None)\<rparr> else tab)
      in tab\<lparr>ub_stops := (ub_stops tab)(room := None)\<rparr>)"

definition uploadActive :: "upload_tab \<Rightarrow> string \<Rightarrow> bool" where
  "uploadActive tab room =
     (case ub_uploads tab room of None \<Rightarrow> False | Some i \<Rightarrow> \<not> ue_done (ub_entries tab ! i))"

section \<open>The source to pick up again\<close>

definition RESUME_TTL_MS :: int where "RESUME_TTL_MS = 5 * 60 * 60 * 1000"

definition saveResumableSource :: "string \<Rightarrow> resumable_source \<Rightarrow> int \<Rightarrow> upload_tab \<Rightarrow> upload_tab" where
  "saveResumableSource room source now tab =
     tab\<lparr>ub_resumes := (ub_resumes tab)(room \<mapsto> source\<lparr>rm_savedAt := now\<rparr>)\<rparr>"

definition clearResumableSource :: "string \<Rightarrow> upload_tab \<Rightarrow> upload_tab" where
  "clearResumableSource room tab = tab\<lparr>ub_resumes := (ub_resumes tab)(room := None)\<rparr>"

definition resumableSourceFor :: "string \<Rightarrow> int \<Rightarrow> upload_tab \<Rightarrow> resumable_source option \<times> upload_tab" where
  "resumableSourceFor room now tab =
     (case ub_resumes tab room of
        None \<Rightarrow> (None, tab)
      | Some source \<Rightarrow>
          if RESUME_TTL_MS < now - rm_savedAt source then (None, clearResumableSource room tab)
          else (Some source, tab))"

definition torrentResume :: "string \<Rightarrow> string \<Rightarrow> string \<Rightarrow> resumable_source" where
  "torrentResume fileName magnet path =
     \<lparr>rm_kind = ResumeTorrent, rm_fileName = fileName, rm_magnet = Some magnet, rm_filePath = Some path,
      rm_url = None, rm_bytes = None, rm_savedAt = 0\<rparr>"

definition youtubeResume :: "youtube_session \<Rightarrow> resumable_source" where
  "youtubeResume session =
     \<lparr>rm_kind = ResumeYoutube, rm_fileName = youtubeFileName session, rm_magnet = None, rm_filePath = None,
      rm_url = Some (ys_url session), rm_bytes = None, rm_savedAt = 0\<rparr>"

definition urlResume :: "string \<Rightarrow> string \<Rightarrow> int \<Rightarrow> resumable_source" where
  "urlResume url fileName bytes =
     \<lparr>rm_kind = ResumeUrl, rm_fileName = fileName, rm_magnet = None, rm_filePath = None,
      rm_url = Some url, rm_bytes = Some bytes, rm_savedAt = 0\<rparr>"

section \<open>Entries\<close>

definition createEntry :: "int \<Rightarrow> upload_entry" where
  "createEntry bytesTotal =
     \<lparr>ue_pct = 0, ue_uploaded = 0, ue_total = bytesTotal, ue_done = False, ue_error = None,
      ue_progressListeners = [], ue_doneListeners = []\<rparr>"

definition onEntry :: "nat \<Rightarrow> (upload_entry \<Rightarrow> upload_entry) \<Rightarrow> upload_tab \<Rightarrow> upload_tab" where
  "onEntry i f tab = tab\<lparr>ub_entries := (ub_entries tab)[i := f (ub_entries tab ! i)]\<rparr>"

definition updateEntry :: "nat \<Rightarrow> int \<Rightarrow> upload_tab \<Rightarrow> upload_tab" where
  "updateEntry i bytesUploaded tab =
     (let entry = ub_entries tab ! i;
          pct = (if 0 < ue_total entry
                 then js_round (of_int bytesUploaded / of_int (ue_total entry) * 100) else 0)
      in if pct = ue_pct entry \<and> bytesUploaded = ue_uploaded entry then tab
         else logged (map (\<lambda>listener. ProgressTold i listener pct bytesUploaded) (ue_progressListeners entry))
                (onEntry i (\<lambda>entry. entry\<lparr>ue_pct := pct, ue_uploaded := bytesUploaded\<rparr>) tab))"

text \<open>The timer that forgets a finished entry is the pair of its room and the entry.\<close>

definition finishEntry ::
  "string \<Rightarrow> nat \<Rightarrow> string option \<Rightarrow> (upload_tab \<Rightarrow> upload_tab) \<Rightarrow> upload_tab \<Rightarrow> upload_tab" where
  "finishEntry room i error cleanup tab =
     (let entry = ub_entries tab ! i
      in if ue_done entry then tab
         else
           let tab = onEntry i (\<lambda>entry. entry\<lparr>ue_done := True, ue_error := error\<rparr>) tab;
               tab = logged (map (\<lambda>listener. DoneTold i listener error) (ue_doneListeners entry)) tab;
               tab = cleanup tab
           in tab\<lparr>ub_timers := ub_timers tab @ [(room, i)]\<rparr>)"

definition forgetEntry :: "string \<Rightarrow> nat \<Rightarrow> upload_tab \<Rightarrow> upload_tab" where
  "forgetEntry room i tab =
     (if ub_uploads tab room = Some i then tab\<lparr>ub_uploads := (ub_uploads tab)(room := None)\<rparr> else tab)"

definition timerFires :: "nat \<Rightarrow> upload_tab \<Rightarrow> upload_tab" where
  "timerFires n tab =
     (if n < length (ub_timers tab)
      then let (room, i) = ub_timers tab ! n
           in forgetEntry room i (tab\<lparr>ub_timers := take n (ub_timers tab) @ drop (Suc n) (ub_timers tab)\<rparr>)
      else tab)"

text \<open>A new entry for the room, and the page's own progress callback as its first listener.\<close>

definition newEntry :: "string \<Rightarrow> int \<Rightarrow> bool \<Rightarrow> upload_tab \<Rightarrow> upload_tab" where
  "newEntry room bytesTotal onProgress tab =
     (let i = length (ub_entries tab);
          l = ub_nextListener tab;
          entry = createEntry bytesTotal
      in tab\<lparr>ub_entries := ub_entries tab
               @ [if onProgress then entry\<lparr>ue_progressListeners := [l]\<rparr> else entry],
             ub_uploads := (ub_uploads tab)(room \<mapsto> i),
             ub_nextListener := (if onProgress then Suc l else l)\<rparr>)"

section \<open>Listening\<close>

definition subscribeUploadProgress :: "string \<Rightarrow> upload_tab \<Rightarrow> upload_tab" where
  "subscribeUploadProgress room tab =
     (case ub_uploads tab room of
        None \<Rightarrow> tab
      | Some i \<Rightarrow>
          let l = ub_nextListener tab;
              entry = ub_entries tab ! i
          in logged [ProgressTold i l (ue_pct entry) (ue_uploaded entry)]
               (onEntry i (\<lambda>entry. entry\<lparr>ue_progressListeners := ue_progressListeners entry @ [l]\<rparr>)
                 (tab\<lparr>ub_nextListener := Suc l\<rparr>)))"

definition unsubscribeUploadProgress :: "nat \<Rightarrow> nat \<Rightarrow> upload_tab \<Rightarrow> upload_tab" where
  "unsubscribeUploadProgress i l tab =
     onEntry i (\<lambda>entry. entry\<lparr>ue_progressListeners := removeAll l (ue_progressListeners entry)\<rparr>) tab"

definition subscribeUploadDone :: "string \<Rightarrow> upload_tab \<Rightarrow> upload_tab" where
  "subscribeUploadDone room tab =
     (case ub_uploads tab room of
        None \<Rightarrow> tab
      | Some i \<Rightarrow>
          let l = ub_nextListener tab;
              entry = ub_entries tab ! i;
              tab = tab\<lparr>ub_nextListener := Suc l\<rparr>
          in if ue_done entry then logged [DoneTold i l (ue_error entry)] tab
             else onEntry i (\<lambda>entry. entry\<lparr>ue_doneListeners := ue_doneListeners entry @ [l]\<rparr>) tab)"

definition unsubscribeUploadDone :: "nat \<Rightarrow> nat \<Rightarrow> upload_tab \<Rightarrow> upload_tab" where
  "unsubscribeUploadDone i l tab =
     onEntry i (\<lambda>entry. entry\<lparr>ue_doneListeners := removeAll l (ue_doneListeners entry)\<rparr>) tab"

section \<open>A production in this tab\<close>

abbreviation prodAt :: "upload_tab \<Rightarrow> nat \<Rightarrow> production" where
  "prodAt tab p \<equiv> ub_productions tab ! p"

definition onProduction :: "nat \<Rightarrow> (production \<Rightarrow> production) \<Rightarrow> upload_tab \<Rightarrow> upload_tab" where
  "onProduction p f tab = tab\<lparr>ub_productions := (ub_productions tab)[p := f (prodAt tab p)]\<rparr>"

text \<open>
  \<open>startRoomUpload\<close>. With workers at hand a job of plain data goes into one;
  \<open>ownHandle\<close> is then known at once, and registered when the worker says so.
\<close>

definition startRoomUpload :: "bool \<Rightarrow> remux_job \<Rightarrow> bool \<Rightarrow> upload_tab \<Rightarrow> upload_tab" where
  "startRoomUpload workers job onProgress tab =
     (let room = rj_roomID job;
          source = rj_source job;
          tab = releaseExternal room tab;
          tab = tab\<lparr>ub_remote := ub_remote tab - {room},
                    ub_origins := (ub_origins tab)(room \<mapsto>
                      if rs_kind source = FileSource then OriginFile else OriginUrl)\<rparr>;
          i = length (ub_entries tab);
          tab = newEntry room (sourceSize source) onProgress tab;
          p = length (ub_productions tab);
          inWorker = workers \<and> jobIsCloneable job
      in tab\<lparr>ub_productions := ub_productions tab
               @ [\<lparr>pn_room = room, pn_entry = i, pn_source = source, pn_worker = inWorker,
                   pn_own = (if inWorker then Some (WorkerHandle p) else None), pn_over = False\<rparr>]\<rparr>)"

definition startUrlUpload ::
  "bool \<Rightarrow> string \<Rightarrow> nat \<Rightarrow> string \<Rightarrow> string \<Rightarrow> int \<Rightarrow> remux_side_file list \<Rightarrow> int \<Rightarrow> upload_tab \<Rightarrow> upload_tab" where
  "startUrlUpload workers room generation url fileName bytes sideFiles now tab =
     startRoomUpload workers
       \<lparr>rj_roomID = room, rj_mediaGeneration = generation,
        rj_source = \<lparr>rs_kind = UrlSource, rs_size = bytes\<rparr>, rj_sideFiles = sideFiles\<rparr> False
       (saveResumableSource room (urlResume url fileName bytes) now tab)"

definition startFileUpload :: "bool \<Rightarrow> string \<Rightarrow> nat \<Rightarrow> int \<Rightarrow> bool \<Rightarrow> upload_tab \<Rightarrow> upload_tab" where
  "startFileUpload workers room generation bytes onProgress tab =
     startRoomUpload workers
       \<lparr>rj_roomID = room, rj_mediaGeneration = generation,
        rj_source = \<lparr>rs_kind = FileSource, rs_size = bytes\<rparr>, rj_sideFiles = []\<rparr> onProgress tab"

definition dropHandle :: "nat \<Rightarrow> upload_tab \<Rightarrow> upload_tab" where
  "dropHandle p tab =
     (case pn_own (prodAt tab p) of
        None \<Rightarrow> tab
      | Some own \<Rightarrow>
          let room = pn_room (prodAt tab p)
          in if ub_handles tab room = Some own
             then tab\<lparr>ub_handles := (ub_handles tab)(room := None)\<rparr> else tab)"

definition finish :: "nat \<Rightarrow> string option \<Rightarrow> string option \<Rightarrow> upload_tab \<Rightarrow> upload_tab" where
  "finish p error detail tab =
     (let tab = dropHandle p tab;
          tab = tab\<lparr>ub_lastDetail := (if error = None then None else detail)\<rparr>
      in finishEntry (pn_room (prodAt tab p)) (pn_entry (prodAt tab p)) error (logged [CleanedUp p]) tab)"

definition movedOn :: "nat \<Rightarrow> upload_tab \<Rightarrow> upload_tab" where
  "movedOn p tab =
     logged [CleanedUp p] (dropHandle p (forgetEntry (pn_room (prodAt tab p)) (pn_entry (prodAt tab p)) tab))"

definition onProgressPct :: "nat \<Rightarrow> rat \<Rightarrow> upload_tab \<Rightarrow> upload_tab" where
  "onProgressPct p pct tab =
     updateEntry (pn_entry (prodAt tab p))
       (js_round (pct / 100 * of_int (sourceSize (pn_source (prodAt tab p))))) tab"

text \<open>A worker's messages; a terminated worker's are never delivered.\<close>

datatype worker_message =
    WTrouble
  | WTrace
  | WProgress "rat option"
  | WHandle
  | WDone
  | WMovedOn
  | WFailed "string option" "string option"
  | WOther

definition settle :: "nat \<Rightarrow> (upload_tab \<Rightarrow> upload_tab) \<Rightarrow> upload_tab \<Rightarrow> upload_tab" where
  "settle p act tab =
     logged [TerminatedWorker p] (onProduction p (\<lambda>pn. pn\<lparr>pn_over := True\<rparr>) (act tab))"

definition registerOwn :: "nat \<Rightarrow> upload_tab \<Rightarrow> upload_tab" where
  "registerOwn p tab =
     (case pn_own (prodAt tab p) of
        None \<Rightarrow> tab
      | Some own \<Rightarrow> tab\<lparr>ub_handles := (ub_handles tab)(pn_room (prodAt tab p) \<mapsto> own)\<rparr>)"

definition onWorkerMessage :: "nat \<Rightarrow> worker_message \<Rightarrow> upload_tab \<Rightarrow> upload_tab" where
  "onWorkerMessage p message tab =
     (case message of
        WTrouble \<Rightarrow> tab
      | WTrace \<Rightarrow> tab
      | WOther \<Rightarrow> tab
      | WProgress pct \<Rightarrow> onProgressPct p (orElse pct 0) tab
      | WHandle \<Rightarrow> registerOwn p tab
      | WDone \<Rightarrow> settle p (finish p None None) tab
      | WMovedOn \<Rightarrow> settle p (movedOn p) tab
      | WFailed code detail \<Rightarrow> settle p (finish p (Some (orElse code ''upload failed'')) detail) tab)"

definition onWorkerError :: "nat \<Rightarrow> string \<Rightarrow> upload_tab \<Rightarrow> upload_tab" where
  "onWorkerError p message tab =
     settle p (finish p (Some (if message = [] then ''upload failed'' else message)) None) tab"

text \<open>What the in-page pipeline throws, and the code and detail it is reported under.\<close>

datatype job_failure =
    RoomMovedOnError
  | UnsupportedMediaError "string option" failure
  | PlanFailedError failure
  | PipelineFailure failure

definition reportAs :: "source_kind \<Rightarrow> job_failure \<Rightarrow> (string \<times> string) option" where
  "reportAs kind error =
     (case error of
        RoomMovedOnError \<Rightarrow> None
      | UnsupportedMediaError reason e \<Rightarrow> Some (UNSUPPORTED_MEDIA, orElse reason (errorDetail e))
      | PlanFailedError cause \<Rightarrow>
          Some (orElse (readFailureCode cause kind)
                  (if kind = UrlSource then SOURCE_UNREACHABLE else UNSUPPORTED_MEDIA),
                ''plan failed: '' @ errorDetail cause)
      | PipelineFailure e \<Rightarrow>
          Some (orElse (readFailureCode e kind) (if isError e then errorMessage e else ''upload failed''),
                errorDetail e))"

definition pipelineSettled :: "nat \<Rightarrow> job_failure option \<Rightarrow> upload_tab \<Rightarrow> upload_tab" where
  "pipelineSettled p outcome tab =
     (let tab = onProduction p (\<lambda>pn. pn\<lparr>pn_over := True\<rparr>) tab
      in case outcome of
           None \<Rightarrow> finish p None None tab
         | Some error \<Rightarrow>
             (case reportAs (rs_kind (pn_source (prodAt tab p))) error of
                None \<Rightarrow> movedOn p tab
              | Some (code, detail) \<Rightarrow> finish p (Some code) (Some detail) tab))"

definition pipelineHandle :: "nat \<Rightarrow> nat \<Rightarrow> upload_tab \<Rightarrow> upload_tab" where
  "pipelineHandle p k tab = registerOwn p (onProduction p (\<lambda>pn. pn\<lparr>pn_own := Some (PipelineHandle p k)\<rparr>) tab)"

section \<open>Handing a torrent over\<close>

text \<open>\<open>startRemoteRemux\<close> in two halves: what it asks, or answers at once; and the answer.\<close>

definition authJson :: "string \<Rightarrow> seat_auth option \<Rightarrow> json" where
  "authJson ownerToken auth =
     (if ownerToken \<noteq> [] then JObj [(''ownerToken'', JStr ownerToken)]
      else case auth of
          None \<Rightarrow> JNull
        | Some (memberId, capability) \<Rightarrow>
            JObj [(''memberId'', JStr memberId), (''capability'', JStr capability)])"

definition remuxBody :: "string \<Rightarrow> nat \<Rightarrow> string \<Rightarrow> string \<Rightarrow> seat_auth option \<Rightarrow> payload" where
  "remuxBody room generation requestId ownerToken auth =
     [(''roomId'', JStr room), (''mediaGeneration'', num_json (int generation)),
      (''requestId'', JStr requestId), (''startMs'', num_json 0), (''auth'', authJson ownerToken auth)]"

definition startRemoteRemux ::
  "bool \<Rightarrow> string \<Rightarrow> nat \<Rightarrow> string \<Rightarrow> swarm_session \<Rightarrow> string \<Rightarrow> seat_auth option \<Rightarrow> asked" where
  "startRemoteRemux mocks room generation requestId session ownerToken auth =
     (if mocks then Inl None
      else if \<not> truthy (ts_jobId session) then Inl (Some ''torrent session has no fleet job'')
      else if ownerToken = [] \<and> auth = None then Inl (Some ''no proof of ownership for the room'')
      else Inr (orElse (ts_jobId session) [], remuxBody room generation requestId ownerToken auth))"

datatype fetch_outcome = Answered nat "string option" | FetchThrew string

definition remuxAnswer :: "fetch_outcome \<Rightarrow> string option" where
  "remuxAnswer outcome =
     (case outcome of
        Answered status error \<Rightarrow>
          if status = 202 then None
          else Some (''remux refused ('' @ dec status
                       @ (if truthy error then '' '' @ orElse error [] else []) @ '')'')
      | FetchThrew message \<Rightarrow> Some (''remux request failed: '' @ message))"

definition askedAnswer :: "asked \<Rightarrow> fetch_outcome \<Rightarrow> string option" where
  "askedAnswer asked outcome = (case asked of Inl refusal \<Rightarrow> refusal | Inr request \<Rightarrow> remuxAnswer outcome)"

abbreviation torrent :: "upload_tab \<Rightarrow> nat \<Rightarrow> torrent_run" where
  "torrent tab k \<equiv> ub_torrents tab ! k"

definition onTorrent :: "nat \<Rightarrow> (torrent_run \<Rightarrow> torrent_run) \<Rightarrow> upload_tab \<Rightarrow> upload_tab" where
  "onTorrent k f tab = tab\<lparr>ub_torrents := (ub_torrents tab)[k := f (torrent tab k)]\<rparr>"

text \<open>A session handed to the tab: opened in the app or on the fleet.\<close>

definition addSwarm :: "swarm_session \<Rightarrow> upload_tab \<Rightarrow> upload_tab" where
  "addSwarm session tab = tab\<lparr>ub_swarms := ub_swarms tab @ [session]\<rparr>"

record torrent_start =
  tq_room :: string
  tq_generation :: nat
  tq_fileName :: string
  tq_path :: string
  tq_index :: nat
  tq_bytes :: int
  tq_swarm :: nat
  tq_auth :: "seat_auth option"
  tq_onProgress :: bool
  tq_requestId :: string
  tq_now :: int

definition startTorrentUpload :: "torrent_start \<Rightarrow> upload_tab \<Rightarrow> upload_tab" where
  "startTorrentUpload q tab =
     (let room = tq_room q;
          session = ub_swarms tab ! tq_swarm q;
          tab = releaseExternal room tab;
          tab = tab\<lparr>ub_sessions := (ub_sessions tab)(room \<mapsto> tq_swarm q)\<rparr>;
          tab = (if truthy (ts_magnet session)
                 then saveResumableSource room
                        (torrentResume (tq_fileName q) (orElse (ts_magnet session) []) (tq_path q)) (tq_now q) tab
                 else tab);
          tab = tab\<lparr>ub_remote := ub_remote tab - {room}, ub_origins := (ub_origins tab)(room \<mapsto> OriginTorrent)\<rparr>;
          i = length (ub_entries tab);
          tab = newEntry room (tq_bytes q) (tq_onProgress q) tab;
          phase = (if ts_startsRemux session then AskedHost
                   else AskedFleet (startRemoteRemux (ub_mocks tab) room (tq_generation q) (tq_requestId q)
                                      session (ownerTokenFor tab room) (tq_auth q)))
      in tab\<lparr>ub_torrents := ub_torrents tab
               @ [\<lparr>tn_room = room, tn_generation = tq_generation q, tn_entry = i, tn_index = tq_index q,
                   tn_auth = tq_auth q, tn_current = tq_swarm q, tn_phase = phase\<rparr>]\<rparr>)"

definition releaseSwarm :: "nat \<Rightarrow> upload_tab \<Rightarrow> upload_tab" where
  "releaseSwarm k tab =
     (let room = tn_room (torrent tab k)
      in if ub_sessions tab room = Some (tn_current (torrent tab k))
         then tab\<lparr>ub_sessions := (ub_sessions tab)(room := None)\<rparr> else tab)"

text \<open>The end of the hand-over, one way or the other.\<close>

definition handedOver :: "nat \<Rightarrow> string option \<Rightarrow> upload_tab \<Rightarrow> upload_tab" where
  "handedOver k refusal tab =
     (let run = torrent tab k;
          tab = onTorrent k (\<lambda>run. run\<lparr>tn_phase := TorrentOver\<rparr>) tab
      in case refusal of
           Some why \<Rightarrow>
             finishEntry (tn_room run) (tn_entry run) (Some REMUX_UNAVAILABLE)
               (\<lambda>tab. logged [DestroyedSwarm (tn_current run)] (releaseSwarm k tab))
               (tab\<lparr>ub_lastDetail := Some why\<rparr>)
         | None \<Rightarrow>
             finishEntry (tn_room run) (tn_entry run) None
               (\<lambda>tab. logged [DetachedSwarm (tn_current run)] (releaseSwarm k tab))
               (tab\<lparr>ub_remote := insert (tn_room run) (ub_remote tab), ub_lastDetail := None\<rparr>))"

text \<open>The first answer: an app that refused hands the magnet to the fleet.\<close>

definition firstAnswer :: "nat \<Rightarrow> string option \<Rightarrow> upload_tab \<Rightarrow> upload_tab" where
  "firstAnswer k refusal tab =
     (let session = ub_swarms tab ! tn_current (torrent tab k)
      in case refusal of
           None \<Rightarrow> handedOver k None tab
         | Some why \<Rightarrow>
             if ts_backend session = Some ''jlocal'' \<and> truthy (ts_magnet session) \<and> \<not> ub_mocks tab
             then onTorrent k (\<lambda>run. run\<lparr>tn_phase := OpeningFleet why\<rparr>) tab
             else handedOver k (Some why) tab)"

text \<open>\<open>openRemoteTorrent\<close>: the fleet's session and its files' indexes, or the error's text.\<close>

definition fleetOpened :: "nat \<Rightarrow> string \<Rightarrow> string + swarm_session \<times> nat list \<Rightarrow> upload_tab \<Rightarrow> upload_tab" where
  "fleetOpened k why outcome tab =
     (case outcome of
        Inl message \<Rightarrow> handedOver k (Some (why @ ''; fleet: '' @ message)) tab
      | Inr (session, indexes) \<Rightarrow>
          let fleet = length (ub_swarms tab);
              tab = addSwarm session tab
          in if tn_index (torrent tab k) \<in> set indexes
             then onTorrent k (\<lambda>run. run\<lparr>tn_phase := SelectingOnFleet why fleet\<rparr>) tab
             else handedOver k (Some why) (logged [DestroyedSwarm fleet] tab))"

definition fleetSelected :: "nat \<Rightarrow> string \<Rightarrow> nat \<Rightarrow> string option \<Rightarrow> string \<Rightarrow> upload_tab \<Rightarrow> upload_tab" where
  "fleetSelected k why fleet failed requestId tab =
     (case failed of
        Some message \<Rightarrow> handedOver k (Some (why @ ''; fleet: '' @ message)) tab
      | None \<Rightarrow>
          let room = tn_room (torrent tab k);
              tab = releaseSwarm k tab;
              tab = tab\<lparr>ub_sessions := (ub_sessions tab)(room \<mapsto> fleet)\<rparr>;
              asked = startRemoteRemux (ub_mocks tab) room (tn_generation (torrent tab k)) requestId
                        (ub_swarms tab ! fleet) (ownerTokenFor tab room) (tn_auth (torrent tab k))
          in onTorrent k (\<lambda>run. run\<lparr>tn_current := fleet, tn_phase := AskedFleetAgain asked\<rparr>) tab)"

section \<open>Handing a link over\<close>

definition startYoutubeUpload :: "string \<Rightarrow> youtube_session \<Rightarrow> int \<Rightarrow> upload_tab \<Rightarrow> upload_tab" where
  "startYoutubeUpload room session now tab =
     (let tab = saveResumableSource room (youtubeResume session) now (releaseExternal room tab);
          tab = tab\<lparr>ub_remote := ub_remote tab - {room}, ub_origins := (ub_origins tab)(room \<mapsto> OriginYoutube)\<rparr>;
          i = length (ub_entries tab);
          tab = newEntry room 0 False tab
      in tab\<lparr>ub_youtubes := ub_youtubes tab @ [\<lparr>yn_room = room, yn_entry = i, yn_over = False\<rparr>]\<rparr>)"

text \<open>The answer; with the mocks on, every start is accepted.\<close>

definition youtubeAnswered :: "nat \<Rightarrow> string option \<Rightarrow> upload_tab \<Rightarrow> upload_tab" where
  "youtubeAnswered y refusal tab =
     (let run = ub_youtubes tab ! y;
          tab = tab\<lparr>ub_youtubes := (ub_youtubes tab)[y := run\<lparr>yn_over := True\<rparr>]\<rparr>
      in case (if ub_mocks tab then None else refusal) of
           Some why \<Rightarrow>
             finishEntry (yn_room run) (yn_entry run) (Some REMUX_UNAVAILABLE) (logged [DestroyedYoutube y])
               (tab\<lparr>ub_lastDetail := Some why\<rparr>)
         | None \<Rightarrow>
             finishEntry (yn_room run) (yn_entry run) None id
               (tab\<lparr>ub_remote := insert (yn_room run) (ub_remote tab), ub_lastDetail := None\<rparr>))"

section \<open>One event after another\<close>

datatype registry_event =
    StartRoom bool remux_job bool
  | StartUrl bool string nat string string int "remux_side_file list" int
  | StartFile bool string nat int bool
  | StartTorrent torrent_start
  | StartYoutube string youtube_session int
  | SwarmOpened swarm_session
  | WorkerSays nat worker_message
  | WorkerErred nat string
  | PipelineProgress nat rat
  | PipelineHandleIs nat nat
  | PipelineSettled nat "job_failure option"
  | HostAnswered nat "string option"
  | FleetAnswered nat fetch_outcome
  | FleetOpened nat "string + swarm_session \<times> nat list"
  | FleetSelected nat "string option" string
  | YoutubeAnswered nat "string option"
  | RegisterHandle string nat nat
  | UnregisterHandle string nat
  | OwnerLearnt string "string option"
  | ClearResume string
  | ReadResume string int
  | SubscribeProgress string
  | UnsubscribeProgress nat nat
  | SubscribeDone string
  | UnsubscribeDone nat nat
  | TimerFires nat

definition live_worker :: "upload_tab \<Rightarrow> nat \<Rightarrow> bool" where
  "live_worker tab p \<longleftrightarrow> p < length (ub_productions tab) \<and> pn_worker (prodAt tab p) \<and> \<not> pn_over (prodAt tab p)"

definition in_page :: "upload_tab \<Rightarrow> nat \<Rightarrow> bool" where
  "in_page tab p \<longleftrightarrow> p < length (ub_productions tab) \<and> \<not> pn_worker (prodAt tab p)"

definition torrentAnswers :: "nat \<Rightarrow> fetch_outcome \<Rightarrow> upload_tab \<Rightarrow> upload_tab" where
  "torrentAnswers k outcome tab =
     (case tn_phase (torrent tab k) of
        AskedFleet asked \<Rightarrow> firstAnswer k (askedAnswer asked outcome) tab
      | AskedFleetAgain asked \<Rightarrow> handedOver k (askedAnswer asked outcome) tab
      | _ \<Rightarrow> tab)"

fun registryStep :: "upload_tab \<Rightarrow> registry_event \<Rightarrow> upload_tab" where
  "registryStep tab (StartRoom workers job onProgress) = startRoomUpload workers job onProgress tab"
| "registryStep tab (StartUrl workers room g url n bytes sides now) =
     startUrlUpload workers room g url n bytes sides now tab"
| "registryStep tab (StartFile workers room g bytes onProgress) = startFileUpload workers room g bytes onProgress tab"
| "registryStep tab (StartTorrent q) =
     (if tq_swarm q < length (ub_swarms tab) then startTorrentUpload q tab else tab)"
| "registryStep tab (StartYoutube room session now) = startYoutubeUpload room session now tab"
| "registryStep tab (SwarmOpened session) = addSwarm session tab"
| "registryStep tab (WorkerSays p message) = (if live_worker tab p then onWorkerMessage p message tab else tab)"
| "registryStep tab (WorkerErred p message) = (if live_worker tab p then onWorkerError p message tab else tab)"
| "registryStep tab (PipelineProgress p pct) = (if in_page tab p then onProgressPct p pct tab else tab)"
| "registryStep tab (PipelineHandleIs p k) = (if in_page tab p then pipelineHandle p k tab else tab)"
| "registryStep tab (PipelineSettled p outcome) =
     (if in_page tab p \<and> \<not> pn_over (prodAt tab p) then pipelineSettled p outcome tab else tab)"
| "registryStep tab (HostAnswered k refusal) =
     (if k < length (ub_torrents tab) \<and> tn_phase (torrent tab k) = AskedHost then firstAnswer k refusal tab else tab)"
| "registryStep tab (FleetAnswered k outcome) =
     (if k < length (ub_torrents tab) then torrentAnswers k outcome tab else tab)"
| "registryStep tab (FleetOpened k outcome) =
     (if k < length (ub_torrents tab)
      then case tn_phase (torrent tab k) of OpeningFleet why \<Rightarrow> fleetOpened k why outcome tab | _ \<Rightarrow> tab
      else tab)"
| "registryStep tab (FleetSelected k failed requestId) =
     (if k < length (ub_torrents tab)
      then case tn_phase (torrent tab k) of
             SelectingOnFleet why fleet \<Rightarrow> fleetSelected k why fleet failed requestId tab | _ \<Rightarrow> tab
      else tab)"
| "registryStep tab (YoutubeAnswered y refusal) =
     (if y < length (ub_youtubes tab) \<and> \<not> yn_over (ub_youtubes tab ! y) then youtubeAnswered y refusal tab else tab)"
| "registryStep tab (RegisterHandle room h stop) = registerRemuxHandle room (ExternalHandle h) stop tab"
| "registryStep tab (UnregisterHandle room h) = unregisterRemuxHandle room (ExternalHandle h) tab"
| "registryStep tab (OwnerLearnt room token) = rememberOwnerToken room token tab"
| "registryStep tab (ClearResume room) = clearResumableSource room tab"
| "registryStep tab (ReadResume room now) = snd (resumableSourceFor room now tab)"
| "registryStep tab (SubscribeProgress room) = subscribeUploadProgress room tab"
| "registryStep tab (UnsubscribeProgress i l) =
     (if i < length (ub_entries tab) then unsubscribeUploadProgress i l tab else tab)"
| "registryStep tab (SubscribeDone room) = subscribeUploadDone room tab"
| "registryStep tab (UnsubscribeDone i l) =
     (if i < length (ub_entries tab) then unsubscribeUploadDone i l tab else tab)"
| "registryStep tab (TimerFires n) = timerFires n tab"

abbreviation runUploadsTab :: "upload_tab \<Rightarrow> registry_event list \<Rightarrow> upload_tab" where
  "runUploadsTab \<equiv> foldl registryStep"

section \<open>Every listener is told once\<close>

fun toldOf :: "upload_effect list \<Rightarrow> (nat \<times> nat \<times> string option) list" where
  "toldOf [] = []"
| "toldOf (DoneTold i l e # es) = (i, l, e) # toldOf es"
| "toldOf (x # es) = toldOf es"

text \<open>
  What the entries, the number of listeners handed out and the calls made so
  far say of each other: nobody is called twice for an entry, a call names the
  error its finished entry keeps, and nobody waits for an entry that ended.
\<close>

definition entriesOk :: "upload_entry list \<Rightarrow> nat \<Rightarrow> (nat \<times> nat \<times> string option) list \<Rightarrow> bool" where
  "entriesOk entries next told \<longleftrightarrow>
     distinct (map (\<lambda>c. (fst c, fst (snd c))) told) \<and>
     (\<forall>i l e. (i, l, e) \<in> set told \<longrightarrow> i < length entries \<and> l < next
        \<and> ue_done (entries ! i) \<and> ue_error (entries ! i) = e) \<and>
     (\<forall>i l. i < length entries \<longrightarrow> l \<in> set (ue_doneListeners (entries ! i)) \<longrightarrow>
        l < next \<and> (ue_done (entries ! i) \<longrightarrow> (i, l, ue_error (entries ! i)) \<in> set told)) \<and>
     (\<forall>i. i < length entries \<longrightarrow> distinct (ue_doneListeners (entries ! i)))"

definition refsOk :: "upload_tab \<Rightarrow> bool" where
  "refsOk tab \<longleftrightarrow>
     (\<forall>room i. ub_uploads tab room = Some i \<longrightarrow> i < length (ub_entries tab)) \<and>
     list_all (\<lambda>i. i < length (ub_entries tab)) (map pn_entry (ub_productions tab)) \<and>
     list_all (\<lambda>i. i < length (ub_entries tab)) (map tn_entry (ub_torrents tab)) \<and>
     list_all (\<lambda>i. i < length (ub_entries tab)) (map yn_entry (ub_youtubes tab))"

abbreviation toldIn :: "upload_tab \<Rightarrow> (nat \<times> nat \<times> string option) list" where
  "toldIn tab \<equiv> toldOf (ub_log tab)"

definition tabOk :: "upload_tab \<Rightarrow> bool" where
  "tabOk tab \<longleftrightarrow> refsOk tab \<and> entriesOk (ub_entries tab) (ub_nextListener tab) (toldIn tab)"

lemma toldOf_append [simp]: "toldOf (xs @ ys) = toldOf xs @ toldOf ys"
  by (induction xs rule: toldOf.induct) simp_all

lemma toldOf_progress [simp]: "toldOf (map (\<lambda>l. ProgressTold i l pct up) ls) = []"
  by (induction ls) simp_all

lemma toldOf_done [simp]: "toldOf (map (\<lambda>l. DoneTold i l e) ls) = map (\<lambda>l. (i, l, e)) ls"
  by (induction ls) simp_all

lemma entriesOkI:
  assumes "distinct (map (\<lambda>c. (fst c, fst (snd c))) told)"
    and "\<And>i l e. (i, l, e) \<in> set told \<Longrightarrow>
           i < length entries \<and> l < next \<and> ue_done (entries ! i) \<and> ue_error (entries ! i) = e"
    and "\<And>i l. i < length entries \<Longrightarrow> l \<in> set (ue_doneListeners (entries ! i)) \<Longrightarrow>
           l < next \<and> (ue_done (entries ! i) \<longrightarrow> (i, l, ue_error (entries ! i)) \<in> set told)"
    and "\<And>i. i < length entries \<Longrightarrow> distinct (ue_doneListeners (entries ! i))"
  shows "entriesOk entries next told"
  using assms unfolding entriesOk_def by blast

lemma entriesOkD:
  assumes "entriesOk entries next told"
  shows "distinct (map (\<lambda>c. (fst c, fst (snd c))) told)"
    and "\<And>i l e. (i, l, e) \<in> set told \<Longrightarrow>
           i < length entries \<and> l < next \<and> ue_done (entries ! i) \<and> ue_error (entries ! i) = e"
    and "\<And>i l. i < length entries \<Longrightarrow> l \<in> set (ue_doneListeners (entries ! i)) \<Longrightarrow>
           l < next \<and> (ue_done (entries ! i) \<longrightarrow> (i, l, ue_error (entries ! i)) \<in> set told)"
    and "\<And>i. i < length entries \<Longrightarrow> distinct (ue_doneListeners (entries ! i))"
  using assms unfolding entriesOk_def by blast+

text \<open>One entry changed without its end or its waiting listeners.\<close>

lemma entriesOk_touch:
  assumes ok: "entriesOk entries next told"
    and f: "ue_done (f (entries ! i)) = ue_done (entries ! i)" "ue_error (f (entries ! i)) = ue_error (entries ! i)"
      "ue_doneListeners (f (entries ! i)) = ue_doneListeners (entries ! i)"
  shows "entriesOk (entries[i := f (entries ! i)]) next told"
proof -
  have "ue_done (entries[i := f (entries ! i)] ! j) = ue_done (entries ! j)
      \<and> ue_error (entries[i := f (entries ! i)] ! j) = ue_error (entries ! j)
      \<and> ue_doneListeners (entries[i := f (entries ! i)] ! j) = ue_doneListeners (entries ! j)" for j
    using f by (cases "i < length entries"; cases "i = j") (simp_all add: nth_list_update list_update_beyond)
  then show ?thesis using ok unfolding entriesOk_def by simp
qed

lemma entriesOk_mono: "entriesOk entries next told \<Longrightarrow> next \<le> next' \<Longrightarrow> entriesOk entries next' told"
  unfolding entriesOk_def by (meson less_le_trans)

lemma entriesOk_new:
  assumes "entriesOk entries next told" and "ue_doneListeners entry = []"
  shows "entriesOk (entries @ [entry]) next told"
proof (rule entriesOkI)
  show "distinct (map (\<lambda>c. (fst c, fst (snd c))) told)" using entriesOkD(1) [OF assms(1)] .
  show "i < length (entries @ [entry]) \<and> l < next \<and> ue_done ((entries @ [entry]) ! i)
      \<and> ue_error ((entries @ [entry]) ! i) = e" if "(i, l, e) \<in> set told" for i l e
    using entriesOkD(2) [OF assms(1) that] by (simp add: nth_append)
  show "l < next \<and> (ue_done ((entries @ [entry]) ! i) \<longrightarrow> (i, l, ue_error ((entries @ [entry]) ! i)) \<in> set told)"
    if "i < length (entries @ [entry])" "l \<in> set (ue_doneListeners ((entries @ [entry]) ! i))" for i l
    using entriesOkD(3) [OF assms(1), of i l] that assms(2) by (cases "i < length entries") (simp_all add: nth_append)
  show "distinct (ue_doneListeners ((entries @ [entry]) ! i))" if "i < length (entries @ [entry])" for i
    using entriesOkD(4) [OF assms(1), of i] that assms(2) by (cases "i < length entries") (simp_all add: nth_append)
qed

lemma entriesOk_unheard:
  assumes "entriesOk entries next told" and "\<not> ue_done (entries ! i)"
  shows "(i, l, e) \<notin> set told"
  using entriesOkD(2) [OF assms(1), of i l e] assms(2) by blast

lemma entriesOk_finish:
  assumes ok: "entriesOk entries next told" and i: "i < length entries" and open_yet: "\<not> ue_done (entries ! i)"
  shows "entriesOk (entries[i := (entries ! i)\<lparr>ue_done := True, ue_error := e\<rparr>]) next
           (told @ map (\<lambda>l. (i, l, e)) (ue_doneListeners (entries ! i)))"
    (is "entriesOk ?es next ?told")
proof (rule entriesOkI)
  have fresh: "\<And>l e. (i, l, e) \<notin> set told" using entriesOk_unheard [OF ok open_yet] .
  have "(fst \<circ> snd) ` set told \<subseteq> UNIV" by simp
  show "distinct (map (\<lambda>c. (fst c, fst (snd c))) ?told)"
    using entriesOkD(1) [OF ok] entriesOkD(4) [OF ok i] fresh
    by (auto simp: comp_def distinct_map inj_on_def)
  show "j < length ?es \<and> l < next \<and> ue_done (?es ! j) \<and> ue_error (?es ! j) = e'"
    if "(j, l, e') \<in> set ?told" for j l e'
  proof (cases "j = i")
    case True
    then have "l \<in> set (ue_doneListeners (entries ! i))" "e' = e" using that fresh by auto
    then show ?thesis using True i entriesOkD(3) [OF ok i, of l] by simp
  next
    case False
    then show ?thesis using that entriesOkD(2) [OF ok, of j l e'] by auto
  qed
  show "l < next \<and> (ue_done (?es ! j) \<longrightarrow> (j, l, ue_error (?es ! j)) \<in> set ?told)"
    if "j < length ?es" "l \<in> set (ue_doneListeners (?es ! j))" for j l
    using that i entriesOkD(3) [OF ok, of j l] by (cases "j = i") auto
  show "distinct (ue_doneListeners (?es ! j))" if "j < length ?es" for j
    using that i entriesOkD(4) [OF ok, of j] by (cases "j = i") auto
qed

lemma entriesOk_subscribe:
  assumes ok: "entriesOk entries next told" and i: "i < length entries" and open_yet: "\<not> ue_done (entries ! i)"
  shows "entriesOk (entries[i := (entries ! i)\<lparr>ue_doneListeners := ue_doneListeners (entries ! i) @ [next]\<rparr>])
           (Suc next) told"
    (is "entriesOk ?es _ _")
proof (rule entriesOkI)
  show "distinct (map (\<lambda>c. (fst c, fst (snd c))) told)" using entriesOkD(1) [OF ok] .
  show "j < length ?es \<and> l < Suc next \<and> ue_done (?es ! j) \<and> ue_error (?es ! j) = e"
    if "(j, l, e) \<in> set told" for j l e
    using entriesOkD(2) [OF ok that] open_yet by (cases "j = i") auto
  show "l < Suc next \<and> (ue_done (?es ! j) \<longrightarrow> (j, l, ue_error (?es ! j)) \<in> set told)"
    if "j < length ?es" "l \<in> set (ue_doneListeners (?es ! j))" for j l
    using that i open_yet entriesOkD(3) [OF ok, of j l] by (cases "j = i") (auto intro: less_SucI)
  show "distinct (ue_doneListeners (?es ! j))" if "j < length ?es" for j
    using that i entriesOkD(4) [OF ok, of j] entriesOkD(3) [OF ok, of j "next"] by (cases "j = i") auto
qed

lemma entriesOk_tell:
  assumes ok: "entriesOk entries next told" and "i < length entries" and "ue_done (entries ! i)"
  shows "entriesOk entries (Suc next) (told @ [(i, next, ue_error (entries ! i))])"
    (is "entriesOk _ _ ?told")
proof (rule entriesOkI)
  have "(i, next) \<notin> (\<lambda>c. (fst c, fst (snd c))) ` set told" using entriesOkD(2) [OF ok] by force
  then show "distinct (map (\<lambda>c. (fst c, fst (snd c))) ?told)" using entriesOkD(1) [OF ok] by simp
  show "j < length entries \<and> l < Suc next \<and> ue_done (entries ! j) \<and> ue_error (entries ! j) = e"
    if "(j, l, e) \<in> set ?told" for j l e
    using that assms(2,3) entriesOkD(2) [OF ok, of j l e] by auto
  show "l < Suc next \<and> (ue_done (entries ! j) \<longrightarrow> (j, l, ue_error (entries ! j)) \<in> set ?told)"
    if "j < length entries" "l \<in> set (ue_doneListeners (entries ! j))" for j l
    using entriesOkD(3) [OF ok that] by auto
  show "distinct (ue_doneListeners (entries ! j))" if "j < length entries" for j
    using entriesOkD(4) [OF ok that] .
qed

lemma entriesOk_unsubscribe:
  assumes ok: "entriesOk entries next told"
  shows "entriesOk (entries[i := (entries ! i)\<lparr>ue_doneListeners := removeAll l (ue_doneListeners (entries ! i))\<rparr>])
           next told"
    (is "entriesOk ?es _ _")
proof -
  have same: "ue_done (?es ! j) = ue_done (entries ! j) \<and> ue_error (?es ! j) = ue_error (entries ! j)
      \<and> set (ue_doneListeners (?es ! j)) \<subseteq> set (ue_doneListeners (entries ! j))
      \<and> (distinct (ue_doneListeners (entries ! j)) \<longrightarrow> distinct (ue_doneListeners (?es ! j)))" for j
    by (cases "i < length entries"; cases "i = j")
      (auto simp: nth_list_update list_update_beyond distinct_removeAll)
  show ?thesis
  proof (rule entriesOkI)
    show "distinct (map (\<lambda>c. (fst c, fst (snd c))) told)" using entriesOkD(1) [OF ok] .
    show "j < length ?es \<and> k < next \<and> ue_done (?es ! j) \<and> ue_error (?es ! j) = e"
      if "(j, k, e) \<in> set told" for j k e
      using entriesOkD(2) [OF ok that] same [of j] by simp
    show "k < next \<and> (ue_done (?es ! j) \<longrightarrow> (j, k, ue_error (?es ! j)) \<in> set told)"
      if "j < length ?es" "k \<in> set (ue_doneListeners (?es ! j))" for j k
      using entriesOkD(3) [OF ok, of j k] same [of j] that by auto
    show "distinct (ue_doneListeners (?es ! j))" if "j < length ?es" for j
      using entriesOkD(4) [OF ok, of j] same [of j] that by simp
  qed
qed

text \<open>What the invariant looks at; most operations leave it alone.\<close>

definition tabCore where
  "tabCore tab = (ub_entries tab, ub_uploads tab, map pn_entry (ub_productions tab), map tn_entry (ub_torrents tab),
     map yn_entry (ub_youtubes tab), ub_nextListener tab, toldIn tab)"

lemma tabOk_core: "tabCore tab' = tabCore tab \<Longrightarrow> tabOk tab \<Longrightarrow> tabOk tab'"
  unfolding tabOk_def refsOk_def tabCore_def by simp

lemma map_update_keep: "g (f (xs ! i)) = g (xs ! i) \<Longrightarrow> map g (xs[i := f (xs ! i)]) = map g xs"
  by (cases "i < length xs") (simp_all add: map_update list_update_beyond list_update_same_conv)

lemma core_release [simp]: "tabCore (releaseExternal room tab) = tabCore tab"
  by (simp add: releaseExternal_def tabCore_def logged_def split: option.splits)

lemma core_register [simp]: "tabCore (registerRemuxHandle room h stop tab) = tabCore tab"
  using core_release [of room tab] by (simp add: registerRemuxHandle_def Let_def tabCore_def)

lemma core_unregister [simp]: "tabCore (unregisterRemuxHandle room h tab) = tabCore tab"
  by (simp add: unregisterRemuxHandle_def tabCore_def Let_def)

lemma core_resumes [simp]:
  "tabCore (saveResumableSource room source now tab) = tabCore tab"
  "tabCore (clearResumableSource room tab) = tabCore tab"
  "tabCore (snd (resumableSourceFor room now tab)) = tabCore tab"
  "tabCore (rememberOwnerToken room token tab) = tabCore tab"
  by (auto simp: saveResumableSource_def clearResumableSource_def resumableSourceFor_def rememberOwnerToken_def
      tabCore_def split: option.splits)

lemma core_dropHandle [simp]: "tabCore (dropHandle p tab) = tabCore tab"
  by (simp add: dropHandle_def tabCore_def Let_def split: option.splits)

lemma core_registerOwn [simp]: "tabCore (registerOwn p tab) = tabCore tab"
  by (simp add: registerOwn_def tabCore_def split: option.splits)

lemma core_releaseSwarm [simp]: "tabCore (releaseSwarm k tab) = tabCore tab"
  by (simp add: releaseSwarm_def tabCore_def Let_def)

lemma registry_core_fields [simp]:
  "tabCore (tab\<lparr>ub_lastDetail := d\<rparr>) = tabCore tab"
  "tabCore (tab\<lparr>ub_remote := r\<rparr>) = tabCore tab"
  "tabCore (tab\<lparr>ub_origins := os\<rparr>) = tabCore tab"
  "tabCore (tab\<lparr>ub_sessions := ss\<rparr>) = tabCore tab"
  "tabCore (tab\<lparr>ub_timers := ts\<rparr>) = tabCore tab"
  "tabCore (addSwarm session tab) = tabCore tab"
  by (simp_all add: tabCore_def addSwarm_def)

lemma core_logged [simp]: "toldOf es = [] \<Longrightarrow> tabCore (logged es tab) = tabCore tab"
  by (simp add: tabCore_def logged_def)

lemma core_onProduction [simp]:
  "pn_entry (f (prodAt tab p)) = pn_entry (prodAt tab p) \<Longrightarrow> tabCore (onProduction p f tab) = tabCore tab"
  by (simp add: tabCore_def onProduction_def map_update_keep)

lemma core_onTorrent [simp]:
  "tn_entry (f (torrent tab k)) = tn_entry (torrent tab k) \<Longrightarrow> tabCore (onTorrent k f tab) = tabCore tab"
  by (simp add: tabCore_def onTorrent_def map_update_keep)

lemma tabOk_neutral [simp]:
  "tabOk tab \<Longrightarrow> tabOk (tab\<lparr>ub_timers := ts\<rparr>)"
  by (rule tabOk_core [of _ tab]) simp_all

lemma tabOk_newEntry:
  assumes "tabOk tab" shows "tabOk (newEntry room bytes onProgress tab)"
  using assms unfolding tabOk_def refsOk_def newEntry_def Let_def
  by (auto simp: list_all_iff createEntry_def less_SucI intro!: entriesOk_new intro: entriesOk_mono)

lemma newEntry_length [simp]: "length (ub_entries (newEntry room bytes onProgress tab)) = Suc (length (ub_entries tab))"
  by (simp add: newEntry_def Let_def)

lemma tabOk_added:
  assumes "tabOk tab"
  shows "pn_entry pn < length (ub_entries tab) \<Longrightarrow> tabOk (tab\<lparr>ub_productions := ub_productions tab @ [pn]\<rparr>)"
    and "tn_entry tn < length (ub_entries tab) \<Longrightarrow> tabOk (tab\<lparr>ub_torrents := ub_torrents tab @ [tn]\<rparr>)"
    and "yn_entry yn < length (ub_entries tab) \<Longrightarrow> tabOk (tab\<lparr>ub_youtubes := ub_youtubes tab @ [yn]\<rparr>)"
  using assms unfolding tabOk_def refsOk_def by simp_all

lemma tabOk_updateEntry:
  assumes "tabOk tab" shows "tabOk (updateEntry i bytes tab)"
proof -
  have "entriesOk ((ub_entries tab)[i := (ub_entries tab ! i)\<lparr>ue_pct := pct, ue_uploaded := bytes\<rparr>])
      (ub_nextListener tab) (toldIn tab)" for pct
    using assms unfolding tabOk_def
    by (intro entriesOk_touch [where f = "\<lambda>entry. entry\<lparr>ue_pct := pct, ue_uploaded := bytes\<rparr>"]) simp_all
  then show ?thesis
    using assms unfolding tabOk_def refsOk_def updateEntry_def Let_def
    by (simp add: logged_def onEntry_def)
qed

lemma tabOk_finishEntry:
  assumes ok: "tabOk tab" and i: "i < length (ub_entries tab)" and cleanup: "\<And>tab. tabCore (cleanup tab) = tabCore tab"
  shows "tabOk (finishEntry room i error cleanup tab)"
proof (cases "ue_done (ub_entries tab ! i)")
  case True
  then show ?thesis using ok by (simp add: finishEntry_def)
next
  case False
  let ?tab = "logged (map (\<lambda>listener. DoneTold i listener error) (ue_doneListeners (ub_entries tab ! i)))
                (onEntry i (\<lambda>entry. entry\<lparr>ue_done := True, ue_error := error\<rparr>) tab)"
  have "tabOk ?tab"
    using ok entriesOk_finish [OF _ i False] unfolding tabOk_def refsOk_def
    by (simp add: logged_def onEntry_def)
  then have "tabOk ((cleanup ?tab)\<lparr>ub_timers := ub_timers (cleanup ?tab) @ [(room, i)]\<rparr>)"
    by (rule tabOk_core [rotated]) (simp add: cleanup)
  then show ?thesis using False by (simp add: finishEntry_def Let_def)
qed

lemma tabOk_forgetEntry: "tabOk tab \<Longrightarrow> tabOk (forgetEntry room i tab)"
  unfolding tabOk_def refsOk_def forgetEntry_def by auto

lemma tabOk_entry:
  assumes "tabOk tab"
  shows "p < length (ub_productions tab) \<Longrightarrow> pn_entry (prodAt tab p) < length (ub_entries tab)"
    and "k < length (ub_torrents tab) \<Longrightarrow> tn_entry (torrent tab k) < length (ub_entries tab)"
    and "y < length (ub_youtubes tab) \<Longrightarrow> yn_entry (ub_youtubes tab ! y) < length (ub_entries tab)"
  using assms unfolding tabOk_def refsOk_def by (simp_all add: list_all_length)

lemma dropHandle_fields [simp]:
  "ub_productions (dropHandle p tab) = ub_productions tab" "ub_entries (dropHandle p tab) = ub_entries tab"
  "ub_uploads (dropHandle p tab) = ub_uploads tab"
  by (simp_all add: dropHandle_def Let_def split: option.splits)

lemma tabOk_finish: "tabOk tab \<Longrightarrow> p < length (ub_productions tab) \<Longrightarrow> tabOk (finish p error detail tab)"
  unfolding finish_def Let_def
  by (rule tabOk_finishEntry)
    (auto intro: tabOk_core [of _ tab] tabOk_entry(1))

lemma tabOk_movedOn: "tabOk tab \<Longrightarrow> tabOk (movedOn p tab)"
  unfolding movedOn_def
  by (rule tabOk_core [OF _ tabOk_forgetEntry [of tab "pn_room (prodAt tab p)" "pn_entry (prodAt tab p)"]]) simp_all

lemma tabOk_settle: "tabOk (act tab) \<Longrightarrow> tabOk (settle p act tab)"
  unfolding settle_def by (rule tabOk_core) simp_all

lemma tabOk_message:
  assumes "tabOk tab" and "p < length (ub_productions tab)"
  shows "tabOk (onWorkerMessage p message tab)"
proof -
  have "tabOk (registerOwn p tab)" by (rule tabOk_core [OF _ assms(1)]) simp
  then show ?thesis
    using assms
    by (simp add: onWorkerMessage_def onProgressPct_def tabOk_settle tabOk_finish tabOk_movedOn tabOk_updateEntry
        split: worker_message.splits)
qed

lemma tabOk_error: "tabOk tab \<Longrightarrow> p < length (ub_productions tab) \<Longrightarrow> tabOk (onWorkerError p message tab)"
  unfolding onWorkerError_def by (intro tabOk_settle tabOk_finish)

lemma length_onProduction [simp]: "length (ub_productions (onProduction p f tab)) = length (ub_productions tab)"
  by (simp add: onProduction_def)

lemma tabOk_pipelineSettled:
  assumes "tabOk tab" and "p < length (ub_productions tab)"
  shows "tabOk (pipelineSettled p outcome tab)"
proof -
  have "tabOk (onProduction p (\<lambda>pn. pn\<lparr>pn_over := True\<rparr>) tab)" by (rule tabOk_core [OF _ assms(1)]) simp
  then show ?thesis
    using assms(2) by (auto simp: pipelineSettled_def Let_def intro: tabOk_finish tabOk_movedOn split: option.splits)
qed

lemma tabOk_handedOver:
  assumes ok: "tabOk tab" and k: "k < length (ub_torrents tab)"
  shows "tabOk (handedOver k refusal tab)"
proof -
  have over: "tabOk (onTorrent k (\<lambda>run. run\<lparr>tn_phase := TorrentOver\<rparr>) tab)"
    by (rule tabOk_core [OF _ ok]) simp
  then have "tabOk (onTorrent k (\<lambda>run. run\<lparr>tn_phase := TorrentOver\<rparr>) tab\<lparr>ub_lastDetail := d\<rparr>)"
    "tabOk (onTorrent k (\<lambda>run. run\<lparr>tn_phase := TorrentOver\<rparr>) tab\<lparr>ub_remote := r, ub_lastDetail := d\<rparr>)" for d r
    by (rule tabOk_core [rotated], simp)+
  then show ?thesis
    using tabOk_entry(2) [OF ok k] unfolding handedOver_def Let_def
    by (cases refusal; simp) (rule tabOk_finishEntry; simp add: onTorrent_def)+
qed

lemma tabOk_firstAnswer: "tabOk tab \<Longrightarrow> k < length (ub_torrents tab) \<Longrightarrow> tabOk (firstAnswer k refusal tab)"
  by (auto simp: firstAnswer_def Let_def intro: tabOk_handedOver tabOk_core [of _ tab] split: option.splits)

lemma addSwarm_fields [simp]:
  "ub_torrents (addSwarm session tab) = ub_torrents tab" "ub_torrents (logged es tab) = ub_torrents tab"
  by (simp_all add: addSwarm_def logged_def)

lemma tabOk_fleetOpened: "tabOk tab \<Longrightarrow> k < length (ub_torrents tab) \<Longrightarrow> tabOk (fleetOpened k why outcome tab)"
  by (auto simp: fleetOpened_def Let_def intro!: tabOk_handedOver intro: tabOk_core [of _ tab] split: sum.splits)

lemma tabOk_fleetSelected:
  "tabOk tab \<Longrightarrow> k < length (ub_torrents tab) \<Longrightarrow> tabOk (fleetSelected k why fleet failed requestId tab)"
  by (auto simp: fleetSelected_def Let_def intro!: tabOk_handedOver intro: tabOk_core [of _ tab] split: option.splits)

lemma tabOk_torrentAnswers: "tabOk tab \<Longrightarrow> k < length (ub_torrents tab) \<Longrightarrow> tabOk (torrentAnswers k outcome tab)"
  by (auto simp: torrentAnswers_def intro: tabOk_firstAnswer tabOk_handedOver split: torrent_phase.splits)

lemma tabOk_youtubeAnswered:
  assumes ok: "tabOk tab" and y: "y < length (ub_youtubes tab)"
  shows "tabOk (youtubeAnswered y refusal tab)"
proof -
  let ?tab = "tab\<lparr>ub_youtubes := (ub_youtubes tab)[y := (ub_youtubes tab ! y)\<lparr>yn_over := True\<rparr>]\<rparr>"
  have core: "tabCore ?tab = tabCore tab"
    using map_update_keep [of yn_entry "\<lambda>run. run\<lparr>yn_over := True\<rparr>" "ub_youtubes tab" y] by (simp add: tabCore_def)
  have "tabOk (?tab\<lparr>ub_lastDetail := d\<rparr>)" "tabOk (?tab\<lparr>ub_remote := r, ub_lastDetail := d\<rparr>)" for d r
    by (rule tabOk_core [OF _ ok], simp only: registry_core_fields core)+
  then show ?thesis
    using tabOk_entry(3) [OF ok y] unfolding youtubeAnswered_def Let_def
    by (cases "if ub_mocks tab then None else refusal"; simp) (rule tabOk_finishEntry; simp)+
qed

lemma tabOk_startRoom: "tabOk tab \<Longrightarrow> tabOk (startRoomUpload workers job onProgress tab)"
  unfolding startRoomUpload_def Let_def
  by (intro tabOk_added(1) tabOk_newEntry) (auto intro: tabOk_core [of _ tab])

lemma tabOk_startTorrent:
  assumes "tabOk tab" shows "tabOk (startTorrentUpload q tab)"
proof -
  have "tabOk (releaseExternal (tq_room q) tab)" by (rule tabOk_core [OF _ assms]) simp
  then show ?thesis
    unfolding startTorrentUpload_def Let_def
    by (intro tabOk_added(2) tabOk_newEntry)
      (auto intro: tabOk_core [of _ "releaseExternal (tq_room q) tab"])
qed

lemma tabOk_startYoutube: "tabOk tab \<Longrightarrow> tabOk (startYoutubeUpload room session now tab)"
  unfolding startYoutubeUpload_def Let_def
  by (intro tabOk_added(3) tabOk_newEntry) (auto intro: tabOk_core [of _ tab])

lemma tabOk_subscribeProgress:
  assumes "tabOk tab" shows "tabOk (subscribeUploadProgress room tab)"
proof (cases "ub_uploads tab room")
  case None
  then show ?thesis using assms by (simp add: subscribeUploadProgress_def)
next
  case (Some i)
  let ?f = "\<lambda>entry. entry\<lparr>ue_progressListeners := ue_progressListeners entry @ [ub_nextListener tab]\<rparr>"
  have "entriesOk ((ub_entries tab)[i := ?f (ub_entries tab ! i)]) (ub_nextListener tab) (toldIn tab)"
    using assms unfolding tabOk_def by (intro entriesOk_touch [where f = ?f]) simp_all
  from entriesOk_mono [OF this, of "Suc (ub_nextListener tab)"]
  show ?thesis
    using assms Some unfolding tabOk_def refsOk_def
    by (simp add: subscribeUploadProgress_def Let_def onEntry_def logged_def)
qed

lemma tabOk_unsubscribeProgress:
  assumes "tabOk tab" shows "tabOk (unsubscribeUploadProgress i l tab)"
proof -
  let ?f = "\<lambda>entry. entry\<lparr>ue_progressListeners := removeAll l (ue_progressListeners entry)\<rparr>"
  have "entriesOk ((ub_entries tab)[i := ?f (ub_entries tab ! i)]) (ub_nextListener tab) (toldIn tab)"
    using assms unfolding tabOk_def by (intro entriesOk_touch [where f = ?f]) simp_all
  then show ?thesis
    using assms unfolding tabOk_def refsOk_def
    by (simp add: unsubscribeUploadProgress_def onEntry_def)
qed

lemma tabOk_subscribeDone:
  assumes "tabOk tab" shows "tabOk (subscribeUploadDone room tab)"
proof (cases "ub_uploads tab room")
  case None
  then show ?thesis using assms by (simp add: subscribeUploadDone_def)
next
  case (Some i)
  then have "i < length (ub_entries tab)" using assms by (simp add: tabOk_def refsOk_def)
  then show ?thesis
    using assms Some unfolding tabOk_def refsOk_def
    by (auto simp: subscribeUploadDone_def Let_def onEntry_def logged_def
        intro: entriesOk_tell entriesOk_subscribe)
qed

lemma tabOk_unsubscribeDone: "tabOk tab \<Longrightarrow> tabOk (unsubscribeUploadDone i l tab)"
  unfolding tabOk_def refsOk_def
  by (simp add: unsubscribeUploadDone_def onEntry_def entriesOk_unsubscribe)

lemma tabOk_timer: "tabOk tab \<Longrightarrow> tabOk (timerFires n tab)"
  by (auto simp: timerFires_def Let_def intro!: tabOk_forgetEntry split: prod.splits)

lemma registryStep_keeps [keeps]: "tabOk tab \<Longrightarrow> tabOk (registryStep tab e)"
proof (cases e)
  case (FleetOpened k outcome)
  then show "tabOk tab \<Longrightarrow> ?thesis" by (auto intro: tabOk_fleetOpened split: torrent_phase.splits)
next
  case (FleetSelected k failed r)
  then show "tabOk tab \<Longrightarrow> ?thesis" by (auto intro: tabOk_fleetSelected split: torrent_phase.splits)
next
  case (PipelineHandleIs p k)
  then show "tabOk tab \<Longrightarrow> ?thesis" by (auto simp: pipelineHandle_def intro: tabOk_core [of _ tab])
next
  case (StartUrl workers room g url n bytes sides now)
  then show "tabOk tab \<Longrightarrow> ?thesis"
    by (auto simp: startUrlUpload_def intro!: tabOk_startRoom intro: tabOk_core [of _ tab])
qed (auto simp: startFileUpload_def live_worker_def in_page_def onProgressPct_def
      intro: tabOk_startRoom tabOk_startTorrent tabOk_startYoutube tabOk_message tabOk_error tabOk_updateEntry
        tabOk_pipelineSettled tabOk_firstAnswer tabOk_torrentAnswers tabOk_youtubeAnswered
        tabOk_subscribeProgress tabOk_unsubscribeProgress tabOk_subscribeDone tabOk_unsubscribeDone tabOk_timer
        tabOk_core [of _ tab])

interpretation uploads_tab: component registryStep tabOk
  by unfold_locales (rule registryStep_keeps)

lemma tabOk_empty [simp]: "tabOk (emptyTab mocks)"
  by (simp add: tabOk_def refsOk_def entriesOk_def emptyTab_def)

section \<open>Properties\<close>

lemma filter_one:
  assumes "distinct (map f xs)" and "x \<in> set xs"
  shows "filter (\<lambda>y. f y = f x) xs = [x]"
  using assms
proof (induction xs)
  case (Cons y ys)
  show ?case
  proof (cases "y = x")
    case True
    then have "f x \<notin> f ` set ys" using Cons.prems by simp
    then have "filter (\<lambda>z. f z = f x) ys = []" by (metis (mono_tags, lifting) filter_False imageI)
    then show ?thesis using True by simp
  next
    case False
    then have "x \<in> set ys" "f y \<noteq> f x" using Cons.prems by (auto simp: image_iff)
    then show ?thesis using Cons by simp
  qed
qed simp

text \<open>
  C12: whatever happens in the tab, no listener is told the end of an upload
  twice. One that waits on an upload has been called, with the error the upload
  ended with, exactly when the upload ended. One that asks after the end is
  called at once with that error, alone, and not kept; one that asks before it
  is kept, and nobody is called. (An upload that the room moved on from never
  ends, so those who wait on it are not called.)
\<close>

theorem upload_listeners_told_once:
  fixes mocks :: bool and es :: "registry_event list" and room :: string
  defines "tab \<equiv> runUploadsTab (emptyTab mocks) es"
    and "asked \<equiv> registryStep (runUploadsTab (emptyTab mocks) es) (SubscribeDone room)"
  shows "distinct (map (\<lambda>call. (fst call, fst (snd call))) (toldIn tab))
    \<and> (i < length (ub_entries tab) \<and> l \<in> set (ue_doneListeners (ub_entries tab ! i)) \<longrightarrow>
        filter (\<lambda>call. (fst call, fst (snd call)) = (i, l)) (toldIn tab)
          = (if ue_done (ub_entries tab ! i) then [(i, l, ue_error (ub_entries tab ! i))] else []))
    \<and> (ub_uploads tab room = Some i \<longrightarrow>
        (if ue_done (ub_entries tab ! i)
         then toldIn asked = toldIn tab @ [(i, ub_nextListener tab, ue_error (ub_entries tab ! i))]
           \<and> ub_entries asked = ub_entries tab
         else toldIn asked = toldIn tab
           \<and> ue_doneListeners (ub_entries asked ! i) = ue_doneListeners (ub_entries tab ! i) @ [ub_nextListener tab]))"
proof (intro conjI impI)
  have "tabOk tab" using uploads_tab.run_keeps [OF tabOk_empty] unfolding tab_def by blast
  then have ok: "entriesOk (ub_entries tab) (ub_nextListener tab) (toldIn tab)" and refs: "refsOk tab"
    by (simp_all add: tabOk_def)
  show "distinct (map (\<lambda>call. (fst call, fst (snd call))) (toldIn tab))" by (rule entriesOkD(1) [OF ok])
  show "filter (\<lambda>call. (fst call, fst (snd call)) = (i, l)) (toldIn tab)
       = (if ue_done (ub_entries tab ! i) then [(i, l, ue_error (ub_entries tab ! i))] else [])"
    if "i < length (ub_entries tab) \<and> l \<in> set (ue_doneListeners (ub_entries tab ! i))"
  proof (cases "ue_done (ub_entries tab ! i)")
    case True
    then have "(i, l, ue_error (ub_entries tab ! i)) \<in> set (toldIn tab)" using entriesOkD(3) [OF ok, of i l] that by simp
    from filter_one [OF entriesOkD(1) [OF ok] this] show ?thesis using True by simp
  next
    case False
    then have "\<And>e. (i, l, e) \<notin> set (toldIn tab)" using entriesOk_unheard [OF ok] by blast
    then show ?thesis using False by (force simp: filter_empty_conv)
  qed
  assume i: "ub_uploads tab room = Some i"
  have asked: "asked = subscribeUploadDone room tab" by (simp add: asked_def tab_def)
  have "i < length (ub_entries tab)" using refs i by (simp add: refsOk_def)
  then show "if ue_done (ub_entries tab ! i)
      then toldIn asked = toldIn tab @ [(i, ub_nextListener tab, ue_error (ub_entries tab ! i))]
        \<and> ub_entries asked = ub_entries tab
      else toldIn asked = toldIn tab
        \<and> ue_doneListeners (ub_entries asked ! i) = ue_doneListeners (ub_entries tab ! i) @ [ub_nextListener tab]"
    unfolding asked using i by (simp add: subscribeUploadDone_def logged_def onEntry_def Let_def)
qed

text \<open>A file picked, followed by the page, its worker's progress, and its end.\<close>

definition sampleUpload :: "registry_event list" where
  "sampleUpload =
     [StartFile True ''r'' 1 100 True, SubscribeProgress ''r'', SubscribeDone ''r'', WorkerSays 0 WHandle,
      WorkerSays 0 (WProgress (Some 50)), WorkerSays 0 (WFailed (Some ''no'') None)]"

lemmas upload_defs =
  emptyTab_def startFileUpload_def startRoomUpload_def releaseExternal_def newEntry_def createEntry_def
  sourceSize_def jobIsCloneable_def sourceIsCloneable_def subscribeUploadProgress_def subscribeUploadDone_def
  logged_def onEntry_def live_worker_def in_page_def onWorkerMessage_def registerOwn_def onProgressPct_def updateEntry_def
  settle_def finish_def dropHandle_def finishEntry_def onProduction_def movedOn_def forgetEntry_def Let_def

lemma upload_listeners_told_once_witness:
  "filter (\<lambda>call. (fst call, fst (snd call)) = (0, 2)) (toldIn (runUploadsTab (emptyTab False) sampleUpload))
     = [(0, 2, Some ''no'')]
   \<and> toldIn (registryStep (runUploadsTab (emptyTab False) sampleUpload) (SubscribeDone ''r''))
       = [(0, 2, Some ''no''), (0, 3, Some ''no'')]"
proof -
  let ?tab = "runUploadsTab (emptyTab False) sampleUpload"
  have e: "length (ub_entries ?tab) = 1" "ue_doneListeners (ub_entries ?tab ! 0) = [2]"
    "ue_done (ub_entries ?tab ! 0)" "ue_error (ub_entries ?tab ! 0) = Some ''no''"
    "ub_uploads ?tab ''r'' = Some 0" "ub_nextListener ?tab = 3" "toldIn ?tab = [(0, 2, Some ''no'')]"
    by (simp_all add: sampleUpload_def upload_defs)
  show ?thesis using upload_listeners_told_once [of False sampleUpload 0 2 "''r''"] e by simp
qed

text \<open>The events of one production, its handle's registration apart.\<close>

fun eventOf :: "registry_event \<Rightarrow> nat option" where
  "eventOf (WorkerSays p message) = (if message = WHandle then None else Some p)"
| "eventOf (WorkerErred p message) = Some p"
| "eventOf (PipelineProgress p pct) = Some p"
| "eventOf (PipelineSettled p outcome) = Some p"
| "eventOf _ = None"

text \<open>What the room's registry says, and the entry it points to.\<close>

definition roomView :: "upload_tab \<Rightarrow> string \<Rightarrow> nat option \<times> remux_handle option \<times> nat option \<times> nat option
    \<times> source_origin option \<times> bool \<times> resumable_source option" where
  "roomView tab room = (ub_uploads tab room, ub_handles tab room, ub_stops tab room, ub_sessions tab room,
     ub_origins tab room, room \<in> ub_remote tab, ub_resumes tab room)"

definition touchesOnly :: "nat \<Rightarrow> upload_tab \<Rightarrow> upload_tab \<Rightarrow> bool" where
  "touchesOnly i tab tab' \<longleftrightarrow>
     length (ub_entries tab') = length (ub_entries tab)
     \<and> (\<forall>j. j \<noteq> i \<longrightarrow> ub_entries tab' ! j = ub_entries tab ! j)
     \<and> roomView tab' = roomView tab"

lemma touchesOnly_trans: "touchesOnly i tab tab' \<Longrightarrow> touchesOnly i tab' tab'' \<Longrightarrow> touchesOnly i tab tab''"
  by (simp add: touchesOnly_def)

lemma touchesOnly_parts [simp]:
  "touchesOnly i tab tab"
  "touchesOnly i tab (logged es tab)"
  "touchesOnly i tab (onEntry i f tab)"
  "touchesOnly i tab (onProduction p g tab)"
  "touchesOnly i tab (tab\<lparr>ub_lastDetail := d\<rparr>)"
  "touchesOnly i tab (tab\<lparr>ub_timers := ts\<rparr>)"
  by (simp_all add: touchesOnly_def roomView_def fun_eq_iff logged_def onEntry_def onProduction_def)

lemma touchesOnly_updateEntry: "touchesOnly i tab (updateEntry i bytes tab)"
  by (auto simp: updateEntry_def Let_def intro: touchesOnly_trans [OF touchesOnly_parts(3) touchesOnly_parts(2)])

lemma touchesOnly_finishEntry:
  assumes "\<And>tab. touchesOnly i tab (cleanup tab)"
  shows "touchesOnly i tab (finishEntry room i error cleanup tab)"
  unfolding finishEntry_def Let_def
  by (auto intro: touchesOnly_trans [OF touchesOnly_trans [OF touchesOnly_trans
        [OF touchesOnly_parts(3) touchesOnly_parts(2)] assms] touchesOnly_parts(6)])

text \<open>A production that lost its room: another entry is the room's, and the room's handle is not its own.\<close>

definition superseded :: "upload_tab \<Rightarrow> nat \<Rightarrow> bool" where
  "superseded tab p \<longleftrightarrow>
     ub_uploads tab (pn_room (prodAt tab p)) \<noteq> Some (pn_entry (prodAt tab p))
     \<and> (pn_own (prodAt tab p) = None \<or> ub_handles tab (pn_room (prodAt tab p)) \<noteq> pn_own (prodAt tab p))"

lemma superseded_parts:
  assumes "superseded tab p"
  shows "dropHandle p tab = tab" and "forgetEntry (pn_room (prodAt tab p)) (pn_entry (prodAt tab p)) tab = tab"
  using assms by (auto simp: superseded_def dropHandle_def forgetEntry_def Let_def split: option.splits)

lemma superseded_finish:
  assumes "superseded tab p" shows "touchesOnly (pn_entry (prodAt tab p)) tab (finish p error detail tab)"
  unfolding finish_def Let_def superseded_parts [OF assms]
  by (rule touchesOnly_trans [OF touchesOnly_parts(5) [where d = "if error = None then None else detail"]])
    (simp add: touchesOnly_finishEntry)

lemma superseded_movedOn:
  assumes "superseded tab p" shows "touchesOnly i tab (movedOn p tab)"
  unfolding movedOn_def superseded_parts [OF assms] by simp

lemma touchesOnly_settle: "touchesOnly i tab (act tab) \<Longrightarrow> touchesOnly i tab (settle p act tab)"
  unfolding settle_def by (meson touchesOnly_trans touchesOnly_parts(2,4))

lemma prod_onProduction:
  "p < length (ub_productions tab) \<Longrightarrow> prodAt (onProduction p f tab) p = f (prodAt tab p)"
  by (simp add: onProduction_def)

lemma superseded_over:
  "p < length (ub_productions tab) \<Longrightarrow>
     superseded (onProduction p (\<lambda>pn. pn\<lparr>pn_over := True\<rparr>) tab) p = superseded tab p"
  by (simp add: superseded_def prod_onProduction) (simp add: onProduction_def)

lemma superseded_touches:
  assumes "superseded tab p" and "eventOf e = Some p"
  shows "touchesOnly (pn_entry (prodAt tab p)) tab (registryStep tab e)"
proof (cases "p < length (ub_productions tab)")
  case False
  then show ?thesis using assms(2)
    by (cases e) (auto simp: live_worker_def in_page_def split: if_splits)
next
  case p: True
  let ?tab = "onProduction p (\<lambda>pn. pn\<lparr>pn_over := True\<rparr>) tab"
  have "superseded ?tab p" using assms(1) p by (simp add: superseded_over)
  note over = superseded_finish [OF this] superseded_movedOn [OF this]
  have settled: "touchesOnly (pn_entry (prodAt tab p)) tab (pipelineSettled p outcome tab)" for outcome
    unfolding pipelineSettled_def Let_def
    by (rule touchesOnly_trans [OF touchesOnly_parts(4)])
      (use over p in \<open>auto simp: prod_onProduction split: option.splits\<close>)
  show ?thesis
    using assms p settled superseded_finish [OF assms(1)] superseded_movedOn [OF assms(1)]
    by (cases e)
      (auto simp: onWorkerMessage_def onWorkerError_def onProgressPct_def touchesOnly_updateEntry
        touchesOnly_settle split: worker_message.splits if_splits)
qed

text \<open>The events by which a production reports its end, whose failure detail the tab remembers one of.\<close>

fun reportsEnd :: "registry_event \<Rightarrow> bool" where
  "reportsEnd (WorkerSays p message) = (case message of WDone \<Rightarrow> True | WFailed code detail \<Rightarrow> True | _ \<Rightarrow> False)"
| "reportsEnd (WorkerErred p message) = True"
| "reportsEnd (PipelineSettled p outcome) = True"
| "reportsEnd e = False"

lemma lastDetail_kept [simp]:
  "ub_lastDetail (logged es tab) = ub_lastDetail tab" "ub_lastDetail (onEntry i f tab) = ub_lastDetail tab"
  "ub_lastDetail (onProduction p g tab) = ub_lastDetail tab"
  by (simp_all add: logged_def onEntry_def onProduction_def)

lemma lastDetail_steps:
  "ub_lastDetail (updateEntry i bytes tab) = ub_lastDetail tab" "ub_lastDetail (movedOn p tab) = ub_lastDetail tab"
  "ub_lastDetail (settle p act tab) = ub_lastDetail (act tab)"
  by (auto simp: updateEntry_def movedOn_def settle_def dropHandle_def forgetEntry_def Let_def split: option.splits)

text \<open>
  C13: a production whose room went on to another source, and that is not
  followed any more, changes nothing of the room: its progress, its end, its
  failure, its moving on and its worker's crash change no entry but its own,
  and what the room shows, follows, resumes and fetches stays the newer
  source's. The detail of the last failure, of which the tab keeps one, is
  replaced only by an end the production reports. (What else its events write is
  its own: its record, the timer that clears its entry, the log of calls.)
  Registering a handle is left out of this: it does not ask whose room it is
  (next theorem but one).
\<close>

theorem superseded_production_touches_only_itself:
  assumes "superseded tab p" and "eventOf e = Some p"
  shows "touchesOnly (pn_entry (prodAt tab p)) tab (registryStep tab e)
    \<and> (reportsEnd e \<or> ub_lastDetail (registryStep tab e) = ub_lastDetail tab)"
proof (intro conjI superseded_touches [OF assms])
  show "reportsEnd e \<or> ub_lastDetail (registryStep tab e) = ub_lastDetail tab"
    using assms(2)
    by (cases e) (auto simp: onWorkerMessage_def onProgressPct_def lastDetail_steps split: worker_message.splits if_splits)
qed

text \<open>Two files in one room: the first one's worker is told no by the server after the second took the room.\<close>

definition sampleSwap :: "registry_event list" where
  "sampleSwap = [StartFile True ''r'' 1 100 False, StartFile True ''r'' 2 200 False, WorkerSays 1 WHandle]"

lemma superseded_production_touches_only_itself_witness:
  "touchesOnly 0 (runUploadsTab (emptyTab False) sampleSwap)
     (registryStep (runUploadsTab (emptyTab False) sampleSwap) (WorkerSays 0 WMovedOn))"
proof -
  let ?tab = "runUploadsTab (emptyTab False) sampleSwap"
  have "superseded ?tab 0" and e: "pn_entry (prodAt ?tab 0) = 0"
    by (simp_all add: sampleSwap_def superseded_def upload_defs)
  then have "touchesOnly (pn_entry (prodAt ?tab 0)) ?tab (registryStep ?tab (WorkerSays 0 WMovedOn))"
    by (intro conjunct1 [OF superseded_production_touches_only_itself]) simp_all
  then show ?thesis unfolding e .
qed

text \<open>
  The handle is the exception: registering it does not ask whose room it is
  now. A first production that reaches its handle late takes the follow from
  the second, and takes it away when it ends; the second, still running, is
  not followed any more.
\<close>

theorem late_handle_takes_follow:
  "let tab = runUploadsTab (emptyTab False) (sampleSwap @ [WorkerSays 0 WHandle]);
       after = registryStep tab (WorkerSays 0 WMovedOn)
   in ub_handles tab ''r'' = Some (WorkerHandle 0) \<and> ub_uploads tab ''r'' = Some 1
      \<and> ub_handles after ''r'' = None \<and> uploadActive after ''r'' \<and> live_worker after 1"
  by (simp add: sampleSwap_def upload_defs uploadActive_def Let_def)

text \<open>
  A swarm the app refused goes to the fleet; when the file cannot be selected
  there, the session just opened on the fleet is neither kept nor destroyed.
\<close>

definition sampleFallback :: "registry_event list" where
  "sampleFallback =
     [SwarmOpened \<lparr>ts_magnet = Some ''magnet:?x'', ts_backend = Some ''jlocal'', ts_jobId = None, ts_startsRemux = True\<rparr>,
      StartTorrent \<lparr>tq_room = ''r'', tq_generation = 1, tq_fileName = ''f'', tq_path = ''p'', tq_index = 3,
        tq_bytes = 10, tq_swarm = 0, tq_auth = None, tq_onProgress = False, tq_requestId = ''q'', tq_now = 0\<rparr>,
      HostAnswered 0 (Some ''no''),
      FleetOpened 0 (Inr (\<lparr>ts_magnet = Some ''magnet:?x'', ts_backend = None, ts_jobId = Some ''j'', ts_startsRemux = False\<rparr>, [3])),
      FleetSelected 0 (Some ''gone'') ''q2'']"

theorem unselected_fleet_session_leaks:
  "let tab = runUploadsTab (emptyTab False) sampleFallback
   in tn_phase (torrent tab 0) = TorrentOver \<and> length (ub_swarms tab) = 2
      \<and> ub_sessions tab ''r'' = None \<and> ub_log tab = [DestroyedSwarm 0]"
  by (simp add: sampleFallback_def upload_defs addSwarm_def startTorrentUpload_def saveResumableSource_def
      firstAnswer_def onTorrent_def fleetOpened_def fleetSelected_def handedOver_def releaseSwarm_def Let_def)

end
