(* ===== verification/Youtube.thy ===== *)
theory Youtube
  imports RemoteTorrent Uploads
begin

text \<open>
  A YouTube link as a room source (\<open>web/src/youtube.ts\<close>): reading the video's id
  off a link, what the errors mean, the fleet's backend from the job it opens
  to the one it hands over, and the choice between the backends. \<open>parse\<close> stands
  for the browser's \<open>URL\<close>; the server's answers are arguments.
\<close>

section \<open>The link\<close>

record parsed_url =
  pu_protocol :: string
  pu_hostname :: string
  pu_pathname :: string
  pu_v :: "string option"

definition isIdChar :: "char \<Rightarrow> bool" where
  "isIdChar c \<longleftrightarrow> isAlpha c \<or> isDigit c \<or> c = CHR ''_'' \<or> c = CHR ''-''"

text \<open>\<open>/^[A-Za-z0-9_-]{11}$/\<close>.\<close>

definition isVideoId :: "string \<Rightarrow> bool" where
  "isVideoId s \<longleftrightarrow> length s = 11 \<and> list_all isIdChar s"

text \<open>\<open>replace(/^(www|m|music)\./, '')\<close>.\<close>

definition bareHost :: "string \<Rightarrow> string" where
  "bareHost host =
     (case stripPrefix ''www.'' host of Some rest \<Rightarrow> rest
      | None \<Rightarrow> (case stripPrefix ''m.'' host of Some rest \<Rightarrow> rest
        | None \<Rightarrow> (case stripPrefix ''music.'' host of Some rest \<Rightarrow> rest | None \<Rightarrow> host)))"

text \<open>\<open>replace(/^\/+|\/+$/g, '')\<close>.\<close>

definition trimSlashes :: "string \<Rightarrow> string" where
  "trimSlashes path =
     (let slash = (\<lambda>c. c = CHR 0x2F) in rev (dropWhile slash (rev (dropWhile slash path))))"

definition videoPaths :: "string list" where
  "videoPaths = [''shorts'', ''live'', ''embed'', ''v'']"

text \<open>\<open>path.slice(path.indexOf('/') + 1)\<close> of a path that has a slash.\<close>

definition afterSlash :: "string \<Rightarrow> string" where
  "afterSlash path = drop 1 (dropWhile (\<lambda>c. c \<noteq> CHR 0x2F) path)"

definition videoPath :: "string \<Rightarrow> bool" where
  "videoPath path \<longleftrightarrow> list_ex (\<lambda>p. startsWith path (p @ [CHR 0x2F])) videoPaths"

definition idPart :: "parsed_url \<Rightarrow> string option" where
  "idPart url =
     (let host = bareHost (lower (pu_hostname url));
          path = trimSlashes (pu_pathname url)
      in if host = ''youtu.be'' then Some path
         else if host = ''youtube.com'' \<or> host = ''youtube-nocookie.com'' then
           if path = ''watch'' then Some (orElse (pu_v url) [])
           else if videoPath path then Some (afterSlash path) else None
         else None)"

definition youtubeVideoId :: "(string \<Rightarrow> parsed_url option) \<Rightarrow> string \<Rightarrow> string option" where
  "youtubeVideoId parse raw =
     (let link = trim raw
      in if link = [] \<or> 2048 < length link then None
         else case parse (if hasSub link ''://'' then link else ''https://'' @ link) of
             None \<Rightarrow> None
           | Some url \<Rightarrow>
               if pu_protocol url \<noteq> ''https:'' \<and> pu_protocol url \<noteq> ''http:'' then None
               else case idPart url of
                   None \<Rightarrow> None
                 | Some part \<Rightarrow>
                     let vid = takeWhile (\<lambda>c. c \<notin> {CHR 0x2F, CHR ''?'', CHR ''&'', CHR ''#''}) part
                     in if isVideoId vid then Some vid else None)"

definition isYoutubeLink :: "(string \<Rightarrow> parsed_url option) \<Rightarrow> string \<Rightarrow> bool" where
  "isYoutubeLink parse raw \<longleftrightarrow> youtubeVideoId parse raw \<noteq> None"

definition canonicalYoutubeUrl :: "string \<Rightarrow> string" where
  "canonicalYoutubeUrl videoId = ''https://www.youtube.com/watch?v='' @ videoId"

section \<open>Errors\<close>

text \<open>A \<open>YoutubeError\<close> with its code and message, or another thrown value.\<close>

datatype youtube_failure = YoutubeError string string | ForeignError string

definition youtubeError :: "string \<Rightarrow> string \<Rightarrow> youtube_failure" where
  "youtubeError code detail = YoutubeError code (orText detail code)"

fun codeIs :: "(string \<Rightarrow> bool) \<Rightarrow> youtube_failure \<Rightarrow> bool" where
  "codeIs P (YoutubeError code message) = P code"
| "codeIs P (ForeignError message) = False"

definition classifyYoutube :: "nat \<Rightarrow> string \<Rightarrow> string \<Rightarrow> youtube_failure" where
  "classifyYoutube status code reason =
     (if status = 429 then youtubeError ''quota'' (orText reason code)
      else if code = ''no_youtube'' \<or> code = ''no_workers'' \<or> code = ''disabled'' then youtubeError ''no_workers'' []
      else if code = ''workers_busy'' then youtubeError ''busy'' []
      else if code = ''invalid_url'' then youtubeError ''invalid'' []
      else if startsWith code ''youtube_'' then youtubeError code []
      else youtubeError ''failed'' (orText code (''status '' @ dec status)))"

fun youtubeErrorKey :: "youtube_failure \<Rightarrow> string" where
  "youtubeErrorKey (ForeignError message) = ''home.youtubeFailed''"
| "youtubeErrorKey (YoutubeError code message) =
     (if code = ''invalid'' then ''home.youtubeInvalid''
      else if code = ''no_workers'' then ''home.youtubeNoWorkers''
      else if code = ''busy'' then ''home.youtubeBusy''
      else if code = ''quota'' then ''home.youtubeQuota''
      else if code = ''youtube_blocked'' then ''home.youtubeBlocked''
      else if code = ''youtube_unavailable'' then ''home.youtubeUnavailable''
      else if code = ''youtube_no_workers'' then ''home.youtubeNoWorkers''
      else if code = ''youtube_busy'' then ''home.youtubeBusy''
      else if code = ''live_ended'' then ''room.liveEnded''
      else if code = ''youtube_unsupported'' then ''home.youtubeUnsupported''
      else ''home.youtubeFailed'')"

definition youtubeErrorRetryable :: "youtube_failure \<Rightarrow> bool" where
  "youtubeErrorRetryable error \<longleftrightarrow>
     \<not> codeIs (\<lambda>code. code \<in> set [''invalid'', ''youtube_unavailable'', ''youtube_unsupported'']) error"

text \<open>\<open>api\<close>: \<open>None\<close> is a fetch that threw.\<close>

definition apiYoutube :: "'a api_answer option \<Rightarrow> youtube_failure + 'a" where
  "apiYoutube answer =
     (case answer of
        None \<Rightarrow> Inl (ForeignError ''fetch'')
      | Some a \<Rightarrow>
          if apiOk (aa_status a) then Inr (aa_body a)
          else let (code, reason) = (case aa_error a of None \<Rightarrow> ([], [])
                     | Some (e, r) \<Rightarrow> (orElse e [], orElse r []))
               in Inl (classifyYoutube (aa_status a) code reason))"

section \<open>The fleet's backend\<close>

definition POLL_MS_YT :: int where "POLL_MS_YT = 1500"

definition RESOLVE_TIMEOUT_MS :: int where "RESOLVE_TIMEOUT_MS = 150000"

record 's yt_job_status =
  yj_state :: string
  yj_error :: "string option"
  yj_summary :: "'s option"

record 's yt_session =
  yx_url :: string
  yx_videoId :: string
  yx_summary :: 's
  yx_jobId :: string

text \<open>
  A resolve: what its job's polls answered, each with the time after it, and
  what came of it. A link in resolution is \<open>Resolving\<close>; \<open>destroyed\<close> counts the
  releases of the job.
\<close>

datatype 's resolve_state =
    Refused youtube_failure
  | Resolving string string int nat
  | Resolved "'s yt_session"
  | ResolveFailed youtube_failure string nat

definition resolveStart ::
  "(string \<Rightarrow> parsed_url option) \<Rightarrow> string \<Rightarrow> string api_answer option \<Rightarrow> int \<Rightarrow> 's resolve_state" where
  "resolveStart parse url started now =
     (case youtubeVideoId parse url of
        None \<Rightarrow> Refused (youtubeError ''invalid'' [])
      | Some videoId \<Rightarrow>
          (case apiYoutube started of
             Inl error \<Rightarrow> Refused error
           | Inr jobId \<Rightarrow> Resolving videoId jobId (now + RESOLVE_TIMEOUT_MS) 0))"

fun resolvePoll :: "'s resolve_state \<Rightarrow> ('s yt_job_status) api_answer option \<times> int \<Rightarrow> 's resolve_state" where
  "resolvePoll (Resolving videoId jobId deadline destroyed) (answer, now) =
     (case apiYoutube answer of
        Inl error \<Rightarrow> ResolveFailed error jobId destroyed
      | Inr status \<Rightarrow>
          (case (yj_state status = ''listed'', yj_summary status) of
             (True, Some summary) \<Rightarrow>
               Resolved \<lparr>yx_url = canonicalYoutubeUrl videoId, yx_videoId = videoId,
                         yx_summary = summary, yx_jobId = jobId\<rparr>
           | _ \<Rightarrow>
               if yj_state status = ''failed''
               then ResolveFailed (classifyYoutube 502 (orElse (yj_error status) ''failed'') []) jobId (Suc destroyed)
               else if deadline < now
               then ResolveFailed (youtubeError ''failed'' ''resolve timed out'') jobId (Suc destroyed)
               else Resolving videoId jobId deadline destroyed))"
| "resolvePoll state poll = state"

abbreviation resolveFleet where
  "resolveFleet parse url started now polls \<equiv> foldl resolvePoll (resolveStart parse url started now) polls"

definition fleetCapacity :: "(nat \<times> string option) option \<Rightarrow> string" where
  "fleetCapacity answer =
     (case answer of
        None \<Rightarrow> ''disabled''
      | Some (status, capacity) \<Rightarrow> if \<not> apiOk status then ''disabled'' else orElse capacity ''disabled'')"

definition fleetStart :: "string \<Rightarrow> nat \<Rightarrow> string \<Rightarrow> string option \<Rightarrow> string \<Rightarrow> seat_auth option \<Rightarrow> asked" where
  "fleetStart room generation requestId jobId ownerToken auth =
     (if \<not> truthy jobId then Inl (Some ''youtube session has no fleet job'')
      else if ownerToken = [] \<and> auth = None then Inl (Some ''no proof of ownership for the room'')
      else Inr (orElse jobId [], remuxBody room generation requestId ownerToken auth))"

section \<open>The backends\<close>

text \<open>A backend as far as the choice goes: its name, what it answers now and what resolving gives.\<close>

record 's yt_backend =
  yb_name :: string
  yb_capacity :: string
  yb_resolve :: "youtube_failure + 's"

definition registerYoutubeBackend :: "'s yt_backend \<Rightarrow> 's yt_backend list \<Rightarrow> 's yt_backend list" where
  "registerYoutubeBackend backend backends = backend # filter (\<lambda>b. yb_name b \<noteq> yb_name backend) backends"

definition backendFor :: "string \<Rightarrow> 's yt_backend list \<Rightarrow> youtube_failure + 's yt_backend" where
  "backendFor name backends =
     (case find (\<lambda>b. yb_name b = name) backends of
        None \<Rightarrow> Inl (youtubeError ''failed'' (''backend '' @ name @ '' is gone''))
      | Some b \<Rightarrow> Inr b)"

definition capacityRank :: "string \<Rightarrow> int" where
  "capacityRank capacity =
     (if capacity = ''available'' then 0 else if capacity = ''busy'' then 1
      else if capacity = ''no_workers'' then 2 else if capacity = ''disabled'' then 3 else - 1)"

definition betterCapacity :: "string \<Rightarrow> string \<Rightarrow> string" where
  "betterCapacity best next = (if capacityRank next < capacityRank best then next else best)"

definition youtubeCapacity :: "'s yt_backend list \<Rightarrow> string" where
  "youtubeCapacity backends = foldl betterCapacity ''disabled'' (map yb_capacity backends)"

definition softCodes :: "string list" where
  "softCodes = [''no_workers'', ''busy'', ''failed'', ''youtube_blocked'']"

definition hasNoRoom :: "'s yt_backend \<Rightarrow> bool" where
  "hasNoRoom backend \<longleftrightarrow> yb_capacity backend = ''disabled'' \<or> yb_capacity backend = ''no_workers''"

text \<open>The result, and the names of the backends the link was given to.\<close>

fun openLoop :: "youtube_failure \<Rightarrow> 's yt_backend list \<Rightarrow> (youtube_failure + 's) \<times> string list" where
  "openLoop latest [] = (Inl latest, [])"
| "openLoop latest (backend # backends) =
     (if hasNoRoom backend then openLoop (youtubeError ''no_workers'' []) backends
      else case yb_resolve backend of
          Inr session \<Rightarrow> (Inr session, [yb_name backend])
        | Inl error \<Rightarrow>
            if codeIs (\<lambda>code. code \<in> set softCodes) error
            then let (result, asked) = openLoop error backends in (result, yb_name backend # asked)
            else (Inl error, [yb_name backend]))"

definition openYoutube ::
  "(string \<Rightarrow> parsed_url option) \<Rightarrow> string \<Rightarrow> 's yt_backend list \<Rightarrow> (youtube_failure + 's) \<times> string list" where
  "openYoutube parse url backends =
     (if youtubeVideoId parse url = None then (Inl (youtubeError ''invalid'' []), [])
      else openLoop (youtubeError ''no_workers'' []) backends)"

section \<open>Facts\<close>

lemma takeWhile_all: "list_all P s \<Longrightarrow> takeWhile P s = s"
  by (simp add: takeWhile_eq_all_conv list_all_iff)

lemma idChar_kept: "isIdChar c \<Longrightarrow> c \<notin> {CHR 0x2F, CHR ''?'', CHR ''&'', CHR ''#''} \<and> \<not> isSpace c"
  by (auto simp: isIdChar_def isAlpha_def isDigit_def isSpace_def codeOf_def)

lemma youtubeVideoId_ok: "youtubeVideoId parse raw = Some vid \<Longrightarrow> isVideoId vid"
  by (auto simp: youtubeVideoId_def Let_def split: if_splits option.splits)

lemma trim_canonical:
  assumes "isVideoId vid" shows "trim (canonicalYoutubeUrl vid) = canonicalYoutubeUrl vid"
proof -
  have "vid \<noteq> []" "\<And>c. c \<in> set vid \<Longrightarrow> \<not> isSpace c"
    using assms idChar_kept by (auto simp: isVideoId_def list_all_iff)
  then have "\<not> isSpace (last (canonicalYoutubeUrl vid))"
    by (simp add: canonicalYoutubeUrl_def)
  then show ?thesis
    by (intro trim_id) (simp_all add: canonicalYoutubeUrl_def isSpace_def codeOf_def)
qed

lemma stripPrefix_same [simp]: "stripPrefix p (p @ s) = Some s"
  by (induction p) simp_all

lemma trimSlashes_plain:
  assumes "s \<noteq> []" and "CHR 0x2F \<notin> set s" shows "trimSlashes (CHR 0x2F # s) = s"
proof -
  have hd: "dropWhile (\<lambda>c. c = CHR 0x2F) s = s" using assms by (cases s) auto
  have "dropWhile (\<lambda>c. c = CHR 0x2F) (rev s) = rev s" using assms by (cases "rev s") (auto dest: arg_cong [of _ _ set])
  then show ?thesis using hd by (simp add: trimSlashes_def)
qed

section \<open>Properties\<close>

lemma canonical_host: "bareHost (lower ''www.youtube.com'') = ''youtube.com''"
  by code_simp

lemma canonical_id:
  assumes "isVideoId vid"
  shows "takeWhile (\<lambda>c. c \<noteq> CHR 0x2F \<and> c \<noteq> CHR ''?'' \<and> c \<noteq> CHR ''&'' \<and> c \<noteq> CHR ''#'') vid = vid"
  using assms idChar_kept by (auto simp: isVideoId_def list_all_iff takeWhile_eq_all_conv)

lemma canonical_has_scheme: "hasSub (canonicalYoutubeUrl vid) ''://''"
proof -
  have "indexOf ''://'' ''https://www.youtube.com/watch?v='' = Some 5" by code_simp
  then show ?thesis unfolding canonicalYoutubeUrl_def hasSub_def by (simp only: indexOf_append option.simps) simp
qed

definition watchUrl :: "string \<Rightarrow> parsed_url" where
  "watchUrl vid = \<lparr>pu_protocol = ''https:'', pu_hostname = ''www.youtube.com'', pu_pathname = ''/watch'', pu_v = Some vid\<rparr>"

text \<open>the canonical link of a video reads back as the video: a session's URL, kept to resume the room, opens the same one. The hypothesis is what the browser's \<open>URL\<close> says of that link.\<close>

theorem canonical_link_reads_back:
  assumes parse: "\<And>v. isVideoId v \<Longrightarrow> parse (canonicalYoutubeUrl v) = Some (watchUrl v)"
    and found: "youtubeVideoId parse raw = Some vid"
  shows "youtubeVideoId parse (canonicalYoutubeUrl vid) = Some vid"
proof -
  have ok: "isVideoId vid" using youtubeVideoId_ok [OF found] .
  then have len: "length (canonicalYoutubeUrl vid) = 43" by (simp add: isVideoId_def canonicalYoutubeUrl_def)
  then have bounds: "canonicalYoutubeUrl vid \<noteq> []" "\<not> 2048 < length (canonicalYoutubeUrl vid)" by auto
  have "trimSlashes ''/watch'' = ''watch''" by (rule trimSlashes_plain) simp_all
  then have part: "idPart (watchUrl vid) = Some vid"
    by (simp add: idPart_def watchUrl_def canonical_host)
  have kept: "trim (canonicalYoutubeUrl vid) = canonicalYoutubeUrl vid" "hasSub (canonicalYoutubeUrl vid) ''://''"
    "parse (canonicalYoutubeUrl vid) = Some (watchUrl vid)" "pu_protocol (watchUrl vid) = ''https:''"
    using ok parse trim_canonical canonical_has_scheme by (simp_all add: watchUrl_def)
  show ?thesis
    using bounds part ok by (simp add: youtubeVideoId_def Let_def kept canonical_id [OF ok] del: takeWhile_eq_all_conv)
qed

text \<open>A browser that knows the watch links and one short link.\<close>

definition sampleParse :: "string \<Rightarrow> parsed_url option" where
  "sampleParse s =
     (case stripPrefix ''https://www.youtube.com/watch?v='' s of
        Some v \<Rightarrow> Some (watchUrl v)
      | None \<Rightarrow>
          if s = ''https://youtu.be/aqz-KE-bpKQ''
          then Some \<lparr>pu_protocol = ''https:'', pu_hostname = ''youtu.be'', pu_pathname = ''/aqz-KE-bpKQ'', pu_v = None\<rparr>
          else None)"

lemma sampleParse_reads: "youtubeVideoId sampleParse '' youtu.be/aqz-KE-bpKQ'' = Some ''aqz-KE-bpKQ''"
  by code_simp

theorem canonical_link_reads_back_witness:
  "youtubeVideoId sampleParse (canonicalYoutubeUrl ''aqz-KE-bpKQ'') = Some ''aqz-KE-bpKQ''"
proof (rule canonical_link_reads_back [OF _ sampleParse_reads])
  show "sampleParse (canonicalYoutubeUrl v) = Some (watchUrl v)" for v
    by (simp add: sampleParse_def canonicalYoutubeUrl_def)
qed

text \<open>A backend the choice passes over: no room, or an error that lets the next one try.\<close>

definition passesOn :: "'s yt_backend \<Rightarrow> bool" where
  "passesOn backend \<longleftrightarrow>
     hasNoRoom backend
     \<or> (case yb_resolve backend of Inl error \<Rightarrow> codeIs (\<lambda>code. code \<in> set softCodes) error | Inr session \<Rightarrow> False)"

definition refusalOf :: "youtube_failure \<Rightarrow> 's yt_backend \<Rightarrow> youtube_failure" where
  "refusalOf latest backend =
     (if hasNoRoom backend then youtubeError ''no_workers'' []
      else case yb_resolve backend of Inl error \<Rightarrow> error | Inr session \<Rightarrow> latest)"

lemma passesOn_cases:
  "hasNoRoom b \<Longrightarrow> passesOn b"
  "\<not> hasNoRoom b \<Longrightarrow> yb_resolve b = Inl e \<Longrightarrow> passesOn b = codeIs (\<lambda>code. code \<in> set softCodes) e"
  "\<not> hasNoRoom b \<Longrightarrow> yb_resolve b = Inr s \<Longrightarrow> \<not> passesOn b"
  by (simp_all add: passesOn_def)

lemma openLoop_reference:
  "openLoop latest backends =
     ((case dropWhile passesOn backends of
         [] \<Rightarrow> Inl (foldl refusalOf latest backends)
       | backend # others \<Rightarrow> yb_resolve backend),
      map yb_name (filter (\<lambda>b. \<not> hasNoRoom b)
        (takeWhile passesOn backends @ take 1 (dropWhile passesOn backends))))"
proof (induction latest backends rule: openLoop.induct)
  case (2 latest b bs)
  show ?case
  proof (cases "hasNoRoom b")
    case True
    have "refusalOf latest b = youtubeError ''no_workers'' []" using True by (simp add: refusalOf_def)
    then show ?thesis using "2.IH"(1) [OF True] True
      by (cases "dropWhile passesOn bs") (simp_all add: passesOn_cases(1) del: dropWhile_eq_Nil_conv)
  next
    case False
    show ?thesis
    proof (cases "yb_resolve b")
      case (Inl e)
      show ?thesis
      proof (cases "codeIs (\<lambda>code. code \<in> set softCodes) e")
        case True
        have "refusalOf latest b = e" using False Inl by (simp add: refusalOf_def)
        then show ?thesis using "2.IH"(2) [OF False Inl True] False Inl True
          by (cases "dropWhile passesOn bs") (simp_all add: passesOn_cases(2) [OF False Inl] del: dropWhile_eq_Nil_conv)
      next
        case c: False
        then show ?thesis using False Inl by (simp add: passesOn_cases(2) [OF False Inl])
      qed
    next
      case (Inr s)
      then show ?thesis using False by (simp add: passesOn_cases(3) [OF False Inr])
    qed
  qed
qed simp

text \<open>the link is resolved by the first backend that does not pass it on, and its answer, a session or a verdict about the video, is final: no later backend is asked. Only when every backend passes it on is the last one's reason the error. The link was given to exactly the backends with room up to that one, in order.\<close>

theorem first_able_backend_answers:
  "openYoutube parse url backends =
     (if isYoutubeLink parse url
      then ((case dropWhile passesOn backends of
               [] \<Rightarrow> Inl (foldl refusalOf (youtubeError ''no_workers'' []) backends)
             | backend # others \<Rightarrow> yb_resolve backend),
            map yb_name (filter (\<lambda>b. \<not> hasNoRoom b)
              (takeWhile passesOn backends @ take 1 (dropWhile passesOn backends))))
      else (Inl (youtubeError ''invalid'' []), []))"
  by (simp add: openYoutube_def isYoutubeLink_def openLoop_reference)

text \<open>A poll the server did not answer well.\<close>

fun refusedPoll :: "'a api_answer option \<times> int \<Rightarrow> bool" where
  "refusedPoll (answer, now) = (case apiYoutube answer of Inl error \<Rightarrow> True | Inr status \<Rightarrow> False)"

fun resolveOk :: "int \<Rightarrow> ('s yt_job_status api_answer option \<times> int) list \<Rightarrow> 's resolve_state \<Rightarrow> bool" where
  "resolveOk start polls (Refused error) = True"
| "resolveOk start polls (Resolving videoId jobId deadline destroyed) =
     (isVideoId videoId \<and> destroyed = 0 \<and> deadline = start + RESOLVE_TIMEOUT_MS
      \<and> list_all (\<lambda>poll. snd poll \<le> deadline \<and> \<not> refusedPoll poll) polls)"
| "resolveOk start polls (Resolved session) =
     (isVideoId (yx_videoId session) \<and> yx_url session = canonicalYoutubeUrl (yx_videoId session))"
| "resolveOk start polls (ResolveFailed error jobId destroyed) =
     (destroyed = 1 \<or> destroyed = 0 \<and> list_ex refusedPoll polls)"

lemma resolvePoll_keeps:
  assumes "resolveOk start polls st" shows "resolveOk start (polls @ [poll]) (resolvePoll st poll)"
proof (cases st)
  case (Resolving videoId jobId deadline destroyed)
  obtain answer now where poll: "poll = (answer, now)" by (cases poll)
  show ?thesis
    using assms unfolding Resolving poll by (auto split: sum.splits bool.splits option.splits)
qed (use assms in auto)

text \<open>C14: a link is resolved or given up: it is still in resolution only while no poll came after the deadline or was refused, every session's URL is its video's canonical one, and a job that failed was released exactly once, unless it was a poll that failed, which keeps the job.\<close>

theorem resolve_ends_by_deadline:
  "resolveOk start polls (resolveFleet parse url started start polls)"
proof (induction polls rule: rev_induct)
  case Nil
  show ?case
    using youtubeVideoId_ok by (auto simp: resolveStart_def split: option.splits sum.splits)
next
  case (snoc poll polls)
  then show ?case using resolvePoll_keeps by simp
qed

text \<open>A poll that fails once, a lost connection for one, ends the resolve with the job never released.\<close>

theorem failed_poll_keeps_job:
  assumes "apiYoutube started = Inr jobId" and "youtubeVideoId parse url = Some videoId"
  shows "resolveFleet parse url started start ((None, now) # polls) = ResolveFailed (ForeignError ''fetch'') jobId 0"
proof -
  have stays: "foldl resolvePoll (ResolveFailed e j n) ps = ResolveFailed e j n" for e j n and ps :: "('s yt_job_status api_answer option \<times> int) list"
    by (induction ps) simp_all
  show ?thesis using assms stays by (simp add: resolveStart_def apiYoutube_def)
qed

end
