(* ===== verification/Subtitles.thy ===== *)
theory Subtitles
  imports AssDoc Json
begin

text \<open>
  Subtitles of a room (\<open>web/src/subtitles.ts\<close>): the tracks taken from a Matroska
  file as its parser reports them, the WebVTT a track becomes, the fonts that
  travel with it, and the collector that posts the union of all sources. The
  parser is not part of the repository: its events are arguments, and so are
  the server's answers.
\<close>

section \<open>Tracks of a Matroska file\<close>

definition MAX_SUBTITLE_TRACKS :: nat where "MAX_SUBTITLE_TRACKS = 64"

definition MAX_FONT_BYTES :: nat where "MAX_FONT_BYTES = 8 * 1024 * 1024"

definition MAX_FONTS :: nat where "MAX_FONTS = 24"

definition isMatroska :: "string \<Rightarrow> string option \<Rightarrow> bool" where
  "isMatroska name type \<longleftrightarrow> endsWith (lower name) ''.mkv'' \<or> type = Some ''video/x-matroska''"

record matroska_track_info =
  mi_number :: nat
  mi_language :: "string option"
  mi_name :: "string option"
  mi_type :: string
  mi_header :: "string option"

record matroska_attachment =
  mt_filename :: "string option"
  mt_mimetype :: "string option"
  mt_data :: "nat list option"

record extracted_track =
  et_language :: string
  et_title :: string
  et_cues :: "ass_cue list"
  et_ass :: "ass_info option"
  et_rawHeader :: "string option"

record attached_font =
  af_filename :: string
  af_data :: "nat list"

text \<open>\<open>order\<close> is the order of the keys of \<open>tracks\<close>, a \<open>Map\<close> that never loses one.\<close>

record subtitle_stream =
  st_tracks :: "(nat, extracted_track) jsmap"
  st_fonts :: "attached_font list"
  st_fontBytes :: nat

definition emptyStream :: subtitle_stream where
  "emptyStream = \<lparr>st_tracks = [], st_fonts = [], st_fontBytes = 0\<rparr>"

definition extractedTrack :: "matroska_track_info \<Rightarrow> extracted_track" where
  "extractedTrack track =
     (let styled = mi_type track = ''ass'' \<or> mi_type track = ''ssa''
      in \<lparr>et_language = orElse (mi_language track) ''und'', et_title = orElse (mi_name track) [], et_cues = [],
          et_ass = (if styled \<and> truthy (mi_header track)
                    then Some (parseAssHeader (orElse (mi_header track) [])) else None),
          et_rawHeader = (if styled then mi_header track else None)\<rparr>)"

definition onTrack :: "matroska_track_info \<Rightarrow> subtitle_stream \<Rightarrow> subtitle_stream" where
  "onTrack track s =
     (if mapGet (st_tracks s) (mi_number track) \<noteq> None then s
      else s\<lparr>st_tracks := mapSet (mi_number track) (extractedTrack track) (st_tracks s)\<rparr>)"

definition onTracks :: "matroska_track_info list \<Rightarrow> subtitle_stream \<Rightarrow> subtitle_stream" where
  "onTracks infos s = fold onTrack infos s"

definition onSubtitle :: "ass_cue \<Rightarrow> nat \<Rightarrow> subtitle_stream \<Rightarrow> subtitle_stream" where
  "onSubtitle cue number s =
     (case mapGet (st_tracks s) number of
        None \<Rightarrow> s
      | Some track \<Rightarrow> s\<lparr>st_tracks := mapSet number (track\<lparr>et_cues := et_cues track @ [cue]\<rparr>) (st_tracks s)\<rparr>)"

definition onFile :: "matroska_attachment \<Rightarrow> subtitle_stream \<Rightarrow> subtitle_stream" where
  "onFile attached s =
     (case mt_data attached of
        None \<Rightarrow> s
      | Some data \<Rightarrow>
          if \<not> isFontAttachment (mt_filename attached) (mt_mimetype attached) then s
          else if MAX_FONTS \<le> length (st_fonts s) \<or> MAX_FONT_BYTES < length data then s
          else if MAX_FONTS * MAX_FONT_BYTES < st_fontBytes s + length data then s
          else s\<lparr>st_fontBytes := st_fontBytes s + length data,
                 st_fonts := st_fonts s
                   @ [\<lparr>af_filename = orElse (mt_filename attached) (''font_'' @ dec (length (st_fonts s))),
                       af_data = data\<rparr>]\<rparr>)"

datatype parser_event =
    Tracks "matroska_track_info list"
  | Subtitle ass_cue nat
  | File matroska_attachment

text \<open>\<open>tracks\<close> is listened to once.\<close>

fun streamStep :: "bool \<times> subtitle_stream \<Rightarrow> parser_event \<Rightarrow> bool \<times> subtitle_stream" where
  "streamStep (listed, s) (Tracks infos) = (True, if listed then s else onTracks infos s)"
| "streamStep (listed, s) (Subtitle cue number) = (listed, onSubtitle cue number s)"
| "streamStep (listed, s) (File attached) = (listed, onFile attached s)"

section \<open>WebVTT\<close>

definition formatVttTime :: "rat \<Rightarrow> string" where
  "formatVttTime ms =
     (let clamped = nat (max 0 (js_round ms));
          hours = clamped div 3600000;
          minutes = clamped mod 3600000 div 60000;
          seconds = clamped mod 60000 div 1000;
          millis = clamped mod 1000
      in pad2 hours @ '':'' @ pad2 minutes @ '':'' @ pad2 seconds @ ''.'' @ padStart 3 zero (dec millis))"

text \<open>The flags of an override block: \<open>/\\(i|b)(\d+)/g\<close>.\<close>

definition flagAt :: "string \<Rightarrow> (markup \<times> string) option" where
  "flagAt s =
     (case s of
        c # d # r \<Rightarrow>
          if c = CHR 0x5C \<and> (d = CHR ''i'' \<or> d = CHR ''b'') \<and> takeWhile isDigit r \<noteq> []
          then Some (if d = CHR ''i'' then Italic else Bold, takeWhile isDigit r) else None
      | _ \<Rightarrow> None)"

function flagsOf :: "string \<Rightarrow> (markup \<times> string) list" where
  "flagsOf s =
     (case s of
        [] \<Rightarrow> []
      | c # r \<Rightarrow>
          (case flagAt s of
             None \<Rightarrow> flagsOf r
           | Some (style, digits) \<Rightarrow> (style, digits) # flagsOf (drop (length digits) (tl r))))"
  by pat_completeness auto
termination by (relation "measure length") (auto simp: less_Suc_eq_le le_diff_conv)

declare flagsOf.simps [simp del]

text \<open>\<open>open\<close> keeps the order of opening; \<open>active\<close> is a flag for each style.\<close>

record clean_state =
  cl_open :: "markup list"
  cl_i :: bool
  cl_b :: bool
  cl_out :: string

definition openTag :: "markup \<Rightarrow> string" where
  "openTag k = (case k of Italic \<Rightarrow> ''<i>'' | Bold \<Rightarrow> ''<b>'' | Colored \<Rightarrow> ''<c>'')"

definition isActive :: "markup \<Rightarrow> clean_state \<Rightarrow> bool" where
  "isActive style s = (if style = Italic then cl_i s else cl_b s)"

definition setActive :: "markup \<Rightarrow> bool \<Rightarrow> clean_state \<Rightarrow> clean_state" where
  "setActive style on s = (if style = Italic then s\<lparr>cl_i := on\<rparr> else s\<lparr>cl_b := on\<rparr>)"

text \<open>\<open>open.lastIndexOf(style)\<close>: what was opened before and after its last place.\<close>

definition openedAfter :: "markup \<Rightarrow> markup list \<Rightarrow> markup list" where
  "openedAfter style opened = rev (takeWhile (\<lambda>k. k \<noteq> style) (rev opened))"

definition openedBefore :: "markup \<Rightarrow> markup list \<Rightarrow> markup list" where
  "openedBefore style opened = take (length opened - length (openedAfter style opened) - 1) opened"

definition applyFlag :: "markup \<times> string \<Rightarrow> clean_state \<Rightarrow> clean_state" where
  "applyFlag flag s =
     (let (style, digits) = flag;
          on = digits \<noteq> ''0''
      in if on = isActive style s then s
         else
           let s = setActive style on s
           in if on then s\<lparr>cl_open := cl_open s @ [style], cl_out := cl_out s @ openTag style\<rparr>
              else
                let kept = openedAfter style (cl_open s);
                    before = openedBefore style (cl_open s)
                in s\<lparr>cl_open := before @ kept,
                     cl_out := cl_out s @ concat (map closeTag (rev (drop (length before) (cl_open s))))
                       @ concat (map openTag kept)\<rparr>)"

function cleanLoop :: "string \<Rightarrow> clean_state \<Rightarrow> clean_state" where
  "cleanLoop raw s =
     (case nextBlock raw of
        None \<Rightarrow> s\<lparr>cl_out := cl_out s @ raw\<rparr>
      | Some (before, block, rest) \<Rightarrow>
          cleanLoop rest (fold applyFlag (flagsOf block) (s\<lparr>cl_out := cl_out s @ before\<rparr>)))"
  by pat_completeness auto
termination by (relation "measure (\<lambda>(raw, _). length raw)") (auto dest: nextBlock_shorter)

declare cleanLoop.simps [simp del]

definition cleanCueText :: "string \<Rightarrow> string" where
  "cleanCueText raw =
     (let s = cleanLoop raw \<lparr>cl_open = [], cl_i = False, cl_b = False, cl_out = []\<rparr>
      in trim (replacePair CHR 0x5C CHR ''N'' [NL] (cl_out s @ concat (map closeTag (rev (cl_open s))))))"

definition cueLines :: "ass_info option \<Rightarrow> ass_cue \<Rightarrow> string list" where
  "cueLines ass cue =
     (let (settings, body) = (case ass of
            Some info \<Rightarrow> convertAssCue info (ac_style cue) (ac_text cue)
          | None \<Rightarrow> ([], cleanCueText (ac_text cue)))
      in if body = [] then []
         else [formatVttTime (ac_time cue) @ '' --> '' @ formatVttTime (ac_time cue + ac_duration cue)
                 @ (if settings = [] then [] else '' '' @ settings), body, []])"

definition toWebVTT :: "ass_cue list \<Rightarrow> ass_info option \<Rightarrow> string" where
  "toWebVTT cues ass =
     (let sorted = sort_by (\<lambda>a b. ac_time a \<le> ac_time b) cues
      in positionDialogueCues (joinLines ([''WEBVTT'', []] @ concat (map (cueLines ass) sorted))))"

definition vttTrack :: "extracted_track \<Rightarrow> vtt_track" where
  "vttTrack track =
     \<lparr>vt_language = Language (et_language track), vt_title = et_title track,
      vt_vtt = toWebVTT (et_cues track) (et_ass track),
      vt_ass = map_option (\<lambda>header. buildAssDocument header (et_cues track)) (et_rawHeader track)\<rparr>"

definition collect :: "bool \<Rightarrow> subtitle_stream \<Rightarrow> vtt_track list" where
  "collect requireCues s =
     map vttTrack (filter (\<lambda>track. \<not> requireCues \<or> et_cues track \<noteq> []) (map snd (st_tracks s)))"

abbreviation snapshot :: "subtitle_stream \<Rightarrow> vtt_track list" where
  "snapshot \<equiv> collect False"

section \<open>Fonts\<close>

text \<open>
  \<open>postSubtitleFonts\<close>: the answer to each font's post, \<open>None\<close> when the fetch
  threw; the names remembered as sent and the fonts posted.
\<close>

definition fontKey :: "attached_font \<Rightarrow> string" where
  "fontKey font = af_filename font @ '':'' @ dec (length (af_data font))"

fun postSubtitleFonts ::
  "(attached_font \<Rightarrow> nat option) \<Rightarrow> attached_font list \<Rightarrow> string list \<Rightarrow> string list \<times> attached_font list" where
  "postSubtitleFonts answer [] alreadySent = (alreadySent, [])"
| "postSubtitleFonts answer (font # fonts) alreadySent =
     (let key = fontKey font
      in if key \<in> set alreadySent then postSubtitleFonts answer fonts alreadySent
         else
           let sent = alreadySent @ [key];
               add = (\<lambda>(s, posted). (s, font # posted))
           in (case answer font of
                 None \<Rightarrow> add (postSubtitleFonts answer fonts (removeAll key sent))
               | Some status \<Rightarrow>
                   if status = 409 then (sent, [font])
                   else if 200 \<le> status \<and> status \<le> 299 then add (postSubtitleFonts answer fonts sent)
                   else add (postSubtitleFonts answer fonts (removeAll key sent))))"

section \<open>The collector\<close>

definition PUBLISH_INTERVAL_MS :: int where "PUBLISH_INTERVAL_MS = 8000"

record collector_source =
  co_tracks :: "vtt_track list"
  co_complete :: bool

type_synonym slot = "nat \<times> language \<times> string"

type_synonym track_payload = "string \<times> string"

text \<open>A track of a post, whole or only its name; the post also carries whether the room is complete.\<close>

datatype posted_track = Whole vtt_track | Named language string

text \<open>
  \<open>pending\<close> is a chain of promises: \<open>cr_links\<close> counts its links that have not
  started, and a post under way holds what it posted.
\<close>

record collector =
  cr_sources :: "(string, collector_source) jsmap"
  cr_links :: nat
  cr_posting :: "(vtt_track list \<times> posted_track list \<times> bool) option"
  cr_lastPostAt :: int
  cr_dirty :: bool
  cr_sent :: "(slot, track_payload) jsmap"

definition newCollector :: collector where
  "newCollector = \<lparr>cr_sources = [], cr_links = 0, cr_posting = None, cr_lastPostAt = 0, cr_dirty = False, cr_sent = []\<rparr>"

definition slotOf :: "vtt_track \<Rightarrow> nat \<Rightarrow> slot" where
  "slotOf track index = (index, vt_language track, vt_title track)"

definition payloadOf :: "vtt_track \<Rightarrow> track_payload" where
  "payloadOf track = (vt_vtt track, orElse (vt_ass track) [])"

definition registerSource :: "string \<Rightarrow> collector \<Rightarrow> collector" where
  "registerSource source c =
     (if mapGet (cr_sources c) source \<noteq> None then c
      else c\<lparr>cr_sources := mapSet source \<lparr>co_tracks = [], co_complete = False\<rparr> (cr_sources c)\<rparr>)"

definition unionTracks :: "collector \<Rightarrow> vtt_track list" where
  "unionTracks c = take MAX_SUBTITLE_TRACKS (concat (map (co_tracks \<circ> snd) (cr_sources c)))"

definition allComplete :: "collector \<Rightarrow> bool" where
  "allComplete c \<longleftrightarrow> list_all (co_complete \<circ> snd) (cr_sources c)"

definition postedTrack :: "(slot, track_payload) jsmap \<Rightarrow> vtt_track \<Rightarrow> nat \<Rightarrow> posted_track" where
  "postedTrack sent track index =
     (if mapGet sent (slotOf track index) = Some (payloadOf track)
      then Named (vt_language track) (vt_title track) else Whole track)"

definition postedBody :: "(slot, track_payload) jsmap \<Rightarrow> vtt_track list \<Rightarrow> posted_track list" where
  "postedBody sent tracks = map2 (postedTrack sent) tracks [0..<length tracks]"

definition startPost :: "int \<Rightarrow> collector \<Rightarrow> collector" where
  "startPost now c =
     (let c = c\<lparr>cr_dirty := False\<rparr>;
          tracks = unionTracks c
      in if tracks = [] then c
         else c\<lparr>cr_lastPostAt := now,
                cr_posting := Some (tracks, postedBody (cr_sent c) tracks, allComplete c)\<rparr>)"

definition sentOf :: "vtt_track list \<Rightarrow> (slot, track_payload) jsmap" where
  "sentOf tracks =
     fold (\<lambda>(track, index). mapSet (slotOf track index) (payloadOf track)) (zip tracks [0..<length tracks]) []"

text \<open>The answer to the post, \<open>None\<close> when it threw.\<close>

definition postAnswered :: "nat option \<Rightarrow> collector \<Rightarrow> collector" where
  "postAnswered answer c =
     (case cr_posting c of
        None \<Rightarrow> c
      | Some (tracks, body, whole) \<Rightarrow>
          let c = c\<lparr>cr_posting := None\<rparr>
          in case answer of
               None \<Rightarrow> c
             | Some status \<Rightarrow>
                 if status = 409 \<or> status = 403 then c
                 else if \<not> (200 \<le> status \<and> status \<le> 299) then c\<lparr>cr_sent := []\<rparr>
                 else c\<lparr>cr_sent := sentOf tracks\<rparr>)"

text \<open>A link of the chain runs when the one before it is settled.\<close>

definition runLink :: "int \<Rightarrow> collector \<Rightarrow> collector" where
  "runLink now c =
     (if cr_posting c \<noteq> None \<or> cr_links c = 0 then c
      else let c = c\<lparr>cr_links := cr_links c - 1\<rparr> in if cr_dirty c then startPost now c else c)"

definition schedule :: "bool \<Rightarrow> int \<Rightarrow> collector \<Rightarrow> collector" where
  "schedule immediate now c =
     (let c = c\<lparr>cr_dirty := True\<rparr>
      in if \<not> immediate \<and> now - cr_lastPostAt c < PUBLISH_INTERVAL_MS then c
         else c\<lparr>cr_links := Suc (cr_links c)\<rparr>)"

definition publishTracks :: "string \<Rightarrow> vtt_track list \<Rightarrow> bool \<Rightarrow> int \<Rightarrow> collector \<Rightarrow> collector" where
  "publishTracks source tracks whole now c =
     (let c = registerSource source c
      in schedule whole now
           (c\<lparr>cr_sources := mapSet source \<lparr>co_tracks = tracks, co_complete = whole\<rparr> (cr_sources c)\<rparr>))"

definition flush :: "collector \<Rightarrow> collector" where
  "flush c = c\<lparr>cr_links := Suc (cr_links c)\<rparr>"

datatype collector_event =
    Register string
  | PublishTracks string "vtt_track list" bool int
  | Flush
  | LinkRuns int
  | PostAnswered "nat option"

fun collectorStep :: "collector \<Rightarrow> collector_event \<Rightarrow> collector" where
  "collectorStep c (Register source) = registerSource source c"
| "collectorStep c (PublishTracks source tracks whole now) = publishTracks source tracks whole now c"
| "collectorStep c Flush = flush c"
| "collectorStep c (LinkRuns now) = runLink now c"
| "collectorStep c (PostAnswered answer) = postAnswered answer c"

section \<open>Markup stays balanced\<close>

text \<open>The tags written so far are open exactly as \<open>open\<close> says, each style at most once.\<close>

definition cleanOk :: "clean_state \<Rightarrow> bool" where
  "cleanOk s \<longleftrightarrow>
     scanText (Some ([], None)) (cl_out s) = Some (map markupName (rev (cl_open s)), None)
     \<and> distinct (cl_open s) \<and> set (cl_open s) \<subseteq> {Italic, Bold}
     \<and> cl_i s = (Italic \<in> set (cl_open s)) \<and> cl_b s = (Bold \<in> set (cl_open s))"

lemma scan_openTag:
  "k \<in> {Italic, Bold} \<Longrightarrow> scanText (Some (stack, None)) (openTag k) = Some (markupName k # stack, None)"
  by (cases k) (simp_all add: openTag_def markupName_def scan_opening del: scanText_simps(2))

lemma scan_openTags:
  "set ks \<subseteq> {Italic, Bold} \<Longrightarrow>
   scanText (Some (stack, None)) (concat (map openTag ks)) = Some (map markupName (rev ks) @ stack, None)"
proof (induction ks arbitrary: stack)
  case (Cons k ks)
  then show ?case using scan_openTag [of k stack] by simp
qed simp

lemma opened_split:
  assumes "style \<in> set opened"
  shows "opened = openedBefore style opened @ style # openedAfter style opened"
    and "style \<notin> set (openedAfter style opened)"
proof -
  let ?d = "dropWhile (\<lambda>k. k \<noteq> style) (rev opened)"
  have "?d \<noteq> []" using assms by (simp add: dropWhile_eq_Nil_conv)
  then obtain r where d: "?d = style # r" by (metis (mono_tags, lifting) hd_dropWhile list.collapse)
  have "rev opened = takeWhile (\<lambda>k. k \<noteq> style) (rev opened) @ style # r"
    using takeWhile_dropWhile_id [of "\<lambda>k. k \<noteq> style" "rev opened"] unfolding d by simp
  then have whole: "opened = rev r @ style # openedAfter style opened"
    unfolding openedAfter_def by (metis rev_append rev.simps(2) append.assoc append_Cons append_Nil rev_rev_ident)
  have "length opened = length (rev r @ style # openedAfter style opened)"
    by (rule arg_cong [OF whole])
  then have "openedBefore style opened = take (length r) opened" by (simp add: openedBefore_def)
  also have "take (length r) opened = take (length r) (rev r @ style # openedAfter style opened)"
    by (rule arg_cong [OF whole])
  also have "\<dots> = rev r" by simp
  finally have "openedBefore style opened = rev r" .
  then show "opened = openedBefore style opened @ style # openedAfter style opened" using whole by simp
  show "style \<notin> set (openedAfter style opened)" unfolding openedAfter_def by (auto dest: set_takeWhileD)
qed

lemma cleanOk_applyFlag:
  assumes ok: "cleanOk s" and style: "fst flag \<in> {Italic, Bold}"
  shows "cleanOk (applyFlag flag s)"
proof -
  obtain k digits where flag: "flag = (k, digits)" by (cases flag)
  have act: "isActive k s = (k \<in> set (cl_open s))"
    using ok style by (auto simp: flag isActive_def cleanOk_def)
  show ?thesis
  proof (cases "(digits \<noteq> ''0'') = isActive k s")
    case True
    then show ?thesis using ok by (simp add: applyFlag_def flag)
  next
    case changes: False
    show ?thesis
    proof (cases "digits = ''0''")
      case False
      then have "k \<notin> set (cl_open s)" using changes act by simp
      moreover have "scanText (Some (stack, None)) (openTag k) = Some (markupName k # stack, None)" for stack
        using scan_openTags [of "[k]" stack] style by (simp add: flag)
      ultimately show ?thesis
        using ok style False changes
        by (auto simp: applyFlag_def flag cleanOk_def setActive_def)
    next
      case True
      then have mem: "k \<in> set (cl_open s)" using changes act by simp
      let ?b = "openedBefore k (cl_open s)" and ?a = "openedAfter k (cl_open s)"
      have split: "cl_open s = ?b @ k # ?a" using opened_split(1) [OF mem] .
      have drop: "drop (length ?b) (cl_open s) = k # ?a" by (subst split) simp
      have "distinct (?b @ k # ?a)" "set (?b @ k # ?a) \<subseteq> {Italic, Bold}"
        using ok split by (simp_all only: cleanOk_def)
      then have sets: "set ?a \<subseteq> {Italic, Bold}" "set ?b \<subseteq> {Italic, Bold}" "distinct (?b @ ?a)"
        "k \<notin> set ?b" "k \<notin> set ?a"
        by auto
      have scan: "scanText (Some (map markupName (rev (cl_open s)), None))
          (concat (map closeTag (rev (k # ?a))) @ concat (map openTag ?a)) = Some (map markupName (rev (?b @ ?a)), None)"
      proof -
        have "map markupName (rev (cl_open s)) = map markupName (rev (k # ?a)) @ map markupName (rev ?b)"
          by (subst split) simp
        then have "scanText (Some (map markupName (rev (cl_open s)), None)) (concat (map closeTag (rev (k # ?a))))
            = Some (map markupName (rev ?b), None)"
          using scan_closing [of "rev (k # ?a)" "map markupName (rev ?b)"] by (simp only:)
        then show ?thesis using scan_openTags [OF sets(1)] by simp
      qed
      have mems: "Italic \<in> set (?b @ ?a) \<longleftrightarrow> Italic \<in> set (cl_open s) \<and> k \<noteq> Italic"
        "Bold \<in> set (?b @ ?a) \<longleftrightarrow> Bold \<in> set (cl_open s) \<and> k \<noteq> Bold"
        using sets(4,5) arg_cong [OF split, of set] by auto
      have on: "applyFlag flag s = (setActive k False s)\<lparr>cl_open := ?b @ ?a,
          cl_out := cl_out s @ concat (map closeTag (rev (k # ?a))) @ concat (map openTag ?a)\<rparr>"
        using True changes drop by (auto simp: applyFlag_def flag Let_def setActive_def)
      have "scanText (Some ([], None)) (cl_out s @ concat (map closeTag (rev (k # ?a))) @ concat (map openTag ?a))
          = Some (map markupName (rev (?b @ ?a)), None)"
        using scan ok unfolding cleanOk_def scanText_simps(3) [of _ "cl_out s"] by (simp only:)
      then have out: "scanText (Some ([], None)) (cl_out (applyFlag flag s))
          = Some (map markupName (rev (cl_open (applyFlag flag s))), None)"
        unfolding on by simp
      have opened: "cl_open (applyFlag flag s) = ?b @ ?a" unfolding on by simp
      have "cl_i (applyFlag flag s) = (cl_i s \<and> k \<noteq> Italic)" "cl_b (applyFlag flag s) = (cl_b s \<and> k \<noteq> Bold)"
        using style unfolding on by (auto simp: setActive_def flag)
      then show ?thesis
        using ok out sets(1,2,3) mems unfolding cleanOk_def opened by simp
    qed
  qed
qed

lemma flagsOf_styles: "flag \<in> set (flagsOf s) \<Longrightarrow> fst flag \<in> {Italic, Bold}"
proof (induction s rule: flagsOf.induct)
  case (1 s)
  then show ?case
    by (subst (asm) (2) flagsOf.simps)
      (auto simp: flagAt_def split: list.splits if_splits option.splits)
qed

lemma cleanOk_flags: "cleanOk s \<Longrightarrow> \<forall>flag \<in> set flags. fst flag \<in> {Italic, Bold} \<Longrightarrow> cleanOk (fold applyFlag flags s)"
  by (induction flags arbitrary: s) (auto intro: cleanOk_applyFlag)

lemma nextBlock_parts:
  "nextBlock raw = Some (before, block, rest) \<Longrightarrow> set before \<subseteq> set raw \<and> set rest \<subseteq> set raw"
  by (auto simp: nextBlock_def indexOfChar_def dest: in_set_takeD in_set_dropD split: option.splits if_splits)

lemma cleanOk_text:
  "cleanOk s \<Longrightarrow> CHR ''<'' \<notin> set r \<Longrightarrow> CHR ''>'' \<notin> set r \<Longrightarrow> cleanOk (s\<lparr>cl_out := cl_out s @ r\<rparr>)"
  by (simp add: cleanOk_def scan_plain)

lemma cleanOk_loop:
  "cleanOk s \<Longrightarrow> CHR ''<'' \<notin> set raw \<Longrightarrow> CHR ''>'' \<notin> set raw \<Longrightarrow> cleanOk (cleanLoop raw s)"
proof (induction raw s rule: cleanLoop.induct)
  case (1 raw s)
  show ?case
  proof (cases "nextBlock raw")
    case None
    then show ?thesis using 1 by (simp add: cleanLoop.simps [of raw] cleanOk_text)
  next
    case (Some parts)
    obtain before block rest where parts: "parts = (before, block, rest)" by (cases parts)
    have "set before \<subseteq> set raw" "set rest \<subseteq> set raw" using nextBlock_parts Some parts by auto
    then have plain: "CHR ''<'' \<notin> set before" "CHR ''>'' \<notin> set before" "CHR ''<'' \<notin> set rest" "CHR ''>'' \<notin> set rest"
      using 1(3,4) by auto
    then have "cleanOk (fold applyFlag (flagsOf block) (s\<lparr>cl_out := cl_out s @ before\<rparr>))"
      using flagsOf_styles by (intro cleanOk_flags cleanOk_text 1(2)) auto
    then show ?thesis
      using 1(1) [OF Some [unfolded parts] refl refl] plain Some parts by (simp add: cleanLoop.simps [of raw])
  qed
qed

text \<open>C16: the WebVTT text of a plain cue is well-formed markup whatever its override blocks turn on and off, in any order: every italic and bold opened is closed, innermost first. The cue's own text has no markup of its own.\<close>

theorem cleaned_cue_is_well_formed:
  assumes "CHR ''<'' \<notin> set raw" and "CHR ''>'' \<notin> set raw"
  shows "wellFormed (cleanCueText raw)"
proof -
  let ?s = "cleanLoop raw \<lparr>cl_open = [], cl_i = False, cl_b = False, cl_out = []\<rparr>"
  have ok: "cleanOk ?s" by (rule cleanOk_loop) (simp_all add: cleanOk_def assms)
  have "scanText (Some ([], None)) (cl_out ?s @ concat (map closeTag (rev (cl_open ?s)))) = Some ([], None)"
    using ok scan_closing [of "rev (cl_open ?s)" "[]"] by (simp add: cleanOk_def)
  moreover have "isSpace NL" by (simp add: isSpace_def codeOf_def NL_def)
  ultimately have "wellFormed (replacePair CHR 0x5C CHR ''N'' [NL] (cl_out ?s @ concat (map closeTag (rev (cl_open ?s)))))"
    by (simp add: wellFormed_def scan_replacePair)
  then show ?thesis by (simp add: cleanCueText_def Let_def wellFormed_trim)
qed

text \<open>Italic, bold within it, and italic off while bold stays: \<open>{\i1}a{\b1}b{\i0}c\<close>.\<close>

definition sampleOverrides :: string where
  "sampleOverrides = ''{'' @ [CHR 0x5C] @ ''i1}a{'' @ [CHR 0x5C] @ ''b1}b{'' @ [CHR 0x5C] @ ''i0}c''"

theorem cleaned_cue_is_well_formed_witness:
  "wellFormed (cleanCueText sampleOverrides) \<and> cleanCueText sampleOverrides = ''<i>a<b>b</b></i><b>c</b>''"
  using cleaned_cue_is_well_formed [of sampleOverrides] by (auto simp: sampleOverrides_def) code_simp

section \<open>Stamps\<close>

lemma clock_parts:
  "(n div 3600000 * 60 + n mod 3600000 div 60000) * 60000 + n mod 60000 div 1000 * 1000 + n mod 1000 = (n :: nat)"
proof -
  have a: "n div 3600000 = n div 60000 div 60" using div_mult2_eq [of n 60000 60] by simp
  have "n mod 3600000 = 60000 * (n div 60000 mod 60) + n mod 60000" using mod_mult2_eq [of n 60000 60] by simp
  then have b: "n mod 3600000 div 60000 = n div 60000 mod 60" by simp
  have "n mod 60000 mod 1000 = n mod 1000" by (simp add: mod_mod_cancel)
  then have c: "n mod 60000 div 1000 * 1000 + n mod 1000 = n mod 60000"
    using div_mult_mod_eq [of "n mod 60000" 1000] by simp
  have "n div 60000 div 60 * 60 + n div 60000 mod 60 = n div 60000" by (rule div_mult_mod_eq)
  then have "(n div 3600000 * 60 + n mod 3600000 div 60000) * 60000 = n div 60000 * 60000" unfolding a b by simp
  then show ?thesis using c div_mult_mod_eq [of n 60000] by linarith
qed

text \<open>the time of a cue, in whatever fraction of a millisecond, is written so that a WebVTT reader reads back its rounding, however many hours it has.\<close>

theorem cue_time_reads_back:
  "parseVttStamp (formatVttTime ms) = Some (max 0 (js_round ms))"
proof -
  define n where "n = nat (max 0 (js_round ms))"
  have h: "pad2 (n div 3600000) \<noteq> []" "list_all isDigit (pad2 (n div 3600000))"
    using pad2_digits(2) by (auto simp: pad2_def padStart_def)
  have m: "length (pad2 (n mod 3600000 div 60000)) = 2" "list_all isDigit (pad2 (n mod 3600000 div 60000))"
    by (rule pad2_digits(1), simp add: less_mult_imp_div_less) (rule pad2_digits(2))
  have s: "length (pad2 (n mod 60000 div 1000)) = 2" "list_all isDigit (pad2 (n mod 60000 div 1000))"
    by (rule pad2_digits(1), simp add: less_mult_imp_div_less) (rule pad2_digits(2))
  have "length (dec (n mod 1000)) \<le> 3" using length_dec_le [of "n mod 1000" 3] by simp
  then have f: "length (padStart 3 zero (dec (n mod 1000))) = 3" "list_all isDigit (padStart 3 zero (dec (n mod 1000)))"
    "num (padStart 3 zero (dec (n mod 1000))) = n mod 1000"
    by (simp_all add: pad_zero) (simp add: zero_digitChar)
  have "parseVttStamp (formatVttTime ms)
      = Some ((int (n div 3600000) * 60 + int (n mod 3600000 div 60000)) * 60000
          + int (n mod 60000 div 1000) * 1000 + int (n mod 1000))"
    using parseVttStamp_read [OF h(1) m(1) s(1) f(1) h(2) m(2) s(2) f(2)] f(3)
    by (simp add: formatVttTime_def n_def [symmetric])
  also have "(int (n div 3600000) * 60 + int (n mod 3600000 div 60000)) * 60000
      + int (n mod 60000 div 1000) * 1000 + int (n mod 1000) = int n"
    using clock_parts [of n, THEN arg_cong [of _ _ int]] by simp
  finally show ?thesis by (simp add: n_def)
qed

section \<open>What the server makes of a post\<close>

text \<open>
  The server keeps, at its place, a track that only came by name, when what it
  holds there has that name, and refuses the post otherwise: \<open>held\<close> are the
  tracks of the last post it took.
\<close>

definition trackView :: "vtt_track \<Rightarrow> language \<times> string \<times> track_payload" where
  "trackView track = (vt_language track, vt_title track, payloadOf track)"

definition restoreTrack :: "vtt_track list \<Rightarrow> posted_track \<Rightarrow> nat \<Rightarrow> (language \<times> string \<times> track_payload) option" where
  "restoreTrack held posted index =
     (case posted of
        Whole track \<Rightarrow> Some (trackView track)
      | Named language title \<Rightarrow>
          if index < length held \<and> vt_language (held ! index) = language \<and> vt_title (held ! index) = title
          then Some (trackView (held ! index)) else None)"

definition restorePost :: "vtt_track list \<Rightarrow> posted_track list \<Rightarrow> (language \<times> string \<times> track_payload) option list" where
  "restorePost held body = map2 (restoreTrack held) body [0..<length body]"

text \<open>
  The run of a collector beside the server's tracks, and whether any post
  failed. Each event comes with the tracks the server holds after it.
\<close>

definition acceptsAnswer :: "nat option \<Rightarrow> bool" where
  "acceptsAnswer answer \<longleftrightarrow> (case answer of None \<Rightarrow> False | Some status \<Rightarrow> 200 \<le> status \<and> status \<le> 299)"

record posting_run =
  pr_collector :: collector
  pr_held :: "vtt_track list"
  pr_failed :: bool

type_synonym posting_event = "collector_event \<times> vtt_track list"

definition runStep :: "posting_run \<Rightarrow> posting_event \<Rightarrow> posting_run" where
  "runStep r ev =
     r\<lparr>pr_collector := collectorStep (pr_collector r) (fst ev),
       pr_held := snd ev,
       pr_failed := (case (fst ev, cr_posting (pr_collector r)) of
           (PostAnswered answer, Some posting) \<Rightarrow> pr_failed r \<or> \<not> acceptsAnswer answer
         | _ \<Rightarrow> pr_failed r)\<rparr>"

text \<open>
  What the server does with a post: one it answers with success it took, one it
  answers 409 or 403 is not this collector's any more and left it as it was. A
  post refused with any other status may have been stored in part, and one
  whose answer never came may have been taken, or not: anything may be held
  then. Nothing but this collector's posts changes its tracks.
\<close>

definition serverDoes :: "posting_run \<Rightarrow> posting_event \<Rightarrow> bool" where
  "serverDoes r ev =
     (case (fst ev, cr_posting (pr_collector r)) of
        (PostAnswered (Some status), Some (tracks, body, whole)) \<Rightarrow>
          if status = 409 \<or> status = 403 then snd ev = pr_held r
          else if 200 \<le> status \<and> status \<le> 299
          then map (Some \<circ> trackView) (snd ev) = restorePost (pr_held r) body
          else True
      | (PostAnswered None, Some posting) \<Rightarrow> True
      | _ \<Rightarrow> snd ev = pr_held r)"

text \<open>A post whose answer never came did not reach the server.\<close>

definition lostUnstored :: "posting_run \<Rightarrow> posting_event \<Rightarrow> bool" where
  "lostUnstored r ev =
     (case (fst ev, cr_posting (pr_collector r)) of
        (PostAnswered None, Some posting) \<Rightarrow> snd ev = pr_held r
      | _ \<Rightarrow> True)"

definition freshRun :: posting_run where
  "freshRun = \<lparr>pr_collector = newCollector, pr_held = [], pr_failed = False\<rparr>"

abbreviation fairRun :: "posting_event list \<Rightarrow> bool" where
  "fairRun es \<equiv> along runStep (\<lambda>r ev. serverDoes r ev \<and> lostUnstored r ev) freshRun es"

lemma sentOf_snoc: "sentOf (ts @ [t]) = mapSet (slotOf t (length ts)) (payloadOf t) (sentOf ts)"
  by (simp add: sentOf_def)

lemma sentOf_get:
  "mapGet (sentOf ts) (i, l, t) =
     (if i < length ts \<and> vt_language (ts ! i) = l \<and> vt_title (ts ! i) = t then Some (payloadOf (ts ! i)) else None)"
proof (induction ts rule: rev_induct)
  case Nil
  then show ?case by (simp add: sentOf_def)
next
  case (snoc x ts)
  show ?case
  proof (cases "i = length ts")
    case True
    then show ?thesis using snoc by (auto simp: sentOf_snoc slotOf_def)
  next
    case False
    then show ?thesis using snoc by (auto simp: sentOf_snoc slotOf_def nth_append)
  qed
qed

lemma restore_posted:
  assumes "sent = [] \<or> sent = sentOf held"
  shows "restorePost held (postedBody sent tracks) = map (Some \<circ> trackView) tracks"
proof (rule nth_equalityI)
  show "length (restorePost held (postedBody sent tracks)) = length (map (Some \<circ> trackView) tracks)"
    by (simp add: restorePost_def postedBody_def)
  fix i assume "i < length (restorePost held (postedBody sent tracks))"
  then have i: "i < length tracks" by (simp add: restorePost_def postedBody_def)
  have "restoreTrack held (postedTrack sent (tracks ! i) i) i = Some (trackView (tracks ! i))"
    using assms
    by (auto simp: restoreTrack_def postedTrack_def slotOf_def sentOf_get trackView_def split: if_splits)
  then show "restorePost held (postedBody sent tracks) ! i = map (Some \<circ> trackView) tracks ! i"
    using i by (simp add: restorePost_def postedBody_def)
qed

lemma sentOf_views: "map trackView a = map trackView b \<Longrightarrow> sentOf a = sentOf b"
proof (induction a arbitrary: b rule: rev_induct)
  case (snoc x xs)
  then obtain y ys where b: "b = ys @ [y]" by (cases b rule: rev_cases) auto
  with snoc.prems have views: "map trackView xs = map trackView ys" and x: "trackView x = trackView y" by simp_all
  have "length xs = length ys" using views by (metis length_map)
  with x snoc.IH [OF views] show ?case by (simp add: b sentOf_snoc slotOf_def trackView_def)
qed simp

text \<open>What every moment of such a run keeps.\<close>

definition postingOk :: "posting_run \<Rightarrow> bool" where
  "postingOk r \<longleftrightarrow>
     (let c = pr_collector r in
       (cr_sent c = [] \<or> cr_sent c = sentOf (pr_held r))
       \<and> (case cr_posting c of
            Some (tracks, body, whole) \<Rightarrow>
              body = postedBody (cr_sent c) tracks \<and> (\<not> cr_dirty c \<longrightarrow> tracks = unionTracks c)
          | None \<Rightarrow>
              \<not> cr_dirty c \<and> \<not> pr_failed r \<and> unionTracks c \<noteq> [] \<longrightarrow>
                map trackView (pr_held r) = map trackView (unionTracks c)))"

lemma update_new: "map_of m k = None \<Longrightarrow> AList.update k v m = m @ [(k, v)]"
  by (induction m) (auto split: if_splits)

lemma union_register [simp]: "unionTracks (registerSource source c) = unionTracks c"
proof (cases "mapGet (cr_sources c) source")
  case None
  then have "AList.update source v (cr_sources c) = cr_sources c @ [(source, v)]" for v
    by (simp add: update_new)
  then show ?thesis using None by (simp add: registerSource_def unionTracks_def)
qed (simp add: registerSource_def)

lemma register_fields [simp]:
  "cr_sent (registerSource source c) = cr_sent c" "cr_posting (registerSource source c) = cr_posting c"
  "cr_dirty (registerSource source c) = cr_dirty c" "cr_links (registerSource source c) = cr_links c"
  "cr_lastPostAt (registerSource source c) = cr_lastPostAt c"
  by (simp_all add: registerSource_def)

lemma union_fields [simp]:
  "unionTracks (c\<lparr>cr_dirty := d\<rparr>) = unionTracks c" "unionTracks (c\<lparr>cr_links := n\<rparr>) = unionTracks c"
  "unionTracks (c\<lparr>cr_posting := p\<rparr>) = unionTracks c" "unionTracks (c\<lparr>cr_sent := s\<rparr>) = unionTracks c"
  "unionTracks (c\<lparr>cr_lastPostAt := now\<rparr>) = unionTracks c"
  by (simp_all add: unionTracks_def)

lemma postingOk_answered:
  assumes ok: "postingOk r" and does: "serverDoes r ev" "lostUnstored r ev" and e: "fst ev = PostAnswered answer"
  shows "postingOk (runStep r ev)"
proof (cases "cr_posting (pr_collector r)")
  case None
  with ok does e show ?thesis
    by (cases answer) (simp_all add: postingOk_def runStep_def postAnswered_def serverDoes_def Let_def)
next
  case (Some posting)
  obtain tracks body whole where posting: "posting = (tracks, body, whole)" by (cases posting)
  let ?c = "pr_collector r"
  have sent: "cr_sent ?c = [] \<or> cr_sent ?c = sentOf (pr_held r)"
    and body: "body = postedBody (cr_sent ?c) tracks" and union: "\<not> cr_dirty ?c \<longrightarrow> tracks = unionTracks ?c"
    using ok Some posting by (simp_all add: postingOk_def Let_def)
  show ?thesis
  proof (cases "acceptsAnswer answer")
    case True
    then obtain status where status: "answer = Some status" "200 \<le> status" "status \<le> 299"
      by (cases answer) (auto simp: acceptsAnswer_def)
    have "map (Some \<circ> trackView) (snd ev) = restorePost (pr_held r) body"
      using does(1) e Some posting status by (simp add: serverDoes_def split: if_splits)
    then have "map Some (map trackView (snd ev)) = map Some (map trackView tracks)"
      using restore_posted [OF sent, of tracks] body by simp
    then have views: "map trackView (snd ev) = map trackView tracks"
      by (rule injD [OF inj_mapI, rotated]) simp
    have "runStep r ev = r\<lparr>pr_collector := ?c\<lparr>cr_posting := None, cr_sent := sentOf tracks\<rparr>, pr_held := snd ev,
        pr_failed := pr_failed r\<rparr>"
      using e Some posting status True by (simp add: runStep_def postAnswered_def Let_def)
    with views union sentOf_views [OF views] show ?thesis by (simp add: postingOk_def Let_def)
  next
    case False
    then have failed: "pr_failed (runStep r ev)" and posted: "cr_posting (pr_collector (runStep r ev)) = None"
      using e Some posting by (cases answer; simp add: runStep_def postAnswered_def Let_def)+
    have "cr_sent (pr_collector (runStep r ev)) = [] \<or> cr_sent (pr_collector (runStep r ev)) = sentOf (snd ev)"
    proof (cases answer)
      case None
      with does(2) e Some posting sent show ?thesis by (simp add: lostUnstored_def runStep_def postAnswered_def Let_def)
    next
      case code: (Some status)
      show ?thesis
        using does(1) e Some posting sent code False
        by (simp add: serverDoes_def runStep_def postAnswered_def acceptsAnswer_def Let_def)
    qed
    with failed posted show ?thesis by (simp add: postingOk_def Let_def) (simp add: runStep_def)
  qed
qed

lemma postingOk_step [keeps]:
  assumes ok: "postingOk r" and does: "serverDoes r ev \<and> lostUnstored r ev"
  shows "postingOk (runStep r ev)"
proof (cases "fst ev")
  case (PostAnswered answer)
  with assms show ?thesis by (simp add: postingOk_answered)
next
  case (LinkRuns now)
  then have "snd ev = pr_held r" using does by (simp add: serverDoes_def)
  with ok LinkRuns show ?thesis
    by (cases "cr_posting (pr_collector r)")
      (auto simp: postingOk_def runStep_def runLink_def startPost_def Let_def)
next
  case (PublishTracks source tracks whole now)
  then have "snd ev = pr_held r" using does by (simp add: serverDoes_def)
  with ok PublishTracks show ?thesis
    by (auto simp: postingOk_def runStep_def publishTracks_def schedule_def Let_def split: option.splits)
next
  case (Register source)
  then have "snd ev = pr_held r" using does by (simp add: serverDoes_def)
  with ok Register show ?thesis by (auto simp: postingOk_def runStep_def Let_def split: option.splits)
next
  case Flush
  then have "snd ev = pr_held r" using does by (simp add: serverDoes_def)
  with ok Flush show ?thesis by (auto simp: postingOk_def runStep_def flush_def Let_def split: option.splits)
qed

interpretation posts: guarded_component runStep "\<lambda>r ev. serverDoes r ev \<and> lostUnstored r ev" postingOk
  by unfold_locales (rule postingOk_step)

lemma postingOk_new [simp]: "postingOk freshRun"
  by (simp add: postingOk_def freshRun_def newCollector_def unionTracks_def)

text \<open>
  C15: a track goes up by name alone only when the server can put it together
  again. Whatever was published and posted, taken, refused (with the server left
  in any state) or discarded before, the post under way, restored against what
  the server holds, is exactly the tracks it was made of, in a run where every
  post whose answer never came had not been stored. (One that had been is the
  exception of the theorem after the next.)
\<close>

theorem named_tracks_are_restored:
  assumes "fairRun es"
    and "cr_posting (pr_collector (foldl runStep freshRun es)) = Some (tracks, body, whole)"
  shows "restorePost (pr_held (foldl runStep freshRun es)) body = map (Some \<circ> trackView) tracks"
proof -
  have "postingOk (foldl runStep freshRun es)" by (rule posts.run_keeps [OF _ assms(1)]) simp
  then have "cr_sent (pr_collector (foldl runStep freshRun es)) = []
      \<or> cr_sent (pr_collector (foldl runStep freshRun es)) = sentOf (pr_held (foldl runStep freshRun es))"
    "body = postedBody (cr_sent (pr_collector (foldl runStep freshRun es))) tracks"
    using assms(2) by (simp_all add: postingOk_def Let_def)
  then show ?thesis using restore_posted by simp
qed

definition sampleTrack :: "string \<Rightarrow> string \<Rightarrow> vtt_track" where
  "sampleTrack title vtt = \<lparr>vt_language = Language ''en'', vt_title = title, vt_vtt = vtt, vt_ass = None\<rparr>"

text \<open>
  Two tracks posted, then one of them grows: the other goes up by name. The
  server that refused the first try may hold anything.
\<close>

definition samplePosts :: "posting_event list" where
  "samplePosts =
     (let a = sampleTrack ''a'' ''x''; b = sampleTrack ''b'' ''y''; longer = sampleTrack ''b'' ''yz''
      in [(Register ''external'', []), (PublishTracks ''external'' [a] False 9000, []), (LinkRuns 9000, []),
          (PostAnswered (Some 500), [longer]),
          (PublishTracks ''external'' [a, b] True 19000, [longer]), (LinkRuns 19000, [longer]), (PostAnswered (Some 201), [a, b]),
          (PublishTracks ''external'' [a, longer] True 19500, [a, b]), (LinkRuns 19500, [a, b])])"

lemmas collector_defs =
  freshRun_def newCollector_def runStep_def registerSource_def publishTracks_def schedule_def
  runLink_def startPost_def postAnswered_def unionTracks_def allComplete_def MAX_SUBTITLE_TRACKS_def
  postedBody_def postedTrack_def slotOf_def payloadOf_def sentOf_def acceptsAnswer_def
  serverDoes_def lostUnstored_def restorePost_def restoreTrack_def trackView_def PUBLISH_INTERVAL_MS_def Let_def

lemma sample_fair: "fairRun samplePosts"
  by (simp add: samplePosts_def sampleTrack_def collector_defs)

theorem named_tracks_are_restored_witness:
  "restorePost (pr_held (foldl runStep freshRun samplePosts)) [Named (Language ''en'') ''a'', Whole (sampleTrack ''b'' ''yz'')]
     = map (Some \<circ> trackView) [sampleTrack ''a'' ''x'', sampleTrack ''b'' ''yz'']"
proof -
  have "cr_posting (pr_collector (foldl runStep freshRun samplePosts))
      = Some ([sampleTrack ''a'' ''x'', sampleTrack ''b'' ''yz''],
              [Named (Language ''en'') ''a'', Whole (sampleTrack ''b'' ''yz'')], True)"
    by (simp add: samplePosts_def sampleTrack_def collector_defs)
  then show ?thesis by (rule named_tracks_are_restored [OF sample_fair])
qed

text \<open>
  A post the server stored and whose answer was lost leaves what was sent
  before it in the collector: a source that goes back to that text sends the
  track by name alone, and the server restores the text of the lost post.
\<close>

definition lostAnswer :: "posting_event list" where
  "lostAnswer =
     (let a = sampleTrack ''a'' ''x''; changed = sampleTrack ''a'' ''y''
      in [(PublishTracks ''external'' [a] True 9000, []), (LinkRuns 9000, []), (PostAnswered (Some 201), [a]),
          (PublishTracks ''external'' [changed] True 9500, [a]), (LinkRuns 9500, [a]), (PostAnswered None, [changed]),
          (PublishTracks ''external'' [a] True 9900, [changed]), (LinkRuns 9900, [changed])])"

theorem lost_answer_restores_another_text:
  "along runStep serverDoes freshRun lostAnswer
   \<and> cr_posting (pr_collector (foldl runStep freshRun lostAnswer))
       = Some ([sampleTrack ''a'' ''x''], [Named (Language ''en'') ''a''], True)
   \<and> restorePost (pr_held (foldl runStep freshRun lostAnswer)) [Named (Language ''en'') ''a'']
       = [Some (trackView (sampleTrack ''a'' ''y''))]"
  by (simp add: lostAnswer_def sampleTrack_def collector_defs)

text \<open>as long as no post failed, nothing published is forgotten: with nothing waiting and no post under way the server holds exactly the union of what the sources published last, and a flush makes the next link of the chain post whatever waits.\<close>

theorem collector_delivers:
  fixes es :: "posting_event list"
  defines "r \<equiv> foldl runStep freshRun es"
  assumes run: "fairRun es"
    and fine: "\<not> pr_failed r" and idle: "cr_posting (pr_collector r) = None" and some: "unionTracks (pr_collector r) \<noteq> []"
  shows "(if cr_dirty (pr_collector r)
          then map_option fst (cr_posting (runLink now (flush (pr_collector r)))) = Some (unionTracks (pr_collector r))
          else map trackView (pr_held r) = map trackView (unionTracks (pr_collector r)))"
proof (cases "cr_dirty (pr_collector r)")
  case True
  then show ?thesis using idle some by (simp add: runLink_def flush_def startPost_def Let_def)
next
  case False
  have "postingOk r" unfolding r_def by (rule posts.run_keeps [OF _ run]) simp
  then show ?thesis using False fine idle some by (simp add: postingOk_def Let_def)
qed

definition smoothPosts :: "posting_event list" where
  "smoothPosts =
     (let a = sampleTrack ''a'' ''x''
      in [(PublishTracks ''external'' [a] True 9000, []), (LinkRuns 9000, []), (PostAnswered (Some 201), [a])])"

theorem collector_delivers_witness:
  "map trackView (pr_held (foldl runStep freshRun smoothPosts)) = [trackView (sampleTrack ''a'' ''x'')]"
proof -
  let ?r = "foldl runStep freshRun smoothPosts"
  have run: "fairRun smoothPosts" by (simp add: smoothPosts_def sampleTrack_def collector_defs)
  have state: "\<not> pr_failed ?r" "cr_posting (pr_collector ?r) = None" "\<not> cr_dirty (pr_collector ?r)"
    "unionTracks (pr_collector ?r) = [sampleTrack ''a'' ''x'']"
    by (simp_all add: smoothPosts_def sampleTrack_def collector_defs)
  then show ?thesis using collector_delivers [OF run, of 0] by simp
qed

text \<open>
  A post that fails is not tried again: the update counts as sent, so the
  flush that ends a source's scan waits for nothing and posts nothing.
\<close>

theorem failed_post_is_not_retried:
  assumes "cr_posting c = Some posting" and "\<not> cr_dirty c" and "\<not> acceptsAnswer answer" and "cr_links c = 0"
  shows "let after = foldl collectorStep c [PostAnswered answer, Flush, LinkRuns now]
         in cr_posting after = None \<and> \<not> cr_dirty after \<and> cr_links after = 0"
  using assms
  by (cases posting; cases answer) (auto simp: postAnswered_def runLink_def flush_def acceptsAnswer_def Let_def)

section \<open>Fonts stay within their limits\<close>

lemma fonts_onTracks [simp]: "st_fonts (onTracks infos s) = st_fonts s"
proof (induction infos arbitrary: s)
  case (Cons i infos)
  have "st_fonts (onTrack i s) = st_fonts s" by (simp add: onTrack_def)
  then show ?case using Cons [of "onTrack i s"] by (simp add: onTracks_def)
qed (simp add: onTracks_def)

definition fontsOk :: "subtitle_stream \<Rightarrow> bool" where
  "fontsOk s \<longleftrightarrow> length (st_fonts s) \<le> MAX_FONTS
     \<and> list_all (\<lambda>font. length (af_data font) \<le> MAX_FONT_BYTES) (st_fonts s)"

lemma fonts_bounded: "fontsOk (snd (foldl streamStep (False, emptyStream) es))"
proof -
  have step: "fontsOk s \<Longrightarrow> fontsOk (snd (streamStep (listed, s) e))" for listed s e
    by (cases e) (auto simp: fontsOk_def onSubtitle_def onFile_def split: option.splits)
  have "fontsOk (snd ls) \<Longrightarrow> fontsOk (snd (foldl streamStep ls es))" for ls
  proof (induction es arbitrary: ls)
    case (Cons e es)
    then show ?case using step [of "snd ls" "fst ls" e] by simp
  qed simp
  then show ?thesis by (simp add: fontsOk_def emptyStream_def)
qed

end
