(* ===== verification/SubtitleScan.thy ===== *)
theory SubtitleScan
  imports Subtitles ByteTap
begin

text \<open>
  Where a room's subtitles come from (\<open>pipeline/subtitlePublish.ts\<close>): sibling
  files read whole, and the sequential pass over the video, which rides the
  remux's byte tap (theory ByteTap) and reads for itself when the tap runs dry.
  The pass is one step per promise it awaits: a pull of the tap, a sleep, a read
  of its own. What the remux offers the tap meanwhile, the tap's idle timer and
  its closing are events of the same run.
\<close>

definition MAX_EXTERNAL_SUBTITLES :: nat where "MAX_EXTERNAL_SUBTITLES = 16"

definition SUBTITLE_SNAPSHOT_MS :: int where "SUBTITLE_SNAPSHOT_MS = 8000"

definition SUBTITLE_SLICE_BYTES :: int where "SUBTITLE_SLICE_BYTES = 8 * 1024 * 1024"

definition SCAN_HOLDOFF_MAX_MS :: int where "SCAN_HOLDOFF_MAX_MS = 45000"

definition SCAN_PATIENCE_MS :: int where "SCAN_PATIENCE_MS = 60000"

section \<open>The pass over the video\<close>

text \<open>How a read the pass makes for itself ends; an abort says whether the reads are closed for good.\<close>

datatype scan_read = ReadBytes "nat list" | ReadAborted bool | ReadFailed

text \<open>What the pass does outside: a wait, its own read, bytes to the parser, a snapshot to the collector.\<close>

datatype scan_effect =
    Waited int
  | OwnRead int int
  | Wrote "nat list"
  | PublishedSnapshot

text \<open>Where the pass is: at the top of its loop, in one of its awaits, or over.\<close>

datatype scan_phase = ScanTop | ScanPulling | ScanSleeping | ScanReading | ScanDone | ScanFailed

record subtitle_scan =
  su_size :: nat
  su_tap :: "nat byte_tap option"
  su_offset :: nat
  su_lastSnapshotAt :: int
  su_published :: bool
  su_lastProgressAt :: int
  su_phase :: scan_phase
  su_log :: "scan_effect list"

definition startScan :: "nat \<Rightarrow> nat byte_tap option \<Rightarrow> int \<Rightarrow> subtitle_scan" where
  "startScan bytes tap now =
     \<lparr>su_size = bytes, su_tap = tap, su_offset = 0, su_lastSnapshotAt = now, su_published = False,
      su_lastProgressAt = now, su_phase = (if 0 < bytes then ScanTop else ScanDone), su_log = []\<rparr>"

definition does :: "scan_effect list \<Rightarrow> subtitle_scan \<Rightarrow> subtitle_scan" where
  "does effects s = s\<lparr>su_log := su_log s @ effects\<rparr>"

text \<open>The slice is taken: to the parser, and a snapshot when one is due.\<close>

definition takeSlice :: "nat list \<Rightarrow> int \<Rightarrow> subtitle_scan \<Rightarrow> subtitle_scan" where
  "takeSlice piece now s =
     (if piece = [] then s\<lparr>su_phase := ScanDone\<rparr>
      else
        let s = does [Wrote piece] (s\<lparr>su_offset := su_offset s + length piece, su_lastProgressAt := now\<rparr>);
            due = (if su_published s then SUBTITLE_SNAPSHOT_MS else 2000);
            s = (if due \<le> now - su_lastSnapshotAt s
                 then does [PublishedSnapshot] (s\<lparr>su_lastSnapshotAt := now, su_published := True\<rparr>) else s)
        in s\<lparr>su_phase := (if su_offset s < su_size s then ScanTop else ScanDone)\<rparr>)"

definition sliceEnd :: "subtitle_scan \<Rightarrow> int" where
  "sliceEnd s = min (int (su_offset s) + SUBTITLE_SLICE_BYTES) (int (su_size s))"

text \<open>
  No slice from the tap: wait while the origin is cold and within the holdoff,
  or while the tap rides a read and progress is recent, or read for itself.
\<close>

definition withoutSlice :: "bool \<Rightarrow> int \<Rightarrow> int \<Rightarrow> subtitle_scan \<Rightarrow> subtitle_scan" where
  "withoutSlice cold coldForMs now s =
     (if su_tap s \<noteq> None \<and> cold \<and> coldForMs < SCAN_HOLDOFF_MAX_MS
      then does [Waited 500] (s\<lparr>su_phase := ScanSleeping\<rparr>)
      else if (case su_tap s of None \<Rightarrow> False | Some tap \<Rightarrow> riding tap) \<and> now - su_lastProgressAt s < SCAN_PATIENCE_MS
      then does [Waited 250] (s\<lparr>su_phase := ScanSleeping\<rparr>)
      else does [OwnRead (int (su_offset s)) (sliceEnd s)] (s\<lparr>su_phase := ScanReading\<rparr>))"

text \<open>The top of the loop: a tap is pulled.\<close>

definition scanTurns :: "bool \<Rightarrow> int \<Rightarrow> int \<Rightarrow> subtitle_scan \<Rightarrow> subtitle_scan" where
  "scanTurns cold coldForMs now s =
     (case su_tap s of
        None \<Rightarrow> withoutSlice cold coldForMs now s
      | Some tap \<Rightarrow> s\<lparr>su_tap := Some (pullTap tap), su_phase := ScanPulling\<rparr>)"

text \<open>The pull answered, and the pass goes on.\<close>

definition pullAnswered :: "bool \<Rightarrow> int \<Rightarrow> int \<Rightarrow> subtitle_scan \<Rightarrow> subtitle_scan" where
  "pullAnswered cold coldForMs now s =
     (case su_tap s of
        None \<Rightarrow> s
      | Some tap \<Rightarrow>
          if bt_pull tap \<noteq> NoPull then s
          else (case last (bt_results tap) of
              Some piece \<Rightarrow> takeSlice piece now s
            | None \<Rightarrow> withoutSlice cold coldForMs now s))"

text \<open>Its own read ended; what it read is filled into the tap.\<close>

definition ownReadEnds :: "scan_read \<Rightarrow> int \<Rightarrow> subtitle_scan \<Rightarrow> subtitle_scan" where
  "ownReadEnds outcome now s =
     (case outcome of
        ReadBytes piece \<Rightarrow> takeSlice piece now (s\<lparr>su_tap := map_option (fillTap piece) (su_tap s)\<rparr>)
      | ReadAborted readClosed \<Rightarrow>
          if readClosed then s\<lparr>su_phase := ScanFailed\<rparr> else does [Waited 250] (s\<lparr>su_phase := ScanSleeping\<rparr>)
      | ReadFailed \<Rightarrow> s\<lparr>su_phase := ScanFailed\<rparr>)"

text \<open>What others do to the tap; the pulls and the fills are the pass's own.\<close>

fun othersDo :: "nat tap_event \<Rightarrow> bool" where
  "othersDo PullCalled = False"
| "othersDo (Filled bytes) = False"
| "othersDo e = True"

datatype scan_event =
    ScanTurns bool int int
  | PullAnswered bool int int
  | ScanSlept
  | OwnReadEnds scan_read int
  | TapDoes "nat tap_event"

fun scanStep :: "subtitle_scan \<Rightarrow> scan_event \<Rightarrow> subtitle_scan" where
  "scanStep s (ScanTurns cold coldForMs now) = (if su_phase s = ScanTop then scanTurns cold coldForMs now s else s)"
| "scanStep s (PullAnswered cold coldForMs now) =
     (if su_phase s = ScanPulling then pullAnswered cold coldForMs now s else s)"
| "scanStep s ScanSlept = (if su_phase s = ScanSleeping then s\<lparr>su_phase := ScanTop\<rparr> else s)"
| "scanStep s (OwnReadEnds outcome now) = (if su_phase s = ScanReading then ownReadEnds outcome now s else s)"
| "scanStep s (TapDoes e) = (if othersDo e then s\<lparr>su_tap := map_option (\<lambda>tap. tapStep tap e) (su_tap s)\<rparr> else s)"

text \<open>What the pass publishes when it is over: the tracks that carry cues, or none when it failed.\<close>

definition publishEmbedded :: "subtitle_scan \<Rightarrow> subtitle_stream \<Rightarrow> int \<Rightarrow> collector \<Rightarrow> collector" where
  "publishEmbedded s stream now c =
     (case su_phase s of
        ScanDone \<Rightarrow> flush (publishTracks ''embedded'' (collect True stream) True now c)
      | ScanFailed \<Rightarrow> flush (publishTracks ''embedded'' [] True now c)
      | _ \<Rightarrow> c)"

section \<open>Sibling files\<close>

record side_file =
  sf_path :: string
  sf_index :: "nat option"
  sf_url :: "string option"

text \<open>The address a side file is read from.\<close>

definition sideFileUrl :: "(nat \<Rightarrow> string) option \<Rightarrow> side_file \<Rightarrow> string" where
  "sideFileUrl sidecarUrl side =
     (case (sf_index side, sidecarUrl) of
        (Some index, Some url) \<Rightarrow> url index
      | _ \<Rightarrow> orElse (sf_url side) [])"

definition sideFileOk :: "nat \<Rightarrow> bool" where
  "sideFileOk status \<longleftrightarrow> 200 \<le> status \<and> status \<le> 299 \<or> status = 206"

text \<open>
  The files in turn, each read to its text, or not; a file that is no
  subtitle, or cannot be read, is passed over. The events for the collector
  are those of the code, in order.
\<close>

fun loadExternal ::
  "int \<Rightarrow> (string \<times> string option) list \<Rightarrow> vtt_track list \<Rightarrow> collector_event list" where
  "loadExternal now [] tracks = [PublishTracks ''external'' tracks True now, Flush]"
| "loadExternal now ((path, contents) # files) tracks =
     (case Option.bind contents (convertSubtitleText path) of
        None \<Rightarrow> loadExternal now files tracks
      | Some track \<Rightarrow>
          PublishTracks ''external'' (tracks @ [track]) False now # loadExternal now files (tracks @ [track]))"

definition registerAll :: "string \<Rightarrow> string option \<Rightarrow> 'f list \<Rightarrow> collector_event list" where
  "registerAll name type sideFiles =
     (if take MAX_EXTERNAL_SUBTITLES sideFiles \<noteq> [] then [Register ''external''] else [])
     @ (if isMatroska name type then [Register ''embedded''] else [])"

section \<open>The pass reads the file once\<close>

fun written :: "scan_effect list \<Rightarrow> nat list" where
  "written [] = []"
| "written (Wrote piece # es) = piece @ written es"
| "written (e # es) = written es"

lemma written_append [simp]: "written (xs @ ys) = written xs @ written ys"
  by (induction xs rule: written.induct) simp_all

text \<open>
  What the environment gives: a read made at an offset gives the file's bytes
  from there (all that was asked, or fewer), and the remux offers the tap what
  it read where it read it. \<open>content\<close> is the file. Nothing is said of the slices
  the tap answers with.
\<close>

definition honestScan :: "nat list \<Rightarrow> subtitle_scan \<Rightarrow> scan_event \<Rightarrow> bool" where
  "honestScan content s e =
     (case e of
        OwnReadEnds (ReadBytes piece) now \<Rightarrow> liesAt content (su_offset s) piece
      | TapDoes (Offered offset bytes) \<Rightarrow> liesAt content offset bytes
      | _ \<Rightarrow> True)"

text \<open>
  The tap's cursor beside the pass's offset: the same, except between the answer
  of a pull and the pass going on with it.
\<close>

definition tapAligned :: "nat list \<Rightarrow> scan_phase \<Rightarrow> nat \<Rightarrow> nat byte_tap \<Rightarrow> bool" where
  "tapAligned content phase offset tap \<longleftrightarrow>
     tapOk content tap
     \<and> (if phase = ScanPulling \<and> bt_pull tap = NoPull
        then bt_results tap \<noteq> []
          \<and> (case last (bt_results tap) of
                None \<Rightarrow> bt_at tap = offset
              | Some piece \<Rightarrow> piece \<noteq> [] \<and> liesAt content offset piece \<and> bt_at tap = offset + length piece)
        else bt_at tap = offset)
     \<and> (phase \<noteq> ScanPulling \<longrightarrow> bt_pull tap = NoPull)"

definition scanOk :: "nat list \<Rightarrow> subtitle_scan \<Rightarrow> bool" where
  "scanOk content s \<longleftrightarrow>
     su_size s = length content \<and> su_offset s \<le> length content
     \<and> written (su_log s) = take (su_offset s) content
     \<and> (case su_tap s of None \<Rightarrow> su_phase s \<noteq> ScanPulling | Some tap \<Rightarrow> tapAligned content (su_phase s) (su_offset s) tap)"

lemma pullTap_answers:
  assumes "tapOk content s"
  shows "bt_pull (pullTap s) = PullWaiting \<and> bt_at (pullTap s) = bt_at s
    \<or> bt_pull (pullTap s) = NoPull \<and> (\<exists>r. bt_results (pullTap s) = bt_results s @ [r]
        \<and> (case r of None \<Rightarrow> bt_at (pullTap s) = bt_at s
            | Some piece \<Rightarrow> piece \<noteq> [] \<and> liesAt content (bt_at s) piece \<and> bt_at (pullTap s) = bt_at s + length piece))"
proof -
  obtain parts t where loop: "drainLoop 0 s = (parts, t)" by (cases "drainLoop 0 s") auto
  note eff = drainLoop_effect [OF assms loop]
  have results: "bt_results t = bt_results s" by (rule drainLoop_results [OF loop])
  show ?thesis
  proof (cases "concat parts = []")
    case True
    then have "drain s = (None, t)" using loop by (simp add: drain_def)
    with eff results True show ?thesis by (simp add: pullTap_def answerPull_def)
  next
    case False
    then have "drain s = (Some (concat parts), prune t)" using loop by (simp add: drain_def)
    with eff results False show ?thesis by (simp add: pullTap_def answerPull_def prune_def Let_def)
  qed
qed

lemma pullTap_aligned:
  assumes "tapOk content tap" and "bt_at tap = offset"
  shows "tapAligned content ScanPulling offset (pullTap tap)"
proof -
  have "tapOk content (pullTap tap)" using pullTap_hands [OF assms(1)] by (simp add: tapHands_def)
  with pullTap_answers [OF assms(1)] assms(2) show ?thesis
    by (auto simp: tapAligned_def split: option.splits)
qed

lemma answerNone_aligned:
  "tapOk content tap \<Longrightarrow> bt_at tap = offset \<Longrightarrow> tapAligned content ScanPulling offset (answerPull None tap)"
  by (simp add: tapAligned_def) (simp add: answerPull_def)

lemma wakeTap_aligned: "tapAligned content phase offset tap \<Longrightarrow> tapAligned content phase offset (wakeTap woken tap)"
  by (auto simp: tapAligned_def wakeTap_def tapOk_def)

lemma others_aligned:
  assumes ok: "tapAligned content phase offset tap" and others: "othersDo e"
    and honest: "\<And>pos bytes. e = Offered pos bytes \<Longrightarrow> liesAt content pos bytes"
  shows "tapAligned content phase offset (tapStep tap e)"
proof (cases e)
  case (Offered pos bytes)
  have tap: "tapOk content tap" using ok by (simp add: tapAligned_def)
  note eff = offer_effect [OF tap honest [OF Offered]]
  have rest: "bt_results (offer pos bytes tap) = bt_results tap"
    "bt_pull (offer pos bytes tap) = bt_pull tap \<or> bt_pull tap = PullWaiting \<and> bt_pull (offer pos bytes tap) = PullWoken True"
    by (auto simp: offer_def hold_def wakeTap_def Let_def)
  show ?thesis
  proof (cases "bt_pull (offer pos bytes tap) = bt_pull tap")
    case True
    have "tapAligned content phase offset (offer pos bytes tap) = tapAligned content phase offset tap"
      using tap unfolding tapAligned_def by (simp only: eff(1,2) rest(1) True simp_thms)
    with ok show ?thesis by (simp add: Offered)
  next
    case False
    then have "bt_pull tap = PullWaiting" "bt_pull (offer pos bytes tap) = PullWoken True" using rest(2) by simp_all
    with ok show ?thesis by (simp add: Offered tapAligned_def eff(1,2))
  qed
next
  case PullResumed
  have tap: "tapOk content tap" using ok by (simp add: tapAligned_def)
  show ?thesis
  proof (cases "bt_pull tap")
    case (PullWoken woken)
    then have "phase = ScanPulling" "bt_at tap = offset" using ok by (auto simp: tapAligned_def split: if_splits)
    with tap PullResumed PullWoken pullTap_aligned answerNone_aligned show ?thesis
      by (cases woken) (simp_all add: resumePull_def)
  qed (use ok PullResumed in \<open>simp_all add: resumePull_def\<close>)
next
  case IdleFired
  with ok show ?thesis by (simp add: wakeTap_aligned)
next
  case TapClosed
  have "tapAligned content phase offset (tap\<lparr>bt_done := True, bt_pending := [], bt_buffered := 0\<rparr>)"
    using ok by (auto simp: tapAligned_def tapOk_def split: option.splits)
  with TapClosed show ?thesis by (simp add: closeTap_def wakeTap_aligned)
qed (use others in simp_all)

lemma does_fields [simp]:
  "su_offset (does es s) = su_offset s" "su_tap (does es s) = su_tap s" "su_size (does es s) = su_size s"
  "su_phase (does es s) = su_phase s" "su_log (does es s) = su_log s @ es" "su_published (does es s) = su_published s"
  "su_lastSnapshotAt (does es s) = su_lastSnapshotAt s"
  by (simp_all add: does_def)

lemma take_liesAt: "liesAt content offset piece \<Longrightarrow> take offset content @ piece = take (offset + length piece) content"
  unfolding liesAt_def by (metis take_add)

text \<open>A pass with the bytes it was handed written, beside a tap that is already past them.\<close>

lemma takeSlice_ok:
  assumes "su_size s = length content" and "su_offset s \<le> length content"
    and "written (su_log s) = take (su_offset s) content" and lies: "liesAt content (su_offset s) piece"
    and tap: "\<And>tap. su_tap s = Some tap \<Longrightarrow>
      tapOk content tap \<and> bt_pull tap = NoPull \<and> bt_at tap = su_offset s + length piece"
  shows "scanOk content (takeSlice piece now s)"
proof (cases "piece = []")
  case True
  with assms show ?thesis by (auto simp: takeSlice_def scanOk_def tapAligned_def split: option.split)
next
  case False
  have "su_offset s + length piece \<le> length content" by (rule liesAt_bound [OF lies False])
  with False assms(1,3) take_liesAt [OF lies] tap show ?thesis
    by (auto simp: takeSlice_def scanOk_def tapAligned_def Let_def split: option.split)
qed

lemma scanOk_phase:
  assumes "scanOk content s" and "su_phase s \<noteq> ScanPulling" and "phase \<noteq> ScanPulling" and "written es = []"
  shows "scanOk content (does es (s\<lparr>su_phase := phase\<rparr>))"
  using assms by (auto simp: scanOk_def tapAligned_def split: option.splits)

lemma withoutSlice_ok:
  assumes "su_size s = length content" and "su_offset s \<le> length content"
    and "written (su_log s) = take (su_offset s) content"
    and "\<And>tap. su_tap s = Some tap \<Longrightarrow> tapOk content tap \<and> bt_pull tap = NoPull \<and> bt_at tap = su_offset s"
  shows "scanOk content (withoutSlice cold coldForMs now s)"
  using assms by (auto simp: withoutSlice_def scanOk_def tapAligned_def split: option.splits)

lemma scanOkD:
  assumes "scanOk content s"
  shows "su_size s = length content" "su_offset s \<le> length content" "written (su_log s) = take (su_offset s) content"
    and "\<And>tap. su_tap s = Some tap \<Longrightarrow> tapAligned content (su_phase s) (su_offset s) tap"
    and "su_tap s = None \<Longrightarrow> su_phase s \<noteq> ScanPulling"
  using assms by (auto simp: scanOk_def)

lemma fillTap_after:
  assumes "tapOk content tap" and "bt_pull tap = NoPull"
  shows "tapOk content (fillTap piece tap) \<and> bt_pull (fillTap piece tap) = NoPull
    \<and> bt_at (fillTap piece tap) = bt_at tap + length piece"
proof -
  have "tapOk content (tap\<lparr>bt_at := bt_at tap + length piece, bt_seen := bt_seen tap @ [piece]\<rparr>)"
    using assms(1) by (simp add: tapOk_def)
  from prune_effect(1) [OF this] assms(2) show ?thesis by (simp add: fillTap_def prune_def Let_def)
qed

lemma scanTurns_ok:
  assumes ok: "scanOk content s" and top: "su_phase s = ScanTop"
  shows "scanOk content (scanTurns cold coldForMs now s)"
proof (cases "su_tap s")
  case None
  then have "scanOk content (withoutSlice cold coldForMs now s)"
    by (intro withoutSlice_ok scanOkD(1-3) [OF ok]) simp
  with None show ?thesis by (simp add: scanTurns_def)
next
  case (Some tap)
  have "tapOk content tap" "bt_at tap = su_offset s"
    using scanOkD(4) [OF ok Some] top by (simp_all add: tapAligned_def)
  from pullTap_aligned [OF this] scanOkD(1-3) [OF ok] Some show ?thesis by (simp add: scanTurns_def scanOk_def)
qed

lemma pullAnswered_ok:
  assumes ok: "scanOk content s" and pulling: "su_phase s = ScanPulling"
  shows "scanOk content (pullAnswered cold coldForMs now s)"
proof (cases "su_tap s")
  case None
  with scanOkD(5) [OF ok] pulling show ?thesis by simp
next
  case (Some tap)
  note aligned = scanOkD(4) [OF ok Some, unfolded pulling]
  show ?thesis
  proof (cases "bt_pull tap = NoPull")
    case False
    with Some ok show ?thesis by (simp add: pullAnswered_def)
  next
    case True
    show ?thesis
    proof (cases "last (bt_results tap)")
      case None
      then have "scanOk content (withoutSlice cold coldForMs now s)"
        using Some True aligned by (intro withoutSlice_ok scanOkD(1-3) [OF ok]) (simp add: tapAligned_def)
      with None Some True show ?thesis by (simp add: pullAnswered_def)
    next
      case piece: (Some piece)
      then have "scanOk content (takeSlice piece now s)"
        using Some True aligned by (intro takeSlice_ok scanOkD(1-3) [OF ok]) (simp_all add: tapAligned_def)
      with piece Some True show ?thesis by (simp add: pullAnswered_def)
    qed
  qed
qed

lemma ownReadEnds_ok:
  assumes ok: "scanOk content s" and reading: "su_phase s = ScanReading"
    and honest: "\<And>piece. outcome = ReadBytes piece \<Longrightarrow> liesAt content (su_offset s) piece"
  shows "scanOk content (ownReadEnds outcome now s)"
proof (cases outcome)
  case (ReadBytes piece)
  have "tapOk content (fillTap piece tap) \<and> bt_pull (fillTap piece tap) = NoPull
      \<and> bt_at (fillTap piece tap) = su_offset s + length piece" if "su_tap s = Some tap" for tap
    using fillTap_after [of content tap piece] scanOkD(4) [OF ok that] reading by (simp add: tapAligned_def)
  then show ?thesis
    using ReadBytes honest scanOkD(1-3) [OF ok] unfolding ownReadEnds_def
    by (simp, intro takeSlice_ok) auto
next
  case (ReadAborted readClosed)
  have "scanOk content (does es (s\<lparr>su_phase := phase\<rparr>))" if "phase \<noteq> ScanPulling" "written es = []" for es phase
    using scanOk_phase [OF ok _ that] reading by simp
  from this [of ScanFailed "[]"] this [of ScanSleeping "[Waited 250]"] ReadAborted show ?thesis
    by (simp add: ownReadEnds_def) (simp add: does_def)
next
  case ReadFailed
  with scanOk_phase [OF ok, of ScanFailed "[]"] reading show ?thesis by (simp add: ownReadEnds_def does_def)
qed

lemma scanOk_step [keeps]:
  assumes ok: "scanOk content s" and honest: "honestScan content s e"
  shows "scanOk content (scanStep s e)"
proof (cases e)
  case (ScanTurns cold coldForMs now)
  with ok show ?thesis by (simp add: scanTurns_ok)
next
  case (PullAnswered cold coldForMs now)
  with ok show ?thesis by (simp add: pullAnswered_ok)
next
  case ScanSlept
  with ok scanOk_phase [OF ok, of ScanTop "[]"] show ?thesis by (simp add: does_def)
next
  case (OwnReadEnds outcome now)
  with ok honest show ?thesis by (auto simp: honestScan_def intro!: ownReadEnds_ok)
next
  case (TapDoes te)
  show ?thesis
  proof (cases "othersDo te \<and> su_tap s \<noteq> None")
    case True
    then obtain tap where tap: "su_tap s = Some tap" by auto
    have "tapAligned content (su_phase s) (su_offset s) (tapStep tap te)"
      using scanOkD(4) [OF ok tap] True honest TapDoes by (intro others_aligned) (auto simp: honestScan_def)
    with scanOkD(1-3) [OF ok] TapDoes True tap show ?thesis by (simp add: scanOk_def)
  next
    case False
    have "scanStep s e = s"
    proof (cases "othersDo te")
      case True
      then have "su_tap s = None" using False by simp
      then have "s\<lparr>su_tap := None\<rparr> = s" by (cases s) simp
      with True TapDoes \<open>su_tap s = None\<close> show ?thesis by simp
    qed (simp add: TapDoes)
    with ok show ?thesis by simp
  qed
qed

interpretation scan: guarded_component scanStep "honestScan content" "scanOk content" for content
  by unfold_locales (rule scanOk_step)

lemma scanOk_start: "scanOk content (startScan (length content) (map_option newTap buffer) now)"
  by (auto simp: scanOk_def startScan_def tapAligned_def newTap_def tapOk_def split: option.split)

text \<open>A pass that is over without a failure read to the end, unless a read of its own came back empty.\<close>

fun emptyRead :: "scan_event \<Rightarrow> bool" where
  "emptyRead (OwnReadEnds (ReadBytes piece) now) = (piece = [])"
| "emptyRead e = False"

lemma done_step:
  assumes ok: "scanOk content s" and over: "su_phase (scanStep s e) = ScanDone" and "su_phase s \<noteq> ScanDone"
    and "\<not> emptyRead e"
  shows "su_size s \<le> su_offset (scanStep s e)"
proof (cases e)
  case (ScanTurns cold coldForMs now)
  with assms show ?thesis by (auto simp: scanTurns_def withoutSlice_def split: if_splits option.splits)
next
  case (PullAnswered cold coldForMs now)
  have pulling: "su_phase s = ScanPulling" using PullAnswered over assms(3) by (simp split: if_splits)
  then obtain tap where tap: "su_tap s = Some tap" using scanOkD(5) [OF ok] by (cases "su_tap s") auto
  have "bt_pull tap = NoPull \<Longrightarrow> last (bt_results tap) \<noteq> Some []"
    using scanOkD(4) [OF ok tap] pulling by (auto simp: tapAligned_def split: option.splits)
  with PullAnswered pulling tap assms show ?thesis
    by (auto simp: pullAnswered_def withoutSlice_def takeSlice_def Let_def split: if_splits option.splits)
next
  case ScanSlept
  with assms show ?thesis by (simp split: if_splits)
next
  case (OwnReadEnds outcome now)
  with assms show ?thesis
    by (cases outcome) (auto simp: ownReadEnds_def takeSlice_def Let_def split: if_splits)
next
  case (TapDoes te)
  with assms show ?thesis by (simp split: if_splits)
qed

lemma phase_done_stays:
  "su_phase s = ScanDone \<Longrightarrow> su_phase (scanStep s e) = ScanDone \<and> su_offset (scanStep s e) = su_offset s"
  by (cases e) simp_all

text \<open>
  C17: the parser is given the file from its start to the pass's offset, once
  and in order, whatever mixture of the tap and its own reads the pass is fed
  from: whatever the remux offers the tap in whatever order, overlaps and holes,
  however offers, wakes, time-outs and the tap's closing fall between the awaits
  of the pass, and whichever of its reads are short or aborted. That the tap
  answers with the bytes at the pass's offset is not assumed: it follows from
  the pass filling the tap with what it reads itself. And a pass that ended
  without a failure has read the file to its end, unless one of its own reads
  came back empty.
\<close>

theorem scan_feeds_file_in_order:
  fixes content :: "nat list" and buffer :: "nat option" and now :: int and es :: "scan_event list"
  defines "start \<equiv> startScan (length content) (map_option newTap buffer) now"
  assumes "along scanStep (honestScan content) start es"
  shows "written (su_log (foldl scanStep start es)) = take (su_offset (foldl scanStep start es)) content
    \<and> su_offset (foldl scanStep start es) \<le> length content
    \<and> (su_phase (foldl scanStep start es) = ScanDone \<and> \<not> list_ex emptyRead es \<longrightarrow>
        written (su_log (foldl scanStep start es)) = content)"
proof -
  have ok: "scanOk content (foldl scanStep start fs)" if "along scanStep (honestScan content) start fs" for fs
    using scan.run_keeps [OF scanOk_start that [unfolded start_def]] by (simp add: start_def)
  have "su_phase (foldl scanStep start es) = ScanDone \<Longrightarrow> \<not> list_ex emptyRead es \<Longrightarrow>
      length content \<le> su_offset (foldl scanStep start es)"
    using assms(2)
  proof (induction es rule: rev_induct)
    case Nil
    then show ?case by (simp add: start_def startScan_def split: if_splits)
  next
    case (snoc e es)
    let ?s = "foldl scanStep start es"
    have s: "scanOk content ?s" using snoc.prems(3) by (intro ok) (simp add: along_append)
    show ?case
    proof (cases "su_phase ?s = ScanDone")
      case True
      with snoc show ?thesis using phase_done_stays [OF True, of e] by (simp add: along_append)
    next
      case False
      with snoc.prems done_step [OF s, of e] scanOkD(1) [OF s] show ?thesis by simp
    qed
  qed
  with scanOkD(2,3) [OF ok [OF assms(2)]] show ?thesis by auto
qed

text \<open>
  A file of six bytes. A pull that waits is woken by an offer; then a hole, which
  the pass reads itself while the remux offers past it; the tap hands the rest.
\<close>

definition sampleScan :: "scan_event list" where
  "sampleScan =
     [ScanTurns False 0 1, TapDoes (Offered 3 [13, 14, 15]), TapDoes (Offered 0 [10, 11]), TapDoes PullResumed,
      PullAnswered False 0 2, ScanTurns False 0 3, TapDoes IdleFired, TapDoes PullResumed, PullAnswered True 9 4,
      ScanSlept, ScanTurns False 0 70000, TapDoes IdleFired, TapDoes PullResumed, PullAnswered False 0 70001,
      OwnReadEnds (ReadBytes [12]) 70002, ScanTurns False 0 70003, PullAnswered False 0 70004]"

theorem scan_feeds_file_in_order_witness:
  "written (su_log (foldl scanStep (startScan 6 (Some (newTap 100)) 0) sampleScan)) = [10, 11, 12, 13, 14, 15]"
proof -
  let ?content = "[10, 11, 12, 13, 14, 15 :: nat]"
  have run: "along scanStep (honestScan ?content) (startScan (length ?content) (map_option newTap (Some 100)) 0) sampleScan"
    by code_simp
  have "su_phase (foldl scanStep (startScan (length ?content) (map_option newTap (Some 100)) 0) sampleScan) = ScanDone"
    "\<not> list_ex emptyRead sampleScan"
    by code_simp+
  with scan_feeds_file_in_order [OF run]
  have "written (su_log (foldl scanStep (startScan (length ?content) (map_option newTap (Some 100)) 0) sampleScan)) = ?content"
    by blast
  moreover have "startScan (length ?content) (map_option newTap (Some 100)) 0 = startScan 6 (Some (newTap 100)) 0"
    by (simp add: numeral_eq_Suc)
  ultimately show ?thesis by simp
qed

text \<open>
  The pass is patient but not for ever: with nothing from the tap it reads for
  itself once the holdoff of a cold origin and its patience are over.
\<close>

lemma waits_are_bounded:
  assumes "SCAN_HOLDOFF_MAX_MS \<le> coldForMs" and "su_lastProgressAt s + SCAN_PATIENCE_MS \<le> now"
  shows "withoutSlice cold coldForMs now s = does [OwnRead (int (su_offset s)) (sliceEnd s)] (s\<lparr>su_phase := ScanReading\<rparr>)"
  using assms by (simp add: withoutSlice_def)

end
