(* ===== verification/Posting.thy ===== *)
theory Posting
  imports Prelude JsText
begin

text \<open>
  Two helpers of the pipeline: the POST that waits out a server's bad moment
  (\<open>pipeline/postJson.ts\<close>), its answers and the abort signal being arguments,
  and the trace of a seek (\<open>pipeline/seekTrace.ts\<close>), whose clock is one.
\<close>

section \<open>A POST that is tried again (postJson.ts)\<close>

definition transient :: "nat \<Rightarrow> bool" where
  "transient status \<longleftrightarrow> 500 \<le> status \<or> status = 429"

definition POST_ATTEMPTS :: nat where "POST_ATTEMPTS = 5"

definition POST_BACKOFF_MS :: int where "POST_BACKOFF_MS = 400"

definition POST_BACKOFF_CAP_MS :: int where "POST_BACKOFF_CAP_MS = 5000"

definition postBackoff :: "int \<Rightarrow> nat \<Rightarrow> int" where
  "postBackoff backoffMs attempt = min POST_BACKOFF_CAP_MS (backoffMs * 2 ^ (attempt - 1))"

text \<open>
  What attempt number \<open>n\<close> meets: whether the signal is aborted after the wait
  before it, its outcome, and whether the signal is aborted when it throws.
\<close>

datatype post_outcome = Responded nat | Dropped string

record attempt =
  ap_abortedAfterWait :: bool
  ap_outcome :: post_outcome
  ap_abortedInFlight :: bool

datatype post_result = Response nat | Threw string

definition ok2xx :: "nat \<Rightarrow> bool" where
  "ok2xx status \<longleftrightarrow> 200 \<le> status \<and> status \<le> 299"

definition survivor :: "string \<Rightarrow> nat option \<Rightarrow> string option \<Rightarrow> post_result" where
  "survivor url lastResponse lastError =
     (case lastResponse of
        Some status \<Rightarrow> Response status
      | None \<Rightarrow> Threw (orElse lastError (''post failed: '' @ url)))"

text \<open>The result, and the waits made on the way; \<open>left\<close> attempts remain.\<close>

fun postLoop ::
  "string \<Rightarrow> int \<Rightarrow> (nat \<Rightarrow> attempt) \<Rightarrow> nat \<Rightarrow> nat \<Rightarrow> nat option \<Rightarrow> string option \<Rightarrow> post_result \<times> int list" where
  "postLoop url backoffMs meets 0 attempt lastResponse lastError = (survivor url lastResponse lastError, [])"
| "postLoop url backoffMs meets (Suc left) attempt lastResponse lastError =
     (let waits = (if 0 < attempt then [postBackoff backoffMs attempt] else [])
      in if 0 < attempt \<and> ap_abortedAfterWait (meets attempt)
         then (survivor url lastResponse lastError, waits)
         else case ap_outcome (meets attempt) of
             Responded status \<Rightarrow>
               if ok2xx status \<or> \<not> transient status then (Response status, waits)
               else let (result, later) = postLoop url backoffMs meets left (Suc attempt) (Some status) lastError
                    in (result, waits @ later)
           | Dropped error \<Rightarrow>
               if ap_abortedInFlight (meets attempt) then (Threw error, waits)
               else let (result, later) = postLoop url backoffMs meets left (Suc attempt) lastResponse (Some error)
                    in (result, waits @ later))"

definition postJson ::
  "string \<Rightarrow> nat option \<Rightarrow> int option \<Rightarrow> (nat \<Rightarrow> attempt) \<Rightarrow> post_result \<times> int list" where
  "postJson url attempts backoffMs meets =
     postLoop url (orElse backoffMs POST_BACKOFF_MS) meets (orElse attempts POST_ATTEMPTS) 0 None None"

text \<open>An attempt that ends the call: the server's endsCall, or the caller's abort.\<close>

definition endsCall :: "attempt \<Rightarrow> bool" where
  "endsCall a \<longleftrightarrow>
     (case ap_outcome a of Responded status \<Rightarrow> \<not> transient status | Dropped error \<Rightarrow> ap_abortedInFlight a)"

definition resultOf :: "attempt \<Rightarrow> post_result" where
  "resultOf a = (case ap_outcome a of Responded status \<Rightarrow> Response status | Dropped error \<Rightarrow> Threw error)"

lemma ok_not_transient: "ok2xx status \<Longrightarrow> \<not> transient status"
  by (simp add: ok2xx_def transient_def)

definition waitsBefore :: "int \<Rightarrow> nat \<Rightarrow> int list" where
  "waitsBefore backoffMs attempt = (if 0 < attempt then [postBackoff backoffMs attempt] else [])"

lemma postLoop_step:
  assumes "0 < attempt \<longrightarrow> \<not> ap_abortedAfterWait (meets attempt)"
  shows "postLoop url b meets (Suc left) attempt r e =
    (if endsCall (meets attempt) then (resultOf (meets attempt), waitsBefore b attempt)
     else let rest = (case ap_outcome (meets attempt) of
            Responded status \<Rightarrow> postLoop url b meets left (Suc attempt) (Some status) e
          | Dropped error \<Rightarrow> postLoop url b meets left (Suc attempt) r (Some error))
       in (fst rest, waitsBefore b attempt @ snd rest))"
  using assms ok_not_transient
  by (auto simp: endsCall_def resultOf_def waitsBefore_def Let_def case_prod_unfold split: post_outcome.splits)

lemma postLoop_verdict:
  assumes "\<And>n. attempt \<le> n \<Longrightarrow> n < attempt + k \<Longrightarrow> \<not> endsCall (meets n)" and "endsCall (meets (attempt + k))"
    and "\<And>n. 0 < n \<Longrightarrow> n \<le> attempt + k \<Longrightarrow> \<not> ap_abortedAfterWait (meets n)" and "k < left"
  shows "postLoop url b meets left attempt r e
    = (resultOf (meets (attempt + k)), concat (map (waitsBefore b) [attempt..<attempt + Suc k]))"
  using assms
proof (induction k arbitrary: attempt left r e)
  case 0
  then obtain l where "left = Suc l" by (cases left) auto
  moreover have "0 < attempt \<longrightarrow> \<not> ap_abortedAfterWait (meets attempt)" using 0(3) [of attempt] by simp
  ultimately show ?case using 0(2) by (simp add: postLoop_step del: postLoop.simps)
next
  case (Suc k)
  then obtain l where l: "left = Suc l" by (cases left) auto
  have "postLoop url b meets l (Suc attempt) r' e'
      = (resultOf (meets (attempt + Suc k)), concat (map (waitsBefore b) [Suc attempt..<attempt + Suc (Suc k)]))" for r' e'
    using Suc.IH [of "Suc attempt" l r' e'] Suc.prems l by simp
  moreover have "[attempt..<attempt + Suc (Suc k)] = attempt # [Suc attempt..<attempt + Suc (Suc k)]"
    by (subst upt_conv_Cons) auto
  moreover have "\<not> endsCall (meets attempt)" "0 < attempt \<longrightarrow> \<not> ap_abortedAfterWait (meets attempt)" using Suc.prems by auto
  ultimately show ?case
    unfolding l by (simp add: postLoop_step Let_def del: upt_Suc postLoop.simps split: post_outcome.splits)
qed

text \<open>C18: a POST that nobody aborts while it waits comes back with the first endsCall among its attempts, after exactly the posts up to it, each but the first after its own wait: transient answers and lost connections before it leave no trace in the result.\<close>

theorem post_comes_back_with_first_verdict:
  assumes "\<And>n. n < k \<Longrightarrow> \<not> endsCall (meets n)" and "endsCall (meets k)"
    and "\<And>n. 0 < n \<Longrightarrow> n \<le> k \<Longrightarrow> \<not> ap_abortedAfterWait (meets n)" and "k < orElse attempts POST_ATTEMPTS"
  shows "postJson url attempts backoffMs meets
    = (resultOf (meets k), map (postBackoff (orElse backoffMs POST_BACKOFF_MS)) [1..<Suc k])"
proof -
  have waits: "concat (map (waitsBefore b) [0..<Suc k]) = map (postBackoff b) [1..<Suc k]" for b
  proof -
    have "[0..<Suc k] = 0 # [1..<Suc k]" by (subst upt_conv_Cons) auto
    moreover have "concat (map (waitsBefore b) [1..<n]) = map (postBackoff b) [1..<n]" for n
      by (induction n) (auto simp: waitsBefore_def)
    ultimately show ?thesis by (simp add: waitsBefore_def del: upt_Suc)
  qed
  show ?thesis
    using postLoop_verdict [of 0 k meets "orElse attempts POST_ATTEMPTS" url "orElse backoffMs POST_BACKOFF_MS" None None]
      assms waits by (simp add: postJson_def)
qed

text \<open>A restart of the server during the first two attempts.\<close>

definition restarting :: "nat \<Rightarrow> attempt" where
  "restarting n =
     \<lparr>ap_abortedAfterWait = False,
      ap_outcome = (if n = 0 then Dropped ''gone'' else if n = 1 then Responded 502 else Responded 409),
      ap_abortedInFlight = False\<rparr>"

theorem post_comes_back_with_first_verdict_witness:
  "postJson ''/claim'' None None restarting = (Response 409, [400, 800])"
proof -
  have "postJson ''/claim'' None None restarting
      = (resultOf (restarting 2), map (postBackoff (orElse None POST_BACKOFF_MS)) [1..<Suc 2])"
    by (rule post_comes_back_with_first_verdict)
      (auto simp: restarting_def endsCall_def transient_def POST_ATTEMPTS_def)
  then show ?thesis
    by (simp add: restarting_def resultOf_def postBackoff_def POST_BACKOFF_CAP_MS_def POST_BACKOFF_MS_def upt_rec)
qed

lemma postLoop_waits: "left > 0 \<Longrightarrow> length (snd (postLoop url b meets left attempt r e)) \<le> (if 0 < attempt then left else left - 1)
    \<and> list_all (\<lambda>w. w \<le> POST_BACKOFF_CAP_MS) (snd (postLoop url b meets left attempt r e))"
proof (induction left arbitrary: attempt r e)
  case (Suc left)
  have later: "length (snd (postLoop url b meets left (Suc attempt) r' e')) \<le> left
      \<and> list_all (\<lambda>w. w \<le> POST_BACKOFF_CAP_MS) (snd (postLoop url b meets left (Suc attempt) r' e'))" for r' e'
    using Suc.IH [of "Suc attempt" r' e'] by (cases left) auto
  show ?case
    using later by (auto simp: Let_def postBackoff_def split: post_outcome.splits prod.splits) (metis snd_conv)+
qed simp

section \<open>The trace of a seek (seekTrace.ts)\<close>

text \<open>A note is a number or a string, as it is printed.\<close>

record seek_trace =
  sk_seq :: nat
  sk_targetMs :: int
  sk_marks :: "(string, int) jsmap"
  sk_notes :: "(string, string) jsmap"

record tracer =
  tr_current :: "(seek_trace \<times> rat) option"
  tr_seq :: nat
  tr_sunk :: "seek_trace list"

definition createSeekTracer :: tracer where
  "createSeekTracer = \<lparr>tr_current = None, tr_seq = 0, tr_sunk = []\<rparr>"

definition endTrace :: "tracer \<Rightarrow> tracer" where
  "endTrace t =
     (case tr_current t of
        None \<Rightarrow> t
      | Some (trace, startedAt) \<Rightarrow> t\<lparr>tr_current := None, tr_sunk := tr_sunk t @ [trace]\<rparr>)"

definition beginTrace :: "int \<Rightarrow> rat \<Rightarrow> tracer \<Rightarrow> tracer" where
  "beginTrace targetMs now t =
     (let t = endTrace t;
          seq = Suc (tr_seq t)
      in t\<lparr>tr_seq := seq,
           tr_current := Some (\<lparr>sk_seq = seq, sk_targetMs = targetMs, sk_marks = [], sk_notes = []\<rparr>, now)\<rparr>)"

definition markTrace :: "string \<Rightarrow> string option \<Rightarrow> rat \<Rightarrow> tracer \<Rightarrow> tracer" where
  "markTrace name note now t =
     (case tr_current t of
        None \<Rightarrow> t
      | Some (trace, startedAt) \<Rightarrow>
          if mapGet (sk_marks trace) name \<noteq> None then t
          else
            let trace = trace\<lparr>sk_marks := mapSet name (js_round (now - startedAt)) (sk_marks trace)\<rparr>;
                trace = (case note of None \<Rightarrow> trace
                  | Some value \<Rightarrow> trace\<lparr>sk_notes := mapSet name value (sk_notes trace)\<rparr>)
            in t\<lparr>tr_current := Some (trace, startedAt)\<rparr>)"

definition openTrace :: "tracer \<Rightarrow> bool" where
  "openTrace t \<longleftrightarrow> tr_current t \<noteq> None"

definition hasMark :: "string \<Rightarrow> tracer \<Rightarrow> bool" where
  "hasMark name t =
     (case tr_current t of None \<Rightarrow> False | Some (trace, startedAt) \<Rightarrow> mapGet (sk_marks trace) name \<noteq> None)"

definition formatMark :: "seek_trace \<Rightarrow> string \<times> int \<Rightarrow> string" where
  "formatMark trace mark =
     (fst mark @ ''='' @ decInt (snd mark)
        @ (case mapGet (sk_notes trace) (fst mark) of None \<Rightarrow> [] | Some note \<Rightarrow> ''('' @ note @ '')''))"

definition formatSeekTrace :: "string \<Rightarrow> seek_trace \<Rightarrow> string" where
  "formatSeekTrace side trace =
     ''[seek-trace] '' @ side @ '' #'' @ dec (sk_seq trace) @ '' target='' @ decInt (sk_targetMs trace) @ ''ms ''
       @ joinWith '' '' (map (formatMark trace) (sk_marks trace))"

datatype tracer_event = BeginTrace int rat | MarkTrace string "string option" rat | EndTrace

fun tracerStep :: "tracer \<Rightarrow> tracer_event \<Rightarrow> tracer" where
  "tracerStep t (BeginTrace targetMs now) = beginTrace targetMs now t"
| "tracerStep t (MarkTrace name note now) = markTrace name note now t"
| "tracerStep t EndTrace = endTrace t"

text \<open>Every seek begun is one trace: closed once, in order, or the open one.\<close>

definition traces :: "tracer \<Rightarrow> seek_trace list" where
  "traces t = tr_sunk t @ (case tr_current t of None \<Rightarrow> [] | Some (trace, startedAt) \<Rightarrow> [trace])"

definition tracerOk :: "tracer \<Rightarrow> bool" where
  "tracerOk t \<longleftrightarrow> map sk_seq (traces t) = [1..<Suc (tr_seq t)]"

lemma traces_end [simp]: "traces (endTrace t) = traces t" "tr_seq (endTrace t) = tr_seq t"
  "tr_current (endTrace t) = None"
  by (auto simp: traces_def endTrace_def split: option.splits)

lemma tracerStep_keeps [keeps]: "tracerOk t \<Longrightarrow> tracerOk (tracerStep t e)"
proof (cases e)
  case (BeginTrace targetMs now)
  assume "tracerOk t"
  moreover have "traces (beginTrace targetMs now t)
      = traces t @ [\<lparr>sk_seq = Suc (tr_seq t), sk_targetMs = targetMs, sk_marks = [], sk_notes = []\<rparr>]"
    using traces_end(1) [of t] by (simp add: beginTrace_def Let_def traces_def)
  ultimately show ?thesis using BeginTrace by (simp add: tracerOk_def beginTrace_def Let_def)
next
  case (MarkTrace name v now)
  assume "tracerOk t"
  then show ?thesis using MarkTrace
    by (auto simp: tracerOk_def traces_def markTrace_def Let_def simp del: upt_Suc split: option.splits)
next
  case EndTrace
  assume "tracerOk t"
  then show ?thesis using EndTrace by (simp add: tracerOk_def)
qed

interpretation tracing: component tracerStep tracerOk
  by unfold_locales (rule tracerStep_keeps)

lemma every_seek_is_traced_once: "tracerOk (foldl tracerStep createSeekTracer es)"
  by (rule tracing.run_keeps) (simp add: tracerOk_def traces_def createSeekTracer_def)

end
