(* ===== verification/Loaders.thy ===== *)
theory Loaders
  imports Prelude JsText
begin

text \<open>
  The two loaders the player gives hls.js: one keeps the next segments in flight
  (\<open>player/prefetch.ts\<close>), the other answers the first request for each playlist
  from a bundle fetched once (\<open>player/bundle.ts\<close>). Both extend a base loader of
  hls.js, which is not part of the repository: handing a load to it is an
  effect, and what it does with it is not modelled. Times are milliseconds.
\<close>

section \<open>Segments ahead (prefetch.ts)\<close>

definition LOOKAHEAD :: nat where "LOOKAHEAD = 3"

definition CACHE_MAX :: nat where "CACHE_MAX = 8"

definition FRESH_MS :: rat where "FRESH_MS = 30000"

text \<open>
  \<open>/^(.*_)(\d+)(\.m4s)$/\<close>: the last underscore before the digits; \<open>.\<close> does not
  match a line break. The number is read and written without the loss of
  precision JavaScript has from \<open>2 ^ 53\<close> on.
\<close>

definition M4S :: string where "M4S = ''.m4s''"

definition splitSegmentUrl :: "string \<Rightarrow> (string \<times> string) option" where
  "splitSegmentUrl url =
     (if \<not> endsWith url M4S then None
      else
        let body = take (length url - length M4S) url;
            digits = rev (takeWhile (\<lambda>c. c \<noteq> CHR ''_'') (rev body));
            head = take (length body - length digits) body
        in if head = [] \<or> \<not> allDigits digits \<or> NL \<in> set head \<or> CR \<in> set head then None
           else Some (head, digits))"

definition nextSegmentUrl :: "string \<Rightarrow> nat \<Rightarrow> string option" where
  "nextSegmentUrl url step =
     (case splitSegmentUrl url of
        None \<Rightarrow> None
      | Some (head, digits) \<Rightarrow> Some (head @ dec (num digits + step) @ M4S))"

text \<open>
  \<open>warmed\<close> is a \<open>Map\<close> from a url to when its fetch started and the fetch's number.
  A loader serves one load: it is idle, waits for a warmed fetch, or has given
  the load on; \<open>racing\<close> is the promise that will still settle for it.
\<close>

record warmed_fetch =
  wm_at :: rat
  wm_fetch :: nat

record fragment_loader =
  fl_loaded :: bool
  fl_answered :: bool
  fl_waiting :: bool
  fl_racing :: bool

datatype loader_effect =
    Fetched nat string
  | BaseLoad nat
  | Succeeded nat nat
  | BaseAbort nat
  | TimerCleared nat
  | AbortTold nat
  | BaseDestroy nat

record prefetcher =
  pf_warmed :: "(string, warmed_fetch) jsmap"
  pf_fetches :: nat
  pf_loaders :: "fragment_loader list"
  pf_log :: "loader_effect list"

definition newPrefetcher :: prefetcher where
  "newPrefetcher = \<lparr>pf_warmed = [], pf_fetches = 0, pf_loaders = [], pf_log = []\<rparr>"

definition noting :: "loader_effect list \<Rightarrow> prefetcher \<Rightarrow> prefetcher" where
  "noting effects p = p\<lparr>pf_log := pf_log p @ effects\<rparr>"

text \<open>\<open>while (warmed.size >= CACHE_MAX)\<close> the oldest goes.\<close>

definition makeRoom :: "(string, warmed_fetch) jsmap \<Rightarrow> (string, warmed_fetch) jsmap" where
  "makeRoom warmed = drop (length warmed - (CACHE_MAX - 1)) warmed"

definition warm :: "rat \<Rightarrow> string \<Rightarrow> prefetcher \<Rightarrow> prefetcher" where
  "warm now url p =
     (if mapGet (pf_warmed p) url \<noteq> None then p
      else noting [Fetched (pf_fetches p) url]
        (p\<lparr>pf_warmed := mapSet url \<lparr>wm_at = now, wm_fetch = pf_fetches p\<rparr> (makeRoom (pf_warmed p)),
           pf_fetches := Suc (pf_fetches p)\<rparr>))"

definition warmNext :: "rat \<Rightarrow> string \<Rightarrow> nat \<Rightarrow> prefetcher \<Rightarrow> prefetcher" where
  "warmNext now url step p = (case nextSegmentUrl url step of None \<Rightarrow> p | Some next_url \<Rightarrow> warm now next_url p)"

definition onLoader :: "nat \<Rightarrow> (fragment_loader \<Rightarrow> fragment_loader) \<Rightarrow> prefetcher \<Rightarrow> prefetcher" where
  "onLoader l f p = p\<lparr>pf_loaders := (pf_loaders p)[l := f (pf_loaders p ! l)]\<rparr>"

definition newLoader :: "prefetcher \<Rightarrow> prefetcher" where
  "newLoader p =
     p\<lparr>pf_loaders := pf_loaders p @ [\<lparr>fl_loaded = False, fl_answered = False, fl_waiting = False, fl_racing = False\<rparr>]\<rparr>"

definition freshHit :: "rat \<Rightarrow> string \<Rightarrow> prefetcher \<Rightarrow> bool" where
  "freshHit now url p =
     (case mapGet (pf_warmed p) url of None \<Rightarrow> False | Some hit \<Rightarrow> now - wm_at hit \<le> FRESH_MS)"

definition loadFragment :: "nat \<Rightarrow> string \<Rightarrow> bool \<Rightarrow> rat \<Rightarrow> prefetcher \<Rightarrow> prefetcher" where
  "loadFragment l url whole now p =
     (let p = onLoader l (\<lambda>fl. fl\<lparr>fl_loaded := True\<rparr>) p
      in if whole \<and> endsWith url M4S then
           let p = fold (warmNext now url) [1..<Suc LOOKAHEAD] p;
               hit = freshHit now url p;
               p = p\<lparr>pf_warmed := mapDelete url (pf_warmed p)\<rparr>
           in if hit then onLoader l (\<lambda>fl. fl\<lparr>fl_waiting := True, fl_racing := True\<rparr>) p
              else noting [BaseLoad l] p
         else noting [BaseLoad l] p)"

text \<open>The race of the warmed fetch and the patience: the bytes it gave, if any.\<close>

definition raceSettled :: "nat \<Rightarrow> nat option \<Rightarrow> prefetcher \<Rightarrow> prefetcher" where
  "raceSettled l bytes p =
     (let answered = fl_answered (pf_loaders p ! l);
          p = onLoader l (\<lambda>fl. fl\<lparr>fl_racing := False\<rparr>) (noting [TimerCleared l] p)
      in if answered then p
         else
           let p = onLoader l (\<lambda>fl. fl\<lparr>fl_waiting := False\<rparr>) p
           in if orElse bytes 0 = 0 then noting [BaseLoad l] p
              else noting [Succeeded l (orElse bytes 0)] (onLoader l (\<lambda>fl. fl\<lparr>fl_answered := True\<rparr>) p))"

definition releaseWaiting :: "nat \<Rightarrow> prefetcher \<Rightarrow> prefetcher" where
  "releaseWaiting l p =
     (if fl_waiting (pf_loaders p ! l)
      then noting [TimerCleared l] (onLoader l (\<lambda>fl. fl\<lparr>fl_waiting := False\<rparr>) p) else p)"

definition abortFragment :: "nat \<Rightarrow> prefetcher \<Rightarrow> prefetcher" where
  "abortFragment l p =
     (let waiting = fl_waiting (pf_loaders p ! l);
          p = onLoader l (\<lambda>fl. fl\<lparr>fl_answered := True\<rparr>) p;
          p = noting [BaseAbort l] (releaseWaiting l p)
      in if waiting then noting [AbortTold l] p else p)"

definition destroyFragment :: "nat \<Rightarrow> prefetcher \<Rightarrow> prefetcher" where
  "destroyFragment l p =
     noting [BaseDestroy l] (releaseWaiting l (onLoader l (\<lambda>fl. fl\<lparr>fl_answered := True\<rparr>) p))"

datatype prefetch_event =
    NewLoader
  | LoadFragment nat string bool rat
  | RaceSettled nat "nat option"
  | AbortFragment nat
  | DestroyFragment nat

text \<open>hls.js loads once with each loader; a race settles once.\<close>

fun prefetchStep :: "prefetcher \<Rightarrow> prefetch_event \<Rightarrow> prefetcher" where
  "prefetchStep p NewLoader = newLoader p"
| "prefetchStep p (LoadFragment l url whole now) =
     (if l < length (pf_loaders p) \<and> \<not> fl_loaded (pf_loaders p ! l) \<and> \<not> fl_answered (pf_loaders p ! l)
      then loadFragment l url whole now p else p)"
| "prefetchStep p (RaceSettled l bytes) =
     (if l < length (pf_loaders p) \<and> fl_racing (pf_loaders p ! l) then raceSettled l bytes p else p)"
| "prefetchStep p (AbortFragment l) = (if l < length (pf_loaders p) then abortFragment l p else p)"
| "prefetchStep p (DestroyFragment l) = (if l < length (pf_loaders p) then destroyFragment l p else p)"

subsection \<open>The urls ahead\<close>

lemma split_built:
  assumes "splitSegmentUrl url = Some (head, digits)"
  shows "splitSegmentUrl (head @ dec n @ M4S) = Some (head, dec n)"
proof -
  let ?body = "take (length url - length M4S) url"
  let ?d = "rev (takeWhile (\<lambda>c. c \<noteq> CHR ''_'') (rev ?body))"
  have h: "head = take (length ?body - length ?d) ?body" "head \<noteq> []" "NL \<notin> set head" "CR \<notin> set head"
    using assms by (auto simp: splitSegmentUrl_def Let_def split: if_splits)
  have "rev (rev ?body) = rev (takeWhile (\<lambda>c. c \<noteq> CHR ''_'') (rev ?body) @ dropWhile (\<lambda>c. c \<noteq> CHR ''_'') (rev ?body))"
    by (simp only: takeWhile_dropWhile_id)
  then have "?body = rev (dropWhile (\<lambda>c. c \<noteq> CHR ''_'') (rev ?body)) @ ?d"
    by (simp only: rev_append rev_rev_ident)
  then have "head = rev (dropWhile (\<lambda>c. c \<noteq> CHR ''_'') (rev ?body))"
    unfolding h(1) by (metis (no_types, lifting) append_eq_conv_conj length_append add_diff_cancel_right')
  then have "last head = CHR ''_''"
    using h(2) hd_dropWhile [of "\<lambda>c. c \<noteq> CHR ''_''" "rev ?body"] by (simp add: last_rev)
  then obtain r where r: "rev head = CHR ''_'' # r" using h(2) by (metis hd_rev list.collapse rev_is_Nil_conv)
  have digits: "\<forall>c \<in> set (dec n). c \<noteq> CHR ''_''"
    using dec_digits [of n] by (auto simp: list_all_iff isDigit_def codeOf_def)
  have "takeWhile (\<lambda>c. c \<noteq> CHR ''_'') (rev (dec n) @ rev head) = rev (dec n)"
    using digits unfolding r by (subst takeWhile_append2) auto
  moreover have "take (length (head @ dec n @ M4S) - length M4S) (head @ dec n @ M4S) = head @ dec n" by simp
  moreover have "endsWith (head @ dec n @ M4S) M4S" by (simp add: endsWith_def)
  ultimately show ?thesis using h(2,3,4) by (simp add: splitSegmentUrl_def Let_def)
qed

text \<open>looking ahead in steps is looking ahead at once: the url some segments after the one some segments after this is the one as many after this as both together, so what one load warms is what later loads ask for.\<close>

theorem segments_ahead_add_up:
  "Option.bind (nextSegmentUrl url a) (\<lambda>url'. nextSegmentUrl url' b) = nextSegmentUrl url (a + b)"
proof (cases "splitSegmentUrl url")
  case None
  then show ?thesis by (simp add: nextSegmentUrl_def)
next
  case (Some parts)
  obtain head digits where "parts = (head, digits)" by (cases parts)
  then show ?thesis using Some split_built [of url head digits] by (simp add: nextSegmentUrl_def add.assoc)
qed

subsection \<open>One answer a load\<close>

text \<open>What loader \<open>l\<close> did about its load: answered it from the warmed fetch, or gave it to the base loader.\<close>

fun answersOf :: "nat \<Rightarrow> loader_effect list \<Rightarrow> nat" where
  "answersOf l [] = 0"
| "answersOf l (BaseLoad m # es) = (if m = l then 1 else 0) + answersOf l es"
| "answersOf l (Succeeded m n # es) = (if m = l then 1 else 0) + answersOf l es"
| "answersOf l (e # es) = answersOf l es"

lemma answersOf_append [simp]: "answersOf l (xs @ ys) = answersOf l xs + answersOf l ys"
  by (induction l xs rule: answersOf.induct) simp_all

text \<open>\<open>fl_answered\<close> with the load still racing is a load that was aborted or destroyed.\<close>

definition loaderOk :: "fragment_loader \<Rightarrow> nat \<Rightarrow> bool" where
  "loaderOk fl answers \<longleftrightarrow>
     answers \<le> 1
     \<and> (\<not> fl_loaded fl \<longrightarrow> answers = 0 \<and> \<not> fl_racing fl)
     \<and> (fl_racing fl \<longrightarrow> answers = 0)
     \<and> (fl_waiting fl \<longrightarrow> fl_racing fl \<and> \<not> fl_answered fl)
     \<and> (fl_loaded fl \<and> \<not> fl_answered fl \<and> \<not> fl_racing fl \<longrightarrow> answers = 1)"

definition prefetchOk :: "prefetcher \<Rightarrow> bool" where
  "prefetchOk p \<longleftrightarrow>
     length (pf_warmed p) \<le> CACHE_MAX
     \<and> (\<forall>l. l < length (pf_loaders p) \<longrightarrow> loaderOk (pf_loaders p ! l) (answersOf l (pf_log p)))
     \<and> (\<forall>l. length (pf_loaders p) \<le> l \<longrightarrow> answersOf l (pf_log p) = 0)"

lemma length_mapSet: "length (AList.update k v m) \<le> Suc (length m)"
  by (induction m) auto

lemma length_mapDelete: "length (AList.delete k m) \<le> length m"
  by (rule length_delete_le)

lemma length_makeRoom: "length (makeRoom warmed) \<le> CACHE_MAX - 1"
  by (simp add: makeRoom_def)

lemma warm_keeps:
  assumes "prefetchOk p" shows "prefetchOk (warmNext now url step p)" "pf_loaders (warmNext now url step p) = pf_loaders p"
proof -
  have "length (AList.update u v (makeRoom (pf_warmed p))) \<le> CACHE_MAX" for u v
    using length_mapSet [of u v "makeRoom (pf_warmed p)"] length_makeRoom [of "pf_warmed p"]
    by (simp add: CACHE_MAX_def)
  then show "prefetchOk (warmNext now url step p)" "pf_loaders (warmNext now url step p) = pf_loaders p"
    using assms by (auto simp: warmNext_def warm_def prefetchOk_def noting_def split: option.splits)
qed

lemma warmAll_keeps:
  "prefetchOk p \<Longrightarrow> prefetchOk (fold (warmNext now url) steps p) \<and> pf_loaders (fold (warmNext now url) steps p) = pf_loaders p"
  using warm_keeps by (induction steps arbitrary: p) auto

text \<open>The state of one loader and its answers changed, the others' kept.\<close>

lemma prefetchOk_change:
  assumes "prefetchOk p" and "l < length (pf_loaders p)"
    and "length (pf_warmed p') \<le> CACHE_MAX" and "pf_loaders p' = (pf_loaders p)[l := fl']"
    and "pf_log p' = pf_log p @ es" and "\<And>m. m \<noteq> l \<Longrightarrow> answersOf m es = 0"
    and "loaderOk (pf_loaders p ! l) (answersOf l (pf_log p)) \<Longrightarrow> loaderOk fl' (answersOf l (pf_log p) + answersOf l es)"
  shows "prefetchOk p'"
proof -
  have "loaderOk (pf_loaders p' ! m) (answersOf m (pf_log p'))" if "m < length (pf_loaders p')" for m
    using assms that by (cases "m = l") (simp_all add: prefetchOk_def)
  moreover have "answersOf m (pf_log p') = 0" if "length (pf_loaders p') \<le> m" for m
    using assms that by (auto simp: prefetchOk_def)
  ultimately show ?thesis using assms(3) by (simp add: prefetchOk_def)
qed

lemma load_keeps:
  assumes ok: "prefetchOk p" and l: "l < length (pf_loaders p)" "\<not> fl_loaded (pf_loaders p ! l)" "\<not> fl_answered (pf_loaders p ! l)"
  shows "prefetchOk (loadFragment l url whole now p)"
proof -
  let ?f = "\<lambda>fl. fl\<lparr>fl_loaded := True\<rparr>"
  let ?q = "fold (warmNext now url) [1..<Suc LOOKAHEAD] (onLoader l ?f p)"
  have loaders: "pf_loaders (fold (warmNext now url) steps q) = pf_loaders q
      \<and> (\<exists>es. pf_log (fold (warmNext now url) steps q) = pf_log q @ es \<and> (\<forall>m. answersOf m es = 0))
      \<and> (length (pf_warmed q) \<le> CACHE_MAX \<longrightarrow> length (pf_warmed (fold (warmNext now url) steps q)) \<le> CACHE_MAX)" for steps q
  proof (induction steps arbitrary: q)
    case (Cons s steps)
    have one: "pf_loaders (warmNext now url s q) = pf_loaders q"
      "\<exists>es. pf_log (warmNext now url s q) = pf_log q @ es \<and> (\<forall>m. answersOf m es = 0)"
      "length (pf_warmed q) \<le> CACHE_MAX \<longrightarrow> length (pf_warmed (warmNext now url s q)) \<le> CACHE_MAX"
      using length_mapSet length_makeRoom [of "pf_warmed q"]
      by (auto simp: warmNext_def warm_def noting_def CACHE_MAX_def intro: order_trans [OF length_mapSet] split: option.splits)
    then show ?case using Cons [of "warmNext now url s q"] by (auto simp: append_assoc)
  qed simp
  have warmed: "length (pf_warmed (onLoader l ?f p)) \<le> CACHE_MAX" using ok by (simp add: prefetchOk_def onLoader_def)
  obtain es where es: "pf_log ?q = pf_log p @ es" "\<forall>m. answersOf m es = 0"
    using loaders [of "[1..<Suc LOOKAHEAD]" "onLoader l ?f p"] by (auto simp: onLoader_def)
  have q: "pf_loaders ?q = (pf_loaders p)[l := ?f (pf_loaders p ! l)]" "length (pf_warmed ?q) \<le> CACHE_MAX"
    using loaders [of "[1..<Suc LOOKAHEAD]" "onLoader l ?f p"] warmed by (simp_all add: onLoader_def)
  have deleted: "length (AList.delete url (pf_warmed ?q)) \<le> CACHE_MAX"
    using order_trans [OF length_mapDelete q(2)] .
  show ?thesis
  proof (cases "whole \<and> endsWith url M4S")
    case False
    then show ?thesis
      using ok l unfolding loadFragment_def Let_def
      by (auto intro!: prefetchOk_change [OF ok l(1), where es = "[BaseLoad l]"]
          simp: noting_def onLoader_def loaderOk_def prefetchOk_def simp del: upt_Suc)
  next
    case True
    show ?thesis
    proof (cases "freshHit now url ?q")
      case hit: True
      have "prefetchOk (onLoader l (\<lambda>fl. fl\<lparr>fl_waiting := True, fl_racing := True\<rparr>)
          (?q\<lparr>pf_warmed := AList.delete url (pf_warmed ?q)\<rparr>))"
        by (rule prefetchOk_change [OF ok l(1), where es = es and fl' = "(?f (pf_loaders p ! l))\<lparr>fl_waiting := True, fl_racing := True\<rparr>"])
          (use es q l deleted in \<open>auto simp add: onLoader_def loaderOk_def simp del: upt_Suc\<close>)
      then show ?thesis using True hit by (simp add: loadFragment_def Let_def del: upt_Suc)
    next
      case miss: False
      have "prefetchOk (noting [BaseLoad l] (?q\<lparr>pf_warmed := AList.delete url (pf_warmed ?q)\<rparr>))"
        by (rule prefetchOk_change [OF ok l(1), where es = "es @ [BaseLoad l]" and fl' = "?f (pf_loaders p ! l)"])
          (use es q l deleted in \<open>auto simp add: noting_def loaderOk_def simp del: upt_Suc\<close>)
      then show ?thesis using True miss by (simp add: loadFragment_def Let_def del: upt_Suc)
    qed
  qed
qed

lemma prefetchStep_keeps [keeps]: "prefetchOk p \<Longrightarrow> prefetchOk (prefetchStep p e)"
proof (cases e)
  case NewLoader
  assume "prefetchOk p"
  then show ?thesis using NewLoader
    by (auto simp: newLoader_def prefetchOk_def nth_append loaderOk_def less_Suc_eq)
next
  case (LoadFragment l url whole now)
  assume "prefetchOk p"
  then show ?thesis using LoadFragment by (simp add: load_keeps)
next
  case (RaceSettled l bytes)
  assume ok: "prefetchOk p"
  then have w: "length (pf_warmed p) \<le> CACHE_MAX" by (simp add: prefetchOk_def)
  show ?thesis
  proof (cases "l < length (pf_loaders p) \<and> fl_racing (pf_loaders p ! l)")
    case l: True
    then have "prefetchOk (raceSettled l bytes p)"
      unfolding raceSettled_def Let_def
      by (auto intro!: prefetchOk_change [OF ok] simp: noting_def onLoader_def loaderOk_def w)
    then show ?thesis using RaceSettled l by simp
  qed (use ok RaceSettled in auto)
next
  case (AbortFragment l)
  assume ok: "prefetchOk p"
  then have w: "length (pf_warmed p) \<le> CACHE_MAX" by (simp add: prefetchOk_def)
  show ?thesis
  proof (cases "l < length (pf_loaders p)")
    case l: True
    then have "prefetchOk (abortFragment l p)"
      unfolding abortFragment_def releaseWaiting_def Let_def
      by (auto intro!: prefetchOk_change [OF ok] simp: noting_def onLoader_def loaderOk_def w)
    then show ?thesis using AbortFragment l by simp
  qed (use ok AbortFragment in simp)
next
  case (DestroyFragment l)
  assume ok: "prefetchOk p"
  then have w: "length (pf_warmed p) \<le> CACHE_MAX" by (simp add: prefetchOk_def)
  show ?thesis
  proof (cases "l < length (pf_loaders p)")
    case l: True
    then have "prefetchOk (destroyFragment l p)"
      unfolding destroyFragment_def releaseWaiting_def Let_def
      by (auto intro!: prefetchOk_change [OF ok] simp: noting_def onLoader_def loaderOk_def w)
    then show ?thesis using DestroyFragment l by simp
  qed (use ok DestroyFragment in simp)
qed

interpretation prefetching: component prefetchStep prefetchOk
  by unfold_locales (rule prefetchStep_keeps)

text \<open>The two ways hls.js stops a load.\<close>

fun stopsLoad :: "nat \<Rightarrow> prefetch_event \<Rightarrow> bool" where
  "stopsLoad l (AbortFragment m) = (m = l)"
| "stopsLoad l (DestroyFragment m) = (m = l)"
| "stopsLoad l e = False"

lemma warmAll_adds:
  "pf_loaders (fold (warmNext now url) steps p) = pf_loaders p
   \<and> answersOf l (pf_log (fold (warmNext now url) steps p)) = answersOf l (pf_log p)"
proof (induction steps arbitrary: p)
  case (Cons s steps)
  have "pf_loaders (warmNext now url s p) = pf_loaders p"
    "answersOf l (pf_log (warmNext now url s p)) = answersOf l (pf_log p)"
    by (simp_all add: warmNext_def warm_def noting_def split: option.splits)
  then show ?case by (simp add: Cons)
qed simp

lemma onLoader_simps [simp]:
  "pf_log (onLoader m f p) = pf_log p" "length (pf_loaders (onLoader m f p)) = length (pf_loaders p)"
  "m < length (pf_loaders p) \<Longrightarrow>
     pf_loaders (onLoader m f p) ! l = (if m = l then f (pf_loaders p ! l) else pf_loaders p ! l)"
  by (simp_all add: onLoader_def)

lemma noting_simps [simp]:
  "pf_log (noting es p) = pf_log p @ es" "pf_loaders (noting es p) = pf_loaders p"
  by (simp_all add: noting_def)

lemma loadFragment_answers:
  assumes "m < length (pf_loaders p)"
  shows "length (pf_loaders (loadFragment m url whole now p)) = length (pf_loaders p)
    \<and> fl_answered (pf_loaders (loadFragment m url whole now p) ! l) = fl_answered (pf_loaders p ! l)
    \<and> answersOf l (pf_log p) \<le> answersOf l (pf_log (loadFragment m url whole now p))
    \<and> (l \<noteq> m \<longrightarrow> answersOf l (pf_log (loadFragment m url whole now p)) = answersOf l (pf_log p))"
proof -
  let ?p = "onLoader m (\<lambda>fl. fl\<lparr>fl_loaded := True\<rparr>) p"
  let ?q = "fold (warmNext now url) [1..<Suc LOOKAHEAD] ?p"
  let ?d = "?q\<lparr>pf_warmed := mapDelete url (pf_warmed ?q)\<rparr>"
  have q: "pf_loaders ?d = pf_loaders ?p" "answersOf l (pf_log ?d) = answersOf l (pf_log p)"
    using warmAll_adds [of now url "[1..<Suc LOOKAHEAD]" ?p l] by simp_all
  have m: "m < length (pf_loaders ?d)" using assms q(1) by simp
  have answered: "fl_answered (pf_loaders ?p ! l) = fl_answered (pf_loaders p ! l)"
    using assms by simp
  consider "loadFragment m url whole now p = noting [BaseLoad m] ?p"
    | "loadFragment m url whole now p = noting [BaseLoad m] ?d"
    | "loadFragment m url whole now p = onLoader m (\<lambda>fl. fl\<lparr>fl_waiting := True, fl_racing := True\<rparr>) ?d"
    unfolding loadFragment_def Let_def by presburger
  then show ?thesis
  proof cases
    case 1
    then show ?thesis using answered assms by simp
  next
    case 2
    have "pf_loaders (noting [BaseLoad m] ?d) = pf_loaders ?p"
      "answersOf l (pf_log (noting [BaseLoad m] ?d)) = answersOf l (pf_log p) + answersOf l [BaseLoad m]"
      using q by (simp_all only: noting_simps answersOf_append)
    with 2 answered show ?thesis by simp
  next
    case 3
    have "length (pf_loaders (loadFragment m url whole now p)) = length (pf_loaders p)"
      unfolding 3 onLoader_simps q(1) ..
    moreover have "fl_answered (pf_loaders (loadFragment m url whole now p) ! l) = fl_answered (pf_loaders ?d ! l)"
      unfolding 3 onLoader_simps(3) [OF m] by simp
    moreover have "answersOf l (pf_log (loadFragment m url whole now p)) = answersOf l (pf_log p)"
      unfolding 3 onLoader_simps q(2) ..
    ultimately show ?thesis using answered q(1) by simp
  qed
qed

lemma raceSettled_answers:
  assumes "m < length (pf_loaders p)"
  shows "length (pf_loaders (raceSettled m bytes p)) = length (pf_loaders p)
    \<and> (fl_answered (pf_loaders p ! l) \<longrightarrow> fl_answered (pf_loaders (raceSettled m bytes p) ! l)
        \<and> answersOf l (pf_log (raceSettled m bytes p)) = answersOf l (pf_log p))
    \<and> (fl_answered (pf_loaders (raceSettled m bytes p) ! l) \<longrightarrow>
        fl_answered (pf_loaders p ! l) \<or> answersOf l (pf_log (raceSettled m bytes p)) \<noteq> 0)
    \<and> answersOf l (pf_log p) \<le> answersOf l (pf_log (raceSettled m bytes p))"
  using assms by (cases "m = l") (simp_all add: raceSettled_def Let_def)

lemma stop_answers:
  assumes "m < length (pf_loaders p)"
  shows "length (pf_loaders (abortFragment m p)) = length (pf_loaders p)"
    and "length (pf_loaders (destroyFragment m p)) = length (pf_loaders p)"
    and "fl_answered (pf_loaders (abortFragment m p) ! l) \<longleftrightarrow> l = m \<or> fl_answered (pf_loaders p ! l)"
    and "fl_answered (pf_loaders (destroyFragment m p) ! l) \<longleftrightarrow> l = m \<or> fl_answered (pf_loaders p ! l)"
    and "answersOf l (pf_log (abortFragment m p)) = answersOf l (pf_log p)"
    and "answersOf l (pf_log (destroyFragment m p)) = answersOf l (pf_log p)"
  using assms by (auto simp add: abortFragment_def destroyFragment_def releaseWaiting_def Let_def)

text \<open>A loader counts as answered only when it was, or was stopped; and from then on it answers nothing more.\<close>

lemma prefetchStep_moves:
  assumes l: "l < length (pf_loaders p)"
  shows "l < length (pf_loaders (prefetchStep p e))
    \<and> (fl_answered (pf_loaders p ! l) \<or> stopsLoad l e \<longrightarrow> fl_answered (pf_loaders (prefetchStep p e) ! l)
        \<and> answersOf l (pf_log (prefetchStep p e)) = answersOf l (pf_log p))
    \<and> (fl_answered (pf_loaders (prefetchStep p e) ! l) \<longrightarrow> fl_answered (pf_loaders p ! l)
        \<or> stopsLoad l e \<or> answersOf l (pf_log (prefetchStep p e)) \<noteq> 0)
    \<and> answersOf l (pf_log p) \<le> answersOf l (pf_log (prefetchStep p e))"
proof (cases e)
  case NewLoader
  with l show ?thesis by (simp add: newLoader_def nth_append)
next
  case (LoadFragment m url whole now)
  with l loadFragment_answers [of m p url whole now l] show ?thesis by (cases "l = m") simp_all
next
  case (RaceSettled m bytes)
  with l raceSettled_answers [of m p bytes l] show ?thesis by (simp split: if_splits)
next
  case (AbortFragment m)
  with l show ?thesis by (auto simp: stop_answers split: if_splits)
next
  case (DestroyFragment m)
  with l show ?thesis by (auto simp: stop_answers split: if_splits)
qed

lemma answered_for_good:
  assumes "l < length (pf_loaders p)" and "fl_answered (pf_loaders p ! l)"
  shows "answersOf l (pf_log (foldl prefetchStep p es)) = answersOf l (pf_log p)"
  using assms
proof (induction es arbitrary: p)
  case (Cons e es)
  then show ?case using prefetchStep_moves [of l p e] by simp
qed simp

lemma newLoaders_unanswered:
  assumes "length (pf_loaders p) \<le> l" and "l < length (pf_loaders (prefetchStep p e))"
  shows "\<not> fl_answered (pf_loaders (prefetchStep p e) ! l)"
  using assms
  by (cases e) (simp_all add: newLoader_def nth_append loadFragment_answers raceSettled_answers
      stop_answers(1,2) split: if_splits)

lemma answered_or_stopped:
  assumes "l < length (pf_loaders (foldl prefetchStep newPrefetcher es))"
    and "fl_answered (pf_loaders (foldl prefetchStep newPrefetcher es) ! l)"
    and "\<not> list_ex (stopsLoad l) es"
  shows "answersOf l (pf_log (foldl prefetchStep newPrefetcher es)) \<noteq> 0"
  using assms
proof (induction es rule: rev_induct)
  case Nil
  then show ?case by (simp add: newPrefetcher_def)
next
  case (snoc e es)
  let ?p = "foldl prefetchStep newPrefetcher es"
  have l: "l < length (pf_loaders ?p)" using snoc.prems(1,2) newLoaders_unanswered [of ?p l e] by fastforce
  with snoc prefetchStep_moves [OF l, of e] show ?case by auto
qed

text \<open>
  C19: however warmed fetches, time-outs, aborts and destroys interleave, a
  load of a segment is answered from its warmed fetch or given to the base
  loader. It is not before it starts nor while its race is on, and once
  started and out of its race exactly once unless somebody stopped it (then at
  most once); an abort or a destroy adds no answer, and nothing is answered
  after it. The cache never holds more than its eight entries.
\<close>

theorem load_is_answered_once:
  fixes es more :: "prefetch_event list"
  defines "p \<equiv> foldl prefetchStep newPrefetcher es"
  assumes "l < length (pf_loaders p)"
  shows "(if \<not> fl_loaded (pf_loaders p ! l) \<or> fl_racing (pf_loaders p ! l) then answersOf l (pf_log p) = 0
          else if list_ex (stopsLoad l) es then answersOf l (pf_log p) \<le> 1
          else answersOf l (pf_log p) = 1)
    \<and> (stopsLoad l e \<longrightarrow> answersOf l (pf_log (foldl prefetchStep p (e # more))) = answersOf l (pf_log p))
    \<and> length (pf_warmed p) \<le> CACHE_MAX"
proof -
  have ok: "prefetchOk p"
    unfolding p_def by (rule prefetching.run_keeps) (simp add: prefetchOk_def newPrefetcher_def)
  then have l: "loaderOk (pf_loaders p ! l) (answersOf l (pf_log p))" "length (pf_warmed p) \<le> CACHE_MAX"
    using assms(2) by (simp_all add: prefetchOk_def)
  have "answersOf l (pf_log (foldl prefetchStep p (e # more))) = answersOf l (pf_log p)" if "stopsLoad l e"
    using prefetchStep_moves [OF assms(2), of e] that by (simp add: answered_for_good)
  moreover have "fl_answered (pf_loaders p ! l) \<Longrightarrow> \<not> list_ex (stopsLoad l) es \<Longrightarrow> answersOf l (pf_log p) \<noteq> 0"
    using assms(2) answered_or_stopped unfolding p_def by blast
  ultimately show ?thesis using l by (auto simp: loaderOk_def)
qed

theorem load_is_answered_once_witness:
  defines "p \<equiv> foldl prefetchStep newPrefetcher [NewLoader, LoadFragment 0 [] False 0]"
  shows "answersOf 0 (pf_log p) = 1 \<and> answersOf 0 (pf_log (foldl prefetchStep p [AbortFragment 0, RaceSettled 0 (Some 5)])) = 1"
proof -
  have run: "pf_loaders p = [\<lparr>fl_loaded = True, fl_answered = False, fl_waiting = False, fl_racing = False\<rparr>]"
    by (simp add: p_def newLoader_def newPrefetcher_def loadFragment_def noting_def onLoader_def)
  from load_is_answered_once [of 0 "[NewLoader, LoadFragment 0 [] False 0]" "AbortFragment 0" "[RaceSettled 0 (Some 5)]"]
  show ?thesis using run unfolding p_def [symmetric] by simp
qed

section \<open>Playlists together (bundle.ts)\<close>

record playlist_bundle =
  bu_master :: string
  bu_playlists :: "(string, string) jsmap"

definition playlistNameOf :: "string option \<Rightarrow> string" where
  "playlistNameOf url =
     (let path = hd (splitOn CHR ''#'' (hd (splitOn CHR ''?'' (orElse url []))))
      in rev (takeWhile (\<lambda>c. c \<noteq> CHR 0x2F) (rev path)))"

definition bundledBody :: "playlist_bundle option \<Rightarrow> string \<Rightarrow> string option" where
  "bundledBody bundle name =
     (case bundle of
        None \<Rightarrow> None
      | Some b \<Rightarrow>
          if endsWith name ''_master.m3u8'' \<or> name = ''master.m3u8'' then Some (bu_master b)
          else mapGet (bu_playlists b) name)"

text \<open>\<open>/^#EXT-X-MAP:URI="([^"]+)"/gm\<close>: at the start of a line, up to the closing quote.\<close>

definition MAP_TAG :: string where "MAP_TAG = ''#EXT-X-MAP:URI='' @ [CHR 0x22]"

definition mapUriAt :: "string \<Rightarrow> string option" where
  "mapUriAt s =
     (case stripPrefix MAP_TAG s of
        None \<Rightarrow> None
      | Some r \<Rightarrow>
          let uri = takeWhile (\<lambda>c. c \<noteq> CHR 0x22) r
          in if uri = [] \<or> length uri = length r then None else Some uri)"

function mapUris :: "bool \<Rightarrow> string \<Rightarrow> string list" where
  "mapUris lineStart s =
     (case s of
        [] \<Rightarrow> []
      | c # r \<Rightarrow>
          (case if lineStart then mapUriAt s else None of
             Some uri \<Rightarrow> uri # mapUris False (drop (length MAP_TAG + length uri) r)
           | None \<Rightarrow> mapUris (c = NL \<or> c = CR) r))"
  by pat_completeness auto
termination by (relation "measure (\<lambda>(_, s). length s)") auto

declare mapUris.simps [simp del]

definition initSegmentsIn :: "playlist_bundle option \<Rightarrow> string list" where
  "initSegmentsIn bundle =
     (case bundle of
        None \<Rightarrow> []
      | Some b \<Rightarrow> foldl addTo [] (concat (map (mapUris True \<circ> snd) (bu_playlists b))))"

text \<open>\<open>enc\<close> is \<open>encodeURIComponent\<close>.\<close>

definition mediaRoot :: "(string \<Rightarrow> string) \<Rightarrow> string \<Rightarrow> string option \<Rightarrow> string" where
  "mediaRoot enc roomID key =
     (let room = ''/media/'' @ enc roomID
      in if orElse key [] = [] then room else room @ ''/k/'' @ enc (orElse key []))"

text \<open>The answer: its status and the fields of its body, when they are what they should be; a throw is \<open>None\<close>.\<close>

definition fetchBundle :: "(nat \<times> string option \<times> (string, string) jsmap option) option \<Rightarrow> playlist_bundle option" where
  "fetchBundle answer =
     (case answer of
        Some (status, Some master, Some playlists) \<Rightarrow>
          if 200 \<le> status \<and> status \<le> 299 then Some \<lparr>bu_master = master, bu_playlists = playlists\<rparr> else None
      | _ \<Rightarrow> None)"

text \<open>A playlist loader: whether it was stopped or has answered, and the name its race is for.\<close>

record playlist_loader =
  pl_loaded :: bool
  pl_answered :: bool
  pl_race :: "string option"

datatype bundle_effect =
    BaseLoadPlaylist nat
  | FromBundle nat string string
  | BaseAbortPlaylist nat
  | BaseDestroyPlaylist nat

record bundled_loaders =
  bl_served :: "string list"
  bl_loaders :: "playlist_loader list"
  bl_log :: "bundle_effect list"

definition newBundled :: bundled_loaders where
  "newBundled = \<lparr>bl_served = [], bl_loaders = [], bl_log = []\<rparr>"

definition tells :: "bundle_effect list \<Rightarrow> bundled_loaders \<Rightarrow> bundled_loaders" where
  "tells effects b = b\<lparr>bl_log := bl_log b @ effects\<rparr>"

definition onPlaylist :: "nat \<Rightarrow> (playlist_loader \<Rightarrow> playlist_loader) \<Rightarrow> bundled_loaders \<Rightarrow> bundled_loaders" where
  "onPlaylist l f b = b\<lparr>bl_loaders := (bl_loaders b)[l := f (bl_loaders b ! l)]\<rparr>"

definition playlistTypes :: "string list" where
  "playlistTypes = [''manifest'', ''level'', ''audioTrack'']"

definition loadPlaylist :: "nat \<Rightarrow> string option \<Rightarrow> string \<Rightarrow> bundled_loaders \<Rightarrow> bundled_loaders" where
  "loadPlaylist l url type b =
     (let name = playlistNameOf url;
          b = onPlaylist l (\<lambda>pl. pl\<lparr>pl_loaded := True\<rparr>) b
      in if type \<notin> set playlistTypes \<or> \<not> endsWith name ''.m3u8'' \<or> name \<in> set (bl_served b)
         then tells [BaseLoadPlaylist l] b
         else onPlaylist l (\<lambda>pl. pl\<lparr>pl_race := Some name\<rparr>) (b\<lparr>bl_served := addTo (bl_served b) name\<rparr>))"

text \<open>The bundle, or nothing when the patience ran out first.\<close>

definition bundleReady :: "nat \<Rightarrow> string \<Rightarrow> playlist_bundle option \<Rightarrow> bundled_loaders \<Rightarrow> bundled_loaders" where
  "bundleReady l name ready b =
     (let answered = pl_answered (bl_loaders b ! l);
          b = onPlaylist l (\<lambda>pl. pl\<lparr>pl_race := None\<rparr>) b
      in if answered then b
         else case bundledBody ready name of
             None \<Rightarrow> tells [BaseLoadPlaylist l] b
           | Some body \<Rightarrow> tells [FromBundle l name body] (onPlaylist l (\<lambda>pl. pl\<lparr>pl_answered := True\<rparr>) b))"

datatype bundle_event =
    NewPlaylistLoader
  | LoadPlaylist nat "string option" string
  | BundleReady nat "playlist_bundle option"
  | AbortPlaylist nat
  | DestroyPlaylist nat

fun bundleStep :: "bundled_loaders \<Rightarrow> bundle_event \<Rightarrow> bundled_loaders" where
  "bundleStep b NewPlaylistLoader =
     b\<lparr>bl_loaders := bl_loaders b @ [\<lparr>pl_loaded = False, pl_answered = False, pl_race = None\<rparr>]\<rparr>"
| "bundleStep b (LoadPlaylist l url type) =
     (if l < length (bl_loaders b) \<and> \<not> pl_loaded (bl_loaders b ! l) then loadPlaylist l url type b else b)"
| "bundleStep b (BundleReady l ready) =
     (if l < length (bl_loaders b)
      then case pl_race (bl_loaders b ! l) of None \<Rightarrow> b | Some name \<Rightarrow> bundleReady l name ready b else b)"
| "bundleStep b (AbortPlaylist l) =
     (if l < length (bl_loaders b)
      then tells [BaseAbortPlaylist l] (onPlaylist l (\<lambda>pl. pl\<lparr>pl_answered := True\<rparr>) b) else b)"
| "bundleStep b (DestroyPlaylist l) =
     (if l < length (bl_loaders b)
      then tells [BaseDestroyPlaylist l] (onPlaylist l (\<lambda>pl. pl\<lparr>pl_answered := True\<rparr>) b) else b)"

subsection \<open>A playlist comes from the bundle once\<close>

fun bundled :: "bundle_effect list \<Rightarrow> string list" where
  "bundled [] = []"
| "bundled (FromBundle l name body # es) = name # bundled es"
| "bundled (e # es) = bundled es"

lemma bundled_append [simp]: "bundled (xs @ ys) = bundled xs @ bundled ys"
  by (induction xs rule: bundled.induct) simp_all

text \<open>The names that were answered from the bundle or may still be: each belongs to one load.\<close>

definition bundleOk :: "bundled_loaders \<Rightarrow> bool" where
  "bundleOk b \<longleftrightarrow>
     distinct (bundled (bl_log b)) \<and> set (bundled (bl_log b)) \<subseteq> set (bl_served b)
     \<and> (\<forall>l name. l < length (bl_loaders b) \<longrightarrow> pl_race (bl_loaders b ! l) = Some name \<longrightarrow>
          name \<in> set (bl_served b) \<and> name \<notin> set (bundled (bl_log b)))
     \<and> (\<forall>l m name. l < length (bl_loaders b) \<longrightarrow> m < length (bl_loaders b) \<longrightarrow>
          pl_race (bl_loaders b ! l) = Some name \<longrightarrow> pl_race (bl_loaders b ! m) = Some name \<longrightarrow> l = m)"

lemma bundleOk_same:
  assumes "bundleOk b" and "map pl_race (bl_loaders b') = map pl_race (bl_loaders b)"
    and "bl_served b' = bl_served b" and "bundled (bl_log b') = bundled (bl_log b)"
  shows "bundleOk b'"
proof -
  have "length (bl_loaders b') = length (bl_loaders b)" using arg_cong [OF assms(2), of length] by simp
  moreover have "pl_race (bl_loaders b' ! l) = pl_race (bl_loaders b ! l)" if "l < length (bl_loaders b)" for l
    using that calculation arg_cong [OF assms(2), of "\<lambda>xs. xs ! l"] by simp
  ultimately show ?thesis using assms(1,3,4) unfolding bundleOk_def by simp
qed

lemma races_onPlaylist:
  "pl_race (f (bl_loaders b ! l)) = pl_race (bl_loaders b ! l) \<Longrightarrow>
     map pl_race (bl_loaders (onPlaylist l f b)) = map pl_race (bl_loaders b)"
  by (cases "l < length (bl_loaders b)") (simp_all add: onPlaylist_def map_update list_update_beyond list_update_same_conv)

lemma bundleOkD:
  assumes "bundleOk b"
  shows "distinct (bundled (bl_log b))" "set (bundled (bl_log b)) \<subseteq> set (bl_served b)"
    and "l < length (bl_loaders b) \<Longrightarrow> pl_race (bl_loaders b ! l) = Some name \<Longrightarrow>
      name \<in> set (bl_served b) \<and> name \<notin> set (bundled (bl_log b))"
    and "l < length (bl_loaders b) \<Longrightarrow> m < length (bl_loaders b) \<Longrightarrow>
      pl_race (bl_loaders b ! l) = Some name \<Longrightarrow> pl_race (bl_loaders b ! m) = Some name \<Longrightarrow> l = m"
  using assms unfolding bundleOk_def by blast+

text \<open>A load claims a name nobody claimed.\<close>

lemma bundleOk_claim:
  assumes ok: "bundleOk b" and n: "length (bl_loaders b') = length (bl_loaders b)"
    and race: "\<And>m. m < length (bl_loaders b) \<Longrightarrow>
      pl_race (bl_loaders b' ! m) = (if m = l then Some name else pl_race (bl_loaders b ! m))"
    and served: "set (bl_served b') = insert name (set (bl_served b))" "name \<notin> set (bl_served b)"
    and log: "bundled (bl_log b') = bundled (bl_log b)"
  shows "bundleOk b'"
proof -
  have other: "other \<in> set (bl_served b)" if "m < length (bl_loaders b)" "pl_race (bl_loaders b ! m) = Some other" for m other
    using bundleOkD(3) [OF ok that] by simp
  have one: "other \<in> set (bl_served b') \<and> other \<notin> set (bundled (bl_log b'))"
    if "m < length (bl_loaders b')" "pl_race (bl_loaders b' ! m) = Some other" for m other
    using that race [of m] bundleOkD(2) [OF ok] bundleOkD(3) [OF ok, of m other] served n log
    by (cases "m = l") auto
  have two: "m = k"
    if "m < length (bl_loaders b')" "k < length (bl_loaders b')"
      "pl_race (bl_loaders b' ! m) = Some other" "pl_race (bl_loaders b' ! k) = Some other" for m k other
  proof -
    have len: "m < length (bl_loaders b)" "k < length (bl_loaders b)" using that(1,2) n by simp_all
    have m: "m = l \<and> other = name \<or> m \<noteq> l \<and> pl_race (bl_loaders b ! m) = Some other"
      using that(3) race [OF len(1)] by (auto split: if_splits)
    have k: "k = l \<and> other = name \<or> k \<noteq> l \<and> pl_race (bl_loaders b ! k) = Some other"
      using that(4) race [OF len(2)] by (auto split: if_splits)
    from m k show "m = k"
      using bundleOkD(4) [OF ok len] other [OF len(1)] other [OF len(2)] served(2) by blast
  qed
  show ?thesis
    using one two bundleOkD(1,2) [OF ok] served log unfolding bundleOk_def by (simp add: subset_insertI2)
qed

text \<open>A race that is over gives its name up, to the bundle or to nobody.\<close>

lemma bundleOk_release:
  assumes ok: "bundleOk b" and n: "length (bl_loaders b') = length (bl_loaders b)"
    and l: "l < length (bl_loaders b)" "pl_race (bl_loaders b ! l) = Some name"
    and race: "\<And>m. m < length (bl_loaders b) \<Longrightarrow>
      pl_race (bl_loaders b' ! m) = (if m = l then None else pl_race (bl_loaders b ! m))"
    and served: "bl_served b' = bl_served b"
    and log: "bundled (bl_log b') = bundled (bl_log b) \<or> bundled (bl_log b') = bundled (bl_log b) @ [name]"
  shows "bundleOk b'"
proof -
  note name = bundleOkD(3) [OF ok l]
  have "distinct (bundled (bl_log b'))" "set (bundled (bl_log b')) \<subseteq> set (bl_served b')"
    using log name bundleOkD(1,2) [OF ok] served by auto
  moreover have "other \<in> set (bl_served b') \<and> other \<notin> set (bundled (bl_log b'))"
    if "m < length (bl_loaders b')" "pl_race (bl_loaders b' ! m) = Some other" for m other
  proof -
    have "m \<noteq> l" "pl_race (bl_loaders b ! m) = Some other" using that race [of m] n by (auto split: if_splits)
    moreover from this have "other \<noteq> name" using bundleOkD(4) [OF ok l(1), of m name] l(2) that n by auto
    ultimately show ?thesis using bundleOkD(3) [OF ok, of m other] that n served log by auto
  qed
  moreover have "m = k"
    if "m < length (bl_loaders b')" "k < length (bl_loaders b')"
      "pl_race (bl_loaders b' ! m) = Some other" "pl_race (bl_loaders b' ! k) = Some other" for m k other
    using that race [of m] race [of k] bundleOkD(4) [OF ok, of m k other] n by (auto split: if_splits)
  ultimately show ?thesis unfolding bundleOk_def by blast
qed

lemma bundleOk_load:
  assumes ok: "bundleOk b" and l: "l < length (bl_loaders b)" shows "bundleOk (loadPlaylist l url type b)"
proof (cases "type \<notin> set playlistTypes \<or> \<not> endsWith (playlistNameOf url) ''.m3u8'' \<or> playlistNameOf url \<in> set (bl_served b)")
  case True
  have "loadPlaylist l url type b = tells [BaseLoadPlaylist l] (onPlaylist l (\<lambda>pl. pl\<lparr>pl_loaded := True\<rparr>) b)"
    using True by (auto simp: loadPlaylist_def Let_def onPlaylist_def)
  moreover have "map pl_race (bl_loaders (onPlaylist l (\<lambda>pl. pl\<lparr>pl_loaded := True\<rparr>) b)) = map pl_race (bl_loaders b)"
    by (rule races_onPlaylist) simp
  ultimately show ?thesis
    by (intro bundleOk_same [OF ok]) (simp_all add: tells_def, simp_all add: onPlaylist_def)
next
  case False
  then show ?thesis
    by (intro bundleOk_claim [OF ok, where l = l and name = "playlistNameOf url"])
      (use l in \<open>simp_all add: loadPlaylist_def Let_def onPlaylist_def\<close>)
qed

lemma bundleOk_ready:
  assumes ok: "bundleOk b" and l: "l < length (bl_loaders b)" "pl_race (bl_loaders b ! l) = Some name"
  shows "bundleOk (bundleReady l name ready b)"
proof (rule bundleOk_release [OF ok _ l])
  show "length (bl_loaders (bundleReady l name ready b)) = length (bl_loaders b)"
    "bl_served (bundleReady l name ready b) = bl_served b"
    "bundled (bl_log (bundleReady l name ready b)) = bundled (bl_log b)
      \<or> bundled (bl_log (bundleReady l name ready b)) = bundled (bl_log b) @ [name]"
    by (simp_all add: bundleReady_def Let_def onPlaylist_def tells_def split: option.splits)
  show "pl_race (bl_loaders (bundleReady l name ready b) ! m) = (if m = l then None else pl_race (bl_loaders b ! m))"
    if "m < length (bl_loaders b)" for m
    using that l by (simp add: bundleReady_def Let_def onPlaylist_def tells_def nth_list_update split: option.splits)
qed

lemma bundleOk_stop:
  assumes "bundleOk b" and "\<And>es. bundled [e] = []"
  shows "bundleOk (tells [e] (onPlaylist l (\<lambda>pl. pl\<lparr>pl_answered := True\<rparr>) b))"
proof -
  have "map pl_race (bl_loaders (onPlaylist l (\<lambda>pl. pl\<lparr>pl_answered := True\<rparr>) b)) = map pl_race (bl_loaders b)"
    by (rule races_onPlaylist) simp
  then show ?thesis
    by (intro bundleOk_same [OF assms(1)]) (simp_all add: tells_def assms(2), simp_all add: onPlaylist_def)
qed

lemma bundleOk_new:
  assumes ok: "bundleOk b" shows "bundleOk (bundleStep b NewPlaylistLoader)" (is "bundleOk ?b")
proof -
  have race: "m < length (bl_loaders b) \<and> pl_race (bl_loaders b ! m) = Some other"
    if "m < length (bl_loaders ?b)" "pl_race (bl_loaders ?b ! m) = Some other" for m other
    using that by (cases "m < length (bl_loaders b)") (auto simp: nth_append less_Suc_eq)
  have "other \<in> set (bl_served ?b) \<and> other \<notin> set (bundled (bl_log ?b))"
    if "m < length (bl_loaders ?b)" "pl_race (bl_loaders ?b ! m) = Some other" for m other
    using race [OF that] bundleOkD(3) [OF ok, of m other] by simp
  moreover have "m = k"
    if "m < length (bl_loaders ?b)" "k < length (bl_loaders ?b)"
      "pl_race (bl_loaders ?b ! m) = Some other" "pl_race (bl_loaders ?b ! k) = Some other" for m k other
    using race [OF that(1,3)] race [OF that(2,4)] bundleOkD(4) [OF ok, of m k other] by simp
  moreover have "distinct (bundled (bl_log ?b))" "set (bundled (bl_log ?b)) \<subseteq> set (bl_served ?b)"
    using bundleOkD(1,2) [OF ok] by simp_all
  ultimately show ?thesis unfolding bundleOk_def by blast
qed

lemma bundleStep_keeps [keeps]:
  assumes ok: "bundleOk b" shows "bundleOk (bundleStep b e)"
proof (cases e)
  case NewPlaylistLoader
  then show ?thesis using bundleOk_new [OF ok] by simp
next
  case (BundleReady l ready)
  then show ?thesis using ok by (simp add: bundleOk_ready split: option.splits)
qed (simp_all add: ok bundleOk_load bundleOk_stop)

interpretation bundling: component bundleStep bundleOk
  by unfold_locales (rule bundleStep_keeps)

text \<open>no playlist is ever answered from the bundle twice, whatever loaders ask for it and whenever the bundle comes: from the second request on a growing playlist is read from the network, so no reload is frozen to the bundle's copy.\<close>

theorem playlist_comes_from_bundle_once:
  "distinct (bundled (bl_log (foldl bundleStep newBundled es)))"
proof -
  have "bundleOk (foldl bundleStep newBundled es)"
    by (rule bundling.run_keeps) (simp add: bundleOk_def newBundled_def)
  then show ?thesis by (simp add: bundleOk_def)
qed

end
