(* ===== verification/PlayerTools.thy ===== *)
theory PlayerTools
  imports SubtitleFormats
begin

text \<open>
  Small decisions of the player: the budget of recoveries (\<open>recovery.ts\<close>), the
  cues showing and their delay (\<open>activeCues.ts\<close>, \<open>subtitleDelay.ts\<close>), where the
  picture and the subtitles sit (\<open>subtitleLayout.ts\<close>), the way of a pointer to
  its panel (\<open>safeHover.ts\<close>), the audio menu (\<open>audioTracks.ts\<close>) and a picked
  subtitle file (\<open>subtitleImport.ts\<close>). The browser's names of languages are a
  parameter. How a delay is printed is left out: it depends on the rounding of
  64-bit numbers.
\<close>

section \<open>Recoveries (recovery.ts)\<close>

definition MAX_RECOVERIES :: nat where "MAX_RECOVERIES = 2"

definition FORGIVE_MS :: int where "FORGIVE_MS = 30000"

record recoveries =
  re_spent :: nat
  re_atMs :: int

definition nextRecovery :: "recoveries \<Rightarrow> int \<Rightarrow> recoveries option" where
  "nextRecovery current nowMs =
     (let spent = (if FORGIVE_MS \<le> nowMs - re_atMs current then 0 else re_spent current)
      in if MAX_RECOVERIES \<le> spent then None else Some \<lparr>re_spent = spent + 1, re_atMs = nowMs\<rparr>)"

lemma recoveries_are_rationed:
  assumes "nextRecovery c t1 = Some c1" and "nextRecovery c1 t2 = Some c2" and "nextRecovery c2 t3 = Some c3"
  shows "FORGIVE_MS \<le> t2 - t1 \<or> FORGIVE_MS \<le> t3 - t2"
  using assms by (auto simp: nextRecovery_def MAX_RECOVERIES_def Let_def split: if_splits)

section \<open>Cues (activeCues.ts, subtitleDelay.ts)\<close>

record text_cue =
  tc_start :: rat
  tc_end :: rat

definition activeCuesAt :: "text_cue list option \<Rightarrow> rat \<Rightarrow> text_cue list" where
  "activeCuesAt cues time =
     (case cues of None \<Rightarrow> [] | Some cs \<Rightarrow> filter (\<lambda>cue. tc_start cue \<le> time \<and> time < tc_end cue) cs)"

definition DELAY_LIMIT_MS :: int where "DELAY_LIMIT_MS = 600000"

text \<open>\<open>replace(/\s|s$/gi, '')\<close> and the first comma.\<close>

definition cleanDelay :: "string \<Rightarrow> string" where
  "cleanDelay s =
     (let unit = (s \<noteq> [] \<and> (last s = CHR ''s'' \<or> last s = CHR ''S''));
          bare = filter (\<lambda>c. \<not> isSpace c) (if unit then butlast s else s)
      in case indexOfChar CHR '','' bare of
           None \<Rightarrow> bare
         | Some i \<Rightarrow> take i bare @ ''.'' @ drop (Suc i) bare)"

text \<open>\<open>/^[+-]?\d*\.?\d+$/\<close>, and the number it spells.\<close>

definition delayNumber :: "string \<Rightarrow> rat option" where
  "delayNumber s =
     (let (sign, r) = (case s of [] \<Rightarrow> (1, s)
            | c # t \<Rightarrow> if c = CHR ''-'' then (- 1, t) else if c = CHR ''+'' then (1, t) else (1, s));
          whole = takeWhile isDigit r;
          rest = dropWhile isDigit r
      in case rest of
           [] \<Rightarrow> if whole = [] then None else Some (sign * of_nat (num whole))
         | c # fraction \<Rightarrow>
             if c = CHR ''.'' \<and> allDigits fraction
             then Some (sign * (of_nat (num whole) + of_nat (num fraction) / 10 ^ length fraction)) else None)"

definition parseDelay :: "string \<Rightarrow> int option" where
  "parseDelay s =
     map_option (\<lambda>seconds. max (- DELAY_LIMIT_MS) (min DELAY_LIMIT_MS (js_round (seconds * 1000))))
       (delayNumber (cleanDelay s))"

definition retimeCues :: "text_cue list option \<Rightarrow> rat \<Rightarrow> text_cue list option" where
  "retimeCues cues deltaSec =
     (if deltaSec = 0 then cues
      else map_option (map (\<lambda>cue. cue\<lparr>tc_start := tc_start cue + deltaSec, tc_end := tc_end cue + deltaSec\<rparr>)) cues)"

text \<open>A delay within the limit, whatever was typed.\<close>

lemma parsed_delay_is_bounded: "parseDelay s = Some ms \<Longrightarrow> \<bar>ms\<bar> \<le> DELAY_LIMIT_MS"
  by (auto simp: parseDelay_def DELAY_LIMIT_MS_def)

lemma retimed_cues_show_later:
  "map Some (activeCuesAt (retimeCues cues d) (time + d))
     = map (\<lambda>cue. Some (cue\<lparr>tc_start := tc_start cue + d, tc_end := tc_end cue + d\<rparr>)) (activeCuesAt cues time)"
  by (cases cues) (auto simp: activeCuesAt_def retimeCues_def filter_map comp_def)

section \<open>The picture (subtitleLayout.ts)\<close>

record content_rect =
  cr_left :: rat
  cr_top :: rat
  cr_width :: rat
  cr_height :: rat

definition videoContentRect :: "rat \<Rightarrow> rat \<Rightarrow> rat \<Rightarrow> rat \<Rightarrow> content_rect" where
  "videoContentRect clientWidth clientHeight videoWidth videoHeight =
     (if videoWidth = 0 \<or> videoHeight = 0 \<or> clientWidth = 0 \<or> clientHeight = 0
      then \<lparr>cr_left = 0, cr_top = 0, cr_width = clientWidth, cr_height = clientHeight\<rparr>
      else
        let scale = min (clientWidth / videoWidth) (clientHeight / videoHeight);
            width = videoWidth * scale;
            height = videoHeight * scale
        in \<lparr>cr_left = (clientWidth - width) / 2, cr_top = (clientHeight - height) / 2,
            cr_width = width, cr_height = height\<rparr>)"

definition subtitleFontSize :: "rat \<Rightarrow> int" where
  "subtitleFontSize pictureHeight = max 13 (js_round (pictureHeight * 45 / 1000))"

lemma picture_fits:
  assumes "0 < cw" "0 < ch" "0 < vw" "0 < vh"
  defines "r \<equiv> videoContentRect cw ch vw vh"
  shows "0 \<le> cr_left r" "cr_left r + cr_width r \<le> cw" "0 \<le> cr_top r" "cr_top r + cr_height r \<le> ch"
    and "cr_width r * vh = cr_height r * vw" and "cr_width r = cw \<or> cr_height r = ch"
proof -
  let ?s = "min (cw / vw) (ch / vh)"
  have "vw * ?s \<le> vw * (cw / vw)" by (rule mult_left_mono [OF min.cobounded1]) (use assms in simp)
  moreover have "vh * ?s \<le> vh * (ch / vh)" by (rule mult_left_mono [OF min.cobounded2]) (use assms in simp)
  moreover have "vw * (cw / vw) = cw" "vh * (ch / vh) = ch" using assms by simp_all
  ultimately have "vw * ?s \<le> cw" "vh * ?s \<le> ch" by linarith+
  then show "0 \<le> cr_left r" "cr_left r + cr_width r \<le> cw" "0 \<le> cr_top r" "cr_top r + cr_height r \<le> ch"
    unfolding r_def videoContentRect_def Let_def using assms by (auto simp: field_simps)
  show "cr_width r * vh = cr_height r * vw" "cr_width r = cw \<or> cr_height r = ch"
    unfolding r_def videoContentRect_def Let_def using assms by (auto simp: min_def)
qed

section \<open>The way to a panel (safeHover.ts)\<close>

record point =
  px :: rat
  py :: rat

record box =
  bx_left :: rat
  bx_right :: rat
  bx_top :: rat
  bx_bottom :: rat

abbreviation pointXY :: "rat \<Rightarrow> rat \<Rightarrow> point" where
  "pointXY x y \<equiv> \<lparr>px = x, py = y\<rparr>"

definition safeTriangle :: "point \<Rightarrow> box \<Rightarrow> point \<times> point \<times> point" where
  "safeTriangle start panel =
     (if bx_bottom panel \<le> py start
      then (start, pointXY (bx_left panel) (bx_bottom panel), pointXY (bx_right panel) (bx_bottom panel))
      else if py start \<le> bx_top panel
      then (start, pointXY (bx_left panel) (bx_top panel), pointXY (bx_right panel) (bx_top panel))
      else if bx_right panel \<le> px start
      then (start, pointXY (bx_right panel) (bx_top panel), pointXY (bx_right panel) (bx_bottom panel))
      else (start, pointXY (bx_left panel) (bx_top panel), pointXY (bx_left panel) (bx_bottom panel)))"

definition crossOf :: "point \<Rightarrow> point \<Rightarrow> point \<Rightarrow> rat" where
  "crossOf a b p = (px b - px a) * (py p - py a) - (py b - py a) * (px p - px a)"

definition inTriangle :: "point \<Rightarrow> point \<Rightarrow> point \<Rightarrow> point \<Rightarrow> bool" where
  "inTriangle p a b c =
     (let d1 = crossOf a b p; d2 = crossOf b c p; d3 = crossOf c a p;
          negative = d1 < 0 \<or> d2 < 0 \<or> d3 < 0;
          positive = 0 < d1 \<or> 0 < d2 \<or> 0 < d3
      in \<not> (negative \<and> positive))"

definition inBox :: "point \<Rightarrow> box \<Rightarrow> bool" where
  "inBox p panel \<longleftrightarrow> bx_left panel \<le> px p \<and> px p \<le> bx_right panel \<and> bx_top panel \<le> py p \<and> py p \<le> bx_bottom panel"

definition heading :: "point \<Rightarrow> point \<Rightarrow> box \<Rightarrow> bool" where
  "heading p start panel =
     (if inBox p panel then True
      else let (a, b, c) = safeTriangle start panel in inTriangle p a b c)"

text \<open>The point a share \<open>u\<close> of the way from \<open>a\<close> to the point a share \<open>v\<close> along the edge from \<open>b\<close> to \<open>c\<close>.\<close>

definition onTheWay :: "rat \<Rightarrow> rat \<Rightarrow> point \<Rightarrow> point \<Rightarrow> point \<Rightarrow> point" where
  "onTheWay u v a b c =
     pointXY (px a + u * ((1 - v) * px b + v * px c - px a)) (py a + u * ((1 - v) * py b + v * py c - py a))"

lemma way_in_triangle:
  assumes "0 \<le> u" "u \<le> 1" "0 \<le> v" "v \<le> 1"
  shows "inTriangle (onTheWay u v a b c) a b c"
proof -
  let ?D = "crossOf a b c" and ?p = "onTheWay u v a b c"
  have d: "crossOf a b ?p = (u * v) * ?D" "crossOf b c ?p = (1 - u) * ?D" "crossOf c a ?p = (u * (1 - v)) * ?D"
    by (simp_all add: crossOf_def onTheWay_def algebra_simps)
  have s: "0 \<le> u * v" "0 \<le> 1 - u" "0 \<le> u * (1 - v)" using assms by simp_all
  show ?thesis
  proof (cases "0 \<le> ?D")
    case True
    then have "0 \<le> crossOf a b ?p" "0 \<le> crossOf b c ?p" "0 \<le> crossOf c a ?p" unfolding d using s by simp_all
    then show ?thesis by (auto simp: inTriangle_def Let_def)
  next
    case False
    then have "crossOf a b ?p \<le> 0" "crossOf b c ?p \<le> 0" "crossOf c a ?p \<le> 0"
      unfolding d using s by (simp_all add: mult_nonneg_nonpos)
    then show ?thesis by (auto simp: inTriangle_def Let_def)
  qed
qed

text \<open>A pointer that goes straight to the panel's near edge, at any speed and to any place of the edge, is heading for it all along.\<close>

lemma straight_way_is_heading:
  assumes "0 \<le> u" "u \<le> 1" "0 \<le> v" "v \<le> 1"
  shows "case safeTriangle start panel of (a, b, c) \<Rightarrow> heading (onTheWay u v a b c) start panel"
  using way_in_triangle [OF assms] by (auto simp: heading_def split: prod.splits)

section \<open>The audio menu (audioTracks.ts)\<close>

definition THREE_TO_TWO :: "(string \<times> string) list" where
  "THREE_TO_TWO = [
     (''alb'', ''sq''), (''sqi'', ''sq''), (''arm'', ''hy''), (''hye'', ''hy''), (''baq'', ''eu''), (''eus'', ''eu''),
     (''bur'', ''my''), (''mya'', ''my''), (''chi'', ''zh''), (''zho'', ''zh''), (''cze'', ''cs''), (''ces'', ''cs''),
     (''dut'', ''nl''), (''nld'', ''nl''), (''fre'', ''fr''), (''fra'', ''fr''), (''geo'', ''ka''), (''kat'', ''ka''),
     (''ger'', ''de''), (''deu'', ''de''), (''gre'', ''el''), (''ell'', ''el''), (''ice'', ''is''), (''isl'', ''is''),
     (''mac'', ''mk''), (''mkd'', ''mk''), (''mao'', ''mi''), (''mri'', ''mi''), (''may'', ''ms''), (''msa'', ''ms''),
     (''per'', ''fa''), (''fas'', ''fa''), (''rum'', ''ro''), (''ron'', ''ro''), (''slo'', ''sk''), (''slk'', ''sk''),
     (''tib'', ''bo''), (''bod'', ''bo''), (''wel'', ''cy''), (''cym'', ''cy''), (''afr'', ''af''), (''ara'', ''ar''),
     (''ben'', ''bn''), (''bul'', ''bg''), (''cat'', ''ca''), (''dan'', ''da''), (''eng'', ''en''), (''est'', ''et''),
     (''fin'', ''fi''), (''glg'', ''gl''), (''heb'', ''he''), (''hin'', ''hi''), (''hrv'', ''hr''), (''hun'', ''hu''),
     (''ind'', ''id''), (''ita'', ''it''), (''jpn'', ''ja''), (''kor'', ''ko''), (''lav'', ''lv''), (''lit'', ''lt''),
     (''nor'', ''no''), (''pol'', ''pl''), (''por'', ''pt''), (''rus'', ''ru''), (''slv'', ''sl''), (''spa'', ''es''),
     (''srp'', ''sr''), (''swe'', ''sv''), (''tam'', ''ta''), (''tel'', ''te''), (''tgl'', ''tl''), (''tha'', ''th''),
     (''tur'', ''tr''), (''ukr'', ''uk''), (''urd'', ''ur''), (''vie'', ''vi'')]"

text \<open>\<open>/^audio_\d+$/\<close>.\<close>

definition ffmpegPlaceholder :: "string \<Rightarrow> bool" where
  "ffmpegPlaceholder name =
     (case stripPrefix ''audio_'' name of None \<Rightarrow> False | Some r \<Rightarrow> allDigits r)"

definition numberedLanguage :: "string \<Rightarrow> string option \<Rightarrow> bool" where
  "numberedLanguage name lang =
     (let l = orElse lang []
      in l \<noteq> [] \<and> startsWith (lower name) (lower l @ ''-'') \<and> allDigits (drop (length l + 1) name))"

definition capitalize :: "string \<Rightarrow> string" where
  "capitalize s = (case s of [] \<Rightarrow> []
     | c # r \<Rightarrow> (if 97 \<le> codeOf c \<and> codeOf c \<le> 122 then chr (codeOf c - 32) else c) # r)"

text \<open>\<open>names\<close> is \<open>Intl.DisplayNames\<close> of the locale: a name, or none when it has none or throws. Of its first letter only the ASCII ones are put in upper case.\<close>

definition languageTag :: "string \<Rightarrow> string" where
  "languageTag normalized =
     (case splitOn CHR ''-'' normalized of
        [] \<Rightarrow> []
      | base # rest \<Rightarrow> joinWith ''-'' (orElse (map_of THREE_TO_TWO base) base # rest))"

definition languageLabel :: "(string \<Rightarrow> string option) \<Rightarrow> string \<Rightarrow> string option" where
  "languageLabel names code =
     (let normalized = map (\<lambda>c. if c = CHR ''_'' then CHR ''-'' else c) (lower (trim code))
      in if normalized = [] \<or> normalized = ''und'' then None
         else
           let tag = languageTag normalized;
               name = orElse (names tag) []
           in if name = [] \<or> lower name = lower tag then None else Some (capitalize name))"

definition audioTrackLabel :: "(string \<Rightarrow> string option) \<Rightarrow> string option \<Rightarrow> string option \<Rightarrow> nat \<Rightarrow> string" where
  "audioTrackLabel names trackName lang index =
     (let name = trim (orElse trackName [])
      in if name \<noteq> [] \<and> \<not> ffmpegPlaceholder name \<and> \<not> numberedLanguage name lang then name
         else if orElse lang [] \<noteq> [] then orElse (languageLabel names (orElse lang [])) (orElse lang [])
         else dec (index + 1))"

section \<open>A picked subtitle file (subtitleImport.ts)\<close>

definition MAX_TITLE :: nat where "MAX_TITLE = 120"

text \<open>The file's text is given; \<open>None\<close> is the error \<open>unsupported\<close>.\<close>

definition readSubtitleFile :: "string \<Rightarrow> string \<Rightarrow> vtt_track option" where
  "readSubtitleFile name contents =
     (if \<not> isSubtitleFileName name then None
      else map_option (\<lambda>track. track\<lparr>vt_title := take MAX_TITLE name\<rparr>) (convertSubtitleText name contents))"

end
