(* ===== verification/CallPool.thy ===== *)
theory CallPool
  imports Prelude
begin

text \<open>
  Watching the other members of a room: the pool that keeps one relay
  subscription per wanted key alive (\<open>call/subscriptions.ts\<close>), which members are
  worth subscribing to (\<open>call/plan.ts\<close>), who is talking (\<open>call/speaking.ts\<close>) and
  which device is used (\<open>call/devices.ts\<close>). Times are milliseconds.
\<close>

section \<open>The subscription pool (subscriptions.ts)\<close>

datatype watch_status = WatchOffline | WatchLoading | WatchLive

definition RETRY_MS :: rat where "RETRY_MS = 4000"

definition LOADING_RETRY_MS :: rat where "LOADING_RETRY_MS = 15000"

text \<open>
  An \<open>Entry\<close> is an object: the map holds it and the promises and listeners of its
  subscriptions captured it, so it has an identity, \<open>en_id\<close>. A watch is named by
  the number of the \<open>open\<close> that gave it; \<open>en_off\<close> is the watch whose listener the
  entry's \<open>off\<close> removes.
\<close>

record pool_entry =
  en_id :: nat
  en_watch :: "nat option"
  en_status :: watch_status
  en_off :: "nat option"
  en_generation :: nat
  en_openedAt :: rat
  en_reopenAt :: "rat option"

record pool_options =
  op_retryMs :: "rat option"
  op_loadingRetryMs :: "rat option"
  op_gapMs :: "rat option"

datatype pool_effect =
    OpenedWatch string nat
  | ToldStatus string "watch_status option" "nat option"
  | Listened nat
  | Unlistened nat
  | WatchClosed nat

text \<open>
  Beside \<open>entries\<close>: the opens under way, each with the key, entry and generation
  its \<open>then\<close> captured; the listeners the watches hold, each with the key and entry
  its \<open>apply\<close> captured; how many entries and opens there were; what was done.
\<close>

record pool =
  pl_entries :: "(string, pool_entry) jsmap"
  pl_pending :: "(nat \<times> string \<times> nat \<times> nat) list"
  pl_listening :: "(nat \<times> string \<times> nat) list"
  pl_made :: nat
  pl_opened :: nat
  pl_log :: "pool_effect list"

definition newPool :: pool where
  "newPool = \<lparr>pl_entries = [], pl_pending = [], pl_listening = [], pl_made = 0, pl_opened = 0, pl_log = []\<rparr>"

definition poolNote :: "pool_effect list \<Rightarrow> pool \<Rightarrow> pool" where
  "poolNote es pl = pl\<lparr>pl_log := pl_log pl @ es\<rparr>"

text \<open>
  \<open>open(key, entry)\<close>: \<open>opens key\<close> is whether the caller's \<open>open\<close> gives a promise
  now. The entry is the one the map has under the key, as at every call.
\<close>

definition openKey :: "(string \<Rightarrow> bool) \<Rightarrow> string \<Rightarrow> pool \<Rightarrow> pool" where
  "openKey opens key pl =
     (case mapGet (pl_entries pl) key of
        None \<Rightarrow> pl
      | Some entry \<Rightarrow>
          if \<not> opens key then pl
          else poolNote [OpenedWatch key (pl_opened pl)]
                 (pl\<lparr>pl_pending := pl_pending pl @ [(pl_opened pl, key, en_id entry, en_generation entry)],
                     pl_opened := Suc (pl_opened pl)\<rparr>))"

text \<open>\<open>release(entry)\<close>: stop listening, then close the watch; both fields are cleared.\<close>

definition releaseEntry :: "pool_entry \<Rightarrow> pool \<Rightarrow> pool" where
  "releaseEntry entry pl =
     poolNote ((case en_off entry of None \<Rightarrow> [] | Some w \<Rightarrow> [Unlistened w])
               @ (case en_watch entry of None \<Rightarrow> [] | Some w \<Rightarrow> [WatchClosed w]))
       (pl\<lparr>pl_listening := (case en_off entry of None \<Rightarrow> pl_listening pl | Some w \<Rightarrow> mapDelete w (pl_listening pl))\<rparr>)"

definition released :: "pool_entry \<Rightarrow> pool_entry" where
  "released entry = entry\<lparr>en_off := None, en_watch := None\<rparr>"

definition setEntry :: "string \<Rightarrow> pool_entry \<Rightarrow> pool \<Rightarrow> pool" where
  "setEntry key entry pl = pl\<lparr>pl_entries := mapSet key entry (pl_entries pl)\<rparr>"

definition want :: "rat \<Rightarrow> (string \<Rightarrow> bool) \<Rightarrow> string \<Rightarrow> pool \<Rightarrow> pool" where
  "want now opens key pl =
     (if mapGet (pl_entries pl) key \<noteq> None then pl
      else openKey opens key
             (setEntry key \<lparr>en_id = pl_made pl, en_watch = None, en_status = WatchOffline, en_off = None,
                            en_generation = 0, en_openedAt = now, en_reopenAt = None\<rparr>
                (pl\<lparr>pl_made := Suc (pl_made pl)\<rparr>)))"

text \<open>The generation bumped on a dropped entry shows nowhere: \<open>entries.get(key) !== entry\<close> already holds of it.\<close>

definition dropKey :: "string \<Rightarrow> pool \<Rightarrow> pool" where
  "dropKey key pl =
     (case mapGet (pl_entries pl) key of
        None \<Rightarrow> pl
      | Some entry \<Rightarrow>
          poolNote [ToldStatus key None None]
            (releaseEntry entry (pl\<lparr>pl_entries := mapDelete key (pl_entries pl)\<rparr>)))"

definition poolGet :: "string \<Rightarrow> pool \<Rightarrow> nat option" where
  "poolGet key pl = Option.bind (mapGet (pl_entries pl) key) en_watch"

definition refreshKey :: "rat \<Rightarrow> (string \<Rightarrow> bool) \<Rightarrow> string \<Rightarrow> pool \<Rightarrow> pool" where
  "refreshKey now opens key pl =
     (case mapGet (pl_entries pl) key of
        None \<Rightarrow> pl
      | Some entry \<Rightarrow>
          if en_watch entry \<noteq> None \<or> en_reopenAt entry \<noteq> None then pl
          else openKey opens key
                 (setEntry key (entry\<lparr>en_generation := Suc (en_generation entry), en_openedAt := now\<rparr>) pl))"

definition poolRefresh :: "rat \<Rightarrow> (string \<Rightarrow> bool) \<Rightarrow> pool \<Rightarrow> pool" where
  "poolRefresh now opens pl = fold (refreshKey now opens) (mapKeys (pl_entries pl)) pl"

text \<open>\<open>if (this.options.gapMs)\<close>: a gap of 0 is none.\<close>

definition gapOf :: "pool_options \<Rightarrow> rat option" where
  "gapOf o' = (case op_gapMs o' of Some g \<Rightarrow> if g = 0 then None else Some g | None \<Rightarrow> None)"

definition reopenKey :: "pool_options \<Rightarrow> rat \<Rightarrow> (string \<Rightarrow> bool) \<Rightarrow> string \<Rightarrow> pool \<Rightarrow> pool" where
  "reopenKey o' now opens key pl =
     (case mapGet (pl_entries pl) key of
        None \<Rightarrow> pl
      | Some entry \<Rightarrow>
          let fresh = (released entry)\<lparr>en_status := WatchOffline, en_generation := Suc (en_generation entry), en_openedAt := now\<rparr>;
              pl' = releaseEntry entry pl
          in case gapOf o' of
               Some gap \<Rightarrow> setEntry key (fresh\<lparr>en_reopenAt := Some (now + gap)\<rparr>) pl'
             | None \<Rightarrow> openKey opens key (setEntry key fresh pl'))"

definition retryOf :: "pool_options \<Rightarrow> watch_status \<Rightarrow> rat" where
  "retryOf o' status =
     (if status = WatchLoading then orElse (op_loadingRetryMs o') LOADING_RETRY_MS
      else orElse (op_retryMs o') RETRY_MS)"

definition tickKey :: "pool_options \<Rightarrow> rat \<Rightarrow> (string \<Rightarrow> bool) \<Rightarrow> string \<Rightarrow> pool \<Rightarrow> pool" where
  "tickKey o' now opens key pl =
     (case mapGet (pl_entries pl) key of
        None \<Rightarrow> pl
      | Some entry \<Rightarrow>
          (case en_reopenAt entry of
             Some due \<Rightarrow>
               if now < due then pl
               else openKey opens key (setEntry key (entry\<lparr>en_reopenAt := None, en_openedAt := now\<rparr>) pl)
           | None \<Rightarrow>
               if en_status entry = WatchLive then pl
               else if now - en_openedAt entry < retryOf o' (en_status entry) then pl
               else reopenKey o' now opens key pl))"

text \<open>One pass reads the clock once for its comparisons; the reopens inside read it again, a moment later, which is taken as the same.\<close>

definition poolTick :: "pool_options \<Rightarrow> rat \<Rightarrow> (string \<Rightarrow> bool) \<Rightarrow> pool \<Rightarrow> pool" where
  "poolTick o' now opens pl = fold (tickKey o' now opens) (mapKeys (pl_entries pl)) pl"

definition closePool :: "pool \<Rightarrow> pool" where
  "closePool pl = fold dropKey (mapKeys (pl_entries pl)) pl"

text \<open>
  The \<open>then\<close> of an open: a watch whose entry is gone or moved on is closed; one
  that is still wanted is kept, its status told, and listened to.
\<close>

definition watchCame :: "nat \<Rightarrow> watch_status \<Rightarrow> pool \<Rightarrow> pool" where
  "watchCame w status pl =
     (case mapGet (pl_pending pl) w of
        None \<Rightarrow> pl
      | Some (key, eid, generation) \<Rightarrow>
          let pl' = pl\<lparr>pl_pending := mapDelete w (pl_pending pl)\<rparr>
          in case mapGet (pl_entries pl) key of
               None \<Rightarrow> poolNote [WatchClosed w] pl'
             | Some entry \<Rightarrow>
                 if en_id entry \<noteq> eid \<or> en_generation entry \<noteq> generation then poolNote [WatchClosed w] pl'
                 else poolNote [ToldStatus key (Some status) (Some w), Listened w]
                        (setEntry key (entry\<lparr>en_watch := Some w, en_status := status, en_off := Some w\<rparr>)
                           (pl'\<lparr>pl_listening := pl_listening pl @ [(w, key, eid)]\<rparr>)))"

definition openFailed :: "nat \<Rightarrow> pool \<Rightarrow> pool" where
  "openFailed w pl = pl\<lparr>pl_pending := mapDelete w (pl_pending pl)\<rparr>"

text \<open>
  \<open>apply\<close>, called by a watch that changes its status while it is listened to. It
  writes the entry it captured, which shows only if the map still has it.
\<close>

definition statusChanged :: "nat \<Rightarrow> watch_status \<Rightarrow> pool \<Rightarrow> pool" where
  "statusChanged w status pl =
     (case mapGet (pl_listening pl) w of
        None \<Rightarrow> pl
      | Some (key, eid) \<Rightarrow>
          poolNote [ToldStatus key (Some status) (Some w)]
            (case mapGet (pl_entries pl) key of
               None \<Rightarrow> pl
             | Some entry \<Rightarrow> if en_id entry = eid then setEntry key (entry\<lparr>en_status := status\<rparr>) pl else pl))"

datatype pool_event =
    Want string
  | DropKey string
  | RefreshAll
  | TickAll
  | ReopenKey string
  | ClosePool
  | WatchCame nat watch_status
  | OpenFailed nat
  | StatusChanged nat watch_status

text \<open>An event comes at a time, and with what the caller's \<open>open\<close> would give at that time.\<close>

fun poolStep :: "pool_options \<Rightarrow> pool \<Rightarrow> rat \<times> (string \<Rightarrow> bool) \<times> pool_event \<Rightarrow> pool" where
  "poolStep o' pl (now, opens, Want key) = want now opens key pl"
| "poolStep o' pl (now, opens, DropKey key) = dropKey key pl"
| "poolStep o' pl (now, opens, RefreshAll) = poolRefresh now opens pl"
| "poolStep o' pl (now, opens, TickAll) = poolTick o' now opens pl"
| "poolStep o' pl (now, opens, ReopenKey key) = reopenKey o' now opens key pl"
| "poolStep o' pl (now, opens, ClosePool) = closePool pl"
| "poolStep o' pl (now, opens, WatchCame w status) = watchCame w status pl"
| "poolStep o' pl (now, opens, OpenFailed w) = openFailed w pl"
| "poolStep o' pl (now, opens, StatusChanged w status) = statusChanged w status pl"

subsection \<open>No watch is lost\<close>

definition closesOf :: "nat \<Rightarrow> pool_effect list \<Rightarrow> nat" where
  "closesOf w es = length (filter ((=) (WatchClosed w)) es)"

definition listensOf :: "nat \<Rightarrow> pool_effect list \<Rightarrow> nat" where
  "listensOf w es = length (filter ((=) (Listened w)) es)"

lemma closesOf_simps [simp]:
  "closesOf w [] = 0"
  "closesOf w (e # es) = (if e = WatchClosed w then Suc (closesOf w es) else closesOf w es)"
  "closesOf w (xs @ ys) = closesOf w xs + closesOf w ys"
  by (auto simp: closesOf_def)

lemma listensOf_simps [simp]:
  "listensOf w [] = 0"
  "listensOf w (e # es) = (if e = Listened w then Suc (listensOf w es) else listensOf w es)"
  "listensOf w (xs @ ys) = listensOf w xs + listensOf w ys"
  by (auto simp: listensOf_def)

text \<open>The pool's entries and the listeners the watches hold are two views of one relation.\<close>

definition heldOk :: "pool \<Rightarrow> bool" where
  "heldOk pl \<longleftrightarrow>
     (\<forall>key e. mapGet (pl_entries pl) key = Some e \<longrightarrow>
        en_id e < pl_made pl \<and> en_off e = en_watch e
        \<and> (en_reopenAt e \<noteq> None \<longrightarrow> en_watch e = None)
        \<and> (\<forall>w. en_watch e = Some w \<longrightarrow> mapGet (pl_listening pl) w = Some (key, en_id e)))
     \<and> (\<forall>w key eid. mapGet (pl_listening pl) w = Some (key, eid) \<longrightarrow>
          (\<exists>e. mapGet (pl_entries pl) key = Some e \<and> en_id e = eid \<and> en_watch e = Some w))"

text \<open>An entry waits for at most one open of its current generation, and only while it holds no watch.\<close>

definition pendingOk :: "pool \<Rightarrow> bool" where
  "pendingOk pl \<longleftrightarrow>
     (\<forall>w key eid g. mapGet (pl_pending pl) w = Some (key, eid, g) \<longrightarrow>
        w < pl_opened pl \<and> eid < pl_made pl
        \<and> (\<forall>e. mapGet (pl_entries pl) key = Some e \<and> en_id e = eid \<longrightarrow>
             g \<le> en_generation e \<and> (g = en_generation e \<longrightarrow> en_watch e = None \<and> en_reopenAt e = None))
        \<and> (\<forall>w'. mapGet (pl_pending pl) w' = Some (key, eid, g) \<longrightarrow> w' = w))"

definition watchOk :: "pool \<Rightarrow> nat \<Rightarrow> bool" where
  "watchOk pl w \<longleftrightarrow>
     closesOf w (pl_log pl) \<le> 1
     \<and> (pl_opened pl \<le> w \<or> mapGet (pl_pending pl) w \<noteq> None \<longrightarrow>
          closesOf w (pl_log pl) = 0 \<and> listensOf w (pl_log pl) = 0 \<and> mapGet (pl_listening pl) w = None)
     \<and> (mapGet (pl_listening pl) w \<noteq> None \<longrightarrow> closesOf w (pl_log pl) = 0 \<and> listensOf w (pl_log pl) = 1)
     \<and> (mapGet (pl_listening pl) w = None \<and> 0 < listensOf w (pl_log pl) \<longrightarrow> closesOf w (pl_log pl) = 1)"

definition poolOk :: "pool \<Rightarrow> bool" where
  "poolOk pl \<longleftrightarrow> heldOk pl \<and> pendingOk pl \<and> (\<forall>w. watchOk pl w)"

lemma heldOkD:
  assumes "heldOk pl" "mapGet (pl_entries pl) key = Some e"
  shows "en_id e < pl_made pl" "en_off e = en_watch e" "en_reopenAt e \<noteq> None \<Longrightarrow> en_watch e = None"
    "en_watch e = Some w \<Longrightarrow> mapGet (pl_listening pl) w = Some (key, en_id e)"
  using assms unfolding heldOk_def by blast+

lemma heldOk_listening:
  assumes "heldOk pl" "mapGet (pl_listening pl) w = Some (key, eid)"
  shows "\<exists>e. mapGet (pl_entries pl) key = Some e \<and> en_id e = eid \<and> en_watch e = Some w"
  using assms unfolding heldOk_def by blast

text \<open>No open of the entry's generation is under way.\<close>

definition unopened :: "pool \<Rightarrow> string \<Rightarrow> pool_entry \<Rightarrow> bool" where
  "unopened pl key e \<longleftrightarrow> (\<forall>w. mapGet (pl_pending pl) w \<noteq> Some (key, en_id e, en_generation e))"

lemma poolNote_sel [simp]:
  "pl_entries (poolNote es pl) = pl_entries pl" "pl_pending (poolNote es pl) = pl_pending pl"
  "pl_listening (poolNote es pl) = pl_listening pl" "pl_made (poolNote es pl) = pl_made pl"
  "pl_opened (poolNote es pl) = pl_opened pl" "pl_log (poolNote es pl) = pl_log pl @ es"
  by (simp_all add: poolNote_def)

lemma setEntry_sel [simp]:
  "pl_entries (setEntry key e pl) = mapSet key e (pl_entries pl)" "pl_pending (setEntry key e pl) = pl_pending pl"
  "pl_listening (setEntry key e pl) = pl_listening pl" "pl_made (setEntry key e pl) = pl_made pl"
  "pl_opened (setEntry key e pl) = pl_opened pl" "pl_log (setEntry key e pl) = pl_log pl"
  by (simp_all add: setEntry_def)

lemma releaseEntry_sel [simp]:
  "pl_entries (releaseEntry e pl) = pl_entries pl" "pl_pending (releaseEntry e pl) = pl_pending pl"
  "pl_made (releaseEntry e pl) = pl_made pl" "pl_opened (releaseEntry e pl) = pl_opened pl"
  by (simp_all add: releaseEntry_def)

text \<open>What releasing an entry that the pool holds does to the listeners and the log.\<close>

lemma releaseEntry_held:
  assumes "en_off e = en_watch e"
  shows "mapGet (pl_listening (releaseEntry e pl)) w = (if en_watch e = Some w then None else mapGet (pl_listening pl) w)"
    "closesOf w (pl_log (releaseEntry e pl)) = closesOf w (pl_log pl) + (if en_watch e = Some w then 1 else 0)"
    "listensOf w (pl_log (releaseEntry e pl)) = listensOf w (pl_log pl)"
  using assms by (auto simp: releaseEntry_def split: option.splits)

lemma poolOk_drop:
  assumes ok: "poolOk pl" and e: "mapGet (pl_entries pl) key = Some e"
    and ents: "\<And>k. mapGet (pl_entries pl') k = (if k = key then x else mapGet (pl_entries pl) k)"
    and x: "\<And>e'. x = Some e' \<Longrightarrow> en_id e' = en_id e \<and> en_watch e' = None \<and> en_off e' = None
              \<and> en_generation e \<le> en_generation e' \<and> unopened pl key e'"
    and same: "pl_pending pl' = pl_pending pl" "pl_made pl' = pl_made pl" "pl_opened pl' = pl_opened pl"
      "pl_listening pl' = pl_listening (releaseEntry e pl)"
      "\<And>w. closesOf w (pl_log pl') = closesOf w (pl_log (releaseEntry e pl))"
      "\<And>w. listensOf w (pl_log pl') = listensOf w (pl_log (releaseEntry e pl))"
  shows "poolOk pl'"
proof -
  have held: "heldOk pl" and pend: "pendingOk pl" and watch: "\<And>w. watchOk pl w" using ok by (auto simp: poolOk_def)
  note off = heldOkD(2) [OF held e]
  have listen: "mapGet (pl_listening pl') w = (if en_watch e = Some w then None else mapGet (pl_listening pl) w)" for w
    using releaseEntry_held(1) [OF off] same(4) by simp
  have 1: "heldOk pl'"
    unfolding heldOk_def
  proof (intro conjI allI impI)
    fix k e' assume k: "mapGet (pl_entries pl') k = Some e'"
    show "en_id e' < pl_made pl'" "en_off e' = en_watch e'"
      using k ents [of k] x heldOkD(1,2) [OF held] e same(2) by (auto split: if_splits)
    show "en_watch e' = None" if "en_reopenAt e' \<noteq> None"
      using that k ents [of k] x heldOkD(3) [OF held] by (auto split: if_splits)
    show "mapGet (pl_listening pl') w = Some (k, en_id e')" if "en_watch e' = Some w" for w
    proof -
      have "k \<noteq> key" "mapGet (pl_entries pl) k = Some e'" using that k ents [of k] x by (auto split: if_splits)
      moreover then have "mapGet (pl_listening pl) w = Some (k, en_id e')" using heldOkD(4) [OF held] that by blast
      moreover have "en_watch e \<noteq> Some w"
        using heldOkD(4) [OF held e] calculation by auto
      ultimately show ?thesis using listen by simp
    qed
  next
    fix w k eid assume "mapGet (pl_listening pl') w = Some (k, eid)"
    then have l: "mapGet (pl_listening pl) w = Some (k, eid)" "en_watch e \<noteq> Some w" using listen by (auto split: if_splits)
    then obtain e' where "mapGet (pl_entries pl) k = Some e'" "en_id e' = eid" "en_watch e' = Some w"
      using heldOk_listening [OF held] by blast
    then show "\<exists>e'. mapGet (pl_entries pl') k = Some e' \<and> en_id e' = eid \<and> en_watch e' = Some w"
      using l(2) e ents [of k] by (cases "k = key") auto
  qed
  have 2: "pendingOk pl'"
    using pend x e unfolding pendingOk_def unopened_def same ents
    by (smt (verit, best) dual_order.strict_iff_order option.sel order_le_less_trans order_trans)
  have 3: "watchOk pl' w" for w
    using watch [of w] listen [of w] releaseEntry_held(2,3) [OF off, of w pl] same(5,6) [of w] heldOkD(4) [OF held e, of w]
    unfolding watchOk_def same(1,3) by (auto split: if_splits)
  show ?thesis using 1 2 3 by (simp add: poolOk_def)
qed

lemma poolOk_open:
  assumes ok: "poolOk pl" and e: "mapGet (pl_entries pl) key = Some e" "en_watch e = None" "en_reopenAt e = None" "unopened pl key e"
  shows "poolOk (openKey opens key pl)"
proof (cases "opens key")
  case False
  then show ?thesis using ok e by (simp add: openKey_def)
next
  case True
  have held: "heldOk pl" and pend: "pendingOk pl" and watch: "\<And>w. watchOk pl w" using ok by (auto simp: poolOk_def)
  let ?pl = "openKey opens key pl"
  have sel: "pl_entries ?pl = pl_entries pl" "pl_listening ?pl = pl_listening pl" "pl_made ?pl = pl_made pl"
      "pl_opened ?pl = Suc (pl_opened pl)" "pl_log ?pl = pl_log pl @ [OpenedWatch key (pl_opened pl)]"
    using True e by (simp_all add: openKey_def)
  have none: "mapGet (pl_pending pl) (pl_opened pl) = None"
    using pend unfolding pendingOk_def by (metis less_irrefl not_None_eq prod_cases3)
  have pending: "mapGet (pl_pending ?pl) w
      = (if w = pl_opened pl then Some (key, en_id e, en_generation e) else mapGet (pl_pending pl) w)" for w
    using True e none by (auto simp: openKey_def map_add_def split: option.splits)
  have id: "en_id e < pl_made pl" by (rule heldOkD(1) [OF held e(1)])
  have 1: "heldOk ?pl" using held unfolding heldOk_def sel by simp
  have 2: "pendingOk ?pl"
    unfolding pendingOk_def
  proof (intro allI impI)
    fix w k eid g assume w: "mapGet (pl_pending ?pl) w = Some (k, eid, g)"
    show "w < pl_opened ?pl \<and> eid < pl_made ?pl
        \<and> (\<forall>e. mapGet (pl_entries ?pl) k = Some e \<and> en_id e = eid \<longrightarrow>
             g \<le> en_generation e \<and> (g = en_generation e \<longrightarrow> en_watch e = None \<and> en_reopenAt e = None))
        \<and> (\<forall>w'. mapGet (pl_pending ?pl) w' = Some (k, eid, g) \<longrightarrow> w' = w)"
    proof (cases "w = pl_opened pl")
      case True
      then show ?thesis using w pending e id sel(1,3,4) by (auto simp: unopened_def split: if_splits)
    next
      case False
      then have w': "mapGet (pl_pending pl) w = Some (k, eid, g)" using w pending by simp
      then have "(k, eid, g) \<noteq> (key, en_id e, en_generation e)" using e(4) by (auto simp: unopened_def)
      then show ?thesis using pend w' pending sel(1,3,4) unfolding pendingOk_def
        by (metis less_Suc_eq option.inject)
    qed
  qed
  have 3: "watchOk ?pl w" for w
    using watch [of w] pending [of w] unfolding watchOk_def sel by (auto split: if_splits)
  show ?thesis using 1 2 3 by (simp add: poolOk_def)
qed

text \<open>An entry renewed in place: released, its generation not under way; then perhaps opened.\<close>

lemma poolOk_renew:
  assumes "poolOk pl" "mapGet (pl_entries pl) key = Some e" "en_id e' = en_id e" "en_watch e' = None" "en_off e' = None"
    "en_generation e \<le> en_generation e'" "unopened pl key e'"
  shows "poolOk (setEntry key e' (releaseEntry e pl))"
  by (rule poolOk_drop [OF assms(1,2), where x = "Some e'"]) (use assms(3-) in auto)

lemma poolOk_reopen:
  assumes "poolOk pl" "mapGet (pl_entries pl) key = Some e" "en_id e' = en_id e" "en_watch e' = None" "en_off e' = None"
    "en_generation e \<le> en_generation e'" "unopened pl key e'" "en_reopenAt e' = None"
  shows "poolOk (openKey opens key (setEntry key e' (releaseEntry e pl)))"
  by (rule poolOk_open [OF poolOk_renew [OF assms(1-7)]]) (use assms in \<open>auto simp: unopened_def\<close>)

lemma releaseEntry_empty: "en_watch e = None \<Longrightarrow> en_off e = None \<Longrightarrow> releaseEntry e pl = pl"
  by (simp add: releaseEntry_def poolNote_def)

lemma unopened_next:
  assumes "poolOk pl" "mapGet (pl_entries pl) key = Some e" "en_id e' = en_id e" "en_generation e' = Suc (en_generation e)"
  shows "unopened pl key e'"
  using assms unfolding poolOk_def pendingOk_def unopened_def by (metis Suc_n_not_le_n)

lemma unopened_gap:
  assumes "poolOk pl" "mapGet (pl_entries pl) key = Some e" "en_reopenAt e \<noteq> None"
  shows "unopened pl key e"
  using assms unfolding poolOk_def pendingOk_def unopened_def by metis

lemma entry_fields:
  assumes "poolOk pl" "mapGet (pl_entries pl) key = Some e"
  shows "en_off e = en_watch e" "en_reopenAt e \<noteq> None \<Longrightarrow> en_watch e = None"
    "en_watch e = Some w \<Longrightarrow> mapGet (pl_listening pl) w = Some (key, en_id e)"
  using assms heldOkD [of pl key e] by (simp_all add: poolOk_def)

lemma refreshKey_keeps: "poolOk pl \<Longrightarrow> poolOk (refreshKey now opens key pl)"
proof (cases "mapGet (pl_entries pl) key")
  case (Some e)
  assume ok: "poolOk pl"
  let ?e = "e\<lparr>en_generation := Suc (en_generation e), en_openedAt := now\<rparr>"
  have "en_off e = en_watch e" using entry_fields(1) [OF ok Some] .
  then show ?thesis
    using Some ok poolOk_reopen [OF ok Some, of ?e opens] unopened_next [OF ok Some, of ?e] releaseEntry_empty [of e pl]
    by (auto simp: refreshKey_def)
qed (simp add: refreshKey_def)

text \<open>An entry waits out a gap only in a pool that has one.\<close>

definition gapOk :: "pool_options \<Rightarrow> pool \<Rightarrow> bool" where
  "gapOk o' pl \<longleftrightarrow> gapOf o' = None \<longrightarrow> (\<forall>key e. mapGet (pl_entries pl) key = Some e \<longrightarrow> en_reopenAt e = None)"

definition poolInv :: "pool_options \<Rightarrow> pool \<Rightarrow> bool" where
  "poolInv o' pl \<longleftrightarrow> poolOk pl \<and> gapOk o' pl"

lemma entries_openKey [simp]: "pl_entries (openKey opens key pl) = pl_entries pl"
  by (simp add: openKey_def split: option.splits)

lemma reopenKey_keeps:
  assumes "poolInv o' pl" shows "poolInv o' (reopenKey o' now opens key pl)"
proof (cases "mapGet (pl_entries pl) key")
  case None
  then show ?thesis using assms by (simp add: reopenKey_def)
next
  case (Some e)
  have ok: "poolOk pl" and gap: "gapOk o' pl" using assms by (auto simp: poolInv_def)
  have next': "unopened pl key e'" if "en_id e' = en_id e" "en_generation e' = Suc (en_generation e)" for e'
    by (rule unopened_next [OF ok Some that])
  let ?e = "(released e)\<lparr>en_status := WatchOffline, en_generation := Suc (en_generation e), en_openedAt := now\<rparr>"
  show ?thesis
  proof (cases "gapOf o'")
    case None
    then have "en_reopenAt e = None" using gap Some by (auto simp: gapOk_def)
    then show ?thesis
      using Some None gap poolOk_reopen [OF ok Some, of ?e opens] next' [of ?e]
      by (auto simp: poolInv_def gapOk_def reopenKey_def Let_def released_def)
  next
    case (Some g)
    then show ?thesis
      using \<open>mapGet (pl_entries pl) key = Some e\<close> poolOk_renew [OF ok \<open>mapGet (pl_entries pl) key = Some e\<close>, of "?e\<lparr>en_reopenAt := Some (now + g)\<rparr>"] next'
      by (auto simp: poolInv_def gapOk_def reopenKey_def Let_def released_def)
  qed
qed

lemma tickKey_keeps:
  assumes "poolInv o' pl" shows "poolInv o' (tickKey o' now opens key pl)"
proof (cases "mapGet (pl_entries pl) key")
  case None
  then show ?thesis using assms by (simp add: tickKey_def)
next
  case (Some e)
  have ok: "poolOk pl" and gap: "gapOk o' pl" using assms by (auto simp: poolInv_def)
  show ?thesis
  proof (cases "en_reopenAt e")
    case None
    then show ?thesis using Some assms reopenKey_keeps [OF assms, of now opens key] by (simp add: tickKey_def)
  next
    case due: (Some due)
    let ?e = "e\<lparr>en_reopenAt := None, en_openedAt := now\<rparr>"
    have "en_watch e = None" "en_off e = None" using entry_fields(1,2) [OF ok Some] due by auto
    moreover have "unopened pl key ?e" using unopened_gap [OF ok Some] due by (simp add: unopened_def)
    ultimately show ?thesis
      using Some due assms gap poolOk_reopen [OF ok Some, of ?e opens] releaseEntry_empty [of e pl]
      by (auto simp: tickKey_def poolInv_def gapOk_def)
  qed
qed

lemma want_keeps:
  assumes ok: "poolOk pl" shows "poolOk (want now opens key pl)"
proof (cases "mapGet (pl_entries pl) key")
  case (Some e)
  then show ?thesis using ok by (simp add: want_def)
next
  case None
  let ?e = "\<lparr>en_id = pl_made pl, en_watch = None, en_status = WatchOffline, en_off = None,
             en_generation = 0, en_openedAt = now, en_reopenAt = None\<rparr>"
  let ?pl = "setEntry key ?e (pl\<lparr>pl_made := Suc (pl_made pl)\<rparr>)"
  have held: "heldOk pl" and pend: "pendingOk pl" and watch: "\<And>w. watchOk pl w" using ok by (auto simp: poolOk_def)
  have 1: "heldOk ?pl"
    using held None heldOk_listening [OF held] unfolding heldOk_def by (auto simp: less_Suc_eq) (metis option.distinct(1))
  have 2: "pendingOk ?pl"
    using pend None unfolding pendingOk_def by (auto simp: less_Suc_eq)
  have 3: "watchOk ?pl w" for w using watch [of w] unfolding watchOk_def by simp
  have "unopened ?pl key ?e"
    using pend unfolding pendingOk_def unopened_def by (auto simp: less_not_refl)
  then show ?thesis
    using poolOk_open [of ?pl key ?e opens] 1 2 3 None by (simp add: want_def poolOk_def)
qed

lemma dropKey_keeps:
  assumes ok: "poolOk pl" shows "poolOk (dropKey key pl)"
proof (cases "mapGet (pl_entries pl) key")
  case None
  then show ?thesis using ok by (simp add: dropKey_def)
next
  case (Some e)
  show ?thesis
    by (rule poolOk_drop [OF ok Some, where x = None]) (use Some in \<open>auto simp: dropKey_def releaseEntry_def poolNote_def split: option.splits\<close>)
qed

lemma pending_opened:
  assumes "poolOk pl" "mapGet (pl_pending pl) w = Some (key, eid, g)"
  shows "w < pl_opened pl" "closesOf w (pl_log pl) = 0" "listensOf w (pl_log pl) = 0" "mapGet (pl_listening pl) w = None"
proof -
  have "pendingOk pl" "watchOk pl w" using assms(1) by (auto simp: poolOk_def)
  then show "w < pl_opened pl" "closesOf w (pl_log pl) = 0" "listensOf w (pl_log pl) = 0" "mapGet (pl_listening pl) w = None"
    using assms(2) by (auto simp: pendingOk_def watchOk_def)
qed

lemma pendingOk_delete: "pendingOk pl \<Longrightarrow> pendingOk (pl\<lparr>pl_pending := mapDelete w (pl_pending pl)\<rparr>)"
  unfolding pendingOk_def by (auto split: if_splits)

lemma openFailed_keeps: "poolOk pl \<Longrightarrow> poolOk (openFailed w pl)"
  using pendingOk_delete [of pl w] by (auto simp: openFailed_def poolOk_def heldOk_def watchOk_def)

text \<open>A watch that came too late is closed.\<close>

lemma refused_keeps:
  assumes ok: "poolOk pl" and w: "mapGet (pl_pending pl) w = Some x"
  shows "poolOk (poolNote [WatchClosed w] (pl\<lparr>pl_pending := mapDelete w (pl_pending pl)\<rparr>))" (is "poolOk ?pl")
proof -
  obtain key eid g where x: "mapGet (pl_pending pl) w = Some (key, eid, g)" using w by (metis prod_cases3)
  note old = pending_opened [OF ok x]
  have watch: "\<And>w. watchOk pl w" using ok by (simp add: poolOk_def)
  have "heldOk ?pl" "pendingOk ?pl"
    using ok pendingOk_delete [of pl w] by (auto simp: poolOk_def heldOk_def pendingOk_def)
  moreover have "watchOk ?pl v" for v
    using watch [of v] old by (auto simp: watchOk_def split: if_splits)
  ultimately show ?thesis by (simp add: poolOk_def)
qed

text \<open>A watch that is still wanted is held and listened to.\<close>

lemma accepted_keeps:
  assumes ok: "poolOk pl" and w: "mapGet (pl_pending pl) w = Some (key, en_id e, en_generation e)"
    and e: "mapGet (pl_entries pl) key = Some e"
  shows "poolOk (poolNote [ToldStatus key (Some status) (Some w), Listened w]
           (setEntry key (e\<lparr>en_watch := Some w, en_status := status, en_off := Some w\<rparr>)
             (pl\<lparr>pl_pending := mapDelete w (pl_pending pl), pl_listening := pl_listening pl @ [(w, key, en_id e)]\<rparr>)))"
    (is "poolOk ?pl")
proof -
  note old = pending_opened [OF ok w]
  have held: "heldOk pl" and pend: "pendingOk pl" and watch: "\<And>w. watchOk pl w" using ok by (auto simp: poolOk_def)
  have free: "en_watch e = None" "en_reopenAt e = None" using pend w e unfolding pendingOk_def by blast+
  let ?e = "e\<lparr>en_watch := Some w, en_status := status, en_off := Some w\<rparr>"
  have listen: "mapGet (pl_listening ?pl) v = (if v = w then Some (key, en_id e) else mapGet (pl_listening pl) v)" for v
    using old(4) by (auto simp: map_add_def split: option.splits)
  have 1: "heldOk ?pl"
    unfolding heldOk_def
  proof (intro conjI allI impI)
    fix k e' assume "mapGet (pl_entries ?pl) k = Some e'"
    then have k: "e' = (if k = key then ?e else e')" "k \<noteq> key \<Longrightarrow> mapGet (pl_entries pl) k = Some e'" by (auto split: if_splits)
    show "en_id e' < pl_made ?pl" "en_off e' = en_watch e'" "en_reopenAt e' \<noteq> None \<Longrightarrow> en_watch e' = None"
      using k heldOkD [OF held, of k e'] heldOkD [OF held e] free by (cases "k = key"; simp)+
    show "mapGet (pl_listening ?pl) v = Some (k, en_id e')" if v: "en_watch e' = Some v" for v
      unfolding listen using k heldOkD(4) [OF held, of k e' v] v old(4) by (cases "k = key") auto
  next
    fix v k eid assume v: "mapGet (pl_listening ?pl) v = Some (k, eid)"
    show "\<exists>e'. mapGet (pl_entries ?pl) k = Some e' \<and> en_id e' = eid \<and> en_watch e' = Some v"
      using v listen [of v] heldOk_listening [OF held, of v k eid] e free by (cases "v = w") auto
  qed
  have one: "mapGet (pl_pending pl) v = Some (key, en_id e, en_generation e) \<Longrightarrow> v = w" for v
    using pend w unfolding pendingOk_def by blast
  have 2: "pendingOk ?pl"
    unfolding pendingOk_def
  proof (intro allI impI)
    fix v k eid g assume "mapGet (pl_pending ?pl) v = Some (k, eid, g)"
    then have v: "mapGet (pl_pending pl) v = Some (k, eid, g)" "v \<noteq> w" by (auto split: if_splits)
    show "v < pl_opened ?pl \<and> eid < pl_made ?pl
        \<and> (\<forall>e. mapGet (pl_entries ?pl) k = Some e \<and> en_id e = eid \<longrightarrow>
             g \<le> en_generation e \<and> (g = en_generation e \<longrightarrow> en_watch e = None \<and> en_reopenAt e = None))
        \<and> (\<forall>w'. mapGet (pl_pending ?pl) w' = Some (k, eid, g) \<longrightarrow> w' = v)"
      using pend v one [of v] e unfolding pendingOk_def by (cases "k = key") (auto split: if_splits)
  qed
  have 3: "watchOk ?pl v" for v
    using watch [of v] listen [of v] old by (auto simp: watchOk_def split: if_splits)
  show ?thesis using 1 2 3 by (simp add: poolOk_def)
qed

lemma watchCame_keeps:
  assumes ok: "poolOk pl" shows "poolOk (watchCame w status pl)"
proof (cases "mapGet (pl_pending pl) w")
  case None
  then show ?thesis using ok by (simp add: watchCame_def)
next
  case (Some x)
  obtain key eid g where x: "x = (key, eid, g)" by (cases x)
  show ?thesis
    using Some x refused_keeps [OF ok Some] accepted_keeps [OF ok, of w key _ status]
    by (auto simp: watchCame_def Let_def split: option.splits)
qed

lemma noted_ok:
  "heldOk (poolNote es pl) = heldOk pl" "pendingOk (poolNote es pl) = pendingOk pl"
  by (simp_all add: heldOk_def pendingOk_def)

lemma statusChanged_keeps:
  assumes ok: "poolOk pl" shows "poolOk (statusChanged w status pl)"
proof (cases "mapGet (pl_listening pl) w")
  case None
  then show ?thesis using ok by (simp add: statusChanged_def)
next
  case (Some x)
  obtain key eid where x: "x = (key, eid)" by (cases x)
  have held: "heldOk pl" using ok by (simp add: poolOk_def)
  obtain e where e: "mapGet (pl_entries pl) key = Some e" "en_id e = eid" "en_watch e = Some w"
    using heldOk_listening [OF held] Some x by blast
  have "statusChanged w status pl = poolNote [ToldStatus key (Some status) (Some w)] (setEntry key (e\<lparr>en_status := status\<rparr>) pl)"
    using Some x e by (simp add: statusChanged_def)
  moreover have "heldOk (setEntry key (e\<lparr>en_status := status\<rparr>) pl)"
    unfolding heldOk_def
  proof (intro conjI allI impI)
    fix k e' assume "mapGet (pl_entries (setEntry key (e\<lparr>en_status := status\<rparr>) pl)) k = Some e'"
    then have k: "k = key \<Longrightarrow> e' = e\<lparr>en_status := status\<rparr>" "k \<noteq> key \<Longrightarrow> mapGet (pl_entries pl) k = Some e'"
      by (auto split: if_splits)
    show "en_id e' < pl_made (setEntry key (e\<lparr>en_status := status\<rparr>) pl)" "en_off e' = en_watch e'"
      "en_reopenAt e' \<noteq> None \<Longrightarrow> en_watch e' = None"
      using k heldOkD [OF held, of k e'] heldOkD [OF held e(1)] by (cases "k = key"; simp)+
    show "mapGet (pl_listening (setEntry key (e\<lparr>en_status := status\<rparr>) pl)) v = Some (k, en_id e')" if "en_watch e' = Some v" for v
      using k that heldOkD(4) [OF held, of k e' v] heldOkD(4) [OF held e(1), of v] by (cases "k = key") auto
  next
    fix v k i assume "mapGet (pl_listening (setEntry key (e\<lparr>en_status := status\<rparr>) pl)) v = Some (k, i)"
    then show "\<exists>e'. mapGet (pl_entries (setEntry key (e\<lparr>en_status := status\<rparr>) pl)) k = Some e' \<and> en_id e' = i \<and> en_watch e' = Some v"
      using heldOk_listening [OF held, of v k i] e by (cases "k = key") auto
  qed
  moreover have "pendingOk (setEntry key (e\<lparr>en_status := status\<rparr>) pl)"
    unfolding pendingOk_def
  proof (intro allI impI)
    fix v k i g assume "mapGet (pl_pending (setEntry key (e\<lparr>en_status := status\<rparr>) pl)) v = Some (k, i, g)"
    then have v: "mapGet (pl_pending pl) v = Some (k, i, g)" by simp
    have pend: "pendingOk pl" using ok by (simp add: poolOk_def)
    show "v < pl_opened (setEntry key (e\<lparr>en_status := status\<rparr>) pl) \<and> i < pl_made (setEntry key (e\<lparr>en_status := status\<rparr>) pl)
        \<and> (\<forall>e'. mapGet (pl_entries (setEntry key (e\<lparr>en_status := status\<rparr>) pl)) k = Some e' \<and> en_id e' = i \<longrightarrow>
             g \<le> en_generation e' \<and> (g = en_generation e' \<longrightarrow> en_watch e' = None \<and> en_reopenAt e' = None))
        \<and> (\<forall>w'. mapGet (pl_pending (setEntry key (e\<lparr>en_status := status\<rparr>) pl)) w' = Some (k, i, g) \<longrightarrow> w' = v)"
      using pend v e(1,2) unfolding pendingOk_def by (cases "k = key") (auto split: if_splits)
  qed
  moreover have "watchOk (poolNote [ToldStatus key (Some status) (Some w)] (setEntry key (e\<lparr>en_status := status\<rparr>) pl)) v" for v
    using ok by (simp add: poolOk_def watchOk_def)
  ultimately show ?thesis by (simp only: poolOk_def noted_ok) blast
qed

subsection \<open>Every event keeps it\<close>

lemma fold_keeps: "P x \<Longrightarrow> (\<And>k y. P y \<Longrightarrow> P (f k y)) \<Longrightarrow> P (fold f ks x)"
  by (induction ks arbitrary: x) auto

lemma entries_gap:
  assumes "gapOk o' pl"
  shows "gapOk o' (want now opens key pl)" "gapOk o' (dropKey key pl)" "gapOk o' (refreshKey now opens key pl)"
    "gapOk o' (watchCame w status pl)" "gapOk o' (openFailed w pl)" "gapOk o' (statusChanged w status pl)"
  using assms
  by (auto simp: gapOk_def want_def dropKey_def refreshKey_def watchCame_def openFailed_def statusChanged_def Let_def split: option.splits if_splits)

abbreviation keysOk :: "pool \<Rightarrow> bool" where
  "keysOk pl \<equiv> distinct (mapKeys (pl_entries pl))"

lemma keys_kept:
  assumes "keysOk pl"
  shows "keysOk (want now opens key pl)" "keysOk (dropKey key pl)" "keysOk (refreshKey now opens key pl)"
    "keysOk (watchCame w status pl)" "keysOk (openFailed w pl)" "keysOk (statusChanged w status pl)"
    "keysOk (reopenKey o' now opens key pl)" "keysOk (tickKey o' now opens key pl)"
proof -
  show r: "keysOk (reopenKey o' now opens key pl)"
    using assms by (auto simp: reopenKey_def Let_def distinct_update split: option.splits)
  show "keysOk (tickKey o' now opens key pl)"
    using assms r by (auto simp: tickKey_def distinct_update split: option.splits)
qed (use assms in \<open>auto simp: want_def dropKey_def refreshKey_def watchCame_def openFailed_def statusChanged_def
       Let_def distinct_update distinct_delete split: option.splits\<close>)

definition poolKept :: "pool_options \<Rightarrow> pool \<Rightarrow> bool" where
  "poolKept o' pl \<longleftrightarrow> poolInv o' pl \<and> keysOk pl"

lemmas kept_defs = poolKept_def poolInv_def

lemma key_keeps:
  assumes "poolKept o' pl"
  shows "poolKept o' (want now opens key pl)" "poolKept o' (dropKey key pl)" "poolKept o' (refreshKey now opens key pl)"
    "poolKept o' (reopenKey o' now opens key pl)" "poolKept o' (tickKey o' now opens key pl)"
    "poolKept o' (watchCame w status pl)" "poolKept o' (openFailed w pl)" "poolKept o' (statusChanged w status pl)"
  using assms reopenKey_keeps [of o' pl now opens key] tickKey_keeps [of o' pl now opens key]
  by (simp_all add: kept_defs keys_kept entries_gap want_keeps dropKey_keeps refreshKey_keeps watchCame_keeps openFailed_keeps statusChanged_keeps)

lemma pass_keeps:
  assumes "poolKept o' pl"
  shows "poolKept o' (poolRefresh now opens pl)" "poolKept o' (poolTick o' now opens pl)" "poolKept o' (closePool pl)"
  unfolding poolRefresh_def poolTick_def closePool_def
  using assms by (auto intro!: fold_keeps key_keeps)

lemma poolStep_keeps: "poolKept o' pl \<Longrightarrow> poolKept o' (poolStep o' pl ev)"
  by (cases "(o', pl, ev)" rule: poolStep.cases) (auto simp: key_keeps pass_keeps)

lemma newPool_kept: "poolKept o' newPool"
  by (simp add: kept_defs poolOk_def heldOk_def pendingOk_def watchOk_def gapOk_def newPool_def)

interpretation pooling: component "poolStep o'" "poolKept o'"
  by unfold_locales (rule poolStep_keeps)

lemmas pool_runs = pooling.run_keeps [OF newPool_kept]

lemma held_listening:
  assumes "poolKept o' pl"
  shows "poolGet key pl = Some w \<longleftrightarrow> (\<exists>eid. mapGet (pl_listening pl) w = Some (key, eid))"
proof -
  have held: "heldOk pl" using assms by (simp add: kept_defs poolOk_def)
  show ?thesis
    using heldOkD(4) [OF held, of key _ w] heldOk_listening [OF held, of w key]
    by (fastforce simp: poolGet_def bind_eq_Some_conv)
qed

text \<open>C20: no watch the relay hands over is lost and none is closed twice. Whatever is wanted, dropped, retried and answered, in whatever order: a watch that was ever listened to is either held by exactly one key, not yet closed, or was closed exactly once; and one that comes now, early or late, is held by a key or closed on the spot.\<close>

theorem pool_loses_no_watch:
  "let pl = foldl (poolStep o') newPool es in
     closesOf w (pl_log pl) \<le> 1
     \<and> (poolGet key pl = Some w \<longrightarrow> closesOf w (pl_log pl) = 0 \<and> (poolGet key' pl = Some w \<longrightarrow> key' = key))
     \<and> (0 < listensOf w (pl_log pl) \<longrightarrow> closesOf w (pl_log pl) = 1 \<or> (\<exists>k. poolGet k pl = Some w))
     \<and> (mapGet (pl_pending pl) w \<noteq> None \<longrightarrow>
          closesOf w (pl_log (watchCame w status pl)) = 1 \<or> (\<exists>k. poolGet k (watchCame w status pl) = Some w))"
proof -
  define pl where "pl = foldl (poolStep o') newPool es"
  have kept: "poolKept o' pl" unfolding pl_def by (rule pool_runs)
  have watch: "watchOk pl w" using kept by (simp add: kept_defs poolOk_def)
  have came: "closesOf w (pl_log (watchCame w status pl)) = 1 \<or> (\<exists>k. poolGet k (watchCame w status pl) = Some w)"
    if pending: "mapGet (pl_pending pl) w \<noteq> None"
  proof -
    obtain k eid g where p: "mapGet (pl_pending pl) w = Some (k, eid, g)" using pending by (metis not_None_eq prod_cases3)
    have "closesOf w (pl_log pl) = 0" using watch pending by (simp add: watchOk_def)
    then have "closesOf w (pl_log (watchCame w status pl)) = 1"
      if "\<And>e. mapGet (pl_entries pl) k = Some e \<Longrightarrow> \<not> (en_id e = eid \<and> en_generation e = g)"
      using that p by (auto simp: watchCame_def Let_def split: option.splits)
    moreover have "poolGet k (watchCame w status pl) = Some w"
      if "mapGet (pl_entries pl) k = Some e" "en_id e = eid" "en_generation e = g" for e
      using that p by (simp add: watchCame_def poolGet_def)
    ultimately show ?thesis by blast
  qed
  have held: "closesOf w (pl_log pl) = 0 \<and> (poolGet key' pl = Some w \<longrightarrow> key' = key)" if "poolGet key pl = Some w"
    using that watch unfolding held_listening [OF kept] watchOk_def by auto
  have gone: "closesOf w (pl_log pl) = 1 \<or> (\<exists>k. poolGet k pl = Some w)" if "0 < listensOf w (pl_log pl)"
    using that watch unfolding held_listening [OF kept] watchOk_def by (cases "mapGet (pl_listening pl) w") auto
  have once: "closesOf w (pl_log pl) \<le> 1" using watch by (simp add: watchOk_def)
  show ?thesis
    unfolding pl_def [symmetric] Let_def using once held gone came by blast
qed

lemma pool_loses_no_watch_witness:
  "\<exists>o' es w. (let pl = foldl (poolStep o') newPool es in
     poolGet ''a'' pl = Some w \<and> closesOf w (pl_log pl) = 0 \<and> listensOf w (pl_log pl) = 1)
     \<and> mapGet (pl_pending (foldl (poolStep o') newPool (es @ [(9, (\<lambda>_. True), Want ''b'')]))) 1 \<noteq> None"
proof -
  let ?o = "\<lparr>op_retryMs = None, op_loadingRetryMs = None, op_gapMs = None\<rparr>"
  let ?es = "[(0, (\<lambda>_. True), Want ''a''), (1, (\<lambda>_. True), WatchCame 0 WatchLive)] :: (rat \<times> (string \<Rightarrow> bool) \<times> pool_event) list"
  note run = want_def openKey_def setEntry_def poolNote_def watchCame_def newPool_def poolGet_def
  have "poolGet ''a'' (foldl (poolStep ?o) newPool ?es) = Some 0" by (simp add: run)
  moreover have "listensOf 0 (pl_log (foldl (poolStep ?o) newPool ?es)) = 1" by (simp add: run)
  moreover have "mapGet (pl_pending (foldl (poolStep ?o) newPool (?es @ [(9, (\<lambda>_. True), Want ''b'')]))) 1 \<noteq> None"
    by (simp add: run)
  ultimately show ?thesis
    using pool_loses_no_watch [of ?o ?es 0 "''a''" "''a''" WatchLive] unfolding Let_def by blast
qed

subsection \<open>A silent watch is opened again, a live one left alone\<close>

lemma others_kept:
  assumes "k \<noteq> key"
  shows "mapGet (pl_entries (tickKey o' now opens k pl)) key = mapGet (pl_entries pl) key"
    "mapGet (pl_entries (dropKey k pl)) key = mapGet (pl_entries pl) key"
  using assms by (auto simp: tickKey_def reopenKey_def dropKey_def Let_def split: option.splits)

lemma ticks_elsewhere:
  "key \<notin> set ks \<Longrightarrow> mapGet (pl_entries (fold (tickKey o' now opens) ks pl)) key = mapGet (pl_entries pl) key"
  by (induction ks arbitrary: pl) (auto simp: others_kept)

text \<open>What an open under way waits for, and what was closed, stays so while the pass goes on.\<close>

lemma tickKey_grows:
  assumes "mapGet (pl_pending pl) w = Some x"
  shows "mapGet (pl_pending (tickKey o' now opens k pl)) w = Some x"
proof -
  have o: "mapGet (pl_pending (openKey opens k q)) w = Some x" if "pl_pending q = pl_pending pl" for q
    using assms that by (auto simp: openKey_def split: option.splits)
  show ?thesis using assms o by (auto simp: tickKey_def reopenKey_def Let_def split: option.splits)
qed

lemma ticks_grow:
  "mapGet (pl_pending pl) w = Some x \<Longrightarrow> mapGet (pl_pending (fold (tickKey o' now opens) ks pl)) w = Some x"
  by (induction ks arbitrary: pl) (auto intro: tickKey_grows)

text \<open>So a pass does to an entry what its own turn does.\<close>

lemma tick_splits:
  assumes "keysOk pl" "mapGet (pl_entries pl) key = Some e"
  shows "\<exists>q. mapGet (pl_entries q) key = Some e \<and> (poolKept o' pl \<longrightarrow> poolKept o' q)
     \<and> mapGet (pl_entries (poolTick o' now opens pl)) key = mapGet (pl_entries (tickKey o' now opens key q)) key
     \<and> (\<forall>w x. mapGet (pl_pending (tickKey o' now opens key q)) w = Some x
          \<longrightarrow> mapGet (pl_pending (poolTick o' now opens pl)) w = Some x)"
proof -
  have "key \<in> set (mapKeys (pl_entries pl))" using assms(2) by (metis mapGet_None option.distinct(1))
  then obtain ks ks' where ks: "mapKeys (pl_entries pl) = ks @ key # ks'" by (meson split_list)
  then have "key \<notin> set ks" "key \<notin> set ks'" using assms(1) by auto
  let ?q = "fold (tickKey o' now opens) ks pl"
  have "mapGet (pl_entries ?q) key = Some e" using ticks_elsewhere \<open>key \<notin> set ks\<close> assms(2) by simp
  moreover have "poolKept o' pl \<longrightarrow> poolKept o' ?q" by (auto intro!: fold_keeps key_keeps)
  ultimately show ?thesis
    unfolding poolTick_def ks
    by (intro exI [of _ ?q]) (simp add: ticks_elsewhere [OF \<open>key \<notin> set ks'\<close>] ticks_grow)
qed

text \<open>What the turn of an entry leaves under way when it opens.\<close>

lemma fresh_open:
  assumes "poolOk pl" "mapGet (pl_entries pl) key = Some e" "opens key"
  shows "mapGet (pl_pending (openKey opens key pl)) (pl_opened pl) = Some (key, en_id e, en_generation e)"
proof -
  have "mapGet (pl_pending pl) (pl_opened pl) = None"
    using pending_opened(1) [OF assms(1), of "pl_opened pl"] by (cases "mapGet (pl_pending pl) (pl_opened pl)") auto
  then show ?thesis using assms(2,3) by (simp add: openKey_def map_add_def)
qed

lemma reopened:
  assumes "poolKept o' q" "mapGet (pl_entries q) key = Some e" "gapOf o' = None" "opens key"
  shows "\<exists>e' w. mapGet (pl_entries (reopenKey o' now opens key q)) key = Some e' \<and> en_id e' = en_id e
     \<and> en_generation e' = Suc (en_generation e)
     \<and> mapGet (pl_pending (reopenKey o' now opens key q)) w = Some (key, en_id e', en_generation e')"
proof -
  have ok: "poolOk q" using assms(1) by (simp add: kept_defs)
  let ?e = "(released e)\<lparr>en_status := WatchOffline, en_generation := Suc (en_generation e), en_openedAt := now\<rparr>"
  have "poolOk (setEntry key ?e (releaseEntry e q))"
    by (rule poolOk_renew [OF ok assms(2)]) (auto simp: released_def intro: unopened_next [OF ok assms(2)])
  from fresh_open [where opens = opens and key = key and e = ?e, OF this _ assms(4)] show ?thesis
    using assms(2,3) by (intro exI [of _ ?e] exI [of _ "pl_opened q"]) (simp add: reopenKey_def Let_def released_def)
qed

lemma gap_opened:
  assumes "poolKept o' r" "mapGet (pl_entries r) key = Some e" "en_reopenAt e = Some due" "\<not> later < due" "opens key"
  shows "\<exists>e' w. mapGet (pl_entries (tickKey o' later opens key r)) key = Some e' \<and> en_id e' = en_id e
     \<and> en_generation e' = en_generation e
     \<and> mapGet (pl_pending (tickKey o' later opens key r)) w = Some (key, en_id e', en_generation e')"
proof -
  have ok: "poolOk r" using assms(1) by (simp add: kept_defs)
  let ?e = "e\<lparr>en_reopenAt := None, en_openedAt := later\<rparr>"
  have none: "en_watch e = None" "en_off e = None" using entry_fields(1,2) [OF ok assms(2)] assms(3) by auto
  have "poolOk (setEntry key ?e (releaseEntry e r))"
    by (rule poolOk_renew [OF ok assms(2)])
      (use none unopened_gap [OF ok assms(2)] assms(3) in \<open>auto simp: unopened_def\<close>)
  from fresh_open [where opens = opens and key = key and e = ?e, OF this _ assms(5)] show ?thesis
    using assms(2-4) releaseEntry_empty [OF none] by (intro exI [of _ ?e] exI [of _ "pl_opened r"]) (simp add: tickKey_def)
qed

text \<open>C21: a subscription that stays silent is opened again, and one that is live is left alone. On a pool that was used in whatever way, a tick that finds a wanted key not live once its retry time is up leaves an open of the key's current generation under way: at once in a pool without a gap, at the first tick past the gap in a pool with one. A live entry passes a tick unchanged.\<close>

theorem silent_watch_is_opened_again:
  assumes e: "mapGet (pl_entries (foldl (poolStep o') newPool es)) key = Some e"
    and now: "en_reopenAt e = None" "retryOf o' (en_status e) \<le> now - en_openedAt e" "orElse (gapOf o') 0 \<le> later - now"
    and opens: "opens key"
  defines "once \<equiv> poolTick o' now opens (foldl (poolStep o') newPool es)"
  shows "if en_status e = WatchLive then mapGet (pl_entries once) key = Some e
         else \<exists>e' w. mapGet (pl_entries (if gapOf o' = None then once else poolTick o' later opens once)) key = Some e'
                \<and> en_id e' = en_id e \<and> en_generation e' = Suc (en_generation e)
                \<and> mapGet (pl_pending (if gapOf o' = None then once else poolTick o' later opens once)) w
                    = Some (key, en_id e', en_generation e')"
proof -
  let ?pl = "foldl (poolStep o') newPool es"
  have kept: "poolKept o' ?pl" by (rule pool_runs)
  have keys: "keysOk ?pl" using kept by (simp add: poolKept_def)
  obtain q where q: "mapGet (pl_entries q) key = Some e" "poolKept o' q"
      "mapGet (pl_entries once) key = mapGet (pl_entries (tickKey o' now opens key q)) key"
      "\<And>w x. mapGet (pl_pending (tickKey o' now opens key q)) w = Some x \<Longrightarrow> mapGet (pl_pending once) w = Some x"
    using tick_splits [OF keys e, of o' now opens] kept unfolding once_def by blast
  show ?thesis
  proof (cases "en_status e = WatchLive")
    case True
    then show ?thesis using q now(1) by (simp add: tickKey_def)
  next
    case False
    then have turn: "tickKey o' now opens key q = reopenKey o' now opens key q"
      using q(1) now by (simp add: tickKey_def)
    show ?thesis
    proof (cases "gapOf o'")
      case None
      obtain e' w where w: "mapGet (pl_entries (reopenKey o' now opens key q)) key = Some e'"
          "en_id e' = en_id e" "en_generation e' = Suc (en_generation e)"
          "mapGet (pl_pending (reopenKey o' now opens key q)) w = Some (key, en_id e', en_generation e')"
        using reopened [where opens = opens and key = key and now = now, OF q(2,1) None opens] by blast
      have "mapGet (pl_entries once) key = Some e'" using w(1) q(3) unfolding turn by simp
      moreover have "mapGet (pl_pending once) w = Some (key, en_id e', en_generation e')" using w(4) q(4) unfolding turn by blast
      ultimately show ?thesis using False None w(2,3) by auto
    next
      case (Some g)
      let ?e = "(released e)\<lparr>en_status := WatchOffline, en_generation := Suc (en_generation e), en_openedAt := now, en_reopenAt := Some (now + g)\<rparr>"
      have e': "mapGet (pl_entries once) key = Some ?e" using q(1,3) Some unfolding turn by (simp add: reopenKey_def Let_def)
      have kept': "poolKept o' once" unfolding once_def by (rule pass_keeps(2) [OF kept])
      then have "keysOk once" by (simp add: poolKept_def)
      then obtain r where r: "mapGet (pl_entries r) key = Some ?e" "poolKept o' r"
          "mapGet (pl_entries (poolTick o' later opens once)) key = mapGet (pl_entries (tickKey o' later opens key r)) key"
          "\<And>w x. mapGet (pl_pending (tickKey o' later opens key r)) w = Some x \<Longrightarrow> mapGet (pl_pending (poolTick o' later opens once)) w = Some x"
        using tick_splits [OF _ e', of o' later opens] kept' by blast
      let ?t = "tickKey o' later opens key r"
      have "\<not> later < now + g" using now(3) Some by simp
      then obtain e' w where w: "mapGet (pl_entries ?t) key = Some e'" "en_id e' = en_id ?e" "en_generation e' = en_generation ?e"
          "mapGet (pl_pending ?t) w = Some (key, en_id e', en_generation e')"
        using gap_opened [where opens = opens and key = key and later = later and due = "now + g", OF r(2,1)] opens
        by auto
      have "mapGet (pl_entries (poolTick o' later opens once)) key = Some e'" using w(1) r(3) by simp
      moreover have "mapGet (pl_pending (poolTick o' later opens once)) w = Some (key, en_id e', en_generation e')"
        by (rule r(4) [OF w(4)])
      ultimately show ?thesis using False Some w(2,3) by (auto simp: released_def)
    qed
  qed
qed

lemma silent_watch_is_opened_again_witness:
  "\<exists>o' es e w. mapGet (pl_entries (foldl (poolStep o') newPool es)) ''a'' = Some e
     \<and> mapGet (pl_pending (poolTick o' 5500 (\<lambda>_. True) (poolTick o' 5000 (\<lambda>_. True) (foldl (poolStep o') newPool es)))) w
         = Some (''a'', en_id e, Suc (en_generation e))"
proof -
  let ?o = "\<lparr>op_retryMs = None, op_loadingRetryMs = None, op_gapMs = Some 500\<rparr>"
  let ?es = "[(0, (\<lambda>_. False), Want ''a'')] :: (rat \<times> (string \<Rightarrow> bool) \<times> pool_event) list"
  let ?e = "\<lparr>en_id = 0, en_watch = None, en_status = WatchOffline, en_off = None,
             en_generation = 0, en_openedAt = 0, en_reopenAt = None\<rparr>"
  have e: "mapGet (pl_entries (foldl (poolStep ?o) newPool ?es)) ''a'' = Some ?e"
    by (simp add: want_def openKey_def setEntry_def newPool_def)
  have g: "gapOf ?o = Some 500" by (simp add: gapOf_def)
  have "en_reopenAt ?e = None" "retryOf ?o (en_status ?e) \<le> 5000 - en_openedAt ?e" "orElse (gapOf ?o) 0 \<le> 5500 - (5000 :: rat)" "(\<lambda>_. True) ''a''"
    by (simp_all add: retryOf_def RETRY_MS_def g)
  note again = silent_watch_is_opened_again [where o' = ?o and es = ?es and key = "''a''" and e = ?e and now = 5000 and later = 5500
      and opens = "\<lambda>_. True", OF e this]
  have "\<exists>e' w. mapGet (pl_entries (poolTick ?o 5500 (\<lambda>_. True) (poolTick ?o 5000 (\<lambda>_. True) (foldl (poolStep ?o) newPool ?es)))) ''a'' = Some e' \<and>
      en_id e' = en_id ?e \<and> en_generation e' = Suc (en_generation ?e) \<and>
      mapGet (pl_pending (poolTick ?o 5500 (\<lambda>_. True) (poolTick ?o 5000 (\<lambda>_. True) (foldl (poolStep ?o) newPool ?es)))) w
         = Some (''a'', en_id e', en_generation e')"
    using again unfolding g
    by (simp only: pool_entry.simps watch_status.distinct if_False option.distinct)
  then obtain e' :: pool_entry and w where "en_id e' = en_id ?e" "en_generation e' = Suc (en_generation ?e)"
      "mapGet (pl_pending (poolTick ?o 5500 (\<lambda>_. True) (poolTick ?o 5000 (\<lambda>_. True) (foldl (poolStep ?o) newPool ?es)))) w
         = Some (''a'', en_id e', en_generation e')"
    by blast
  then show ?thesis using e by (intro exI [of _ ?o] exI [of _ ?es] exI [of _ ?e] exI [of _ w]) simp
qed

text \<open>A closed pool holds nothing, listens to nothing, and closes whatever still comes.\<close>

lemma drops_all: "set (mapKeys (pl_entries pl)) \<subseteq> set ks \<Longrightarrow> mapGet (pl_entries (fold dropKey ks pl)) key = None"
proof (induction ks arbitrary: pl)
  case Nil
  then show ?case by simp
next
  case (Cons k ks)
  have "set (mapKeys (pl_entries (dropKey k pl))) \<subseteq> set ks"
    using Cons.prems mapGet_None [of "pl_entries pl" k]
    by (cases "mapGet (pl_entries pl) k") (auto simp: dropKey_def AList.delete_keys)
  then show ?case using Cons.IH by simp
qed

lemma closed_pool_holds_nothing:
  assumes "poolKept o' pl"
  shows "poolGet key (closePool pl) = None" "mapGet (pl_listening (closePool pl)) w = None"
    "mapGet (pl_pending (closePool pl)) w \<noteq> None \<Longrightarrow>
       pl_log (watchCame w status (closePool pl)) = pl_log (closePool pl) @ [WatchClosed w]"
proof -
  have none: "mapGet (pl_entries (closePool pl)) k = None" for k
    unfolding closePool_def by (rule drops_all) simp
  show "poolGet key (closePool pl) = None" by (simp add: poolGet_def none)
  have held: "heldOk (closePool pl)" using pass_keeps(3) [OF assms] by (simp add: kept_defs poolOk_def)
  show "mapGet (pl_listening (closePool pl)) w = None"
    using heldOk_listening [OF held, of w] none by (cases "mapGet (pl_listening (closePool pl)) w") auto
  show "pl_log (watchCame w status (closePool pl)) = pl_log (closePool pl) @ [WatchClosed w]"
    if "mapGet (pl_pending (closePool pl)) w \<noteq> None"
    using that by (auto simp: watchCame_def none Let_def split: option.splits)
qed

section \<open>Who is worth subscribing to (plan.ts)\<close>

record call_member =
  cm_id :: string
  cm_mic :: bool
  cm_cam :: bool
  cm_hostMuted :: bool
  cm_hostCamOff :: bool

definition hearable :: "call_member list \<Rightarrow> string \<Rightarrow> string list" where
  "hearable members selfId =
     map cm_id (filter (\<lambda>member. cm_id member \<noteq> selfId \<and> cm_mic member \<and> \<not> cm_hostMuted member) members)"

definition viewable :: "call_member list \<Rightarrow> string \<Rightarrow> bool" where
  "viewable members memberId =
     (case find (\<lambda>candidate. cm_id candidate = memberId) members of
        None \<Rightarrow> False
      | Some member \<Rightarrow> cm_cam member \<and> \<not> cm_hostCamOff member)"

section \<open>Who is talking (speaking.ts)\<close>

definition ON_LEVEL :: rat where "ON_LEVEL = 0.05"

definition OFF_LEVEL :: rat where "OFF_LEVEL = 0.02"

definition HANGOVER_MS :: rat where "HANGOVER_MS = 400"

text \<open>\<open>None\<close> is the \<open>-Infinity\<close> of a detector that heard nothing yet.\<close>

record speaking_detector =
  sd_speaking :: bool
  sd_lastLoudAt :: "rat option"

definition newDetector :: speaking_detector where
  "newDetector = \<lparr>sd_speaking = False, sd_lastLoudAt = None\<rparr>"

definition updateSpeaking :: "rat \<Rightarrow> rat \<Rightarrow> speaking_detector \<Rightarrow> speaking_detector" where
  "updateSpeaking level now d =
     (if (if sd_speaking d then OFF_LEVEL else ON_LEVEL) \<le> level then \<lparr>sd_speaking = True, sd_lastLoudAt = Some now\<rparr>
      else if sd_speaking d \<and> (case sd_lastLoudAt d of None \<Rightarrow> True | Some t \<Rightarrow> HANGOVER_MS < now - t)
        then d\<lparr>sd_speaking := False\<rparr>
      else d)"

definition voiceLevel :: "rat \<Rightarrow> rat" where
  "voiceLevel r = max 0 (min 1 (r * 5))"

text \<open>
  A reference for the detector, newest frame first: someone talks when the
  newest run of frames, none of them low for longer than the hangover since
  the last loud one, goes back to a frame that reached the upper level.
\<close>

fun talking :: "(rat \<times> rat) list \<Rightarrow> rat option" where
  "talking [] = None"
| "talking ((level, now) # frames) =
     (case talking frames of
        None \<Rightarrow> if ON_LEVEL \<le> level then Some now else None
      | Some t \<Rightarrow> if OFF_LEVEL \<le> level then Some now else if HANGOVER_MS < now - t then None else Some t)"

lemma detector_is_talking:
  "sd_speaking (fold (\<lambda>(level, now). updateSpeaking level now) frames newDetector) \<longleftrightarrow> talking (rev frames) \<noteq> None"
proof -
  have "let d = foldr (\<lambda>(level, now). updateSpeaking level now) frames newDetector in
      (sd_speaking d \<longleftrightarrow> talking frames \<noteq> None) \<and> (sd_speaking d \<longrightarrow> sd_lastLoudAt d = talking frames)" for frames
  proof (induction frames)
    case Nil
    then show ?case by (simp add: newDetector_def)
  next
    case (Cons f frames)
    obtain level now where f: "f = (level, now)" by (cases f)
    have "OFF_LEVEL < ON_LEVEL" by (simp add: OFF_LEVEL_def ON_LEVEL_def)
    then show ?case
      using Cons f by (cases "talking frames") (auto simp: Let_def updateSpeaking_def)
  qed
  from this [of "rev frames"] show ?thesis by (simp add: foldr_conv_fold Let_def)
qed

section \<open>Which device (devices.ts)\<close>

datatype device_kind = AudioInput | VideoInput | AudioOutput

record media_device =
  md_deviceId :: string
  md_kind :: device_kind

record device_lists =
  dl_mics :: "media_device list"
  dl_cams :: "media_device list"
  dl_speakers :: "media_device list"

definition groupDevices :: "media_device list \<Rightarrow> device_lists" where
  "groupDevices devices =
     (let usable = filter (\<lambda>device. md_deviceId device \<noteq> '''') devices
      in \<lparr>dl_mics = filter (\<lambda>device. md_kind device = AudioInput) usable,
          dl_cams = filter (\<lambda>device. md_kind device = VideoInput) usable,
          dl_speakers = filter (\<lambda>device. md_kind device = AudioOutput) usable\<rparr>)"

definition chooseDevice :: "media_device list \<Rightarrow> string option \<Rightarrow> string option" where
  "chooseDevice devices saved =
     (case saved of
        Some s \<Rightarrow> if s \<noteq> '''' \<and> (\<exists>device \<in> set devices. md_deviceId device = s) then Some s
                  else map_option md_deviceId (case devices of [] \<Rightarrow> None | d # _ \<Rightarrow> Some d)
      | None \<Rightarrow> map_option md_deviceId (case devices of [] \<Rightarrow> None | d # _ \<Rightarrow> Some d))"

lemma chosen_device_is_listed:
  "chooseDevice devices saved = Some d \<Longrightarrow> d \<in> md_deviceId ` set devices"
  by (auto simp: chooseDevice_def split: option.splits if_splits list.splits)

end
