(* ===== verification/JsonRead.thy ===== *)
theory JsonRead
  imports Json
begin

text \<open>
  Reading a value that came over the wire: the guards with which the page takes
  a payload apart field by field. An object has each key once.
\<close>

text \<open>\<open>isRecord\<close>: an array is an object too, without the fields looked for.\<close>

fun asRecord :: "json \<Rightarrow> payload option" where
  "asRecord (JObj fs) = Some fs"
| "asRecord (JList _) = Some []"
| "asRecord _ = None"

definition jsonField :: "payload \<Rightarrow> string \<Rightarrow> json option" where
  "jsonField r key = map_of r key"

definition jsonRecord :: "payload \<Rightarrow> string \<Rightarrow> payload option" where
  "jsonRecord r key = Option.bind (jsonField r key) asRecord"

definition jsonBool :: "payload \<Rightarrow> string \<Rightarrow> bool option" where
  "jsonBool r key = (case jsonField r key of Some (JBool b) \<Rightarrow> Some b | _ \<Rightarrow> None)"

definition jsonNum :: "payload \<Rightarrow> string \<Rightarrow> rat option" where
  "jsonNum r key = (case jsonField r key of Some (JNum n) \<Rightarrow> Some n | _ \<Rightarrow> None)"

definition jsonTrue :: "payload \<Rightarrow> string \<Rightarrow> bool" where
  "jsonTrue r key \<longleftrightarrow> jsonBool r key = Some True"

definition jsonText :: "payload \<Rightarrow> string \<Rightarrow> string option" where
  "jsonText r key = (case jsonField r key of Some (JStr s) \<Rightarrow> Some s | _ \<Rightarrow> None)"

lemmas json_fields = jsonRecord_def jsonBool_def jsonNum_def jsonText_def jsonTrue_def jsonField_def

lemma jsonText_Some [simp]: "jsonText r key = Some s \<longleftrightarrow> jsonField r key = Some (JStr s)"
  by (auto simp: jsonText_def split: option.splits json.splits)

end
