(* ===== verification/Companion.thy ===== *)
theory Companion
  imports Prelude JsText
begin

text \<open>
  A room produced by the companion app (\<open>jlocal/production.ts\<close>): the runs a
  production started on the host's own machine, the poll that watches them and
  the follow that turns a position nothing covers into the next region. What
  the app and the server answer are events; times are milliseconds.
\<close>

section \<open>Runs and their state\<close>

definition FOLLOW_AHEAD_MS :: rat where "FOLLOW_AHEAD_MS = 45000"

definition FOLLOW_BEHIND_MS :: rat where "FOLLOW_BEHIND_MS = 1000"

definition FOLLOW_DEBOUNCE_MS :: rat where "FOLLOW_DEBOUNCE_MS = 3000"

definition MAX_RETRIES :: nat where "MAX_RETRIES = 1"

definition FAIL_COOLDOWN_MS :: rat where "FAIL_COOLDOWN_MS = 30000"

text \<open>\<open>state\<close> is a string the app writes; any other one is \<open>OtherState\<close>.\<close>

datatype run_status =
    Accepted
  | Running
  | Draining
  | RunCompleted
  | RunCancelled
  | RunFailed
  | Superseded
  | OtherState string

record run_state =
  rs_runId :: nat
  rs_region :: nat
  rs_startMs :: rat
  rs_producedMs :: rat
  rs_state :: run_status
  rs_retries :: nat

definition endedState :: "run_status \<Rightarrow> bool" where
  "endedState s \<longleftrightarrow> s \<in> {RunCompleted, RunCancelled, RunFailed, Superseded}"

text \<open>
  A call of \<open>start\<close> that has not returned: it waits for the fence, then for the
  run. Random run ids are numbers, the calls of \<open>start\<close> in order. A call of
  \<open>refresh\<close> waits for the answer about the first run of its list; runs are
  never removed, so a run is its place in \<open>runs\<close>.
\<close>

record start_call =
  sc_runId :: nat
  sc_region :: nat
  sc_startMs :: rat
  sc_retries :: nat
  sc_fenced :: bool

datatype production_effect =
    FenceAsked nat
  | RunAsked nat nat rat
  | StartRefused nat string
  | StatusAsked nat
  | RunDeleted nat

record app_production =
  pr_runs :: "run_state list"
  pr_last :: rat
  pr_pending :: "rat option"
  pr_timer :: "rat option"
  pr_poll :: bool
  pr_polling :: bool
  pr_stopped :: bool
  pr_cooldownUntil :: rat
  pr_starts :: "start_call list"
  pr_made :: nat
  pr_refreshes :: "(nat \<times> nat list) list"
  pr_asked :: nat
  pr_log :: "production_effect list"

text \<open>\<open>pr_poll\<close> is whether \<open>poll\<close> holds a handle, \<open>pr_polling\<close> whether its interval still runs; \<open>pr_timer\<close> is when the follow timer fires.\<close>

definition newProduction :: app_production where
  "newProduction = \<lparr>pr_runs = [], pr_last = 0, pr_pending = None, pr_timer = None, pr_poll = False, pr_polling = False,
     pr_stopped = False, pr_cooldownUntil = 0, pr_starts = [], pr_made = 0, pr_refreshes = [], pr_asked = 0, pr_log = []\<rparr>"

definition prNote :: "production_effect \<Rightarrow> app_production \<Rightarrow> app_production" where
  "prNote e p = p\<lparr>pr_log := pr_log p @ [e]\<rparr>"

section \<open>Starting a run\<close>

text \<open>\<open>start\<close> up to its first await: the request that moves the room's run fence.\<close>

definition startRun :: "nat \<Rightarrow> rat \<Rightarrow> nat \<Rightarrow> app_production \<Rightarrow> app_production" where
  "startRun region startMs retries p =
     prNote (FenceAsked (pr_made p))
       (p\<lparr>pr_starts := pr_starts p @ [\<lparr>sc_runId = pr_made p, sc_region = region, sc_startMs = startMs,
                                       sc_retries = retries, sc_fenced = False\<rparr>],
          pr_made := Suc (pr_made p)\<rparr>)"

definition findStart :: "nat \<Rightarrow> app_production \<Rightarrow> start_call option" where
  "findStart k p = find (\<lambda>c. sc_runId c = k) (pr_starts p)"

definition dropStart :: "nat \<Rightarrow> app_production \<Rightarrow> app_production" where
  "dropStart k p = p\<lparr>pr_starts := filter (\<lambda>c. sc_runId c \<noteq> k) (pr_starts p)\<rparr>"

datatype app_answer = Answered nat string | Threw string

text \<open>The fence's answer: anything but a success ends the call with its reason, otherwise the run is asked of the app.\<close>

definition okStatus :: "nat \<Rightarrow> bool" where
  "okStatus status \<longleftrightarrow> 200 \<le> status \<and> status \<le> 299"

definition fenceAnswered :: "nat \<Rightarrow> app_answer \<Rightarrow> app_production \<Rightarrow> app_production" where
  "fenceAnswered k a p =
     (case findStart k p of
        None \<Rightarrow> p
      | Some c \<Rightarrow>
          if sc_fenced c then p
          else (case a of
                  Threw reason \<Rightarrow> prNote (StartRefused k (''run fence failed: '' @ reason)) (dropStart k p)
                | Answered status _ \<Rightarrow>
                    if \<not> okStatus status then prNote (StartRefused k (''run fence refused: '' @ dec status)) (dropStart k p)
                    else prNote (RunAsked k (sc_region c) (sc_startMs c))
                           (p\<lparr>pr_starts := map (\<lambda>c'. if sc_runId c' = k then c'\<lparr>sc_fenced := True\<rparr> else c') (pr_starts p)\<rparr>)))"

definition supersedeRun :: "run_state \<Rightarrow> run_state" where
  "supersedeRun run = (if rs_state run \<in> {Accepted, Running, Draining} then run\<lparr>rs_state := Superseded\<rparr> else run)"

text \<open>The app's answer: 202 supersedes the runs under way and adds the new one; the poll is started once.\<close>

definition runAnswered :: "nat \<Rightarrow> app_answer \<Rightarrow> app_production \<Rightarrow> app_production" where
  "runAnswered k a p =
     (case findStart k p of
        None \<Rightarrow> p
      | Some c \<Rightarrow>
          if \<not> sc_fenced c then p
          else (case a of
                  Threw reason \<Rightarrow> prNote (StartRefused k (''jlocal run request failed: '' @ reason)) (dropStart k p)
                | Answered status error \<Rightarrow>
                    if status \<noteq> 202 then prNote (StartRefused k (''jlocal refused the run ('' @ dec status @ (if error = [] then [] else '' '' @ error) @ '')'')) (dropStart k p)
                    else (dropStart k p)\<lparr>
                           pr_runs := map supersedeRun (pr_runs p)
                             @ [\<lparr>rs_runId = k, rs_region = sc_region c, rs_startMs = sc_startMs c, rs_producedMs = 0,
                                 rs_state = Accepted, rs_retries = sc_retries c\<rparr>],
                           pr_poll := True,
                           pr_polling := pr_polling p \<or> \<not> pr_poll p\<rparr>))"

section \<open>Watching the runs\<close>

text \<open>\<open>refresh\<close> asks about each run that was live when it began, one after another.\<close>

definition askNext :: "nat \<Rightarrow> nat list \<Rightarrow> app_production \<Rightarrow> app_production" where
  "askNext r live p =
     (case live of
        [] \<Rightarrow> p\<lparr>pr_refreshes := mapDelete r (pr_refreshes p)\<rparr>
      | i # _ \<Rightarrow> prNote (StatusAsked i) (p\<lparr>pr_refreshes := mapSet r live (pr_refreshes p)\<rparr>))"

definition pollTick :: "app_production \<Rightarrow> app_production" where
  "pollTick p =
     (if \<not> pr_polling p \<or> pr_stopped p then p
      else askNext (pr_asked p) (filter (\<lambda>i. \<not> endedState (rs_state (pr_runs p ! i))) [0..<length (pr_runs p)])
             (p\<lparr>pr_asked := Suc (pr_asked p)\<rparr>))"

datatype status_answer = NotFound | NotOk | Status run_status rat | StatusThrew

definition updateRun :: "nat \<Rightarrow> (run_state \<Rightarrow> run_state) \<Rightarrow> app_production \<Rightarrow> app_production" where
  "updateRun i f p = p\<lparr>pr_runs := (pr_runs p)[i := f (pr_runs p ! i)]\<rparr>"

definition statusTaken :: "rat \<Rightarrow> nat \<Rightarrow> status_answer \<Rightarrow> app_production \<Rightarrow> app_production" where
  "statusTaken now i a p =
     (case a of
        NotFound \<Rightarrow> updateRun i (\<lambda>run. run\<lparr>rs_state := RunFailed\<rparr>) p
      | NotOk \<Rightarrow> p
      | StatusThrew \<Rightarrow> p
      | Status st produced \<Rightarrow>
          let p' = updateRun i (\<lambda>run. run\<lparr>rs_state := st, rs_producedMs := produced\<rparr>) p;
              run = pr_runs p ! i
          in if st \<noteq> RunFailed then p'
             else if rs_retries run < MAX_RETRIES then startRun (rs_region run) (rs_startMs run) (Suc (rs_retries run)) p'
             else p'\<lparr>pr_cooldownUntil := now + FAIL_COOLDOWN_MS\<rparr>)"

definition statusAnswered :: "rat \<Rightarrow> nat \<Rightarrow> status_answer \<Rightarrow> app_production \<Rightarrow> app_production" where
  "statusAnswered now r a p =
     (case mapGet (pr_refreshes p) r of
        Some (i # live) \<Rightarrow> askNext r live (statusTaken now i a p)
      | _ \<Rightarrow> p)"

section \<open>Following the room\<close>

definition coveredByRun :: "rat \<Rightarrow> run_state list \<Rightarrow> bool" where
  "coveredByRun positionMs runs \<longleftrightarrow>
     (\<exists>run \<in> set runs. rs_state run \<noteq> RunFailed \<and> rs_state run \<noteq> RunCancelled
        \<and> rs_startMs run - FOLLOW_BEHIND_MS \<le> positionMs
        \<and> positionMs \<le> (if rs_state run = RunCompleted \<or> rs_state run = Superseded then rs_startMs run + rs_producedMs run
                         else rs_startMs run + rs_producedMs run + FOLLOW_AHEAD_MS))"

definition nextRegion :: "run_state list \<Rightarrow> nat" where
  "nextRegion runs = Suc (foldl (\<lambda>m run. max m (rs_region run)) 0 runs)"

definition followPosition :: "rat \<Rightarrow> rat \<Rightarrow> app_production \<Rightarrow> app_production" where
  "followPosition now positionMs p =
     (if pr_stopped p \<or> positionMs < 0 then p
      else let since = now - pr_last p
           in if since < FOLLOW_DEBOUNCE_MS then
                p\<lparr>pr_pending := Some positionMs,
                  pr_timer := (case pr_timer p of None \<Rightarrow> Some (now + (FOLLOW_DEBOUNCE_MS - since)) | Some t \<Rightarrow> Some t)\<rparr>
              else
                let p' = p\<lparr>pr_last := now, pr_pending := None\<rparr>
                in if coveredByRun positionMs (pr_runs p) \<or> now < pr_cooldownUntil p then p'
                   else startRun (nextRegion (pr_runs p)) positionMs 0 p')"

definition followTimer :: "rat \<Rightarrow> app_production \<Rightarrow> app_production" where
  "followTimer now p =
     (if pr_timer p = None then p
      else let p' = p\<lparr>pr_timer := None, pr_pending := None\<rparr>
           in case pr_pending p of None \<Rightarrow> p' | Some pending \<Rightarrow> followPosition now pending p')"

text \<open>\<open>stop\<close>: the timer and the interval are cleared (their handles are kept, but nothing reads the timer's any more).\<close>

definition stopProduction :: "app_production \<Rightarrow> app_production" where
  "stopProduction p =
     p\<lparr>pr_stopped := True, pr_timer := None, pr_polling := False,
       pr_log := pr_log p @ map (\<lambda>run. RunDeleted (rs_runId run)) (filter (\<lambda>run. \<not> endedState (rs_state run)) (pr_runs p))\<rparr>"

datatype production_event =
    Start nat rat
  | FenceAnswered nat app_answer
  | RunAnswered nat app_answer
  | PollTick
  | StatusAnswered nat status_answer
  | Follow rat
  | FollowTimer
  | StopProduction

fun productionStep :: "app_production \<Rightarrow> rat \<times> production_event \<Rightarrow> app_production" where
  "productionStep p (now, Start region startMs) = startRun region startMs 0 p"
| "productionStep p (now, FenceAnswered k a) = fenceAnswered k a p"
| "productionStep p (now, RunAnswered k a) = runAnswered k a p"
| "productionStep p (now, PollTick) = pollTick p"
| "productionStep p (now, StatusAnswered r a) = statusAnswered now r a p"
| "productionStep p (now, Follow positionMs) = followPosition now positionMs p"
| "productionStep p (now, FollowTimer) = followTimer now p"
| "productionStep p (now, StopProduction) = stopProduction p"

section \<open>Handing a room over\<close>

text \<open>
  \<open>startJlocalProduction\<close> decides three times: what the claim's answer means, what
  the first start's refusal means, and whose entry the room's end removes. The
  productions of the tab are named by numbers, one to a room.
\<close>

datatype claim_answer = ClaimStatus nat | ClaimBody string nat | ClaimThrew string

definition claimOutcome :: "nat \<Rightarrow> claim_answer \<Rightarrow> string + string" where
  "claimOutcome mediaGeneration a =
     (case a of
        ClaimThrew reason \<Rightarrow> Inl (''client media claim failed: '' @ reason)
      | ClaimStatus status \<Rightarrow> Inl (''client media claim refused: '' @ dec status)
      | ClaimBody claim generation \<Rightarrow>
          if generation \<noteq> mediaGeneration then Inl ''client media claim raced a source swap'' else Inr claim)"

datatype handover_effect = OldStopped nat | ClaimReturned string | HandleRegistered nat | HandleDropped nat

text \<open>The claim is given back when the first start is refused; the room's previous production was stopped either way.\<close>

definition stopPrevious :: "string \<Rightarrow> (string, nat) jsmap \<Rightarrow> handover_effect list" where
  "stopPrevious roomId productions =
     (case mapGet productions roomId of None \<Rightarrow> [] | Some old \<Rightarrow> [OldStopped old])"

definition startEnded :: "string \<Rightarrow> string \<Rightarrow> nat \<Rightarrow> string option \<Rightarrow> (string, nat) jsmap \<Rightarrow> (string, nat) jsmap \<times> handover_effect list" where
  "startEnded roomId claim production refusal productions =
     (case refusal of
        Some reason \<Rightarrow> (productions, [ClaimReturned claim])
      | None \<Rightarrow> (mapSet roomId production productions, [HandleRegistered production]))"

definition productionEnded :: "string \<Rightarrow> nat \<Rightarrow> (string, nat) jsmap \<Rightarrow> (string, nat) jsmap \<times> handover_effect list" where
  "productionEnded roomId production productions =
     (if mapGet productions roomId = Some production then mapDelete roomId productions else productions,
      [OldStopped production, HandleDropped production])"

section \<open>No position is forgotten\<close>

definition productionOk :: "app_production \<Rightarrow> bool" where
  "productionOk p \<longleftrightarrow>
     (pr_stopped p \<or> pr_pending p = None \<or> pr_timer p \<noteq> None)
     \<and> (\<forall>t. pr_timer p = Some t \<longrightarrow> t \<le> pr_last p + FOLLOW_DEBOUNCE_MS)"

lemmas production_defs = startRun_def fenceAnswered_def runAnswered_def dropStart_def prNote_def pollTick_def askNext_def
  statusAnswered_def statusTaken_def updateRun_def stopProduction_def

named_theorems followed \<open>what an operation leaves of the followPosition's own variables\<close>

lemma prNote_follow [followed]:
  "pr_pending (prNote e p) = pr_pending p" "pr_timer (prNote e p) = pr_timer p" "pr_last (prNote e p) = pr_last p"
  "pr_stopped (prNote e p) = pr_stopped p"
  by (simp_all add: prNote_def)

lemma startRun_follow [followed]:
  "pr_pending (startRun r s n p) = pr_pending p" "pr_timer (startRun r s n p) = pr_timer p"
  "pr_last (startRun r s n p) = pr_last p" "pr_stopped (startRun r s n p) = pr_stopped p"
  by (simp_all add: startRun_def followed)

lemma dropStart_follow [followed]:
  "pr_pending (dropStart k p) = pr_pending p" "pr_timer (dropStart k p) = pr_timer p"
  "pr_last (dropStart k p) = pr_last p" "pr_stopped (dropStart k p) = pr_stopped p"
  by (simp_all add: dropStart_def)

lemma fenceAnswered_follow [followed]:
  "pr_pending (fenceAnswered k a p) = pr_pending p" "pr_timer (fenceAnswered k a p) = pr_timer p"
  "pr_last (fenceAnswered k a p) = pr_last p" "pr_stopped (fenceAnswered k a p) = pr_stopped p"
  by (simp_all add: fenceAnswered_def followed split: option.splits app_answer.splits)

lemma runAnswered_follow [followed]:
  "pr_pending (runAnswered k a p) = pr_pending p" "pr_timer (runAnswered k a p) = pr_timer p"
  "pr_last (runAnswered k a p) = pr_last p" "pr_stopped (runAnswered k a p) = pr_stopped p"
  by (simp_all add: runAnswered_def followed split: option.splits app_answer.splits)

lemma askNext_follow [followed]:
  "pr_pending (askNext r live p) = pr_pending p" "pr_timer (askNext r live p) = pr_timer p"
  "pr_last (askNext r live p) = pr_last p" "pr_stopped (askNext r live p) = pr_stopped p"
  by (simp_all add: askNext_def followed split: list.splits)

lemma pollTick_follow [followed]:
  "pr_pending (pollTick p) = pr_pending p" "pr_timer (pollTick p) = pr_timer p"
  "pr_last (pollTick p) = pr_last p" "pr_stopped (pollTick p) = pr_stopped p"
  by (simp_all add: pollTick_def followed)

lemma statusTaken_follow [followed]:
  "pr_pending (statusTaken now i a p) = pr_pending p" "pr_timer (statusTaken now i a p) = pr_timer p"
  "pr_last (statusTaken now i a p) = pr_last p" "pr_stopped (statusTaken now i a p) = pr_stopped p"
  by (simp_all add: statusTaken_def updateRun_def Let_def followed split: status_answer.splits)

lemma statusAnswered_follow [followed]:
  "pr_pending (statusAnswered now r a p) = pr_pending p" "pr_timer (statusAnswered now r a p) = pr_timer p"
  "pr_last (statusAnswered now r a p) = pr_last p" "pr_stopped (statusAnswered now r a p) = pr_stopped p"
  by (simp_all add: statusAnswered_def followed split: option.splits list.splits)

lemma follow_keeps: "productionOk p \<Longrightarrow> productionOk (followPosition now pos p)"
  by (auto simp: productionOk_def followPosition_def Let_def followed FOLLOW_DEBOUNCE_MS_def split: option.splits)

lemma followTimer_keeps: "productionOk p \<Longrightarrow> productionOk (followTimer now p)"
  by (auto simp: followTimer_def Let_def productionOk_def split: option.splits
      intro!: follow_keeps [unfolded productionOk_def, simplified])

lemma productionOk_cong:
  assumes "pr_pending q = pr_pending p" "pr_timer q = pr_timer p" "pr_last q = pr_last p" "pr_stopped q = pr_stopped p"
  shows "productionOk q = productionOk p"
  using assms by (simp add: productionOk_def)

lemma stopProduction_keeps: "productionOk p \<Longrightarrow> productionOk (stopProduction p)"
  by (simp add: productionOk_def stopProduction_def)

lemma productionStep_keeps: "productionOk p \<Longrightarrow> productionOk (productionStep p ev)"
  by (cases "(p, ev)" rule: productionStep.cases)
    (simp_all add: follow_keeps followTimer_keeps stopProduction_keeps
       productionOk_cong [of "startRun _ _ _ p" p] productionOk_cong [of "fenceAnswered _ _ p" p]
       productionOk_cong [of "runAnswered _ _ p" p] productionOk_cong [of "pollTick p" p]
       productionOk_cong [of "statusAnswered _ _ _ p" p] followed)

interpretation producing: component productionStep productionOk
  by unfold_locales (rule productionStep_keeps)

lemma newProduction_ok: "productionOk newProduction"
  by (simp add: productionOk_def newProduction_def)

text \<open>What looking at a position comes to: it is covered, a failure is cooling down, or its region's start is under way.\<close>

definition lookedAt :: "rat \<Rightarrow> rat \<Rightarrow> app_production \<Rightarrow> app_production \<Rightarrow> bool" where
  "lookedAt now pos p q \<longleftrightarrow>
     pr_last q = now \<and> pr_pending q = None
     \<and> (coveredByRun pos (pr_runs p) \<or> now < pr_cooldownUntil p
        \<or> (\<exists>c. last (pr_starts q) = c \<and> length (pr_starts q) = Suc (length (pr_starts p))
               \<and> sc_startMs c = pos \<and> (\<forall>run \<in> set (pr_runs p). rs_region run < sc_region c)))"

lemma nextRegion_above: "run \<in> set runs \<Longrightarrow> rs_region run < nextRegion runs"
proof -
  have mono: "m \<le> foldl (\<lambda>m run. max m (rs_region run)) m runs" for m and runs :: "run_state list"
    by (induction runs arbitrary: m) (auto intro: order_trans [OF max.cobounded1])
  have "run \<in> set runs \<Longrightarrow> rs_region run \<le> foldl (\<lambda>m run. max m (rs_region run)) m runs" for m
    by (induction runs arbitrary: m) (auto intro: order_trans [OF max.cobounded2 mono])
  then show "run \<in> set runs \<Longrightarrow> rs_region run < nextRegion runs" by (simp add: nextRegion_def less_Suc_eq_le)
qed

lemma follow_looks:
  assumes "\<not> pr_stopped p" "0 \<le> pos" "FOLLOW_DEBOUNCE_MS \<le> now - pr_last p"
  shows "lookedAt now pos p (followPosition now pos p)"
  using assms by (auto simp: lookedAt_def followPosition_def Let_def startRun_def prNote_def nextRegion_above not_less)

text \<open>no position of the room is forgotten. Whatever the app and the server answered before, a position followed while the production runs is looked at at once - it is covered, a failure is cooling down, or a start for exactly it, at a region number above every run's, is under way - or it waits with the timer set to fire at most three seconds after the last look; and when that timer fires on time, the newest waiting position is looked at in the same way.\<close>

theorem followed_position_is_kept:
  assumes running: "\<not> pr_stopped (foldl productionStep newProduction es)" and pos: "0 \<le> pos"
  shows "let p = foldl productionStep newProduction es; q = followPosition now pos p in
     if FOLLOW_DEBOUNCE_MS \<le> now - pr_last p then lookedAt now pos p q
     else pr_pending q = Some pos
        \<and> (\<exists>t. pr_timer q = Some t \<and> t \<le> pr_last p + FOLLOW_DEBOUNCE_MS
              \<and> (\<forall>later. pr_last p + FOLLOW_DEBOUNCE_MS \<le> later \<longrightarrow> lookedAt later pos q (followTimer later q)))"
proof -
  let ?p = "foldl productionStep newProduction es"
  have ok: "productionOk ?p" by (rule producing.run_keeps [OF newProduction_ok])
  show ?thesis
  proof (cases "FOLLOW_DEBOUNCE_MS \<le> now - pr_last ?p")
    case True
    then show ?thesis using follow_looks [OF running pos] by (simp add: Let_def)
  next
    case False
    let ?q = "followPosition now pos ?p"
    have q: "pr_pending ?q = Some pos" "pr_last ?q = pr_last ?p" "\<not> pr_stopped ?q" "pr_timer ?q \<noteq> None"
      using False running pos by (auto simp: followPosition_def Let_def split: option.splits)
    obtain t where t: "pr_timer ?q = Some t" using q(4) by blast
    have "t \<le> pr_last ?p + FOLLOW_DEBOUNCE_MS"
      using follow_keeps [OF ok, of now pos] t q(2) by (simp add: productionOk_def)
    moreover have "lookedAt later pos ?q (followTimer later ?q)" if "pr_last ?p + FOLLOW_DEBOUNCE_MS \<le> later" for later
      using follow_looks [of "?q\<lparr>pr_timer := None, pr_pending := None\<rparr>" pos later] q that pos
      by (auto simp: followTimer_def lookedAt_def)
    ultimately show ?thesis using False q t by (auto simp: Let_def)
  qed
qed

lemma followed_position_is_kept_witness:
  "lookedAt 5000 70000 (foldl productionStep newProduction [(0, Start 0 0)])
     (followPosition 5000 70000 (foldl productionStep newProduction [(0, Start 0 0)]))"
proof -
  have "\<not> pr_stopped (foldl productionStep newProduction [(0, Start 0 0)])"
    by (simp add: startRun_def prNote_def newProduction_def)
  from followed_position_is_kept [OF this, of 70000 5000]
  show ?thesis by (simp add: Let_def startRun_def prNote_def newProduction_def FOLLOW_DEBOUNCE_MS_def)
qed

section \<open>What a stop ends, and what it does not\<close>

definition asksOf :: "production_effect list \<Rightarrow> production_effect list" where
  "asksOf es = filter (\<lambda>e. case e of FenceAsked _ \<Rightarrow> True | RunAsked _ _ _ \<Rightarrow> True | StatusAsked _ \<Rightarrow> True | _ \<Rightarrow> False) es"

definition quiet :: "production_effect list \<Rightarrow> app_production \<Rightarrow> bool" where
  "quiet asked p \<longleftrightarrow> pr_stopped p \<and> pr_timer p = None \<and> \<not> pr_polling p \<and> pr_starts p = [] \<and> pr_refreshes p = [] \<and> asksOf (pr_log p) = asked"

definition startsNothing :: "app_production \<Rightarrow> rat \<times> production_event \<Rightarrow> bool" where
  "startsNothing p ev \<longleftrightarrow> (case snd ev of Start _ _ \<Rightarrow> False | _ \<Rightarrow> True)"

lemma quiet_keeps: "quiet asked p \<Longrightarrow> startsNothing p ev \<Longrightarrow> quiet asked (productionStep p ev)"
  by (cases "(p, ev)" rule: productionStep.cases)
    (simp_all add: quiet_def startsNothing_def fenceAnswered_def runAnswered_def findStart_def pollTick_def statusAnswered_def
       followPosition_def followTimer_def stopProduction_def asksOf_def comp_def)

interpretation stopped_production: guarded_component productionStep startsNothing "quiet asked"
  by unfold_locales (rule quiet_keeps)

text \<open>a stop is the end of a production nothing is under way for. Every run not yet over is deleted on the app in that moment, and whatever follows, fires or answers afterwards, no fence is moved, no run asked for and no status asked again.\<close>

theorem stopped_production_asks_nothing:
  assumes idle: "pr_starts p = []" "pr_refreshes p = []"
    and later: "along productionStep startsNothing (stopProduction p) es"
  shows "(\<forall>run \<in> set (pr_runs p). \<not> endedState (rs_state run) \<longrightarrow> RunDeleted (rs_runId run) \<in> set (pr_log (stopProduction p)))
     \<and> asksOf (pr_log (foldl productionStep (stopProduction p) es)) = asksOf (pr_log p)"
proof -
  have "quiet (asksOf (pr_log p)) (stopProduction p)"
    using idle by (simp add: quiet_def stopProduction_def asksOf_def comp_def)
  then have "quiet (asksOf (pr_log p)) (foldl productionStep (stopProduction p) es)"
    by (rule stopped_production.run_keeps [OF _ later])
  then show ?thesis by (auto simp: quiet_def stopProduction_def)
qed

lemma stopped_production_asks_nothing_witness:
  "\<exists>p es. pr_runs p \<noteq> [] \<and> es \<noteq> []
     \<and> RunDeleted 0 \<in> set (pr_log (stopProduction p))
     \<and> asksOf (pr_log (foldl productionStep (stopProduction p) es)) = asksOf (pr_log p)"
proof -
  let ?p = "foldl productionStep newProduction [(0, Start 0 0), (1, FenceAnswered 0 (Answered 204 [])), (2, RunAnswered 0 (Answered 202 []))]"
  let ?es = "[(9000, Follow 99000), (9001, PollTick)] :: (rat \<times> production_event) list"
  note run = production_defs newProduction_def findStart_def okStatus_def followPosition_def startsNothing_def
  have p: "pr_starts ?p = []" "pr_refreshes ?p = []" "pr_runs ?p = [\<lparr>rs_runId = 0, rs_region = 0, rs_startMs = 0, rs_producedMs = 0, rs_state = Accepted, rs_retries = 0\<rparr>]"
    by (simp_all add: run)
  have "along productionStep startsNothing (stopProduction ?p) ?es" by (simp add: startsNothing_def)
  from stopped_production_asks_nothing [OF p(1,2) this] show ?thesis
    unfolding p(3) by (intro exI [of _ ?p] exI [of _ ?es]) (simp only: p(3) list.set, simp add: endedState_def)
qed

text \<open>
  Neither hypothesis can be left out. A start the stop overtook goes on: its run
  is asked for after the stop, enters \<open>runs\<close> when accepted, and nothing deletes it.
\<close>

theorem stop_leaves_a_run_behind:
  "let p = foldl productionStep newProduction
       [(0, Start 0 0), (1, FenceAnswered 0 (Answered 204 [])), (2, StopProduction), (3, RunAnswered 0 (Answered 202 []))]
   in pr_stopped p \<and> (\<exists>run \<in> set (pr_runs p). rs_state run = Accepted \<and> RunDeleted (rs_runId run) \<notin> set (pr_log p))
      \<and> pr_polling p"
  by (simp add: Let_def production_defs newProduction_def findStart_def okStatus_def)

text \<open>
  Two follows three seconds apart, the first start still waiting for its fence:
  both take the number of the same next region.
\<close>

theorem slow_start_repeats_a_region:
  "let p = foldl productionStep newProduction
       [(0, Start 0 0), (1, FenceAnswered 0 (Answered 204 [])), (2, RunAnswered 0 (Answered 202 [])),
        (10000, Follow 100000), (13000, Follow 500000), (13500, FenceAnswered 1 (Answered 204 [])),
        (14000, FenceAnswered 2 (Answered 204 [])), (14500, RunAnswered 1 (Answered 202 [])), (15000, RunAnswered 2 (Answered 202 []))]
   in map (\<lambda>run. (rs_region run, rs_startMs run)) (pr_runs p) = [(0, 0), (1, 100000), (1, 500000)]"
  by (simp add: Let_def production_defs newProduction_def findStart_def okStatus_def followPosition_def coveredByRun_def
      supersedeRun_def nextRegion_def FOLLOW_DEBOUNCE_MS_def FOLLOW_AHEAD_MS_def FOLLOW_BEHIND_MS_def)

text \<open>A status asked before a newer run superseded this one brings it back to life when it is answered.\<close>

theorem late_status_revives_a_run:
  "let p = foldl productionStep newProduction
       [(0, Start 0 0), (1, FenceAnswered 0 (Answered 204 [])), (2, RunAnswered 0 (Answered 202 [])),
        (10000, Follow 100000), (10100, FenceAnswered 1 (Answered 204 [])), (10200, PollTick),
        (10300, RunAnswered 1 (Answered 202 [])), (10400, StatusAnswered 0 (Status Running 5000))]
   in map rs_state (pr_runs p) = [Running, Accepted]"
  by (simp add: Let_def production_defs newProduction_def findStart_def okStatus_def followPosition_def coveredByRun_def endedState_def
      supersedeRun_def nextRegion_def FOLLOW_DEBOUNCE_MS_def FOLLOW_AHEAD_MS_def FOLLOW_BEHIND_MS_def)

text \<open>A status may take longer than the poll's interval: the failure of one run is then seen twice and retried twice.\<close>

theorem overlapping_polls_retry_twice:
  "let p = foldl productionStep newProduction
       [(0, Start 0 0), (1, FenceAnswered 0 (Answered 204 [])), (2, RunAnswered 0 (Answered 202 [])),
        (2000, PollTick), (4000, PollTick), (4100, StatusAnswered 0 (Status RunFailed 0)), (4200, StatusAnswered 1 (Status RunFailed 0))]
   in map (\<lambda>c. (sc_region c, sc_retries c)) (pr_starts p) = [(0, 1), (0, 1)]"
  by (simp add: Let_def production_defs newProduction_def findStart_def okStatus_def endedState_def MAX_RETRIES_def)

end
