(* ===== verification/CompanionApp.thy ===== *)
theory CompanionApp
  imports Prelude JsText JsonRead
begin

text \<open>
  What the page knows of the companion app and tells it: whether it is there
  (\<open>jlocal/status.ts\<close>), what it can do (\<open>jlocal/capabilities.ts\<close>), which sounds a
  share carries (\<open>jlocal/soundChoice.ts\<close>) and its lists of apps (\<open>jlocal/audio.ts\<close>).
\<close>

section \<open>Is it there (status.ts)\<close>

record app_snapshot =
  sn_connected :: bool
  sn_version :: "string option"
  sn_connecting :: bool

datatype status_effect = Emitted app_snapshot | ChimePlayed

text \<open>\<open>st_probes\<close> are the epochs of the probes that have not been answered; the poll's timer is never cleared.\<close>

record status_module =
  st_snapshot :: app_snapshot
  st_polling :: bool
  st_epoch :: nat
  st_probes :: "nat list"
  st_log :: "status_effect list"

definition statusInitial :: status_module where
  "statusInitial = \<lparr>st_snapshot = \<lparr>sn_connected = False, sn_version = None, sn_connecting = False\<rparr>,
     st_polling = False, st_epoch = 0, st_probes = [], st_log = []\<rparr>"

definition emitSnapshot :: "app_snapshot \<Rightarrow> status_module \<Rightarrow> status_module" where
  "emitSnapshot next_snapshot m = m\<lparr>st_snapshot := next_snapshot, st_log := st_log m @ [Emitted next_snapshot]\<rparr>"

text \<open>\<open>refresh\<close> up to its await.\<close>

definition refreshStatus :: "bool \<Rightarrow> status_module \<Rightarrow> status_module" where
  "refreshStatus manual m =
     (let m' = m\<lparr>st_epoch := Suc (st_epoch m), st_probes := st_probes m @ [Suc (st_epoch m)]\<rparr>
      in if manual then emitSnapshot ((st_snapshot m')\<lparr>sn_connecting := True\<rparr>) m' else m')"

text \<open>A probe ends with the version, or with nothing: not ok, off shape, unreachable or timed out.\<close>

definition probeEnded :: "nat \<Rightarrow> string option \<Rightarrow> status_module \<Rightarrow> status_module" where
  "probeEnded epoch version m =
     (if epoch \<notin> set (st_probes m) then m
      else let m' = m\<lparr>st_probes := filter (\<lambda>e. e \<noteq> epoch) (st_probes m)\<rparr>
           in if epoch \<noteq> st_epoch m' then m'
              else let was = sn_connected (st_snapshot m');
                       connected = version \<noteq> None;
                       m'' = emitSnapshot \<lparr>sn_connected = connected, sn_version = version, sn_connecting = False\<rparr> m'
                   in if connected \<and> \<not> was then m''\<lparr>st_log := st_log m'' @ [ChimePlayed]\<rparr> else m'')"

definition subscribeJLocal :: "status_module \<Rightarrow> status_module" where
  "subscribeJLocal m = refreshStatus False (m\<lparr>st_polling := True\<rparr>)"

datatype status_event = SubscribeJLocal | PollJLocal | ConnectJLocal | ProbeEnded nat "string option"

fun statusStep :: "status_module \<Rightarrow> status_event \<Rightarrow> status_module" where
  "statusStep m SubscribeJLocal = subscribeJLocal m"
| "statusStep m PollJLocal = (if st_polling m then refreshStatus False m else m)"
| "statusStep m ConnectJLocal = refreshStatus True m"
| "statusStep m (ProbeEnded epoch version) = probeEnded epoch version m"

text \<open>Whoever is shown as connecting waits for a probe that will say otherwise.\<close>

definition statusOk :: "status_module \<Rightarrow> bool" where
  "statusOk m \<longleftrightarrow>
     (sn_connecting (st_snapshot m) \<longrightarrow> st_epoch m \<in> set (st_probes m))
     \<and> (sn_connected (st_snapshot m) \<longleftrightarrow> sn_version (st_snapshot m) \<noteq> None)
     \<and> (\<forall>e \<in> set (st_probes m). e \<le> st_epoch m)"

lemma refreshStatus_keeps: "statusOk m \<Longrightarrow> statusOk (refreshStatus manual m)"
  by (auto simp: statusOk_def refreshStatus_def emitSnapshot_def Let_def)

lemma probeEnded_keeps: "statusOk m \<Longrightarrow> statusOk (probeEnded epoch version m)"
  by (auto simp: probeEnded_def emitSnapshot_def Let_def statusOk_def)

lemma statusStep_keeps: "statusOk m \<Longrightarrow> statusOk (statusStep m ev)"
proof (cases ev)
  case SubscribeJLocal
  assume "statusOk m"
  then have "statusOk (m\<lparr>st_polling := True\<rparr>)" by (simp add: statusOk_def)
  then show ?thesis using SubscribeJLocal by (simp add: subscribeJLocal_def refreshStatus_keeps)
qed (simp_all add: refreshStatus_keeps probeEnded_keeps)

interpretation app_status: component statusStep statusOk
  by unfold_locales (rule statusStep_keeps)

text \<open>only the newest probe of the companion app counts, and the page never stays at connecting. After any sequence of subscriptions, polls, clicks and answers: a page shown as connecting has the newest probe still under way, an older probe's answer changes nothing it shows, and the newest one's answer is exactly what is shown.\<close>

theorem newest_probe_is_shown:
  assumes "epoch \<in> set (st_probes (foldl statusStep statusInitial es))"
  shows "let m = foldl statusStep statusInitial es; q = probeEnded epoch version m in
     (sn_connecting (st_snapshot m) \<longrightarrow> st_epoch m \<in> set (st_probes m))
     \<and> st_snapshot q = (if epoch = st_epoch m then \<lparr>sn_connected = version \<noteq> None, sn_version = version, sn_connecting = False\<rparr>
                        else st_snapshot m)
     \<and> (ChimePlayed \<in> set (drop (length (st_log m)) (st_log q))
          \<longleftrightarrow> epoch = st_epoch m \<and> version \<noteq> None \<and> \<not> sn_connected (st_snapshot m))"
proof -
  have "statusOk (foldl statusStep statusInitial es)"
    by (rule app_status.run_keeps) (simp add: statusOk_def statusInitial_def)
  then show ?thesis using assms by (auto simp: Let_def probeEnded_def emitSnapshot_def statusOk_def)
qed

lemma newest_probe_is_shown_witness:
  "st_snapshot (probeEnded 1 (Some ''0.9'') (foldl statusStep statusInitial [SubscribeJLocal, ConnectJLocal]))
     = \<lparr>sn_connected = False, sn_version = None, sn_connecting = True\<rparr>"
proof -
  let ?es = "[SubscribeJLocal, ConnectJLocal]"
  have "1 \<in> set (st_probes (foldl statusStep statusInitial ?es))" "st_epoch (foldl statusStep statusInitial ?es) = 2"
    "st_snapshot (foldl statusStep statusInitial ?es) = \<lparr>sn_connected = False, sn_version = None, sn_connecting = True\<rparr>"
    by (simp_all add: statusInitial_def subscribeJLocal_def refreshStatus_def emitSnapshot_def Let_def)
  with newest_probe_is_shown [of 1 ?es "Some ''0.9''"] show ?thesis by (simp add: Let_def)
qed

section \<open>What it can do (capabilities.ts)\<close>

record screen_caps =
  sc_available :: bool
  sc_capture :: bool
  sc_h264 :: bool
  sc_maxWidth :: rat
  sc_maxHeight :: rat
  sc_maxFps :: rat

record app_capabilities =
  ac_screen :: screen_caps
  ac_appList :: bool
  ac_capture :: bool
  ac_torrent :: bool
  ac_remux :: bool
  ac_youtube :: bool
  ac_tools :: string

definition parseCapabilities :: "json \<Rightarrow> app_capabilities option" where
  "parseCapabilities body =
     Option.bind (asRecord body) (\<lambda>b.
       if jsonText b ''name'' \<noteq> Some ''jlocal'' \<or> jsonText b ''version'' = None then None
       else Option.bind (jsonRecord b ''capabilities'') (\<lambda>caps.
         Option.bind (jsonRecord caps ''screen'') (\<lambda>screen.
         Option.bind (jsonRecord caps ''audio'') (\<lambda>audio.
         Option.bind (jsonRecord caps ''torrent'') (\<lambda>torrent.
         Option.bind (jsonBool screen ''available'') (\<lambda>available.
         Option.bind (jsonBool screen ''capture'') (\<lambda>capture.
         Option.bind (jsonNum screen ''maxWidth'') (\<lambda>maxWidth.
         Option.bind (jsonNum screen ''maxHeight'') (\<lambda>maxHeight.
         Option.bind (jsonNum screen ''maxFps'') (\<lambda>maxFps.
         Option.bind (jsonBool audio ''appList'') (\<lambda>appList.
           if jsonField audio ''capture'' \<noteq> None \<and> jsonBool audio ''capture'' = None then None
           else Option.bind (jsonBool torrent ''available'') (\<lambda>torrentAvailable.
             Some \<lparr>ac_screen = \<lparr>sc_available = available, sc_capture = capture, sc_h264 = jsonTrue screen ''h264'',
                                sc_maxWidth = maxWidth, sc_maxHeight = maxHeight, sc_maxFps = maxFps\<rparr>,
                   ac_appList = appList, ac_capture = jsonTrue audio ''capture'',
                   ac_torrent = torrentAvailable, ac_remux = torrentAvailable \<and> jsonTrue torrent ''remux'',
                   ac_youtube = (case jsonRecord caps ''youtube'' of None \<Rightarrow> False | Some y \<Rightarrow> jsonTrue y ''available''),
                   ac_tools = (case jsonRecord caps ''youtube'' of None \<Rightarrow> ''unsupported''
                               | Some y \<Rightarrow> orElse (jsonText y ''tools'') ''missing'')\<rparr>))))))))))))"

text \<open>The advertisement an app of today sends for its capabilities, with whatever else beside them.\<close>

definition advertised :: "string \<Rightarrow> app_capabilities \<Rightarrow> payload \<Rightarrow> json" where
  "advertised version c beside =
     JObj ([(''name'', JStr ''jlocal''), (''version'', JStr version),
            (''capabilities'', JObj [
              (''screen'', JObj [(''available'', JBool (sc_available (ac_screen c))), (''capture'', JBool (sc_capture (ac_screen c))),
                                 (''h264'', JBool (sc_h264 (ac_screen c))), (''maxWidth'', JNum (sc_maxWidth (ac_screen c))),
                                 (''maxHeight'', JNum (sc_maxHeight (ac_screen c))), (''maxFps'', JNum (sc_maxFps (ac_screen c)))]),
              (''audio'', JObj [(''appList'', JBool (ac_appList c)), (''capture'', JBool (ac_capture c))]),
              (''torrent'', JObj [(''available'', JBool (ac_torrent c)), (''remux'', JBool (ac_remux c))]),
              (''youtube'', JObj [(''available'', JBool (ac_youtube c)), (''tools'', JStr (ac_tools c))])])] @ beside)"

text \<open>an advertisement reads back. What an app of today says it can do is what the page reads from it, whatever it sends beside; and from any payload at all, a torrent is never taken for preparable where torrents are not available.\<close>

theorem capabilities_read_back:
  assumes "ac_remux c \<longrightarrow> ac_torrent c"
    and "fst ` set beside \<inter> {''name'', ''version'', ''capabilities''} = {}"
  shows "parseCapabilities (advertised version c beside) = Some c
     \<and> (\<forall>body c'. parseCapabilities body = Some c' \<longrightarrow> ac_remux c' \<longrightarrow> ac_torrent c')"
proof
  from assms(1) show "parseCapabilities (advertised version c beside) = Some c"
    by (cases "ac_torrent c") (auto simp: parseCapabilities_def advertised_def json_fields)
  show "\<forall>body c'. parseCapabilities body = Some c' \<longrightarrow> ac_remux c' \<longrightarrow> ac_torrent c'"
    by (auto simp: parseCapabilities_def bind_eq_Some_conv split: if_splits)
qed

lemma capabilities_read_back_witness:
  "\<exists>c beside. beside \<noteq> [] \<and> ac_remux c \<and> parseCapabilities (advertised ''1.2'' c beside) = Some c"
proof -
  let ?c = "\<lparr>ac_screen = \<lparr>sc_available = False, sc_capture = True, sc_h264 = True, sc_maxWidth = 1920, sc_maxHeight = 1080, sc_maxFps = 60\<rparr>,
    ac_appList = True, ac_capture = True, ac_torrent = True, ac_remux = True, ac_youtube = False, ac_tools = ''missing''\<rparr>"
  have "parseCapabilities (advertised ''1.2'' ?c [(''pid'', JNum 7)]) = Some ?c"
    using capabilities_read_back [of ?c "[(''pid'', JNum 7)]" "''1.2''"] by simp
  then show ?thesis by (intro exI [of _ ?c] exI [of _ "[(''pid'', JNum 7)]"]) simp
qed

text \<open>Older apps: what they leave out is off, and a link is unsupported rather than missing.\<close>

lemma older_app_is_read:
  "parseCapabilities (JObj [(''name'', JStr ''jlocal''), (''version'', JStr v), (''capabilities'', JObj [
      (''screen'', JObj [(''available'', JBool False), (''capture'', JBool a), (''maxWidth'', JNum w), (''maxHeight'', JNum h), (''maxFps'', JNum f)]),
      (''audio'', JObj [(''appList'', JBool b)]), (''torrent'', JObj [(''available'', JBool t)])])])
   = Some \<lparr>ac_screen = \<lparr>sc_available = False, sc_capture = a, sc_h264 = False, sc_maxWidth = w, sc_maxHeight = h, sc_maxFps = f\<rparr>,
       ac_appList = b, ac_capture = False, ac_torrent = t, ac_remux = False, ac_youtube = False, ac_tools = ''unsupported''\<rparr>"
  by (simp add: parseCapabilities_def json_fields)

text \<open>The cache: \<open>cp_fetches\<close> counts the refreshes started; each answer replaces the cache when it comes.\<close>

definition CACHE_TTL_MS :: rat where "CACHE_TTL_MS = 60000"

record capability_cache =
  cp_data :: "app_capabilities option"
  cp_at :: rat
  cp_fetches :: nat
  cp_lastConnected :: bool

definition refreshCapabilities :: "bool \<Rightarrow> capability_cache \<Rightarrow> capability_cache" where
  "refreshCapabilities online c = (if online then c\<lparr>cp_fetches := Suc (cp_fetches c)\<rparr> else c)"

definition capabilitiesFetched :: "rat \<Rightarrow> app_capabilities option \<Rightarrow> capability_cache \<Rightarrow> capability_cache" where
  "capabilitiesFetched now caps c = c\<lparr>cp_data := caps, cp_at := now\<rparr>"

definition isCaptureAvailable :: "rat \<Rightarrow> bool \<Rightarrow> capability_cache \<Rightarrow> bool \<times> capability_cache" where
  "isCaptureAvailable now online c =
     (let stale = cp_data c = None \<or> CACHE_TTL_MS < now - cp_at c;
          c' = (if online \<and> stale then refreshCapabilities online c else c)
      in (online \<and> (case cp_data c of None \<Rightarrow> False | Some caps \<Rightarrow> sc_capture (ac_screen caps)), c'))"

definition connectionSeen :: "bool \<Rightarrow> capability_cache \<Rightarrow> capability_cache" where
  "connectionSeen online c =
     (let c' = (if online \<and> \<not> cp_lastConnected c then refreshCapabilities online c else c)
      in c'\<lparr>cp_lastConnected := online\<rparr>)"

section \<open>Which sounds a share carries (soundChoice.ts)\<close>

record sound_choice =
  so_enabled :: bool
  so_muted :: "string list"
  so_unmuted :: "string list"

definition DISCORD_CLIENTS :: "string list" where
  "DISCORD_CLIENTS = [''discord'', ''vesktop'', ''legcord'', ''armcord'', ''webcord'', ''equibop'']"

definition startsMuted :: "string \<Rightarrow> bool" where
  "startsMuted i \<longleftrightarrow> (\<exists>client \<in> set DISCORD_CLIENTS. hasSub (lower i) client)"

definition isMuted :: "sound_choice \<Rightarrow> string \<Rightarrow> bool" where
  "isMuted choice i \<longleftrightarrow> i \<in> set (so_muted choice) \<or> startsMuted i \<and> i \<notin> set (so_unmuted choice)"

definition DEFAULT_CHOICE :: sound_choice where
  "DEFAULT_CHOICE = \<lparr>so_enabled = True, so_muted = [], so_unmuted = []\<rparr>"

definition idsIn :: "json option \<Rightarrow> string list" where
  "idsIn v = (case v of Some (JList xs) \<Rightarrow> List.map_filter (\<lambda>x. case x of JStr s \<Rightarrow> Some s | _ \<Rightarrow> None) xs | _ \<Rightarrow> [])"

text \<open>\<open>load\<close> of what the storage holds: nothing, a text that does not parse, or a value.\<close>

definition loadChoice :: "json option \<Rightarrow> sound_choice" where
  "loadChoice stored =
     (case Option.bind stored asRecord of
        None \<Rightarrow> DEFAULT_CHOICE
      | Some r \<Rightarrow> \<lparr>so_enabled = jsonField r ''enabled'' \<noteq> Some (JBool False),
                   so_muted = idsIn (jsonField r ''muted''), so_unmuted = idsIn (jsonField r ''unmuted'')\<rparr>)"

definition jlocalMuted :: "sound_choice \<Rightarrow> string list" where
  "jlocalMuted choice =
     (if ''discord'' \<in> set (so_unmuted choice) \<or> ''discord'' \<in> set (so_muted choice) then so_muted choice
      else so_muted choice @ [''discord''])"

datatype audio_mode = ModeAll | ModeNone | ModeCustom

definition modeFor :: "sound_choice \<Rightarrow> audio_mode" where
  "modeFor choice = (if \<not> so_enabled choice then ModeNone else if jlocalMuted choice \<noteq> [] then ModeCustom else ModeAll)"

datatype audio_call = SetMode audio_mode | SetMuted string bool

definition applySoundChoice :: "sound_choice \<Rightarrow> audio_call list" where
  "applySoundChoice choice = SetMode (modeFor choice) # map (\<lambda>i. SetMuted i True) (jlocalMuted choice)"

text \<open>The choice kept and what the app is told, in order; the storage and the listeners follow the choice.\<close>

definition setSoundChoice :: "sound_choice \<Rightarrow> sound_choice \<times> audio_call list \<Rightarrow> sound_choice \<times> audio_call list" where
  "setSoundChoice nextChoice m =
     (let before = jlocalMuted (fst m); after = jlocalMuted nextChoice
      in (nextChoice, snd m @ map (\<lambda>i. SetMuted i False) (filter (\<lambda>i. i \<notin> set after) before) @ applySoundChoice nextChoice))"

definition setSoundEnabled :: "bool \<Rightarrow> sound_choice \<times> audio_call list \<Rightarrow> sound_choice \<times> audio_call list" where
  "setSoundEnabled enabled m = setSoundChoice ((fst m)\<lparr>so_enabled := enabled\<rparr>) m"

definition setAppMuted :: "string \<Rightarrow> bool \<Rightarrow> sound_choice \<times> audio_call list \<Rightarrow> sound_choice \<times> audio_call list" where
  "setAppMuted i muted m =
     (let rest = filter (\<lambda>other. other \<noteq> i) (so_muted (fst m))
      in if startsMuted i then
           let others = filter (\<lambda>other. other \<noteq> i) (so_unmuted (fst m))
           in setSoundChoice ((fst m)\<lparr>so_muted := rest, so_unmuted := (if muted then others else others @ [i])\<rparr>) m
         else setSoundChoice ((fst m)\<lparr>so_muted := (if muted then rest @ [i] else rest)\<rparr>) m)"

datatype sound_event = ChoiceSet sound_choice | EnabledSet bool | AppSet string bool

fun soundStep :: "sound_choice \<times> audio_call list \<Rightarrow> sound_event \<Rightarrow> sound_choice \<times> audio_call list" where
  "soundStep m (ChoiceSet c) = setSoundChoice c m"
| "soundStep m (EnabledSet b) = setSoundEnabled b m"
| "soundStep m (AppSet i b) = setAppMuted i b m"

text \<open>The app as the calls leave it: its mode and the ids it leaves out.\<close>

fun heard :: "audio_mode \<times> string set \<Rightarrow> audio_call \<Rightarrow> audio_mode \<times> string set" where
  "heard (mode, muted) (SetMode m) = (m, muted)"
| "heard (mode, muted) (SetMuted i True) = (mode, insert i muted)"
| "heard (mode, muted) (SetMuted i False) = (mode, muted - {i})"

definition told :: "sound_choice \<Rightarrow> audio_mode \<times> string set" where
  "told choice = (modeFor choice, set (jlocalMuted choice))"

lemma heard_mutes:
  "foldl heard (mode, S) (map (\<lambda>i. SetMuted i True) xs) = (mode, S \<union> set xs)"
  "foldl heard (mode, S) (map (\<lambda>i. SetMuted i False) xs) = (mode, S - set xs)"
  by (induction xs arbitrary: S) auto

definition soundOk :: "audio_mode \<times> string set \<Rightarrow> sound_choice \<times> audio_call list \<Rightarrow> bool" where
  "soundOk start m \<longleftrightarrow> foldl heard start (snd m) = told (fst m)"

lemma setSoundChoice_keeps: "soundOk start m \<Longrightarrow> soundOk start (setSoundChoice c m)"
  by (auto simp: soundOk_def setSoundChoice_def applySoundChoice_def told_def heard_mutes Let_def)

lemma soundStep_keeps: "soundOk start m \<Longrightarrow> soundOk start (soundStep m ev)"
  by (cases ev) (simp_all add: setSoundEnabled_def setAppMuted_def setSoundChoice_keeps Let_def)

interpretation sounding: component soundStep "soundOk start"
  by unfold_locales (rule soundStep_keeps)

text \<open>the companion app carries the sounds the person chose. From a choice the app was told, through any sequence of changes - a whole choice, the switch, one app muted or not - the calls made leave the app with exactly the mode and the muted ids of the choice in force; and muting an app, or turning it back on, is what the choice then says of it and of no other.\<close>

theorem app_carries_the_choice:
  "let m = foldl soundStep (choice, []) events in
     foldl heard (modeFor choice, set (jlocalMuted choice)) (snd m) = (modeFor (fst m), set (jlocalMuted (fst m)))
     \<and> (let q = setAppMuted i muted m in
          isMuted (fst q) i = muted \<and> (j \<noteq> i \<longrightarrow> isMuted (fst q) j = isMuted (fst m) j))"
proof -
  have "soundOk (told choice) (foldl soundStep (choice, []) events)"
    by (rule sounding.run_keeps) (simp add: soundOk_def)
  then show ?thesis
    by (auto simp: Let_def soundOk_def told_def setAppMuted_def setSoundChoice_def isMuted_def)
qed

lemma app_carries_the_choice_witness:
  "isMuted (fst (setAppMuted ''spotify'' True (foldl soundStep (DEFAULT_CHOICE, []) [AppSet ''Discord PTB'' False]))) ''spotify''
   \<and> \<not> isMuted (fst (setAppMuted ''spotify'' True (foldl soundStep (DEFAULT_CHOICE, []) [AppSet ''Discord PTB'' False]))) ''vlc''"
proof -
  have "\<not> isMuted (fst (foldl soundStep (DEFAULT_CHOICE, []) [AppSet ''Discord PTB'' False])) ''vlc''" by code_simp
  moreover have "''vlc'' \<noteq> ''spotify''" by simp
  ultimately show ?thesis
    using app_carries_the_choice [of DEFAULT_CHOICE "[AppSet ''Discord PTB'' False]" "''spotify''" True "''vlc''"]
    unfolding Let_def by blast
qed

section \<open>Lists of apps (audio.ts)\<close>

text \<open>
  \<open>number_text\<close> is \<open>String\<close> of a number and \<open>before\<close> the browser's collation; both are
  parameters. A body that is not a list under the key gives the empty list.
\<close>

record window_app =
  wa_id :: string
  wa_app :: string
  wa_name :: string

record audio_app =
  aa_id :: string
  aa_name :: string

definition idText :: "(rat \<Rightarrow> string) \<Rightarrow> json option \<Rightarrow> string option" where
  "idText number_text v = (case v of Some (JStr s) \<Rightarrow> Some s | Some (JNum n) \<Rightarrow> Some (number_text n) | _ \<Rightarrow> None)"

definition listIn :: "json \<Rightarrow> string \<Rightarrow> json list" where
  "listIn body key =
     (case asRecord body of None \<Rightarrow> [] | Some r \<Rightarrow> (case jsonField r key of Some (JList xs) \<Rightarrow> xs | _ \<Rightarrow> []))"

definition windowsIn :: "(rat \<Rightarrow> string) \<Rightarrow> json \<Rightarrow> window_app list" where
  "windowsIn number_text body =
     List.map_filter (\<lambda>entry.
         Option.bind (asRecord entry) (\<lambda>r.
         Option.bind (idText number_text (jsonField r ''id'')) (\<lambda>i.
         Option.bind (jsonText r ''app'') (\<lambda>a.
         Option.bind (jsonText r ''name'') (\<lambda>n. Some \<lparr>wa_id = i, wa_app = a, wa_name = n\<rparr>)))))
       (listIn body ''windows'')"

definition audioAppsIn :: "(rat \<Rightarrow> string) \<Rightarrow> (string \<Rightarrow> string \<Rightarrow> bool) \<Rightarrow> json \<Rightarrow> audio_app list" where
  "audioAppsIn number_text before body =
     sort_by (\<lambda>x y. before (aa_name x) (aa_name y))
       (List.map_filter (\<lambda>entry.
           Option.bind (asRecord entry) (\<lambda>r.
           Option.bind (idText number_text (jsonField r ''id'')) (\<lambda>i.
           Option.bind (jsonText r ''name'') (\<lambda>n. Some \<lparr>aa_id = i, aa_name = n\<rparr>))))
         (listIn body ''apps''))"

definition soundApps :: "audio_app list \<Rightarrow> window_app list \<Rightarrow> audio_app list" where
  "soundApps apps windows =
     (let open_apps = (\<lambda>w. lower (trim (wa_app w))) ` set windows;
          listed = filter (\<lambda>app. aa_id app \<in> open_apps \<or> lower (trim (aa_name app)) \<in> open_apps) apps
      in if listed \<noteq> [] then listed else apps)"

lemma soundApps_of_the_list:
  "set (soundApps apps windows) \<subseteq> set apps" "soundApps apps windows = [] \<longleftrightarrow> apps = []"
  by (auto simp: soundApps_def Let_def)

end
