(* ===== verification/Door.thy ===== *)
theory Door
  imports Prelude JsText Magnet
begin

text \<open>
  The door of a room from the browser's side: tickets, reloads, reasons for
  leaving, the device, the owner's link (\<open>join.ts\<close>), the code in a pasted address
  (\<open>roomCode.ts\<close>), the check that someone is human (\<open>human.ts\<close>) and reactions
  taken out of the chat (\<open>room/reactions.ts\<close>). Times are milliseconds.
\<close>

section \<open>What a browser keeps (join.ts)\<close>

text \<open>
  The storage of a tab and of the browser, a map for each kind of key. A storage
  that is switched off throws on every use, which every function here catches.
\<close>

record door_store =
  ds_sessionOff :: bool
  ds_localOff :: bool
  ds_ticket :: "string \<rightharpoonup> string"
  ds_reload :: "string \<rightharpoonup> string \<times> rat"
  ds_left :: "string \<rightharpoonup> string"
  ds_device :: "string option"
  ds_owner :: "string \<rightharpoonup> string"

datatype join_error = BadPassword | TooManyAttempts | RoomNotFound | JoinFailed

text \<open>The answer to a password: a ticket, or the \<open>error\<close> of a refusal's body, if it has one.\<close>

datatype join_answer = TicketGiven string | JoinRefused "string option"

definition joinErrorOf :: "string option \<Rightarrow> join_error" where
  "joinErrorOf error =
     (if error = Some ''bad_password'' then BadPassword
      else if error = Some ''too_many_attempts'' then TooManyAttempts
      else if error = Some ''room_not_found'' then RoomNotFound
      else JoinFailed)"

definition requestJoinTicket :: "string \<Rightarrow> join_answer \<Rightarrow> door_store \<Rightarrow> (join_error + string) \<times> door_store" where
  "requestJoinTicket roomId a s =
     (case a of
        JoinRefused error \<Rightarrow> (Inl (joinErrorOf error), s)
      | TicketGiven ticket \<Rightarrow>
          (Inr ticket, if ds_sessionOff s then s else s\<lparr>ds_ticket := (ds_ticket s)(roomId \<mapsto> ticket)\<rparr>))"

definition joinTicketFor :: "string \<Rightarrow> door_store \<Rightarrow> string" where
  "joinTicketFor roomId s = (if ds_sessionOff s then [] else orElse (ds_ticket s roomId) [])"

definition RELOAD_WINDOW_MS :: rat where "RELOAD_WINDOW_MS = 10000"

definition rememberForReload :: "rat \<Rightarrow> string \<Rightarrow> string \<Rightarrow> door_store \<Rightarrow> door_store" where
  "rememberForReload now roomId nickname s =
     (if ds_sessionOff s then s else s\<lparr>ds_reload := (ds_reload s)(roomId \<mapsto> (nickname, now))\<rparr>)"

definition takeReload :: "rat \<Rightarrow> string \<Rightarrow> door_store \<Rightarrow> string option \<times> door_store" where
  "takeReload now roomId s =
     (if ds_sessionOff s then (None, s)
      else (case ds_reload s roomId of
              None \<Rightarrow> None
            | Some (nickname, then_at) \<Rightarrow>
                if nickname \<noteq> [] \<and> then_at \<noteq> 0 \<and> now - then_at < RELOAD_WINDOW_MS then Some nickname else None,
            s\<lparr>ds_reload := (ds_reload s)(roomId := None)\<rparr>))"

datatype left_reason = Kicked | Replaced | Idle | Gone

definition reasonText :: "left_reason \<Rightarrow> string" where
  "reasonText r = (case r of Kicked \<Rightarrow> ''kicked'' | Replaced \<Rightarrow> ''replaced'' | Idle \<Rightarrow> ''idle'' | Gone \<Rightarrow> ''gone'')"

definition LEFT_REASONS :: "left_reason list" where
  "LEFT_REASONS = [Kicked, Replaced, Idle, Gone]"

definition noteLeft :: "string \<Rightarrow> left_reason \<Rightarrow> door_store \<Rightarrow> door_store" where
  "noteLeft roomId reason s =
     (if ds_sessionOff s then s else s\<lparr>ds_left := (ds_left s)(roomId \<mapsto> reasonText reason)\<rparr>)"

definition takeLeft :: "string \<Rightarrow> door_store \<Rightarrow> left_reason option \<times> door_store" where
  "takeLeft roomId s =
     (if ds_sessionOff s then (None, s)
      else (find (\<lambda>reason. ds_left s roomId = Some (reasonText reason)) LEFT_REASONS,
            s\<lparr>ds_left := (ds_left s)(roomId := None)\<rparr>))"

text \<open>\<open>made\<close> is the random id the browser would make now.\<close>

definition deviceId :: "string \<Rightarrow> door_store \<Rightarrow> string \<times> door_store" where
  "deviceId made s =
     (if ds_localOff s then ([], s)
      else (case ds_device s of
              Some kept \<Rightarrow> if kept \<noteq> [] then (kept, s) else (made, s\<lparr>ds_device := Some made\<rparr>)
            | None \<Rightarrow> (made, s\<lparr>ds_device := Some made\<rparr>)))"

subsection \<open>The owner's link\<close>

text \<open>\<open>URLSearchParams\<close> is the one of theory Magnet: \<open>utf8\<close> decodes the bytes of the percent escapes.\<close>

definition ownerIn :: "(string \<Rightarrow> string) \<Rightarrow> string \<Rightarrow> string option" where
  "ownerIn utf8 hash =
     (let body = (if startsWith hash ''#'' then drop 1 hash else hash);
          query = (if startsWith body ''?'' then drop 1 body else body)
      in map_of (formPairs utf8 query) ''owner'')"

text \<open>Whether the address had a token, and the store after it; the address bar is then cleared.\<close>

definition claimOwnerFromHash :: "(string \<Rightarrow> string) \<Rightarrow> string \<Rightarrow> string \<Rightarrow> door_store \<Rightarrow> bool \<times> door_store" where
  "claimOwnerFromHash utf8 roomId hash s =
     (case ownerIn utf8 hash of
        None \<Rightarrow> (False, s)
      | Some token \<Rightarrow>
          if token = [] then (False, s)
          else (True, if ds_localOff s \<or> orElse (ds_owner s roomId) [] \<noteq> [] then s
                      else s\<lparr>ds_owner := (ds_owner s)(roomId \<mapsto> token)\<rparr>))"

datatype door_event =
    TicketAnswered string join_answer
  | Remember rat string string
  | TakeReload rat string
  | NoteLeft string left_reason
  | TakeLeft string
  | DeviceAsked string
  | OwnerLink string string

fun doorStep :: "(string \<Rightarrow> string) \<Rightarrow> door_store \<Rightarrow> door_event \<Rightarrow> door_store" where
  "doorStep utf8 s (TicketAnswered roomId a) = snd (requestJoinTicket roomId a s)"
| "doorStep utf8 s (Remember now roomId nickname) = rememberForReload now roomId nickname s"
| "doorStep utf8 s (TakeReload now roomId) = snd (takeReload now roomId s)"
| "doorStep utf8 s (NoteLeft roomId reason) = noteLeft roomId reason s"
| "doorStep utf8 s (TakeLeft roomId) = snd (takeLeft roomId s)"
| "doorStep utf8 s (DeviceAsked made) = snd (deviceId made s)"
| "doorStep utf8 s (OwnerLink roomId hash) = snd (claimOwnerFromHash utf8 roomId hash s)"

lemmas door_defs = requestJoinTicket_def rememberForReload_def takeReload_def noteLeft_def takeLeft_def deviceId_def claimOwnerFromHash_def

text \<open>What the browser holds of itself and of its rooms: a device, an owner's token of a room.\<close>

definition keeps :: "string option \<Rightarrow> string option \<Rightarrow> string \<Rightarrow> door_store \<Rightarrow> bool" where
  "keeps device owner roomId s \<longleftrightarrow>
     (\<forall>d. device = Some d \<and> d \<noteq> [] \<longrightarrow> ds_device s = Some d)
     \<and> (\<forall>t. owner = Some t \<and> t \<noteq> [] \<longrightarrow> ds_owner s roomId = Some t)"

lemma doorStep_keeps: "keeps device owner roomId s \<Longrightarrow> keeps device owner roomId (doorStep utf8 s ev)"
  by (cases ev) (auto simp: keeps_def door_defs split: join_answer.splits option.splits)

interpretation door: component "doorStep utf8" "keeps device owner roomId"
  by unfold_locales (rule doorStep_keeps)

text \<open>what makes this browser who it is cannot be swapped by a link or a reload. A room's owner token, once kept, and the device's secret, once made, stay the same through any sequence of joins, reloads, departures and links; a link with a token is accepted, and makes this browser the owner exactly when no token was kept.\<close>

theorem owner_and_device_stay:
  assumes "keeps device owner roomId s"
  shows "keeps device owner roomId (foldl (doorStep utf8) s events)
     \<and> (\<not> ds_localOff s \<longrightarrow> ownerIn utf8 hash = Some token \<longrightarrow> token \<noteq> [] \<longrightarrow>
          fst (claimOwnerFromHash utf8 roomId hash s)
          \<and> ds_owner (snd (claimOwnerFromHash utf8 roomId hash s)) roomId
              = (if orElse (ds_owner s roomId) [] = [] then Some token else ds_owner s roomId))"
proof
  show "keeps device owner roomId (foldl (doorStep utf8) s events)" by (rule door.run_keeps [OF assms])
qed (auto simp: claimOwnerFromHash_def)

text \<open>a tab is let back in under its name exactly once and only within ten seconds. After going away as someone, the first question inside the window gives that name, whatever was asked of other rooms meanwhile, and the next one gives nothing; past the window it gives nothing at all. The reason a tab was put out is told once in the same way.\<close>

theorem reload_is_asked_once:
  assumes "\<not> ds_sessionOff s" "nickname \<noteq> []" "at' \<noteq> 0" "other \<noteq> roomId"
  shows "let s' = snd (takeReload between other (rememberForReload at' roomId nickname s)) in
     fst (takeReload now roomId s') = (if now - at' < RELOAD_WINDOW_MS then Some nickname else None)
     \<and> fst (takeReload later roomId (snd (takeReload now roomId s'))) = None
     \<and> fst (takeLeft roomId (noteLeft roomId reason s)) = Some reason
     \<and> fst (takeLeft roomId (snd (takeLeft roomId (noteLeft roomId reason s)))) = None"
  using assms
  by (cases reason) (auto simp: Let_def takeReload_def rememberForReload_def noteLeft_def takeLeft_def LEFT_REASONS_def reasonText_def)

section \<open>The code in a pasted address (roomCode.ts)\<close>

text \<open>\<open>toUpperCase\<close> of one code unit below 256 as far as the pattern can see it: the sharp s is the one that becomes two letters.\<close>

definition upperText :: "char \<Rightarrow> string" where
  "upperText c = (if codeOf c = 223 then ''SS'' else [upperChar c])"

definition isCode :: "string \<Rightarrow> bool" where
  "isCode s \<longleftrightarrow> length s = 8 \<and> list_all (\<lambda>c. isDigit c \<or> 65 \<le> codeOf c \<and> codeOf c \<le> 90) s"

definition roomCodeFrom :: "string \<Rightarrow> string option" where
  "roomCodeFrom input =
     (let trimmed = trim input
      in if trimmed = [] then None
         else let withoutQuery = takeWhile (\<lambda>c. c \<noteq> CHR ''?'' \<and> c \<noteq> CHR ''#'') trimmed;
                  segments = filter (\<lambda>s. s \<noteq> []) (splitOn (CHR ''/'') withoutQuery);
                  candidate = concat (map upperText (if segments = [] then [] else last segments))
              in if isCode candidate then Some candidate else None)"

lemma code_text: "isCode code \<Longrightarrow> concat (map upperText code) = code"
proof -
  assume "isCode code"
  then have "list_all (\<lambda>c. codeOf c \<le> 90) code" by (auto simp: isCode_def isDigit_def list_all_iff)
  then show ?thesis by (induction code) (auto simp: upperText_def upperChar_def)
qed

lemma code_chars:
  assumes "isCode code" "c \<in> set code"
  shows "48 \<le> codeOf c" "codeOf c \<le> 90" "\<not> isSpace c" "c \<noteq> CHR ''?''" "c \<noteq> CHR ''#''" "c \<noteq> CHR ''/''"
proof -
  have c: "isDigit c \<or> 65 \<le> codeOf c \<and> codeOf c \<le> 90" using assms by (auto simp: isCode_def list_all_iff)
  then show "48 \<le> codeOf c" "codeOf c \<le> 90" by (auto simp: isDigit_def)
  show "\<not> isSpace c" using c by (auto simp: isSpace_def isDigit_def)
  have "codeOf (CHR ''?'') = 63" "codeOf (CHR ''#'') = 35" "codeOf (CHR ''/'') = 47" by (simp_all add: codeOf_def)
  then show "c \<noteq> CHR ''?''" "c \<noteq> CHR ''#''" "c \<noteq> CHR ''/''" using c by (auto simp: isDigit_def)
qed

lemma splitOn_joined: "splitOn c (p @ c # w) = splitOn c p @ splitOn c w"
  by (induction p) (auto simp: append_eq_Cons_conv split: list.splits)

lemma split_last:
  assumes "c \<notin> set w" "w \<noteq> []"
  shows "last (filter (\<lambda>s. s \<noteq> []) (splitOn c (p @ c # w))) = w \<and> filter (\<lambda>s. s \<noteq> []) (splitOn c (p @ c # w)) \<noteq> []"
  using assms by (simp add: splitOn_joined splitOn_single)

text \<open>an address of a room gives its code back. Whatever host and path come before the code, and whatever follows a question mark or a hash - a host link's owner, say - the code read is the room's; the bare code reads as itself; and whatever is read from any text at all is eight capitals and digits that read back as themselves.\<close>

theorem room_code_reads_back:
  assumes "isCode code"
    and "path = [] \<or> \<not> isSpace (hd path)" "CHR ''?'' \<notin> set path" "CHR ''#'' \<notin> set path"
    and "rest = [] \<or> hd rest = CHR ''?'' \<or> hd rest = CHR ''#''" "rest = [] \<or> \<not> isSpace (last rest)"
  shows "roomCodeFrom (path @ CHR ''/'' # code @ rest) = Some code \<and> roomCodeFrom code = Some code
     \<and> (\<forall>input c. roomCodeFrom input = Some c \<longrightarrow> isCode c)"
proof -
  have ne: "code \<noteq> []" using assms(1) by (auto simp: isCode_def)
  note chars = code_chars [OF assms(1)]
  have sp: "\<not> isSpace (CHR ''/'')" by (simp add: isSpace_def codeOf_def)
  have stop: "takeWhile (\<lambda>c. c \<noteq> CHR ''?'' \<and> c \<noteq> CHR ''#'') (w @ rest) = w"
    if "\<forall>c \<in> set w. c \<noteq> CHR ''?'' \<and> c \<noteq> CHR ''#''" for w
    using that assms(5) by (cases rest) (auto simp: takeWhile_append2)
  have "trim (path @ CHR ''/'' # code @ rest) = path @ CHR ''/'' # code @ rest"
    using assms(2,6) ne sp chars(3) by (intro trim_id) (auto simp: last_append hd_append)
  moreover have "takeWhile (\<lambda>c. c \<noteq> CHR ''?'' \<and> c \<noteq> CHR ''#'') (path @ CHR ''/'' # code @ rest) = path @ CHR ''/'' # code"
  proof -
    have "\<forall>c \<in> set (path @ CHR ''/'' # code). c \<noteq> CHR ''?'' \<and> c \<noteq> CHR ''#''" using assms(3,4) chars(4,5) by auto
    from stop [OF this] show ?thesis by (simp only: append_assoc append_Cons)
  qed
  moreover have "last (filter (\<lambda>s. s \<noteq> []) (splitOn (CHR ''/'') (path @ CHR ''/'' # code))) = code"
      "filter (\<lambda>s. s \<noteq> []) (splitOn (CHR ''/'') (path @ CHR ''/'' # code)) \<noteq> []"
    using split_last [of "CHR ''/''" code path] ne chars(6) by blast+
  ultimately have 1: "roomCodeFrom (path @ CHR ''/'' # code @ rest) = Some code"
    using code_text [OF assms(1)] assms(1) by (simp add: roomCodeFrom_def Let_def)
  have "trim code = code" using ne chars(3) by (intro trim_id) auto
  moreover have "takeWhile (\<lambda>c. c \<noteq> CHR ''?'' \<and> c \<noteq> CHR ''#'') code = code"
    using chars(4,5) by (simp add: takeWhile_eq_all_conv)
  moreover have "splitOn (CHR ''/'') code = [code]" using chars(6) by (intro splitOn_single) blast
  ultimately have 2: "roomCodeFrom code = Some code"
    using ne code_text [OF assms(1)] assms(1) by (simp add: roomCodeFrom_def Let_def del: takeWhile_eq_all_conv)
  show ?thesis using 1 2 by (auto simp: roomCodeFrom_def Let_def split: if_splits)
qed

lemma room_code_reads_back_witness:
  "roomCodeFrom ''https://juntos.lol/room/K7Q2M9XA#owner=t'' = Some ''K7Q2M9XA''"
proof -
  have "isCode ''K7Q2M9XA''" by code_simp
  moreover have "\<not> isSpace (CHR ''h'')" "\<not> isSpace (CHR ''t'')" by code_simp+
  ultimately show ?thesis
    using room_code_reads_back [of "''K7Q2M9XA''" "''https://juntos.lol/room''" "''#owner=t''"] by simp
qed

section \<open>Is it a person (human.ts)\<close>

definition MARGIN_MS :: rat where "MARGIN_MS = 600000"

text \<open>
  The check under way: it waits for the public configuration, for the widget, or
  for the server. \<open>hm_check\<close> is \<open>inflight\<close>, the number of the check with where it
  stands; \<open>hm_waiting\<close> is who awaits it, newest last; an answer of a caller is in
  the log. The storage holds when the last pass runs out, if it is a number.
\<close>

datatype human_stage = AwaitsConfig | AwaitsWidget | AwaitsServer

datatype human_effect =
    CheckingTold bool
  | CheckStarted nat
  | Reported string
  | AnsweredCaller nat "string option"

record human_module =
  hm_stored :: "rat option"
  hm_checking :: bool
  hm_check :: "(nat \<times> human_stage) option"
  hm_waiting :: "nat list"
  hm_checks :: nat
  hm_callers :: nat
  hm_log :: "human_effect list"

definition humanInitial :: "rat option \<Rightarrow> human_module" where
  "humanInitial stored = \<lparr>hm_stored = stored, hm_checking = False, hm_check = None, hm_waiting = [], hm_checks = 0,
     hm_callers = 0, hm_log = []\<rparr>"

definition humanNote :: "human_effect list \<Rightarrow> human_module \<Rightarrow> human_module" where
  "humanNote es m = m\<lparr>hm_log := hm_log m @ es\<rparr>"

definition freshPass :: "rat \<Rightarrow> human_module \<Rightarrow> bool" where
  "freshPass now m \<longleftrightarrow> now + MARGIN_MS < orElse (hm_stored m) 0"

definition ensureHuman :: "rat \<Rightarrow> human_module \<Rightarrow> human_module" where
  "ensureHuman now m =
     (let k = hm_callers m; m' = m\<lparr>hm_callers := Suc k\<rparr>
      in if freshPass now m then humanNote [AnsweredCaller k None] m'
         else (case hm_check m of
                 Some _ \<Rightarrow> m'\<lparr>hm_waiting := hm_waiting m @ [k]\<rparr>
               | None \<Rightarrow> humanNote [CheckStarted (hm_checks m)]
                   (m'\<lparr>hm_check := Some (hm_checks m, AwaitsConfig), hm_waiting := [k], hm_checks := Suc (hm_checks m)\<rparr>)))"

text \<open>The end of \<open>verify\<close>: everyone who awaited it has its outcome, and the next call may start another.\<close>

definition settleCheck :: "string option \<Rightarrow> human_module \<Rightarrow> human_module" where
  "settleCheck outcome m =
     humanNote (map (\<lambda>k. AnsweredCaller k outcome) (hm_waiting m)) (m\<lparr>hm_check := None, hm_waiting := []\<rparr>)"

definition setChecking :: "bool \<Rightarrow> human_module \<Rightarrow> human_module" where
  "setChecking b m = humanNote [CheckingTold b] (m\<lparr>hm_checking := b\<rparr>)"

datatype human_event =
    EnsureHuman
  | ConfigLoaded bool
  | ConfigFailed string
  | WidgetSolved
  | WidgetFailed string
  | ServerPassed "rat option"
  | ServerRefused
  | ServerThrew string
  | ForgetHuman

text \<open>
  \<open>ConfigLoaded\<close> says whether there is a site key; \<open>ServerPassed\<close> when the new pass
  runs out, \<open>None\<close> when the text is no date (it is stored as \<open>NaN\<close>, never fresh).
\<close>

fun humanStep :: "human_module \<Rightarrow> rat \<times> human_event \<Rightarrow> human_module" where
  "humanStep m (now, EnsureHuman) = ensureHuman now m"
| "humanStep m (now, ConfigLoaded key) =
     (case hm_check m of
        Some (n, AwaitsConfig) \<Rightarrow>
          if \<not> key then settleCheck None m else setChecking True (m\<lparr>hm_check := Some (n, AwaitsWidget)\<rparr>)
      | _ \<Rightarrow> m)"
| "humanStep m (now, ConfigFailed reason) =
     (case hm_check m of Some (n, AwaitsConfig) \<Rightarrow> settleCheck (Some reason) m | _ \<Rightarrow> m)"
| "humanStep m (now, WidgetSolved) =
     (case hm_check m of Some (n, AwaitsWidget) \<Rightarrow> m\<lparr>hm_check := Some (n, AwaitsServer)\<rparr> | _ \<Rightarrow> m)"
| "humanStep m (now, WidgetFailed reason) =
     (case hm_check m of
        Some (n, AwaitsWidget) \<Rightarrow> settleCheck (Some reason) (setChecking False (humanNote [Reported reason] m))
      | _ \<Rightarrow> m)"
| "humanStep m (now, ServerPassed expires) =
     (case hm_check m of
        Some (n, AwaitsServer) \<Rightarrow> settleCheck None (setChecking False (m\<lparr>hm_stored := expires\<rparr>))
      | _ \<Rightarrow> m)"
| "humanStep m (now, ServerRefused) =
     (case hm_check m of Some (n, AwaitsServer) \<Rightarrow> settleCheck (Some ''server'') (setChecking False m) | _ \<Rightarrow> m)"
| "humanStep m (now, ServerThrew reason) =
     (case hm_check m of Some (n, AwaitsServer) \<Rightarrow> settleCheck (Some reason) (setChecking False m) | _ \<Rightarrow> m)"
| "humanStep m (now, ForgetHuman) = m\<lparr>hm_stored := None\<rparr>"

definition answersTo :: "nat \<Rightarrow> human_effect list \<Rightarrow> nat" where
  "answersTo k es = length (filter (\<lambda>e. case e of AnsweredCaller j _ \<Rightarrow> j = k | _ \<Rightarrow> False) es)"

lemma answersTo_simps [simp]:
  "answersTo k [] = 0"
  "answersTo k (e # es) = (case e of AnsweredCaller j _ \<Rightarrow> if j = k then 1 else 0 | _ \<Rightarrow> 0) + answersTo k es"
  "answersTo k (xs @ ys) = answersTo k xs + answersTo k ys"
  by (auto simp: answersTo_def split: human_effect.splits)

lemma answersTo_all: "distinct ks \<Longrightarrow> answersTo k (map (\<lambda>j. AnsweredCaller j x) ks) = (if k \<in> set ks then 1 else 0)"
  by (induction ks) auto

text \<open>Every caller is answered or waits, never both; callers wait only on a check; the bubble shows exactly past the configuration.\<close>

definition servedOk :: "human_module \<Rightarrow> bool" where
  "servedOk m \<longleftrightarrow>
     distinct (hm_waiting m)
     \<and> (\<forall>k \<in> set (hm_waiting m). k < hm_callers m \<and> answersTo k (hm_log m) = 0)
     \<and> (\<forall>k. k \<notin> set (hm_waiting m) \<longrightarrow> answersTo k (hm_log m) = (if k < hm_callers m then 1 else 0))"

definition stageOk :: "human_module \<Rightarrow> bool" where
  "stageOk m \<longleftrightarrow>
     (hm_waiting m \<noteq> [] \<longleftrightarrow> hm_check m \<noteq> None)
     \<and> (hm_checking m \<longleftrightarrow> (\<exists>n st. hm_check m = Some (n, st) \<and> st \<noteq> AwaitsConfig))"

definition humanOk :: "human_module \<Rightarrow> bool" where
  "humanOk m \<longleftrightarrow> servedOk m \<and> stageOk m"

lemma ensureHuman_keeps:
  assumes ok: "humanOk m" shows "humanOk (ensureHuman now m)"
proof -
  have served: "servedOk m" and stage: "stageOk m" using ok by (auto simp: humanOk_def)
  have new: "hm_callers m \<notin> set (hm_waiting m)" using served unfolding servedOk_def by blast
  then have none: "answersTo (hm_callers m) (hm_log m) = 0" using served unfolding servedOk_def by simp
  consider "freshPass now m" | n where "\<not> freshPass now m" "hm_check m = Some n" | "\<not> freshPass now m" "hm_check m = None" "hm_waiting m = []"
    using stage by (cases "hm_check m") (auto simp: stageOk_def)
  then show ?thesis
  proof cases
    case 1
    then show ?thesis using served stage new none
      by (auto simp: humanOk_def servedOk_def stageOk_def ensureHuman_def humanNote_def Let_def less_Suc_eq)
  next
    case 2
    then show ?thesis using served stage new none
      by (auto simp: humanOk_def servedOk_def stageOk_def ensureHuman_def Let_def less_Suc_eq)
  next
    case 3
    then show ?thesis using served stage none
      by (auto simp: humanOk_def servedOk_def stageOk_def ensureHuman_def humanNote_def Let_def less_Suc_eq)
  qed
qed

lemma settleCheck_served: "servedOk m \<Longrightarrow> servedOk (settleCheck outcome m)"
  by (auto simp: servedOk_def settleCheck_def humanNote_def answersTo_all)

lemma settleCheck_stage: "\<not> hm_checking m \<Longrightarrow> stageOk (settleCheck outcome m)"
  by (simp add: stageOk_def settleCheck_def humanNote_def)

text \<open>What touches neither the callers nor their answers.\<close>

lemma servedOk_cong:
  assumes "hm_waiting q = hm_waiting m" "hm_callers q = hm_callers m" "\<And>k. answersTo k (hm_log q) = answersTo k (hm_log m)"
  shows "servedOk q = servedOk m"
  using assms by (simp add: servedOk_def)

lemma setChecking_served: "servedOk (setChecking b m) = servedOk m"
  by (rule servedOk_cong) (simp_all add: setChecking_def humanNote_def)

lemma reported_served: "servedOk (humanNote [Reported reason] m) = servedOk m"
  by (rule servedOk_cong) (simp_all add: humanNote_def)

lemma stored_served: "servedOk (m\<lparr>hm_stored := v\<rparr>) = servedOk m" "servedOk (m\<lparr>hm_check := c\<rparr>) = servedOk m"
  by (rule servedOk_cong; simp)+

lemmas served_simps = settleCheck_served setChecking_served reported_served stored_served

lemma humanStep_served: "servedOk m \<Longrightarrow> snd ev \<noteq> EnsureHuman \<Longrightarrow> servedOk (humanStep m ev)"
  by (cases "(m, ev)" rule: humanStep.cases) (simp_all add: served_simps split: option.splits human_stage.splits)

lemma humanStep_stage:
  assumes ok: "stageOk m" and ev: "snd ev \<noteq> EnsureHuman" shows "stageOk (humanStep m ev)"
proof -
  have off: "\<not> hm_checking (setChecking False q)" for q by (simp add: setChecking_def humanNote_def)
  have config: "\<not> hm_checking m" if "hm_check m = Some (n, AwaitsConfig)" for n using ok that by (simp add: stageOk_def)
  show ?thesis
    using ok ev
    by (cases "(m, ev)" rule: humanStep.cases)
      (simp_all add: settleCheck_stage off config split: option.splits human_stage.splits,
       auto simp: stageOk_def setChecking_def humanNote_def)
qed

lemma humanStep_keeps: "humanOk m \<Longrightarrow> humanOk (humanStep m ev)"
proof (cases "snd ev = EnsureHuman")
  case True
  then show "humanOk m \<Longrightarrow> humanOk (humanStep m ev)" by (cases ev) (simp add: ensureHuman_keeps)
qed (simp add: humanOk_def humanStep_served humanStep_stage)

interpretation human_checks: component humanStep humanOk
  by unfold_locales (rule humanStep_keeps)

lemma setChecking_sel [simp]:
  "hm_waiting (setChecking b m) = hm_waiting m" "hm_check (setChecking b m) = hm_check m"
  "hm_waiting (humanNote es m) = hm_waiting m" "hm_check (humanNote es m) = hm_check m"
  by (simp_all add: setChecking_def humanNote_def)

lemma check_ends:
  assumes "hm_check m \<noteq> None" "hm_check (humanStep m ev) = None"
  shows "\<exists>outcome q. humanStep m ev = settleCheck outcome q \<and> hm_waiting q = hm_waiting m"
proof -
  have stays: "hm_check (ensureHuman now m) = None \<Longrightarrow> False" for now
    using assms(1) by (auto simp: ensureHuman_def Let_def split: if_splits)
  moreover have "hm_check (settleCheck outcome q) = None" for outcome q by (simp add: settleCheck_def)
  moreover have same: "\<exists>outcome q'. settleCheck o' q = settleCheck outcome q' \<and> hm_waiting q' = hm_waiting m"
    if "hm_waiting q = hm_waiting m" for o' q
    using that by blast
  ultimately show ?thesis
    using assms
    by (cases "(m, ev)" rule: humanStep.cases) (auto intro!: same dest: stays split: option.splits human_stage.splits if_splits)
qed

text \<open>C23: whoever asks to enter is answered once, by one check. Through any sequence of calls, answers and failures, at most one check is under way: every caller either was answered exactly once or waits for that check, the bubble over the button shows exactly while the check is past its configuration, and whatever ends the check answers all who wait with the same outcome.\<close>

theorem every_caller_is_answered_once:
  "let m = foldl humanStep (humanInitial stored) events in
     (\<forall>k < hm_callers m. if k \<in> set (hm_waiting m) then answersTo k (hm_log m) = 0 \<and> hm_check m \<noteq> None
                         else answersTo k (hm_log m) = 1)
     \<and> (hm_checking m \<longleftrightarrow> (\<exists>n st. hm_check m = Some (n, st) \<and> st \<noteq> AwaitsConfig))
     \<and> (let q = humanStep m ev in hm_check m \<noteq> None \<and> hm_check q = None \<longrightarrow>
          (\<exists>outcome. \<forall>k \<in> set (hm_waiting m). AnsweredCaller k outcome \<in> set (hm_log q)))"
proof -
  define m where "m = foldl humanStep (humanInitial stored) events"
  have ok: "humanOk m" unfolding m_def
    by (rule human_checks.run_keeps) (simp add: humanOk_def servedOk_def stageOk_def humanInitial_def)
  have served: "\<forall>k < hm_callers m. if k \<in> set (hm_waiting m) then answersTo k (hm_log m) = 0 \<and> hm_check m \<noteq> None
                         else answersTo k (hm_log m) = 1"
    using ok by (auto simp: humanOk_def servedOk_def stageOk_def)
  have bubble: "hm_checking m \<longleftrightarrow> (\<exists>n st. hm_check m = Some (n, st) \<and> st \<noteq> AwaitsConfig)"
    using ok unfolding humanOk_def stageOk_def by blast
  have settled: "\<forall>k \<in> set (hm_waiting m). AnsweredCaller k outcome \<in> set (hm_log (settleCheck outcome q))"
    if "hm_waiting q = hm_waiting m" for outcome q
    using that by (auto simp: settleCheck_def humanNote_def)
  have "\<exists>outcome. \<forall>k \<in> set (hm_waiting m). AnsweredCaller k outcome \<in> set (hm_log (humanStep m ev))"
    if "hm_check m \<noteq> None" "hm_check (humanStep m ev) = None"
    using check_ends [OF that] settled by metis
  then show ?thesis unfolding m_def [symmetric] Let_def using served bubble by blast
qed

lemma every_caller_is_answered_once_witness:
  "answersTo 1 (hm_log (foldl humanStep (humanInitial None)
      [(0, EnsureHuman), (1, EnsureHuman), (2, ConfigLoaded True), (3, WidgetFailed ''timeout'')])) = 1"
proof -
  let ?m = "foldl humanStep (humanInitial None) [(0, EnsureHuman), (1, EnsureHuman), (2, ConfigLoaded True), (3, WidgetFailed ''timeout'')]"
  have "1 < hm_callers ?m" "hm_waiting ?m = []"
    by (simp_all add: humanInitial_def ensureHuman_def freshPass_def MARGIN_MS_def humanNote_def setChecking_def settleCheck_def Let_def)
  then show ?thesis
    using every_caller_is_answered_once [of None "[(0, EnsureHuman), (1, EnsureHuman), (2, ConfigLoaded True), (3, WidgetFailed ''timeout'')]"]
    unfolding Let_def by (metis empty_iff list.set(1))
qed

section \<open>Reactions out of the chat (reactions.ts)\<close>

text \<open>The table of emoji is data of the page: a parameter here. A line is a reaction when its trimmed text is a key.\<close>

record chat_line =
  cl_id :: string
  cl_authorId :: string
  cl_text :: string
  cl_at :: rat
  cl_system :: bool

record reaction =
  rc_id :: string
  rc_memberId :: string
  rc_emoji :: string
  rc_at :: rat

definition REACTION_FRESH_MS :: rat where "REACTION_FRESH_MS = 8000"

definition isReaction :: "string set \<Rightarrow> string \<Rightarrow> bool" where
  "isReaction emoji text' \<longleftrightarrow> trim text' \<in> emoji"

fun splitReactions :: "string set \<Rightarrow> chat_line list \<Rightarrow> chat_line list \<times> reaction list" where
  "splitReactions emoji [] = ([], [])"
| "splitReactions emoji (m # ms) =
     (let (chat, reactions) = splitReactions emoji ms
      in if \<not> cl_system m \<and> isReaction emoji (cl_text m)
         then (chat, \<lparr>rc_id = cl_id m, rc_memberId = cl_authorId m, rc_emoji = trim (cl_text m), rc_at = cl_at m\<rparr> # reactions)
         else (m # chat, reactions))"

definition freshReactions :: "reaction list \<Rightarrow> string set \<Rightarrow> rat \<Rightarrow> reaction list" where
  "freshReactions reactions seen now = filter (\<lambda>r. rc_id r \<notin> seen \<and> now - rc_at r < REACTION_FRESH_MS) reactions"

lemma splitReactions_partition:
  "fst (splitReactions emoji ms) = filter (\<lambda>m. cl_system m \<or> \<not> isReaction emoji (cl_text m)) ms"
  "map rc_id (snd (splitReactions emoji ms)) = map cl_id (filter (\<lambda>m. \<not> cl_system m \<and> isReaction emoji (cl_text m)) ms)"
  by (induction ms) (auto simp: Let_def split: prod.splits)

end
