(* ===== verification/Drive.thy ===== *)
theory Drive
  imports Prelude JsText JsonRead Youtube SubtitleFormats
begin

text \<open>
  Google Drive (\<open>drive.ts\<close>): the link pasted, the requests to the service with
  their retries, the walk through a folder's tree and the session the room is
  given. The service is a function from the number of a request to what became
  of it, so that every theorem holds whatever it answers and whenever the reader
  gives up; the state counts the requests. \<open>number_of\<close> is JavaScript's reading of
  a text as a finite number.
\<close>

section \<open>Links\<close>

definition isDriveId :: "string \<Rightarrow> bool" where
  "isDriveId s \<longleftrightarrow> 25 \<le> length s \<and> list_all isIdChar s"

definition DRIVE_FOLDER_MIME :: string where "DRIVE_FOLDER_MIME = ''application/vnd.google-apps.folder''"

definition isDriveNativeDoc :: "string \<Rightarrow> bool" where
  "isDriveNativeDoc mimeType \<longleftrightarrow> startsWith mimeType ''application/vnd.google-apps.'' \<and> mimeType \<noteq> DRIVE_FOLDER_MIME"

definition nativeKind :: "string \<Rightarrow> string" where
  "nativeKind mimeType =
     (if endsWith mimeType ''.document'' then ''Doc''
      else if endsWith mimeType ''.spreadsheet'' then ''Sheet''
      else if endsWith mimeType ''.presentation'' then ''Slide''
      else ''file'')"

datatype drive_error =
    MissingKey
  | BadId
  | NotShared
  | DriveQuota
  | DownloadQuota
  | StorageFull
  | DriveNetwork
  | DriveUnsupported string
  | TooMany
  | DriveAborted

datatype drive_kind = DriveFile | DriveFolder

record drive_link =
  dl_kind :: drive_kind
  dl_id :: string

text \<open>What \<open>new URL\<close> says of a text, with the first \<open>id\<close> of its query.\<close>

record drive_url =
  du_protocol :: string
  du_hostname :: string
  du_pathname :: string
  du_id :: "string option"

text \<open>The capture of \<open>/([A-Za-z0-9_-]+)/\<close> after a marker: at the first place the marker is followed by one such character at least.\<close>

fun idAfter :: "(string \<Rightarrow> string option) \<Rightarrow> string \<Rightarrow> string option" where
  "idAfter marker [] = None"
| "idAfter marker (c # path) =
     (case marker (c # path) of
        Some rest \<Rightarrow> if takeWhile isIdChar rest \<noteq> [] then Some (takeWhile isIdChar rest) else idAfter marker path
      | None \<Rightarrow> idAfter marker path)"

text \<open>\<open>\/(?:document|spreadsheets|presentation)\/(?:u\/\d+\/)?d\/\<close>; the account part, when it matches, is the only way on.\<close>

definition docMarker :: "string \<Rightarrow> string option" where
  "docMarker path =
     (let account = (\<lambda>s. case stripPrefix ''u/'' s of
                           None \<Rightarrow> s
                         | Some n \<Rightarrow> if takeWhile isDigit n \<noteq> [] \<and> startsWith (dropWhile isDigit n) ''/''
                                     then drop 1 (dropWhile isDigit n) else s);
          after = (\<lambda>kind. Option.bind (stripPrefix kind path) (\<lambda>s. stripPrefix ''d/'' (account s)))
      in case after ''/document/'' of Some r \<Rightarrow> Some r
         | None \<Rightarrow> (case after ''/spreadsheets/'' of Some r \<Rightarrow> Some r | None \<Rightarrow> after ''/presentation/''))"

definition validId :: "string option \<Rightarrow> string option" where
  "validId v = (case v of Some s \<Rightarrow> if isDriveId s then Some s else None | None \<Rightarrow> None)"

definition parseDriveLink :: "(string \<Rightarrow> drive_url option) \<Rightarrow> string \<Rightarrow> drive_link option" where
  "parseDriveLink parse raw =
     (let text' = trim raw
      in if text' = [] then None
         else if isDriveId text' then Some \<lparr>dl_kind = DriveFile, dl_id = text'\<rparr>
         else case parse text' of
             None \<Rightarrow> None
           | Some url \<Rightarrow>
               if du_protocol url \<noteq> ''http:'' \<and> du_protocol url \<noteq> ''https:'' then None
               else let host = lower (du_hostname url)
                    in if \<not> endsWith host ''.google.com'' \<and> host \<noteq> ''google.com'' then None
                       else let path = du_pathname url
                            in case validId (idAfter (stripPrefix ''/folders/'') path) of
                                 Some i \<Rightarrow> Some \<lparr>dl_kind = DriveFolder, dl_id = i\<rparr>
                               | None \<Rightarrow>
                                   (case validId (idAfter (stripPrefix ''/file/d/'') path) of
                                      Some i \<Rightarrow> Some \<lparr>dl_kind = DriveFile, dl_id = i\<rparr>
                                    | None \<Rightarrow>
                                        (case validId (idAfter docMarker path) of
                                           Some i \<Rightarrow> Some \<lparr>dl_kind = DriveFile, dl_id = i\<rparr>
                                         | None \<Rightarrow>
                                             (case validId (du_id url) of
                                                Some i \<Rightarrow> Some \<lparr>dl_kind = DriveFile, dl_id = i\<rparr>
                                              | None \<Rightarrow> None))))"

section \<open>Requests\<close>

definition API_ATTEMPTS :: nat where "API_ATTEMPTS = 3"

text \<open>
  What became of a request: the reader had given up before it was made or while
  it was, nothing came back, or a status with its body (\<open>JNull\<close> when it does not parse).
\<close>

datatype fetched = GaveUpBefore | GaveUp | Unreachable | Replied nat json

type_synonym service = "nat \<Rightarrow> fetched"

fun driveTry :: "service \<Rightarrow> nat \<Rightarrow> nat \<Rightarrow> (drive_error + nat \<times> json) \<times> nat" where
  "driveTry service 0 n = (Inl DriveNetwork, n)"
| "driveTry service (Suc left) n =
     (case service n of
        GaveUpBefore \<Rightarrow> (Inl DriveAborted, n)
      | GaveUp \<Rightarrow> (Inl DriveAborted, Suc n)
      | Unreachable \<Rightarrow> if left = 0 then (Inl DriveNetwork, Suc n) else driveTry service left (Suc n)
      | Replied status body \<Rightarrow>
          if 500 \<le> status \<and> left \<noteq> 0 then driveTry service left (Suc n) else (Inr (status, body), Suc n))"

definition driveGet :: "service \<Rightarrow> nat \<Rightarrow> (drive_error + nat \<times> json) \<times> nat" where
  "driveGet service n = driveTry service API_ATTEMPTS n"

definition driveReason :: "json \<Rightarrow> string" where
  "driveReason body =
     orElse (Option.bind (asRecord body) (\<lambda>r.
             Option.bind (jsonRecord r ''error'') (\<lambda>e.
             case jsonField e ''errors'' of
               Some (JList (first # _)) \<Rightarrow> Option.bind (asRecord first) (\<lambda>f. jsonText f ''reason'')
             | _ \<Rightarrow> None))) []"

definition driveMessage :: "json \<Rightarrow> string" where
  "driveMessage body =
     orElse (Option.bind (asRecord body) (\<lambda>r. Option.bind (jsonRecord r ''error'') (\<lambda>e. jsonText e ''message''))) []"

definition errorForStatus :: "nat \<Rightarrow> json \<Rightarrow> drive_error" where
  "errorForStatus status body =
     (let reason = driveReason body; message = lower (driveMessage body)
      in if reason = ''downloadQuotaExceeded'' \<or> hasSub message ''download quota'' then DownloadQuota
         else if reason = ''storageQuotaExceeded'' \<or> hasSub message ''storage quota'' then StorageFull
         else if status = 429 \<or> reason \<in> {''rateLimitExceeded'', ''userRateLimitExceeded'', ''quotaExceeded''} then DriveQuota
         else if status = 400 \<and> reason \<in> {''badRequest'', ''keyInvalid'', ''API_KEY_INVALID''} then MissingKey
         else if status \<in> {401, 403, 404} then NotShared
         else DriveNetwork)"

record drive_meta =
  dm_id :: string
  dm_name :: string
  dm_mimeType :: string
  dm_size :: rat
  dm_parents :: "string list"

definition toMeta :: "(string \<Rightarrow> rat option) \<Rightarrow> json \<Rightarrow> drive_error + drive_meta" where
  "toMeta number_of body =
     (case Option.bind (asRecord body) (\<lambda>r.
             Option.bind (jsonText r ''id'') (\<lambda>i.
             Option.bind (jsonText r ''name'') (\<lambda>name.
             Option.bind (jsonText r ''mimeType'') (\<lambda>mime.
               Some \<lparr>dm_id = i, dm_name = name, dm_mimeType = mime,
                     dm_size = (case jsonText r ''size'' of Some s \<Rightarrow> orElse (number_of s) 0 | None \<Rightarrow> 0),
                     dm_parents = (case jsonField r ''parents'' of
                         Some (JList ps) \<Rightarrow> List.map_filter (\<lambda>p. case p of JStr s \<Rightarrow> if isDriveId s then Some s else None | _ \<Rightarrow> None) ps
                       | _ \<Rightarrow> [])\<rparr>)))) of
        Some meta \<Rightarrow> Inr meta
      | None \<Rightarrow> Inl DriveNetwork)"

text \<open>\<open>key\<close> is whether the page was built with a key.\<close>

definition fetchDriveMeta :: "(string \<Rightarrow> rat option) \<Rightarrow> bool \<Rightarrow> service \<Rightarrow> string \<Rightarrow> nat \<Rightarrow> (drive_error + drive_meta) \<times> nat" where
  "fetchDriveMeta number_of key service i n =
     (if \<not> isDriveId i then (Inl BadId, n)
      else if \<not> key then (Inl MissingKey, n)
      else case driveGet service n of
          (Inl e, n') \<Rightarrow> (Inl e, n')
        | (Inr (status, body), n') \<Rightarrow>
            (if status \<noteq> 200 then Inl (errorForStatus status body)
             else case toMeta number_of body of
                 Inl e \<Rightarrow> Inl e
               | Inr meta \<Rightarrow>
                   if isDriveNativeDoc (dm_mimeType meta) then Inl (DriveUnsupported (nativeKind (dm_mimeType meta))) else Inr meta, n'))"

definition MAX_FOLDER_PAGES :: nat where "MAX_FOLDER_PAGES = 10"

definition pageEntries :: "(string \<Rightarrow> rat option) \<Rightarrow> json \<Rightarrow> drive_meta list" where
  "pageEntries number_of body =
     (case Option.bind (asRecord body) (\<lambda>r. jsonField r ''files'') of
        Some (JList items) \<Rightarrow> List.map_filter (\<lambda>item. case toMeta number_of item of Inr m \<Rightarrow> Some m | Inl _ \<Rightarrow> None) items
      | _ \<Rightarrow> [])"

definition nextPage :: "json \<Rightarrow> bool" where
  "nextPage body \<longleftrightarrow>
     (case Option.bind (asRecord body) (\<lambda>r. jsonText r ''nextPageToken'') of Some t \<Rightarrow> t \<noteq> [] | None \<Rightarrow> False)"

fun listPages :: "(string \<Rightarrow> rat option) \<Rightarrow> service \<Rightarrow> nat \<Rightarrow> drive_meta list \<Rightarrow> nat \<Rightarrow> (drive_error + drive_meta list) \<times> nat" where
  "listPages number_of service 0 out n = (Inr out, n)"
| "listPages number_of service (Suc pages) out n =
     (case driveGet service n of
        (Inl e, n') \<Rightarrow> (Inl e, n')
      | (Inr (status, body), n') \<Rightarrow>
          if status \<noteq> 200 then (Inl (errorForStatus status body), n')
          else if nextPage body then listPages number_of service pages (out @ pageEntries number_of body) n'
          else (Inr (out @ pageEntries number_of body), n'))"

definition listDriveFolder :: "(string \<Rightarrow> rat option) \<Rightarrow> bool \<Rightarrow> service \<Rightarrow> string \<Rightarrow> nat \<Rightarrow> (drive_error + drive_meta list) \<times> nat" where
  "listDriveFolder number_of key service i n =
     (if \<not> isDriveId i then (Inl BadId, n)
      else if \<not> key then (Inl MissingKey, n)
      else listPages number_of service MAX_FOLDER_PAGES [] n)"

section \<open>The tree of a folder\<close>

definition MAX_TREE_DEPTH :: nat where "MAX_TREE_DEPTH = 10"

definition MAX_TREE_ENTRIES :: nat where "MAX_TREE_ENTRIES = 5000"

record tree_file =
  tf_entry :: drive_meta
  tf_path :: string

record tree_node =
  tn_id :: string
  tn_prefix :: string
  tn_depth :: nat

text \<open>The children of one folder, added to what was found and to the folders still to list.\<close>

fun addChildren :: "tree_node \<Rightarrow> drive_meta list \<Rightarrow> tree_file list \<Rightarrow> tree_node list \<Rightarrow> (tree_file list \<times> tree_node list) option" where
  "addChildren node [] out queue = Some (out, queue)"
| "addChildren node (child # children) out queue =
     (if MAX_TREE_ENTRIES \<le> length out then None
      else let path = (if tn_prefix node \<noteq> [] then tn_prefix node @ ''/'' @ dm_name child else dm_name child)
           in addChildren node children (out @ [\<lparr>tf_entry = child, tf_path = path\<rparr>])
                (if dm_mimeType child = DRIVE_FOLDER_MIME \<and> tn_depth node + 1 \<le> MAX_TREE_DEPTH
                 then queue @ [\<lparr>tn_id = dm_id child, tn_prefix = path, tn_depth = tn_depth node + 1\<rparr>] else queue))"

lemma addChildren_bound:
  "addChildren node children out queue = Some (out', queue') \<Longrightarrow>
     length out \<le> length out' \<and> length queue' + length out \<le> length queue + length out'
     \<and> (length out \<le> MAX_TREE_ENTRIES \<longrightarrow> length out' \<le> MAX_TREE_ENTRIES)
     \<and> length queue' + (MAX_TREE_ENTRIES - length out') \<le> length queue + (MAX_TREE_ENTRIES - length out)"
proof (induction node children out queue rule: addChildren.induct)
  case (2 node child children out queue)
  have less: "length out < MAX_TREE_ENTRIES" using "2.prems"(1) by (simp split: if_splits)
  show ?case
    using "2.IH" [OF _ refl] "2.prems" less by (auto simp: Let_def split: if_splits)
qed simp

text \<open>The breadth-first walk: the folders not listed yet stand in \<open>queue\<close>.\<close>

function collectTree :: "(string \<Rightarrow> rat option) \<Rightarrow> bool \<Rightarrow> service \<Rightarrow> tree_node list \<Rightarrow> tree_file list \<Rightarrow> nat
    \<Rightarrow> (drive_error + tree_file list) \<times> nat" where
  "collectTree number_of key service [] out n = (Inr out, n)"
| "collectTree number_of key service (node # queue) out n =
     (if MAX_TREE_DEPTH < tn_depth node then collectTree number_of key service queue out n
      else case listDriveFolder number_of key service (tn_id node) n of
          (Inl e, n') \<Rightarrow> (Inl e, n')
        | (Inr children, n') \<Rightarrow>
            (case addChildren node children out queue of
               None \<Rightarrow> (Inl TooMany, n')
             | Some (out', queue') \<Rightarrow> collectTree number_of key service queue' out' n'))"
  by pat_completeness auto
termination
proof (relation "measure (\<lambda>(_, _, _, queue, out, _). length queue + (MAX_TREE_ENTRIES - length out))", goal_cases)
  case 3
  then show ?case by (auto dest!: addChildren_bound)
qed auto

section \<open>The session of a picked link\<close>

record drive_file =
  df_name :: string
  df_path :: string
  df_index :: nat
  df_size :: rat

record drive_side_file =
  sf_name :: string
  sf_path :: string
  sf_size :: rat

text \<open>\<open>dv_entries\<close> is the map from a path to its entry kept beside the session.\<close>

record drive_session =
  dv_name :: string
  dv_files :: "drive_file list"
  dv_subtitles :: "drive_side_file list"
  dv_total :: rat
  dv_destroyed :: bool
  dv_aborts :: nat
  dv_entries :: "(string, drive_meta) jsmap"

definition videoFile :: "nat \<times> tree_file \<Rightarrow> drive_file" where
  "videoFile iv = \<lparr>df_name = dm_name (tf_entry (snd iv)), df_path = tf_path (snd iv), df_index = fst iv, df_size = dm_size (tf_entry (snd iv))\<rparr>"

definition sideFile :: "tree_file \<Rightarrow> drive_side_file" where
  "sideFile t = \<lparr>sf_name = dm_name (tf_entry t), sf_path = tf_path t, sf_size = dm_size (tf_entry t)\<rparr>"

definition largestFirst :: "tree_file list \<Rightarrow> tree_file list" where
  "largestFirst videos = sort_by (\<lambda>a b. dm_size (tf_entry b) \<le> dm_size (tf_entry a)) videos"

definition entriesByPath :: "tree_file list \<Rightarrow> tree_file list \<Rightarrow> (string, drive_meta) jsmap" where
  "entriesByPath ordered subtitles =
     fold (\<lambda>sub m. if mapGet m (tf_path sub) = None then mapSet (tf_path sub) (tf_entry sub) m else m) subtitles
       (fold (\<lambda>video m. mapSet (tf_path video) (tf_entry video) m) ordered [])"

definition buildSession :: "string \<Rightarrow> tree_file list \<Rightarrow> tree_file list \<Rightarrow> drive_session" where
  "buildSession name videos subtitles =
     (let ordered = largestFirst videos;
          files = map videoFile (enumerate 0 ordered)
      in \<lparr>dv_name = name, dv_files = files, dv_subtitles = map sideFile subtitles,
          dv_total = sum_list (map df_size files), dv_destroyed = False, dv_aborts = 0,
          dv_entries = entriesByPath ordered subtitles\<rparr>)"

definition driveEntryForFile :: "drive_session \<Rightarrow> string \<Rightarrow> drive_meta option" where
  "driveEntryForFile session path = mapGet (dv_entries session) path"

definition selectPath :: "drive_session \<Rightarrow> string \<Rightarrow> bool" where
  "selectPath session path \<longleftrightarrow> (\<exists>f \<in> set (dv_files session). df_path f = path)"

text \<open>\<open>destroy\<close> and \<open>detach\<close> do the same.\<close>

definition destroyDrive :: "drive_session \<Rightarrow> drive_session" where
  "destroyDrive session =
     (if dv_destroyed session then session else session\<lparr>dv_destroyed := True, dv_aborts := Suc (dv_aborts session)\<rparr>)"

definition DRIVE_SIDE_FILE_BYTES :: rat where "DRIVE_SIDE_FILE_BYTES = 8388608"

definition videoExtensions :: "string list" where
  "videoExtensions = [''.mkv'', ''.mp4'', ''.m4v'', ''.webm'', ''.avi'', ''.mov'', ''.ogv'', ''.ts'', ''.m2ts'']"

definition isDriveVideoName :: "string \<Rightarrow> bool" where
  "isDriveVideoName name \<longleftrightarrow> list_ex (endsWith (lower name)) videoExtensions"

definition smallSubtitle :: "drive_meta \<Rightarrow> bool" where
  "smallSubtitle e \<longleftrightarrow> isSubtitleFileName (dm_name e) \<and> 0 < dm_size e \<and> dm_size e \<le> DRIVE_SIDE_FILE_BYTES"

definition sidecars :: "drive_meta \<Rightarrow> drive_meta list \<Rightarrow> tree_file list" where
  "sidecars entry siblings =
     map (\<lambda>e. \<lparr>tf_entry = e, tf_path = dm_name e\<rparr>) (filter (\<lambda>e. dm_id e \<noteq> dm_id entry \<and> smallSubtitle e) siblings)"

definition openDriveEntrySession :: "drive_meta \<Rightarrow> drive_meta list \<Rightarrow> drive_session" where
  "openDriveEntrySession entry siblings =
     buildSession (dm_name entry) [\<lparr>tf_entry = entry, tf_path = dm_name entry\<rparr>] (sidecars entry siblings)"

definition metaBestEffort :: "(string \<Rightarrow> rat option) \<Rightarrow> bool \<Rightarrow> service \<Rightarrow> nat \<Rightarrow> drive_meta option \<times> nat" where
  "metaBestEffort number_of key service n =
     (if \<not> key then (None, n)
      else case driveGet service n of
          (Inl _, n') \<Rightarrow> (None, n')
        | (Inr (status, body), n') \<Rightarrow>
            (if status \<noteq> 200 then None else case toMeta number_of body of Inr m \<Rightarrow> Some m | Inl _ \<Rightarrow> None, n'))"

definition openFolder :: "(string \<Rightarrow> rat option) \<Rightarrow> bool \<Rightarrow> service \<Rightarrow> string \<Rightarrow> nat \<Rightarrow> (drive_error + drive_session) \<times> nat" where
  "openFolder number_of key service i n =
     (let (meta, n1) = metaBestEffort number_of key service n
      in case collectTree number_of key service [\<lparr>tn_id = i, tn_prefix = [], tn_depth = 0\<rparr>] [] n1 of
          (Inl e, n2) \<Rightarrow> (Inl e, n2)
        | (Inr tree, n2) \<Rightarrow>
            (Inr (buildSession (case meta of Some m \<Rightarrow> dm_name m | None \<Rightarrow> ''Google Drive'')
                    (filter (\<lambda>t. dm_mimeType (tf_entry t) \<noteq> DRIVE_FOLDER_MIME \<and> isDriveVideoName (dm_name (tf_entry t))) tree)
                    (filter (\<lambda>t. dm_mimeType (tf_entry t) \<noteq> DRIVE_FOLDER_MIME \<and> smallSubtitle (tf_entry t)) tree)), n2))"

text \<open>\<open>aborted\<close> is whether the caller had given up before the call. A file link whose file is a folder opens the folder.\<close>

definition openDriveSession :: "(string \<Rightarrow> rat option) \<Rightarrow> bool \<Rightarrow> service \<Rightarrow> bool \<Rightarrow> drive_link \<Rightarrow> nat \<Rightarrow> (drive_error + drive_session) \<times> nat" where
  "openDriveSession number_of key service aborted link n =
     (if \<not> isDriveId (dl_id link) then (Inl BadId, n)
      else if aborted then (Inl DriveAborted, n)
      else case dl_kind link of
          DriveFolder \<Rightarrow> openFolder number_of key service (dl_id link) n
        | DriveFile \<Rightarrow>
            (case fetchDriveMeta number_of key service (dl_id link) n of
               (Inl e, n1) \<Rightarrow> (Inl e, n1)
             | (Inr meta, n1) \<Rightarrow>
                 if dm_mimeType meta = DRIVE_FOLDER_MIME then
                   (if \<not> isDriveId (dm_id meta) then (Inl BadId, n1) else openFolder number_of key service (dm_id meta) n1)
                 else case dm_parents meta of
                     [] \<Rightarrow> (Inr (buildSession (dm_name meta) [\<lparr>tf_entry = meta, tf_path = dm_name meta\<rparr>] []), n1)
                   | parent # _ \<Rightarrow>
                       (case listDriveFolder number_of key service parent n1 of
                          (Inl _, n2) \<Rightarrow> (Inr (buildSession (dm_name meta) [\<lparr>tf_entry = meta, tf_path = dm_name meta\<rparr>] []), n2)
                        | (Inr siblings, n2) \<Rightarrow>
                            (Inr (buildSession (dm_name meta) [\<lparr>tf_entry = meta, tf_path = dm_name meta\<rparr>] (sidecars meta siblings)), n2))))"

text \<open>The one-byte request before the room is built.\<close>

definition probeDriveDownload :: "bool \<Rightarrow> service \<Rightarrow> string \<Rightarrow> nat \<Rightarrow> drive_error option \<times> nat" where
  "probeDriveDownload key service i n =
     (if \<not> isDriveId i then (Some BadId, n)
      else if \<not> key then (Some MissingKey, n)
      else case service n of
          GaveUpBefore \<Rightarrow> (Some DriveAborted, n)
        | GaveUp \<Rightarrow> (Some DriveAborted, Suc n)
        | Unreachable \<Rightarrow> (Some DriveNetwork, Suc n)
        | Replied status body \<Rightarrow> (if 200 \<le> status \<and> status \<le> 299 then None else Some (errorForStatus status body), Suc n))"

section \<open>Bounds\<close>

lemma driveTry_requests: "snd (driveTry service left n) \<le> n + left"
proof (induction left arbitrary: n)
  case (Suc left)
  have "snd (driveTry service left (Suc n)) \<le> Suc n + left" by (rule Suc.IH)
  then show ?case by (auto split: fetched.splits)
qed simp

lemma driveGet_requests: "driveGet service n = (r, n') \<Longrightarrow> n' \<le> n + API_ATTEMPTS"
  using driveTry_requests [of service API_ATTEMPTS n] by (simp add: driveGet_def)

lemma listPages_requests: "listPages number_of service pages out n = (r, n') \<Longrightarrow> n' \<le> n + API_ATTEMPTS * pages"
proof (induction number_of service pages out n rule: listPages.induct)
  case (2 number_of service pages out n)
  obtain x n1 where x: "driveGet service n = (x, n1)" by (cases "driveGet service n")
  have "n1 \<le> n + API_ATTEMPTS" by (rule driveGet_requests [OF x])
  moreover have "n' \<le> n1 + API_ATTEMPTS * pages"
    if "x = Inr (status, body)" "\<not> status \<noteq> 200" "nextPage body" for status body
    using "2.prems" "2.IH" [OF x [symmetric] that(1) refl that(2,3)] x that by simp
  ultimately show ?case
    using "2.prems" x by (fastforce split: sum.splits if_splits prod.splits)
qed simp

definition LIST_REQUESTS :: nat where "LIST_REQUESTS = 30"

lemma listDriveFolder_requests: "listDriveFolder number_of key service i n = (r, n') \<Longrightarrow> n' \<le> n + LIST_REQUESTS"
  by (auto simp: listDriveFolder_def API_ATTEMPTS_def MAX_FOLDER_PAGES_def LIST_REQUESTS_def
      dest!: listPages_requests split: if_splits)

lemma collectTree_bounds:
  "collectTree number_of key service queue out n = (r, n') \<Longrightarrow>
     n' \<le> n + LIST_REQUESTS * (length queue + (MAX_TREE_ENTRIES - length out))
     \<and> (\<forall>tree. r = Inr tree \<longrightarrow> length out \<le> MAX_TREE_ENTRIES \<longrightarrow> length tree \<le> MAX_TREE_ENTRIES)"
proof (induction number_of key service queue out n arbitrary: r n' rule: collectTree.induct)
  case (2 number_of key service node queue out n)
  show ?case
  proof (cases "MAX_TREE_DEPTH < tn_depth node")
    case True
    then show ?thesis using "2.IH"(1) [OF True] "2.prems" by fastforce
  next
    case False
    obtain x n1 where x: "listDriveFolder number_of key service (tn_id node) n = (x, n1)"
      by (cases "listDriveFolder number_of key service (tn_id node) n")
    have n1: "n1 \<le> n + LIST_REQUESTS" by (rule listDriveFolder_requests [OF x])
    show ?thesis
    proof (cases x)
      case (Inl e)
      then show ?thesis using "2.prems" False x n1 by (auto simp: algebra_simps)
    next
      case (Inr children)
      show ?thesis
      proof (cases "addChildren node children out queue")
        case None
        then show ?thesis using "2.prems" False x Inr n1 by (auto simp: algebra_simps)
      next
        case (Some oq)
        obtain out' queue' where oq: "oq = (out', queue')" by (cases oq)
        have rec: "collectTree number_of key service queue' out' n1 = (r, n')"
          using "2.prems" False x Inr Some oq by simp
        note bound = addChildren_bound [OF Some [unfolded oq]]
        have "LIST_REQUESTS * (length queue' + (MAX_TREE_ENTRIES - length out'))
            \<le> LIST_REQUESTS * (length queue + (MAX_TREE_ENTRIES - length out))"
          using bound by (intro mult_le_mono2) blast
        moreover have "n' \<le> n1 + LIST_REQUESTS * (length queue' + (MAX_TREE_ENTRIES - length out'))
            \<and> (\<forall>tree. r = Inr tree \<longrightarrow> length out' \<le> MAX_TREE_ENTRIES \<longrightarrow> length tree \<le> MAX_TREE_ENTRIES)"
          by (rule "2.IH"(2) [OF False x [symmetric] Inr Some oq [symmetric] rec])
        ultimately show ?thesis using n1 bound by (auto simp: algebra_simps)
      qed
    qed
  qed
qed simp

lemma metaBestEffort_requests: "metaBestEffort number_of key service n = (m, n') \<Longrightarrow> n' \<le> n + API_ATTEMPTS"
  by (auto simp: metaBestEffort_def split: if_splits sum.splits prod.splits dest!: driveGet_requests)

lemma fetchDriveMeta_requests: "fetchDriveMeta number_of key service i n = (r, n') \<Longrightarrow> n' \<le> n + API_ATTEMPTS"
  by (auto simp: fetchDriveMeta_def split: if_splits sum.splits prod.splits dest!: driveGet_requests)

lemma length_largestFirst [simp]: "length (largestFirst videos) = length videos"
  by (simp add: largestFirst_def)

definition smallSession :: "drive_error + drive_session \<Rightarrow> bool" where
  "smallSession r \<longleftrightarrow>
     (case r of Inl _ \<Rightarrow> True
      | Inr s \<Rightarrow> length (dv_files s) \<le> MAX_TREE_ENTRIES)"

lemma files_buildSession [simp]: "length (dv_files (buildSession name videos subtitles)) = length videos"
  by (simp add: buildSession_def Let_def)

lemma openFolder_bounds:
  assumes "openFolder number_of key service i n = (r, n')"
  shows "n' \<le> n + API_ATTEMPTS + LIST_REQUESTS * Suc MAX_TREE_ENTRIES \<and> smallSession r"
proof -
  obtain m n1 where m: "metaBestEffort number_of key service n = (m, n1)" by (cases "metaBestEffort number_of key service n")
  let ?queue = "[\<lparr>tn_id = i, tn_prefix = [], tn_depth = 0\<rparr>]"
  obtain t n2 where t: "collectTree number_of key service ?queue [] n1 = (t, n2)"
    by (cases "collectTree number_of key service ?queue [] n1")
  have "n1 \<le> n + API_ATTEMPTS" by (rule metaBestEffort_requests [OF m])
  moreover have "n2 \<le> n1 + LIST_REQUESTS * Suc MAX_TREE_ENTRIES" "\<And>tree. t = Inr tree \<Longrightarrow> length tree \<le> MAX_TREE_ENTRIES"
    using collectTree_bounds [OF t] by auto
  ultimately show ?thesis
    using assms m t by (cases t) (auto simp: openFolder_def smallSession_def intro: order_trans [OF length_filter_le])
qed

text \<open>C22: opening a Drive link ends, whatever the service answers. Folders may contain themselves, pages may promise more pages, errors may come at any request and the reader may give up at any moment: opening makes at most 150,036 requests, each tried three times at most among them, and then it fails with a reason or gives a session of at most five thousand files.\<close>

theorem drive_opening_is_bounded:
  "let (r, made) = openDriveSession number_of key service aborted link n in
     made \<le> n + 150036 \<and> smallSession r"
proof -
  have one: "1 \<le> MAX_TREE_ENTRIES" by (simp add: MAX_TREE_ENTRIES_def)
  have small: "smallSession (Inr (buildSession name [t] subs))" for name t subs
    using one by (simp add: smallSession_def)
  have most: "API_ATTEMPTS + API_ATTEMPTS + LIST_REQUESTS * Suc MAX_TREE_ENTRIES = 150036"
    by (simp add: API_ATTEMPTS_def LIST_REQUESTS_def MAX_TREE_ENTRIES_def)
  have list: "LIST_REQUESTS \<le> LIST_REQUESTS * Suc MAX_TREE_ENTRIES" by simp
  obtain r made where r: "openDriveSession number_of key service aborted link n = (r, made)"
    by (cases "openDriveSession number_of key service aborted link n")
  have "made \<le> n + (API_ATTEMPTS + API_ATTEMPTS + LIST_REQUESTS * Suc MAX_TREE_ENTRIES) \<and> smallSession r"
  proof (cases "\<not> isDriveId (dl_id link) \<or> aborted \<or> dl_kind link = DriveFolder")
    case True
    then show ?thesis
      using r openFolder_bounds [of number_of key service "dl_id link" n r made]
      by (auto simp: openDriveSession_def smallSession_def split: if_splits)
  next
    case False
    obtain x n1 where x: "fetchDriveMeta number_of key service (dl_id link) n = (x, n1)"
      by (cases "fetchDriveMeta number_of key service (dl_id link) n")
    have n1: "n1 \<le> n + API_ATTEMPTS" by (rule fetchDriveMeta_requests [OF x])
    have picked: "dl_kind link = DriveFile" using False by (cases "dl_kind link") auto
    show ?thesis
    proof (cases x)
      case (Inl e)
      then show ?thesis using r x False picked n1 by (auto simp: openDriveSession_def smallSession_def)
    next
      case (Inr meta)
      note opened = r [unfolded openDriveSession_def] and facts = Inr x False picked n1
      show ?thesis
      proof (cases "dm_mimeType meta = DRIVE_FOLDER_MIME")
        case True
        then show ?thesis
          using opened facts openFolder_bounds [of number_of key service "dm_id meta" n1 r made]
          by (auto simp: smallSession_def split: if_splits)
      next
        case nofolder: False
        show ?thesis
        proof (cases "dm_parents meta")
          case Nil
          then show ?thesis using opened facts nofolder small list by auto
        next
          case (Cons parent ps)
          obtain y n2 where y: "listDriveFolder number_of key service parent n1 = (y, n2)"
            by (cases "listDriveFolder number_of key service parent n1")
          have "n2 \<le> n1 + LIST_REQUESTS" by (rule listDriveFolder_requests [OF y])
          then show ?thesis using opened facts nofolder Cons y small list n1 by (cases y) (auto split: sum.splits)
        qed
      qed
    qed
  qed
  then show ?thesis unfolding r most by simp
qed

section \<open>What is listed is what is opened\<close>

lemma set_largestFirst [simp]: "set (largestFirst videos) = set videos"
  by (simp add: largestFirst_def)

lemma entries_fold:
  "distinct (map tf_path ts) \<Longrightarrow> t \<in> set ts \<Longrightarrow> mapGet (fold (\<lambda>v m. mapSet (tf_path v) (tf_entry v) m) ts m) (tf_path t) = Some (tf_entry t)"
proof (induction ts arbitrary: m)
  case (Cons u ts)
  have keep: "p \<notin> tf_path ` set ts \<Longrightarrow> mapGet (fold (\<lambda>v m. mapSet (tf_path v) (tf_entry v) m) ts m) p = mapGet m p" for p m ts
    by (induction ts arbitrary: m) auto
  show ?case using Cons by (cases "t = u") (auto simp: keep)
qed simp

lemma subtitles_fold:
  "mapGet m p = Some e \<Longrightarrow>
     mapGet (fold (\<lambda>sub m. if mapGet m (tf_path sub) = None then mapSet (tf_path sub) (tf_entry sub) m else m) subs m) p = Some e"
proof (induction subs arbitrary: m)
  case (Cons sub subs)
  let ?m = "if mapGet m (tf_path sub) = None then mapSet (tf_path sub) (tf_entry sub) m else m"
  have "mapGet ?m p = Some e" using Cons.prems by (cases "p = tf_path sub") auto
  from Cons.IH [OF this] show ?case by simp
qed simp

text \<open>what the picker lists is what the room opens. Where the videos of a Drive folder have paths of their own, every listed file can be selected and its path leads back to the entry with its name and size; the files come the largest first, numbered in that order, and are exactly the folder's videos.\<close>

theorem listed_file_is_its_entry:
  assumes "distinct (map tf_path videos)"
  shows "let s = buildSession name videos subtitles in
     (\<forall>f \<in> set (dv_files s). selectPath s (df_path f)
        \<and> (\<exists>e. driveEntryForFile s (df_path f) = Some e \<and> dm_name e = df_name f \<and> dm_size e = df_size f))
     \<and> sorted_wrt (\<lambda>f g. df_size g \<le> df_size f) (dv_files s)
     \<and> map df_index (dv_files s) = [0..<length videos]
     \<and> df_path ` set (dv_files s) = tf_path ` set videos"
proof -
  let ?ordered = "largestFirst videos"
  let ?s = "buildSession name videos subtitles"
  have files: "dv_files ?s = map videoFile (enumerate 0 ?ordered)" by (simp add: buildSession_def Let_def)
  have distinct: "distinct (map tf_path ?ordered)" using assms by (simp add: largestFirst_def)
  have entry: "driveEntryForFile ?s (tf_path t) = Some (tf_entry t)" if "t \<in> set videos" for t
    using entries_fold [OF distinct, of t "[]"] that subtitles_fold
    by (simp add: driveEntryForFile_def buildSession_def entriesByPath_def Let_def)
  have from_video: "\<exists>t \<in> set videos. df_path f = tf_path t \<and> df_name f = dm_name (tf_entry t) \<and> df_size f = dm_size (tf_entry t)"
    if "f \<in> set (dv_files ?s)" for f
  proof -
    obtain i t where it: "(i, t) \<in> set (enumerate 0 ?ordered)" "f = videoFile (i, t)" using \<open>f \<in> set (dv_files ?s)\<close> files by auto
    then have "t \<in> set ?ordered" by (auto simp: in_set_enumerate_eq simp del: set_largestFirst)
    then show ?thesis using it by (auto simp: videoFile_def)
  qed
  have "sorted_wrt (\<lambda>a b. dm_size (tf_entry b) \<le> dm_size (tf_entry a)) ?ordered"
    unfolding largestFirst_def by (rule sorted_wrt_sort_by) auto
  then have "sorted_wrt (\<lambda>f g. df_size g \<le> df_size f) (dv_files ?s)"
    unfolding files by (simp add: sorted_wrt_map videoFile_def sorted_wrt_iff_nth_less nth_enumerate_eq)
  moreover have "map df_index (dv_files ?s) = [0..<length videos]"
    unfolding files by (simp add: videoFile_def comp_def enumerate_eq_zip flip: map_fst_zip [of "[0..<length ?ordered]" ?ordered])
  moreover have "df_path ` set (dv_files ?s) = tf_path ` set (map snd (enumerate 0 ?ordered))"
    unfolding files by (simp only: set_map image_image videoFile_def drive_file.select_convs)
  moreover have "selectPath ?s (df_path f) \<and> (\<exists>e. driveEntryForFile ?s (df_path f) = Some e \<and> dm_name e = df_name f \<and> dm_size e = df_size f)"
    if f: "f \<in> set (dv_files ?s)" for f
  proof -
    obtain t where t: "t \<in> set videos" "df_path f = tf_path t" "df_name f = dm_name (tf_entry t)" "df_size f = dm_size (tf_entry t)"
      using from_video [OF f] by blast
    show ?thesis using f t(3,4) entry [OF t(1)] unfolding selectPath_def t(2) [symmetric] by auto
  qed
  ultimately show ?thesis unfolding Let_def by simp
qed

lemma listed_file_is_its_entry_witness:
  "\<exists>a b name. dm_size a < dm_size b
     \<and> driveEntryForFile (buildSession name [\<lparr>tf_entry = a, tf_path = ''x/a.mp4''\<rparr>, \<lparr>tf_entry = b, tf_path = ''b.mp4''\<rparr>] []) ''x/a.mp4'' \<noteq> None"
proof -
  let ?a = "\<lparr>dm_id = ''1'', dm_name = ''a.mp4'', dm_mimeType = ''video/mp4'', dm_size = 5, dm_parents = []\<rparr>"
  let ?b = "\<lparr>dm_id = ''2'', dm_name = ''b.mp4'', dm_mimeType = ''video/mp4'', dm_size = 9, dm_parents = []\<rparr>"
  let ?v = "[\<lparr>tf_entry = ?a, tf_path = ''x/a.mp4''\<rparr>, \<lparr>tf_entry = ?b, tf_path = ''b.mp4''\<rparr>]"
  have "distinct (map tf_path ?v)" by simp
  note all = listed_file_is_its_entry [OF this, of "''d''" "[]", unfolded Let_def]
  have "''x/a.mp4'' \<in> df_path ` set (dv_files (buildSession ''d'' ?v []))" using all by simp
  then obtain f where f: "''x/a.mp4'' = df_path f" "f \<in> set (dv_files (buildSession ''d'' ?v []))" by (rule imageE)
  then have "driveEntryForFile (buildSession ''d'' ?v []) ''x/a.mp4'' \<noteq> None" using all by (metis option.distinct(1))
  then show ?thesis by (intro exI [of _ ?a] exI [of _ ?b] exI [of _ "''d''"]) simp
qed

text \<open>
  Drive lets two files of one folder have the same name. Both are listed under one
  path, and the path leads to the smaller one, whichever was picked.
\<close>

theorem same_name_opens_the_smaller:
  "let a = \<lparr>dm_id = ''1'', dm_name = ''film.mkv'', dm_mimeType = ''video/x-matroska'', dm_size = 900, dm_parents = []\<rparr>;
       b = \<lparr>dm_id = ''2'', dm_name = ''film.mkv'', dm_mimeType = ''video/x-matroska'', dm_size = 100, dm_parents = []\<rparr>;
       s = buildSession ''d'' [\<lparr>tf_entry = a, tf_path = ''film.mkv''\<rparr>, \<lparr>tf_entry = b, tf_path = ''film.mkv''\<rparr>] []
   in map df_path (dv_files s) = [''film.mkv'', ''film.mkv''] \<and> map df_size (dv_files s) = [900, 100]
      \<and> driveEntryForFile s ''film.mkv'' = Some b"
  by (simp add: Let_def buildSession_def largestFirst_def videoFile_def driveEntryForFile_def entriesByPath_def)

section \<open>Which links are read\<close>

lemma validId_Some: "validId v = Some i \<Longrightarrow> isDriveId i"
  by (auto simp: validId_def split: option.splits if_splits)

text \<open>only Drive's own links give an id, and a well-formed one. Whatever was pasted, an id that is read has at least twenty-five characters of the alphabet and came either as the whole text or from an address of google.com; every operation on an id that is not of that form fails before any request.\<close>

theorem drive_ids_are_checked:
  "(parseDriveLink parse raw = Some link \<longrightarrow>
      isDriveId (dl_id link)
      \<and> (dl_id link = trim raw
         \<or> (\<exists>url. parse (trim raw) = Some url \<and> du_protocol url \<in> {''http:'', ''https:''}
              \<and> (endsWith (lower (du_hostname url)) ''.google.com'' \<or> lower (du_hostname url) = ''google.com''))))
   \<and> (\<not> isDriveId i \<longrightarrow>
        fetchDriveMeta number_of key service i n = (Inl BadId, n)
        \<and> listDriveFolder number_of key service i n = (Inl BadId, n)
        \<and> probeDriveDownload key service i n = (Some BadId, n)
        \<and> openDriveSession number_of key service aborted \<lparr>dl_kind = kind, dl_id = i\<rparr> n = (Inl BadId, n))"
  by (auto simp: parseDriveLink_def Let_def fetchDriveMeta_def listDriveFolder_def probeDriveDownload_def openDriveSession_def
      dest: validId_Some split: if_splits option.splits)

lemma drive_ids_are_checked_witness:
  "fetchDriveMeta (\<lambda>_. None) True (\<lambda>_. Unreachable) ''short'' 7 = (Inl BadId, 7)"
proof -
  have "\<not> isDriveId ''short''" by (simp add: isDriveId_def)
  then show ?thesis using drive_ids_are_checked [of "\<lambda>_. None" "[]" undefined "''short''" "\<lambda>_. None" True "\<lambda>_. Unreachable" 7] by blast
qed

end
