(* ===== verification/Plugins.thy ===== *)
theory Plugins
  imports Prelude JsText JsonRead
begin

text \<open>
  Plugins: where one may send a request (\<open>plugins/policy.ts\<close>), what it says about
  itself (\<open>plugins/manifest.ts\<close>), one run of it in a worker (\<open>plugins/runtime.ts\<close>),
  how it is installed (\<open>plugins/install.ts\<close>), updated (\<open>plugins/update.ts\<close>), kept
  (\<open>plugins/store.ts\<close>) and asked (\<open>plugins/resolve.ts\<close>). \<open>parse\<close> is the browser's
  \<open>URL\<close>, \<open>digest\<close> its SHA-256; both are parameters.
\<close>

section \<open>The boundary (policy.ts)\<close>

record plugin_url =
  ul_protocol :: string
  ul_hostname :: string
  ul_pathname :: string
  ul_username :: string
  ul_password :: string
  ul_rest :: string

text \<open>\<open>ul_rest\<close> stands for what else the address holds; \<open>ul_pathname\<close> is part of it too.\<close>

definition normalizeHost :: "string \<Rightarrow> string" where
  "normalizeHost hostname = rev (dropWhile (\<lambda>c. c = CHR ''.'') (rev (lower hostname)))"

definition isIPv4 :: "string \<Rightarrow> bool" where
  "isIPv4 host \<longleftrightarrow>
     (let parts = splitOn (CHR ''.'') host
      in length parts = 4 \<and> list_all (\<lambda>p. p \<noteq> [] \<and> length p \<le> 3 \<and> list_all isDigit p) parts)"

definition isPrivateHostname :: "string \<Rightarrow> bool" where
  "isPrivateHostname host \<longleftrightarrow>
     host = ''localhost'' \<or> endsWith host ''.localhost'' \<or> startsWith host ''['' \<or> isIPv4 host"

datatype fetch_denial = InvalidUrl | BadScheme | SelfOrigin | PrivateHost | HostNotDeclared

definition checkFetchUrl :: "(string \<Rightarrow> plugin_url option) \<Rightarrow> string \<Rightarrow> string list \<Rightarrow> string \<Rightarrow> fetch_denial + plugin_url" where
  "checkFetchUrl parse raw hosts selfOrigin =
     (case parse raw of
        None \<Rightarrow> Inl InvalidUrl
      | Some url \<Rightarrow>
          (case parse selfOrigin of
             None \<Rightarrow> Inl SelfOrigin
           | Some self \<Rightarrow>
               if ul_protocol url \<noteq> ''https:'' then Inl BadScheme
               else let host = normalizeHost (ul_hostname url)
                    in if host = normalizeHost (ul_hostname self) then Inl SelfOrigin
                       else if isPrivateHostname host then Inl PrivateHost
                       else if host \<notin> set hosts then Inl HostNotDeclared
                       else Inr (url\<lparr>ul_username := [], ul_password := []\<rparr>)))"

text \<open>What the policy lets through: an https address of a declared public host that is not the page's own, without credentials.\<close>

definition allowed :: "(string \<Rightarrow> plugin_url option) \<Rightarrow> string list \<Rightarrow> string \<Rightarrow> plugin_url \<Rightarrow> bool" where
  "allowed parse hosts selfOrigin url \<longleftrightarrow>
     ul_protocol url = ''https:'' \<and> ul_username url = [] \<and> ul_password url = []
     \<and> normalizeHost (ul_hostname url) \<in> set hosts \<and> \<not> isPrivateHostname (normalizeHost (ul_hostname url))
     \<and> (\<exists>self. parse selfOrigin = Some self \<and> normalizeHost (ul_hostname url) \<noteq> normalizeHost (ul_hostname self))"

lemma checkFetchUrl_allowed: "checkFetchUrl parse raw hosts selfOrigin = Inr url \<Longrightarrow> allowed parse hosts selfOrigin url"
  by (auto simp: checkFetchUrl_def allowed_def Let_def split: option.splits if_splits)

section \<open>One run (runtime.ts)\<close>

datatype worker_request = FetchAsked nat string | RunDone json | RunError string | OtherRequest

record worker_reply =
  wr_id :: nat
  wr_ok :: bool
  wr_status :: nat
  wr_text :: string

record fetch_result =
  fr_ok :: bool
  fr_status :: nat
  fr_text :: string
  fr_finalUrl :: string

datatype run_failure = RunTimeout | TooManyRequests | PluginFailed string | RunAborted

datatype run_effect =
    FetchMade nat plugin_url
  | ReplyPosted worker_reply
  | WorkerTerminated
  | RunResolved json
  | RunRejected run_failure

record run_options =
  ro_hosts :: "string list"
  ro_selfOrigin :: string
  ro_maxRequests :: nat

text \<open>\<open>pr_outbox\<close> holds the replies made before \<open>spawn\<close> returned; \<open>rn_fetches\<close> is the number of each fetch under way with the worker's id for it.\<close>

record plugin_run =
  rn_settled :: bool
  rn_requests :: nat
  rn_spawned :: bool
  rn_outbox :: "worker_reply list"
  rn_fetches :: "(nat \<times> nat) list"
  rn_made :: nat
  rn_log :: "run_effect list"

definition runNote :: "run_effect list \<Rightarrow> plugin_run \<Rightarrow> plugin_run" where
  "runNote es r = r\<lparr>rn_log := rn_log r @ es\<rparr>"

definition postReply :: "worker_reply \<Rightarrow> plugin_run \<Rightarrow> plugin_run" where
  "postReply reply r = (if rn_spawned r then runNote [ReplyPosted reply] r else r\<lparr>rn_outbox := rn_outbox r @ [reply]\<rparr>)"

definition finishRun :: "run_effect \<Rightarrow> plugin_run \<Rightarrow> plugin_run" where
  "finishRun outcome r =
     (if rn_settled r then r
      else runNote ((if rn_spawned r then [WorkerTerminated] else []) @ [outcome]) (r\<lparr>rn_settled := True\<rparr>))"

text \<open>\<open>runPlugin\<close> up to \<open>spawn\<close>: a signal already aborted ends the run, and no worker is made.\<close>

definition newPluginRun :: "bool \<Rightarrow> plugin_run" where
  "newPluginRun aborted =
     (let r = \<lparr>rn_settled = False, rn_requests = 0, rn_spawned = False, rn_outbox = [], rn_fetches = [], rn_made = 0, rn_log = []\<rparr>
      in if aborted then finishRun (RunRejected RunAborted) r else r)"

definition denialText :: "fetch_denial \<Rightarrow> string" where
  "denialText d = (case d of InvalidUrl \<Rightarrow> ''invalid'' | BadScheme \<Rightarrow> ''scheme'' | SelfOrigin \<Rightarrow> ''self-origin''
     | PrivateHost \<Rightarrow> ''private-host'' | HostNotDeclared \<Rightarrow> ''host-not-declared'')"

definition onRunMessage :: "(string \<Rightarrow> plugin_url option) \<Rightarrow> run_options \<Rightarrow> worker_request \<Rightarrow> plugin_run \<Rightarrow> plugin_run" where
  "onRunMessage parse opts message r =
     (if rn_settled r then r
      else case message of
          RunDone streams \<Rightarrow> finishRun (RunResolved streams) r
        | RunError m \<Rightarrow> finishRun (RunRejected (PluginFailed m)) r
        | OtherRequest \<Rightarrow> r
        | FetchAsked i url \<Rightarrow>
            let r' = r\<lparr>rn_requests := Suc (rn_requests r)\<rparr>
            in if ro_maxRequests opts < rn_requests r' then finishRun (RunRejected TooManyRequests) r'
               else case checkFetchUrl parse url (ro_hosts opts) (ro_selfOrigin opts) of
                   Inl d \<Rightarrow> postReply \<lparr>wr_id = i, wr_ok = False, wr_status = 0, wr_text = ''blocked: '' @ denialText d\<rparr> r'
                 | Inr u \<Rightarrow> runNote [FetchMade (rn_made r') u]
                     (r'\<lparr>rn_fetches := rn_fetches r' @ [(rn_made r', i)], rn_made := Suc (rn_made r')\<rparr>))"

definition spawned :: "plugin_run \<Rightarrow> plugin_run" where
  "spawned r =
     (if rn_spawned r then r
      else if rn_settled r then runNote [WorkerTerminated] (r\<lparr>rn_spawned := True\<rparr>)
      else runNote (map ReplyPosted (rn_outbox r)) (r\<lparr>rn_spawned := True, rn_outbox := []\<rparr>))"

text \<open>A fetch ends with a result, whose \<open>finalUrl\<close> counts when it is not empty, or with an error's text.\<close>

definition fetchEnded :: "(string \<Rightarrow> plugin_url option) \<Rightarrow> run_options \<Rightarrow> nat \<Rightarrow> string + fetch_result \<Rightarrow> plugin_run \<Rightarrow> plugin_run" where
  "fetchEnded parse opts k a r =
     (case mapGet (rn_fetches r) k of
        None \<Rightarrow> r
      | Some i \<Rightarrow>
          let r' = r\<lparr>rn_fetches := mapDelete k (rn_fetches r)\<rparr>
          in if rn_settled r then r'
             else case a of
                 Inl e \<Rightarrow> postReply \<lparr>wr_id = i, wr_ok = False, wr_status = 0, wr_text = e\<rparr> r'
               | Inr result \<Rightarrow>
                   (case (if fr_finalUrl result = [] then None
                          else Some (checkFetchUrl parse (fr_finalUrl result) (ro_hosts opts) (ro_selfOrigin opts))) of
                      Some (Inl d) \<Rightarrow>
                        postReply \<lparr>wr_id = i, wr_ok = False, wr_status = 0, wr_text = ''blocked: redirect-'' @ denialText d\<rparr> r'
                    | _ \<Rightarrow> postReply \<lparr>wr_id = i, wr_ok = fr_ok result, wr_status = fr_status result, wr_text = fr_text result\<rparr> r'))"

datatype run_event =
    WorkerSaid worker_request
  | WorkerSpawned
  | FetchEnded nat "string + fetch_result"
  | RunTimedOut
  | RunCancelled

fun pluginRunStep :: "(string \<Rightarrow> plugin_url option) \<Rightarrow> run_options \<Rightarrow> plugin_run \<Rightarrow> run_event \<Rightarrow> plugin_run" where
  "pluginRunStep parse opts r (WorkerSaid m) = onRunMessage parse opts m r"
| "pluginRunStep parse opts r WorkerSpawned = spawned r"
| "pluginRunStep parse opts r (FetchEnded k a) = fetchEnded parse opts k a r"
| "pluginRunStep parse opts r RunTimedOut = finishRun (RunRejected RunTimeout) r"
| "pluginRunStep parse opts r RunCancelled = finishRun (RunRejected RunAborted) r"

definition fetchesIn :: "run_effect list \<Rightarrow> plugin_url list" where
  "fetchesIn es = List.map_filter (\<lambda>e. case e of FetchMade _ u \<Rightarrow> Some u | _ \<Rightarrow> None) es"

definition outcomesIn :: "run_effect list \<Rightarrow> run_effect list" where
  "outcomesIn es = filter (\<lambda>e. case e of RunResolved _ \<Rightarrow> True | RunRejected _ \<Rightarrow> True | _ \<Rightarrow> False) es"

lemma fetchesIn_simps [simp]:
  "fetchesIn [] = []" "fetchesIn (xs @ ys) = fetchesIn xs @ fetchesIn ys"
  "fetchesIn (e # es) = (case e of FetchMade _ u \<Rightarrow> u # fetchesIn es | _ \<Rightarrow> fetchesIn es)"
  "fetchesIn (map ReplyPosted rs) = []"
  by (auto simp: fetchesIn_def List.map_filter_def comp_def split: run_effect.splits)

lemma outcomesIn_simps [simp]:
  "outcomesIn [] = []" "outcomesIn (xs @ ys) = outcomesIn xs @ outcomesIn ys"
  "outcomesIn (e # es) = (case e of RunResolved _ \<Rightarrow> e # outcomesIn es | RunRejected _ \<Rightarrow> e # outcomesIn es | _ \<Rightarrow> outcomesIn es)"
  "outcomesIn (map ReplyPosted rs) = []"
  by (auto simp: outcomesIn_def comp_def split: run_effect.splits)

definition runOk :: "(string \<Rightarrow> plugin_url option) \<Rightarrow> run_options \<Rightarrow> plugin_run \<Rightarrow> bool" where
  "runOk parse opts r \<longleftrightarrow>
     list_all (allowed parse (ro_hosts opts) (ro_selfOrigin opts)) (fetchesIn (rn_log r))
     \<and> length (fetchesIn (rn_log r)) \<le> ro_maxRequests opts \<and> length (fetchesIn (rn_log r)) \<le> rn_requests r
     \<and> length (outcomesIn (rn_log r)) = (if rn_settled r then 1 else 0)
     \<and> (rn_spawned r \<longrightarrow> rn_settled r \<longrightarrow> WorkerTerminated \<in> set (rn_log r))"

lemma runNote_sel [simp]:
  "rn_log (runNote es r) = rn_log r @ es" "rn_settled (runNote es r) = rn_settled r" "rn_requests (runNote es r) = rn_requests r"
  "rn_spawned (runNote es r) = rn_spawned r"
  by (simp_all add: runNote_def)

lemma postReply_keeps: "runOk parse opts r \<Longrightarrow> \<not> rn_settled r \<Longrightarrow> runOk parse opts (postReply reply r)"
  by (auto simp: runOk_def postReply_def)

lemma finishRun_keeps:
  "runOk parse opts r \<Longrightarrow> (\<exists>j. outcome = RunResolved j) \<or> (\<exists>f. outcome = RunRejected f) \<Longrightarrow> runOk parse opts (finishRun outcome r)"
  by (auto simp: runOk_def finishRun_def)

lemma onRunMessage_keeps: "runOk parse opts r \<Longrightarrow> runOk parse opts (onRunMessage parse opts m r)"
proof -
  assume ok: "runOk parse opts r"
  have counted: "runOk parse opts (r\<lparr>rn_requests := Suc (rn_requests r)\<rparr>)" using ok by (auto simp: runOk_def)
  show ?thesis
    using ok counted
    by (auto simp: onRunMessage_def Let_def finishRun_keeps postReply_keeps split: worker_request.splits sum.splits
        dest!: checkFetchUrl_allowed)
      (auto simp: runOk_def)
qed

lemma spawned_keeps: "runOk parse opts r \<Longrightarrow> runOk parse opts (spawned r)"
  by (auto simp: runOk_def spawned_def)

lemma fetchEnded_keeps: "runOk parse opts r \<Longrightarrow> runOk parse opts (fetchEnded parse opts k a r)"
proof -
  assume ok: "runOk parse opts r"
  then have "runOk parse opts (r\<lparr>rn_fetches := mapDelete k (rn_fetches r)\<rparr>)" by (simp add: runOk_def)
  then show ?thesis
    using ok by (auto simp: fetchEnded_def Let_def postReply_keeps split: option.splits sum.splits)
qed

lemma pluginRunStep_keeps: "runOk parse opts r \<Longrightarrow> runOk parse opts (pluginRunStep parse opts r ev)"
  by (cases ev) (auto simp: onRunMessage_keeps spawned_keeps fetchEnded_keeps finishRun_keeps)

interpretation plugin_runs: component "pluginRunStep parse opts" "runOk parse opts"
  by unfold_locales (rule pluginRunStep_keeps)

lemma newPluginRun_ok: "runOk parse opts (newPluginRun aborted)"
  by (simp add: runOk_def newPluginRun_def Let_def finishRun_def)

text \<open>Once settled, a run does nothing more but end a worker that is spawned late.\<close>

lemma settled_is_final:
  assumes "rn_settled r"
  shows "rn_settled (pluginRunStep parse opts r ev)
     \<and> (\<exists>es. rn_log (pluginRunStep parse opts r ev) = rn_log r @ es \<and> set es \<subseteq> {WorkerTerminated})"
  using assms
  by (cases ev) (auto simp: onRunMessage_def spawned_def fetchEnded_def finishRun_def Let_def split: option.splits)

text \<open>C24: a plugin reaches only what was declared for it. Whatever its worker says, in whatever order its requests are answered, redirected, cancelled or timed out: every request made for it goes over https, without credentials, to a declared public host other than the page's own; at most the allowed number of them is made; the run has one outcome at most; and once it has one, its worker is ended and nothing is fetched or answered any more.\<close>

theorem plugin_reaches_only_declared_hosts:
  "let r = foldl (pluginRunStep parse opts) (newPluginRun aborted) events in
     (\<forall>url \<in> set (fetchesIn (rn_log r)). allowed parse (ro_hosts opts) (ro_selfOrigin opts) url)
     \<and> length (fetchesIn (rn_log r)) \<le> ro_maxRequests opts
     \<and> length (outcomesIn (rn_log r)) \<le> 1
     \<and> (outcomesIn (rn_log r) \<noteq> [] \<longrightarrow>
          (rn_spawned r \<longrightarrow> WorkerTerminated \<in> set (rn_log r))
          \<and> (\<exists>es. rn_log (pluginRunStep parse opts r ev) = rn_log r @ es \<and> set es \<subseteq> {WorkerTerminated}))"
proof -
  define r where "r = foldl (pluginRunStep parse opts) (newPluginRun aborted) events"
  have ok: "runOk parse opts r" unfolding r_def by (rule plugin_runs.run_keeps [OF newPluginRun_ok])
  then have "outcomesIn (rn_log r) \<noteq> [] \<Longrightarrow> rn_settled r" by (auto simp: runOk_def split: if_splits)
  with ok settled_is_final [of r parse opts ev] show ?thesis
    unfolding r_def [symmetric] Let_def by (auto simp: runOk_def list_all_iff)
qed

lemma plugin_reaches_only_declared_hosts_witness:
  "\<exists>parse opts events. fetchesIn (rn_log (foldl (pluginRunStep parse opts) (newPluginRun False) events)) \<noteq> []
     \<and> (\<forall>url \<in> set (fetchesIn (rn_log (foldl (pluginRunStep parse opts) (newPluginRun False) events))).
          allowed parse (ro_hosts opts) (ro_selfOrigin opts) url)"
proof -
  let ?parse = "\<lambda>s. if s = ''self'' then Some \<lparr>ul_protocol = ''https:'', ul_hostname = ''juntos.lol'', ul_pathname = ''/'', ul_username = [], ul_password = [], ul_rest = []\<rparr>
     else Some \<lparr>ul_protocol = ''https:'', ul_hostname = s, ul_pathname = ''/'', ul_username = ''u'', ul_password = ''p'', ul_rest = []\<rparr>"
  let ?opts = "\<lparr>ro_hosts = [''api.example.org''], ro_selfOrigin = ''self'', ro_maxRequests = 32\<rparr>"
  let ?events = "[WorkerSpawned, WorkerSaid (FetchAsked 7 ''api.example.org''), WorkerSaid (FetchAsked 8 ''evil.example.org'')]"
  have "fetchesIn (rn_log (foldl (pluginRunStep ?parse ?opts) (newPluginRun False) ?events)) \<noteq> []" by code_simp
  then show ?thesis
    using plugin_reaches_only_declared_hosts [of ?parse ?opts False ?events] unfolding Let_def by blast
qed

section \<open>What a plugin says about itself (manifest.ts)\<close>

record plugin_manifest =
  mf_id :: string
  mf_name :: string
  mf_version :: string
  mf_hosts :: "string list"
  mf_updateUrl :: "string option"

definition MAX_HOSTS :: nat where "MAX_HOSTS = 16"

definition MAX_HOST_LENGTH :: nat where "MAX_HOST_LENGTH = 253"

definition MAX_LABEL_LENGTH :: nat where "MAX_LABEL_LENGTH = 63"

text \<open>\<open>\p{C}\<close> among the code units below 256.\<close>

definition isControl :: "char \<Rightarrow> bool" where
  "isControl c \<longleftrightarrow> codeOf c < 32 \<or> (127 \<le> codeOf c \<and> codeOf c \<le> 159) \<or> codeOf c = 173"

definition manifestText :: "json option \<Rightarrow> nat \<Rightarrow> string option" where
  "manifestText v longest =
     (case v of
        Some (JStr s) \<Rightarrow>
          let trimmed = trim s
          in if trimmed = [] \<or> longest < length trimmed \<or> (\<exists>c \<in> set trimmed. isControl c) then None else Some trimmed
      | _ \<Rightarrow> None)"

definition isLowAlnum :: "char \<Rightarrow> bool" where
  "isLowAlnum c \<longleftrightarrow> isDigit c \<or> (97 \<le> codeOf c \<and> codeOf c \<le> 122)"

definition isPluginId :: "string \<Rightarrow> bool" where
  "isPluginId s \<longleftrightarrow> 1 \<le> length s \<and> length s \<le> 64 \<and> list_all (\<lambda>c. isLowAlnum c \<or> c = CHR ''-'') s"

text \<open>\<open>HOST_PATTERN\<close>: two labels at least, each of letters, digits and hyphens with no hyphen at its ends.\<close>

definition isLabel :: "string \<Rightarrow> bool" where
  "isLabel l \<longleftrightarrow> l \<noteq> [] \<and> isLowAlnum (hd l) \<and> isLowAlnum (last l) \<and> list_all (\<lambda>c. isLowAlnum c \<or> c = CHR ''-'') l"

definition isHostPattern :: "string \<Rightarrow> bool" where
  "isHostPattern host \<longleftrightarrow> 2 \<le> length (splitOn (CHR ''.'') host) \<and> list_all isLabel (splitOn (CHR ''.'') host)"

definition manifestHost :: "(string \<Rightarrow> plugin_url option) \<Rightarrow> json \<Rightarrow> string option" where
  "manifestHost parse v =
     (case v of
        JStr s \<Rightarrow>
          if MAX_HOST_LENGTH < length s then None
          else let host = lower s; labels = splitOn (CHR ''.'') host
               in if \<not> isHostPattern host then None
                  else if \<exists>l \<in> set labels. MAX_LABEL_LENGTH < length l then None
                  else if list_all isDigit (last labels) then None
                  else (case parse (''https://'' @ host) of
                          None \<Rightarrow> None
                        | Some url \<Rightarrow> if ul_hostname url \<noteq> host then None else Some host)
      | _ \<Rightarrow> None)"

fun manifestHosts :: "(string \<Rightarrow> plugin_url option) \<Rightarrow> json list \<Rightarrow> string list \<Rightarrow> string list option" where
  "manifestHosts parse [] hosts = Some hosts"
| "manifestHosts parse (v # vs) hosts =
     (case manifestHost parse v of None \<Rightarrow> None | Some host \<Rightarrow> manifestHosts parse vs (addTo hosts host))"

text \<open>\<open>href url\<close> is the address without its fragment; its trailing slashes are cut. \<open>Some None\<close> is an absent address.\<close>

definition manifestUpdateUrl :: "(string \<Rightarrow> plugin_url option) \<Rightarrow> (plugin_url \<Rightarrow> string) \<Rightarrow> json option \<Rightarrow> string option option" where
  "manifestUpdateUrl parse href v =
     (if v = None \<or> v = Some JNull then Some None
      else Option.bind (manifestText v 512) (\<lambda>candidate.
             Option.bind (parse candidate) (\<lambda>url.
               if ul_protocol url \<noteq> ''https:'' \<or> ul_username url \<noteq> [] \<or> ul_password url \<noteq> [] then None
               else Some (Some (rev (dropWhile (\<lambda>c. c = CHR ''/'') (rev (href url))))))))"

definition parseManifest :: "(string \<Rightarrow> plugin_url option) \<Rightarrow> (plugin_url \<Rightarrow> string) \<Rightarrow> json \<Rightarrow> plugin_manifest option" where
  "parseManifest parse href v =
     Option.bind (asRecord v) (\<lambda>raw.
     Option.bind (manifestText (jsonField raw ''id'') 64) (\<lambda>i.
       if \<not> isPluginId i then None
       else Option.bind (manifestText (jsonField raw ''name'') 64) (\<lambda>name.
            Option.bind (manifestText (jsonField raw ''version'') 32) (\<lambda>version.
            case jsonField raw ''hosts'' of
              Some (JList declared) \<Rightarrow>
                if declared = [] \<or> MAX_HOSTS < length declared then None
                else Option.bind (manifestHosts parse declared []) (\<lambda>hosts.
                     Option.bind (manifestUpdateUrl parse href (jsonField raw ''updateUrl'')) (\<lambda>u.
                       Some \<lparr>mf_id = i, mf_name = name, mf_version = version, mf_hosts = hosts, mf_updateUrl = u\<rparr>))
            | _ \<Rightarrow> None))))"

text \<open>A host a manifest may declare.\<close>

definition hostOk :: "string \<Rightarrow> bool" where
  "hostOk host \<longleftrightarrow> isHostPattern host \<and> lower host = host \<and> \<not> list_all isDigit (last (splitOn (CHR ''.'') host))"

lemma manifestHost_ok: "manifestHost parse v = Some host \<Longrightarrow> hostOk host"
proof (cases v)
  case (JStr s)
  assume some: "manifestHost parse v = Some host"
  then have host: "host = lower s" by (auto simp: manifestHost_def JStr Let_def split: if_splits option.splits)
  with some show ?thesis by (simp add: manifestHost_def JStr Let_def hostOk_def lower_idem split: if_splits)
qed (simp_all add: manifestHost_def)

lemma manifestHosts_ok:
  "manifestHosts parse vs hosts = Some hosts' \<Longrightarrow> list_all hostOk hosts \<Longrightarrow> distinct hosts \<Longrightarrow>
     list_all hostOk hosts' \<and> distinct hosts' \<and> length hosts' \<le> length hosts + length vs
     \<and> (hosts \<noteq> [] \<or> vs \<noteq> [] \<longrightarrow> hosts' \<noteq> [])"
proof (induction parse vs hosts rule: manifestHosts.induct)
  case (2 parse v vs hosts)
  then obtain host where host: "manifestHost parse v = Some host" by (auto split: option.splits)
  have "list_all hostOk (addTo hosts host)" "distinct (addTo hosts host)" "addTo hosts host \<noteq> []"
      "length (addTo hosts host) \<le> Suc (length hosts)"
    using "2.prems"(2,3) manifestHost_ok [OF host] by (auto simp: addTo_def list_all_iff)
  then show ?case using "2.IH" [OF host] "2.prems"(1) host by auto
qed simp

text \<open>What such a host looks like to the policy: it is compared as it is written, and it is private only below \<open>localhost\<close>.\<close>

lemma hostOk_policy:
  assumes "hostOk host"
  shows "normalizeHost host = host" "isPrivateHostname host \<longleftrightarrow> endsWith host ''.localhost''"
proof -
  let ?labels = "splitOn (CHR ''.'') host"
  have labels: "list_all isLabel ?labels" "2 \<le> length ?labels" "lower host = host" "\<not> list_all isDigit (last ?labels)"
    using assms by (auto simp: hostOk_def isHostPattern_def)
  have joined: "host = joinWith [CHR ''.''] ?labels" by simp
  obtain ls l where ls: "?labels = ls @ [l]" by (metis labels(2) append_butlast_last_id list.size(3) not_numeral_le_zero)
  have l: "isLabel l" using labels(1) ls by simp
  then have "l \<noteq> []" "last l \<noteq> CHR ''.''" by (auto simp: isLabel_def isLowAlnum_def isDigit_def codeOf_def)
  have "\<exists>p. joinWith [CHR ''.''] (ls @ [l]) = p @ l" by (induction ls) (auto simp: joinWith_Cons)
  then obtain p where p: "host = p @ l" using joined ls by metis
  then have "host \<noteq> []" "last host \<noteq> CHR ''.''" using \<open>l \<noteq> []\<close> \<open>last l \<noteq> CHR ''.''\<close> by auto
  then have "rev host \<noteq> []" "hd (rev host) \<noteq> CHR ''.''" by (simp_all add: hd_rev)
  then have "dropWhile (\<lambda>c. c = CHR ''.'') (rev host) = rev host" by (cases "rev host") auto
  then show "normalizeHost host = host" by (simp add: normalizeHost_def labels(3))
  have "host \<noteq> ''localhost''" using labels(2) by (auto simp: splitOn_single)
  moreover have "\<not> startsWith host ''[''"
  proof -
    obtain l1 ls1 where l1: "?labels = l1 # ls1" by (cases ?labels) auto
    then have "isLabel l1" using labels(1) by simp
    then obtain c cs where c: "l1 = c # cs" "isLowAlnum c" by (cases l1) (auto simp: isLabel_def)
    then have "hd host = c" using joined l1 by (simp add: joinWith_Cons split: if_splits)
    then show ?thesis using c(2) \<open>host \<noteq> []\<close> by (cases host) (auto simp: startsWith_def isLowAlnum_def isDigit_def codeOf_def)
  qed
  moreover have "\<not> isIPv4 host" using labels(4) ls by (auto simp: isIPv4_def Let_def)
  ultimately show "isPrivateHostname host \<longleftrightarrow> endsWith host ''.localhost''" by (simp add: isPrivateHostname_def)
qed

lemma parseManifest_Some:
  assumes "parseManifest parse href v = Some m"
  shows "isPluginId (mf_id m) \<and> (\<exists>declared. manifestHosts parse declared [] = Some (mf_hosts m) \<and> declared \<noteq> [] \<and> length declared \<le> MAX_HOSTS)"
proof -
  obtain raw where raw: "asRecord v = Some raw" using assms by (cases "asRecord v") (auto simp: parseManifest_def)
  obtain i where i: "manifestText (jsonField raw ''id'') 64 = Some i" "isPluginId i"
    using assms by (cases "manifestText (jsonField raw ''id'') 64") (auto simp: parseManifest_def raw split: if_splits)
  obtain name where name: "manifestText (jsonField raw ''name'') 64 = Some name"
    using assms by (cases "manifestText (jsonField raw ''name'') 64") (auto simp: parseManifest_def raw i)
  obtain version where version: "manifestText (jsonField raw ''version'') 32 = Some version"
    using assms by (cases "manifestText (jsonField raw ''version'') 32") (auto simp: parseManifest_def raw i name)
  obtain declared where declared: "jsonField raw ''hosts'' = Some (JList declared)" "declared \<noteq> []" "length declared \<le> MAX_HOSTS"
    using assms by (auto simp: parseManifest_def raw i name version split: option.splits json.splits if_splits)
  obtain hosts where hosts: "manifestHosts parse declared [] = Some hosts"
    using assms declared by (cases "manifestHosts parse declared []") (auto simp: parseManifest_def raw i name version)
  obtain u where u: "manifestUpdateUrl parse href (jsonField raw ''updateUrl'') = Some u"
    using assms declared by (cases "manifestUpdateUrl parse href (jsonField raw ''updateUrl'')") (auto simp: parseManifest_def raw i name version hosts)
  have "m = \<lparr>mf_id = i, mf_name = name, mf_version = version, mf_hosts = hosts, mf_updateUrl = u\<rparr>"
    using assms declared by (simp add: parseManifest_def raw i name version hosts u)
  then show ?thesis using i hosts declared by auto
qed

text \<open>a manifest that is read is one the policy can hold a plugin to. Its id is short and plain, it has between one and sixteen distinct hosts, and the policy lets an https address through exactly for those hosts, spelt as they are declared: any declared host that is not the page's own and not under localhost can be reached, and no other host can.\<close>

theorem manifest_and_policy_agree:
  assumes "parseManifest parse href v = Some m"
    and "parse raw = Some url" "ul_protocol url = ''https:''" "parse selfOrigin = Some self"
    and "normalizeHost (ul_hostname url) \<noteq> normalizeHost (ul_hostname self)" "\<not> endsWith (normalizeHost (ul_hostname url)) ''.localhost''"
  shows "isPluginId (mf_id m) \<and> distinct (mf_hosts m) \<and> 1 \<le> length (mf_hosts m) \<and> length (mf_hosts m) \<le> MAX_HOSTS
     \<and> ((\<exists>u. checkFetchUrl parse raw (mf_hosts m) selfOrigin = Inr u) \<longleftrightarrow> normalizeHost (ul_hostname url) \<in> set (mf_hosts m))"
proof -
  obtain declared hosts where hosts: "manifestHosts parse declared [] = Some hosts" "mf_hosts m = hosts"
      "declared \<noteq> []" "length declared \<le> MAX_HOSTS" "isPluginId (mf_id m)"
    using parseManifest_Some [OF assms(1)] by auto
  have ok: "list_all hostOk hosts" "distinct hosts" "length hosts \<le> length declared" "hosts \<noteq> []"
    using manifestHosts_ok [OF hosts(1)] hosts(3) by auto
  have "\<not> isPrivateHostname (normalizeHost (ul_hostname url))" if "normalizeHost (ul_hostname url) \<in> set hosts"
    using that ok(1) hostOk_policy(2) assms(6) by (auto simp: list_all_iff)
  then have "(\<exists>u. checkFetchUrl parse raw hosts selfOrigin = Inr u) \<longleftrightarrow> normalizeHost (ul_hostname url) \<in> set hosts"
    using assms(2-5) by (auto simp: checkFetchUrl_def Let_def)
  moreover have "1 \<le> length hosts" using ok(4) by (cases hosts) auto
  ultimately show ?thesis using hosts ok by auto
qed

lemma manifest_and_policy_agree_witness:
  "\<exists>parse href v m. parseManifest parse href v = Some m \<and> mf_hosts m = [''api.example.org'']
     \<and> (\<exists>u. checkFetchUrl parse ''https://api.example.org'' (mf_hosts m) ''https://juntos.lol'' = Inr u)"
proof -
  let ?parse = "\<lambda>s. case stripPrefix ''https://'' s of None \<Rightarrow> None
     | Some h \<Rightarrow> Some \<lparr>ul_protocol = ''https:'', ul_hostname = h, ul_pathname = ''/'', ul_username = [], ul_password = [], ul_rest = []\<rparr>"
  let ?href = "\<lambda>url. ''https://'' @ ul_hostname url @ ul_pathname url"
  let ?v = "JObj [(''id'', JStr ''plug''), (''name'', JStr '' Plug ''), (''version'', JStr ''1.0''), (''hosts'', JList [JStr ''API.example.org'', JStr ''api.example.org''])]"
  let ?m = "\<lparr>mf_id = ''plug'', mf_name = ''Plug'', mf_version = ''1.0'', mf_hosts = [''api.example.org''], mf_updateUrl = None\<rparr>"
  let ?url = "\<lparr>ul_protocol = ''https:'', ul_hostname = ''api.example.org'', ul_pathname = ''/'', ul_username = [], ul_password = [], ul_rest = []\<rparr>"
  let ?self = "\<lparr>ul_protocol = ''https:'', ul_hostname = ''juntos.lol'', ul_pathname = ''/'', ul_username = [], ul_password = [], ul_rest = []\<rparr>"
  have read: "parseManifest ?parse ?href ?v = Some ?m" by code_simp
  have urls: "?parse ''https://api.example.org'' = Some ?url" "?parse ''https://juntos.lol'' = Some ?self" by code_simp+
  have hosts: "normalizeHost (ul_hostname ?url) \<noteq> normalizeHost (ul_hostname ?self)"
    "\<not> endsWith (normalizeHost (ul_hostname ?url)) ''.localhost''" "normalizeHost (ul_hostname ?url) \<in> set (mf_hosts ?m)"
    by code_simp+
  have https: "ul_protocol ?url = ''https:''" by simp
  have "\<exists>u. checkFetchUrl ?parse ''https://api.example.org'' (mf_hosts ?m) ''https://juntos.lol'' = Inr u"
    using manifest_and_policy_agree [OF read urls(1) https urls(2) hosts(1,2)] hosts(3) by blast
  then have "parseManifest ?parse ?href ?v = Some ?m \<and> mf_hosts ?m = [''api.example.org'']
     \<and> (\<exists>u. checkFetchUrl ?parse ''https://api.example.org'' (mf_hosts ?m) ''https://juntos.lol'' = Inr u)"
    using read by (intro conjI) simp_all
  then show ?thesis by (intro exI)
qed

section \<open>Where a plugin comes from (install.ts)\<close>

definition isSegmentChar :: "char \<Rightarrow> bool" where
  "isSegmentChar c \<longleftrightarrow> isLowAlnum c \<or> c \<in> {CHR ''.'', CHR ''_'', CHR ''-''}"

text \<open>\<open>SEGMENT\<close> without \<open>DOTS\<close>.\<close>

definition isRepoPart :: "string \<Rightarrow> bool" where
  "isRepoPart part \<longleftrightarrow> part \<noteq> [] \<and> \<not> list_all (\<lambda>c. c = CHR ''.'') part \<and> list_all isSegmentChar part"

text \<open>\<open>DOT_SEGMENT\<close>: a slash, one or two dots, each written plainly or as \<open>%2e\<close>, and the end of the segment.\<close>

definition dotUnit :: "string \<Rightarrow> string option" where
  "dotUnit s =
     (if startsWith s ''.'' then Some (drop 1 s) else if startsWith (lower s) ''%2e'' then Some (drop 3 s) else None)"

definition segmentEnds :: "string \<Rightarrow> bool" where
  "segmentEnds s \<longleftrightarrow> (case s of [] \<Rightarrow> True | c # _ \<Rightarrow> c \<in> {CHR ''/'', CHR ''?'', CHR ''#''})"

definition dotSegmentHere :: "string \<Rightarrow> bool" where
  "dotSegmentHere s \<longleftrightarrow>
     (case dotUnit s of None \<Rightarrow> False
      | Some r \<Rightarrow> segmentEnds r \<or> (case dotUnit r of None \<Rightarrow> False | Some r' \<Rightarrow> segmentEnds r'))"

fun hasDotSegment :: "string \<Rightarrow> bool" where
  "hasDotSegment [] \<longleftrightarrow> False"
| "hasDotSegment (c # s) \<longleftrightarrow> (c = CHR ''/'' \<and> dotSegmentHere s) \<or> hasDotSegment s"

definition dropGit :: "string \<Rightarrow> string" where
  "dropGit s = (if endsWith (lower s) ''.git'' then take (length s - 4) s else s)"

definition repoParts :: "(string \<Rightarrow> plugin_url option) \<Rightarrow> string \<Rightarrow> string + string \<times> string" where
  "repoParts parse repoUrl =
     (case parse repoUrl of
        None \<Rightarrow> Inl ''plugin source: not a URL''
      | Some url \<Rightarrow>
          if ul_protocol url \<noteq> ''https:'' then Inl ''plugin source: must be https''
          else if normalizeHost (ul_hostname url) \<noteq> ''github.com'' then Inl ''plugin source: only github repositories are supported''
          else if hasDotSegment repoUrl then Inl ''plugin source: path must name a repository directly''
          else (case filter (\<lambda>p. p \<noteq> []) (splitOn (CHR ''/'') (ul_pathname url)) of
                  p # q # _ \<Rightarrow>
                    let owner = lower p; repo = lower (dropGit q)
                    in if isRepoPart owner \<and> isRepoPart repo then Inr (owner, repo) else Inl ''plugin source: not a repository path''
                | _ \<Rightarrow> Inl ''plugin source: not a repository path''))"

definition canonicalRepoUrl :: "(string \<Rightarrow> plugin_url option) \<Rightarrow> string \<Rightarrow> string + string" where
  "canonicalRepoUrl parse repoUrl =
     (case repoParts parse repoUrl of Inl e \<Rightarrow> Inl e | Inr (owner, repo) \<Rightarrow> Inr (''https://github.com/'' @ owner @ ''/'' @ repo))"

definition gitSourceUrls :: "(string \<Rightarrow> plugin_url option) \<Rightarrow> string \<Rightarrow> string + string \<times> string" where
  "gitSourceUrls parse repoUrl =
     (case repoParts parse repoUrl of
        Inl e \<Rightarrow> Inl e
      | Inr (owner, repo) \<Rightarrow>
          Inr (''https://raw.githubusercontent.com/'' @ owner @ ''/'' @ repo @ ''/HEAD/plugin.js'',
               ''https://api.github.com/repos/'' @ owner @ ''/'' @ repo @ ''/commits/HEAD''))"

definition MAX_SOURCE_BYTES :: nat where "MAX_SOURCE_BYTES = 1048576"

text \<open>\<open>readCapped\<close> (\<open>plugins/spawn.ts\<close>): the chunks of a body up to \<open>limit\<close> bytes; \<open>decode\<close> is the browser's UTF-8 decoder.\<close>

fun cappedBytes :: "nat \<Rightarrow> nat \<Rightarrow> 'b list list \<Rightarrow> 'b list" where
  "cappedBytes limit seen [] = []"
| "cappedBytes limit seen (v # vs) =
     (let seen' = seen + length v
      in if limit < seen' then take (length v - (seen' - limit)) v else v @ cappedBytes limit seen' vs)"

definition readCapped :: "('b list \<Rightarrow> string) \<Rightarrow> nat \<Rightarrow> 'b list list \<Rightarrow> string" where
  "readCapped decode limit chunks = decode (cappedBytes limit 0 chunks)"

lemma cappedBytes_take: "seen \<le> limit \<Longrightarrow> cappedBytes limit seen chunks = take (limit - seen) (concat chunks)"
proof (induction limit seen chunks rule: cappedBytes.induct)
  case (2 limit seen v vs)
  show ?case
  proof (cases "limit < seen + length v")
    case True
    then have "length v - (seen + length v - limit) = limit - seen" using "2.prems" by simp
    with True show ?thesis by (simp add: Let_def)
  qed (use 2 in \<open>simp add: Let_def\<close>)
qed simp

text \<open>A response is whether it is \<open>ok\<close> and its chunks; \<open>None\<close> is a request that fails. The commit's answer is the body it parses to.\<close>

definition fetchGitPlugin ::
  "(string \<Rightarrow> plugin_url option) \<Rightarrow> ('b list \<Rightarrow> string) \<Rightarrow> string \<Rightarrow> (bool \<times> 'b list list) option \<Rightarrow> json option \<Rightarrow> string + string \<times> string" where
  "fetchGitPlugin parse decode repoUrl sourceResponse commitBody =
     (case gitSourceUrls parse repoUrl of
        Inl e \<Rightarrow> Inl e
      | Inr _ \<Rightarrow>
          (case sourceResponse of
             None \<Rightarrow> Inl ''failed to fetch''
           | Some (ok, chunks) \<Rightarrow>
               if \<not> ok then Inl ''plugin source: repository has no plugin.js''
               else let source = readCapped decode (MAX_SOURCE_BYTES + 1) chunks
                    in if MAX_SOURCE_BYTES < length source then Inl ''plugin source: plugin.js is too large''
                       else if trim source = [] then Inl ''plugin source: plugin.js is empty''
                       else Inr (source,
                         (case commitBody of
                            Some (JObj raw) \<Rightarrow> (case jsonField raw ''sha'' of Some (JStr sha) \<Rightarrow> sha | _ \<Rightarrow> [])
                          | _ \<Rightarrow> []))))"

lemma repoParts_ok: "repoParts parse repoUrl = Inr (owner, repo) \<Longrightarrow> isRepoPart owner \<and> isRepoPart repo"
  by (auto simp: repoParts_def Let_def split: option.splits if_splits list.splits)

text \<open>The addresses a plugin is fetched from: a host of GitHub, and two plain segments that name the repository.\<close>

lemma sources_stay_on_github:
  assumes "gitSourceUrls parse repoUrl = Inr (raw, api)"
  shows "\<exists>owner repo. isRepoPart owner \<and> isRepoPart repo
     \<and> CHR ''/'' \<notin> set (owner @ repo) \<and> owner \<notin> {''.'', ''..''} \<and> repo \<notin> {''.'', ''..''}
     \<and> raw = ''https://raw.githubusercontent.com/'' @ owner @ ''/'' @ repo @ ''/HEAD/plugin.js''
     \<and> api = ''https://api.github.com/repos/'' @ owner @ ''/'' @ repo @ ''/commits/HEAD''"
proof -
  obtain owner repo where parts: "repoParts parse repoUrl = Inr (owner, repo)"
      "raw = ''https://raw.githubusercontent.com/'' @ owner @ ''/'' @ repo @ ''/HEAD/plugin.js''"
      "api = ''https://api.github.com/repos/'' @ owner @ ''/'' @ repo @ ''/commits/HEAD''"
    using assms by (auto simp: gitSourceUrls_def split: sum.splits)
  have plain: "CHR ''/'' \<notin> set p \<and> p \<notin> {''.'', ''..''}" if "isRepoPart p" for p
    using that by (auto simp: isRepoPart_def isSegmentChar_def isLowAlnum_def isDigit_def codeOf_def list_all_iff)
  show ?thesis using parts repoParts_ok [OF parts(1)] plain by auto
qed

text \<open>
  The size of a source is checked in characters after it was cut in bytes: one
  character of two bytes is enough for a source of any size to pass, cut short.
\<close>

theorem long_source_is_cut_not_refused:
  assumes "repoParts parse repoUrl = Inr parts" "MAX_SOURCE_BYTES + 1 < length (concat chunks)"
    and "length (decode (take (MAX_SOURCE_BYTES + 1) (concat chunks))) \<le> MAX_SOURCE_BYTES"
    and "trim (decode (take (MAX_SOURCE_BYTES + 1) (concat chunks))) \<noteq> []"
  shows "\<exists>commit. fetchGitPlugin parse decode repoUrl (Some (True, chunks)) body
     = Inr (decode (take (MAX_SOURCE_BYTES + 1) (concat chunks)), commit)"
proof -
  have "readCapped decode (MAX_SOURCE_BYTES + 1) chunks = decode (take (MAX_SOURCE_BYTES + 1) (concat chunks))"
    by (simp add: readCapped_def cappedBytes_take)
  then show ?thesis
    using assms(1,3,4) by (cases parts) (auto simp: fetchGitPlugin_def gitSourceUrls_def Let_def)
qed

section \<open>What is kept (store.ts, buildInstall)\<close>

datatype plugin_origin = FileOrigin string "string option" | GitOrigin string string

record pending_update =
  pu_source :: string
  pu_sha256 :: string
  pu_manifest :: plugin_manifest
  pu_commit :: string
  pu_newHosts :: "string list"

record installed_plugin =
  ip_id :: string
  ip_manifest :: plugin_manifest
  ip_source :: string
  ip_sha256 :: string
  ip_origin :: plugin_origin
  ip_approvedHosts :: "string list"
  ip_enabled :: bool
  ip_pending :: "pending_update option"
  ip_installedAt :: nat

definition originKey :: "plugin_origin \<Rightarrow> string" where
  "originKey origin = (case origin of GitOrigin updateUrl _ \<Rightarrow> ''git:'' @ updateUrl | FileOrigin fileName _ \<Rightarrow> ''file:'' @ fileName)"

definition originId :: "(string \<Rightarrow> string) \<Rightarrow> plugin_origin \<Rightarrow> string" where
  "originId digest origin = digest (originKey origin)"

type_synonym plugin_store = "(string, installed_plugin) jsmap"

definition listPlugins :: "plugin_store \<Rightarrow> installed_plugin list" where
  "listPlugins store = map snd store"

definition getPlugin :: "plugin_store \<Rightarrow> string \<Rightarrow> installed_plugin option" where
  "getPlugin store i = mapGet store i"

definition putPlugin :: "installed_plugin \<Rightarrow> plugin_store \<Rightarrow> plugin_store" where
  "putPlugin plugin store = mapSet (ip_id plugin) plugin store"

definition deletePlugin :: "string \<Rightarrow> plugin_store \<Rightarrow> plugin_store" where
  "deletePlugin i store = mapDelete i store"

definition homeOf :: "(string \<Rightarrow> plugin_url option) \<Rightarrow> string option \<Rightarrow> string option" where
  "homeOf parse updateUrl =
     (case updateUrl of
        None \<Rightarrow> None
      | Some u \<Rightarrow> if u = [] then None else (case canonicalRepoUrl parse u of Inl _ \<Rightarrow> None | Inr home \<Rightarrow> Some home))"

definition buildInstall ::
  "(string \<Rightarrow> plugin_url option) \<Rightarrow> (string \<Rightarrow> string) \<Rightarrow> string \<Rightarrow> plugin_origin \<Rightarrow> plugin_manifest \<Rightarrow> nat \<Rightarrow> string + installed_plugin" where
  "buildInstall parse digest source origin manifest now =
     (case (case origin of
              FileOrigin fileName updateUrl \<Rightarrow>
                Inr (FileOrigin fileName (if updateUrl = None then homeOf parse (mf_updateUrl manifest) else updateUrl))
            | GitOrigin updateUrl commit \<Rightarrow>
                (case canonicalRepoUrl parse updateUrl of Inl e \<Rightarrow> Inl e | Inr u \<Rightarrow> Inr (GitOrigin u commit))) of
        Inl e \<Rightarrow> Inl e
      | Inr resolved \<Rightarrow>
          Inr \<lparr>ip_id = originId digest resolved, ip_manifest = manifest, ip_source = source, ip_sha256 = digest source,
               ip_origin = resolved, ip_approvedHosts = mf_hosts manifest, ip_enabled = True, ip_pending = None,
               ip_installedAt = now\<rparr>)"

section \<open>Updates (update.ts)\<close>

datatype update_outcome = Unchanged | Applied string | Held "string list" | OriginChanged | UpdateFailed

definition updateUrlOf :: "installed_plugin \<Rightarrow> string option" where
  "updateUrlOf plugin = (case ip_origin plugin of FileOrigin _ u \<Rightarrow> u | GitOrigin u _ \<Rightarrow> Some u)"

text \<open>A locked address that names no repository raises, \<open>None\<close>; a declared one that does not is only different.\<close>

definition sameOrigin :: "(string \<Rightarrow> plugin_url option) \<Rightarrow> string \<Rightarrow> string \<Rightarrow> bool option" where
  "sameOrigin parse declared locked =
     (case canonicalRepoUrl parse locked of
        Inl _ \<Rightarrow> None
      | Inr home \<Rightarrow> Some (canonicalRepoUrl parse declared = Inr home))"

definition widenedHosts :: "plugin_manifest \<Rightarrow> string list \<Rightarrow> string list" where
  "widenedHosts manifest approved = filter (\<lambda>h. h \<notin> set approved) (mf_hosts manifest)"

definition withCommit :: "plugin_origin \<Rightarrow> string \<Rightarrow> plugin_origin" where
  "withCommit origin commit = (case origin of GitOrigin u _ \<Rightarrow> GitOrigin u commit | FileOrigin f u \<Rightarrow> FileOrigin f u)"

text \<open>What one check saves, if anything, and its outcome once that is saved; \<open>fetched\<close> is what \<open>fetchGit\<close> gave and \<open>manifest\<close> what its source says of itself, \<open>None\<close> where they throw.\<close>

definition updatePlugin ::
  "(string \<Rightarrow> plugin_url option) \<Rightarrow> (string \<Rightarrow> string) \<Rightarrow> installed_plugin \<Rightarrow> (string \<times> string) option \<Rightarrow> plugin_manifest option
   \<Rightarrow> installed_plugin option \<times> update_outcome" where
  "updatePlugin parse digest plugin fetched manifest =
     (case updateUrlOf plugin of
        None \<Rightarrow> (None, Unchanged)
      | Some address \<Rightarrow>
          if address = [] then (None, Unchanged)
          else (case fetched of
             None \<Rightarrow> (None, UpdateFailed)
           | Some (source, commit) \<Rightarrow>
               if digest source = ip_sha256 plugin then
                 (case ip_origin plugin of
                    GitOrigin u c \<Rightarrow>
                      if commit \<noteq> [] \<and> commit \<noteq> c then (Some (plugin\<lparr>ip_origin := GitOrigin u commit\<rparr>), Unchanged)
                      else (None, Unchanged)
                  | FileOrigin _ _ \<Rightarrow> (None, Unchanged))
               else (case manifest of
                  None \<Rightarrow> (None, UpdateFailed)
                | Some m \<Rightarrow>
                    (case (case mf_updateUrl m of None \<Rightarrow> Some True | Some declared \<Rightarrow> sameOrigin parse declared address) of
                       None \<Rightarrow> (None, UpdateFailed)
                     | Some False \<Rightarrow> (None, OriginChanged)
                     | Some True \<Rightarrow>
                         let newHosts = widenedHosts m (ip_approvedHosts plugin)
                         in if newHosts \<noteq> []
                            then (Some (plugin\<lparr>ip_pending := Some \<lparr>pu_source = source, pu_sha256 = digest source, pu_manifest = m,
                                    pu_commit = commit, pu_newHosts = newHosts\<rparr>\<rparr>), Held newHosts)
                            else (Some (plugin\<lparr>ip_manifest := m, ip_source := source, ip_sha256 := digest source,
                                    ip_approvedHosts := filter (\<lambda>h. h \<in> set (mf_hosts m)) (ip_approvedHosts plugin),
                                    ip_origin := withCommit (ip_origin plugin) commit, ip_pending := None\<rparr>), Applied (mf_version m))))))"

definition approvePendingUpdate :: "installed_plugin \<Rightarrow> installed_plugin option" where
  "approvePendingUpdate plugin =
     (case ip_pending plugin of
        None \<Rightarrow> None
      | Some pending \<Rightarrow>
          Some (plugin\<lparr>ip_manifest := pu_manifest pending, ip_source := pu_source pending, ip_sha256 := pu_sha256 pending,
                  ip_origin := withCommit (ip_origin plugin) (pu_commit pending),
                  ip_approvedHosts := mf_hosts (pu_manifest pending), ip_pending := None\<rparr>))"

section \<open>The plugins of a page\<close>

text \<open>
  The registry, the list the panel shows, the checks under way, each with the
  plugin it was started for, and, for the proofs only, \<open>pp_agreed\<close>: which
  hosts the user was shown for which plugin when they installed it or approved
  a held update.
\<close>

record plugin_page =
  pp_store :: plugin_store
  pp_shown :: "installed_plugin list"
  pp_checks :: "(nat \<times> installed_plugin) list"
  pp_made :: nat
  pp_agreed :: "(string \<times> string) list"

datatype plugin_event =
    Confirmed string plugin_origin plugin_manifest nat
  | PanelRefreshed
  | PluginToggled nat
  | PluginRemoved nat
  | UpdateApproved nat
  | UpdateAllAsked
  | CheckEnded nat "(string \<times> string) option" "plugin_manifest option" bool

definition emptyPlugins :: plugin_page where
  "emptyPlugins = \<lparr>pp_store = [], pp_shown = [], pp_checks = [], pp_made = 0, pp_agreed = []\<rparr>"

definition shownAt :: "nat \<Rightarrow> plugin_page \<Rightarrow> installed_plugin option" where
  "shownAt k page = (if k < length (pp_shown page) then Some (pp_shown page ! k) else None)"

definition saved :: "installed_plugin \<Rightarrow> plugin_page \<Rightarrow> plugin_page" where
  "saved plugin page = page\<lparr>pp_store := putPlugin plugin (pp_store page)\<rparr>"

definition agreeing :: "installed_plugin \<Rightarrow> string list \<Rightarrow> plugin_page \<Rightarrow> plugin_page" where
  "agreeing plugin hosts page = page\<lparr>pp_agreed := map (Pair (ip_id plugin)) hosts @ pp_agreed page\<rparr>"

fun pluginStep :: "(string \<Rightarrow> plugin_url option) \<Rightarrow> (string \<Rightarrow> string) \<Rightarrow> plugin_page \<Rightarrow> plugin_event \<Rightarrow> plugin_page" where
  "pluginStep parse digest page (Confirmed source origin manifest now) =
     (case buildInstall parse digest source origin manifest now of
        Inl _ \<Rightarrow> page
      | Inr plugin \<Rightarrow> saved plugin (agreeing plugin (mf_hosts manifest) page))"
| "pluginStep parse digest page PanelRefreshed = page\<lparr>pp_shown := listPlugins (pp_store page)\<rparr>"
| "pluginStep parse digest page (PluginToggled k) =
     (case shownAt k page of None \<Rightarrow> page | Some plugin \<Rightarrow> saved (plugin\<lparr>ip_enabled := \<not> ip_enabled plugin\<rparr>) page)"
| "pluginStep parse digest page (PluginRemoved k) =
     (case shownAt k page of None \<Rightarrow> page | Some plugin \<Rightarrow> page\<lparr>pp_store := deletePlugin (ip_id plugin) (pp_store page)\<rparr>)"
| "pluginStep parse digest page (UpdateApproved k) =
     (case shownAt k page of
        None \<Rightarrow> page
      | Some plugin \<Rightarrow>
          (case (ip_pending plugin, approvePendingUpdate plugin) of
             (Some pending, Some applied) \<Rightarrow> saved applied (agreeing plugin (pu_newHosts pending) page)
           | _ \<Rightarrow> page))"
| "pluginStep parse digest page UpdateAllAsked =
     (let plugins = listPlugins (pp_store page)
      in page\<lparr>pp_checks := pp_checks page @ zip [pp_made page..<pp_made page + length plugins] plugins,
              pp_made := pp_made page + length plugins\<rparr>)"
| "pluginStep parse digest page (CheckEnded k fetched manifest stored) =
     (case mapGet (pp_checks page) k of
        None \<Rightarrow> page
      | Some plugin \<Rightarrow>
          let page' = page\<lparr>pp_checks := mapDelete k (pp_checks page)\<rparr>
          in (case fst (updatePlugin parse digest plugin fetched manifest) of
                Some plugin' \<Rightarrow> if stored then saved plugin' page' else page'
              | None \<Rightarrow> page'))"

definition pluginOk :: "(string \<Rightarrow> string) \<Rightarrow> (string \<times> string) set \<Rightarrow> installed_plugin \<Rightarrow> bool" where
  "pluginOk digest agreed p \<longleftrightarrow>
     ip_id p = originId digest (ip_origin p) \<and> ip_sha256 p = digest (ip_source p)
     \<and> set (ip_approvedHosts p) = set (mf_hosts (ip_manifest p)) \<and> (\<forall>h \<in> set (ip_approvedHosts p). (ip_id p, h) \<in> agreed)
     \<and> (case ip_pending p of
          None \<Rightarrow> True
        | Some q \<Rightarrow> pu_sha256 q = digest (pu_source q) \<and> pu_newHosts q \<noteq> []
            \<and> set (pu_newHosts q) = set (mf_hosts (pu_manifest q)) - set (ip_approvedHosts p))"

text \<open>Every plugin the page can still save, and its place in the registry.\<close>

definition pagePlugins :: "plugin_page \<Rightarrow> installed_plugin set" where
  "pagePlugins page = snd ` set (pp_store page) \<union> set (pp_shown page) \<union> snd ` set (pp_checks page)"

definition pageOk :: "(string \<Rightarrow> string) \<Rightarrow> plugin_page \<Rightarrow> bool" where
  "pageOk digest page \<longleftrightarrow>
     (\<forall>p \<in> pagePlugins page. pluginOk digest (set (pp_agreed page)) p)
     \<and> (\<forall>(i, p) \<in> set (pp_store page). ip_id p = i)"

lemma pluginOk_mono: "pluginOk digest agreed p \<Longrightarrow> agreed \<subseteq> agreed' \<Longrightarrow> pluginOk digest agreed' p"
  by (auto simp: pluginOk_def split: option.splits)

lemma originKey_withCommit [simp]: "originKey (withCommit origin commit) = originKey origin"
  by (simp add: originKey_def withCommit_def split: plugin_origin.splits)

lemma buildInstall_ok:
  assumes "buildInstall parse digest source origin manifest now = Inr p"
  shows "pluginOk digest (Pair (ip_id p) ` set (mf_hosts manifest)) p" "ip_approvedHosts p = mf_hosts manifest"
  using assms by (auto simp: buildInstall_def pluginOk_def split: sum.splits)

lemma updatePlugin_saves:
  assumes "fst (updatePlugin parse digest p fetched manifest) = Some p'"
  shows "(\<exists>u c commit. ip_origin p = GitOrigin u c \<and> p' = p\<lparr>ip_origin := GitOrigin u commit\<rparr>)
     \<or> (\<exists>source m commit. widenedHosts m (ip_approvedHosts p) \<noteq> []
          \<and> p' = p\<lparr>ip_pending := Some \<lparr>pu_source = source, pu_sha256 = digest source, pu_manifest = m, pu_commit = commit,
                 pu_newHosts = widenedHosts m (ip_approvedHosts p)\<rparr>\<rparr>)
     \<or> (\<exists>source m commit. widenedHosts m (ip_approvedHosts p) = []
          \<and> p' = p\<lparr>ip_manifest := m, ip_source := source, ip_sha256 := digest source,
                 ip_approvedHosts := filter (\<lambda>h. h \<in> set (mf_hosts m)) (ip_approvedHosts p),
                 ip_origin := withCommit (ip_origin p) commit, ip_pending := None\<rparr>)"
  using assms unfolding updatePlugin_def Let_def
  by (simp split: option.splits if_splits plugin_origin.splits bool.splits prod.splits) metis+

lemma updatePlugin_ok:
  assumes "fst (updatePlugin parse digest p fetched manifest) = Some p'" "pluginOk digest agreed p"
  shows "pluginOk digest agreed p' \<and> ip_id p' = ip_id p \<and> set (ip_approvedHosts p') \<subseteq> set (ip_approvedHosts p)
     \<and> ip_enabled p' = ip_enabled p \<and> originKey (ip_origin p') = originKey (ip_origin p)"
  using updatePlugin_saves [OF assms(1)]
proof (elim disjE exE conjE)
  fix u c commit
  assume "ip_origin p = GitOrigin u c" "p' = p\<lparr>ip_origin := GitOrigin u commit\<rparr>"
  then show ?thesis using assms(2) by (cases "ip_pending p") (auto simp: pluginOk_def originId_def originKey_def)
next
  fix source m commit
  assume "widenedHosts m (ip_approvedHosts p) \<noteq> []"
    "p' = p\<lparr>ip_pending := Some \<lparr>pu_source = source, pu_sha256 = digest source, pu_manifest = m, pu_commit = commit,
       pu_newHosts = widenedHosts m (ip_approvedHosts p)\<rparr>\<rparr>"
  then show ?thesis using assms(2) by (auto simp: pluginOk_def widenedHosts_def)
next
  fix source m commit
  assume none: "widenedHosts m (ip_approvedHosts p) = []"
    and p': "p' = p\<lparr>ip_manifest := m, ip_source := source, ip_sha256 := digest source,
       ip_approvedHosts := filter (\<lambda>h. h \<in> set (mf_hosts m)) (ip_approvedHosts p),
       ip_origin := withCommit (ip_origin p) commit, ip_pending := None\<rparr>"
  have "set (mf_hosts m) \<subseteq> set (ip_approvedHosts p)"
    using none by (auto simp: widenedHosts_def filter_empty_conv)
  then show ?thesis using assms(2) p' by (auto simp: pluginOk_def originId_def)
qed

lemma approvePendingUpdate_ok:
  assumes "approvePendingUpdate p = Some p'" "ip_pending p = Some pending" "pluginOk digest agreed p"
  shows "pluginOk digest (Pair (ip_id p) ` set (pu_newHosts pending) \<union> agreed) p' \<and> ip_id p' = ip_id p"
  using assms by (auto simp: approvePendingUpdate_def pluginOk_def originId_def)

lemma saved_keeps:
  assumes "pageOk digest page" "pluginOk digest (set (pp_agreed page)) p"
  shows "pageOk digest (saved p page)"
proof -
  have sub: "set (pp_store (saved p page)) \<subseteq> insert (ip_id p, p) (set (pp_store page))"
    using set_mapSet_subset [of "ip_id p" p "pp_store page"] by (simp add: saved_def putPlugin_def)
  have "pp_shown (saved p page) = pp_shown page" "pp_checks (saved p page) = pp_checks page" "pp_agreed (saved p page) = pp_agreed page"
    by (simp_all add: saved_def)
  moreover have "pagePlugins (saved p page) \<subseteq> insert p (pagePlugins page)"
    using sub calculation by (auto simp: pagePlugins_def)
  ultimately show ?thesis using assms sub by (auto simp: pageOk_def)
qed

lemma pageOk_fewer:
  assumes "pageOk digest page" "pagePlugins page' \<subseteq> pagePlugins page" "set (pp_store page') \<subseteq> set (pp_store page)"
    and "pp_agreed page' = pp_agreed page"
  shows "pageOk digest page'"
proof -
  have "\<forall>p \<in> pagePlugins page'. pluginOk digest (set (pp_agreed page')) p" using assms(1,2,4) by (auto simp: pageOk_def)
  moreover have "\<forall>(i, p) \<in> set (pp_store page'). ip_id p = i" using assms(1,3) by (auto simp: pageOk_def)
  ultimately show ?thesis by (simp add: pageOk_def)
qed

lemma set_mapDelete: "set (mapDelete k m) \<subseteq> set m"
  by (auto simp: AList.delete_eq)

lemma agreeing_keeps: "pageOk digest page \<Longrightarrow> pageOk digest (agreeing p hosts page)"
  by (auto simp: pageOk_def agreeing_def pagePlugins_def intro: pluginOk_mono)

lemma shownAt_ok: "pageOk digest page \<Longrightarrow> shownAt k page = Some p \<Longrightarrow> pluginOk digest (set (pp_agreed page)) p"
  by (auto simp: pageOk_def shownAt_def pagePlugins_def split: if_splits)

lemma pluginOk_enabled [simp]: "pluginOk digest agreed (p\<lparr>ip_enabled := e\<rparr>) = pluginOk digest agreed p"
  by (cases "ip_pending p") (simp_all add: pluginOk_def)

lemma pluginStep_keeps:
  assumes "pageOk digest page"
  shows "pageOk digest (pluginStep parse digest page ev)"
proof (cases ev)
  case (Confirmed source origin manifest now)
  show ?thesis
  proof (cases "buildInstall parse digest source origin manifest now")
    case (Inr p)
    have "pluginOk digest (set (pp_agreed (agreeing p (mf_hosts manifest) page))) p"
      by (rule pluginOk_mono [OF buildInstall_ok(1) [OF Inr]]) (auto simp: agreeing_def)
    then show ?thesis using assms Confirmed Inr by (simp add: saved_keeps agreeing_keeps)
  qed (use assms Confirmed in simp)
next
  case PanelRefreshed
  with assms show ?thesis by (auto simp: pageOk_def pagePlugins_def listPlugins_def)
next
  case (PluginToggled k)
  with assms show ?thesis by (auto intro!: saved_keeps dest: shownAt_ok split: option.splits)
next
  case (PluginRemoved k)
  have "pageOk digest (page\<lparr>pp_store := mapDelete i (pp_store page)\<rparr>)" for i
    using set_mapDelete [of i "pp_store page"] by (intro pageOk_fewer [OF assms]) (auto simp: pagePlugins_def)
  with assms PluginRemoved show ?thesis by (simp add: deletePlugin_def split: option.splits)
next
  case (UpdateApproved k)
  show ?thesis
  proof (cases "shownAt k page")
    case (Some p)
    show ?thesis
    proof (cases "ip_pending p")
      case None
      then show ?thesis using assms UpdateApproved Some by simp
    next
      case pending: (Some q)
      obtain p' where p': "approvePendingUpdate p = Some p'" by (simp add: approvePendingUpdate_def pending)
      have "pluginOk digest (set (pp_agreed (agreeing p (pu_newHosts q) page))) p'"
        using approvePendingUpdate_ok [OF p' pending shownAt_ok [OF assms Some]] by (auto simp: agreeing_def intro: pluginOk_mono)
      then show ?thesis using assms UpdateApproved Some pending p' by (simp add: saved_keeps agreeing_keeps)
    qed
  qed (use assms UpdateApproved in simp)
next
  case UpdateAllAsked
  with assms show ?thesis
    by (auto simp: pageOk_def pagePlugins_def Let_def listPlugins_def dest!: set_zip_rightD)
next
  case (CheckEnded k fetched manifest stored)
  show ?thesis
  proof (cases "mapGet (pp_checks page) k")
    case (Some p)
    have page': "pageOk digest (page\<lparr>pp_checks := mapDelete k (pp_checks page)\<rparr>)"
      using set_mapDelete [of k "pp_checks page"] by (intro pageOk_fewer [OF assms]) (auto simp: pagePlugins_def)
    have "p \<in> pagePlugins page" using imageI [OF map_of_SomeD [OF Some], of snd] by (simp add: pagePlugins_def)
    then have "pluginOk digest (set (pp_agreed page)) p" using assms by (simp add: pageOk_def)
    then have "pluginOk digest (set (pp_agreed page)) p'" if "fst (updatePlugin parse digest p fetched manifest) = Some p'" for p'
      using updatePlugin_ok [OF that] by blast
    then show ?thesis using CheckEnded Some page' by (auto simp: Let_def saved_keeps split: option.splits)
  qed (use assms CheckEnded in simp)
qed

interpretation plugin_pages: component "pluginStep parse digest" "pageOk digest"
  by unfold_locales (rule pluginStep_keeps)

text \<open>C25: what a plugin may reach, its user has agreed to. Whatever is installed, checked for updates, held, approved, switched off and removed, and however a check ends after the plugin it was started for has changed: every plugin in the registry is under the id of the place it was installed from, its digest is its source's, it is held to exactly the hosts its manifest names, and each of those was shown to the user when they installed that plugin or approved an update of it.\<close>

theorem hosts_were_agreed_to:
  assumes "(i, p) \<in> set (pp_store (foldl (pluginStep parse digest) emptyPlugins events))"
  shows "i = originId digest (ip_origin p) \<and> ip_sha256 p = digest (ip_source p)
     \<and> set (ip_approvedHosts p) = set (mf_hosts (ip_manifest p))
     \<and> (\<forall>h \<in> set (ip_approvedHosts p). (i, h) \<in> set (pp_agreed (foldl (pluginStep parse digest) emptyPlugins events)))"
proof -
  have start: "pageOk digest emptyPlugins" by (simp add: pageOk_def pagePlugins_def emptyPlugins_def)
  have "pageOk digest (foldl (pluginStep parse digest) emptyPlugins events)" by (rule plugin_pages.run_keeps [OF start])
  moreover have "p \<in> pagePlugins (foldl (pluginStep parse digest) emptyPlugins events)"
    using assms by (force simp: pagePlugins_def)
  ultimately have "pluginOk digest (set (pp_agreed (foldl (pluginStep parse digest) emptyPlugins events))) p" "ip_id p = i"
    using assms by (auto simp: pageOk_def)
  then show ?thesis by (auto simp: pluginOk_def)
qed

lemma hosts_were_agreed_to_witness:
  "\<exists>parse digest events p. (digest ''file:a.js'', p) \<in> set (pp_store (foldl (pluginStep parse digest) emptyPlugins events))
     \<and> set (ip_approvedHosts p) = {''api.example.org'', ''cdn.example.org''}
     \<and> (\<forall>h \<in> set (ip_approvedHosts p). (digest ''file:a.js'', h) \<in> set (pp_agreed (foldl (pluginStep parse digest) emptyPlugins events)))"
proof -
  let ?parse = "\<lambda>s :: string. Some \<lparr>ul_protocol = ''https:'', ul_hostname = ''github.com'', ul_pathname = ''/ann/plug'', ul_username = [], ul_password = [], ul_rest = []\<rparr>"
  let ?m = "\<lambda>hosts. \<lparr>mf_id = ''a'', mf_name = ''A'', mf_version = ''1'', mf_hosts = hosts, mf_updateUrl = Some ''https://github.com/ann/plug''\<rparr>"
  let ?events = "[Confirmed ''one'' (FileOrigin ''a.js'' None) (?m [''api.example.org'']) 5, UpdateAllAsked,
     CheckEnded 0 (Some (''two'', ''c'')) (Some (?m [''api.example.org'', ''cdn.example.org''])) True, PanelRefreshed, UpdateApproved 0]"
  let ?page = "foldl (pluginStep ?parse (\<lambda>s. s)) emptyPlugins ?events"
  let ?p = "snd (hd (pp_store ?page))"
  have "(''file:a.js'', ?p) \<in> set (pp_store ?page)" by code_simp
  moreover have "ip_approvedHosts ?p = [''api.example.org'', ''cdn.example.org'']" by code_simp
  moreover have "\<forall>h \<in> set (ip_approvedHosts ?p). (''file:a.js'', h) \<in> set (pp_agreed ?page)"
    using hosts_were_agreed_to [of "''file:a.js''" ?p ?parse "\<lambda>s. s" ?events] calculation(1) by blast
  ultimately have "(''file:a.js'', ?p) \<in> set (pp_store ?page) \<and> set (ip_approvedHosts ?p) = {''api.example.org'', ''cdn.example.org''}
     \<and> (\<forall>h \<in> set (ip_approvedHosts ?p). (''file:a.js'', h) \<in> set (pp_agreed ?page))"
    by (simp del: foldl_Cons)
  then show ?thesis by (intro exI)
qed

text \<open>
  A check saves the plugin it was started for, not the one in the registry: a
  plugin removed, or switched off, while its check is under way is back, or on
  again, when the check ends.
\<close>

theorem check_revives_a_removed_plugin:
  assumes "pp_store page = [(ip_id p, p)]" "pp_shown page = [p]" "pp_checks page = []" "ip_enabled p"
    and "fst (updatePlugin parse digest p fetched manifest) = Some p'" "ip_id p' = ip_id p" "ip_enabled p' = ip_enabled p"
  shows "pp_store (foldl (pluginStep parse digest) page [UpdateAllAsked, PluginRemoved 0, CheckEnded (pp_made page) fetched manifest True])
       = [(ip_id p, p')]"
    and "getPlugin (pp_store (foldl (pluginStep parse digest) page [UpdateAllAsked, PluginToggled 0, CheckEnded (pp_made page) fetched manifest True])) (ip_id p)
       = Some p' \<and> ip_enabled p'"
proof -
  let ?asked = "pluginStep parse digest page UpdateAllAsked"
  have asked: "pp_store ?asked = [(ip_id p, p)]" "pp_shown ?asked = [p]" "pp_checks ?asked = [(pp_made page, p)]"
    using assms(1-3) by (simp_all add: Let_def listPlugins_def)
  have ended: "pp_store (pluginStep parse digest page' (CheckEnded (pp_made page) fetched manifest True)) = putPlugin p' (pp_store page')"
    if "pp_checks page' = [(pp_made page, p)]" for page'
    using that assms(5) by (simp add: Let_def saved_def)
  show "pp_store (foldl (pluginStep parse digest) page [UpdateAllAsked, PluginRemoved 0, CheckEnded (pp_made page) fetched manifest True])
       = [(ip_id p, p')]"
    using asked ended [of "pluginStep parse digest ?asked (PluginRemoved 0)"] assms(6)
    by (simp add: shownAt_def deletePlugin_def putPlugin_def del: pluginStep.simps(6,7))
  show "getPlugin (pp_store (foldl (pluginStep parse digest) page [UpdateAllAsked, PluginToggled 0, CheckEnded (pp_made page) fetched manifest True])) (ip_id p)
       = Some p' \<and> ip_enabled p'"
    using asked ended [of "pluginStep parse digest ?asked (PluginToggled 0)"] assms(4,6,7)
    by (simp add: shownAt_def saved_def putPlugin_def getPlugin_def del: pluginStep.simps(6,7))
qed

text \<open>
  The panel reads a plugin before it stores it (\<open>read\<close> of \<open>PluginsPanel.tsx\<close>):
  there an address of updates that is not a repository of GitHub raises, though
  \<open>buildInstall\<close> would keep such a plugin without one.
\<close>

definition panelOrigin :: "(string \<Rightarrow> plugin_url option) \<Rightarrow> plugin_origin \<Rightarrow> plugin_manifest \<Rightarrow> string + plugin_origin" where
  "panelOrigin parse origin manifest =
     (case origin of
        FileOrigin fileName updateUrl \<Rightarrow>
          (if updateUrl \<noteq> None then Inr (FileOrigin fileName updateUrl)
           else case mf_updateUrl manifest of
             None \<Rightarrow> Inr (FileOrigin fileName None)
           | Some u \<Rightarrow> if u = [] then Inr (FileOrigin fileName None)
               else (case canonicalRepoUrl parse u of Inl e \<Rightarrow> Inl e | Inr home \<Rightarrow> Inr (FileOrigin fileName (Some home))))
      | GitOrigin u commit \<Rightarrow> Inr (GitOrigin u commit))"

theorem panel_refuses_what_install_takes:
  assumes "mf_updateUrl manifest = Some u" "u \<noteq> []" "canonicalRepoUrl parse u = Inl e"
  shows "panelOrigin parse (FileOrigin fileName None) manifest = Inl e"
    and "\<exists>p. buildInstall parse digest source (FileOrigin fileName None) manifest now = Inr p \<and> ip_origin p = FileOrigin fileName None"
  using assms by (simp_all add: panelOrigin_def buildInstall_def homeOf_def)

end
