(* ===== verification/LocalRoom.thy ===== *)
theory LocalRoom
  imports Prelude JsText Playback Magnet Youtube
begin

text \<open>
  A room the desktop app produces on its own machine (\<open>desktop/localRoom.ts\<close>):
  what a guest's app may open of what the host shared, the source a tab has
  attached, where the app is told to produce, and the uploads started for
  browsers that wait. Everything in the file is kept by room, so the model is
  of one room; the app's bridge and the server are the events that answer.
\<close>

section \<open>What a guest's app may open\<close>

datatype shared_copy = CopyTorrent string rat | CopyYoutube string string

record tracker_url =
  tu_protocol :: string
  tu_hostname :: string

definition MAX_TRACKERS :: nat where "MAX_TRACKERS = 20"

definition PRIVATE_SUFFIX :: "string list" where
  "PRIVATE_SUFFIX = [''.local'', ''.lan'', ''.home'', ''.internal'', ''.intranet'', ''.corp'', ''.localhost'', ''.test'', ''.invalid'', ''.arpa'']"

definition publicTracker :: "(string \<Rightarrow> tracker_url option) \<Rightarrow> string \<Rightarrow> bool" where
  "publicTracker parse raw =
     (case parse raw of
        None \<Rightarrow> False
      | Some url \<Rightarrow>
          if tu_protocol url \<notin> {''udp:'', ''http:'', ''https:'', ''wss:''} then False
          else let host = lower (tu_hostname url)
               in if CHR ''.'' \<notin> set host \<or> startsWith host ''['' \<or> CHR '':'' \<in> set host then False
                  else if list_all (\<lambda>c. isDigit c \<or> c = CHR ''.'') host \<or> startsWith host ''0x'' then False
                  else \<not> list_ex (endsWith host) PRIVATE_SUFFIX)"

text \<open>\<open>utf8\<close> decodes the magnet's text, \<open>enc\<close> is \<open>encodeURIComponent\<close>.\<close>

definition magnetParts :: "(string \<Rightarrow> tracker_url option) \<Rightarrow> (string \<Rightarrow> string) \<Rightarrow> parsed_magnet \<Rightarrow> string list" where
  "magnetParts parse enc parsed =
     (''xt=urn:btih:'' @ pm_infoHash parsed)
     # (if pm_dn parsed = [] then [] else [''dn='' @ enc (take 200 (pm_dn parsed))])
     @ map (\<lambda>tracker. ''tr='' @ enc tracker) (take MAX_TRACKERS (filter (publicTracker parse) (pm_trackers parsed)))"

definition safeLocalCopy ::
  "(string \<Rightarrow> tracker_url option) \<Rightarrow> (string \<Rightarrow> string) \<Rightarrow> (string \<Rightarrow> string) \<Rightarrow> shared_copy \<Rightarrow> shared_copy option" where
  "safeLocalCopy parse utf8 enc copy =
     (case copy of
        CopyYoutube _ videoId \<Rightarrow>
          if isVideoId videoId then Some (CopyYoutube (canonicalYoutubeUrl videoId) videoId) else None
      | CopyTorrent magnet index \<Rightarrow>
          if index \<noteq> of_int \<lfloor>index\<rfloor> \<or> index < 0 then None
          else (case parseMagnet utf8 magnet of
                  None \<Rightarrow> None
                | Some parsed \<Rightarrow>
                    Some (CopyTorrent (''magnet:?'' @ joinWith ''&'' (magnetParts parse enc parsed)) index)))"

section \<open>The state of a room\<close>

datatype local_source = SourceTorrent string rat string | SourceYoutube string string string

type_synonym controller_auth = "string \<times> string"

text \<open>
  One \<open>Attached\<close>. \<open>ar_produces\<close> tells the room's producer from a guest's copy;
  \<open>ar_lastFollow\<close> is \<open>None\<close> for minus infinity, \<open>ar_timer\<close> is when the follow
  timer is due.
\<close>

record attached_room =
  ar_key :: string
  ar_root :: string
  ar_generation :: nat
  ar_durationMs :: int
  ar_regions :: "media_region list"
  ar_positionMs :: int
  ar_polling :: bool
  ar_low :: bool
  ar_lastFollow :: "int option"
  ar_sentMs :: "int option"
  ar_timer :: "int option"
  ar_wanted :: "controller_auth option"
  ar_watching :: bool
  ar_produces :: bool

datatype local_effect =
    PrepareAsked nat local_source
  | LocalStopped string
  | LocalFollowed string int
  | LocalSubtitles string nat controller_auth
  | LocalLow string bool int
  | HandleRegistered nat
  | HandleUnregistered nat
  | PromoteAsked nat controller_auth
  | StatusAsked nat
  | UploadStarted string string nat int
  | UploadHalted

text \<open>
  \<open>lr_objects\<close> holds every \<open>Attached\<close> made, by its number; \<open>lr_current\<close> is the
  one \<open>rooms\<close> has, \<open>lr_copies\<close> whether \<open>copies\<close> has the room. The calls under way:
  \<open>attach\<close> with its generation and, for a producer, its seat (\<open>None\<close> for a guest's
  copy); \<open>promote\<close> and \<open>reviveUpload\<close> with the object they are for.
\<close>

record local_room =
  lr_objects :: "(nat, attached_room) jsmap"
  lr_current :: "nat option"
  lr_copies :: bool
  lr_waiting :: "(controller_auth \<times> nat) option"
  lr_preparing :: bool
  lr_attaches :: "(nat, nat \<times> controller_auth option option) jsmap"
  lr_promotes :: "(nat, nat) jsmap"
  lr_revives :: "(nat, nat) jsmap"
  lr_made :: nat
  lr_log :: "local_effect list"

definition emptyRoom :: local_room where
  "emptyRoom = \<lparr>lr_objects = [], lr_current = None, lr_copies = False, lr_waiting = None, lr_preparing = False,
     lr_attaches = [], lr_promotes = [], lr_revives = [], lr_made = 0, lr_log = []\<rparr>"

definition localNote :: "local_effect list \<Rightarrow> local_room \<Rightarrow> local_room" where
  "localNote es s = s\<lparr>lr_log := lr_log s @ es\<rparr>"

definition updRoom :: "nat \<Rightarrow> (attached_room \<Rightarrow> attached_room) \<Rightarrow> local_room \<Rightarrow> local_room" where
  "updRoom n f s =
     (case mapGet (lr_objects s) n of None \<Rightarrow> s | Some a \<Rightarrow> s\<lparr>lr_objects := mapSet n (f a) (lr_objects s)\<rparr>)"

definition currentRoom :: "local_room \<Rightarrow> (nat \<times> attached_room) option" where
  "currentRoom s =
     (case lr_current s of
        None \<Rightarrow> None
      | Some n \<Rightarrow> (case mapGet (lr_objects s) n of None \<Rightarrow> None | Some a \<Rightarrow> Some (n, a)))"

definition stopWatching :: "attached_room \<Rightarrow> attached_room" where
  "stopWatching a = a\<lparr>ar_wanted := None, ar_watching := False\<rparr>"

definition detachRoom :: "local_room \<Rightarrow> local_room" where
  "detachRoom s =
     (case lr_current s of
        None \<Rightarrow> s
      | Some n \<Rightarrow>
          (updRoom n (\<lambda>a. stopWatching (a\<lparr>ar_polling := False, ar_timer := None\<rparr>)) s)\<lparr>lr_current := None, lr_copies := False\<rparr>)"

section \<open>Where the app is told to produce\<close>

definition LOCAL_DEBOUNCE_MS :: int where "LOCAL_DEBOUNCE_MS = 3000"

definition SAME_PLACE_MS :: int where "SAME_PLACE_MS = 2000"

definition tellApp :: "nat \<Rightarrow> attached_room \<Rightarrow> local_room \<Rightarrow> local_room" where
  "tellApp n a s = localNote [LocalFollowed (ar_key a) (ar_positionMs a)] (updRoom n (\<lambda>_. a\<lparr>ar_sentMs := Some (ar_positionMs a)\<rparr>) s)"

definition sendFollow :: "int \<Rightarrow> nat \<Rightarrow> attached_room \<Rightarrow> local_room \<Rightarrow> local_room" where
  "sendFollow now n a s = tellApp n (a\<lparr>ar_lastFollow := Some now\<rparr>) s"

text \<open>\<open>handle.follow\<close> of the object \<open>n\<close>, which its holder may call after the room moved on.\<close>

definition followRoom :: "int \<Rightarrow> nat \<Rightarrow> rat \<Rightarrow> local_room \<Rightarrow> local_room" where
  "followRoom now n absoluteMs s =
     (case mapGet (lr_objects s) n of
        None \<Rightarrow> s
      | Some old \<Rightarrow>
          let a = old\<lparr>ar_positionMs := max 0 (js_round absoluteMs)\<rparr>
          in if ar_timer a \<noteq> None then updRoom n (\<lambda>_. a) s
             else if (case ar_sentMs a of None \<Rightarrow> False | Some sent \<Rightarrow> \<bar>ar_positionMs a - sent\<bar> < SAME_PLACE_MS) then updRoom n (\<lambda>_. a) s
             else if list_ex (\<lambda>region. regionHolds region (ar_positionMs a)) (ar_regions a) then tellApp n a s
             else (case ar_lastFollow a of
                     None \<Rightarrow> sendFollow now n a s
                   | Some t \<Rightarrow>
                       if LOCAL_DEBOUNCE_MS \<le> now - t then sendFollow now n a s
                       else updRoom n (\<lambda>_. a\<lparr>ar_timer := Some (now + (LOCAL_DEBOUNCE_MS - (now - t)))\<rparr>) s))"

definition followFired :: "int \<Rightarrow> nat \<Rightarrow> local_room \<Rightarrow> local_room" where
  "followFired now n s =
     (case mapGet (lr_objects s) n of
        None \<Rightarrow> s
      | Some a \<Rightarrow>
          if ar_timer a = None then s
          else let a' = a\<lparr>ar_timer := None\<rparr>
               in if lr_current s = Some n then sendFollow now n a' s else updRoom n (\<lambda>_. a') s)"

section \<open>Browsers that wait\<close>

definition promoteRoom :: "nat \<Rightarrow> controller_auth \<Rightarrow> local_room \<Rightarrow> local_room" where
  "promoteRoom n auth s =
     localNote [PromoteAsked (lr_made s) auth]
       (s\<lparr>lr_promotes := mapSet (lr_made s) n (lr_promotes s), lr_made := Suc (lr_made s)\<rparr>)"

text \<open>The answer to \<open>promote\<close>: a claim and the generation it is for, \<open>None\<close> where it is refused or fails.\<close>

definition promoteAnswered :: "nat \<Rightarrow> (string \<times> nat) option \<Rightarrow> local_room \<Rightarrow> local_room" where
  "promoteAnswered k answer s =
     (case mapGet (lr_promotes s) k of
        None \<Rightarrow> s
      | Some n \<Rightarrow>
          let s' = s\<lparr>lr_promotes := mapDelete k (lr_promotes s)\<rparr>
          in (case (answer, mapGet (lr_objects s) n) of
                (Some (claim, generation), Some a) \<Rightarrow>
                  if generation \<noteq> ar_generation a \<or> lr_current s \<noteq> Some n then s'
                  else localNote [UploadStarted (ar_key a) claim generation (ar_positionMs a)] s'
              | _ \<Rightarrow> s'))"

definition needBrowserMedia :: "controller_auth \<Rightarrow> nat \<Rightarrow> local_room \<Rightarrow> local_room" where
  "needBrowserMedia auth generation s =
     (if lr_copies s then s
      else let s' = s\<lparr>lr_waiting := Some (auth, generation)\<rparr>
           in (case currentRoom s' of
                 None \<Rightarrow> s'
               | Some (n, a) \<Rightarrow>
                   if lr_preparing s' \<or> ar_generation a < generation then s'
                   else promoteRoom n auth (updRoom n (\<lambda>a. a\<lparr>ar_wanted := Some auth, ar_watching := True\<rparr>) s')))"

definition reviveUpload :: "local_room \<Rightarrow> local_room" where
  "reviveUpload s =
     (case currentRoom s of
        None \<Rightarrow> s
      | Some (n, a) \<Rightarrow>
          if ar_wanted a = None then s
          else localNote [StatusAsked (lr_made s)]
                 (s\<lparr>lr_revives := mapSet (lr_made s) n (lr_revives s), lr_made := Suc (lr_made s)\<rparr>))"

text \<open>\<open>upload_status\<close> as whether it is active and whether it has an error; \<open>None\<close> where the app does not say.\<close>

definition uploadStatusAnswered :: "nat \<Rightarrow> (bool \<times> bool) option \<Rightarrow> local_room \<Rightarrow> local_room" where
  "uploadStatusAnswered k status s =
     (case mapGet (lr_revives s) k of
        None \<Rightarrow> s
      | Some n \<Rightarrow>
          let s' = s\<lparr>lr_revives := mapDelete k (lr_revives s)\<rparr>
          in (case (status, mapGet (lr_objects s) n) of
                (Some (active, failed), Some a) \<Rightarrow>
                  if active \<or> \<not> failed \<or> lr_current s \<noteq> Some n then s'
                  else (case ar_wanted a of None \<Rightarrow> s' | Some auth \<Rightarrow> promoteRoom n auth s')
              | _ \<Rightarrow> s'))"

definition browserMediaIdle :: "local_room \<Rightarrow> local_room" where
  "browserMediaIdle s =
     (let s' = s\<lparr>lr_waiting := None\<rparr>
      in case currentRoom s' of
           None \<Rightarrow> s'
         | Some (n, _) \<Rightarrow> localNote [UploadHalted] (updRoom n stopWatching s'))"

section \<open>Sources that come and go\<close>

text \<open>\<open>attachLocalRoom\<close> (a producer) or \<open>openLocalCopy\<close> (a guest) up to the app's answer.\<close>

definition attachAsked :: "nat \<Rightarrow> local_source \<Rightarrow> controller_auth option option \<Rightarrow> local_room \<Rightarrow> local_room" where
  "attachAsked generation source produce s =
     localNote [PrepareAsked (lr_made s) source]
       (s\<lparr>lr_preparing := (lr_preparing s \<or> produce \<noteq> None),
          lr_attaches := mapSet (lr_made s) (generation, produce) (lr_attaches s), lr_made := Suc (lr_made s)\<rparr>)"

definition newAttached :: "string \<Rightarrow> string \<Rightarrow> nat \<Rightarrow> int \<Rightarrow> bool \<Rightarrow> attached_room" where
  "newAttached mediaRoot key generation durationMs produces =
     \<lparr>ar_key = key, ar_root = mediaRoot @ ''/'' @ key, ar_generation = generation, ar_durationMs = durationMs, ar_regions = [],
      ar_positionMs = 0, ar_polling = True, ar_low = False, ar_lastFollow = None, ar_sentMs = None, ar_timer = None,
      ar_wanted = None, ar_watching = False, ar_produces = produces\<rparr>"

text \<open>\<open>attach\<close> once the app prepared the source.\<close>

definition attachRoom :: "string \<Rightarrow> nat \<Rightarrow> controller_auth option option \<Rightarrow> string \<Rightarrow> int \<Rightarrow> local_room \<Rightarrow> local_room" where
  "attachRoom mediaRoot generation produce key durationMs s =
     (let copied = (if lr_copies s then currentRoom s else None);
          stopped = (case copied of None \<Rightarrow> [] | Some (_, a) \<Rightarrow> if ar_key a \<noteq> key then [LocalStopped (ar_key a)] else []);
          s1 = detachRoom (localNote stopped s);
          n = lr_made s1;
          s2 = s1\<lparr>lr_objects := mapSet n (newAttached mediaRoot key generation durationMs (produce \<noteq> None)) (lr_objects s1),
                  lr_current := Some n, lr_made := Suc n\<rparr>
      in case produce of
           None \<Rightarrow> s2\<lparr>lr_copies := True\<rparr>
         | Some seat \<Rightarrow>
             localNote (HandleRegistered n # (case seat of None \<Rightarrow> [] | Some auth \<Rightarrow> [LocalSubtitles key generation auth])) s2)"

text \<open>The app's answer to \<open>local_prepare\<close>: the key and the duration, or why not.\<close>

definition attachEnded :: "string \<Rightarrow> nat \<Rightarrow> string + string \<times> int \<Rightarrow> local_room \<Rightarrow> local_room" where
  "attachEnded mediaRoot k answer s =
     (case mapGet (lr_attaches s) k of
        None \<Rightarrow> s
      | Some (generation, produce) \<Rightarrow>
          let s' = s\<lparr>lr_attaches := mapDelete k (lr_attaches s)\<rparr>
          in (case answer of
                Inl _ \<Rightarrow> if produce = None then s' else s'\<lparr>lr_preparing := False\<rparr>
              | Inr (key, durationMs) \<Rightarrow>
                  let s'' = attachRoom mediaRoot generation produce key durationMs s'
                  in if produce = None then s''
                     else (case lr_waiting s'' of
                             None \<Rightarrow> s''\<lparr>lr_preparing := False\<rparr>
                           | Some (auth, asked) \<Rightarrow> needBrowserMedia auth asked (s''\<lparr>lr_preparing := False\<rparr>))))"

text \<open>The cleanup a producer registers with its handle.\<close>

definition producerDestroyed :: "nat \<Rightarrow> local_room \<Rightarrow> local_room" where
  "producerDestroyed n s =
     (case mapGet (lr_objects s) n of
        None \<Rightarrow> s
      | Some a \<Rightarrow>
          if \<not> ar_produces a then s
          else let s' = localNote [HandleUnregistered n] s
               in if lr_current s' \<noteq> Some n then s'
                  else localNote [UploadHalted, LocalStopped (ar_key a)]
                         (detachRoom (if (case lr_waiting s' of None \<Rightarrow> 0 | Some (_, g) \<Rightarrow> g) \<le> ar_generation a
                                      then s'\<lparr>lr_waiting := None\<rparr> else s')))"

definition closeLocalCopy :: "nat \<Rightarrow> local_room \<Rightarrow> local_room" where
  "closeLocalCopy generation s =
     (case currentRoom s of
        None \<Rightarrow> s
      | Some (_, a) \<Rightarrow>
          if \<not> lr_copies s \<or> ar_generation a \<noteq> generation then s else localNote [LocalStopped (ar_key a)] (detachRoom s))"

definition regionsAnswered :: "nat \<Rightarrow> media_region list \<Rightarrow> local_room \<Rightarrow> local_room" where
  "regionsAnswered n regions s = (if lr_current s = Some n then updRoom n (\<lambda>a. a\<lparr>ar_regions := regions\<rparr>) s else s)"

definition setLocalRenditions :: "string list option \<Rightarrow> local_room \<Rightarrow> local_room" where
  "setLocalRenditions renditions s =
     (case currentRoom s of
        None \<Rightarrow> s
      | Some (n, a) \<Rightarrow>
          let on = (case renditions of None \<Rightarrow> False | Some rs \<Rightarrow> ''480p'' \<in> set rs)
          in if on = ar_low a then s
             else localNote [LocalLow (ar_key a) on (ar_positionMs a)] (updRoom n (\<lambda>a. a\<lparr>ar_low := on\<rparr>) s))"

datatype local_event =
    AttachAsked nat local_source "controller_auth option option"
  | AttachEnded nat "string + string \<times> int"
  | RoomFollowed int nat rat
  | FollowFired int nat
  | ProducerDestroyed nat
  | CopyClosed nat
  | RegionsAnswered nat "media_region list"
  | BrowserNeeded controller_auth nat
  | WatchFired
  | UploadStatus nat "(bool \<times> bool) option"
  | PromoteAnswered nat "(string \<times> nat) option"
  | RenditionsSet "string list option"
  | BrowserIdle

fun localStep :: "string \<Rightarrow> local_room \<Rightarrow> local_event \<Rightarrow> local_room" where
  "localStep rootPath s (AttachAsked generation source produce) = attachAsked generation source produce s"
| "localStep rootPath s (AttachEnded k answer) = attachEnded rootPath k answer s"
| "localStep rootPath s (RoomFollowed now n absoluteMs) = followRoom now n absoluteMs s"
| "localStep rootPath s (FollowFired now n) = followFired now n s"
| "localStep rootPath s (ProducerDestroyed n) = producerDestroyed n s"
| "localStep rootPath s (CopyClosed generation) = closeLocalCopy generation s"
| "localStep rootPath s (RegionsAnswered n regions) = regionsAnswered n regions s"
| "localStep rootPath s (BrowserNeeded auth generation) = needBrowserMedia auth generation s"
| "localStep rootPath s WatchFired = reviveUpload s"
| "localStep rootPath s (UploadStatus k status) = uploadStatusAnswered k status s"
| "localStep rootPath s (PromoteAnswered k answer) = promoteAnswered k answer s"
| "localStep rootPath s (RenditionsSet renditions) = setLocalRenditions renditions s"
| "localStep rootPath s BrowserIdle = browserMediaIdle s"

section \<open>What every operation keeps\<close>

text \<open>The place the room is at reached the app, or waits with the timer set, or is next to one that did.\<close>

definition placeKept :: "attached_room \<Rightarrow> bool" where
  "placeKept a \<longleftrightarrow>
     ar_timer a \<noteq> None \<or> (ar_sentMs a = None \<and> ar_positionMs a = 0)
     \<or> (\<exists>sent. ar_sentMs a = Some sent \<and> \<bar>ar_positionMs a - sent\<bar> < SAME_PLACE_MS)"

definition objectsOk :: "nat \<Rightarrow> (nat \<Rightarrow> attached_room option) \<Rightarrow> bool" where
  "objectsOk made objs \<longleftrightarrow> (\<forall>n a. objs n = Some a \<longrightarrow> n < made \<and> (ar_wanted a \<noteq> None \<longrightarrow> ar_produces a))"

definition currentOk :: "nat option \<Rightarrow> bool \<Rightarrow> (nat \<Rightarrow> attached_room option) \<Rightarrow> bool" where
  "currentOk cur copies objs \<longleftrightarrow>
     (case cur of
        None \<Rightarrow> \<not> copies
      | Some n \<Rightarrow> (\<exists>a. objs n = Some a \<and> (copies \<longleftrightarrow> \<not> ar_produces a) \<and> placeKept a))"

definition promotesOk :: "(nat, nat) jsmap \<Rightarrow> (nat \<Rightarrow> attached_room option) \<Rightarrow> bool" where
  "promotesOk promotes objs \<longleftrightarrow> (\<forall>k n. mapGet promotes k = Some n \<longrightarrow> (\<exists>a. objs n = Some a \<and> ar_produces a))"

definition localOk :: "local_room \<Rightarrow> bool" where
  "localOk s \<longleftrightarrow>
     objectsOk (lr_made s) (mapGet (lr_objects s)) \<and> currentOk (lr_current s) (lr_copies s) (mapGet (lr_objects s))
     \<and> promotesOk (lr_promotes s) (mapGet (lr_objects s))"

lemma localNote_sel [simp]:
  "lr_objects (localNote es s) = lr_objects s" "lr_current (localNote es s) = lr_current s" "lr_copies (localNote es s) = lr_copies s"
  "lr_made (localNote es s) = lr_made s" "lr_promotes (localNote es s) = lr_promotes s" "lr_log (localNote es s) = lr_log s @ es"
  "lr_waiting (localNote es s) = lr_waiting s" "lr_preparing (localNote es s) = lr_preparing s"
  by (simp_all add: localNote_def)

lemma updRoom_sel [simp]:
  "lr_current (updRoom n f s) = lr_current s" "lr_copies (updRoom n f s) = lr_copies s" "lr_made (updRoom n f s) = lr_made s"
  "lr_promotes (updRoom n f s) = lr_promotes s" "lr_log (updRoom n f s) = lr_log s" "lr_waiting (updRoom n f s) = lr_waiting s"
  "lr_preparing (updRoom n f s) = lr_preparing s"
  by (simp_all add: updRoom_def split: option.splits)

lemma updRoom_get [simp]:
  "mapGet (lr_objects (updRoom n f s)) = (mapGet (lr_objects s))(n := map_option f (mapGet (lr_objects s) n))"
  by (auto simp: updRoom_def fun_eq_iff split: option.splits)

lemma localOk_note [simp]: "localOk (localNote es s) = localOk s"
  by (simp add: localOk_def)

lemma localOk_upd:
  assumes "localOk s"
    and "\<And>a. mapGet (lr_objects s) n = Some a \<Longrightarrow> ar_produces (f a) = ar_produces a \<and> (ar_wanted (f a) \<noteq> None \<longrightarrow> ar_produces a)"
    and "\<And>a. mapGet (lr_objects s) n = Some a \<Longrightarrow> lr_current s = Some n \<Longrightarrow> placeKept a \<Longrightarrow> placeKept (f a)"
  shows "localOk (updRoom n f s)"
proof -
  have "objectsOk (lr_made s) (mapGet (lr_objects (updRoom n f s)))"
    using assms(1,2) by (auto simp: localOk_def objectsOk_def)
  moreover have "currentOk (lr_current s) (lr_copies s) (mapGet (lr_objects (updRoom n f s)))"
    using assms by (auto simp: localOk_def currentOk_def split: option.splits)
  moreover have "promotesOk (lr_promotes s) (mapGet (lr_objects (updRoom n f s)))"
    using assms(1,2) by (fastforce simp: localOk_def promotesOk_def)
  ultimately show ?thesis by (simp add: localOk_def)
qed

lemma localOk_object: "localOk s \<Longrightarrow> mapGet (lr_objects s) n = Some a \<Longrightarrow> n < lr_made s \<and> (ar_wanted a \<noteq> None \<longrightarrow> ar_produces a)"
  by (auto simp: localOk_def objectsOk_def)

lemma currentRoom_Some: "currentRoom s = Some (n, a) \<longleftrightarrow> lr_current s = Some n \<and> mapGet (lr_objects s) n = Some a"
  by (auto simp: currentRoom_def split: option.splits)

lemma localOk_current:
  "localOk s \<Longrightarrow> lr_current s = Some n \<Longrightarrow> \<exists>a. mapGet (lr_objects s) n = Some a \<and> (lr_copies s \<longleftrightarrow> \<not> ar_produces a) \<and> placeKept a"
  by (auto simp: localOk_def currentOk_def)

lemma detachRoom_keeps: "localOk s \<Longrightarrow> localOk (detachRoom s)"
proof (cases "lr_current s")
  case None
  then show "localOk s \<Longrightarrow> ?thesis" by (simp add: detachRoom_def)
next
  case (Some n)
  assume ok: "localOk s"
  let ?f = "\<lambda>a. stopWatching (a\<lparr>ar_polling := False, ar_timer := None\<rparr>)"
  have "objectsOk (lr_made s) (mapGet (lr_objects (updRoom n ?f s)))" "promotesOk (lr_promotes s) (mapGet (lr_objects (updRoom n ?f s)))"
    using ok by (fastforce simp: localOk_def objectsOk_def promotesOk_def stopWatching_def)+
  then show ?thesis by (simp add: detachRoom_def Some localOk_def currentOk_def)
qed

lemma promoteRoom_keeps:
  assumes "localOk s" "mapGet (lr_objects s) n = Some a" "ar_produces a"
  shows "localOk (promoteRoom n auth s)"
  using assms by (auto simp: promoteRoom_def localOk_def objectsOk_def promotesOk_def less_Suc_eq)

lemma tellApp_keeps:
  assumes "localOk s" "mapGet (lr_objects s) n = Some old" "ar_produces a = ar_produces old" "ar_wanted a = ar_wanted old"
  shows "localOk (tellApp n a s)"
  using assms by (auto simp: tellApp_def placeKept_def SAME_PLACE_MS_def dest: localOk_object intro!: localOk_upd)

lemma followRoom_keeps:
  assumes ok: "localOk s"
  shows "localOk (followRoom now n absoluteMs s)"
proof (cases "mapGet (lr_objects s) n")
  case (Some old)
  let ?a = "old\<lparr>ar_positionMs := max 0 (js_round absoluteMs)\<rparr>"
  have upd: "localOk (updRoom n (\<lambda>_. a) s)" if "ar_produces a = ar_produces old" "ar_wanted a = ar_wanted old" "placeKept a" for a
    using Some that localOk_object [OF ok Some] by (intro localOk_upd [OF ok]) auto
  have told: "localOk (tellApp n ?a s)" "localOk (sendFollow now n ?a s)"
    unfolding sendFollow_def by (rule tellApp_keeps [OF ok Some]; simp)+
  show ?thesis
    using told by (auto simp: followRoom_def Some Let_def placeKept_def intro!: upd split: option.splits)
qed (simp add: followRoom_def ok)

lemma followFired_keeps:
  assumes ok: "localOk s"
  shows "localOk (followFired now n s)"
proof (cases "mapGet (lr_objects s) n")
  case (Some a)
  have "localOk (sendFollow now n (a\<lparr>ar_timer := None\<rparr>) s)" unfolding sendFollow_def by (rule tellApp_keeps [OF ok Some]; simp)
  moreover have "localOk (updRoom n (\<lambda>_. a\<lparr>ar_timer := None\<rparr>) s)" if "lr_current s \<noteq> Some n"
    using ok Some that by (auto dest: localOk_object intro!: localOk_upd)
  ultimately show ?thesis using ok by (simp add: followFired_def Some Let_def)
qed (simp add: followFired_def ok)

lemma needBrowserMedia_keeps:
  assumes "localOk s"
  shows "localOk (needBrowserMedia auth generation s)"
proof -
  let ?s = "s\<lparr>lr_waiting := Some (auth, generation)\<rparr>"
  have ok: "localOk ?s" using assms by (simp add: localOk_def)
  have "localOk (promoteRoom n auth (updRoom n (\<lambda>a. a\<lparr>ar_wanted := Some auth, ar_watching := True\<rparr>) ?s))"
    if "currentRoom ?s = Some (n, a)" "\<not> lr_copies s" for n a
  proof -
    have a: "mapGet (lr_objects ?s) n = Some a" "ar_produces a"
      using that localOk_current [OF ok, of n] by (auto simp: currentRoom_Some)
    have "localOk (updRoom n (\<lambda>a. a\<lparr>ar_wanted := Some auth, ar_watching := True\<rparr>) ?s)"
      using a by (intro localOk_upd [OF ok]) (auto simp: placeKept_def)
    then show ?thesis
      by (rule promoteRoom_keeps [where a = "a\<lparr>ar_wanted := Some auth, ar_watching := True\<rparr>"]) (use a in simp_all)
  qed
  then show ?thesis using assms ok by (auto simp: needBrowserMedia_def Let_def split: option.splits)
qed

lemma attachRoom_keeps:
  assumes "localOk s"
  shows "localOk (attachRoom rootPath generation produce key durationMs s)"
proof -
  have fresh: "localOk (s1\<lparr>lr_objects := mapSet (lr_made s1) (newAttached rootPath key generation durationMs p) (lr_objects s1),
       lr_current := Some (lr_made s1), lr_made := Suc (lr_made s1), lr_copies := \<not> p\<rparr>)" if "localOk s1" for s1 p
    using that
    by (fastforce simp: localOk_def objectsOk_def currentOk_def promotesOk_def newAttached_def placeKept_def less_Suc_eq)
  have none: "\<not> lr_copies (detachRoom s')" if "localOk s'" for s'
    using that by (auto simp: detachRoom_def localOk_def currentOk_def split: option.splits)
  obtain stopped where "attachRoom rootPath generation produce key durationMs s
     = (let s1 = detachRoom (localNote stopped s);
            s2 = s1\<lparr>lr_objects := mapSet (lr_made s1) (newAttached rootPath key generation durationMs (produce \<noteq> None)) (lr_objects s1),
                  lr_current := Some (lr_made s1), lr_made := Suc (lr_made s1)\<rparr>
        in case produce of
           None \<Rightarrow> s2\<lparr>lr_copies := True\<rparr>
         | Some seat \<Rightarrow>
             localNote (HandleRegistered (lr_made s1) # (case seat of None \<Rightarrow> [] | Some auth \<Rightarrow> [LocalSubtitles key generation auth])) s2)"
    by (simp add: attachRoom_def Let_def)
  moreover have ok: "localOk (detachRoom (localNote stopped s))" using assms by (simp add: detachRoom_keeps)
  moreover have "\<not> lr_copies (detachRoom (localNote stopped s))" using none assms by simp
  ultimately show ?thesis
    using fresh [OF ok, of True] fresh [OF ok, of False] by (cases produce) (simp_all add: Let_def localOk_def)
qed

lemma attachEnded_keeps:
  assumes "localOk s"
  shows "localOk (attachEnded rootPath k answer s)"
proof (cases "mapGet (lr_attaches s) k")
  case (Some call)
  obtain generation produce where call: "call = (generation, produce)" by (cases call)
  let ?s = "s\<lparr>lr_attaches := mapDelete k (lr_attaches s)\<rparr>"
  have ready: "localOk (t\<lparr>lr_preparing := b\<rparr>)" if "localOk t" for t b using that by (simp add: localOk_def)
  have ok: "localOk ?s" using assms by (simp add: localOk_def)
  then have "localOk (attachRoom rootPath generation produce key durationMs ?s)" for key durationMs by (rule attachRoom_keeps)
  then show ?thesis
    using ok by (auto simp: attachEnded_def Some call Let_def intro!: ready needBrowserMedia_keeps split: sum.splits option.splits)
qed (simp add: attachEnded_def assms)

lemma promoteAnswered_keeps:
  assumes "localOk s"
  shows "localOk (promoteAnswered k answer s)"
proof -
  have "localOk (s\<lparr>lr_promotes := mapDelete k (lr_promotes s)\<rparr>)"
    using assms by (auto simp: localOk_def promotesOk_def)
  then show ?thesis using assms by (auto simp: promoteAnswered_def Let_def split: option.splits)
qed

lemma reviveUpload_keeps:
  assumes "localOk s"
  shows "localOk (reviveUpload s)"
proof -
  have "localOk (s\<lparr>lr_revives := r, lr_made := Suc (lr_made s)\<rparr>)" for r
    using assms by (auto simp: localOk_def objectsOk_def less_Suc_eq)
  then show ?thesis using assms by (auto simp: reviveUpload_def split: option.splits)
qed

lemma uploadStatusAnswered_keeps:
  assumes "localOk s"
  shows "localOk (uploadStatusAnswered k status s)"
proof -
  let ?s = "s\<lparr>lr_revives := mapDelete k (lr_revives s)\<rparr>"
  have ok: "localOk ?s" using assms by (simp add: localOk_def)
  have "localOk (promoteRoom n auth ?s)" if "mapGet (lr_objects s) n = Some a" "ar_wanted a = Some auth" for n a auth
    by (rule promoteRoom_keeps [OF ok, of _ a]) (use that localOk_object [OF assms that(1)] in simp_all)
  then show ?thesis using assms ok by (auto simp: uploadStatusAnswered_def Let_def split: option.splits)
qed

lemma stopWatching_keeps: "localOk s \<Longrightarrow> localOk (updRoom n stopWatching s)"
  by (rule localOk_upd) (simp_all add: stopWatching_def placeKept_def)

lemma localStep_keeps:
  assumes "localOk s"
  shows "localOk (localStep rootPath s ev)"
proof (cases ev)
  case (AttachAsked generation source produce)
  have "localOk (s\<lparr>lr_preparing := b, lr_attaches := r, lr_made := Suc (lr_made s)\<rparr>)" for b r
    using assms by (auto simp: localOk_def objectsOk_def less_Suc_eq)
  then show ?thesis by (simp add: AttachAsked attachAsked_def)
next
  case (ProducerDestroyed n)
  have "localOk (localNote es s)" "localOk ((localNote es s)\<lparr>lr_waiting := None\<rparr>)" for es
    using assms by (simp_all add: localOk_def)
  then have "localOk (detachRoom (if b then (localNote es s)\<lparr>lr_waiting := None\<rparr> else localNote es s))" for es b
    by (simp add: detachRoom_keeps)
  then show ?thesis using assms by (simp add: ProducerDestroyed producerDestroyed_def Let_def split: option.split)
next
  case (CopyClosed generation)
  then show ?thesis using assms detachRoom_keeps by (auto simp: closeLocalCopy_def split: option.splits)
next
  case (RegionsAnswered n regions)
  have "localOk (updRoom n (\<lambda>a. a\<lparr>ar_regions := regions\<rparr>) s)"
    by (rule localOk_upd [OF assms]) (use localOk_object [OF assms] in \<open>auto simp: placeKept_def\<close>)
  then show ?thesis using assms by (simp add: RegionsAnswered regionsAnswered_def)
next
  case (RenditionsSet renditions)
  have "localOk (updRoom n (\<lambda>a. a\<lparr>ar_low := on\<rparr>) s)" for n on
    by (rule localOk_upd [OF assms]) (use localOk_object [OF assms] in \<open>auto simp: placeKept_def\<close>)
  then show ?thesis using assms by (simp add: RenditionsSet setLocalRenditions_def Let_def split: option.splits)
next
  case BrowserIdle
  have "localOk (s\<lparr>lr_waiting := None\<rparr>)" using assms by (simp add: localOk_def)
  then show ?thesis by (auto simp: BrowserIdle browserMediaIdle_def Let_def intro!: stopWatching_keeps split: option.splits)
qed (simp_all add: assms attachEnded_keeps followRoom_keeps followFired_keeps needBrowserMedia_keeps reviveUpload_keeps
      uploadStatusAnswered_keeps promoteAnswered_keeps)

interpretation local_rooms: component "localStep rootPath" localOk
  by unfold_locales (rule localStep_keeps)

lemma emptyRoom_ok: "localOk emptyRoom"
  by (simp add: localOk_def emptyRoom_def objectsOk_def currentOk_def promotesOk_def)

section \<open>What is uploaded\<close>

definition uploadsIn :: "local_effect list \<Rightarrow> local_effect list" where
  "uploadsIn es = filter (\<lambda>e. case e of UploadStarted _ _ _ _ \<Rightarrow> True | _ \<Rightarrow> False) es"

lemma uploadsIn_simps [simp]:
  "uploadsIn [] = []" "uploadsIn (xs @ ys) = uploadsIn xs @ uploadsIn ys"
  "uploadsIn (e # es) = (case e of UploadStarted _ _ _ _ \<Rightarrow> e # uploadsIn es | _ \<Rightarrow> uploadsIn es)"
  by (auto simp: uploadsIn_def split: local_effect.splits)

lemma quiet_operations:
  "uploadsIn (lr_log (detachRoom s)) = uploadsIn (lr_log s)"
  "uploadsIn (lr_log (promoteRoom n auth s)) = uploadsIn (lr_log s)"
  "uploadsIn (lr_log (tellApp n a s)) = uploadsIn (lr_log s)"
  "uploadsIn (lr_log (followRoom now n absoluteMs s)) = uploadsIn (lr_log s)"
  "uploadsIn (lr_log (followFired now n s)) = uploadsIn (lr_log s)"
  by (auto simp: detachRoom_def promoteRoom_def tellApp_def sendFollow_def followRoom_def followFired_def Let_def split: option.splits)

lemma needBrowserMedia_quiet: "uploadsIn (lr_log (needBrowserMedia auth generation s)) = uploadsIn (lr_log s)"
  by (auto simp: needBrowserMedia_def Let_def quiet_operations split: option.splits)

lemma attachRoom_quiet: "uploadsIn (lr_log (attachRoom rootPath generation produce key durationMs s)) = uploadsIn (lr_log s)"
  by (auto simp: attachRoom_def Let_def quiet_operations split: option.splits)

lemma attachEnded_quiet: "uploadsIn (lr_log (attachEnded rootPath k answer s)) = uploadsIn (lr_log s)"
  by (auto simp: attachEnded_def Let_def attachRoom_quiet needBrowserMedia_quiet split: option.splits sum.splits)

lemma only_answers_upload:
  "(\<And>k answer. ev \<noteq> PromoteAnswered k answer) \<Longrightarrow> uploadsIn (lr_log (localStep rootPath s ev)) = uploadsIn (lr_log s)"
  by (cases ev)
    (auto simp: attachAsked_def attachEnded_quiet producerDestroyed_def closeLocalCopy_def regionsAnswered_def reviveUpload_def
      uploadStatusAnswered_def setLocalRenditions_def browserMediaIdle_def needBrowserMedia_quiet quiet_operations Let_def
      split: option.splits)

text \<open>C26: what goes up is the room's own source. However sources are attached, swapped and destroyed while the server and the app answer: an upload is started only for the source attached at that moment, one this tab produces and not a guest's copy, from its own cache, for the very generation the server's claim names and from the place the room is at.\<close>

theorem uploads_are_of_the_attached_source:
  assumes "uploadsIn (lr_log (localStep rootPath (foldl (localStep rootPath) emptyRoom events) ev))
     = uploadsIn (lr_log (foldl (localStep rootPath) emptyRoom events)) @ UploadStarted key claim generation place # es"
  shows "\<exists>n a. lr_current (foldl (localStep rootPath) emptyRoom events) = Some n
     \<and> mapGet (lr_objects (foldl (localStep rootPath) emptyRoom events)) n = Some a
     \<and> ar_produces a \<and> \<not> lr_copies (foldl (localStep rootPath) emptyRoom events)
     \<and> ar_key a = key \<and> ar_generation a = generation \<and> ar_positionMs a = place \<and> es = []"
proof -
  define s where "s = foldl (localStep rootPath) emptyRoom events"
  have ok: "localOk s" unfolding s_def by (rule local_rooms.run_keeps [OF emptyRoom_ok])
  have started: "uploadsIn (lr_log (localStep rootPath s ev)) = uploadsIn (lr_log s) @ UploadStarted key claim generation place # es"
    using assms by (simp add: s_def)
  then obtain k answer where ev: "ev = PromoteAnswered k answer" using only_answers_upload [of ev rootPath s] by fastforce
  with started obtain n a where a: "lr_current s = Some n" "mapGet (lr_objects s) n = Some a" "ar_key a = key"
      "ar_generation a = generation" "ar_positionMs a = place" "es = []" "mapGet (lr_promotes s) k = Some n"
    by (auto simp: promoteAnswered_def Let_def split: option.splits if_splits)
  then have "ar_produces a" using ok by (fastforce simp: localOk_def promotesOk_def)
  then show ?thesis using a localOk_current [OF ok a(1)] unfolding s_def [symmetric] by auto
qed

lemma uploads_are_of_the_attached_source_witness:
  "\<exists>events. (\<exists>n a. lr_current (foldl (localStep ''/media'') emptyRoom events) = Some n
     \<and> mapGet (lr_objects (foldl (localStep ''/media'') emptyRoom events)) n = Some a
     \<and> ar_produces a \<and> ar_key a = ''film'' \<and> ar_generation a = 4)"
proof -
  let ?events = "[AttachAsked 4 (SourceYoutube ''u'' ''v'' ''t'') (Some None), BrowserNeeded (''ann'', ''cap'') 4, AttachEnded 0 (Inr (''film'', 9000))]"
  let ?s = "foldl (localStep ''/media'') emptyRoom ?events"
  have "uploadsIn (lr_log (localStep ''/media'' ?s (PromoteAnswered 2 (Some (''claim'', 4)))))
     = uploadsIn (lr_log ?s) @ UploadStarted ''film'' ''claim'' 4 0 # []"
    by code_simp
  from uploads_are_of_the_attached_source [OF this] show ?thesis by (intro exI [of _ ?events]) blast
qed

text \<open>C27: the place the room is at reaches the app. Whatever a burst of seeks, the regions already written, swaps and answers do: for the source attached, the last place followed was told to the app, or lies within two seconds of the one that was, or the timer is set, and when it fires the app is told the last place; a place a region already holds is told at once.\<close>

theorem followed_place_reaches_the_app:
  assumes "lr_current (foldl (localStep rootPath) emptyRoom events) = Some n"
  shows "\<exists>a. mapGet (lr_objects (foldl (localStep rootPath) emptyRoom events)) n = Some a \<and> placeKept a
     \<and> (ar_timer a \<noteq> None \<longrightarrow>
          lr_log (localStep rootPath (foldl (localStep rootPath) emptyRoom events) (FollowFired now n))
            = lr_log (foldl (localStep rootPath) emptyRoom events) @ [LocalFollowed (ar_key a) (ar_positionMs a)])
     \<and> (ar_timer a = None \<longrightarrow> list_ex (\<lambda>region. regionHolds region (max 0 (js_round p))) (ar_regions a)
          \<longrightarrow> (\<forall>sent. ar_sentMs a = Some sent \<longrightarrow> SAME_PLACE_MS \<le> \<bar>max 0 (js_round p) - sent\<bar>)
          \<longrightarrow> lr_log (localStep rootPath (foldl (localStep rootPath) emptyRoom events) (RoomFollowed now n p))
            = lr_log (foldl (localStep rootPath) emptyRoom events) @ [LocalFollowed (ar_key a) (max 0 (js_round p))])"
proof -
  define s where "s = foldl (localStep rootPath) emptyRoom events"
  have ok: "localOk s" unfolding s_def by (rule local_rooms.run_keeps [OF emptyRoom_ok])
  obtain a where a: "mapGet (lr_objects s) n = Some a" "placeKept a" using localOk_current [OF ok, of n] assms by (auto simp: s_def)
  have fired: "lr_log (localStep rootPath s (FollowFired now n)) = lr_log s @ [LocalFollowed (ar_key a) (ar_positionMs a)]"
    if "ar_timer a \<noteq> None"
    using that a assms by (simp add: followFired_def Let_def sendFollow_def tellApp_def s_def)
  have held: "lr_log (localStep rootPath s (RoomFollowed now n p)) = lr_log s @ [LocalFollowed (ar_key a) (max 0 (js_round p))]"
    if "ar_timer a = None" "list_ex (\<lambda>region. regionHolds region (max 0 (js_round p))) (ar_regions a)"
      "\<forall>sent. ar_sentMs a = Some sent \<longrightarrow> SAME_PLACE_MS \<le> \<bar>max 0 (js_round p) - sent\<bar>"
    using that a by (auto simp: followRoom_def Let_def tellApp_def split: option.splits)
  show ?thesis unfolding s_def [symmetric] by (intro exI [of _ a] conjI impI a fired held)
qed

lemma followed_place_reaches_the_app_witness:
  "\<exists>events. lr_current (foldl (localStep ''/media'') emptyRoom events) = Some 1
     \<and> (\<exists>a. mapGet (lr_objects (foldl (localStep ''/media'') emptyRoom events)) 1 = Some a \<and> placeKept a \<and> ar_timer a \<noteq> None)"
proof -
  let ?events = "[AttachAsked 4 (SourceYoutube ''u'' ''v'' ''t'') None, AttachEnded 0 (Inr (''film'', 9000)),
     RoomFollowed 100 1 5000, RoomFollowed 200 1 90000]"
  let ?s = "foldl (localStep ''/media'') emptyRoom ?events"
  have cur: "lr_current ?s = Some 1" by code_simp
  have due: "map_option ar_timer (mapGet (lr_objects ?s) 1) = Some (Some 3100)" by code_simp
  have timer: "ar_timer a \<noteq> None" if "m = Some a" "map_option ar_timer m = Some (Some 3100)" for m a
    using that by simp
  from followed_place_reaches_the_app [OF cur] obtain a where a: "mapGet (lr_objects ?s) 1 = Some a" "placeKept a" by blast
  show ?thesis by (rule exI [of _ ?events], rule conjI [OF cur], rule exI [of _ a], intro conjI a timer [OF a(1) due])
qed

section \<open>Where it goes wrong\<close>

text \<open>A guest who leaves while \<open>promote\<close> is answered: the upload is stopped, and then started, though nobody waits.\<close>

theorem late_promotion_uploads_for_nobody:
  assumes "lr_current s = Some n" "mapGet (lr_objects s) n = Some a" "mapGet (lr_promotes s) k = Some n"
  shows "let t = localStep rootPath (localStep rootPath s BrowserIdle) (PromoteAnswered k (Some (claim, ar_generation a)))
     in lr_waiting t = None \<and> map_option ar_wanted (mapGet (lr_objects t) n) = Some None
        \<and> lr_log t = lr_log s @ [UploadHalted, UploadStarted (ar_key a) claim (ar_generation a) (ar_positionMs a)]"
  using assms by (simp add: browserMediaIdle_def currentRoom_def promoteAnswered_def Let_def stopWatching_def localNote_def updRoom_def)

text \<open>A guest who asks while the next source is prepared, when that one fails: the old source stays attached and is never promoted.\<close>

theorem failed_source_forgets_the_guest:
  assumes "lr_current s = Some n" "mapGet (lr_objects s) n = Some a" "ar_produces a" "\<not> lr_copies s" "lr_preparing s"
    and "mapGet (lr_attaches s) k = Some (generation, Some seat)" "ar_wanted a = None"
  shows "let t = localStep rootPath (localStep rootPath s (BrowserNeeded auth (ar_generation a))) (AttachEnded k (Inl why))
     in lr_waiting t = Some (auth, ar_generation a) \<and> lr_current t = Some n \<and> \<not> lr_preparing t
        \<and> mapGet (lr_objects t) n = Some a \<and> lr_log t = lr_log s"
  using assms by (simp add: needBrowserMedia_def currentRoom_def attachEnded_def Let_def)

text \<open>Two sources asked for: the one the app prepares last is attached, be it the older one.\<close>

theorem slow_source_replaces_the_newer:
  assumes "mapGet (lr_attaches s) k = Some (generation, Some seat)" "mapGet (lr_attaches s) j = Some (Suc generation, Some seat)"
    and "k \<noteq> j" "lr_waiting s = None"
  shows "let t = localStep rootPath (localStep rootPath s (AttachEnded j (Inr (newer, d)))) (AttachEnded k (Inr (older, d)))
     in \<exists>n a. lr_current t = Some n \<and> mapGet (lr_objects t) n = Some a \<and> ar_generation a = generation \<and> ar_key a = older"
proof -
  have waits: "lr_waiting (attachRoom rootPath g p key d t) = lr_waiting t" for g p key t
    by (auto simp: attachRoom_def Let_def detachRoom_def split: option.splits)
  have calls: "lr_attaches (attachRoom rootPath g p key d t) = lr_attaches t" for g p key t
    by (auto simp: attachRoom_def Let_def detachRoom_def localNote_def updRoom_def split: option.splits)
  have attached: "\<exists>n a. lr_current (attachRoom rootPath g (Some q) key d t) = Some n
      \<and> mapGet (lr_objects (attachRoom rootPath g (Some q) key d t)) n = Some a \<and> ar_generation a = g \<and> ar_key a = key" for g q key t
    by (simp add: attachRoom_def Let_def newAttached_def)
  show ?thesis
    using assms attached by (simp add: attachEnded_def Let_def waits calls)
qed

text \<open>A name with a dot at its end names the same host: the suffixes kept out come in with one.\<close>

theorem dotted_name_is_taken_for_public:
  "publicTracker (\<lambda>_. Some \<lparr>tu_protocol = ''http:'', tu_hostname = ''localhost.''\<rparr>) raw"
  "publicTracker (\<lambda>_. Some \<lparr>tu_protocol = ''http:'', tu_hostname = ''router.lan.''\<rparr>) raw"
  "\<not> publicTracker (\<lambda>_. Some \<lparr>tu_protocol = ''http:'', tu_hostname = ''router.lan''\<rparr>) raw"
  by code_simp+

text \<open>What a guest's app is given: a page of YouTube, or a magnet of a hash, a name and trackers that passed the check.\<close>

theorem guests_open_only_what_is_safe:
  assumes "safeLocalCopy parse utf8 enc given = Some copy"
  shows "(\<exists>videoId. isVideoId videoId \<and> copy = CopyYoutube (canonicalYoutubeUrl videoId) videoId)
     \<or> (\<exists>magnet index hash name trackers. given = CopyTorrent magnet index \<and> 0 \<le> index \<and> index \<in> \<int>
          \<and> copy = CopyTorrent (''magnet:?'' @ joinWith ''&'' ((''xt=urn:btih:'' @ hash) # name @ map (\<lambda>t. ''tr='' @ enc t) trackers)) index
          \<and> length name \<le> 1 \<and> length trackers \<le> MAX_TRACKERS \<and> list_all (publicTracker parse) trackers)"
proof (cases given)
  case (CopyYoutube url videoId)
  with assms show ?thesis by (auto simp: safeLocalCopy_def split: if_splits)
next
  case (CopyTorrent magnet index)
  then obtain parsed where parsed: "index = of_int \<lfloor>index\<rfloor>" "0 \<le> index"
      "copy = CopyTorrent (''magnet:?'' @ joinWith ''&'' (magnetParts parse enc parsed)) index"
    using assms by (auto simp: safeLocalCopy_def split: if_splits option.splits)
  have "list_all (publicTracker parse) (take MAX_TRACKERS (filter (publicTracker parse) (pm_trackers parsed)))"
    by (auto simp: list_all_iff dest: in_set_takeD)
  moreover have "index \<in> \<int>" using parsed(1) by (metis Ints_of_int)
  ultimately show ?thesis
    using parsed CopyTorrent unfolding magnetParts_def
    by (intro disjI2 exI [of _ magnet] exI [of _ index] exI [of _ "pm_infoHash parsed"]
        exI [of _ "if pm_dn parsed = [] then [] else [''dn='' @ enc (take 200 (pm_dn parsed))]"]
        exI [of _ "take MAX_TRACKERS (filter (publicTracker parse) (pm_trackers parsed))"]) simp
qed

end
