(* ===== verification/Live.thy ===== *)
theory Live
  imports Prelude JsText Youtube
begin

text \<open>
  A YouTube live as a room's source (\<open>live.ts\<close>): which producer takes it, the
  companion app or the fleet, and how this tab follows the one the app keeps
  and tells the server what became of it. The model is of one room: \<open>jlocalLives\<close>
  is kept by room. \<open>parse\<close> is the browser's \<open>URL\<close>.
\<close>

section \<open>Asking the server\<close>

record live_source =
  ls_url :: string
  ls_title :: string
  ls_thumbnail :: "string option"

datatype live_producer = FleetProducer | AppProducer

definition FINAL_VERDICTS :: "string list" where
  "FINAL_VERDICTS = [''youtube_unavailable'', ''youtube_unsupported'']"

text \<open>The server's answer: whether it is \<open>ok\<close>, the error's code and the broadcast its body holds; \<open>None\<close> where the request fails.\<close>

record live_answer =
  la_ok :: bool
  la_error :: string
  la_broadcast :: "string option"

text \<open>\<open>askServer\<close>: the error's code, or the broadcast. A link that names no video is not sent.\<close>

definition askServer :: "(string \<Rightarrow> parsed_url option) \<Rightarrow> live_source \<Rightarrow> live_answer option \<Rightarrow> string + string" where
  "askServer parse source answer =
     (case youtubeVideoId parse (ls_url source) of
        None \<Rightarrow> Inl ''invalid''
      | Some _ \<Rightarrow>
          (case answer of
             None \<Rightarrow> Inl ''network''
           | Some a \<Rightarrow>
               if \<not> la_ok a
               then (if la_error a = ''live_disabled'' then Inl ''no_workers''
                     else if startsWith (la_error a) ''youtube_'' \<or> la_error a = ''live_ended'' then Inl (la_error a)
                     else Inl ''failed'')
               else (case la_broadcast a of None \<Rightarrow> Inl ''failed'' | Some broadcast \<Rightarrow> Inr broadcast)))"

section \<open>Starting\<close>

text \<open>
  What each party answers to one start: whether the app is here with its tools,
  the server for each producer, the relay with whether this tab may publish
  (\<open>None\<close> where it fails), and the app: its status and the code of its error.
\<close>

record live_world =
  lw_ready :: bool
  lw_app :: "live_answer option"
  lw_relay :: "bool option"
  lw_started :: "(nat \<times> string) option"
  lw_fleet :: "live_answer option"

datatype live_result = StartFailed string | StartedBy live_producer

text \<open>The calls made, in order, and the outcome of \<open>startYoutubeLive\<close>, which begins with \<open>stopLive\<close> (the event \<open>LiveStopped\<close> below).\<close>

datatype live_request = AskedServer live_producer | AskedRelay | AskedApp

definition askFleet :: "(string \<Rightarrow> parsed_url option) \<Rightarrow> live_world \<Rightarrow> live_source \<Rightarrow> live_request list \<Rightarrow> live_request list \<times> live_result" where
  "askFleet parse w source made =
     (made @ [AskedServer FleetProducer],
      (case askServer parse source (lw_fleet w) of Inl e \<Rightarrow> StartFailed e | Inr _ \<Rightarrow> StartedBy FleetProducer))"

definition startYoutubeLive :: "(string \<Rightarrow> parsed_url option) \<Rightarrow> live_world \<Rightarrow> live_source \<Rightarrow> live_request list \<times> live_result" where
  "startYoutubeLive parse w source =
     (if \<not> lw_ready w then askFleet parse w source []
      else (case askServer parse source (lw_app w) of
              Inl e \<Rightarrow> ([AskedServer AppProducer], StartFailed e)
            | Inr _ \<Rightarrow>
                (case lw_relay w of
                   None \<Rightarrow> ([AskedServer AppProducer, AskedRelay], StartFailed ''network'')
                 | Some publish \<Rightarrow>
                     if \<not> publish then askFleet parse w source [AskedServer AppProducer, AskedRelay]
                     else (case lw_started w of
                             None \<Rightarrow> askFleet parse w source [AskedServer AppProducer, AskedRelay, AskedApp]
                           | Some (status, code) \<Rightarrow>
                               if status = 202 then ([AskedServer AppProducer, AskedRelay, AskedApp], StartedBy AppProducer)
                               else if code \<in> set FINAL_VERDICTS then ([AskedServer AppProducer, AskedRelay, AskedApp], StartFailed code)
                               else askFleet parse w source [AskedServer AppProducer, AskedRelay, AskedApp]))))"

text \<open>C28: every live gets its chance and its verdict. Whatever the app, the relay and the server answer: the app is asked before the fleet and each of them at most once; the app's live is the room's exactly when the app took it; the fleet is asked exactly when the app is not here, may not publish or turned the live down for a reason of its own; and what the app says of the live itself is the outcome, the fleet not asked.\<close>

theorem each_producer_gets_one_chance:
  "let (made, outcome) = startYoutubeLive parse w source in
     distinct made \<and> made \<in> {[AskedServer FleetProducer], [AskedServer AppProducer], [AskedServer AppProducer, AskedRelay],
          [AskedServer AppProducer, AskedRelay, AskedServer FleetProducer], [AskedServer AppProducer, AskedRelay, AskedApp],
          [AskedServer AppProducer, AskedRelay, AskedApp, AskedServer FleetProducer]}
     \<and> (outcome = StartedBy AppProducer \<longleftrightarrow> AskedApp \<in> set made \<and> (\<exists>code. lw_started w = Some (202, code)))
     \<and> (AskedServer FleetProducer \<in> set made \<longleftrightarrow>
          \<not> lw_ready w
          \<or> ((\<exists>b. askServer parse source (lw_app w) = Inr b)
             \<and> (lw_relay w = Some False
                \<or> (lw_relay w = Some True \<and> (case lw_started w of None \<Rightarrow> True
                     | Some (status, code) \<Rightarrow> status \<noteq> 202 \<and> code \<notin> set FINAL_VERDICTS)))))
     \<and> (AskedServer FleetProducer \<in> set made \<longrightarrow>
          (outcome = StartedBy FleetProducer \<longleftrightarrow> (\<exists>b. askServer parse source (lw_fleet w) = Inr b)))
     \<and> (AskedApp \<in> set made \<longrightarrow> (\<forall>status code. lw_started w = Some (status, code) \<longrightarrow> status \<noteq> 202 \<longrightarrow> code \<in> set FINAL_VERDICTS
          \<longrightarrow> outcome = StartFailed code))"
proof (cases "lw_ready w")
  case False
  then show ?thesis by (auto simp: startYoutubeLive_def askFleet_def split: sum.splits)
next
  case ready: True
  show ?thesis
  proof (cases "askServer parse source (lw_app w)")
    case (Inl e)
    with ready show ?thesis by (simp add: startYoutubeLive_def)
  next
    case server: (Inr b)
    show ?thesis
    proof (cases "lw_relay w")
      case None
      with ready server show ?thesis by (simp add: startYoutubeLive_def)
    next
      case (Some publish)
      with ready server show ?thesis
        by (cases publish; cases "lw_started w"; cases "askServer parse source (lw_fleet w)") (auto simp: startYoutubeLive_def askFleet_def split: if_splits)
    qed
  qed
qed

lemma each_producer_gets_one_chance_witness:
  "\<exists>parse w source. startYoutubeLive parse w source = ([AskedServer FleetProducer], StartedBy FleetProducer)
     \<and> (\<exists>b. askServer parse source (lw_fleet w) = Inr b)"
proof -
  let ?parse = "\<lambda>_. Some (watchUrl ''abcdefghijk'')"
  let ?source = "\<lparr>ls_url = canonicalYoutubeUrl ''abcdefghijk'', ls_title = [], ls_thumbnail = None\<rparr>"
  let ?w = "\<lparr>lw_ready = False, lw_app = None, lw_relay = None, lw_started = None,
     lw_fleet = Some \<lparr>la_ok = True, la_error = [], la_broadcast = Some ''b''\<rparr>\<rparr>"
  have started: "startYoutubeLive ?parse ?w ?source = ([AskedServer FleetProducer], StartedBy FleetProducer)" by code_simp
  with each_producer_gets_one_chance [of ?parse ?w ?source] have "\<exists>b. askServer ?parse ?source (lw_fleet ?w) = Inr b"
    unfolding started by simp
  with started have "startYoutubeLive ?parse ?w ?source = ([AskedServer FleetProducer], StartedBy FleetProducer)
     \<and> (\<exists>b. askServer ?parse ?source (lw_fleet ?w) = Inr b)" by (rule conjI)
  then show ?thesis by (intro exI)
qed

section \<open>Following the app's live\<close>

datatype live_phase = LiveStarting | LiveOn | LiveOver | LiveFailed

text \<open>One \<open>JlocalLive\<close>; \<open>fl_reported\<close> is \<open>None\<close> for the empty text.\<close>

record followed_live =
  fl_source :: live_source
  fl_auth :: "string \<times> string"
  fl_timer :: bool
  fl_reported :: "live_phase option"
  fl_stopped :: bool
  fl_wasLive :: bool

datatype live_effect =
    StateAsked nat
  | FleetAsked nat live_source
  | StateReported nat live_phase string
  | AppLiveDeleted

record live_room =
  vr_objects :: "(nat, followed_live) jsmap"
  vr_current :: "nat option"
  vr_asks :: "(nat, nat) jsmap"
  vr_handoffs :: "(nat, nat) jsmap"
  vr_reports :: "(nat, nat \<times> live_phase) jsmap"
  vr_made :: nat
  vr_log :: "live_effect list"

text \<open>What the app says: \<open>AppLost\<close> is a 404, \<open>AppSilent\<close> another refusal or no answer at all.\<close>

datatype app_says = AppLost | AppSilent | AppSays live_phase string

definition liveNote :: "live_effect list \<Rightarrow> live_room \<Rightarrow> live_room" where
  "liveNote es s = s\<lparr>vr_log := vr_log s @ es\<rparr>"

definition updLive :: "nat \<Rightarrow> (followed_live \<Rightarrow> followed_live) \<Rightarrow> live_room \<Rightarrow> live_room" where
  "updLive n f s =
     (case mapGet (vr_objects s) n of None \<Rightarrow> s | Some a \<Rightarrow> s\<lparr>vr_objects := mapSet n (f a) (vr_objects s)\<rparr>)"

definition haltLive :: "bool \<Rightarrow> nat \<Rightarrow> live_room \<Rightarrow> live_room" where
  "haltLive tellApp n s =
     liveNote (if tellApp then [AppLiveDeleted] else []) (updLive n (\<lambda>a. a\<lparr>fl_stopped := True, fl_timer := False\<rparr>) s)"

text \<open>\<open>stopLive\<close>, also what the page does as it is left.\<close>

definition stopLive :: "live_room \<Rightarrow> live_room" where
  "stopLive s = (case vr_current s of None \<Rightarrow> s | Some n \<Rightarrow> haltLive True n (s\<lparr>vr_current := None\<rparr>))"

text \<open>The end of a start the app took.\<close>

definition liveTaken :: "live_source \<Rightarrow> string \<times> string \<Rightarrow> live_room \<Rightarrow> live_room" where
  "liveTaken source auth s =
     s\<lparr>vr_objects := mapSet (vr_made s) \<lparr>fl_source = source, fl_auth = auth, fl_timer = True, fl_reported = None, fl_stopped = False,
           fl_wasLive = False\<rparr> (vr_objects s), vr_current := Some (vr_made s), vr_made := Suc (vr_made s)\<rparr>"

definition liveTick :: "nat \<Rightarrow> live_room \<Rightarrow> live_room" where
  "liveTick n s =
     (case mapGet (vr_objects s) n of
        None \<Rightarrow> s
      | Some a \<Rightarrow>
          if \<not> fl_timer a \<or> fl_stopped a then s
          else liveNote [StateAsked n] (s\<lparr>vr_asks := mapSet (vr_made s) n (vr_asks s), vr_made := Suc (vr_made s)\<rparr>))"

definition reportLive :: "nat \<Rightarrow> live_phase \<Rightarrow> string \<Rightarrow> live_room \<Rightarrow> live_room" where
  "reportLive n phase code s =
     liveNote [StateReported n phase code] (s\<lparr>vr_reports := mapSet (vr_made s) (n, phase) (vr_reports s), vr_made := Suc (vr_made s)\<rparr>)"

text \<open>\<open>refresh\<close> once the app answered: up to the next request.\<close>

definition stateAnswered :: "nat \<Rightarrow> app_says \<Rightarrow> live_room \<Rightarrow> live_room" where
  "stateAnswered k answer s =
     (case mapGet (vr_asks s) k of
        None \<Rightarrow> s
      | Some n \<Rightarrow>
          let s' = s\<lparr>vr_asks := mapDelete k (vr_asks s)\<rparr>
          in (case (mapGet (vr_objects s) n,
                    (case answer of AppLost \<Rightarrow> Some (LiveFailed, ''youtube_tool'') | AppSilent \<Rightarrow> None | AppSays phase code \<Rightarrow> Some (phase, code))) of
                (Some a, Some (phase, code)) \<Rightarrow>
                  if phase = LiveStarting \<or> fl_reported a = Some phase then s'
                  else let a' = a\<lparr>fl_reported := Some phase, fl_wasLive := (fl_wasLive a \<or> phase = LiveOn)\<rparr>;
                           s'' = updLive n (\<lambda>_. a') s'
                       in if phase = LiveFailed \<and> \<not> fl_wasLive a' \<and> code \<notin> set FINAL_VERDICTS
                          then let t = haltLive False n s''
                               in liveNote [FleetAsked (vr_made t) (fl_source a)]
                                    (t\<lparr>vr_current := None, vr_handoffs := mapSet (vr_made t) n (vr_handoffs t), vr_made := Suc (vr_made t)\<rparr>)
                          else reportLive n phase code s''
              | _ \<Rightarrow> s'))"

text \<open>The fleet's answer: \<open>None\<close> when it takes the live, or the code of its error.\<close>

definition handoffAnswered :: "nat \<Rightarrow> string option \<Rightarrow> live_room \<Rightarrow> live_room" where
  "handoffAnswered k failed s =
     (case mapGet (vr_handoffs s) k of
        None \<Rightarrow> s
      | Some n \<Rightarrow>
          let s' = s\<lparr>vr_handoffs := mapDelete k (vr_handoffs s)\<rparr>
          in (case failed of None \<Rightarrow> s' | Some code \<Rightarrow> reportLive n LiveFailed code s'))"

definition reportEnded :: "nat \<Rightarrow> bool \<Rightarrow> live_room \<Rightarrow> live_room" where
  "reportEnded k delivered s =
     (case mapGet (vr_reports s) k of
        None \<Rightarrow> s
      | Some (n, phase) \<Rightarrow>
          let s' = s\<lparr>vr_reports := mapDelete k (vr_reports s)\<rparr>;
              s'' = (if delivered then s' else updLive n (\<lambda>a. a\<lparr>fl_reported := None\<rparr>) s')
          in if phase = LiveOver \<or> phase = LiveFailed then haltLive False n s'' else s'')"

datatype live_event =
    LiveStopped
  | LiveTaken live_source "string \<times> string"
  | LiveTick nat
  | StateAnswered nat app_says
  | HandoffAnswered nat "string option"
  | ReportEnded nat bool

fun liveStep :: "live_room \<Rightarrow> live_event \<Rightarrow> live_room" where
  "liveStep s LiveStopped = stopLive s"
| "liveStep s (LiveTaken source auth) = liveTaken source auth s"
| "liveStep s (LiveTick n) = liveTick n s"
| "liveStep s (StateAnswered k answer) = stateAnswered k answer s"
| "liveStep s (HandoffAnswered k failed) = handoffAnswered k failed s"
| "liveStep s (ReportEnded k delivered) = reportEnded k delivered s"

lemma updLive_sel [simp]:
  "vr_log (updLive n f s) = vr_log s" "vr_made (updLive n f s) = vr_made s" "vr_current (updLive n f s) = vr_current s"
  "mapGet (vr_objects (updLive n f s)) = (mapGet (vr_objects s))(n := map_option f (mapGet (vr_objects s) n))"
  by (auto simp: updLive_def fun_eq_iff split: option.splits)

lemma liveNote_sel [simp]:
  "vr_objects (liveNote es s) = vr_objects s" "vr_made (liveNote es s) = vr_made s" "vr_log (liveNote es s) = vr_log s @ es"
  "vr_current (liveNote es s) = vr_current s"
  by (simp_all add: liveNote_def)

text \<open>A live that was stopped stays so and is asked about no more; answers still on their way are the exception the theorems below are about.\<close>

lemma stopped_live_is_left_alone:
  assumes "mapGet (vr_objects s) n = Some a" "fl_stopped a" "n < vr_made s"
  shows "(\<exists>a'. mapGet (vr_objects (liveStep s ev)) n = Some a' \<and> fl_stopped a')
     \<and> (\<exists>es. vr_log (liveStep s ev) = vr_log s @ es \<and> StateAsked n \<notin> set es)"
proof (cases ev)
  case LiveStopped
  then show ?thesis using assms by (auto simp: stopLive_def haltLive_def split: option.splits)
next
  case (LiveTaken source auth)
  then show ?thesis using assms by (auto simp: liveTaken_def)
next
  case (LiveTick m)
  then show ?thesis using assms by (auto simp: liveTick_def split: option.splits)
next
  case (StateAnswered k answer)
  then show ?thesis using assms
    by (auto simp: stateAnswered_def Let_def haltLive_def reportLive_def split: option.splits)
next
  case (HandoffAnswered k failed)
  then show ?thesis using assms by (auto simp: handoffAnswered_def Let_def reportLive_def split: option.splits)
next
  case (ReportEnded k delivered)
  then show ?thesis using assms by (auto simp: reportEnded_def Let_def haltLive_def split: option.splits)
qed

text \<open>The end of a live is said once: a report of it that is lost forgets that it was made, to be made again, and stops the asking that would make it.\<close>

theorem lost_report_is_never_made_again:
  assumes "mapGet (vr_reports s) k = Some (n, phase)" "phase = LiveOver \<or> phase = LiveFailed" "mapGet (vr_objects s) n = Some a"
  shows "\<exists>a'. mapGet (vr_objects (liveStep s (ReportEnded k False))) n = Some a' \<and> fl_reported a' = None \<and> fl_stopped a'
     \<and> liveStep (liveStep s (ReportEnded k False)) (LiveTick n) = liveStep s (ReportEnded k False)"
proof -
  let ?t = "liveStep s (ReportEnded k False)"
  have "mapGet (vr_objects ?t) n = Some (a\<lparr>fl_reported := None, fl_stopped := True, fl_timer := False\<rparr>)"
    using assms by (auto simp: reportEnded_def Let_def haltLive_def)
  then show ?thesis by (simp add: liveTick_def del: liveStep.simps(6))
qed

text \<open>A live stopped while the app is asked about it: the app, told to drop it, answers that it has none, and the fleet is asked for a live the room has left, the entry of the one that came after it removed.\<close>

theorem stopped_live_goes_to_the_fleet:
  assumes "vr_current s = Some n" "mapGet (vr_objects s) n = Some a" "\<not> fl_wasLive a" "fl_reported a = None" "n < vr_made s"
    and "mapGet (vr_asks s) k = Some n"
  shows "let t = liveStep (liveStep s LiveStopped) (LiveTaken source auth)
     in vr_current t = Some (vr_made s) \<and> vr_current (liveStep t (StateAnswered k AppLost)) = None
        \<and> vr_log (liveStep t (StateAnswered k AppLost)) = vr_log s @ [AppLiveDeleted, FleetAsked (Suc (vr_made s)) (fl_source a)]"
proof -
  define t where "t = liveStep (liveStep s LiveStopped) (LiveTaken source auth)"
  have sel: "vr_asks (updLive m f x) = vr_asks x" "vr_asks (liveNote es x) = vr_asks x" for m f x es
    by (simp_all add: updLive_def liveNote_def split: option.splits)
  have t: "vr_current t = Some (vr_made s)" "vr_made t = Suc (vr_made s)" "vr_log t = vr_log s @ [AppLiveDeleted]"
      "mapGet (vr_asks t) k = Some n" "mapGet (vr_objects t) n = Some (a\<lparr>fl_stopped := True, fl_timer := False\<rparr>)"
    using assms by (simp_all add: t_def stopLive_def haltLive_def liveTaken_def sel)
  have "vr_current (liveStep t (StateAnswered k AppLost)) = None"
    "vr_log (liveStep t (StateAnswered k AppLost)) = vr_log t @ [FleetAsked (vr_made t) (fl_source a)]"
    using t assms(3,4) by (simp_all add: stateAnswered_def Let_def haltLive_def FINAL_VERDICTS_def)
  then show ?thesis using t unfolding t_def [symmetric] Let_def by simp
qed

end
