(* ===== verification/Remote.thy ===== *)
theory Remote
  imports Prelude JsText JsonRead
begin

text \<open>
  The page on a television: what a key of the remote asks for (\<open>tv/keys.ts\<close>) and
  where an arrow moves the focus (\<open>tv/spatial.ts\<close>). Lengths are rationals; the
  document is the boxes of what can be focused, with the one in focus.
\<close>

section \<open>Keys (keys.ts)\<close>

datatype tv_key =
    KeyUp | KeyDown | KeyLeft | KeyRight | KeyEnter | KeyBack | KeyPlayPause | KeyPlay | KeyPause | KeyForward | KeyRewind | KeyMenu

definition BY_CODE :: "(nat \<times> tv_key) list" where
  "BY_CODE =
     [(38, KeyUp), (40, KeyDown), (37, KeyLeft), (39, KeyRight), (13, KeyEnter), (10009, KeyBack), (461, KeyBack),
      (10252, KeyPlayPause), (415, KeyPlay), (19, KeyPause), (417, KeyForward), (412, KeyRewind), (403, KeyMenu), (457, KeyMenu)]"

definition BY_KEY :: "(string \<times> tv_key) list" where
  "BY_KEY =
     [(''ArrowUp'', KeyUp), (''ArrowDown'', KeyDown), (''ArrowLeft'', KeyLeft), (''ArrowRight'', KeyRight), (''Enter'', KeyEnter),
      (''Escape'', KeyBack), (''Backspace'', KeyBack), (''GoBack'', KeyBack), (''BrowserBack'', KeyBack), (''XF86Back'', KeyBack),
      (''MediaPlayPause'', KeyPlayPause), (''MediaPlay'', KeyPlay), (''MediaPause'', KeyPause), (''MediaFastForward'', KeyForward),
      (''MediaRewind'', KeyRewind), (''ColorF0Red'', KeyMenu), (''ContextMenu'', KeyMenu), (''Info'', KeyMenu)]"

definition tvKeyAction :: "string \<Rightarrow> nat \<Rightarrow> tv_key option" where
  "tvKeyAction key keyCode = (case map_of BY_CODE keyCode of Some action \<Rightarrow> Some action | None \<Rightarrow> map_of BY_KEY key)"

text \<open>Of the five keys of transport; the others are not passed to it.\<close>

definition playerKeyFor :: "tv_key \<Rightarrow> bool \<Rightarrow> string option" where
  "playerKeyFor action paused =
     (case action of
        KeyForward \<Rightarrow> Some ''l''
      | KeyRewind \<Rightarrow> Some ''j''
      | KeyPlay \<Rightarrow> if paused then Some ''k'' else None
      | KeyPause \<Rightarrow> if paused then None else Some ''k''
      | KeyPlayPause \<Rightarrow> Some ''k''
      | _ \<Rightarrow> None)"

datatype tv_platform = Tizen | WebOS | Browser

definition shellPlatform :: "json \<Rightarrow> string \<Rightarrow> tv_platform" where
  "shellPlatform message userAgent =
     (let said = (case message of
            JObj shell \<Rightarrow>
              if jsonField shell ''type'' = Some (JStr ''juntos-tv:shell'')
              then (if jsonField shell ''platform'' = Some (JStr ''tizen'') then Some Tizen
                    else if jsonField shell ''platform'' = Some (JStr ''webos'') then Some WebOS else None)
              else None
          | _ \<Rightarrow> None)
      in case said of
           Some p \<Rightarrow> p
         | None \<Rightarrow>
             if hasSub userAgent ''Web0S'' \<or> hasSub userAgent ''webOS'' then WebOS
             else if hasSub userAgent ''Tizen'' then Tizen else Browser)"

text \<open>\<open>listenForShell\<close>: a message changes the platform only when it names one.\<close>

definition shellSaid :: "json \<Rightarrow> tv_platform \<Rightarrow> tv_platform" where
  "shellSaid message current = (let said = shellPlatform message [] in if said \<noteq> Browser then said else current)"

section \<open>Focus (spatial.ts)\<close>

datatype direction = GoUp | GoDown | GoLeft | GoRight

record tv_box =
  tb_left :: rat
  tb_top :: rat
  tb_right :: rat
  tb_bottom :: rat

definition OFF_AXIS_WEIGHT :: rat where "OFF_AXIS_WEIGHT = 2"

definition CENTER_WEIGHT :: rat where "CENTER_WEIGHT = 1 / 4"

definition centerX :: "tv_box \<Rightarrow> rat" where "centerX b = (tb_left b + tb_right b) / 2"

definition centerY :: "tv_box \<Rightarrow> rat" where "centerY b = (tb_top b + tb_bottom b) / 2"

definition rangeGap :: "rat \<Rightarrow> rat \<Rightarrow> rat \<Rightarrow> rat \<Rightarrow> rat" where
  "rangeGap a0 a1 b0 b1 = max 0 (max (b0 - a1) (a0 - b1))"

definition horizontal :: "direction \<Rightarrow> bool" where
  "horizontal d \<longleftrightarrow> d = GoLeft \<or> d = GoRight"

definition isForward :: "direction \<Rightarrow> bool" where
  "isForward d \<longleftrightarrow> d = GoRight \<or> d = GoDown"

definition alongOf :: "direction \<Rightarrow> tv_box \<Rightarrow> tv_box \<Rightarrow> rat" where
  "alongOf d origin b =
     (let away = (if horizontal d then centerX b - centerX origin else centerY b - centerY origin)
      in if isForward d then away else - away)"

definition scoreOf :: "direction \<Rightarrow> tv_box \<Rightarrow> tv_box \<Rightarrow> rat" where
  "scoreOf d origin b =
     (let primary = (if horizontal d
            then max 0 (if isForward d then tb_left b - tb_right origin else tb_left origin - tb_right b)
            else max 0 (if isForward d then tb_top b - tb_bottom origin else tb_top origin - tb_bottom b));
          gap = (if horizontal d then rangeGap (tb_top origin) (tb_bottom origin) (tb_top b) (tb_bottom b)
                 else rangeGap (tb_left origin) (tb_right origin) (tb_left b) (tb_right b));
          offCenter = (if horizontal d then \<bar>centerY b - centerY origin\<bar> else \<bar>centerX b - centerX origin\<bar>)
      in primary + gap * OFF_AXIS_WEIGHT + offCenter * CENTER_WEIGHT)"

text \<open>
  The loop of \<open>nearestInDirection\<close>: the best index with its score so far. The
  code skips the box the press comes from by identity; that box is nowhere ahead
  of itself, so the test of \<open>alongOf\<close> skips it too.
\<close>

fun nearestLoop :: "direction \<Rightarrow> tv_box \<Rightarrow> nat \<Rightarrow> tv_box list \<Rightarrow> (nat \<times> rat) option \<Rightarrow> (nat \<times> rat) option" where
  "nearestLoop d origin i [] best = best"
| "nearestLoop d origin i (b # bs) best =
     (if alongOf d origin b \<le> 1 then nearestLoop d origin (Suc i) bs best
      else let score = scoreOf d origin b
           in if (case best of None \<Rightarrow> True | Some (_, bestScore) \<Rightarrow> score < bestScore)
              then nearestLoop d origin (Suc i) bs (Some (i, score))
              else nearestLoop d origin (Suc i) bs best)"

definition nearestInDirection :: "tv_box \<Rightarrow> tv_box list \<Rightarrow> direction \<Rightarrow> nat option" where
  "nearestInDirection origin boxes d = map_option fst (nearestLoop d origin 0 boxes None)"

text \<open>Nothing in focus: the first of the topmost, then leftmost.\<close>

definition topLeft :: "tv_box list \<Rightarrow> nat option" where
  "topLeft boxes =
     (case sort_key (\<lambda>i. tb_left (boxes ! i)) [0..<length boxes] of
        [] \<Rightarrow> None
      | is \<Rightarrow> Some (hd (sort_key (\<lambda>i. tb_top (boxes ! i)) is)))"

text \<open>Where the focus goes, of the elements that can have it; \<open>None\<close> when it stays.\<close>

definition moveFocus :: "direction \<Rightarrow> tv_box list \<Rightarrow> nat option \<Rightarrow> nat option" where
  "moveFocus d boxes active =
     (case active of
        Some i \<Rightarrow> if i < length boxes then nearestInDirection (boxes ! i) boxes d else topLeft boxes
      | None \<Rightarrow> topLeft boxes)"

lemma nearestLoop_best:
  assumes "\<forall>j s. best = Some (j, s) \<longrightarrow> j < i"
  shows "case nearestLoop d origin i bs best of
       None \<Rightarrow> best = None \<and> (\<forall>b \<in> set bs. alongOf d origin b \<le> 1)
     | Some (k, score) \<Rightarrow>
         (best = Some (k, score) \<or> (i \<le> k \<and> k < i + length bs \<and> score = scoreOf d origin (bs ! (k - i)) \<and> 1 < alongOf d origin (bs ! (k - i))))
         \<and> (\<forall>j s. best = Some (j, s) \<longrightarrow> score \<le> s)
         \<and> (\<forall>b \<in> set bs. 1 < alongOf d origin b \<longrightarrow> score \<le> scoreOf d origin b)"
  using assms
proof (induction d origin i bs best rule: nearestLoop.induct)
  case (2 d origin i b bs best)
  show ?case
  proof (cases "alongOf d origin b \<le> 1")
    case True
    with 2(1) [OF True] "2.prems" show ?thesis
      by (fastforce simp: nth_Cons' less_Suc_eq_le split: option.splits)
  next
    case behind: False
    show ?thesis
    proof (cases "case best of None \<Rightarrow> True | Some (_, bestScore) \<Rightarrow> scoreOf d origin b < bestScore")
      case True
      from 2(2) [OF behind refl True] behind True show ?thesis
        by (fastforce simp: nth_Cons' Let_def split: option.splits)
    next
      case False
      then obtain j s where best: "best = Some (j, s)" "s \<le> scoreOf d origin b" by (auto split: option.splits)
      from 2(3) [OF behind refl False] behind False best "2.prems" show ?thesis
        by (fastforce simp: nth_Cons' Let_def split: option.splits)
    qed
  qed
qed (auto split: option.splits)

text \<open>an arrow lands where a remote should. From the box in focus it goes to a box that lies ahead in that direction, never to the one it is on, and no box ahead is nearer by the weighted distance; it stays exactly when nothing lies ahead. So going one way never comes round in a circle: every step moves the centre on by more than a pixel.\<close>

theorem arrow_lands_ahead:
  assumes "i < length boxes"
  shows "case moveFocus d boxes (Some i) of
       None \<Rightarrow> \<forall>b \<in> set boxes. alongOf d (boxes ! i) b \<le> 1
     | Some k \<Rightarrow> k < length boxes \<and> k \<noteq> i \<and> 1 < alongOf d (boxes ! i) (boxes ! k)
         \<and> (\<forall>b \<in> set boxes. 1 < alongOf d (boxes ! i) b \<longrightarrow> scoreOf d (boxes ! i) (boxes ! k) \<le> scoreOf d (boxes ! i) b)"
proof -
  have self: "alongOf d b b = 0" for b by (simp add: alongOf_def)
  show ?thesis
    using nearestLoop_best [of None 0 boxes d "boxes ! i"] assms
    by (auto simp: moveFocus_def nearestInDirection_def self split: option.splits)
qed

lemma arrow_lands_ahead_witness:
  "moveFocus GoRight [\<lparr>tb_left = 0, tb_top = 0, tb_right = 10, tb_bottom = 10\<rparr>, \<lparr>tb_left = 20, tb_top = 40, tb_right = 30, tb_bottom = 50\<rparr>,
     \<lparr>tb_left = 40, tb_top = 0, tb_right = 50, tb_bottom = 10\<rparr>] (Some 0) = Some 2
   \<and> 1 < alongOf GoRight \<lparr>tb_left = 0, tb_top = 0, tb_right = 10, tb_bottom = 10\<rparr> \<lparr>tb_left = 40, tb_top = 0, tb_right = 50, tb_bottom = 10\<rparr>"
proof -
  let ?boxes = "[\<lparr>tb_left = 0, tb_top = 0, tb_right = 10, tb_bottom = 10\<rparr>, \<lparr>tb_left = 20, tb_top = 40, tb_right = 30, tb_bottom = 50\<rparr>,
     \<lparr>tb_left = 40, tb_top = 0, tb_right = 50, tb_bottom = 10\<rparr>]"
  have moved: "moveFocus GoRight ?boxes (Some 0) = Some 2"
    by (simp add: moveFocus_def nearestInDirection_def alongOf_def scoreOf_def rangeGap_def horizontal_def isForward_def
        centerX_def centerY_def OFF_AXIS_WEIGHT_def CENTER_WEIGHT_def Let_def)
  from arrow_lands_ahead [of 0 ?boxes GoRight] show ?thesis unfolding moved by simp
qed

text \<open>A transport key never turns a playing video off by saying play, nor on by saying pause.\<close>

lemma transport_says_what_is_asked:
  "playerKeyFor KeyPlay False = None" "playerKeyFor KeyPause True = None"
  "playerKeyFor KeyPlay True = playerKeyFor KeyPause False"
  by (simp_all add: playerKeyFor_def)

lemma shell_is_not_unsaid:
  assumes "current \<noteq> Browser"
  shows "shellSaid message current \<noteq> Browser"
  using assms by (simp add: shellSaid_def Let_def)

end
