(* ===== verification/TvLink.thy ===== *)
theory TvLink
  imports Prelude JsText Door
begin

text \<open>
  A television linked to an account: its session (\<open>tv/session.ts\<close>, the requests of
  \<open>tv/useTvSession.ts\<close>), the code that links it (\<open>tvlink/code.ts\<close>, \<open>formatCode\<close> of
  \<open>tv/api.ts\<close>), and how loud it plays whom (\<open>tv/mix.ts\<close>, \<open>tvlink/mix.ts\<close>).
\<close>

section \<open>The code\<close>

text \<open>\<open>replace('-', '')\<close>: the first hyphen.\<close>

definition dropHyphen :: "string \<Rightarrow> string" where
  "dropHyphen s = takeWhile (\<lambda>c. c \<noteq> CHR ''-'') s @ drop 1 (dropWhile (\<lambda>c. c \<noteq> CHR ''-'') s)"

definition linkCodeFrom :: "string \<Rightarrow> string option" where
  "linkCodeFrom input =
     (let candidate = dropHyphen (concat (map upperText (trim input))) in if isCode candidate then Some candidate else None)"

definition formatCodeInput :: "string \<Rightarrow> string" where
  "formatCodeInput typed =
     (let raw = take 8 (filter (\<lambda>c. isDigit c \<or> (65 \<le> codeOf c \<and> codeOf c \<le> 90)) (concat (map upperText typed)))
      in if 4 < length raw then take 4 raw @ ''-'' @ drop 4 raw else raw)"

definition formatTvCode :: "string \<Rightarrow> string" where
  "formatTvCode code = (if length code = 8 then take 4 code @ ''-'' @ drop 4 code else code)"

text \<open>the code a television shows is the code the phone sends, as it is shown, typed with or without its hyphen, and as the field writes it out.\<close>

lemma tv_code_reads_back:
  assumes "isCode code"
  shows "linkCodeFrom (formatTvCode code) = Some code" "linkCodeFrom code = Some code" "formatCodeInput code = formatTvCode code"
proof -
  have plain: "CHR ''-'' \<notin> set code" "\<And>c. c \<in> set code \<Longrightarrow> \<not> isSpace c"
    using code_chars [OF assms] by (fastforce simp: codeOf_def)+
  have len: "length code = 8" using assms by (simp add: isCode_def)
  have parts: "take 4 code \<noteq> []" "drop 4 code \<noteq> []" using len by auto
  have upper: "concat (map upperText (take 4 code @ ''-'' @ drop 4 code)) = take 4 code @ ''-'' @ drop 4 code"
  proof -
    have kept: "concat (map upperText s) = s" if "\<forall>c \<in> set s. codeOf c \<le> 90" for s
      using that by (induction s) (auto simp: upperText_def upperChar_def)
    show ?thesis
      by (rule kept) (use code_chars(2) [OF assms] in \<open>auto simp: codeOf_def dest: in_set_takeD in_set_dropD\<close>)
  qed
  have whole: "takeWhile (\<lambda>c. c \<noteq> CHR ''-'') s = s" "dropWhile (\<lambda>c. c \<noteq> CHR ''-'') s = []" if "CHR ''-'' \<notin> set s" for s
    using that by (induction s) auto
  have "CHR ''-'' \<notin> set (take 4 code)" using plain(1) by (auto dest: in_set_takeD)
  then have "dropHyphen (take 4 code @ ''-'' @ drop 4 code) = code"
    by (auto simp: dropHyphen_def takeWhile_append dropWhile_append)
  moreover have "dropHyphen code = code" unfolding dropHyphen_def whole [OF plain(1)] by simp
  ultimately have dropped: "dropHyphen (take 4 code @ ''-'' @ drop 4 code) = code" "dropHyphen code = code" .
  show "linkCodeFrom (formatTvCode code) = Some code"
    using assms len parts plain upper dropped by (simp add: linkCodeFrom_def formatTvCode_def trim_id)
  show "linkCodeFrom code = Some code"
  proof -
    have "code \<noteq> []" using len by auto
    then have "trim code = code" using plain(2) by (intro trim_id) simp
    then show ?thesis using assms by (simp add: linkCodeFrom_def code_text dropped)
  qed
  have "filter (\<lambda>c. isDigit c \<or> (65 \<le> codeOf c \<and> codeOf c \<le> 90)) code = code"
    using assms by (simp add: isCode_def filter_id_conv list_all_iff)
  then show "formatCodeInput code = formatTvCode code"
    using assms len by (simp add: formatCodeInput_def formatTvCode_def code_text Let_def)
qed

section \<open>How loud\<close>

record tv_mix =
  mx_media :: rat
  mx_people :: "(string, rat) jsmap"

definition DEFAULT_MIX :: tv_mix where "DEFAULT_MIX = \<lparr>mx_media = 1, mx_people = []\<rparr>"

definition clampLevel :: "rat \<Rightarrow> rat" where "clampLevel v = min 1 (max 0 v)"

text \<open>A member is its id, the account it is signed in to and whether the hub marks it \<open>tv\<close>.\<close>

definition ownerMemberId :: "(string \<times> nat option \<times> bool) list \<Rightarrow> nat \<Rightarrow> string option" where
  "ownerMemberId members accountId =
     (let mine = filter (\<lambda>(_, account, _). account = Some accountId) members
      in case find (\<lambda>(_, _, tv). tv) mine of
           Some (i, _) \<Rightarrow> Some i
         | None \<Rightarrow> (case mine of [] \<Rightarrow> None | (i, _) # _ \<Rightarrow> Some i))"

definition memberVolume :: "tv_mix \<Rightarrow> string option \<Rightarrow> string \<Rightarrow> rat" where
  "memberVolume mix ownerId i =
     (case mapGet (mx_people mix) i of None \<Rightarrow> if ownerId = Some i then 0 else 1 | Some v \<Rightarrow> clampLevel v)"

definition memberVolumes :: "tv_mix \<Rightarrow> string list \<Rightarrow> string option \<Rightarrow> (string, rat) jsmap" where
  "memberVolumes mix memberIds ownerId = foldl (\<lambda>volumes i. mapSet i (memberVolume mix ownerId i) volumes) [] memberIds"

definition onlyMedia :: "tv_mix \<Rightarrow> string list \<Rightarrow> tv_mix" where
  "onlyMedia mix memberIds = \<lparr>mx_media = mx_media mix, mx_people = foldl (\<lambda>people i. mapSet i 0 people) [] memberIds\<rparr>"

definition withPerson :: "tv_mix \<Rightarrow> string \<Rightarrow> rat \<Rightarrow> tv_mix" where
  "withPerson mix memberId volume = mix\<lparr>mx_people := mapSet memberId (clampLevel volume) (mx_people mix)\<rparr>"

definition withMedia :: "tv_mix \<Rightarrow> rat \<Rightarrow> tv_mix" where
  "withMedia mix volume = mix\<lparr>mx_media := clampLevel volume\<rparr>"

text \<open>The phone's side.\<close>

definition levelIn :: "tv_mix \<Rightarrow> string \<Rightarrow> string \<Rightarrow> rat" where
  "levelIn mix memberId ownerId = orElse (mapGet (mx_people mix) memberId) (if memberId = ownerId then 0 else 1)"

definition withLevel :: "tv_mix \<Rightarrow> string \<Rightarrow> rat \<Rightarrow> string \<Rightarrow> tv_mix" where
  "withLevel mix memberId level ownerId =
     mix\<lparr>mx_people := mapSet memberId level (foldl (\<lambda>people (i, v). mapSet i v people) [(ownerId, levelIn mix ownerId ownerId)] (mx_people mix))\<rparr>"

definition onlyMediaPhone :: "tv_mix \<Rightarrow> string list \<Rightarrow> tv_mix" where
  "onlyMediaPhone mix memberIds = mix\<lparr>mx_people := foldl (\<lambda>people i. mapSet i 0 people) [] (memberIds @ mapKeys (mx_people mix))\<rparr>"

section \<open>The session\<close>

record tv_link =
  tl_token :: string
  tl_account :: "nat \<times> string"
  tl_device :: "string \<times> string"

datatype tv_session = TvPairing | TvChecking string | TvWaiting tv_link | TvInRoom tv_link string string

datatype tv_event =
    TvLinked tv_link
  | TvMe "nat \<times> string" "string \<times> string"
  | TvCast string string
  | TvStop
  | TvRoomClosed string
  | TvRevoked

definition initialSession :: "string option \<Rightarrow> tv_session" where
  "initialSession token = (case token of None \<Rightarrow> TvPairing | Some t \<Rightarrow> if t = [] then TvPairing else TvChecking t)"

fun sessionReducer :: "tv_session \<Rightarrow> tv_event \<Rightarrow> tv_session" where
  "sessionReducer state TvRevoked = TvPairing"
| "sessionReducer state (TvLinked link) = TvWaiting link"
| "sessionReducer state (TvMe account device) =
     (case state of TvChecking token \<Rightarrow> TvWaiting \<lparr>tl_token = token, tl_account = account, tl_device = device\<rparr> | _ \<Rightarrow> state)"
| "sessionReducer state (TvCast roomId ticket) =
     (case state of TvWaiting link \<Rightarrow> TvInRoom link roomId ticket | TvInRoom link _ _ \<Rightarrow> TvInRoom link roomId ticket | _ \<Rightarrow> state)"
| "sessionReducer state TvStop = (case state of TvInRoom link _ _ \<Rightarrow> TvWaiting link | _ \<Rightarrow> state)"
| "sessionReducer state (TvRoomClosed closedId) =
     (case state of TvInRoom link roomId _ \<Rightarrow> if roomId = closedId then TvWaiting link else state | _ \<Rightarrow> state)"

definition tokenOf :: "tv_session \<Rightarrow> string option" where
  "tokenOf state = (case state of TvPairing \<Rightarrow> None | TvChecking t \<Rightarrow> Some t | TvWaiting link \<Rightarrow> Some (tl_token link) | TvInRoom link _ _ \<Rightarrow> Some (tl_token link))"

definition checkingToken :: "tv_session \<Rightarrow> string option" where
  "checkingToken state = (case state of TvChecking t \<Rightarrow> Some t | _ \<Rightarrow> None)"

definition channelToken :: "tv_session \<Rightarrow> string option" where
  "channelToken state = (case state of TvWaiting link \<Rightarrow> Some (tl_token link) | TvInRoom link _ _ \<Rightarrow> Some (tl_token link) | _ \<Rightarrow> None)"

text \<open>
  The hook: the token in the browser's storage, the check of a kept token,
  asked or waiting to be asked again, and the checks a refused socket asked
  for, one at a time for a token, which nothing cancels.
\<close>

record tv_page =
  tp_session :: tv_session
  tp_stored :: "string option"
  tp_check :: "nat option"
  tp_retry :: bool
  tp_refused :: "(nat, string) jsmap"
  tp_made :: nat

text \<open>The effects after a dispatch: the storage follows the token, and the check is asked again when the token being checked changes.\<close>

definition tvDispatch :: "tv_event \<Rightarrow> tv_page \<Rightarrow> tv_page" where
  "tvDispatch ev page =
     (let session = sessionReducer (tp_session page) ev;
          page' = page\<lparr>tp_session := session, tp_stored := tokenOf session\<rparr>
      in if checkingToken session = checkingToken (tp_session page) then page'
         else page'\<lparr>tp_check := None, tp_retry := False\<rparr>)"

definition tvMount :: "string option \<Rightarrow> tv_page" where
  "tvMount kept =
     (let session = initialSession kept
      in \<lparr>tp_session = session, tp_stored = tokenOf session, tp_check = (if checkingToken session = None then None else Some 0),
          tp_retry = False, tp_refused = [], tp_made = 1\<rparr>)"

datatype me_answer = MeIs "nat \<times> string" "string \<times> string" | MeRevoked | MeFailed

definition checkAnswered :: "nat \<Rightarrow> me_answer \<Rightarrow> tv_page \<Rightarrow> tv_page" where
  "checkAnswered k answer page =
     (if tp_check page \<noteq> Some k then page
      else let page' = page\<lparr>tp_check := None\<rparr>
           in case answer of
                MeRevoked \<Rightarrow> tvDispatch TvRevoked page'
              | MeIs account device \<Rightarrow> tvDispatch (TvMe account device) page'
              | MeFailed \<Rightarrow> page'\<lparr>tp_retry := True\<rparr>)"

definition checkAgain :: "tv_page \<Rightarrow> tv_page" where
  "checkAgain page =
     (if tp_retry page then page\<lparr>tp_retry := False, tp_check := Some (tp_made page), tp_made := Suc (tp_made page)\<rparr> else page)"

definition socketRefused :: "tv_page \<Rightarrow> tv_page" where
  "socketRefused page =
     (case channelToken (tp_session page) of
        None \<Rightarrow> page
      | Some token \<Rightarrow>
          if token \<in> snd ` set (tp_refused page) then page
          else page\<lparr>tp_refused := mapSet (tp_made page) token (tp_refused page), tp_made := Suc (tp_made page)\<rparr>)"

definition refusedAnswered :: "nat \<Rightarrow> bool \<Rightarrow> tv_page \<Rightarrow> tv_page" where
  "refusedAnswered k revoked page =
     (case mapGet (tp_refused page) k of
        None \<Rightarrow> page
      | Some _ \<Rightarrow>
          let page' = page\<lparr>tp_refused := mapDelete k (tp_refused page)\<rparr>
          in if revoked then tvDispatch TvRevoked page' else page')"

datatype tv_page_event =
    PhoneLinked tv_link
  | ChannelSaid tv_event
  | RoomLetGo string
  | CheckAnswered nat me_answer
  | CheckAgain
  | SocketRefused
  | RefusedAnswered nat bool

text \<open>The channel says \<open>cast\<close>, \<open>stop\<close> and \<open>revoked\<close>, and only while it is open.\<close>

definition saidByChannel :: "tv_event \<Rightarrow> bool" where
  "saidByChannel ev \<longleftrightarrow> (case ev of TvCast _ _ \<Rightarrow> True | TvStop \<Rightarrow> True | TvRevoked \<Rightarrow> True | _ \<Rightarrow> False)"

fun tvStep :: "tv_page \<Rightarrow> tv_page_event \<Rightarrow> tv_page" where
  "tvStep page (PhoneLinked link) = tvDispatch (TvLinked link) page"
| "tvStep page (ChannelSaid ev) =
     (if channelToken (tp_session page) \<noteq> None \<and> saidByChannel ev then tvDispatch ev page else page)"
| "tvStep page (RoomLetGo roomId) = tvDispatch (TvRoomClosed roomId) page"
| "tvStep page (CheckAnswered k answer) = checkAnswered k answer page"
| "tvStep page CheckAgain = checkAgain page"
| "tvStep page SocketRefused = socketRefused page"
| "tvStep page (RefusedAnswered k revoked) = refusedAnswered k revoked page"

section \<open>What holds of a television\<close>

text \<open>What is in the storage is the session's token, and a kept token is being checked, or about to be, exactly while that is shown.\<close>

definition tvOk :: "tv_page \<Rightarrow> bool" where
  "tvOk page \<longleftrightarrow>
     tp_stored page = tokenOf (tp_session page)
     \<and> (checkingToken (tp_session page) \<noteq> None \<longleftrightarrow> tp_check page \<noteq> None \<or> tp_retry page)
     \<and> \<not> (tp_check page \<noteq> None \<and> tp_retry page)"

lemma checking_is_left:
  "checkingToken (sessionReducer state ev) = checkingToken state \<or> checkingToken (sessionReducer state ev) = None"
  by (cases ev) (auto simp: checkingToken_def split: tv_session.splits)

lemma tvDispatch_keeps: "tvOk page \<Longrightarrow> tvOk (tvDispatch ev page)"
  using checking_is_left [of "tp_session page" ev] by (auto simp: tvOk_def tvDispatch_def Let_def)

lemma answer_ends_checking:
  assumes "tvOk page" "tp_check page = Some k" "ev = TvRevoked \<or> (\<exists>account device. ev = TvMe account device)"
  shows "tvOk (tvDispatch ev (page\<lparr>tp_check := None\<rparr>))"
proof -
  have "checkingToken (tp_session page) \<noteq> None" using assms(1,2) by (auto simp: tvOk_def)
  then obtain t where t: "tp_session page = TvChecking t" by (auto simp: checkingToken_def split: tv_session.splits)
  show ?thesis using assms by (auto simp: t tvOk_def tvDispatch_def Let_def checkingToken_def tokenOf_def)
qed

lemma tvStep_keeps:
  assumes "tvOk page"
  shows "tvOk (tvStep page ev)"
proof (cases ev)
  case (CheckAnswered k answer)
  then show ?thesis using assms answer_ends_checking [OF assms]
    by (cases answer) (auto simp: checkAnswered_def Let_def, auto simp: tvOk_def)
next
  case (RefusedAnswered k revoked)
  have "tvOk (page\<lparr>tp_refused := r\<rparr>)" for r using assms by (simp add: tvOk_def)
  then show ?thesis using assms RefusedAnswered
    by (auto simp: refusedAnswered_def Let_def intro!: tvDispatch_keeps split: option.splits)
next
  case CheckAgain
  with assms show ?thesis by (auto simp: checkAgain_def tvOk_def)
next
  case SocketRefused
  with assms show ?thesis by (auto simp: socketRefused_def tvOk_def split: option.splits)
qed (use assms in \<open>simp_all add: tvDispatch_keeps\<close>)

interpretation tv_pages: component tvStep tvOk
  by unfold_locales (rule tvStep_keeps)

text \<open>a television never hangs between two lives. Whatever its phone, its socket and the server say, in whatever order: what is kept for the next start is the token in use, nothing while a code is shown; a kept token shown as being checked has a check under way or one about to be made; and outside of that none is.\<close>

theorem television_never_hangs:
  "let page = foldl tvStep (tvMount kept) events in
     tp_stored page = tokenOf (tp_session page)
     \<and> ((\<exists>t. tp_session page = TvChecking t) \<longleftrightarrow> tp_check page \<noteq> None \<or> tp_retry page)
     \<and> (tp_session page = TvPairing \<longleftrightarrow> tp_stored page = None)"
proof -
  have start: "tvOk (tvMount kept)" by (auto simp: tvOk_def tvMount_def Let_def)
  have "tvOk (foldl tvStep (tvMount kept) events)" by (rule tv_pages.run_keeps [OF start])
  then show ?thesis by (auto simp: tvOk_def Let_def checkingToken_def tokenOf_def split: tv_session.splits)
qed

text \<open>A socket refused under an old token: its check, answered after the television was linked again, takes the new link away.\<close>

theorem late_refusal_unlinks_the_new_token:
  assumes "mapGet (tp_refused page) k = Some old"
  shows "let page' = tvStep (tvStep page (PhoneLinked link)) (RefusedAnswered k True)
     in tp_session page' = TvPairing \<and> tp_stored page' = None"
  using assms by (simp add: tvDispatch_def refusedAnswered_def Let_def tokenOf_def)

text \<open>With only the media on, no voice is heard; a level set on the phone leaves the owner's voice off, unless it is theirs.\<close>

lemma foldl_zero: "mapGet (foldl (\<lambda>people i. mapSet i 0 people) m is) j = (if j \<in> set is then Some 0 else mapGet m j)"
  by (induction "is" arbitrary: m) auto

lemma only_media_is_silent: "i \<in> set memberIds \<Longrightarrow> memberVolume (onlyMedia mix memberIds) ownerId i = 0"
  by (simp add: memberVolume_def onlyMedia_def foldl_zero clampLevel_def)

lemma foldl_pairs:
  "mapGet (foldl (\<lambda>people (i, v). mapSet i v people) m xs) j = (case map_of (rev xs) j of Some v \<Rightarrow> Some v | None \<Rightarrow> mapGet m j)"
  by (induction xs arbitrary: m) (auto simp: map_add_def split: option.splits)

lemma owner_stays_silent:
  assumes "memberId \<noteq> ownerId" "mapGet (mx_people mix) ownerId = None"
  shows "memberVolume (withLevel mix memberId level ownerId) (Some ownerId) ownerId = 0"
proof -
  have "map_of (rev (mx_people mix)) ownerId = None" using assms(2) by (simp add: map_of_eq_None_iff)
  then show ?thesis using assms by (simp add: memberVolume_def withLevel_def foldl_pairs levelIn_def clampLevel_def)
qed

end
