(* ===== verification/Spec2Isabelle.thy ===== *)
theory Spec2Isabelle
  imports Prelude JsText Stages SegmentLedger Playlist Playback UploadQueue UploadNames RegionPlan Publish RemuxLoop
    Bytes RangeRead ByteTap MkvChapters AssVtt SubtitleFormats AssDoc Json Sync SyncFacts Magnet RemoteTorrent Uploads
    Youtube Subtitles SubtitleScan Posting Loaders PlayerTools CallPool
    JsonRead Companion CompanionApp Door Drive Plugins LocalRoom Live Remote TvLink
begin

text \<open>
  A verification library for the web client of juntos.lol, a site where the
  members of a room watch one video together. The library models the
  TypeScript of \<open>web/src\<close> that decides: how a browser prepares a video
  and publishes it, how the members' players stay together, how torrents and
  links become sources, and how subtitles travel. It does not model what draws.

  \<^bold>\<open>How the program fits together.\<close> A host opens a source in a room
  (\<open>upload.ts\<close>). A picked file or a url is remuxed in this tab
  (\<open>pipeline/clientMedia.ts\<close>): regions of the timeline are cut into segments,
  the segments are uploaded with signed urls, and the playlists are published.
  A torrent (\<open>remoteTorrent.ts\<close>) or a YouTube link (\<open>youtube.ts\<close>) is handed
  to a worker of the fleet or to a companion app. The file's bytes are read
  with resumable range requests (\<open>pipeline/rangeRead.ts\<close>) and mirrored
  (\<open>pipeline/byteTap.ts\<close>) to the scan for subtitles (\<open>subtitles.ts\<close>), which are
  converted to WebVTT (\<open>assvtt.ts\<close>, \<open>subtitleFormats.ts\<close>, \<open>assDoc.ts\<close>) and
  posted. Every member holds a socket to the room (\<open>player/useSync.ts\<close>) that
  carries the clock, the chat, the roll and the stages (\<open>room/stages.ts\<close>); the
  player decides from it when to resync, to hold and to report its health
  (\<open>player/gate.ts\<close>, \<open>position.ts\<close>, \<open>regions.ts\<close>, \<open>playbackHealth.ts\<close>).

  \<^bold>\<open>Conventions.\<close> Every function of the code is a function of the same name, a
  class or a closure's variables are a record, an \<open>await\<close> is the boundary
  between two steps: what the code does between two awaits is one step, and the
  settling of a promise, a timer, a message or a call from outside is an event.
  A component is then \<open>step :: state \<Rightarrow> event \<Rightarrow> state\<close>, its runs are
  \<open>foldl step\<close>, and its invariant is an interpretation of the locale
  \<open>component\<close> (or \<open>guarded_component\<close>, where the environment keeps a promise,
  or \<open>monotone_component\<close>) of theory Prelude, so that a property of all runs
  is the locale's lemma \<open>run_keeps\<close> at the component's own definitions. An
  error is a value of a datatype or an option; a JavaScript \<open>Map\<close> is an
  association list in insertion order, or a map where nothing iterates it; a
  number is an \<open>int\<close>, a \<open>nat\<close> or, where the code divides, a \<open>rat\<close>. Effects on
  the outside (calls of listeners, released jobs, messages sent) are a log in
  the state. Regular expressions are written out as functions over the list of
  characters.

  \<^bold>\<open>The theories and the code they model.\<close>
  \<^item> Prelude, JsText, Json, JsonRead, Bytes: shared vocabulary. Rounding, options, stable
    sorting, maps in insertion order, the locales; trimming, splitting, decimal
    numbers; JSON payloads; big-endian bytes.
  \<^item> SegmentLedger (\<open>pipeline/segmentLedger.ts\<close>): what was emitted and confirmed
    of every region. The tables refine the history of operations, and a
    confirmation never takes anything back.
  \<^item> Playlist: segment names, durations and the ending of a media playlist.
  \<^item> UploadQueue, UploadNames: \<open>admit\<close>, \<open>enqueue\<close>, \<open>pumpLoop\<close>, \<open>uploadBatch\<close> and
    \<open>settleObject\<close> of \<open>clientMedia.ts\<close>. Counters are exact and bounded, no wake-up
    is lost, the queue drains (a measure on its own events) and, without a
    restart, a failure or a rejected batch, every object is in one place.
  \<^item> RegionPlan: \<open>regionMap\<close>, \<open>timelineCovered\<close>, \<open>nextGap\<close>, \<open>uncovered\<close>. The host
    restarts exactly when no region serves the position: the viewer's player
    finds none holding it, and none aims at it.
  \<^item> Publish, RemuxLoop: \<open>publish\<close>, \<open>closeRegion\<close> and the loop
    \<open>remuxAndPublish\<close>, as a state machine over its awaits. One region grows,
    in a steady run playlists are ended only when whole; two runs show a wrong
    one.
  \<^item> RangeRead, ByteTap: a read over many requests, with its three budgets, and
    its mirror. The bytes handed out are the file's, in order, once; a stream
    fails only with a reason and cannot go on forever by itself, cancelled or not.
  \<^item> MkvChapters: the EBML reader and the chapters of a Matroska file.
  \<^item> AssVtt, AssDoc, SubtitleFormats, Subtitles: cues, markup, stamps and tracks;
    the collector that posts the union of a room's subtitle sources, related to
    the server's reading of a post. SubtitleScan (\<open>pipeline/subtitlePublish.ts\<close>):
    the pass over the video that feeds them, on the model of the byte tap, and
    the sibling files. The parser gets the file once and in order.
  \<^item> Posting (\<open>pipeline/postJson.ts\<close>, \<open>pipeline/seekTrace.ts\<close>): the POST that
    is tried again, and the trace of a seek.
  \<^item> Stages, Playback: the stages of a room, with the host's inbox refined by the
    history; the player's decisions and its throughput over a sliding window.
  \<^item> Loaders (\<open>player/prefetch.ts\<close>, \<open>player/bundle.ts\<close>): the two loaders given to
    hls.js. A load has one answer; a playlist comes from the bundle once.
    PlayerTools: recoveries, cues and their delay, the picture's rectangle, the
    pointer's way to a panel, the audio menu.
  \<^item> CallPool (\<open>call/\<close>): the pool of relay subscriptions to the other members'
    cameras and shared screens. No watch is lost or closed twice, a silent one
    is opened again. Who is worth a subscription, who is talking.
  \<^item> Companion, CompanionApp (\<open>jlocal/\<close>): a room produced by the companion app,
    with its runs, its poll and its follow. A position is looked at within three
    seconds, a stop is final for what is not under way. The presence of the app,
    what it advertises and the sounds it is told to carry.
  \<^item> Door (\<open>join.ts\<close>, \<open>roomCode.ts\<close>, \<open>human.ts\<close>, \<open>room/reactions.ts\<close>): what a
    browser keeps for its rooms, the code in an address, the check that someone
    is a person. Who it is cannot be swapped by a link; every caller of the check
    is answered once.
  \<^item> Drive (\<open>drive.ts\<close>): links, retried requests, the walk of a folder and the
    session. Opening ends after a bounded number of requests, whatever the
    service answers; what is listed is what is opened where paths are distinct.
  \<^item> LocalRoom (\<open>desktop/localRoom.ts\<close>): a room the desktop app produces. Uploads
    are of the source attached at that moment and of the generation they were
    claimed for; the place the room is at reaches the app; a guest's app opens
    only a page of YouTube or a magnet with checked trackers.
  \<^item> Live (\<open>live.ts\<close>): which producer takes a YouTube live, each asked once at most,
    and the following of the one the companion app keeps.
  \<^item> Remote (\<open>tv/keys.ts\<close>, \<open>tv/spatial.ts\<close>): the keys of a television's remote and
    where an arrow moves the focus.
  \<^item> TvLink (\<open>tv/session.ts\<close>, \<open>tv/useTvSession.ts\<close>, \<open>tvlink/code.ts\<close> and the mixes):
    a television linked to an account. A kept token is always being checked or
    in use; the code shown is the code read.
  \<^item> Plugins (\<open>plugins/\<close>): the policy of requests, manifests, one run in a worker,
    sources, updates and the registry. A plugin reaches only the hosts it declared
    and its user agreed to, however runs, updates and removals interleave.
  \<^item> Sync, SyncFacts: the hook \<open>useSync\<close>, from mount to unmount over any number of
    sockets. Chat lines are neither lost nor doubled, the seat is asked for
    again, a refusal is final, a dead link is given up.
  \<^item> Magnet, RemoteTorrent, Youtube: magnet links, the ranking of workers, the
    session of a torrent, and the resolution of a link.
  \<^item> Uploads: the registry of a tab. A listener is told once, one that comes late
    at once; a production that lost its room changes nothing of it, except
    through its handle and the detail of the last failure.

  \<^bold>\<open>Bounds and fuel.\<close> No definition uses fuel: every loop is structural
  recursion or has a measure (the unread bytes in MkvChapters, the text left
  in AssVtt and Subtitles, the queue in UploadQueue). Loops that wait for the
  outside are steps, so they end when the events do; the theorems of kind
  termination bound the events a component makes on its own. The limits of the
  code (eight uploads, 128 names of a publish, 64 tracks, 24 fonts, the read
  budgets, the fifteen seconds of a dead link) are the definitions of the same name.

  \<^bold>\<open>Parameters.\<close> Code that is not in the repository is an argument: the browser's
  \<open>URL\<close> parser, its SHA-256, \<open>localeCompare\<close>, the decoding of bytes, the Matroska parser and
  the muxer (their events), the server (its answers). Theorems that rely on
  such an argument state what they need of it as a hypothesis.

  \<^bold>\<open>Not modelled.\<close> The 64-bit rounding of numbers. The React components and hooks
  that only render (\<open>components/\<close>, \<open>pages/\<close>, the \<open>.tsx\<close> files of \<open>player/\<close>), the
  translations, styles and mocks. The Go server (\<open>internal/\<close>), the workers and
  the desktop shell (\<open>crates/\<close>, \<open>desktop/\<close>), which are other programs. Of the
  client, the screen share and media of calls (\<open>screenshare.ts\<close>, \<open>screen/\<close>, \<open>call/media.ts\<close>),
  the account, the socket of a television (\<open>tv/channel.ts\<close>) and the companion app's feed (\<open>jlocal/h264Feed.ts\<close>): they
  drive tracks, codecs and sockets of the browser, whose behaviour the source does
  not state. They are listed in the manifest.
\<close>

end
